(* ===== verification/Prelude.thy ===== *)
theory Prelude imports Main "HOL-Library.Word" "HOL-Library.Monad_Syntax" "HOL-Library.Signed_Division" begin

section \<open>Prelude: conventions and lemmas shared by the component theories\<close>

text \<open>
  Conventions used throughout the development.

  A kernel routine that can fail an \<open>ASSERT\<close>, call \<open>PANIC\<close> or \<open>exit (-1)\<close>, or touch
  memory that is not there is a function into \<open>'a option\<close>: \<open>None\<close> is \<open>the routine does not
  come back to its caller\<close>.  The sequencing of C statements is the \<open>do\<close> notation of that
  monad.  Routines that report failure to their caller (\<open>false\<close>, \<open>NULL\<close>, \<open>BITMAP_ERROR\<close>)
  return that value, as in the source.

  C's \<open>/\<close> truncates towards zero: it is \<open>sdiv\<close> of the signed-division library on \<open>int\<close>.
  Arithmetic whose wrap-around matters is done on words, or on \<open>int\<close> and \<open>nat\<close> with
  \<open>int32\<close>, \<open>int64\<close> or \<open>mod\<close> written out.
\<close>

unbundle bit_operations_syntax

named_theorems monad_simps \<open>unfolding of the option monad and of assertions\<close>
named_theorems frame_simps \<open>fields and stores an operation leaves alone\<close>

type_synonym ptr = nat
type_synonym byte = "8 word"
type_synonym u32 = "32 word"

subsection \<open>Assertions and the option monad\<close>

text \<open>\<open>ASSERT (c)\<close> of \<open>lib/debug.h\<close>: the kernel panics when the condition is false.\<close>

definition ASSERT :: "bool \<Rightarrow> unit option" where
  "ASSERT c = (if c then Some () else None)"

lemma ASSERT_bind [simp, monad_simps]: "(ASSERT c \<bind> f) = (if c then f () else None)"
  by (simp add: ASSERT_def)

lemma ASSERT_Some [simp]: "(ASSERT c = Some u) = c"
  by (simp add: ASSERT_def)

lemmas bind_Some_iff [monad_simps] = Option.bind_eq_Some_conv

subsection \<open>Lists\<close>

lemma hd_append_single: "hd (xs @ [y]) = (if xs = [] then y else hd xs)"
  by (cases xs) auto

lemma last_Cons_append_single [simp]: "last (x # xs @ [y]) = y"
  by simp

subsection \<open>Machine integers\<close>

text \<open>Two's-complement reading of the low 32 or 64 bits.\<close>

definition int32 :: "int \<Rightarrow> int" where
  "int32 x = signed_take_bit 31 x"

definition int64 :: "int \<Rightarrow> int" where
  "int64 x = signed_take_bit 63 x"

lemma int32_id: "- (2 ^ 31) \<le> x \<Longrightarrow> x < 2 ^ 31 \<Longrightarrow> int32 x = x"
  by (simp add: int32_def signed_take_bit_int_eq_self)

lemma int64_id: "- (2 ^ 63) \<le> x \<Longrightarrow> x < 2 ^ 63 \<Longrightarrow> int64 x = x"
  by (simp add: int64_def signed_take_bit_int_eq_self)

lemma int32_bounds: "- (2 ^ 31) \<le> int32 x \<and> int32 x < 2 ^ 31"
  unfolding int32_def
  using signed_take_bit_int_greater_eq_minus_exp [of 31 x] signed_take_bit_int_less_exp [of 31 x]
  by simp

text \<open>\<open>size_t\<close>.\<close>

definition usz :: "nat \<Rightarrow> nat" where
  "usz n = n mod 2 ^ 32"

lemma usz_id [simp]: "n < 2 ^ 32 \<Longrightarrow> usz n = n"
  by (simp add: usz_def)

subsection \<open>Little-endian words in memory\<close>

definition bytes_of_u32 :: "u32 \<Rightarrow> byte list" where
  "bytes_of_u32 w = [ucast w, ucast (drop_bit 8 w), ucast (drop_bit 16 w), ucast (drop_bit 24 w)]"

definition u32_of_bytes :: "byte list \<Rightarrow> u32" where
  "u32_of_bytes bs = ucast (bs ! 0) OR push_bit 8 (ucast (bs ! 1))
     OR push_bit 16 (ucast (bs ! 2)) OR push_bit 24 (ucast (bs ! 3))"

lemma length_bytes_of_u32 [simp]: "length (bytes_of_u32 w) = 4"
  by (simp add: bytes_of_u32_def)

lemma u32_of_bytes_of_u32 [simp]: "u32_of_bytes (bytes_of_u32 w) = w"
proof (rule bit_word_eqI)
  fix n
  assume "n < LENGTH(32)"
  then consider "n < 8" | "8 \<le> n" "n < 16" | "16 \<le> n" "n < 24" | "24 \<le> n" "n < 32" by fastforce
  then show "bit (u32_of_bytes (bytes_of_u32 w)) n = bit w n"
    by cases (auto simp: u32_of_bytes_def bytes_of_u32_def bit_simps)
qed

lemma bytes_of_u32_of_bytes: "length bs = 4 \<Longrightarrow> bytes_of_u32 (u32_of_bytes bs) = bs"
proof -
  assume "length bs = 4"
  then obtain a b c d where bs: "bs = [a, b, c, d]"
    by (auto simp: numeral_eq_Suc length_Suc_conv)
  have "ucast (u32_of_bytes bs) = a" "ucast (drop_bit 8 (u32_of_bytes bs)) = b"
    "ucast (drop_bit 16 (u32_of_bytes bs)) = c" "ucast (drop_bit 24 (u32_of_bytes bs)) = d"
    unfolding bs by (rule bit_word_eqI; auto simp: u32_of_bytes_def bit_simps dest: bit_imp_le_length)+
  then show ?thesis by (simp add: bytes_of_u32_def bs)
qed

end
