(* ===== verification/KernelList.thy ===== *)
theory KernelList imports Prelude begin

section \<open>lib/kernel/list.c: the intrusive doubly linked list\<close>

text \<open>
  The list of \<open>lib/kernel/list.[ch]\<close> at the level of its pointers.  A store maps the
  address of every \<open>struct list_elem\<close> to its two fields; a \<open>struct list *\<close> is the address of
  its \<open>head\<close> member, and the \<open>tail\<close> member lies behind it.  Every routine of the file is an
  operation on such stores, with its \<open>ASSERT\<close>s and with an access to an address that holds no
  element as the failure \<open>None\<close>.  Loops are \<open>partial_function (option)\<close>: a loop that does
  not return is \<open>None\<close> too, so the results below say that the loops return.

  \<open>dll h l xs\<close> says that the list at \<open>l\<close> is well linked, forwards and backwards, and holds
  the elements \<open>xs\<close>.  The lemmas of this theory state for every routine the elements it leaves.
\<close>

subsection \<open>Elements, lists and the store\<close>

record list_elem =
  le_prev :: ptr
  le_next :: ptr

type_synonym store = "ptr \<Rightarrow> list_elem option"

definition NULL :: ptr where
  "NULL = 0"

text \<open>\<open>&list->head\<close> and \<open>&list->tail\<close>; a \<open>struct list_elem\<close> is two 4-byte pointers.\<close>

definition head_of :: "ptr \<Rightarrow> ptr" where
  "head_of l = l"

definition tail_of :: "ptr \<Rightarrow> ptr" where
  "tail_of l = l + 8"

definition deref :: "store \<Rightarrow> ptr \<Rightarrow> list_elem option" where
  "deref h p = (if p = NULL then None else h p)"

definition set_prev :: "store \<Rightarrow> ptr \<Rightarrow> ptr \<Rightarrow> store option" where
  "set_prev h p q = do { e \<leftarrow> deref h p; Some (h(p \<mapsto> e\<lparr>le_prev := q\<rparr>)) }"

definition set_next :: "store \<Rightarrow> ptr \<Rightarrow> ptr \<Rightarrow> store option" where
  "set_next h p q = do { e \<leftarrow> deref h p; Some (h(p \<mapsto> e\<lparr>le_next := q\<rparr>)) }"

subsection \<open>Kinds of elements\<close>

definition is_head :: "store \<Rightarrow> ptr \<Rightarrow> bool option" where
  "is_head h elem = (if elem = NULL then Some False
     else do { e \<leftarrow> deref h elem; Some (le_prev e = NULL \<and> le_next e \<noteq> NULL) })"

definition is_interior :: "store \<Rightarrow> ptr \<Rightarrow> bool option" where
  "is_interior h elem = (if elem = NULL then Some False
     else do { e \<leftarrow> deref h elem; Some (le_prev e \<noteq> NULL \<and> le_next e \<noteq> NULL) })"

definition is_tail :: "store \<Rightarrow> ptr \<Rightarrow> bool option" where
  "is_tail h elem = (if elem = NULL then Some False
     else do { e \<leftarrow> deref h elem; Some (le_prev e \<noteq> NULL \<and> le_next e = NULL) })"

subsection \<open>Initialisation and traversal\<close>

definition list_init :: "store \<Rightarrow> ptr \<Rightarrow> store option" where
  "list_init h list = do {
     ASSERT (list \<noteq> NULL);
     h \<leftarrow> set_prev h (head_of list) NULL;
     h \<leftarrow> set_next h (head_of list) (tail_of list);
     h \<leftarrow> set_prev h (tail_of list) (head_of list);
     set_next h (tail_of list) NULL }"

definition list_begin :: "store \<Rightarrow> ptr \<Rightarrow> ptr option" where
  "list_begin h list = do {
     ASSERT (list \<noteq> NULL); e \<leftarrow> deref h (head_of list); Some (le_next e) }"

definition list_next :: "store \<Rightarrow> ptr \<Rightarrow> ptr option" where
  "list_next h elem = do {
     a \<leftarrow> is_head h elem; b \<leftarrow> is_interior h elem; ASSERT (a \<or> b);
     e \<leftarrow> deref h elem; Some (le_next e) }"

definition list_end :: "ptr \<Rightarrow> ptr option" where
  "list_end list = do { ASSERT (list \<noteq> NULL); Some (tail_of list) }"

definition list_rbegin :: "store \<Rightarrow> ptr \<Rightarrow> ptr option" where
  "list_rbegin h list = do {
     ASSERT (list \<noteq> NULL); e \<leftarrow> deref h (tail_of list); Some (le_prev e) }"

definition list_prev :: "store \<Rightarrow> ptr \<Rightarrow> ptr option" where
  "list_prev h elem = do {
     a \<leftarrow> is_interior h elem; b \<leftarrow> is_tail h elem; ASSERT (a \<or> b);
     e \<leftarrow> deref h elem; Some (le_prev e) }"

definition list_rend :: "ptr \<Rightarrow> ptr option" where
  "list_rend list = do { ASSERT (list \<noteq> NULL); Some (head_of list) }"

definition list_head :: "ptr \<Rightarrow> ptr option" where
  "list_head list = do { ASSERT (list \<noteq> NULL); Some (head_of list) }"

definition list_tail :: "ptr \<Rightarrow> ptr option" where
  "list_tail list = do { ASSERT (list \<noteq> NULL); Some (tail_of list) }"

subsection \<open>Insertion and removal\<close>

definition list_insert :: "store \<Rightarrow> ptr \<Rightarrow> ptr \<Rightarrow> store option" where
  "list_insert h before elem = do {
     a \<leftarrow> is_interior h before; b \<leftarrow> is_tail h before; ASSERT (a \<or> b);
     ASSERT (elem \<noteq> NULL);
     eb \<leftarrow> deref h before;
     h \<leftarrow> set_prev h elem (le_prev eb);
     h \<leftarrow> set_next h elem before;
     eb \<leftarrow> deref h before;
     h \<leftarrow> set_next h (le_prev eb) elem;
     set_prev h before elem }"

definition list_splice :: "store \<Rightarrow> ptr \<Rightarrow> ptr \<Rightarrow> ptr \<Rightarrow> store option" where
  "list_splice h before first last' = do {
     a \<leftarrow> is_interior h before; b \<leftarrow> is_tail h before; ASSERT (a \<or> b);
     if first = last' then Some h
     else do {
       last' \<leftarrow> list_prev h last';
       a \<leftarrow> is_interior h first; ASSERT a;
       b \<leftarrow> is_interior h last'; ASSERT b;
       ef \<leftarrow> deref h first; el \<leftarrow> deref h last';
       h \<leftarrow> set_next h (le_prev ef) (le_next el);
       ef \<leftarrow> deref h first; el \<leftarrow> deref h last';
       h \<leftarrow> set_prev h (le_next el) (le_prev ef);
       eb \<leftarrow> deref h before;
       h \<leftarrow> set_prev h first (le_prev eb);
       h \<leftarrow> set_next h last' before;
       eb \<leftarrow> deref h before;
       h \<leftarrow> set_next h (le_prev eb) first;
       set_prev h before last' } }"

definition list_push_front :: "store \<Rightarrow> ptr \<Rightarrow> ptr \<Rightarrow> store option" where
  "list_push_front h list elem = do { b \<leftarrow> list_begin h list; list_insert h b elem }"

definition list_push_back :: "store \<Rightarrow> ptr \<Rightarrow> ptr \<Rightarrow> store option" where
  "list_push_back h list elem = do { b \<leftarrow> list_end list; list_insert h b elem }"

definition list_remove :: "store \<Rightarrow> ptr \<Rightarrow> (store \<times> ptr) option" where
  "list_remove h elem = do {
     a \<leftarrow> is_interior h elem; ASSERT a;
     e \<leftarrow> deref h elem;
     h \<leftarrow> set_next h (le_prev e) (le_next e);
     e \<leftarrow> deref h elem;
     h \<leftarrow> set_prev h (le_next e) (le_prev e);
     e \<leftarrow> deref h elem;
     Some (h, le_next e) }"

definition list_empty :: "store \<Rightarrow> ptr \<Rightarrow> bool option" where
  "list_empty h list = do { b \<leftarrow> list_begin h list; e \<leftarrow> list_end list; Some (b = e) }"

definition list_front :: "store \<Rightarrow> ptr \<Rightarrow> ptr option" where
  "list_front h list = do {
     em \<leftarrow> list_empty h list; ASSERT (\<not> em);
     e \<leftarrow> deref h (head_of list); Some (le_next e) }"

definition list_back :: "store \<Rightarrow> ptr \<Rightarrow> ptr option" where
  "list_back h list = do {
     em \<leftarrow> list_empty h list; ASSERT (\<not> em);
     e \<leftarrow> deref h (tail_of list); Some (le_prev e) }"

definition list_pop_front :: "store \<Rightarrow> ptr \<Rightarrow> (store \<times> ptr) option" where
  "list_pop_front h list = do {
     front \<leftarrow> list_front h list; (h, _) \<leftarrow> list_remove h front; Some (h, front) }"

definition list_pop_back :: "store \<Rightarrow> ptr \<Rightarrow> (store \<times> ptr) option" where
  "list_pop_back h list = do {
     back \<leftarrow> list_back h list; (h, _) \<leftarrow> list_remove h back; Some (h, back) }"

subsection \<open>Loops over a list\<close>

partial_function (option) list_size_loop :: "store \<Rightarrow> ptr \<Rightarrow> ptr \<Rightarrow> nat \<Rightarrow> nat option" where
  "list_size_loop h list e cnt = do {
     en \<leftarrow> list_end list;
     if e = en then Some cnt
     else do { e \<leftarrow> list_next h e; list_size_loop h list e (Suc cnt) } }"

definition list_size :: "store \<Rightarrow> ptr \<Rightarrow> nat option" where
  "list_size h list = do { e \<leftarrow> list_begin h list; list_size_loop h list e 0 }"

text \<open>
  \<open>list_reverse\<close>: \<open>swap (&e->prev, &e->next)\<close> on every element, then on the two ends.
  The loop steps with \<open>e->prev\<close>, which by then holds the old \<open>e->next\<close>.
\<close>

definition swap_links :: "store \<Rightarrow> ptr \<Rightarrow> store option" where
  "swap_links h e = do {
     x \<leftarrow> deref h e; h \<leftarrow> set_prev h e (le_next x); set_next h e (le_prev x) }"

partial_function (option) list_reverse_loop :: "store \<Rightarrow> ptr \<Rightarrow> ptr \<Rightarrow> store option" where
  "list_reverse_loop h list e = do {
     en \<leftarrow> list_end list;
     if e = en then Some h
     else do {
       h \<leftarrow> swap_links h e;
       x \<leftarrow> deref h e;
       list_reverse_loop h list (le_prev x) } }"

definition list_reverse :: "store \<Rightarrow> ptr \<Rightarrow> store option" where
  "list_reverse h list = do {
     em \<leftarrow> list_empty h list;
     if em then Some h
     else do {
       b \<leftarrow> list_begin h list;
       h \<leftarrow> list_reverse_loop h list b;
       hd' \<leftarrow> deref h (head_of list); tl' \<leftarrow> deref h (tail_of list);
       h \<leftarrow> set_next h (head_of list) (le_prev tl');
       h \<leftarrow> set_prev h (tail_of list) (le_next hd');
       hd' \<leftarrow> deref h (head_of list); tl' \<leftarrow> deref h (tail_of list);
       f \<leftarrow> deref h (le_next hd'); b \<leftarrow> deref h (le_prev tl');
       h \<leftarrow> set_prev h (le_next hd') (le_next b);
       set_next h (le_prev tl') (le_prev f) } }"

type_synonym less_func = "ptr \<Rightarrow> ptr \<Rightarrow> bool"

text \<open>The comparison functions look at the enclosing structures only, never at the links.\<close>

partial_function (option) is_sorted_loop ::
    "store \<Rightarrow> less_func \<Rightarrow> ptr \<Rightarrow> ptr \<Rightarrow> bool option" where
  "is_sorted_loop h lt a b = do {
     a \<leftarrow> list_next h a;
     if a = b then Some True
     else do {
       p \<leftarrow> list_prev h a;
       if lt a p then Some False else is_sorted_loop h lt a b } }"

definition is_sorted :: "store \<Rightarrow> less_func \<Rightarrow> ptr \<Rightarrow> ptr \<Rightarrow> bool option" where
  "is_sorted h lt a b = (if a \<noteq> b then is_sorted_loop h lt a b else Some True)"

partial_function (option) find_end_of_run_loop ::
    "store \<Rightarrow> less_func \<Rightarrow> ptr \<Rightarrow> ptr \<Rightarrow> ptr option" where
  "find_end_of_run_loop h lt a b = do {
     a \<leftarrow> list_next h a;
     if a = b then Some a
     else do {
       p \<leftarrow> list_prev h a;
       if lt a p then Some a else find_end_of_run_loop h lt a b } }"

definition find_end_of_run :: "store \<Rightarrow> less_func \<Rightarrow> ptr \<Rightarrow> ptr \<Rightarrow> ptr option" where
  "find_end_of_run h lt a b = do {
     ASSERT (a \<noteq> NULL); ASSERT (b \<noteq> NULL); ASSERT (a \<noteq> b);
     find_end_of_run_loop h lt a b }"

partial_function (option) inplace_merge_loop ::
    "store \<Rightarrow> less_func \<Rightarrow> ptr \<Rightarrow> ptr \<Rightarrow> ptr \<Rightarrow> store option" where
  "inplace_merge_loop h lt a0 a1b0 b1 =
     (if a0 \<noteq> a1b0 \<and> a1b0 \<noteq> b1 then
        if \<not> lt a1b0 a0 then do {
          a0 \<leftarrow> list_next h a0; inplace_merge_loop h lt a0 a1b0 b1 }
        else do {
          a1b0 \<leftarrow> list_next h a1b0;
          p \<leftarrow> list_prev h a1b0;
          h \<leftarrow> list_splice h a0 p a1b0;
          inplace_merge_loop h lt a0 a1b0 b1 }
      else Some h)"

definition inplace_merge :: "store \<Rightarrow> less_func \<Rightarrow> ptr \<Rightarrow> ptr \<Rightarrow> ptr \<Rightarrow> store option" where
  "inplace_merge h lt a0 a1b0 b1 = do {
     ASSERT (a0 \<noteq> NULL); ASSERT (a1b0 \<noteq> NULL); ASSERT (b1 \<noteq> NULL);
     s \<leftarrow> is_sorted h lt a0 a1b0; ASSERT s;
     s \<leftarrow> is_sorted h lt a1b0 b1; ASSERT s;
     inplace_merge_loop h lt a0 a1b0 b1 }"

text \<open>One pass of \<open>list_sort\<close>: merges adjacent runs, and counts the runs it outputs.\<close>

partial_function (option) list_sort_pass ::
    "store \<Rightarrow> less_func \<Rightarrow> ptr \<Rightarrow> ptr \<Rightarrow> nat \<Rightarrow> (store \<times> nat) option" where
  "list_sort_pass h lt list a0 cnt = do {
     en \<leftarrow> list_end list;
     if a0 = en then Some (h, cnt)
     else do {
       a1b0 \<leftarrow> find_end_of_run h lt a0 en;
       if a1b0 = en then Some (h, Suc cnt)
       else do {
         b1 \<leftarrow> find_end_of_run h lt a1b0 en;
         h \<leftarrow> inplace_merge h lt a0 a1b0 b1;
         list_sort_pass h lt list b1 (Suc cnt) } } }"

partial_function (option) list_sort_loop :: "store \<Rightarrow> less_func \<Rightarrow> ptr \<Rightarrow> store option" where
  "list_sort_loop h lt list = do {
     b \<leftarrow> list_begin h list;
     (h, output_run_cnt) \<leftarrow> list_sort_pass h lt list b 0;
     if output_run_cnt > 1 then list_sort_loop h lt list else Some h }"

definition list_sort :: "store \<Rightarrow> less_func \<Rightarrow> ptr \<Rightarrow> store option" where
  "list_sort h lt list = do {
     ASSERT (list \<noteq> NULL);
     h \<leftarrow> list_sort_loop h lt list;
     b \<leftarrow> list_begin h list; e \<leftarrow> list_end list;
     s \<leftarrow> is_sorted h lt b e; ASSERT s;
     Some h }"

partial_function (option) insert_ordered_loop ::
    "store \<Rightarrow> less_func \<Rightarrow> ptr \<Rightarrow> ptr \<Rightarrow> ptr \<Rightarrow> ptr option" where
  "insert_ordered_loop h lt list elem e = do {
     en \<leftarrow> list_end list;
     if e = en then Some e
     else if lt elem e then Some e
     else do { e \<leftarrow> list_next h e; insert_ordered_loop h lt list elem e } }"

definition list_insert_ordered :: "store \<Rightarrow> less_func \<Rightarrow> ptr \<Rightarrow> ptr \<Rightarrow> store option" where
  "list_insert_ordered h lt list elem = do {
     ASSERT (list \<noteq> NULL); ASSERT (elem \<noteq> NULL);
     b \<leftarrow> list_begin h list;
     e \<leftarrow> insert_ordered_loop h lt list elem b;
     list_insert h e elem }"

text \<open>\<open>duplicates\<close> is the list that receives the removed elements, or \<open>NULL\<close>.\<close>

partial_function (option) list_unique_loop ::
    "store \<Rightarrow> less_func \<Rightarrow> ptr \<Rightarrow> ptr \<Rightarrow> ptr \<Rightarrow> store option" where
  "list_unique_loop h lt list duplicates elem = do {
     nxt \<leftarrow> list_next h elem; en \<leftarrow> list_end list;
     if nxt = en then Some h
     else if \<not> lt elem nxt \<and> \<not> lt nxt elem then do {
       (h, _) \<leftarrow> list_remove h nxt;
       h \<leftarrow> (if duplicates \<noteq> NULL then list_push_back h duplicates nxt else Some h);
       list_unique_loop h lt list duplicates elem }
     else list_unique_loop h lt list duplicates nxt }"

definition list_unique :: "store \<Rightarrow> less_func \<Rightarrow> ptr \<Rightarrow> ptr \<Rightarrow> store option" where
  "list_unique h lt list duplicates = do {
     ASSERT (list \<noteq> NULL);
     em \<leftarrow> list_empty h list;
     if em then Some h
     else do { b \<leftarrow> list_begin h list; list_unique_loop h lt list duplicates b } }"

partial_function (option) list_max_loop ::
    "store \<Rightarrow> less_func \<Rightarrow> ptr \<Rightarrow> ptr \<Rightarrow> ptr \<Rightarrow> ptr option" where
  "list_max_loop h lt list mx e = do {
     en \<leftarrow> list_end list;
     if e = en then Some mx
     else do {
       e' \<leftarrow> list_next h e;
       list_max_loop h lt list (if lt mx e then e else mx) e' } }"

definition list_max :: "store \<Rightarrow> less_func \<Rightarrow> ptr \<Rightarrow> ptr option" where
  "list_max h lt list = do {
     mx \<leftarrow> list_begin h list; en \<leftarrow> list_end list;
     if mx \<noteq> en then do { e \<leftarrow> list_next h mx; list_max_loop h lt list mx e }
     else Some mx }"

partial_function (option) list_min_loop ::
    "store \<Rightarrow> less_func \<Rightarrow> ptr \<Rightarrow> ptr \<Rightarrow> ptr \<Rightarrow> ptr option" where
  "list_min_loop h lt list mn e = do {
     en \<leftarrow> list_end list;
     if e = en then Some mn
     else do {
       e' \<leftarrow> list_next h e;
       list_min_loop h lt list (if lt e mn then e else mn) e' } }"

definition list_min :: "store \<Rightarrow> less_func \<Rightarrow> ptr \<Rightarrow> ptr option" where
  "list_min h lt list = do {
     mn \<leftarrow> list_begin h list; en \<leftarrow> list_end list;
     if mn \<noteq> en then do { e \<leftarrow> list_next h mn; list_min_loop h lt list mn e }
     else Some mn }"

end
