(* ===== verification/KernelListLinks.thy ===== *)
theory KernelListLinks imports KernelList begin

section \<open>Well-linked lists: what the single-step list operations do\<close>

text \<open>
  The representation predicate \<open>dll\<close> of \<open>lib/kernel/list.c\<close> and the effect of every routine
  without a loop: which elements the list holds afterwards, that it stays well linked in both
  directions, and that no address outside the list is written (\<open>same_outside\<close>).
\<close>

subsection \<open>Chains of cells\<close>

text \<open>
  \<open>chain h p xs q\<close>: the cells \<open>xs\<close> are linked in this order, the first one's \<open>prev\<close> is \<open>p\<close>
  and the last one's \<open>next\<close> is \<open>q\<close>.
\<close>

fun chain :: "store \<Rightarrow> ptr \<Rightarrow> ptr list \<Rightarrow> ptr \<Rightarrow> bool" where
  "chain h p [] q = True"
| "chain h p (x # xs) q =
     (h x = Some \<lparr>le_prev = p, le_next = hd (xs @ [q])\<rparr> \<and> chain h x xs q)"

definition cells :: "ptr \<Rightarrow> ptr list \<Rightarrow> ptr list" where
  "cells l xs = head_of l # xs @ [tail_of l]"

definition dll :: "store \<Rightarrow> ptr \<Rightarrow> ptr list \<Rightarrow> bool" where
  "dll h l xs = (chain h NULL (cells l xs) NULL \<and> distinct (cells l xs) \<and> NULL \<notin> set (cells l xs))"

definition same_outside :: "ptr set \<Rightarrow> store \<Rightarrow> store \<Rightarrow> bool" where
  "same_outside S h h' = ((\<forall>x. x \<notin> S \<longrightarrow> h' x = h x) \<and> dom h' = dom h)"

lemma chain_append:
  "chain h p (xs @ ys) q \<longleftrightarrow> chain h p xs (hd (ys @ [q])) \<and> chain h (last (p # xs)) ys q"
  by (induction xs arbitrary: p) (auto simp: hd_append)

lemma chain_cong: "(\<And>x. x \<in> set xs \<Longrightarrow> h' x = h x) \<Longrightarrow> chain h' p xs q = chain h p xs q"
  by (induction xs arbitrary: p) auto

lemma chain_upd [simp]: "x \<notin> set xs \<Longrightarrow> chain (h(x := v)) p xs q = chain h p xs q"
  by (rule chain_cong) auto

lemma chain_relink_first:
  assumes "chain h p xs q" and "xs \<noteq> []" and "distinct xs"
  shows "chain (h(hd xs \<mapsto> (the (h (hd xs)))\<lparr>le_prev := p'\<rparr>)) p' xs q"
  using assms by (cases xs) auto

lemma chain_relink_last:
  assumes "chain h p xs q" and "xs \<noteq> []" and "distinct xs"
  shows "chain (h(last xs \<mapsto> (the (h (last xs)))\<lparr>le_next := q'\<rparr>)) p xs q'"
proof -
  obtain ys y where "xs = ys @ [y]" using assms(2) by (cases xs rule: rev_cases) auto
  with assms show ?thesis by (auto simp: chain_append)
qed

lemma chain_mem: "chain h p xs q \<Longrightarrow> x \<in> set xs \<Longrightarrow> x \<in> dom h"
  by (induction xs arbitrary: p) auto

lemma chain_first: "chain h p xs q \<Longrightarrow> xs \<noteq> [] \<Longrightarrow> \<exists>n. h (hd xs) = Some \<lparr>le_prev = p, le_next = n\<rparr>"
  by (cases xs) auto

lemma chain_last: "chain h p xs q \<Longrightarrow> xs \<noteq> [] \<Longrightarrow> \<exists>m. h (last xs) = Some \<lparr>le_prev = m, le_next = q\<rparr>"
  by (cases xs rule: rev_cases) (auto simp: chain_append)

lemma same_outside_refl [simp]: "same_outside S h h"
  by (simp add: same_outside_def)

lemma same_outside_trans:
  "same_outside S h h' \<Longrightarrow> same_outside T h' h'' \<Longrightarrow> same_outside (S \<union> T) h h''"
  by (auto simp: same_outside_def)

lemma same_outside_mono: "same_outside S h h' \<Longrightarrow> S \<subseteq> T \<Longrightarrow> same_outside T h h'"
  by (auto simp: same_outside_def)

lemma same_outside_upd:
  "same_outside S h h' \<Longrightarrow> x \<in> S \<Longrightarrow> x \<in> dom h \<Longrightarrow> same_outside S h (h'(x \<mapsto> v))"
  by (auto simp: same_outside_def)

lemma dll_frame:
  "dll h l xs \<Longrightarrow> same_outside S h h' \<Longrightarrow> S \<inter> set (cells l xs) = {} \<Longrightarrow> dll h' l xs"
  unfolding dll_def same_outside_def
  by (metis chain_cong disjoint_iff)

lemma dll_dom: "dll h l xs \<Longrightarrow> x \<in> set (cells l xs) \<Longrightarrow> x \<in> dom h"
  unfolding dll_def using chain_mem by blast

lemma dll_distinct: "dll h l xs \<Longrightarrow> distinct xs"
  by (simp add: dll_def cells_def)

lemma dll_null [simp]: "dll h l xs \<Longrightarrow> l \<noteq> NULL"
  by (auto simp: dll_def cells_def head_of_def)

lemma dll_not_null: "dll h l xs \<Longrightarrow> x \<in> set xs \<Longrightarrow> x \<noteq> NULL \<and> x \<noteq> head_of l \<and> x \<noteq> tail_of l"
  by (auto simp: dll_def cells_def)

lemma dll_tail_not_null: "dll h l xs \<Longrightarrow> tail_of l \<noteq> NULL"
  by (auto simp: dll_def cells_def)

subsection \<open>Reading a well-linked list\<close>

lemma dll_at:
  assumes "dll h l (as @ x # bs)"
  shows "h x = Some \<lparr>le_prev = last (head_of l # as), le_next = hd (bs @ [tail_of l])\<rparr>"
  using assms by (auto simp: dll_def cells_def chain_append hd_append)

lemma dll_head: "dll h l xs \<Longrightarrow> h (head_of l) = Some \<lparr>le_prev = NULL, le_next = hd (xs @ [tail_of l])\<rparr>"
  by (auto simp: dll_def cells_def hd_append)

lemma dll_tail: "dll h l xs \<Longrightarrow> h (tail_of l) = Some \<lparr>le_prev = last (head_of l # xs), le_next = NULL\<rparr>"
  by (auto simp: dll_def cells_def chain_append)

lemma last_cells_not_null: "dll h l (as @ bs) \<Longrightarrow> last (head_of l # as) \<noteq> NULL"
  by (cases as rule: rev_cases) (auto simp: dll_def cells_def)

lemma hd_cells_not_null: "dll h l (as @ bs) \<Longrightarrow> hd (bs @ [tail_of l]) \<noteq> NULL"
  by (cases bs) (auto simp: dll_def cells_def)

lemmas access_defs = deref_def is_head_def is_interior_def is_tail_def set_prev_def set_next_def

lemma list_begin_dll: "dll h l xs \<Longrightarrow> list_begin h l = Some (hd (xs @ [tail_of l]))"
  using dll_head [of h l xs] dll_null [of h l xs]
  by (simp add: list_begin_def deref_def head_of_def)

lemma list_end_dll: "dll h l xs \<Longrightarrow> list_end l = Some (tail_of l)"
  by (simp add: list_end_def)

lemma list_rbegin_dll: "dll h l xs \<Longrightarrow> list_rbegin h l = Some (last (head_of l # xs))"
  using dll_tail [of h l xs] dll_tail_not_null [of h l xs]
  by (simp add: list_rbegin_def deref_def)

lemma list_next_dll:
  assumes "dll h l (as @ x # bs)"
  shows "list_next h x = Some (hd (bs @ [tail_of l]))"
  using dll_at [OF assms] last_cells_not_null [of h l as "x # bs"] assms
    hd_cells_not_null [of h l "as @ [x]" bs] dll_not_null [OF assms, of x]
  by (simp add: list_next_def access_defs)

lemma list_next_head: "dll h l xs \<Longrightarrow> list_next h (head_of l) = Some (hd (xs @ [tail_of l]))"
  using dll_head [of h l xs] hd_cells_not_null [of h l "[]" xs] dll_null [of h l xs]
  by (simp add: list_next_def access_defs head_of_def)

lemma list_prev_dll:
  assumes "dll h l (as @ x # bs)"
  shows "list_prev h x = Some (last (head_of l # as))"
  using dll_at [OF assms] last_cells_not_null [of h l as "x # bs"] assms
    hd_cells_not_null [of h l "as @ [x]" bs] dll_not_null [OF assms, of x]
  by (simp add: list_prev_def access_defs)

lemma list_prev_tail: "dll h l xs \<Longrightarrow> list_prev h (tail_of l) = Some (last (head_of l # xs))"
  using dll_tail [of h l xs] last_cells_not_null [of h l xs "[]"] dll_tail_not_null [of h l xs]
  by (simp add: list_prev_def access_defs)

lemma list_empty_dll: "dll h l xs \<Longrightarrow> list_empty h l = Some (xs = [])"
  using dll_not_null [of h l xs]
  by (cases xs) (auto simp: list_empty_def list_begin_dll list_end_dll)

lemma list_front_dll: "dll h l (x # xs) \<Longrightarrow> list_front h l = Some x"
  using dll_head [of h l "x # xs"] dll_null [of h l "x # xs"]
  by (simp add: list_front_def list_empty_dll deref_def head_of_def)

lemma list_back_dll: "dll h l (xs @ [x]) \<Longrightarrow> list_back h l = Some x"
  using dll_tail [of h l "xs @ [x]"] dll_tail_not_null [of h l "xs @ [x]"]
  by (simp add: list_back_def list_empty_dll deref_def)

subsection \<open>Insertion\<close>

lemma list_elem_upd_both [simp]:
  "(e::list_elem)\<lparr>le_prev := p, le_next := n\<rparr> = \<lparr>le_prev = p, le_next = n\<rparr>"
  by (rule list_elem.equality) simp_all

lemma list_insert_cells:
  assumes ch: "chain h P (as @ p # b # bs) Q" and dist: "distinct (as @ p # b # bs)"
    and nn: "NULL \<notin> set (as @ p # b # bs)" and e: "e \<notin> set (as @ p # b # bs)" "e \<in> dom h" "e \<noteq> NULL"
  shows "\<exists>h'. list_insert h b e = Some h' \<and> chain h' P (as @ p # e # b # bs) Q
    \<and> same_outside {p, e, b} h h'"
proof -
  from ch have p: "h p = Some \<lparr>le_prev = last (P # as), le_next = b\<rparr>"
    and b: "h b = Some \<lparr>le_prev = p, le_next = hd (bs @ [Q])\<rparr>"
    by (auto simp: chain_append)
  from e obtain ee where ee: "h e = Some ee" by auto
  let ?h = "h(e \<mapsto> \<lparr>le_prev = p, le_next = b\<rparr>, p \<mapsto> \<lparr>le_prev = last (P # as), le_next = e\<rparr>,
    b \<mapsto> \<lparr>le_prev = e, le_next = hd (bs @ [Q])\<rparr>)"
  from dist nn e have ne: "p \<noteq> b" "e \<noteq> p" "e \<noteq> b" "p \<noteq> NULL" "b \<noteq> NULL" by auto
  have eq: "list_insert h b e = Some ?h"
    using p b ee ne e by (auto simp: list_insert_def access_defs fun_eq_iff)
  have ch': "chain ?h P (as @ p # e # b # bs) Q"
    using ch dist e ne by (auto simp: chain_append)
  have "same_outside {p, e, b} h ?h"
    using p b ee by (auto simp: same_outside_def)
  with eq ch' show ?thesis by blast
qed

lemma cells_append_Cons:
  "\<exists>as' p b bs'. cells l (as @ bs) = as' @ p # b # bs' \<and> b = hd (bs @ [tail_of l])
     \<and> p = last (head_of l # as) \<and> as' @ [p] = head_of l # as \<and> b # bs' = bs @ [tail_of l]"
proof -
  obtain as' p where a: "head_of l # as = as' @ [p]" by (metis append_butlast_last_id list.distinct(1))
  obtain b bs' where b: "bs @ [tail_of l] = b # bs'" by (cases bs) auto
  from a have "p = last (head_of l # as)" by (metis last_snoc)
  moreover from b have "b = hd (bs @ [tail_of l])" by (metis list.sel(1))
  moreover have "cells l (as @ bs) = (head_of l # as) @ (bs @ [tail_of l])" by (simp add: cells_def)
  with a b have "cells l (as @ bs) = as' @ p # b # bs'" by simp
  ultimately show ?thesis using a b by metis
qed

lemma list_insert_dll:
  assumes d: "dll h l (as @ bs)" and e: "e \<notin> set (cells l (as @ bs))" "e \<in> dom h" "e \<noteq> NULL"
  shows "\<exists>h'. list_insert h (hd (bs @ [tail_of l])) e = Some h' \<and> dll h' l (as @ e # bs)
    \<and> same_outside (insert e (set (cells l (as @ bs)))) h h'"
proof -
  obtain as' p b bs' where c: "cells l (as @ bs) = as' @ p # b # bs'" "b = hd (bs @ [tail_of l])"
    "as' @ [p] = head_of l # as" "b # bs' = bs @ [tail_of l]"
    using cells_append_Cons by blast
  have c': "cells l (as @ e # bs) = as' @ p # e # b # bs'"
    using c(3,4) unfolding cells_def
    by (metis append.assoc append_Cons append_Nil)
  from d e c(1) obtain h' where h': "list_insert h b e = Some h'" "chain h' NULL (as' @ p # e # b # bs') NULL"
    "same_outside {p, e, b} h h'"
    using list_insert_cells [of h NULL as' p b bs' NULL e] unfolding dll_def by auto
  have "dll h' l (as @ e # bs)" using h'(2) d e c(1) c' unfolding dll_def by auto
  moreover have "same_outside (insert e (set (cells l (as @ bs)))) h h'"
    using h'(3) c(1) by (auto elim: same_outside_mono)
  ultimately show ?thesis using h'(1) c(2) by blast
qed

lemma list_push_front_dll:
  assumes "dll h l xs" and "e \<notin> set (cells l xs)" "e \<in> dom h" "e \<noteq> NULL"
  shows "\<exists>h'. list_push_front h l e = Some h' \<and> dll h' l (e # xs)
    \<and> same_outside (insert e (set (cells l xs))) h h'"
  using list_insert_dll [of h l "[]" xs e] assms by (simp add: list_push_front_def list_begin_dll)

lemma list_push_back_dll:
  assumes "dll h l xs" and "e \<notin> set (cells l xs)" "e \<in> dom h" "e \<noteq> NULL"
  shows "\<exists>h'. list_push_back h l e = Some h' \<and> dll h' l (xs @ [e])
    \<and> same_outside (insert e (set (cells l xs))) h h'"
  using list_insert_dll [of h l xs "[]" e] assms by (simp add: list_push_back_def list_end_dll)

subsection \<open>Removal\<close>

lemma list_remove_cells:
  assumes ch: "chain h P (as @ p # e # b # bs) Q" and dist: "distinct (as @ p # e # b # bs)"
    and nn: "NULL \<notin> set (as @ p # e # b # bs)"
  shows "\<exists>h'. list_remove h e = Some (h', b) \<and> chain h' P (as @ p # b # bs) Q
    \<and> same_outside {p, b} h h' \<and> h' e = Some \<lparr>le_prev = p, le_next = b\<rparr>"
proof -
  from ch have p: "h p = Some \<lparr>le_prev = last (P # as), le_next = e\<rparr>"
    and e: "h e = Some \<lparr>le_prev = p, le_next = b\<rparr>"
    and b: "h b = Some \<lparr>le_prev = e, le_next = hd (bs @ [Q])\<rparr>"
    by (auto simp: chain_append)
  let ?h = "h(p \<mapsto> \<lparr>le_prev = last (P # as), le_next = b\<rparr>, b \<mapsto> \<lparr>le_prev = p, le_next = hd (bs @ [Q])\<rparr>)"
  from dist nn have ne: "p \<noteq> b" "e \<noteq> p" "e \<noteq> b" "p \<noteq> NULL" "b \<noteq> NULL" "e \<noteq> NULL" by auto
  have "list_remove h e = Some (?h, b)"
    using p b e ne by (simp add: list_remove_def access_defs fun_upd_twist)
  moreover have "chain ?h P (as @ p # b # bs) Q"
    using ch dist ne by (auto simp: chain_append)
  moreover have "same_outside {p, b} h ?h"
    using p b by (auto simp: same_outside_def)
  moreover have "?h e = Some \<lparr>le_prev = p, le_next = b\<rparr>" using e ne by simp
  ultimately show ?thesis by blast
qed

text \<open>
  The removed element keeps its own links: \<open>e->prev\<close> and \<open>e->next\<close> still name its former
  neighbours.
\<close>

lemma list_remove_dll:
  assumes d: "dll h l (as @ e # bs)"
  shows "\<exists>h'. list_remove h e = Some (h', hd (bs @ [tail_of l])) \<and> dll h' l (as @ bs)
    \<and> same_outside (set (cells l (as @ bs))) h h'
    \<and> h' e = Some \<lparr>le_prev = last (head_of l # as), le_next = hd (bs @ [tail_of l])\<rparr>"
proof -
  obtain as' p b bs' where c: "cells l (as @ bs) = as' @ p # b # bs'" "b = hd (bs @ [tail_of l])"
    "p = last (head_of l # as)" "as' @ [p] = head_of l # as" "b # bs' = bs @ [tail_of l]"
    using cells_append_Cons by blast
  have c': "cells l (as @ e # bs) = as' @ p # e # b # bs'"
    using c(4,5) unfolding cells_def
    by (metis append.assoc append_Cons append_Nil)
  from d c' obtain h' where h': "list_remove h e = Some (h', b)" "chain h' NULL (as' @ p # b # bs') NULL"
    "same_outside {p, b} h h'" "h' e = Some \<lparr>le_prev = p, le_next = b\<rparr>"
    using list_remove_cells [of h NULL as' p e b bs' NULL] unfolding dll_def by auto
  have "dll h' l (as @ bs)" using h'(2) d c(1) c' unfolding dll_def by auto
  moreover have "same_outside (set (cells l (as @ bs))) h h'"
    using h'(3) c(1) by (auto elim: same_outside_mono)
  ultimately show ?thesis using h'(1,4) c(2,3) by blast
qed

text \<open>
  Removing an element that has just been removed rewrites the same two links: the second
  \<open>list_remove\<close> returns and the list is unchanged.  \<open>sema_up\<close> relies on this.
\<close>

lemma list_remove_again:
  assumes d: "dll h l (as @ bs)"
    and e: "h e = Some \<lparr>le_prev = last (head_of l # as), le_next = hd (bs @ [tail_of l])\<rparr>" "e \<noteq> NULL"
    "e \<notin> set (cells l (as @ bs))"
  shows "list_remove h e = Some (h, hd (bs @ [tail_of l]))"
proof -
  obtain as' p b bs' where c: "cells l (as @ bs) = as' @ p # b # bs'" "b = hd (bs @ [tail_of l])"
    "p = last (head_of l # as)" "as' @ [p] = head_of l # as" "b # bs' = bs @ [tail_of l]"
    using cells_append_Cons by blast
  from d c(1) have ch: "chain h NULL (as' @ p # b # bs') NULL" and nn: "NULL \<notin> set (as' @ p # b # bs')"
    and dist: "distinct (as' @ p # b # bs')"
    by (simp_all add: dll_def)
  from ch have p: "h p = Some \<lparr>le_prev = last (NULL # as'), le_next = b\<rparr>"
    and b: "h b = Some \<lparr>le_prev = p, le_next = hd (bs' @ [NULL])\<rparr>"
    by (auto simp: chain_append)
  from e c(2,3) have e': "h e = Some \<lparr>le_prev = p, le_next = b\<rparr>" by simp
  from nn dist e(3) c(1) have ne: "p \<noteq> NULL" "b \<noteq> NULL" "p \<noteq> b" "e \<noteq> p" "e \<noteq> b" by auto
  have u: "h(p \<mapsto> \<lparr>le_prev = last (NULL # as'), le_next = b\<rparr>) = h"
    "h(b \<mapsto> \<lparr>le_prev = p, le_next = hd (bs' @ [NULL])\<rparr>) = h"
    using p b by (auto simp: fun_upd_idem)
  show ?thesis
    unfolding list_remove_def access_defs c(2) [symmetric]
    using p b e' ne e(2) u by simp
qed

lemma list_pop_front_dll:
  assumes d: "dll h l (x # xs)"
  shows "\<exists>h'. list_pop_front h l = Some (h', x) \<and> dll h' l xs \<and> same_outside (set (cells l xs)) h h'
    \<and> h' x = Some \<lparr>le_prev = head_of l, le_next = hd (xs @ [tail_of l])\<rparr>"
  using list_remove_dll [of h l "[]" x xs] list_front_dll [OF d] d
  by (auto simp: list_pop_front_def)

lemma list_pop_back_dll:
  assumes d: "dll h l (xs @ [x])"
  shows "\<exists>h'. list_pop_back h l = Some (h', x) \<and> dll h' l xs \<and> same_outside (set (cells l xs)) h h'"
  using list_remove_dll [of h l xs x "[]"] list_back_dll [OF d] d
  by (auto simp: list_pop_back_def)

lemma list_init_dll:
  assumes "l \<noteq> NULL" "head_of l \<in> dom h" "tail_of l \<in> dom h"
  shows "\<exists>h'. list_init h l = Some h' \<and> dll h' l [] \<and> same_outside {head_of l, tail_of l} h h'"
  using assms
  by (auto simp: list_init_def access_defs dll_def cells_def head_of_def tail_of_def same_outside_def
      NULL_def)

subsection \<open>Splicing\<close>

definition relink_prev :: "store \<Rightarrow> ptr \<Rightarrow> ptr \<Rightarrow> store" where
  "relink_prev h x v = h(x \<mapsto> (the (h x))\<lparr>le_prev := v\<rparr>)"

definition relink_next :: "store \<Rightarrow> ptr \<Rightarrow> ptr \<Rightarrow> store" where
  "relink_next h x v = h(x \<mapsto> (the (h x))\<lparr>le_next := v\<rparr>)"

lemma set_prev_relink: "x \<noteq> NULL \<Longrightarrow> x \<in> dom h \<Longrightarrow> set_prev h x v = Some (relink_prev h x v)"
  by (auto simp: set_prev_def deref_def relink_prev_def)

lemma set_next_relink: "x \<noteq> NULL \<Longrightarrow> x \<in> dom h \<Longrightarrow> set_next h x v = Some (relink_next h x v)"
  by (auto simp: set_next_def deref_def relink_next_def)

lemma deref_the: "x \<noteq> NULL \<Longrightarrow> x \<in> dom h \<Longrightarrow> deref h x = Some (the (h x))"
  by (auto simp: deref_def)

lemma relink_dom: "x \<in> dom h \<Longrightarrow> dom (relink_prev h x v) = dom h \<and> dom (relink_next h x v) = dom h"
  by (auto simp: relink_prev_def relink_next_def)

lemma relink_fields:
  "le_prev (the (relink_prev h x v y)) = (if y = x then v else le_prev (the (h y)))"
  "le_next (the (relink_prev h x v y)) = le_next (the (h y))"
  "le_prev (the (relink_next h x v y)) = le_prev (the (h y))"
  "le_next (the (relink_next h x v y)) = (if y = x then v else le_next (the (h y)))"
  by (auto simp: relink_prev_def relink_next_def)

lemma relink_other: "y \<noteq> x \<Longrightarrow> relink_prev h x v y = h y" "y \<noteq> x \<Longrightarrow> relink_next h x v y = h y"
  by (auto simp: relink_prev_def relink_next_def)

lemma chain_relink_other:
  "x \<notin> set xs \<Longrightarrow> chain (relink_prev h x v) p xs q = chain h p xs q"
  "x \<notin> set xs \<Longrightarrow> chain (relink_next h x v) p xs q = chain h p xs q"
  by (auto simp: relink_prev_def relink_next_def)

lemma chain_relink_hd:
  "chain h p xs q \<Longrightarrow> xs \<noteq> [] \<Longrightarrow> distinct xs \<Longrightarrow> x = hd xs \<Longrightarrow> chain (relink_prev h x v) v xs q"
  using chain_relink_first by (simp add: relink_prev_def)

lemma chain_relink_lst:
  "chain h p xs q \<Longrightarrow> xs \<noteq> [] \<Longrightarrow> distinct xs \<Longrightarrow> x = last xs \<Longrightarrow> chain (relink_next h x v) p xs v"
  using chain_relink_last by (simp add: relink_next_def)

lemma chain_append4:
  assumes "bs \<noteq> []" and "cs \<noteq> []"
  shows "chain h P ((as @ [p]) @ bs @ cs @ (d # ds)) Q \<longleftrightarrow>
    chain h P (as @ [p]) (hd bs) \<and> chain h p bs (hd cs) \<and> chain h (last bs) cs d \<and> chain h (last cs) (d # ds) Q"
  unfolding chain_append using assms by (auto simp: hd_append)

lemma chain_interior:
  "chain h p xs q \<Longrightarrow> x \<in> set xs \<Longrightarrow> NULL \<notin> set xs \<Longrightarrow> p \<noteq> NULL \<Longrightarrow> q \<noteq> NULL
    \<Longrightarrow> le_next (the (h x)) \<noteq> NULL \<and> le_prev (the (h x)) \<noteq> NULL"
proof (induction xs arbitrary: p)
  case (Cons a xs)
  then show ?case by (cases xs) auto
qed simp

text \<open>
  \<open>list_splice\<close> used inside one list: the segment \<open>cs\<close> moves in front of the segment \<open>bs\<close>
  that precedes it.
\<close>

lemma list_splice_cells:
  assumes ch: "chain h P ((as @ [p]) @ bs @ cs @ (d # ds)) Q"
    and dist: "distinct ((as @ [p]) @ bs @ cs @ (d # ds))"
    and nn: "NULL \<notin> set ((as @ [p]) @ bs @ cs @ (d # ds))" and ne: "bs \<noteq> []" "cs \<noteq> []"
  shows "\<exists>h'. list_splice h (hd bs) (hd cs) d = Some h'
    \<and> chain h' P ((as @ [p]) @ cs @ bs @ (d # ds)) Q
    \<and> same_outside (set (p # bs @ cs @ [d])) h h'"
proof -
  define b y f z where d: "b = hd bs" "y = last bs" "f = hd cs" "z = last cs"
  from ne have mem: "b \<in> set bs" "y \<in> set bs" "f \<in> set cs" "z \<in> set cs" by (simp_all add: d)
  from ch ne have C: "chain h P (as @ [p]) b" "chain h p bs f" "chain h y cs d" "chain h z (d # ds) Q"
    unfolding chain_append4 [OF ne] d by blast+
  have fld: "le_next (the (h p)) = b" "le_prev (the (h b)) = p" "le_next (the (h y)) = f"
    "le_prev (the (h f)) = y" "le_next (the (h z)) = d" "le_prev (the (h d)) = z"
    using chain_last [OF C(1)] chain_first [OF C(2)] chain_last [OF C(2)] chain_first [OF C(3)]
      chain_last [OF C(3)] chain_first [OF C(4)] ne by (auto simp: d(1-4))
  have dm: "{p, b, y, f, z, d} \<subseteq> dom h"
    using mem chain_mem [OF C(1), of p] chain_mem [OF C(2)] chain_mem [OF C(3)] chain_mem [OF C(4), of d]
    by (simp del: chain.simps add: subset_iff)
  have nz: "p \<noteq> NULL" "b \<noteq> NULL" "y \<noteq> NULL" "f \<noteq> NULL" "z \<noteq> NULL" "d \<noteq> NULL"
    using nn mem by auto
  have dj: "p \<notin> set bs" "p \<notin> set cs" "p \<noteq> d" "p \<notin> set ds" "d \<notin> set as" "d \<notin> set bs" "d \<notin> set cs"
      "set bs \<inter> set cs = {}" "set as \<inter> set bs = {}" "set as \<inter> set cs = {}"
      "set ds \<inter> set bs = {}" "set ds \<inter> set cs = {}"
    using dist by auto
  have neq: "f \<noteq> b" "f \<noteq> y" "z \<noteq> b" "z \<noteq> y" "p \<noteq> b" "p \<noteq> y" "p \<noteq> f" "p \<noteq> z" "d \<noteq> b" "d \<noteq> y" "d \<noteq> f" "d \<noteq> z" "d \<noteq> p"
    using mem dj by auto
  have nm: "b \<notin> set as" "y \<notin> set as" "f \<notin> set as" "z \<notin> set as" "f \<notin> set bs" "z \<notin> set bs"
    "b \<notin> set cs" "y \<notin> set cs" "b \<notin> set ds" "y \<notin> set ds" "f \<notin> set ds" "z \<notin> set ds"
    using mem dj by auto
  have nxt: "le_next (the (h b)) \<noteq> NULL" "le_next (the (h f)) \<noteq> NULL" "le_prev (the (h z)) \<noteq> NULL"
    using chain_interior [OF C(2) mem(1)] chain_interior [OF C(3) mem(3)]
      chain_interior [OF C(3) mem(4)] nn nz by auto
  let ?h = "relink_prev (relink_next (relink_next (relink_prev (relink_prev (relink_next h y d) d y) f p) z b) p f) b z"
  have kinds: "is_interior h b = Some True" "is_interior h f = Some True" "is_interior h z = Some True"
      "is_tail h b = Some False" "list_prev h d = Some z"
    using dm nz fld nxt
    by (simp_all add: is_interior_def is_tail_def list_prev_def deref_the)
  let ?h1 = "relink_next h y d"
  let ?h2 = "relink_prev ?h1 d y"
  let ?h3 = "relink_next (relink_prev ?h2 f p) z b"
  have dm1: "dom ?h1 = dom h" using dm by (simp add: relink_dom)
  then have dm2: "dom ?h2 = dom h" using dm by (simp add: relink_dom)
  then have dm3: "dom (relink_prev ?h2 f p) = dom h" using dm by (simp add: relink_dom)
  then have dm4: "dom ?h3 = dom h" using dm by (simp add: relink_dom)
  then have dm5: "dom (relink_next ?h3 p f) = dom h" using dm by (simp add: relink_dom)
  have steps: "set_next h y d = Some ?h1" "set_prev ?h1 d y = Some ?h2"
      "set_prev ?h2 f p = Some (relink_prev ?h2 f p)" "set_next (relink_prev ?h2 f p) z b = Some ?h3"
      "set_next ?h3 p f = Some (relink_next ?h3 p f)"
      "set_prev (relink_next ?h3 p f) b z = Some ?h"
    using dm dm1 dm2 dm3 dm4 dm5 nz by (simp_all add: set_prev_relink set_next_relink)
  have reads: "deref h f = Some (the (h f))" "deref h z = Some (the (h z))"
      "deref ?h1 f = Some (the (?h1 f))" "deref ?h1 z = Some (the (?h1 z))"
      "deref ?h2 b = Some (the (?h2 b))" "deref ?h3 b = Some (the (?h3 b))"
    using dm dm1 dm2 dm4 nz by (simp_all add: deref_the)
  have vals: "le_prev (the (?h1 f)) = y" "le_next (the (?h1 z)) = d" "le_prev (the (?h2 b)) = p"
      "le_prev (the (?h3 b)) = p"
    using fld neq by (simp_all add: relink_fields)
  have eq: "list_splice h b f d = Some ?h"
    unfolding list_splice_def
    by (simp only: neq(11) [symmetric] kinds reads vals steps fld Option.bind.simps ASSERT_bind if_True if_False not_False_eq_True simp_thms)
  have ds: "distinct (as @ [p])" "distinct bs" "distinct cs" "distinct (d # ds)"
    using dist by simp_all
  have "chain ?h3 P (as @ [p]) b"
    using dj neq nm by (simp add: chain_relink_other C(1))
  then have "chain (relink_next ?h3 p f) P (as @ [p]) f"
    by (rule chain_relink_lst) (use ds in simp_all)
  then have "chain ?h P (as @ [p]) f"
    using nm neq by (simp add: chain_relink_other del: chain.simps)
  moreover have "chain ?h p cs b"
  proof -
    have "chain ?h2 y cs d" using dj nm by (simp add: chain_relink_other C(3))
    then have "chain (relink_prev ?h2 f p) p cs d"
      by (rule chain_relink_hd) (simp_all add: ds ne d(3))
    then have "chain ?h3 p cs b"
      by (rule chain_relink_lst) (simp_all add: ds ne d(4))
    then show ?thesis using dj nm by (simp add: chain_relink_other)
  qed
  moreover have "chain ?h z bs d"
  proof -
    have "chain ?h1 p bs d"
      by (rule chain_relink_lst [OF C(2)]) (simp_all add: ds ne d(2))
    then have "chain (relink_next ?h3 p f) p bs d" using dj nm by (simp add: chain_relink_other)
    then show ?thesis by (rule chain_relink_hd) (simp_all add: ds ne d(1))
  qed
  moreover have "chain ?h y (d # ds) Q"
  proof -
    have "chain ?h1 z (d # ds) Q" using nm neq by (simp add: chain_relink_other C(4) del: chain.simps)
    then have "chain ?h2 y (d # ds) Q" by (rule chain_relink_hd) (use ds in simp_all)
    then show ?thesis using nm dj neq by (simp add: chain_relink_other del: chain.simps)
  qed
  ultimately have "chain ?h P ((as @ [p]) @ cs @ bs @ (d # ds)) Q"
    unfolding chain_append4 [OF ne(2,1)] d by blast
  moreover have "same_outside (set (p # bs @ cs @ [d])) h ?h"
  proof -
    have "dom ?h = dom h" using dm dm5 by (simp add: relink_dom)
    moreover have "?h x = h x" if "x \<notin> set (p # bs @ cs @ [d])" for x
    proof -
      have "x \<noteq> p" "x \<noteq> b" "x \<noteq> y" "x \<noteq> f" "x \<noteq> z" "x \<noteq> d" using that mem by auto
      then show ?thesis by (simp add: relink_other)
    qed
    ultimately show ?thesis by (simp add: same_outside_def)
  qed
  ultimately show ?thesis using eq d by blast
qed

subsection \<open>A concrete list\<close>

text \<open>A store with the list at 100, holding the elements at 300 and 200, and a free element at 400.\<close>

definition two_elems :: store where
  "two_elems = [100 \<mapsto> \<lparr>le_prev = 0, le_next = 300\<rparr>, 300 \<mapsto> \<lparr>le_prev = 100, le_next = 200\<rparr>,
     200 \<mapsto> \<lparr>le_prev = 300, le_next = 108\<rparr>, 108 \<mapsto> \<lparr>le_prev = 200, le_next = 0\<rparr>,
     400 \<mapsto> \<lparr>le_prev = 0, le_next = 0\<rparr>]"

lemma two_elems_dll: "dll two_elems 100 [300, 200]"
  by (simp add: dll_def cells_def head_of_def tail_of_def NULL_def two_elems_def)

lemma cells_100: "set (cells 100 [300, 200]) = {100, 108, 200, 300}"
  by (auto simp: cells_def head_of_def tail_of_def)

subsection \<open>Properties\<close>

text \<open>Removing an element from a kernel list leaves exactly the other elements, in their
  order and well linked in both directions, returns the element that followed, writes nothing
  outside the list, and a second removal of the same element changes nothing.\<close>

theorem list_remove_twice:
  assumes "dll h l (as @ e # bs)"
  shows "\<exists>h'. list_remove h e = Some (h', hd (bs @ [tail_of l])) \<and> dll h' l (as @ bs)
    \<and> same_outside (set (cells l (as @ bs))) h h'
    \<and> list_remove h' e = Some (h', hd (bs @ [tail_of l]))"
proof -
  from list_remove_dll [OF assms] obtain h' where
    h': "list_remove h e = Some (h', hd (bs @ [tail_of l]))" "dll h' l (as @ bs)"
      "same_outside (set (cells l (as @ bs))) h h'"
      "h' e = Some \<lparr>le_prev = last (head_of l # as), le_next = hd (bs @ [tail_of l])\<rparr>" by auto
  moreover have "e \<noteq> NULL" "e \<notin> set (cells l (as @ bs))" using assms by (auto simp: dll_def cells_def)
  ultimately show ?thesis using list_remove_again [OF h'(2)] by blast
qed

theorem list_remove_twice_witness:
  "\<exists>h'. list_remove two_elems 300 = Some (h', 200) \<and> dll h' 100 [200] \<and> list_remove h' 300 = Some (h', 200)"
  using list_remove_twice [of two_elems 100 "[]" 300 "[200]"] two_elems_dll by auto

end
