(* ===== verification/OrderedLists.thy ===== *)
theory OrderedLists imports Prelude "HOL-Library.Multiset" begin

section \<open>Ordered lists: the contract of a comparison function, and sorting\<close>

text \<open>
  The routines of \<open>lib/kernel/list.c\<close> that take a \<open>list_less_func\<close> read as functions on lists:
  ordered insertion, natural merge sort, removal of adjacent duplicates, minimum and maximum.
  \<open>KernelListLoops\<close> and \<open>KernelListSort\<close> show that the pointer code computes them, and the
  scheduler uses them on its run queue and on the lists of waiters.

  What these functions need from the comparison is the locale \<open>weak_order\<close>; the order of the
  source's clients (\<open>is_prior_larger\<close>) is shown to satisfy it where it is defined.
\<close>

subsection \<open>The functions\<close>

definition insert_ordered :: "('a \<Rightarrow> 'a \<Rightarrow> bool) \<Rightarrow> 'a \<Rightarrow> 'a list \<Rightarrow> 'a list" where
  "insert_ordered lt e xs = takeWhile (\<lambda>x. \<not> lt e x) xs @ e # dropWhile (\<lambda>x. \<not> lt e x) xs"

text \<open>\<open>is_sorted\<close>: no element is less than its predecessor.\<close>

fun adj_sorted :: "('a \<Rightarrow> 'a \<Rightarrow> bool) \<Rightarrow> 'a list \<Rightarrow> bool" where
  "adj_sorted lt (x # y # ys) = (\<not> lt y x \<and> adj_sorted lt (y # ys))"
| "adj_sorted lt _ = True"

text \<open>The first maximal nondecreasing run, and what follows it.\<close>

fun run_of :: "('a \<Rightarrow> 'a \<Rightarrow> bool) \<Rightarrow> 'a list \<Rightarrow> 'a list" where
  "run_of lt (x # y # ys) = (if lt y x then [x] else x # run_of lt (y # ys))"
| "run_of lt xs = xs"

fun after_run :: "('a \<Rightarrow> 'a \<Rightarrow> bool) \<Rightarrow> 'a list \<Rightarrow> 'a list" where
  "after_run lt (x # y # ys) = (if lt y x then y # ys else after_run lt (y # ys))"
| "after_run lt _ = []"

fun merge_runs :: "('a \<Rightarrow> 'a \<Rightarrow> bool) \<Rightarrow> 'a list \<Rightarrow> 'a list \<Rightarrow> 'a list" where
  "merge_runs lt [] ys = ys"
| "merge_runs lt xs [] = xs"
| "merge_runs lt (x # xs) (y # ys) =
     (if \<not> lt y x then x # merge_runs lt xs (y # ys) else y # merge_runs lt (x # xs) ys)"

lemma run_of_after_run [simp]: "run_of lt xs @ after_run lt xs = xs"
  by (induction lt xs rule: run_of.induct) auto

lemma run_of_eq_Nil [simp]: "run_of lt xs = [] \<longleftrightarrow> xs = []"
  by (induction lt xs rule: run_of.induct) auto

lemma hd_run_of [simp]: "hd (run_of lt xs) = hd xs"
  by (induction lt xs rule: run_of.induct) auto

lemma length_after_run: "xs \<noteq> [] \<Longrightarrow> length (after_run lt xs) < length xs"
  by (induction lt xs rule: after_run.induct) auto

lemma length_after_run_le: "length (after_run lt xs) \<le> length xs"
  by (induction lt xs rule: after_run.induct) auto

lemma adj_sorted_run_of: "adj_sorted lt (run_of lt xs)"
proof (induction lt xs rule: run_of.induct)
  case (1 lt x y ys)
  then show ?case using hd_run_of [of lt "y # ys"] by (cases "run_of lt (y # ys)") auto
qed auto

text \<open>One pass of the sort: the list it leaves, and the number of runs it outputs.\<close>

function merge_pass :: "('a \<Rightarrow> 'a \<Rightarrow> bool) \<Rightarrow> 'a list \<Rightarrow> 'a list" where
  "merge_pass lt xs =
     (if xs = [] then []
      else let r = after_run lt xs in
        merge_runs lt (run_of lt xs) (run_of lt r) @ merge_pass lt (after_run lt r))"
  by pat_completeness auto
termination
  by (relation "measure (\<lambda>(lt, xs). length xs)")
    (auto intro: le_less_trans [OF length_after_run_le length_after_run])

function pass_count :: "('a \<Rightarrow> 'a \<Rightarrow> bool) \<Rightarrow> 'a list \<Rightarrow> nat" where
  "pass_count lt xs = (if xs = [] then 0 else Suc (pass_count lt (after_run lt (after_run lt xs))))"
  by pat_completeness auto
termination
  by (relation "measure (\<lambda>(lt, xs). length xs)")
    (auto intro: le_less_trans [OF length_after_run_le length_after_run])

declare merge_pass.simps [simp del] pass_count.simps [simp del]

fun count_runs :: "('a \<Rightarrow> 'a \<Rightarrow> bool) \<Rightarrow> 'a list \<Rightarrow> nat" where
  "count_runs lt [] = 0"
| "count_runs lt [x] = 1"
| "count_runs lt (x # y # ys) = (if lt y x then 1 else 0) + count_runs lt (y # ys)"

lemma count_runs_append: "count_runs lt (xs @ ys) \<le> count_runs lt xs + count_runs lt ys"
proof (induction lt xs rule: count_runs.induct)
  case (2 lt x)
  then show ?case by (cases ys) auto
qed auto

lemma count_runs_pos: "xs \<noteq> [] \<Longrightarrow> 0 < count_runs lt xs"
  by (induction lt xs rule: count_runs.induct) auto

lemma count_runs_sorted: "adj_sorted lt xs \<Longrightarrow> count_runs lt xs \<le> 1"
  by (induction lt xs rule: adj_sorted.induct) auto

lemma sorted_count_runs: "count_runs lt xs \<le> 1 \<Longrightarrow> adj_sorted lt xs"
proof (induction lt xs rule: adj_sorted.induct)
  case (1 lt x y ys)
  then show ?case using count_runs_pos [of "y # ys" lt] by (auto split: if_splits)
qed auto

lemma count_runs_after_run: "xs \<noteq> [] \<Longrightarrow> count_runs lt xs = Suc (count_runs lt (after_run lt xs))"
  by (induction lt xs rule: after_run.induct) auto

lemma pass_count_runs: "pass_count lt xs = (count_runs lt xs + 1) div 2"
proof (induction lt xs rule: pass_count.induct)
  case (1 lt xs)
  show ?case
  proof (cases "after_run lt xs = []")
    case True
    then show ?thesis
      by (cases "xs = []") (simp_all add: pass_count.simps count_runs_after_run [of xs])
  next
    case False
    then have "xs \<noteq> []" by auto
    with 1 False show ?thesis
      by (simp add: pass_count.simps [of lt xs] count_runs_after_run [of xs] count_runs_after_run [of "after_run lt xs"])
  qed
qed

lemma merge_runs_Nil [simp]: "merge_runs lt xs [] = xs"
  by (cases xs) auto

lemma merge_runs_eq_Nil [simp]: "merge_runs lt xs ys = [] \<longleftrightarrow> xs = [] \<and> ys = []"
  by (cases xs; cases ys) auto

lemma mset_merge_runs [simp]: "mset (merge_runs lt xs ys) = mset xs + mset ys"
  by (induction lt xs ys rule: merge_runs.induct) auto

lemma mset_merge_pass [simp]: "mset (merge_pass lt xs) = mset xs"
proof (induction lt xs rule: merge_pass.induct)
  case (1 lt xs)
  have "mset (run_of lt xs) + mset (run_of lt (after_run lt xs)) + mset (after_run lt (after_run lt xs)) = mset xs"
    by (metis add.assoc mset_append run_of_after_run)
  with 1 show ?case by (simp add: merge_pass.simps [of lt xs] Let_def)
qed

lemma set_merge_runs [simp]: "set (merge_runs lt xs ys) = set xs \<union> set ys"
  by (metis mset_merge_runs set_mset_mset set_mset_union)

lemma set_merge_pass [simp]: "set (merge_pass lt xs) = set xs"
  by (metis mset_merge_pass set_mset_mset)

subsection \<open>The contract of a comparison function\<close>

locale asym_order =
  fixes lt :: "'a \<Rightarrow> 'a \<Rightarrow> bool"
  assumes asym: "lt x y \<Longrightarrow> \<not> lt y x"
begin

lemma adj_sorted_Cons: "adj_sorted lt (x # xs) = (adj_sorted lt xs \<and> (xs \<noteq> [] \<longrightarrow> \<not> lt (hd xs) x))"
  by (cases xs) auto

lemma hd_merge_runs:
  "merge_runs lt xs ys \<noteq> [] \<Longrightarrow> xs \<noteq> [] \<Longrightarrow> ys \<noteq> [] \<Longrightarrow>
     hd (merge_runs lt xs ys) = (if lt (hd ys) (hd xs) then hd ys else hd xs)"
  by (cases xs; cases ys) auto

lemma adj_sorted_merge:
  "adj_sorted lt xs \<Longrightarrow> adj_sorted lt ys \<Longrightarrow> adj_sorted lt (merge_runs lt xs ys)"
proof (induction xs arbitrary: ys)
  case (Cons x xs)
  note IH = Cons.IH and x = Cons.prems(1)
  show ?case using Cons.prems(2)
  proof (induction ys)
    case (Cons y ys)
    show ?case
    proof (cases "lt y x")
      case True
      with Cons x show ?thesis
        by (cases "ys = []") (auto simp: adj_sorted_Cons hd_merge_runs dest: asym)
    next
      case False
      with Cons.prems IH [of "y # ys"] x show ?thesis
        by (cases "xs = []") (auto simp: adj_sorted_Cons hd_merge_runs)
    qed
  qed (use x in simp)
qed simp

lemma count_runs_merge_pass: "count_runs lt (merge_pass lt xs) \<le> pass_count lt xs"
proof (induction "length xs" arbitrary: xs rule: less_induct)
  case less
  show ?case
  proof (cases "xs = []")
    case False
    let ?m = "merge_runs lt (run_of lt xs) (run_of lt (after_run lt xs))"
    let ?r = "after_run lt (after_run lt xs)"
    have "count_runs lt ?m \<le> 1"
      by (intro count_runs_sorted adj_sorted_merge adj_sorted_run_of)
    moreover have "count_runs lt (merge_pass lt ?r) \<le> pass_count lt ?r"
      using False by (intro less) (auto intro: le_less_trans [OF length_after_run_le length_after_run])
    moreover note count_runs_append [of lt ?m "merge_pass lt ?r"]
    ultimately show ?thesis
      using False by (simp add: merge_pass.simps [of lt xs] pass_count.simps [of lt xs] Let_def)
  qed (simp add: merge_pass.simps pass_count.simps)
qed

end

text \<open>The whole sort repeats the pass while it outputs more than one run.\<close>

partial_function (option) merge_sort :: "('a \<Rightarrow> 'a \<Rightarrow> bool) \<Rightarrow> 'a list \<Rightarrow> 'a list option" where
  "merge_sort lt xs =
     (let ys = merge_pass lt xs in if pass_count lt xs > 1 then merge_sort lt ys else Some ys)"

declare merge_sort.simps [code]

context asym_order
begin

text \<open>It returns: every pass but the last leaves fewer runs than it found.\<close>

lemma merge_sort_sorts: "\<exists>ys. merge_sort lt xs = Some ys \<and> mset ys = mset xs \<and> adj_sorted lt ys"
proof (induction "count_runs lt xs" arbitrary: xs rule: less_induct)
  case less
  show ?case
  proof (cases "pass_count lt xs > 1")
    case True
    have "count_runs lt (merge_pass lt xs) < count_runs lt xs"
      using count_runs_merge_pass [of xs] True by (auto simp: pass_count_runs)
    from less [OF this] True show ?thesis by (auto simp: merge_sort.simps [of lt xs] Let_def)
  next
    case False
    then have "adj_sorted lt (merge_pass lt xs)"
      using count_runs_merge_pass [of xs] by (intro sorted_count_runs) simp
    with False show ?thesis by (simp add: merge_sort.simps [of lt xs] Let_def)
  qed
qed

end

subsection \<open>Weak orders: sortedness in full, stability\<close>

text \<open>
  What \<open>list.h\<close> asks of a \<open>list_less_func\<close>: \<open>less a b\<close> excludes \<open>less b a\<close>, and
  \<open>not less\<close> is transitive.
\<close>

locale weak_order = asym_order +
  assumes ntrans: "\<not> lt x y \<Longrightarrow> \<not> lt y z \<Longrightarrow> \<not> lt x z"
begin

abbreviation sorted_by :: "'a list \<Rightarrow> bool" where
  "sorted_by \<equiv> sorted_wrt (\<lambda>x y. \<not> lt y x)"

abbreviation same_class :: "'a \<Rightarrow> 'a \<Rightarrow> bool" where
  "same_class x \<equiv> \<lambda>y. \<not> lt x y \<and> \<not> lt y x"

lemma adj_sorted_iff: "adj_sorted lt xs = sorted_by xs"
proof (induction xs)
  case (Cons x xs)
  have "\<forall>y \<in> set xs. \<not> lt y x" if "sorted_by xs" "xs \<noteq> []" "\<not> lt (hd xs) x"
    using that by (cases xs) (auto dest: ntrans)
  with Cons show ?case by (cases "xs = []") (auto simp: adj_sorted_Cons)
qed simp

lemma merge_runs_stable:
  assumes "sorted_by xs"
  shows "filter (same_class z) (merge_runs lt xs ys) = filter (same_class z) xs @ filter (same_class z) ys"
  using assms
proof (induction xs arbitrary: ys)
  case (Cons x xs)
  note IH = Cons.IH and x = Cons.prems
  show ?case
  proof (induction ys)
    case (Cons y ys)
    show ?case
    proof (cases "lt y x")
      case True
      have none: "filter (same_class z) (x # xs) = []" if "same_class z y"
      proof -
        have "\<not> same_class z w" if w: "w \<in> set (x # xs)" for w
        proof
          assume zw: "same_class z w"
          from w x have "\<not> lt w x" using asym by auto
          with zw have "\<not> lt z x" using ntrans [of z w x] by simp
          with \<open>same_class z y\<close> have "\<not> lt y x" using ntrans [of y z x] by simp
          with True show False by blast
        qed
        then show ?thesis by (simp add: filter_empty_conv)
      qed
      with Cons True show ?thesis by (cases "same_class z y") auto
    next
      case False
      with IH [of "y # ys"] x show ?thesis by auto
    qed
  qed simp
qed simp

lemma merge_pass_stable: "filter (same_class z) (merge_pass lt xs) = filter (same_class z) xs"
proof (induction "length xs" arbitrary: xs rule: less_induct)
  case less
  show ?case
  proof (cases "xs = []")
    case False
    let ?r = "after_run lt xs"
    have "filter (same_class z) (merge_pass lt (after_run lt ?r)) = filter (same_class z) (after_run lt ?r)"
      using False by (intro less) (auto intro: le_less_trans [OF length_after_run_le length_after_run])
    moreover have "sorted_by (run_of lt xs)" using adj_sorted_run_of adj_sorted_iff by blast
    ultimately have "filter (same_class z) (merge_pass lt xs)
        = filter (same_class z) (run_of lt xs @ run_of lt ?r @ after_run lt ?r)"
      using False by (simp add: merge_pass.simps [of lt xs] Let_def merge_runs_stable del: run_of_after_run)
    then show ?thesis by simp
  qed (simp add: merge_pass.simps)
qed

lemma merge_sort_stable: "merge_sort lt xs = Some ys \<Longrightarrow> filter (same_class z) ys = filter (same_class z) xs"
proof (induction "count_runs lt xs" arbitrary: xs rule: less_induct)
  case less
  show ?case
  proof (cases "pass_count lt xs > 1")
    case True
    have "count_runs lt (merge_pass lt xs) < count_runs lt xs"
      using count_runs_merge_pass [of xs] True by (auto simp: pass_count_runs)
    from less(1) [OF this] less(2) True show ?thesis
      by (auto simp: merge_sort.simps [of lt xs] Let_def merge_pass_stable)
  next
    case False
    with less(2) show ?thesis by (auto simp: merge_sort.simps [of lt xs] Let_def merge_pass_stable)
  qed
qed

lemma merge_sort_correct:
  "\<exists>ys. merge_sort lt xs = Some ys \<and> mset ys = mset xs \<and> sorted_by ys
    \<and> (\<forall>z. filter (same_class z) ys = filter (same_class z) xs)"
  using merge_sort_sorts [of xs] merge_sort_stable [of xs] adj_sorted_iff by blast

lemma insert_ordered_sorted:
  assumes "sorted_by xs"
  shows "sorted_by (insert_ordered lt e xs)"
  using assms
proof (induction xs)
  case (Cons x xs)
  have "\<not> lt y e" if "lt e x" "y \<in> set (x # xs)" for y
  proof -
    from that Cons.prems have "\<not> lt y x" using asym by auto
    with that(1) show ?thesis using asym ntrans by blast
  qed
  with Cons show ?case
    by (auto simp: insert_ordered_def dest: set_takeWhileD set_dropWhileD)
qed (simp add: insert_ordered_def)

text \<open>An element goes behind every element that it is not less than.\<close>

lemma insert_ordered_stable:
  assumes "sorted_by xs"
  shows "filter (same_class z) (insert_ordered lt e xs)
    = filter (same_class z) xs @ (if same_class z e then [e] else [])"
  using assms
proof (induction xs)
  case (Cons x xs)
  have none: "filter (same_class z) (x # xs) = []" if "lt e x" "same_class z e"
  proof -
    have "\<not> same_class z y" if "y \<in> set (x # xs)" for y
    proof
      assume zy: "same_class z y"
      from that Cons.prems have "\<not> lt y x" using asym by auto
      with zy \<open>same_class z e\<close> have "\<not> lt e x" using ntrans [of e z y] ntrans [of e y x] by simp
      with \<open>lt e x\<close> show False by blast
    qed
    then show ?thesis by (simp add: filter_empty_conv)
  qed
  show ?case
  proof (cases "lt e x")
    case True
    then have eq: "insert_ordered lt e (x # xs) = e # x # xs" by (simp add: insert_ordered_def)
    show ?thesis
    proof (cases "same_class z e")
      case True
      with none [OF \<open>lt e x\<close> True] show ?thesis unfolding eq by (simp only: filter.simps if_True append_Nil)
    next
      case False
      then show ?thesis unfolding eq by (simp only: filter.simps if_False append_Nil2)
    qed
  next
    case False
    with Cons show ?thesis by (simp add: insert_ordered_def)
  qed
qed (simp add: insert_ordered_def)

lemma hd_sorted_least: "sorted_by (x # xs) \<Longrightarrow> y \<in> set (x # xs) \<Longrightarrow> \<not> lt y x"
  using asym by auto

end

lemma mset_insert_ordered [simp]: "mset (insert_ordered lt e xs) = add_mset e (mset xs)"
proof -
  have "mset (takeWhile P xs) + mset (dropWhile P xs) = mset xs" for P
    by (metis mset_append takeWhile_dropWhile_id)
  then show ?thesis by (simp add: insert_ordered_def)
qed

lemma set_insert_ordered [simp]: "set (insert_ordered lt e xs) = insert e (set xs)"
  by (metis mset_insert_ordered set_mset_add_mset_insert set_mset_mset)

lemma length_insert_ordered [simp]: "length (insert_ordered lt e xs) = Suc (length xs)"
  by (metis mset_insert_ordered size_add_mset size_mset)

lemma distinct_insert_ordered [simp]: "distinct (insert_ordered lt e xs) \<longleftrightarrow> e \<notin> set xs \<and> distinct xs"
  by (metis distinct.simps(2) mset.simps(2) mset_eq_imp_distinct_iff mset_insert_ordered)

subsection \<open>Maximum, minimum, adjacent duplicates\<close>

definition max_elem :: "('a \<Rightarrow> 'a \<Rightarrow> bool) \<Rightarrow> 'a \<Rightarrow> 'a list \<Rightarrow> 'a" where
  "max_elem lt = foldl (\<lambda>m e. if lt m e then e else m)"

definition min_elem :: "('a \<Rightarrow> 'a \<Rightarrow> bool) \<Rightarrow> 'a \<Rightarrow> 'a list \<Rightarrow> 'a" where
  "min_elem lt = foldl (\<lambda>m e. if lt e m then e else m)"

fun unique_adj :: "('a \<Rightarrow> 'a \<Rightarrow> bool) \<Rightarrow> 'a list \<Rightarrow> 'a list" where
  "unique_adj lt (x # y # ys) = (if \<not> lt x y \<and> \<not> lt y x then unique_adj lt (x # ys)
     else x # unique_adj lt (y # ys))"
| "unique_adj lt xs = xs"

fun dropped_adj :: "('a \<Rightarrow> 'a \<Rightarrow> bool) \<Rightarrow> 'a list \<Rightarrow> 'a list" where
  "dropped_adj lt (x # y # ys) = (if \<not> lt x y \<and> \<not> lt y x then y # dropped_adj lt (x # ys)
     else dropped_adj lt (y # ys))"
| "dropped_adj lt xs = []"

lemma mset_unique_dropped: "mset (unique_adj lt xs) + mset (dropped_adj lt xs) = mset xs"
  by (induction lt xs rule: unique_adj.induct) auto

end
