(* ===== verification/KernelListLoops.thy ===== *)
theory KernelListLoops imports KernelListLinks OrderedLists begin

section \<open>The loops of lib/kernel/list.c\<close>

text \<open>
  Every loop over a well-linked list returns, and computes the list function of
  \<open>OrderedLists\<close> (or of HOL) on the elements.
\<close>

lemma hd_ne_tail: "dll h l (as @ b # bs) \<Longrightarrow> hd ((b # bs) @ [tail_of l]) \<noteq> tail_of l"
  by (auto dest: dll_not_null)

subsection \<open>Size, ordered insertion\<close>

lemma list_size_loop_dll:
  "dll h l (as @ bs) \<Longrightarrow> list_size_loop h l (hd (bs @ [tail_of l])) n = Some (n + length bs)"
proof (induction bs arbitrary: as n)
  case Nil
  then show ?case by (simp add: list_size_loop.simps list_end_dll)
next
  case (Cons b bs)
  have ne: "b \<noteq> tail_of l" using hd_ne_tail [OF Cons.prems] by simp
  from Cons.prems Cons.IH [of "as @ [b]" "Suc n"] show ?case
    by (subst list_size_loop.simps) (simp add: list_end_dll ne list_next_dll)
qed

lemma list_size_dll: "dll h l xs \<Longrightarrow> list_size h l = Some (length xs)"
  using list_size_loop_dll [of h l "[]" xs 0] by (simp add: list_size_def list_begin_dll)

lemma insert_ordered_loop_dll:
  "dll h l (as @ bs) \<Longrightarrow>
    insert_ordered_loop h lt l e (hd (bs @ [tail_of l])) = Some (hd (dropWhile (\<lambda>x. \<not> lt e x) bs @ [tail_of l]))"
proof (induction bs arbitrary: as)
  case Nil
  then show ?case by (simp add: insert_ordered_loop.simps list_end_dll)
next
  case (Cons b bs)
  have ne: "b \<noteq> tail_of l" using hd_ne_tail [OF Cons.prems] by simp
  from Cons.prems Cons.IH [of "as @ [b]"] show ?case
    by (subst insert_ordered_loop.simps) (simp add: list_end_dll ne list_next_dll)
qed

lemma list_insert_ordered_dll:
  assumes d: "dll h l xs" and e: "e \<notin> set (cells l xs)" "e \<in> dom h" "e \<noteq> NULL"
  shows "\<exists>h'. list_insert_ordered h lt l e = Some h' \<and> dll h' l (insert_ordered lt e xs)
    \<and> same_outside (insert e (set (cells l xs))) h h'"
proof -
  let ?as = "takeWhile (\<lambda>x. \<not> lt e x) xs" and ?bs = "dropWhile (\<lambda>x. \<not> lt e x) xs"
  have xs: "xs = ?as @ ?bs" by simp
  have loop: "insert_ordered_loop h lt l e (hd (xs @ [tail_of l])) = Some (hd (?bs @ [tail_of l]))"
    using insert_ordered_loop_dll [of h l "[]" xs] d by simp
  from list_insert_dll [of h l ?as ?bs e] d e xs
  obtain h' where "list_insert h (hd (?bs @ [tail_of l])) e = Some h'" "dll h' l (?as @ e # ?bs)"
    "same_outside (insert e (set (cells l xs))) h h'" by auto
  with loop d e show ?thesis
    by (simp add: list_insert_ordered_def list_begin_dll insert_ordered_def)
qed

subsection \<open>Maximum and minimum\<close>

lemma list_max_loop_dll:
  "dll h l (as @ bs) \<Longrightarrow> list_max_loop h lt l m (hd (bs @ [tail_of l])) = Some (max_elem lt m bs)"
proof (induction bs arbitrary: as m)
  case Nil
  then show ?case by (simp add: list_max_loop.simps list_end_dll max_elem_def)
next
  case (Cons b bs)
  have ne: "b \<noteq> tail_of l" using hd_ne_tail [OF Cons.prems] by simp
  from Cons.prems Cons.IH [of "as @ [b]"] show ?case
    by (subst list_max_loop.simps) (simp add: list_end_dll ne list_next_dll max_elem_def)
qed

lemma list_max_dll:
  assumes "dll h l xs"
  shows "list_max h lt l = Some (case xs of [] \<Rightarrow> tail_of l | x # ys \<Rightarrow> max_elem lt x ys)"
proof (cases xs)
  case (Cons x ys)
  have "x \<noteq> tail_of l" using hd_ne_tail [of h l "[]" x ys] assms Cons by simp
  with assms Cons show ?thesis
    using list_next_dll [of h l "[]" x ys] list_max_loop_dll [of h l "[x]" ys]
    by (simp add: list_max_def list_begin_dll list_end_dll)
qed (use assms in \<open>simp add: list_max_def list_begin_dll list_end_dll\<close>)

lemma list_min_loop_dll:
  "dll h l (as @ bs) \<Longrightarrow> list_min_loop h lt l m (hd (bs @ [tail_of l])) = Some (min_elem lt m bs)"
proof (induction bs arbitrary: as m)
  case Nil
  then show ?case by (simp add: list_min_loop.simps list_end_dll min_elem_def)
next
  case (Cons b bs)
  have ne: "b \<noteq> tail_of l" using hd_ne_tail [OF Cons.prems] by simp
  from Cons.prems Cons.IH [of "as @ [b]"] show ?case
    by (subst list_min_loop.simps) (simp add: list_end_dll ne list_next_dll min_elem_def)
qed

lemma list_min_dll:
  assumes "dll h l xs"
  shows "list_min h lt l = Some (case xs of [] \<Rightarrow> tail_of l | x # ys \<Rightarrow> min_elem lt x ys)"
proof (cases xs)
  case (Cons x ys)
  have "x \<noteq> tail_of l" using hd_ne_tail [of h l "[]" x ys] assms Cons by simp
  with assms Cons show ?thesis
    using list_next_dll [of h l "[]" x ys] list_min_loop_dll [of h l "[x]" ys]
    by (simp add: list_min_def list_begin_dll list_end_dll)
qed (use assms in \<open>simp add: list_min_def list_begin_dll list_end_dll\<close>)

subsection \<open>Adjacent duplicates\<close>

lemma list_unique_loop_dll:
  assumes "dll h l (as @ x # bs)" and "dup \<noteq> NULL \<Longrightarrow> dll h dup ds"
    and "dup \<noteq> NULL \<Longrightarrow> set (cells l (as @ x # bs)) \<inter> set (cells dup ds) = {}"
  shows "\<exists>h'. list_unique_loop h lt l dup x = Some h' \<and> dll h' l (as @ unique_adj lt (x # bs))
    \<and> (dup \<noteq> NULL \<longrightarrow> dll h' dup (ds @ dropped_adj lt (x # bs)))"
  using assms
proof (induction bs arbitrary: h as x ds)
  case Nil
  then show ?case by (subst list_unique_loop.simps) (simp add: list_next_dll list_end_dll)
next
  case (Cons b bs)
  have nx: "list_next h x = Some b" using list_next_dll [OF Cons.prems(1)] by simp
  have ne: "b \<noteq> tail_of l" using hd_ne_tail [of h l "as @ [x]" b bs] Cons.prems(1) by simp
  show ?case
  proof (cases "\<not> lt x b \<and> \<not> lt b x")
    case False
    then have step: "list_unique_loop h lt l dup x = list_unique_loop h lt l dup b"
      and "unique_adj lt (x # b # bs) = x # unique_adj lt (b # bs)"
      and "dropped_adj lt (x # b # bs) = dropped_adj lt (b # bs)"
      by (subst list_unique_loop.simps, auto simp: nx list_end_dll [OF Cons.prems(1)] ne)
    then show ?thesis
      using Cons.IH [of h "as @ [x]" b ds] Cons.prems by simp
  next
    case True
    then have eq: "\<not> lt x b" "\<not> lt b x" by auto
    have step: "list_unique_loop h lt l dup x = do {
        (h, _) \<leftarrow> list_remove h b;
        h \<leftarrow> (if dup \<noteq> NULL then list_push_back h dup b else Some h);
        list_unique_loop h lt l dup x }"
      by (subst list_unique_loop.simps) (simp add: nx list_end_dll [OF Cons.prems(1)] ne eq)
    from list_remove_dll [of h l "as @ [x]" b bs] Cons.prems(1)
    obtain h1 where h1: "list_remove h b = Some (h1, hd (bs @ [tail_of l]))" "dll h1 l (as @ x # bs)"
      "same_outside (set (cells l (as @ x # bs))) h h1" by auto
    have bnn: "b \<noteq> NULL" "b \<notin> set (cells l (as @ x # bs))" "b \<in> dom h1"
      using Cons.prems(1) dll_dom [OF Cons.prems(1), of b] h1(3)
      by (auto simp: dll_def cells_def same_outside_def)
    show ?thesis
    proof (cases "dup = NULL")
      case True
      with Cons.IH [of h1 as x ds] h1 eq step show ?thesis by simp
    next
      case False
      have dj: "set (cells l (as @ x # bs)) \<inter> set (cells dup ds) = {}" "b \<notin> set (cells dup ds)"
        using Cons.prems(3) [OF False] by (auto simp: cells_def)
      have "dll h1 dup ds"
        using dll_frame [OF Cons.prems(2) [OF False] h1(3)] dj(1) by simp
      from list_push_back_dll [OF this dj(2) bnn(3,1)]
      obtain h2 where h2: "list_push_back h1 dup b = Some h2" "dll h2 dup (ds @ [b])"
        "same_outside (insert b (set (cells dup ds))) h1 h2" by auto
      have "dll h2 l (as @ x # bs)"
        using dll_frame [OF h1(2) h2(3)] dj bnn by auto
      moreover have "set (cells l (as @ x # bs)) \<inter> set (cells dup (ds @ [b])) = {}"
        using dj(1) bnn(2) by (auto simp: cells_def)
      ultimately show ?thesis
        using Cons.IH [of h2 as x "ds @ [b]"] h1 h2 eq False by (simp add: step)
    qed
  qed
qed

lemma list_unique_dll:
  assumes "dll h l xs" and "dup \<noteq> NULL \<Longrightarrow> dll h dup ds"
    and "dup \<noteq> NULL \<Longrightarrow> set (cells l xs) \<inter> set (cells dup ds) = {}"
  shows "\<exists>h'. list_unique h lt l dup = Some h' \<and> dll h' l (unique_adj lt xs)
    \<and> (dup \<noteq> NULL \<longrightarrow> dll h' dup (ds @ dropped_adj lt xs))"
proof (cases xs)
  case Nil
  with assms show ?thesis by (simp add: list_unique_def list_empty_dll)
next
  case (Cons x ys)
  with assms list_unique_loop_dll [of h l "[]" x ys dup ds lt] show ?thesis
    by (simp add: list_unique_def list_empty_dll list_begin_dll)
qed

subsection \<open>Properties\<close>

text \<open>For a comparison that is a strict weak order, \<open>list_insert_ordered\<close> puts the element
  into a sorted kernel list so that the list stays sorted, behind all elements equal to it, and
  leaves the list well linked and the memory outside it untouched.\<close>

theorem list_insert_ordered_correct:
  assumes "weak_order lt" "dll h l xs" "sorted_wrt (\<lambda>x y. \<not> lt y x) xs"
    and "e \<notin> set (cells l xs)" "e \<in> dom h" "e \<noteq> NULL"
  shows "\<exists>h' ys. list_insert_ordered h lt l e = Some h' \<and> dll h' l ys \<and> mset ys = add_mset e (mset xs)
    \<and> sorted_wrt (\<lambda>x y. \<not> lt y x) ys
    \<and> filter (\<lambda>y. \<not> lt e y \<and> \<not> lt y e) ys = filter (\<lambda>y. \<not> lt e y \<and> \<not> lt y e) xs @ [e]
    \<and> same_outside (insert e (set (cells l xs))) h h'"
proof -
  from list_insert_ordered_dll [OF assms(2,4,5,6), of lt] obtain h' where
    "list_insert_ordered h lt l e = Some h'" "dll h' l (insert_ordered lt e xs)"
    "same_outside (insert e (set (cells l xs))) h h'" by blast
  moreover have "\<not> lt e e" using asym_order.asym [OF weak_order.axioms(1) [OF assms(1)], of e e] by blast
  moreover note weak_order.insert_ordered_sorted [OF assms(1,3), of e]
    weak_order.insert_ordered_stable [OF assms(1,3), of e e]
  ultimately show ?thesis by (intro exI [of _ h'] exI [of _ "insert_ordered lt e xs"]) simp
qed

theorem list_insert_ordered_correct_witness:
  "\<exists>h' ys. list_insert_ordered two_elems (\<lambda>x y. x > y) 100 400 = Some h' \<and> dll h' 100 ys
    \<and> mset ys = {#400, 300, 200#}"
proof -
  have "weak_order (\<lambda>x y :: nat. x > y)" by standard auto
  from list_insert_ordered_correct [OF this two_elems_dll, of 400] cells_100 show ?thesis
    by (auto simp: two_elems_def NULL_def)
qed

text \<open>\<open>list_unique\<close> keeps the first of every group of adjacent equal elements and moves the
  others, in order, to the list of duplicates when there is one; no element is lost.\<close>

theorem list_unique_correct:
  assumes "dll h l xs" "dll h dup ds" "set (cells l xs) \<inter> set (cells dup ds) = {}"
  shows "\<exists>h'. list_unique h lt l dup = Some h' \<and> dll h' l (unique_adj lt xs)
    \<and> dll h' dup (ds @ dropped_adj lt xs) \<and> mset (unique_adj lt xs) + mset (dropped_adj lt xs) = mset xs"
  using list_unique_dll [of h l xs dup ds lt] assms mset_unique_dropped [of lt xs] by auto

theorem list_unique_correct_witness:
  "\<exists>h'. list_unique (two_elems(500 \<mapsto> \<lparr>le_prev = 0, le_next = 508\<rparr>, 508 \<mapsto> \<lparr>le_prev = 500, le_next = 0\<rparr>))
     (\<lambda>_ _. False) 100 500 = Some h' \<and> dll h' 100 [300] \<and> dll h' 500 [200]"
  using list_unique_correct [of _ 100 "[300, 200]" 500 "[]" "\<lambda>_ _. False",
      of "two_elems(500 \<mapsto> \<lparr>le_prev = 0, le_next = 508\<rparr>, 508 \<mapsto> \<lparr>le_prev = 500, le_next = 0\<rparr>)"]
  by (simp add: dll_def cells_def head_of_def tail_of_def NULL_def two_elems_def)

end
