(* ===== verification/KernelListSort.thy ===== *)
theory KernelListSort imports KernelListLoops begin

section \<open>list_reverse, list_splice and list_sort\<close>

text \<open>
  The routines of \<open>lib/kernel/list.c\<close> that relink many elements: reversal, splicing inside a
  list, and the in-place natural merge sort, which is shown to be \<open>merge_sort\<close> of
  \<open>OrderedLists\<close> on the elements.
\<close>

subsection \<open>Reversal\<close>

text \<open>
  In the middle of the loop the elements already visited form a chain that runs backwards;
  those still to come are linked as before.
\<close>

definition half_reversed :: "store \<Rightarrow> ptr \<Rightarrow> ptr list \<Rightarrow> ptr list \<Rightarrow> bool" where
  "half_reversed h l as bs = (chain h (hd (bs @ [tail_of l])) (rev as) (head_of l)
     \<and> chain h (last (head_of l # as)) bs (tail_of l)
     \<and> distinct (cells l (as @ bs)) \<and> NULL \<notin> set (cells l (as @ bs)))"

lemma swap_links_half:
  assumes "half_reversed h l as (b # bs)"
  shows "\<exists>h'. swap_links h b = Some h' \<and> half_reversed h' l (as @ [b]) bs
    \<and> deref h' b = Some \<lparr>le_prev = hd (bs @ [tail_of l]), le_next = last (head_of l # as)\<rparr>
    \<and> same_outside {b} h h'"
proof -
  let ?p = "last (head_of l # as)" and ?n = "hd (bs @ [tail_of l])"
  from assms have b: "h b = Some \<lparr>le_prev = ?p, le_next = ?n\<rparr>" "b \<noteq> NULL"
    by (auto simp: half_reversed_def cells_def)
  let ?h = "h(b \<mapsto> \<lparr>le_prev = ?n, le_next = ?p\<rparr>)"
  have "swap_links h b = Some ?h"
    using b by (simp add: swap_links_def access_defs)
  moreover have "half_reversed ?h l (as @ [b]) bs"
  proof -
    have nb: "b \<notin> set (rev as)" "b \<notin> set bs" using assms by (auto simp: half_reversed_def cells_def)
    have "hd (rev as @ [head_of l]) = ?p" by (cases as rule: rev_cases) auto
    with assms nb show ?thesis by (simp add: half_reversed_def)
  qed
  moreover have "same_outside {b} h ?h" using b by (auto simp: same_outside_def)
  ultimately show ?thesis using b by (auto simp: deref_def)
qed

lemma list_reverse_loop_half:
  "half_reversed h l as bs \<Longrightarrow> l \<noteq> NULL \<Longrightarrow>
    \<exists>h'. list_reverse_loop h l (hd (bs @ [tail_of l])) = Some h' \<and> half_reversed h' l (as @ bs) []
      \<and> same_outside (set bs) h h'"
proof (induction bs arbitrary: h as)
  case Nil
  then show ?case by (simp add: list_reverse_loop.simps list_end_def)
next
  case (Cons b bs)
  have ne: "b \<noteq> tail_of l" using Cons.prems by (auto simp: half_reversed_def cells_def)
  from swap_links_half [OF Cons.prems(1)] obtain h1 where h1: "swap_links h b = Some h1"
    "half_reversed h1 l (as @ [b]) bs"
    "deref h1 b = Some \<lparr>le_prev = hd (bs @ [tail_of l]), le_next = last (head_of l # as)\<rparr>"
    "same_outside {b} h h1" by auto
  from Cons.IH [OF h1(2) Cons.prems(2)] obtain h' where h':
    "list_reverse_loop h1 l (hd (bs @ [tail_of l])) = Some h'" "half_reversed h' l (as @ b # bs) []"
    "same_outside (set bs) h1 h'" by auto
  have "list_reverse_loop h l b = Some h'"
    using Cons.prems h1 h' ne by (subst list_reverse_loop.simps) (simp add: list_end_def)
  with h'(2) same_outside_trans [OF h1(4) h'(3)] show ?case by simp
qed

text \<open>Exchanging the ends turns the backward chain into a list.\<close>

lemma reverse_ends:
  assumes half: "half_reversed h l (x # ys) []" and l: "l \<noteq> NULL"
    and head: "h (head_of l) = Some \<lparr>le_prev = NULL, le_next = x\<rparr>"
    and tail: "h (tail_of l) = Some \<lparr>le_prev = last (x # ys), le_next = NULL\<rparr>"
  shows "\<exists>h'. (do {
       hd' \<leftarrow> deref h (head_of l); tl' \<leftarrow> deref h (tail_of l);
       h \<leftarrow> set_next h (head_of l) (le_prev tl');
       h \<leftarrow> set_prev h (tail_of l) (le_next hd');
       hd' \<leftarrow> deref h (head_of l); tl' \<leftarrow> deref h (tail_of l);
       f \<leftarrow> deref h (le_next hd'); b \<leftarrow> deref h (le_prev tl');
       h \<leftarrow> set_prev h (le_next hd') (le_next b);
       set_next h (le_prev tl') (le_prev f) }) = Some h' \<and> dll h' l (rev (x # ys))
     \<and> same_outside (set (cells l (x # ys))) h h'"
proof (cases ys rule: rev_cases)
  case Nil
  from half Nil have ch: "h x = Some \<lparr>le_prev = tail_of l, le_next = head_of l\<rparr>"
    and ds: "distinct [head_of l, x, tail_of l]" "NULL \<notin> {head_of l, x, tail_of l}"
    by (auto simp: half_reversed_def cells_def)
  from ds have ne: "head_of l \<noteq> tail_of l" "x \<noteq> head_of l" "x \<noteq> tail_of l" "head_of l \<noteq> NULL"
    "tail_of l \<noteq> NULL" "x \<noteq> NULL" by auto
  show ?thesis
    using ch ne head tail Nil by (auto simp: access_defs dll_def cells_def same_outside_def)
next
  case (snoc zs z)
  from half snoc have ch: "h z = Some \<lparr>le_prev = tail_of l, le_next = hd (rev zs @ [x])\<rparr>"
      "chain h z (rev zs) x" "h x = Some \<lparr>le_prev = last (z # rev zs), le_next = head_of l\<rparr>"
    by (auto simp: half_reversed_def chain_append hd_append)
  from half snoc have ne: "head_of l \<noteq> tail_of l" "x \<noteq> head_of l" "x \<noteq> tail_of l" "z \<noteq> head_of l" "z \<noteq> tail_of l"
      "x \<noteq> z" "head_of l \<notin> set zs" "tail_of l \<notin> set zs" "x \<notin> set zs" "z \<notin> set zs" "distinct zs"
      "head_of l \<noteq> NULL" "tail_of l \<noteq> NULL" "x \<noteq> NULL" "z \<noteq> NULL" "NULL \<notin> set zs"
    by (auto simp: half_reversed_def cells_def)
  let ?h = "h(head_of l \<mapsto> \<lparr>le_prev = NULL, le_next = z\<rparr>, tail_of l \<mapsto> \<lparr>le_prev = x, le_next = NULL\<rparr>,
      z \<mapsto> \<lparr>le_prev = head_of l, le_next = hd (rev zs @ [x])\<rparr>,
      x \<mapsto> \<lparr>le_prev = last (z # rev zs), le_next = tail_of l\<rparr>)"
  have "chain ?h z (rev zs) x" using ch(2) ne by simp
  then have d: "dll ?h l (rev (x # ys))"
    using ne snoc by (auto simp: dll_def cells_def chain_append hd_append)
  have s: "same_outside (set (cells l (x # ys))) h ?h"
    using ch head tail snoc by (auto simp: same_outside_def cells_def)
  show ?thesis
    using ch(1,3) ne head tail snoc d s by (simp add: deref_def set_prev_def set_next_def)
qed

lemma list_reverse_dll:
  assumes d: "dll h l xs"
  shows "\<exists>h'. list_reverse h l = Some h' \<and> dll h' l (rev xs) \<and> same_outside (set (cells l xs)) h h'"
proof (cases xs)
  case Nil
  with d show ?thesis by (simp add: list_reverse_def list_empty_dll)
next
  case (Cons x ys)
  have nn: "l \<noteq> NULL" using d by simp
  from d have "half_reversed h l [] xs"
    by (auto simp: half_reversed_def dll_def cells_def chain_append)
  from list_reverse_loop_half [OF this nn] obtain h1 where
    h1: "list_reverse_loop h l (hd (xs @ [tail_of l])) = Some h1" "half_reversed h1 l xs []"
      "same_outside (set xs) h h1" by auto
  have ends: "h1 (head_of l) = h (head_of l)" "h1 (tail_of l) = h (tail_of l)"
    using h1(3) dll_not_null [OF d] by (auto simp: same_outside_def)
  from reverse_ends [of h1 l x ys] h1(2) nn dll_head [OF d] dll_tail [OF d] ends Cons
  obtain h' where h': "(do {
       hd' \<leftarrow> deref h1 (head_of l); tl' \<leftarrow> deref h1 (tail_of l);
       h \<leftarrow> set_next h1 (head_of l) (le_prev tl');
       h \<leftarrow> set_prev h (tail_of l) (le_next hd');
       hd' \<leftarrow> deref h (head_of l); tl' \<leftarrow> deref h (tail_of l);
       f \<leftarrow> deref h (le_next hd'); b \<leftarrow> deref h (le_prev tl');
       h \<leftarrow> set_prev h (le_next hd') (le_next b);
       set_next h (le_prev tl') (le_prev f) }) = Some h'" "dll h' l (rev xs)"
     "same_outside (set (cells l xs)) h1 h'" by auto
  have "list_reverse h l = Some h'"
    using h1(1) h'(1) d Cons by (simp add: list_reverse_def list_empty_dll list_begin_dll)
  moreover have "same_outside (set (cells l xs)) h h'"
    using same_outside_trans [OF h1(3) h'(3)] by (rule same_outside_mono) (auto simp: cells_def)
  ultimately show ?thesis using h'(2) by blast
qed

subsection \<open>Splicing inside a list\<close>

lemma list_splice_dll:
  assumes d: "dll h l (as @ bs @ cs @ ds)" and ne: "bs \<noteq> []" "cs \<noteq> []"
  shows "\<exists>h'. list_splice h (hd bs) (hd cs) (hd (ds @ [tail_of l])) = Some h'
    \<and> dll h' l (as @ cs @ bs @ ds) \<and> same_outside (set (cells l (as @ bs @ cs @ ds))) h h'"
proof -
  obtain as' p where a: "head_of l # as = as' @ [p]" by (metis append_butlast_last_id list.distinct(1))
  obtain e es where e: "ds @ [tail_of l] = e # es" by (cases ds) auto
  have c: "cells l (as @ bs @ cs @ ds) = (as' @ [p]) @ bs @ cs @ (e # es)"
    "cells l (as @ cs @ bs @ ds) = (as' @ [p]) @ cs @ bs @ (e # es)"
    by (simp_all only: cells_def a [symmetric] e [symmetric] append.assoc append_Cons)
  have hd: "hd (ds @ [tail_of l]) = e" by (simp add: e)
  from d ne c(1) list_splice_cells [of h NULL as' p bs cs e es NULL] obtain h' where
    "list_splice h (hd bs) (hd cs) e = Some h'" "chain h' NULL ((as' @ [p]) @ cs @ bs @ (e # es)) NULL"
    "same_outside (set (p # bs @ cs @ [e])) h h'"
    unfolding dll_def by metis
  moreover from d have "distinct (cells l (as @ cs @ bs @ ds))" "NULL \<notin> set (cells l (as @ cs @ bs @ ds))"
    by (auto simp: dll_def c)
  moreover have "set (p # bs @ cs @ [e]) \<subseteq> set (cells l (as @ bs @ cs @ ds))" by (auto simp: c(1))
  ultimately show ?thesis by (auto simp: dll_def c(2) hd elim: same_outside_mono)
qed

subsection \<open>Runs\<close>

lemma is_sorted_loop_dll:
  "dll h l (as @ x # xs @ bs) \<Longrightarrow>
    is_sorted_loop h lt x (hd (bs @ [tail_of l])) = Some (adj_sorted lt (x # xs))"
proof (induction xs arbitrary: as x)
  case Nil
  then show ?case using list_next_dll [of h l as x bs] by (simp add: is_sorted_loop.simps)
next
  case (Cons y xs)
  have nx: "list_next h x = Some y" using list_next_dll [of h l as x "y # xs @ bs"] Cons.prems by simp
  have pv: "list_prev h y = Some x" using list_prev_dll [of h l "as @ [x]" y "xs @ bs"] Cons.prems by simp
  have ne: "y \<noteq> hd (bs @ [tail_of l])"
    using Cons.prems by (cases bs) (auto simp: dll_def cells_def)
  from Cons.IH [of "as @ [x]" y] Cons.prems show ?case
    by (subst is_sorted_loop.simps) (simp add: nx pv ne)
qed

lemma is_sorted_dll:
  assumes "dll h l (as @ xs @ bs)"
  shows "is_sorted h lt (hd (xs @ bs @ [tail_of l])) (hd (bs @ [tail_of l])) = Some (adj_sorted lt xs)"
proof (cases xs)
  case (Cons y ys)
  with assms have "y \<noteq> hd (bs @ [tail_of l])" by (cases bs) (auto simp: dll_def cells_def)
  with Cons assms show ?thesis using is_sorted_loop_dll [of h l as y ys bs] by (simp add: is_sorted_def)
qed (simp add: is_sorted_def)

lemma find_end_of_run_loop_dll:
  "dll h l (as @ x # xs) \<Longrightarrow>
    find_end_of_run_loop h lt x (tail_of l) = Some (hd (after_run lt (x # xs) @ [tail_of l]))"
proof (induction xs arbitrary: as x)
  case Nil
  then show ?case using list_next_dll [of h l as x "[]"] by (simp add: find_end_of_run_loop.simps)
next
  case (Cons y xs)
  have nx: "list_next h x = Some y" using list_next_dll [of h l as x "y # xs"] Cons.prems by simp
  have pv: "list_prev h y = Some x" using list_prev_dll [of h l "as @ [x]" y xs] Cons.prems by simp
  have ne: "y \<noteq> tail_of l" using Cons.prems by (auto simp: dll_def cells_def)
  from Cons.IH [of "as @ [x]" y] Cons.prems show ?case
    by (subst find_end_of_run_loop.simps) (simp add: nx pv ne)
qed

lemma find_end_of_run_dll:
  assumes "dll h l (as @ xs)" and "xs \<noteq> []"
  shows "find_end_of_run h lt (hd xs) (tail_of l) = Some (hd (after_run lt xs @ [tail_of l]))"
proof (cases xs)
  case (Cons y ys)
  with assms have "y \<noteq> tail_of l" "y \<noteq> NULL" "tail_of l \<noteq> NULL" by (auto simp: dll_def cells_def)
  with Cons assms show ?thesis
    using find_end_of_run_loop_dll [of h l as y ys] by (simp add: find_end_of_run_def)
qed (use assms in simp)

subsection \<open>Merging\<close>

lemma inplace_merge_loop_dll:
  "dll h l (as @ xs @ ys @ bs) \<Longrightarrow>
   \<exists>h'. inplace_merge_loop h lt (hd (xs @ ys @ bs @ [tail_of l])) (hd (ys @ bs @ [tail_of l])) (hd (bs @ [tail_of l]))
      = Some h' \<and> dll h' l (as @ merge_runs lt xs ys @ bs)
      \<and> same_outside (set (cells l (as @ xs @ ys @ bs))) h h'"
proof (induction "length xs + length ys" arbitrary: h as xs ys rule: less_induct)
  case less
  show ?case
  proof (cases xs)
    case Nil
    with less.prems show ?thesis by (auto simp: inplace_merge_loop.simps)
  next
    case X: (Cons x xs')
    show ?thesis
    proof (cases ys)
      case Nil
      with less.prems show ?thesis
        by (cases xs) (auto simp: inplace_merge_loop.simps)
    next
      case Y: (Cons y ys')
      have ne: "x \<noteq> y" "y \<noteq> hd (bs @ [tail_of l])"
        using less.prems X Y by (cases bs; auto simp: dll_def cells_def)+
      show ?thesis
      proof (cases "lt y x")
        case False
        have nx: "list_next h x = Some (hd (xs' @ ys @ bs @ [tail_of l]))"
          using list_next_dll [of h l as x "xs' @ ys @ bs"] less.prems X by simp
        from less.hyps [of xs' ys h "as @ [x]"] less.prems X obtain h' where
          "inplace_merge_loop h lt (hd (xs' @ ys @ bs @ [tail_of l])) (hd (ys @ bs @ [tail_of l])) (hd (bs @ [tail_of l])) = Some h'"
          "dll h' l (as @ x # merge_runs lt xs' ys @ bs)" "same_outside (set (cells l (as @ xs @ ys @ bs))) h h'"
          by auto
        then show ?thesis
          using X Y False ne nx by (subst inplace_merge_loop.simps) simp
      next
        case True
        have nx: "list_next h y = Some (hd (ys' @ bs @ [tail_of l]))"
          using list_next_dll [of h l "as @ xs" y "ys' @ bs"] less.prems Y by simp
        have pv: "list_prev h (hd (ys' @ bs @ [tail_of l])) = Some y"
        proof (cases "ys' @ bs")
          case Nil
          then show ?thesis using list_prev_tail [of h l "as @ xs @ [y]"] less.prems Y by simp
        next
          case (Cons z zs)
          then have hz: "hd (ys' @ bs @ [tail_of l]) = z"
            by (metis append.assoc append_Cons list.sel(1))
          have "dll h l ((as @ xs @ [y]) @ z # zs)"
            using less.prems Y Cons by simp
          from list_prev_dll [OF this] show ?thesis by (simp add: hz)
        qed
        have "dll h l (as @ xs @ [y] @ (ys' @ bs))" using less.prems Y by simp
        from list_splice_dll [OF this] X obtain h1 where
          h1: "list_splice h x y (hd (ys' @ bs @ [tail_of l])) = Some h1"
            "dll h1 l (as @ [y] @ xs @ ys' @ bs)" "same_outside (set (cells l (as @ xs @ ys @ bs))) h h1"
          using Y by auto
        from less.hyps [of xs ys' h1 "as @ [y]"] h1(2) Y obtain h' where
          h': "inplace_merge_loop h1 lt (hd (xs @ ys' @ bs @ [tail_of l])) (hd (ys' @ bs @ [tail_of l])) (hd (bs @ [tail_of l])) = Some h'"
            "dll h' l (as @ y # merge_runs lt xs ys' @ bs)"
            "same_outside (set (cells l (as @ [y] @ xs @ ys' @ bs))) h1 h'"
          by auto
        have "same_outside (set (cells l (as @ xs @ ys @ bs))) h h'"
          using same_outside_trans [OF h1(3) h'(3)] by (rule same_outside_mono) (auto simp: cells_def Y)
        with h'(1,2) h1(1) show ?thesis
          using X Y True ne nx pv by (subst inplace_merge_loop.simps) simp
      qed
    qed
  qed
qed

lemma inplace_merge_dll:
  assumes d: "dll h l (as @ xs @ ys @ bs)" and s: "adj_sorted lt xs" "adj_sorted lt ys"
  shows "\<exists>h'. inplace_merge h lt (hd (xs @ ys @ bs @ [tail_of l])) (hd (ys @ bs @ [tail_of l])) (hd (bs @ [tail_of l]))
      = Some h' \<and> dll h' l (as @ merge_runs lt xs ys @ bs)
      \<and> same_outside (set (cells l (as @ xs @ ys @ bs))) h h'"
proof -
  have "hd (xs @ ys @ bs @ [tail_of l]) \<noteq> NULL" "hd (ys @ bs @ [tail_of l]) \<noteq> NULL" "hd (bs @ [tail_of l]) \<noteq> NULL"
    using hd_cells_not_null [of h l as "xs @ ys @ bs"] hd_cells_not_null [of h l "as @ xs" "ys @ bs"]
      hd_cells_not_null [of h l "as @ xs @ ys" bs] d by simp_all
  with is_sorted_dll [of h l as xs "ys @ bs" lt] is_sorted_dll [of h l "as @ xs" ys bs lt]
    inplace_merge_loop_dll [OF d, of lt] d s show ?thesis
    by (simp add: inplace_merge_def)
qed

subsection \<open>The sort\<close>

lemma list_sort_pass_dll:
  "dll h l (as @ xs) \<Longrightarrow>
   \<exists>h'. list_sort_pass h lt l (hd (xs @ [tail_of l])) n = Some (h', n + pass_count lt xs)
     \<and> dll h' l (as @ merge_pass lt xs) \<and> same_outside (set (cells l (as @ xs))) h h'"
proof (induction "length xs" arbitrary: h as xs n rule: less_induct)
  case less
  show ?case
  proof (cases "xs = []")
    case True
    with less.prems show ?thesis
      by (auto simp: list_sort_pass.simps list_end_dll merge_pass.simps pass_count.simps)
  next
    case False
    then obtain x xs' where X: "xs = x # xs'" by (cases xs) auto
    let ?a = "run_of lt xs" and ?r = "after_run lt xs"
    let ?b = "run_of lt ?r" and ?s = "after_run lt ?r"
    have ne: "x \<noteq> tail_of l" using less.prems X by (auto simp: dll_def cells_def)
    have f1: "find_end_of_run h lt x (tail_of l) = Some (hd (?r @ [tail_of l]))"
      using find_end_of_run_dll [of h l as xs lt] less.prems X by simp
    show ?thesis
    proof (cases "?r = []")
      case True
      have "merge_pass lt xs = xs" "pass_count lt xs = 1"
        using run_of_after_run [of lt xs] True False
        by (simp_all add: merge_pass.simps [of lt xs] merge_pass.simps [of lt "[]"]
            pass_count.simps [of lt xs] pass_count.simps [of lt "[]"] del: run_of_after_run)
      with True f1 ne less.prems X show ?thesis
        by (subst list_sort_pass.simps) (auto simp: list_end_dll)
    next
      case r: False
      then obtain y ys' where Y: "?r = y # ys'" by (cases ?r) auto
      have d1: "dll h l ((as @ ?a) @ ?r)" using less.prems by (simp del: run_of_after_run add: run_of_after_run)
      have ney: "y \<noteq> tail_of l" using d1 Y by (auto simp: dll_def cells_def)
      have f2: "find_end_of_run h lt y (tail_of l) = Some (hd (?s @ [tail_of l]))"
        using find_end_of_run_dll [OF d1 r, of lt] Y by simp
      have d2: "dll h l (as @ ?a @ ?b @ ?s)" using less.prems by simp
      have hds: "hd (?a @ ?b @ ?s @ [tail_of l]) = x" "hd (?b @ ?s @ [tail_of l]) = y"
        using X Y False r by (simp_all add: hd_append)
      from inplace_merge_dll [OF d2 adj_sorted_run_of adj_sorted_run_of] hds
      obtain h1 where h1: "inplace_merge h lt x y (hd (?s @ [tail_of l])) = Some h1"
        "dll h1 l ((as @ merge_runs lt ?a ?b) @ ?s)" "same_outside (set (cells l (as @ xs))) h h1" by auto
      have "length ?s < length xs"
        using False by (auto intro: le_less_trans [OF length_after_run_le length_after_run])
      from less.hyps [OF this h1(2), of "Suc n"] obtain h' where
        h': "list_sort_pass h1 lt l (hd (?s @ [tail_of l])) (Suc n) = Some (h', Suc n + pass_count lt ?s)"
          "dll h' l (as @ merge_pass lt xs)"
          "same_outside (set (cells l ((as @ merge_runs lt ?a ?b) @ ?s))) h1 h'"
        using False by (auto simp: merge_pass.simps [of lt xs] Let_def)
      have "set xs = set ?a \<union> set ?b \<union> set ?s"
        by (metis run_of_after_run set_append sup_assoc)
      then have "set (cells l ((as @ merge_runs lt ?a ?b) @ ?s)) = set (cells l (as @ xs))"
        by (auto simp: cells_def)
      with same_outside_trans [OF h1(3) h'(3)] have "same_outside (set (cells l (as @ xs))) h h'" by simp
      moreover have "list_sort_pass h lt l x n = Some (h', n + pass_count lt xs)"
        using less.prems ne f1 f2 Y ney h1(1) h'(1) False
        by (subst list_sort_pass.simps) (simp add: list_end_dll pass_count.simps [of lt xs])
      ultimately show ?thesis using h'(2) X by auto
    qed
  qed
qed

lemma list_sort_loop_dll:
  assumes "asym_order lt"
  shows "dll h l xs \<Longrightarrow> merge_sort lt xs = Some ys \<Longrightarrow>
    \<exists>h'. list_sort_loop h lt l = Some h' \<and> dll h' l ys \<and> same_outside (set (cells l xs)) h h'"
proof (induction "count_runs lt xs" arbitrary: h xs rule: less_induct)
  case less
  from list_sort_pass_dll [of h l "[]" xs lt 0] less.prems(1) obtain h1 where
    h1: "list_sort_pass h lt l (hd (xs @ [tail_of l])) 0 = Some (h1, pass_count lt xs)"
      "dll h1 l (merge_pass lt xs)" "same_outside (set (cells l xs)) h h1" by auto
  show ?case
  proof (cases "pass_count lt xs > 1")
    case True
    have "count_runs lt (merge_pass lt xs) < count_runs lt xs"
      using asym_order.count_runs_merge_pass [OF assms, of xs] True by (auto simp: pass_count_runs)
    moreover have "merge_sort lt (merge_pass lt xs) = Some ys"
      using less.prems(2) True by (simp add: merge_sort.simps [of lt xs] Let_def)
    ultimately obtain h' where h': "list_sort_loop h1 lt l = Some h'" "dll h' l ys"
      "same_outside (set (cells l (merge_pass lt xs))) h1 h'"
      using less.hyps [of "merge_pass lt xs" h1] h1(2) by auto
    have "set (cells l (merge_pass lt xs)) = set (cells l xs)"
      by (simp add: cells_def)
    with same_outside_trans [OF h1(3) h'(3)] have "same_outside (set (cells l xs)) h h'" by simp
    with h'(1,2) h1(1) less.prems(1) True show ?thesis
      by (subst list_sort_loop.simps) (simp add: list_begin_dll)
  next
    case False
    then have "ys = merge_pass lt xs"
      using less.prems(2) by (simp add: merge_sort.simps [of lt xs] Let_def)
    with h1 less.prems(1) False show ?thesis
      by (subst list_sort_loop.simps) (simp add: list_begin_dll)
  qed
qed

lemma list_sort_dll:
  assumes a: "asym_order lt" and d: "dll h l xs"
  shows "\<exists>h' ys. list_sort h lt l = Some h' \<and> merge_sort lt xs = Some ys \<and> dll h' l ys
    \<and> same_outside (set (cells l xs)) h h'"
proof -
  from asym_order.merge_sort_sorts [OF a, of xs] obtain ys where
    ys: "merge_sort lt xs = Some ys" "adj_sorted lt ys" by blast
  from list_sort_loop_dll [OF a d ys(1)] obtain h' where
    h': "list_sort_loop h lt l = Some h'" "dll h' l ys" "same_outside (set (cells l xs)) h h'" by blast
  have "is_sorted h' lt (hd (ys @ [tail_of l])) (tail_of l) = Some True"
    using is_sorted_dll [of h' l "[]" ys "[]" lt] h'(2) ys(2) by simp
  with h' d ys(1) show ?thesis
    by (simp add: list_sort_def list_begin_dll list_end_dll)
qed

subsection \<open>Properties\<close>

text \<open>C7: For a comparison that is a strict weak order, \<open>list_sort\<close> ends and leaves the kernel
  list well linked, holding the same elements in sorted order, equal elements in their old
  order, and writes nothing outside the list.\<close>

theorem list_sort_correct:
  assumes "weak_order lt" "dll h l xs"
  shows "\<exists>h' ys. list_sort h lt l = Some h' \<and> dll h' l ys \<and> mset ys = mset xs
    \<and> sorted_wrt (\<lambda>x y. \<not> lt y x) ys
    \<and> (\<forall>z. filter (\<lambda>y. \<not> lt z y \<and> \<not> lt y z) ys = filter (\<lambda>y. \<not> lt z y \<and> \<not> lt y z) xs)
    \<and> same_outside (set (cells l xs)) h h'"
  using list_sort_dll [OF weak_order.axioms(1) [OF assms(1)] assms(2)]
    weak_order.merge_sort_correct [OF assms(1), of xs] by auto

theorem list_sort_correct_witness:
  "\<exists>h' ys. list_sort two_elems (<) 100 = Some h' \<and> dll h' 100 ys \<and> mset ys = {#200, 300#}
     \<and> sorted_wrt (\<le>) ys"
proof -
  have "weak_order ((<) :: nat \<Rightarrow> nat \<Rightarrow> bool)" by standard auto
  from list_sort_correct [OF this two_elems_dll] show ?thesis
    by (auto simp: not_less add_mset_commute)
qed

text \<open>\<open>list_reverse\<close> leaves the kernel list well linked in both directions with its elements
  in the opposite order.\<close>

theorem list_reverse_correct:
  assumes "dll h l xs"
  shows "\<exists>h'. list_reverse h l = Some h' \<and> dll h' l (rev xs) \<and> same_outside (set (cells l xs)) h h'"
  by (rule list_reverse_dll [OF assms])

theorem list_reverse_correct_witness: "\<exists>h'. list_reverse two_elems 100 = Some h' \<and> dll h' 100 [200, 300]"
  using list_reverse_correct [OF two_elems_dll] by auto

end
