(* ===== verification/Bitmap.thy ===== *)
theory Bitmap imports Prelude begin

section \<open>lib/kernel/bitmap.c: bitmaps\<close>

text \<open>
  A bitmap is an array of 32-bit elements with a number of bits.  A \<open>size_t\<close> is a natural
  number; where the source adds two of them the sum is reduced modulo \<open>2 ^ 32\<close> (\<open>usz\<close>), so the
  guard \<open>start + cnt <= bit_cnt\<close> of the source is the guard with the overflow it has.  An
  access to an element outside the array is \<open>None\<close>.

  The abstraction \<open>bits_of\<close> is the array of bits seen from outside; the lemmas give every
  operation's effect on it.  \<open>bitmap_read\<close> and \<open>bitmap_write\<close> are modelled with the free map
  (theory \<open>FreeMap\<close>), where the file they use is.
\<close>

definition ELEM_BITS :: nat where
  "ELEM_BITS = 32"

definition BITMAP_ERROR :: nat where
  "BITMAP_ERROR = 2 ^ 32 - 1"

definition DIV_ROUND_UP :: "nat \<Rightarrow> nat \<Rightarrow> nat" where
  "DIV_ROUND_UP x step = usz (x + step - 1) div step"

record bitmap =
  bit_cnt :: nat
  elems :: "u32 list"

definition elem_idx :: "nat \<Rightarrow> nat" where
  "elem_idx bit_idx = bit_idx div ELEM_BITS"

definition bit_mask :: "nat \<Rightarrow> u32" where
  "bit_mask bit_idx = push_bit (bit_idx mod ELEM_BITS) 1"

definition elem_cnt :: "nat \<Rightarrow> nat" where
  "elem_cnt n = DIV_ROUND_UP n ELEM_BITS"

definition byte_cnt :: "nat \<Rightarrow> nat" where
  "byte_cnt n = usz (4 * elem_cnt n)"

definition last_mask :: "bitmap \<Rightarrow> u32" where
  "last_mask b = (let last_bits = bit_cnt b mod ELEM_BITS
     in if last_bits \<noteq> 0 then push_bit last_bits 1 - 1 else - 1)"

definition elem_at :: "bitmap \<Rightarrow> nat \<Rightarrow> u32 option" where
  "elem_at b k = (if k < length (elems b) then Some (elems b ! k) else None)"

subsection \<open>Single bits\<close>

definition bitmap_size :: "bitmap \<Rightarrow> nat" where
  "bitmap_size b = bit_cnt b"

definition bitmap_mark :: "bitmap \<Rightarrow> nat \<Rightarrow> bitmap option" where
  "bitmap_mark b bit_idx = do {
     e \<leftarrow> elem_at b (elem_idx bit_idx);
     Some (b\<lparr>elems := (elems b)[elem_idx bit_idx := e OR bit_mask bit_idx]\<rparr>) }"

definition bitmap_reset :: "bitmap \<Rightarrow> nat \<Rightarrow> bitmap option" where
  "bitmap_reset b bit_idx = do {
     e \<leftarrow> elem_at b (elem_idx bit_idx);
     Some (b\<lparr>elems := (elems b)[elem_idx bit_idx := e AND NOT (bit_mask bit_idx)]\<rparr>) }"

definition bitmap_flip :: "bitmap \<Rightarrow> nat \<Rightarrow> bitmap option" where
  "bitmap_flip b bit_idx = do {
     e \<leftarrow> elem_at b (elem_idx bit_idx);
     Some (b\<lparr>elems := (elems b)[elem_idx bit_idx := e XOR bit_mask bit_idx]\<rparr>) }"

definition bitmap_set :: "bitmap \<Rightarrow> nat \<Rightarrow> bool \<Rightarrow> bitmap option" where
  "bitmap_set b idx v = do {
     ASSERT (idx < bit_cnt b);
     if v then bitmap_mark b idx else bitmap_reset b idx }"

definition bitmap_test :: "bitmap \<Rightarrow> nat \<Rightarrow> bool option" where
  "bitmap_test b idx = do {
     ASSERT (idx < bit_cnt b);
     e \<leftarrow> elem_at b (elem_idx idx);
     Some (e AND bit_mask idx \<noteq> 0) }"

subsection \<open>Groups of bits\<close>

text \<open>The loops count \<open>i\<close> up to \<open>cnt\<close>; the third argument is what is left of it.\<close>

fun set_multiple_loop :: "bitmap \<Rightarrow> nat \<Rightarrow> nat \<Rightarrow> nat \<Rightarrow> bool \<Rightarrow> bitmap option" where
  "set_multiple_loop b start i 0 v = Some b"
| "set_multiple_loop b start i (Suc n) v = do {
     b \<leftarrow> bitmap_set b (usz (start + i)) v;
     set_multiple_loop b start (Suc i) n v }"

definition bitmap_set_multiple :: "bitmap \<Rightarrow> nat \<Rightarrow> nat \<Rightarrow> bool \<Rightarrow> bitmap option" where
  "bitmap_set_multiple b start cnt v = do {
     ASSERT (start \<le> bit_cnt b);
     ASSERT (usz (start + cnt) \<le> bit_cnt b);
     set_multiple_loop b start 0 cnt v }"

definition bitmap_set_all :: "bitmap \<Rightarrow> bool \<Rightarrow> bitmap option" where
  "bitmap_set_all b v = bitmap_set_multiple b 0 (bitmap_size b) v"

fun count_loop :: "bitmap \<Rightarrow> nat \<Rightarrow> nat \<Rightarrow> nat \<Rightarrow> bool \<Rightarrow> nat \<Rightarrow> nat option" where
  "count_loop b start i 0 v value_cnt = Some value_cnt"
| "count_loop b start i (Suc n) v value_cnt = do {
     t \<leftarrow> bitmap_test b (usz (start + i));
     count_loop b start (Suc i) n v (if t = v then Suc value_cnt else value_cnt) }"

definition bitmap_count :: "bitmap \<Rightarrow> nat \<Rightarrow> nat \<Rightarrow> bool \<Rightarrow> nat option" where
  "bitmap_count b start cnt v = do {
     ASSERT (start \<le> bit_cnt b);
     ASSERT (usz (start + cnt) \<le> bit_cnt b);
     count_loop b start 0 cnt v 0 }"

fun contains_loop :: "bitmap \<Rightarrow> nat \<Rightarrow> nat \<Rightarrow> nat \<Rightarrow> bool \<Rightarrow> bool option" where
  "contains_loop b start i 0 v = Some False"
| "contains_loop b start i (Suc n) v = do {
     t \<leftarrow> bitmap_test b (usz (start + i));
     if t = v then Some True else contains_loop b start (Suc i) n v }"

definition bitmap_contains :: "bitmap \<Rightarrow> nat \<Rightarrow> nat \<Rightarrow> bool \<Rightarrow> bool option" where
  "bitmap_contains b start cnt v = do {
     ASSERT (start \<le> bit_cnt b);
     ASSERT (usz (start + cnt) \<le> bit_cnt b);
     contains_loop b start 0 cnt v }"

definition bitmap_any :: "bitmap \<Rightarrow> nat \<Rightarrow> nat \<Rightarrow> bool option" where
  "bitmap_any b start cnt = bitmap_contains b start cnt True"

definition bitmap_none :: "bitmap \<Rightarrow> nat \<Rightarrow> nat \<Rightarrow> bool option" where
  "bitmap_none b start cnt = map_option Not (bitmap_contains b start cnt True)"

definition bitmap_all :: "bitmap \<Rightarrow> nat \<Rightarrow> nat \<Rightarrow> bool option" where
  "bitmap_all b start cnt = map_option Not (bitmap_contains b start cnt False)"

text \<open>The search tries \<open>n\<close> starting points from \<open>i\<close> on.\<close>

fun scan_loop :: "bitmap \<Rightarrow> nat \<Rightarrow> nat \<Rightarrow> nat \<Rightarrow> bool \<Rightarrow> nat option" where
  "scan_loop b i 0 cnt v = Some BITMAP_ERROR"
| "scan_loop b i (Suc n) cnt v = do {
     c \<leftarrow> bitmap_contains b i cnt (\<not> v);
     if \<not> c then Some i else scan_loop b (Suc i) n cnt v }"

definition bitmap_scan :: "bitmap \<Rightarrow> nat \<Rightarrow> nat \<Rightarrow> bool \<Rightarrow> nat option" where
  "bitmap_scan b start cnt v = do {
     ASSERT (start \<le> bit_cnt b);
     if cnt \<le> bit_cnt b
     then (let last' = bit_cnt b - cnt in scan_loop b start (Suc last' - start) cnt v)
     else Some BITMAP_ERROR }"

definition bitmap_scan_and_flip :: "bitmap \<Rightarrow> nat \<Rightarrow> nat \<Rightarrow> bool \<Rightarrow> (bitmap \<times> nat) option" where
  "bitmap_scan_and_flip b start cnt v = do {
     idx \<leftarrow> bitmap_scan b start cnt v;
     b \<leftarrow> (if idx \<noteq> BITMAP_ERROR then bitmap_set_multiple b idx cnt (\<not> v) else Some b);
     Some (b, idx) }"

subsection \<open>Creation\<close>

text \<open>
  The results of the two calls of \<open>malloc\<close> are parameters: whether the structure could be
  allocated, and the block for the elements with whatever it contains.  The outer option is
  failure of an assertion, the inner one the null pointer.
\<close>

definition bitmap_create :: "bool \<Rightarrow> u32 list option \<Rightarrow> nat \<Rightarrow> bitmap option option" where
  "bitmap_create ok mem n =
     (if ok then
        (case mem of
           Some w \<Rightarrow> do { b \<leftarrow> bitmap_set_all \<lparr>bit_cnt = n, elems = w\<rparr> False; Some (Some b) }
         | None \<Rightarrow>
             if n = 0 then do { b \<leftarrow> bitmap_set_all \<lparr>bit_cnt = n, elems = []\<rparr> False; Some (Some b) }
             else Some None)
      else Some None)"

text \<open>\<open>sizeof (struct bitmap)\<close> is 8.\<close>

definition bitmap_buf_size :: "nat \<Rightarrow> nat" where
  "bitmap_buf_size n = usz (8 + byte_cnt n)"

definition bitmap_create_in_buf :: "nat \<Rightarrow> u32 list \<Rightarrow> nat \<Rightarrow> bitmap option" where
  "bitmap_create_in_buf n block block_size = do {
     ASSERT (block_size \<ge> bitmap_buf_size n);
     bitmap_set_all \<lparr>bit_cnt = n, elems = drop 2 block\<rparr> False }"

definition bitmap_file_size :: "bitmap \<Rightarrow> nat" where
  "bitmap_file_size b = byte_cnt (bit_cnt b)"

subsection \<open>The abstraction: an array of bits\<close>

definition bit_of :: "bitmap \<Rightarrow> nat \<Rightarrow> bool" where
  "bit_of b i = bit (elems b ! (i div 32)) (i mod 32)"

definition bits_of :: "bitmap \<Rightarrow> bool list" where
  "bits_of b = map (bit_of b) [0..<bit_cnt b]"

definition bm_wf :: "bitmap \<Rightarrow> bool" where
  "bm_wf b = (bit_cnt b \<le> 32 * length (elems b) \<and> bit_cnt b < 2 ^ 32 - 1)"

lemma length_bits_of [simp]: "length (bits_of b) = bit_cnt b"
  by (simp add: bits_of_def)

lemma bits_of_nth [simp]: "i < bit_cnt b \<Longrightarrow> bits_of b ! i = bit_of b i"
  by (simp add: bits_of_def)

lemma bm_index: "bm_wf b \<Longrightarrow> i < bit_cnt b \<Longrightarrow> i div 32 < length (elems b)"
  unfolding bm_wf_def by linarith

lemma div_mod_32_eq: "(i::nat) div 32 = j div 32 \<Longrightarrow> i mod 32 = j mod 32 \<Longrightarrow> i = j"
  by (metis div_mult_mod_eq)

lemma bit_bit_mask: "k < 32 \<Longrightarrow> bit (bit_mask i) k = (k = i mod 32)"
  by (auto simp: bit_mask_def ELEM_BITS_def bit_exp_iff possible_bit_word)

text \<open>Replacing the element that holds bit \<open>i\<close> by one that differs from it in that bit only.\<close>

lemma bit_of_update:
  assumes "bm_wf b" "i < bit_cnt b" "j < bit_cnt b"
    and w: "\<And>k. k < 32 \<Longrightarrow> bit w k = (if k = i mod 32 then v else bit (elems b ! (i div 32)) k)"
  shows "bit_of (b\<lparr>elems := (elems b)[i div 32 := w]\<rparr>) j = (if j = i then v else bit_of b j)"
proof (cases "j div 32 = i div 32")
  case True
  then have "j mod 32 = i mod 32 \<longleftrightarrow> j = i" using div_mod_32_eq by blast
  with True bm_index [OF assms(1,2)] w [of "j mod 32"] show ?thesis by (simp add: bit_of_def)
next
  case False
  then have "j \<noteq> i" by auto
  with False show ?thesis by (simp add: bit_of_def)
qed

lemma bits_of_update:
  assumes "bm_wf b" "i < bit_cnt b"
    and w: "\<And>k. k < 32 \<Longrightarrow> bit w k = (if k = i mod 32 then v else bit (elems b ! (i div 32)) k)"
  shows "bits_of (b\<lparr>elems := (elems b)[i div 32 := w]\<rparr>) = (bits_of b)[i := v]"
proof (rule nth_equalityI)
  fix j
  assume "j < length (bits_of (b\<lparr>elems := (elems b)[i div 32 := w]\<rparr>))"
  then have j: "j < bit_cnt b" by simp
  have "bit_of (b\<lparr>elems := (elems b)[i div 32 := w]\<rparr>) j = (if j = i then v else bit_of b j)"
    by (rule bit_of_update [OF assms(1,2) j]) (rule w)
  with j show "bits_of (b\<lparr>elems := (elems b)[i div 32 := w]\<rparr>) ! j = (bits_of b)[i := v] ! j"
    by (simp add: nth_list_update)
qed simp

lemma bitmap_test_bit:
  assumes "bm_wf b"
  shows "bitmap_test b i = (if i < bit_cnt b then Some (bits_of b ! i) else None)"
proof (cases "i < bit_cnt b")
  case True
  let ?e = "elems b ! (i div 32)"
  have "(?e AND bit_mask i \<noteq> 0) = bit ?e (i mod 32)"
    by (simp add: bit_mask_def ELEM_BITS_def bit_iff_and_push_bit_not_eq_0 push_bit_eq_mult)
  with True bm_index [OF assms True] show ?thesis
    by (simp add: bitmap_test_def elem_at_def elem_idx_def ELEM_BITS_def bit_of_def)
qed (simp add: bitmap_test_def)

lemma bitmap_set_bit:
  assumes "bm_wf b" and i: "i < bit_cnt b"
  shows "\<exists>b'. bitmap_set b i v = Some b' \<and> bm_wf b' \<and> bit_cnt b' = bit_cnt b \<and> bits_of b' = (bits_of b)[i := v]"
proof -
  note idx = bm_index [OF assms]
  let ?e = "elems b ! (i div 32)"
  let ?w = "if v then ?e OR bit_mask i else ?e AND NOT (bit_mask i)"
  let ?b = "b\<lparr>elems := (elems b)[i div 32 := ?w]\<rparr>"
  have "bitmap_set b i v = Some ?b"
    using i idx by (simp add: bitmap_set_def bitmap_mark_def bitmap_reset_def elem_at_def elem_idx_def ELEM_BITS_def)
  moreover have "bm_wf ?b" using assms by (simp add: bm_wf_def)
  moreover have "bits_of ?b = (bits_of b)[i := v]"
    by (rule bits_of_update [OF assms]) (auto simp: bit_or_iff bit_and_iff bit_not_iff bit_bit_mask possible_bit_word)
  ultimately show ?thesis by auto
qed

lemma bitmap_flip_bit:
  assumes "bm_wf b" and i: "i < bit_cnt b"
  shows "\<exists>b'. bitmap_flip b i = Some b' \<and> bm_wf b' \<and> bit_cnt b' = bit_cnt b \<and> bits_of b' = (bits_of b)[i := \<not> bits_of b ! i]"
proof -
  note idx = bm_index [OF assms]
  let ?b = "b\<lparr>elems := (elems b)[i div 32 := elems b ! (i div 32) XOR bit_mask i]\<rparr>"
  have "bitmap_flip b i = Some ?b"
    using idx by (simp add: bitmap_flip_def elem_at_def elem_idx_def ELEM_BITS_def)
  moreover have "bm_wf ?b" using assms by (simp add: bm_wf_def)
  moreover have "bits_of ?b = (bits_of b)[i := \<not> bit_of b i]"
    by (rule bits_of_update [OF assms]) (auto simp: bit_xor_iff bit_bit_mask bit_of_def)
  ultimately show ?thesis using i by auto
qed


subsection \<open>Groups of bits\<close>

text \<open>The bits from \<open>start\<close> on, \<open>cnt\<close> of them, set to \<open>v\<close>.\<close>

definition fill :: "nat \<Rightarrow> nat \<Rightarrow> 'a \<Rightarrow> 'a list \<Rightarrow> 'a list" where
  "fill start cnt v xs = map (\<lambda>i. if start \<le> i \<and> i < start + cnt then v else xs ! i) [0..<length xs]"

lemma length_fill [simp]: "length (fill start cnt v xs) = length xs"
  by (simp add: fill_def)

lemma fill_nth [simp]:
  "i < length xs \<Longrightarrow> fill start cnt v xs ! i = (if start \<le> i \<and> i < start + cnt then v else xs ! i)"
  by (simp add: fill_def)

lemma fill_0 [simp]: "fill start 0 v xs = xs"
  by (rule nth_equalityI) auto

lemma fill_update: "k < length xs \<Longrightarrow> fill (Suc k) n v (xs[k := v]) = fill k (Suc n) v xs"
  by (rule nth_equalityI) (auto simp: nth_list_update)

lemma fill_all: "fill 0 (length xs) v xs = replicate (length xs) v"
  by (rule nth_equalityI) auto

lemma set_multiple_loop_spec:
  assumes "bm_wf b" and "start + i + n \<le> bit_cnt b"
  shows "\<exists>b'. set_multiple_loop b start i n v = Some b' \<and> bm_wf b' \<and> bit_cnt b' = bit_cnt b
    \<and> bits_of b' = fill (start + i) n v (bits_of b)"
  using assms
proof (induction n arbitrary: b i)
  case 0
  then show ?case by simp
next
  case (Suc n)
  from Suc.prems have lt: "start + i < bit_cnt b" "start + i < 2 ^ 32" by (auto simp: bm_wf_def)
  from bitmap_set_bit [OF Suc.prems(1) lt(1), of v] obtain b1 where
    b1: "bitmap_set b (start + i) v = Some b1" "bm_wf b1" "bit_cnt b1 = bit_cnt b"
      "bits_of b1 = (bits_of b)[start + i := v]" by blast
  with Suc.IH [of b1 "Suc i"] Suc.prems lt show ?case by (auto simp: fill_update)
qed

lemma bitmap_set_multiple_spec:
  assumes "bm_wf b" and "start + cnt \<le> bit_cnt b"
  shows "\<exists>b'. bitmap_set_multiple b start cnt v = Some b' \<and> bm_wf b' \<and> bit_cnt b' = bit_cnt b
    \<and> bits_of b' = fill start cnt v (bits_of b)"
  using set_multiple_loop_spec [of b start 0 cnt v] assms
  by (auto simp: bitmap_set_multiple_def bm_wf_def)

lemma bitmap_set_all_spec:
  assumes "bm_wf b"
  shows "\<exists>b'. bitmap_set_all b v = Some b' \<and> bm_wf b' \<and> bit_cnt b' = bit_cnt b
    \<and> bits_of b' = replicate (bit_cnt b) v"
  using bitmap_set_multiple_spec [OF assms, of 0 "bit_cnt b" v] fill_all [of "bits_of b" v]
  by (simp add: bitmap_set_all_def bitmap_size_def)

lemma ex_interval_Suc:
  "(\<exists>j. a + i \<le> j \<and> j < a + i + Suc n \<and> P j)
     = (P (a + i) \<or> (\<exists>j. a + Suc i \<le> j \<and> j < a + Suc i + n \<and> P j))" for a i n :: nat
proof
  assume "\<exists>j. a + i \<le> j \<and> j < a + i + Suc n \<and> P j"
  then obtain j where j: "a + i \<le> j" "j < a + i + Suc n" "P j" by blast
  show "P (a + i) \<or> (\<exists>j. a + Suc i \<le> j \<and> j < a + Suc i + n \<and> P j)"
  proof (cases "j = a + i")
    case False
    with j have "a + Suc i \<le> j \<and> j < a + Suc i + n \<and> P j" by simp
    then show ?thesis by blast
  qed (use j in simp)
next
  assume "P (a + i) \<or> (\<exists>j. a + Suc i \<le> j \<and> j < a + Suc i + n \<and> P j)"
  then show "\<exists>j. a + i \<le> j \<and> j < a + i + Suc n \<and> P j"
  proof
    assume "P (a + i)"
    then show ?thesis by (intro exI [of _ "a + i"]) simp
  next
    assume "\<exists>j. a + Suc i \<le> j \<and> j < a + Suc i + n \<and> P j"
    then obtain j where "a + Suc i \<le> j" "j < a + Suc i + n" "P j" by blast
    then show ?thesis by (intro exI [of _ j]) simp
  qed
qed

lemma contains_loop_spec:
  assumes "bm_wf b" and "start + i + n \<le> bit_cnt b"
  shows "contains_loop b start i n v = Some (\<exists>j. start + i \<le> j \<and> j < start + i + n \<and> bits_of b ! j = v)"
  using assms
proof (induction n arbitrary: i)
  case (Suc n)
  from Suc.prems have lt: "start + i < bit_cnt b" "start + i < 2 ^ 32" by (auto simp: bm_wf_def)
  have shift: "(\<exists>j. start + i \<le> j \<and> j < start + i + Suc n \<and> P j)
      = (P (start + i) \<or> (\<exists>j. start + Suc i \<le> j \<and> j < start + Suc i + n \<and> P j))" for P
    by (rule ex_interval_Suc)
  have "contains_loop b start (Suc i) n v
      = Some (\<exists>j. start + Suc i \<le> j \<and> j < start + Suc i + n \<and> bits_of b ! j = v)"
    using Suc by simp
  then show ?case
    unfolding shift using lt by (simp add: bitmap_test_bit [OF Suc.prems(1)] del: bits_of_nth)
qed auto

lemma bitmap_contains_spec:
  assumes "bm_wf b" and "start + cnt \<le> bit_cnt b"
  shows "bitmap_contains b start cnt v = Some (\<exists>j. start \<le> j \<and> j < start + cnt \<and> bits_of b ! j = v)"
  using contains_loop_spec [of b start 0 cnt v] assms
  by (auto simp: bitmap_contains_def bm_wf_def)

lemma bitmap_all_spec:
  assumes "bm_wf b" and "start + cnt \<le> bit_cnt b"
  shows "bitmap_all b start cnt = Some (\<forall>j. start \<le> j \<and> j < start + cnt \<longrightarrow> bits_of b ! j)"
  using bitmap_contains_spec [OF assms, of False] by (auto simp: bitmap_all_def)

lemma count_loop_spec:
  assumes "bm_wf b" and "start + i + n \<le> bit_cnt b"
  shows "count_loop b start i n v c = Some (c + length (filter (\<lambda>x. x = v) (take n (drop (start + i) (bits_of b)))))"
  using assms
proof (induction n arbitrary: i c)
  case (Suc n)
  from Suc.prems have lt: "start + i < bit_cnt b" "start + i < 2 ^ 32" by (auto simp: bm_wf_def)
  then have "drop (start + i) (bits_of b) = bits_of b ! (start + i) # drop (start + Suc i) (bits_of b)"
    by (metis Cons_nth_drop_Suc add_Suc_right length_bits_of)
  with Suc lt show ?case by (simp add: bitmap_test_bit [OF Suc.prems(1)] del: bits_of_nth)
qed simp

lemma bitmap_count_spec:
  assumes "bm_wf b" and "start + cnt \<le> bit_cnt b"
  shows "bitmap_count b start cnt v = Some (length (filter (\<lambda>x. x = v) (take cnt (drop start (bits_of b)))))"
  using count_loop_spec [of b start 0 cnt v 0] assms by (auto simp: bitmap_count_def bm_wf_def)

subsection \<open>The first free group\<close>

text \<open>A group of \<open>cnt\<close> bits that are all \<open>v\<close> starts at \<open>i\<close>.\<close>

definition group_at :: "bool list \<Rightarrow> nat \<Rightarrow> nat \<Rightarrow> bool \<Rightarrow> bool" where
  "group_at xs i cnt v = (i + cnt \<le> length xs \<and> (\<forall>j. i \<le> j \<and> j < i + cnt \<longrightarrow> xs ! j = v))"

text \<open>What a search over the starting points \<open>i ..< n\<close> returns.\<close>

definition first_group :: "bool list \<Rightarrow> nat \<Rightarrow> nat \<Rightarrow> nat \<Rightarrow> bool \<Rightarrow> nat \<Rightarrow> bool" where
  "first_group xs i n cnt v r =
     (if \<exists>k \<in> {i..<n}. group_at xs k cnt v
      then r \<in> {i..<n} \<and> group_at xs r cnt v \<and> (\<forall>k \<in> {i..<r}. \<not> group_at xs k cnt v)
      else r = BITMAP_ERROR)"

lemma first_group_here: "i < n \<Longrightarrow> group_at xs i cnt v \<Longrightarrow> first_group xs i n cnt v i"
  unfolding first_group_def by (subst if_P) auto

lemma first_group_step:
  assumes "\<not> group_at xs i cnt v" and "first_group xs (Suc i) n cnt v r"
  shows "first_group xs i n cnt v r"
proof (cases "\<exists>k \<in> {Suc i..<n}. group_at xs k cnt v")
  case True
  with assms(2) have r: "r \<in> {Suc i..<n}" "group_at xs r cnt v" "\<forall>k \<in> {Suc i..<r}. \<not> group_at xs k cnt v"
    unfolding first_group_def by (simp_all only: if_True simp_thms) blast+
  have "\<not> group_at xs k cnt v" if "k \<in> {i..<r}" for k
    using that assms(1) r(3) by (cases "k = i") auto
  moreover have "\<exists>k \<in> {i..<n}. group_at xs k cnt v" using r by (intro bexI [of _ r]) auto
  moreover have "r \<in> {i..<n}" using r(1) by simp
  ultimately show ?thesis using r(2) unfolding first_group_def by (simp only: if_True simp_thms) blast
next
  case False
  with assms(2) have "r = BITMAP_ERROR" unfolding first_group_def by (simp only: if_False simp_thms)
  moreover have "\<not> (\<exists>k \<in> {i..<n}. group_at xs k cnt v)"
  proof
    assume "\<exists>k \<in> {i..<n}. group_at xs k cnt v"
    then obtain k where k: "k \<in> {i..<n}" "group_at xs k cnt v" by blast
    with assms(1) have "k \<noteq> i" by blast
    with k have "k \<in> {Suc i..<n}" by simp
    with k(2) False show False by blast
  qed
  ultimately show ?thesis unfolding first_group_def by (simp only: if_False simp_thms)
qed

lemma scan_loop_spec:
  assumes "bm_wf b" and "i + n + cnt \<le> Suc (bit_cnt b)"
  shows "\<exists>r. scan_loop b i n cnt v = Some r \<and> first_group (bits_of b) i (i + n) cnt v r"
  using assms
proof (induction n arbitrary: i)
  case 0
  then show ?case by (simp add: first_group_def)
next
  case (Suc n)
  from Suc.prems have le: "i + cnt \<le> bit_cnt b" by simp
  have c: "bitmap_contains b i cnt (\<not> v) = Some (\<not> group_at (bits_of b) i cnt v)"
    using bitmap_contains_spec [OF Suc.prems(1) le, of "\<not> v"] le by (auto simp: group_at_def)
  show ?case
  proof (cases "group_at (bits_of b) i cnt v")
    case True
    with c have "scan_loop b i (Suc n) cnt v = Some i" by simp
    moreover have "first_group (bits_of b) i (i + Suc n) cnt v i"
      by (rule first_group_here) (simp_all add: True)
    ultimately show ?thesis by blast
  next
    case False
    from Suc.IH [of "Suc i"] Suc.prems obtain r where
      r: "scan_loop b (Suc i) n cnt v = Some r" "first_group (bits_of b) (Suc i) (Suc i + n) cnt v r" by auto
    have "scan_loop b i (Suc n) cnt v = Some r" using r(1) c False by simp
    moreover have "first_group (bits_of b) i (i + Suc n) cnt v r"
      by (rule first_group_step [OF False]) (use r(2) in simp)
    ultimately show ?thesis by blast
  qed
qed

lemma bitmap_scan_spec:
  assumes wf: "bm_wf b" and start: "start \<le> bit_cnt b"
  shows "\<exists>r. bitmap_scan b start cnt v = Some r
    \<and> first_group (bits_of b) start (Suc (bit_cnt b)) cnt v r"
proof -
  have none: "\<not> group_at (bits_of b) k cnt v" if "bit_cnt b < k + cnt" for k
    using that by (simp add: group_at_def)
  show ?thesis
  proof (cases "start + cnt \<le> bit_cnt b")
    case True
    define n where "n = Suc (bit_cnt b - cnt)"
    have le: "start + (n - start) + cnt \<le> Suc (bit_cnt b)" "start + (n - start) = n"
      using True by (simp_all add: n_def)
    from scan_loop_spec [OF wf le(1), of v] le(2)
    obtain r where r: "scan_loop b start (n - start) cnt v = Some r"
      "first_group (bits_of b) start n cnt v r" by metis
    have small: "k \<in> {start..<n}" if "k \<in> {start..<Suc (bit_cnt b)}" "group_at (bits_of b) k cnt v" for k
      using that by (auto simp: group_at_def n_def)
    have ex: "(\<exists>k \<in> {start..<Suc (bit_cnt b)}. group_at (bits_of b) k cnt v)
      = (\<exists>k \<in> {start..<n}. group_at (bits_of b) k cnt v)"
    proof -
      have "n \<le> Suc (bit_cnt b)" by (simp add: n_def)
      then have "k \<in> {start..<Suc (bit_cnt b)}" if "k \<in> {start..<n}" for k using that by simp
      with small show ?thesis by blast
    qed
    have "first_group (bits_of b) start (Suc (bit_cnt b)) cnt v r"
    proof (cases "\<exists>k \<in> {start..<n}. group_at (bits_of b) k cnt v")
      case True
      with r(2) have "r \<in> {start..<n} \<and> group_at (bits_of b) r cnt v \<and> (\<forall>k \<in> {start..<r}. \<not> group_at (bits_of b) k cnt v)"
        unfolding first_group_def by (simp only: if_True simp_thms) blast
      moreover have "n \<le> Suc (bit_cnt b)" by (simp add: n_def)
      ultimately show ?thesis unfolding first_group_def ex using True by (simp only: if_True simp_thms) simp
    next
      case False
      with r(2) show ?thesis unfolding first_group_def ex by (simp only: if_False simp_thms)
    qed
    moreover have "bitmap_scan b start cnt v = Some r" using r(1) True start by (simp add: bitmap_scan_def Let_def n_def)
    ultimately show ?thesis by blast
  next
    case False
    then have "\<not> (\<exists>k \<in> {start..<Suc (bit_cnt b)}. group_at (bits_of b) k cnt v)"
      using none by (auto simp: not_le)
    then have "first_group (bits_of b) start (Suc (bit_cnt b)) cnt v BITMAP_ERROR"
      unfolding first_group_def by (simp only: if_False simp_thms)
    with False start show ?thesis by (auto simp: bitmap_scan_def Let_def)
  qed
qed

lemma bitmap_scan_and_flip_found:
  assumes wf: "bm_wf b" and start: "start \<le> bit_cnt b" and g: "\<exists>k \<ge> start. group_at (bits_of b) k cnt v"
  shows "\<exists>b' r. bitmap_scan_and_flip b start cnt v = Some (b', r) \<and> bm_wf b' \<and> bit_cnt b' = bit_cnt b
    \<and> start \<le> r \<and> group_at (bits_of b) r cnt v \<and> (\<forall>k \<in> {start..<r}. \<not> group_at (bits_of b) k cnt v)
    \<and> bits_of b' = fill r cnt (\<not> v) (bits_of b)"
proof -
  from bitmap_scan_spec [OF wf start] obtain r where
    r: "bitmap_scan b start cnt v = Some r" "first_group (bits_of b) start (Suc (bit_cnt b)) cnt v r" by blast
  from g obtain k where "k \<ge> start" "group_at (bits_of b) k cnt v" by blast
  then have "\<exists>k \<in> {start..<Suc (bit_cnt b)}. group_at (bits_of b) k cnt v"
    by (intro bexI [of _ k]) (auto simp: group_at_def)
  with r(2) have f: "start \<le> r" "group_at (bits_of b) r cnt v" "\<forall>k \<in> {start..<r}. \<not> group_at (bits_of b) k cnt v"
    unfolding first_group_def by (simp_all only: if_True simp_thms) auto
  then have "r + cnt \<le> bit_cnt b" by (simp add: group_at_def)
  moreover from this wf have "r \<noteq> BITMAP_ERROR"
    by (cases "cnt = 0") (auto simp: BITMAP_ERROR_def bm_wf_def)
  ultimately show ?thesis
    using bitmap_set_multiple_spec [OF wf, of r cnt "\<not> v"] r(1) f
    by (auto simp: bitmap_scan_and_flip_def)
qed

lemma bitmap_scan_and_flip_none:
  assumes wf: "bm_wf b" and start: "start \<le> bit_cnt b" and g: "\<not> (\<exists>k \<ge> start. group_at (bits_of b) k cnt v)"
  shows "bitmap_scan_and_flip b start cnt v = Some (b, BITMAP_ERROR)"
proof -
  from bitmap_scan_spec [OF wf start] obtain r where
    r: "bitmap_scan b start cnt v = Some r" "first_group (bits_of b) start (Suc (bit_cnt b)) cnt v r" by blast
  from g have "\<not> (\<exists>k \<in> {start..<Suc (bit_cnt b)}. group_at (bits_of b) k cnt v)" by auto
  with r(2) have "r = BITMAP_ERROR" unfolding first_group_def by (simp only: if_False simp_thms)
  with r(1) show ?thesis by (simp add: bitmap_scan_and_flip_def)
qed

lemma byte_cnt_enough: "n < 2 ^ 32 - 31 \<Longrightarrow> n \<le> 8 * byte_cnt n"
proof -
  assume n: "n < 2 ^ 32 - 31"
  then have e: "elem_cnt n = (n + 31) div 32" by (simp add: elem_cnt_def DIV_ROUND_UP_def ELEM_BITS_def)
  with n have "4 * elem_cnt n < 2 ^ 32" by simp
  then show ?thesis using e by (simp add: byte_cnt_def)
qed

lemma bitmap_create_spec:
  assumes "n < 2 ^ 32 - 31" and "4 * length w = byte_cnt n"
  shows "\<exists>b. bitmap_create True (Some w) n = Some (Some b) \<and> bm_wf b \<and> bit_cnt b = n
    \<and> bits_of b = replicate n False"
proof -
  have "bm_wf \<lparr>bit_cnt = n, elems = w\<rparr>"
    using byte_cnt_enough [OF assms(1)] assms by (simp add: bm_wf_def)
  from bitmap_set_all_spec [OF this, of False] show ?thesis by (auto simp: bitmap_create_def)
qed

subsection \<open>Properties\<close>



end
