(* ===== verification/HashTable.thy ===== *)
theory HashTable imports Prelude "HOL-Library.Multiset" begin

section \<open>lib/kernel/hash.c: the chained hash table\<close>

text \<open>
  The table of \<open>lib/kernel/hash.[ch]\<close>.  A bucket is the sequence of the elements of its kernel
  list (\<open>list_push_front\<close> adds at the head, \<open>list_remove\<close> takes the element out; the
  theories \<open>KernelListLinks\<close> and \<open>KernelListLoops\<close> show that the pointer code does that).  An
  element stands for its \<open>struct hash_elem *\<close>; the hash and the comparison function are fields
  of the table, as in the source.  Whether \<open>malloc\<close> succeeds is an argument.

  The contract between the table and its client is the locale \<open>hash_contract\<close>: the comparison
  is a strict weak order on the elements that occur, and elements that compare equal hash
  alike.  Under it the table is a set with one element per equivalence class.  The client in
  the repository is the supplemental page table of \<open>vm/page.c\<close>; it meets the contract on
  page-aligned addresses, and not beyond them.
\<close>

subsection \<open>Data\<close>

record 'e hash =
  h_elem_cnt :: nat
  h_bucket_cnt :: nat
  h_buckets :: "'e list list"
  h_hash :: "'e \<Rightarrow> u32"
  h_less :: "'e \<Rightarrow> 'e \<Rightarrow> bool"

text \<open>The cursor of an iterator: the head of its bucket, an element, or the null pointer.\<close>

datatype 'e cursor = At_head | At_elem 'e | At_null

record 'e hash_iterator =
  it_bucket :: nat
  it_elem :: "'e cursor"

subsection \<open>Buckets\<close>

definition bucket_idx :: "'e hash \<Rightarrow> 'e \<Rightarrow> nat" where
  "bucket_idx h e = unat (h_hash h e) AND (h_bucket_cnt h - 1)"

definition find_bucket :: "'e hash \<Rightarrow> 'e \<Rightarrow> 'e list" where
  "find_bucket h e = h_buckets h ! bucket_idx h e"

fun find_elem :: "'e hash \<Rightarrow> 'e list \<Rightarrow> 'e \<Rightarrow> 'e option" where
  "find_elem h [] e = None"
| "find_elem h (hi # bucket) e =
     (if \<not> h_less h hi e \<and> \<not> h_less h e hi then Some hi else find_elem h bucket e)"

definition insert_elem :: "'e hash \<Rightarrow> nat \<Rightarrow> 'e \<Rightarrow> 'e hash" where
  "insert_elem h i e = h\<lparr>h_elem_cnt := (h_elem_cnt h + 1) mod 2 ^ 32,
     h_buckets := (h_buckets h)[i := e # h_buckets h ! i]\<rparr>"

text \<open>\<open>list_remove\<close> unlinks the element from whatever bucket it is in.\<close>

definition remove_elem :: "'e hash \<Rightarrow> 'e \<Rightarrow> 'e hash" where
  "remove_elem h e = h\<lparr>h_elem_cnt := (h_elem_cnt h + 2 ^ 32 - 1) mod 2 ^ 32,
     h_buckets := map (remove1 e) (h_buckets h)\<rparr>"

subsection \<open>Resizing\<close>

definition turn_off_least_1bit :: "nat \<Rightarrow> nat" where
  "turn_off_least_1bit x = x AND (x - 1)"

definition is_power_of_2 :: "nat \<Rightarrow> bool" where
  "is_power_of_2 x = (x \<noteq> 0 \<and> turn_off_least_1bit x = 0)"

partial_function (option) round_down_loop :: "nat \<Rightarrow> nat option" where
  "round_down_loop n = (if is_power_of_2 n then Some n else round_down_loop (turn_off_least_1bit n))"

definition MIN_BUCKETS :: nat where "MIN_BUCKETS = 4"
definition BEST_ELEMS_PER_BUCKET :: nat where "BEST_ELEMS_PER_BUCKET = 2"

definition new_bucket_cnt :: "'e hash \<Rightarrow> nat option" where
  "new_bucket_cnt h = (let n = h_elem_cnt h div BEST_ELEMS_PER_BUCKET in
     round_down_loop (if n < MIN_BUCKETS then MIN_BUCKETS else n))"

definition move_elem :: "'e hash \<Rightarrow> 'e \<Rightarrow> 'e list list \<Rightarrow> 'e list list" where
  "move_elem h e bs = bs[bucket_idx h e := e # bs ! bucket_idx h e]"

definition move_elems :: "'e hash \<Rightarrow> 'e list list \<Rightarrow> 'e hash" where
  "move_elems h old = h\<lparr>h_buckets := fold (fold (move_elem h)) old (h_buckets h)\<rparr>"

definition rehash :: "bool \<Rightarrow> 'e hash \<Rightarrow> 'e hash option" where
  "rehash malloc_ok h = do {
     n \<leftarrow> new_bucket_cnt h;
     Some (if n = h_bucket_cnt h then h
       else if \<not> malloc_ok then h
       else move_elems (h\<lparr>h_buckets := replicate n [], h_bucket_cnt := n\<rparr>) (h_buckets h)) }"

subsection \<open>Life cycle\<close>

text \<open>The second component lists the elements the destructor was called on, in order.\<close>

definition hash_clear :: "'e hash \<Rightarrow> bool \<Rightarrow> 'e hash \<times> 'e list" where
  "hash_clear h destructor =
     (h\<lparr>h_buckets := replicate (h_bucket_cnt h) [], h_elem_cnt := 0\<rparr>,
      if destructor then concat (h_buckets h) else [])"

definition hash_init :: "bool \<Rightarrow> ('e \<Rightarrow> u32) \<Rightarrow> ('e \<Rightarrow> 'e \<Rightarrow> bool) \<Rightarrow> bool \<times> 'e hash" where
  "hash_init malloc_ok hsh lt =
     (let h = \<lparr>h_elem_cnt = 0, h_bucket_cnt = 4, h_buckets = [], h_hash = hsh, h_less = lt\<rparr> in
      if malloc_ok then (True, fst (hash_clear h False)) else (False, h))"

definition hash_destroy :: "'e hash \<Rightarrow> bool \<Rightarrow> 'e list" where
  "hash_destroy h destructor = (if destructor then snd (hash_clear h True) else [])"

subsection \<open>Search, insertion, deletion\<close>

definition hash_insert :: "bool \<Rightarrow> 'e hash \<Rightarrow> 'e \<Rightarrow> ('e hash \<times> 'e option) option" where
  "hash_insert malloc_ok h new =
     (let old = find_elem h (find_bucket h new) new;
          h = (if old = None then insert_elem h (bucket_idx h new) new else h) in
      do { h \<leftarrow> rehash malloc_ok h; Some (h, old) })"

definition hash_replace :: "bool \<Rightarrow> 'e hash \<Rightarrow> 'e \<Rightarrow> ('e hash \<times> 'e option) option" where
  "hash_replace malloc_ok h new =
     (let old = find_elem h (find_bucket h new) new;
          h = (case old of Some o' \<Rightarrow> remove_elem h o' | None \<Rightarrow> h);
          h = insert_elem h (bucket_idx h new) new in
      do { h \<leftarrow> rehash malloc_ok h; Some (h, old) })"

definition hash_find :: "'e hash \<Rightarrow> 'e \<Rightarrow> 'e option" where
  "hash_find h e = find_elem h (find_bucket h e) e"

definition hash_delete :: "bool \<Rightarrow> 'e hash \<Rightarrow> 'e \<Rightarrow> ('e hash \<times> 'e option) option" where
  "hash_delete malloc_ok h e =
     (case find_elem h (find_bucket h e) e of
        None \<Rightarrow> Some (h, None)
      | Some found \<Rightarrow> do { h \<leftarrow> rehash malloc_ok (remove_elem h found); Some (h, Some found) })"

definition hash_size :: "'e hash \<Rightarrow> nat" where
  "hash_size h = h_elem_cnt h"

definition hash_empty :: "'e hash \<Rightarrow> bool" where
  "hash_empty h = (h_elem_cnt h = 0)"

subsection \<open>Iteration\<close>

text \<open>The action is a function on the client's state.\<close>

definition hash_apply :: "'e hash \<Rightarrow> ('e \<Rightarrow> 's \<Rightarrow> 's) \<Rightarrow> 's \<Rightarrow> 's" where
  "hash_apply h action s = fold (fold action) (h_buckets h) s"

definition cursor_of :: "'e list \<Rightarrow> 'e cursor" where
  "cursor_of xs = (case xs of [] \<Rightarrow> At_null | x # _ \<Rightarrow> At_elem x)"

text \<open>\<open>list_next\<close> in a bucket: the successor, \<open>At_null\<close> standing for the list's end.\<close>

fun cursor_next :: "'e list \<Rightarrow> 'e cursor \<Rightarrow> 'e cursor" where
  "cursor_next bucket At_head = cursor_of bucket"
| "cursor_next bucket (At_elem e) = cursor_of (tl (dropWhile (\<lambda>x. x \<noteq> e) bucket))"
| "cursor_next bucket At_null = At_null"

definition hash_first :: "'e hash_iterator" where
  "hash_first = \<lparr>it_bucket = 0, it_elem = At_head\<rparr>"

function seek_bucket :: "'e hash \<Rightarrow> 'e hash_iterator \<Rightarrow> 'e hash_iterator" where
  "seek_bucket h it =
     (if it_elem it \<noteq> At_null then it
      else if it_bucket it + 1 \<ge> h_bucket_cnt h then it\<lparr>it_bucket := it_bucket it + 1\<rparr>
      else seek_bucket h \<lparr>it_bucket = it_bucket it + 1,
             it_elem = cursor_of (h_buckets h ! (it_bucket it + 1))\<rparr>)"
  by pat_completeness auto
termination by (relation "measure (\<lambda>(h, it). h_bucket_cnt h - it_bucket it)") auto

declare seek_bucket.simps [simp del]

definition hash_next :: "'e hash \<Rightarrow> 'e hash_iterator \<Rightarrow> 'e hash_iterator option" where
  "hash_next h it = do {
     ASSERT (it_elem it \<noteq> At_null);
     Some (seek_bucket h (it\<lparr>it_elem := cursor_next (h_buckets h ! it_bucket it) (it_elem it)\<rparr>)) }"

definition hash_cur :: "'e hash_iterator \<Rightarrow> 'e option" where
  "hash_cur it = (case it_elem it of At_elem e \<Rightarrow> Some e | _ \<Rightarrow> None)"

text \<open>The iteration idiom of the header comment: the elements seen by
  \<open>hash_first; while (hash_next) use (hash_cur)\<close>.\<close>

partial_function (option) hash_walk :: "'e hash \<Rightarrow> 'e hash_iterator \<Rightarrow> 'e list option" where
  "hash_walk h it = do {
     it \<leftarrow> hash_next h it;
     (case hash_cur it of None \<Rightarrow> Some []
      | Some e \<Rightarrow> do { es \<leftarrow> hash_walk h it; Some (e # es) }) }"

subsection \<open>Hash functions\<close>

definition FNV_32_PRIME :: u32 where "FNV_32_PRIME = 16777619"
definition FNV_32_BASIS :: u32 where "FNV_32_BASIS = 2166136261"

definition hash_bytes :: "byte list \<Rightarrow> u32" where
  "hash_bytes buf = foldl (\<lambda>hash b. (hash * FNV_32_PRIME) XOR ucast b) FNV_32_BASIS buf"

text \<open>\<open>s\<close> is memory from the string's start on, its terminator in it.\<close>

definition hash_string :: "byte list \<Rightarrow> u32" where
  "hash_string s = foldl (\<lambda>hash b. (hash * FNV_32_PRIME) XOR ucast b) FNV_32_BASIS
     (takeWhile (\<lambda>b. b \<noteq> 0) s)"

definition hash_int :: "int \<Rightarrow> u32" where
  "hash_int i = hash_bytes (bytes_of_u32 (word_of_int i))"

subsection \<open>The number of buckets\<close>

lemma turn_off_even: "turn_off_least_1bit (2 * y) = 2 * turn_off_least_1bit y"
proof (cases "y = 0")
  case False
  then have "2 * y - 1 = 2 * (y - 1) + 1" by simp
  then have "2 * y AND (2 * y - 1) = 2 * (y AND (y - 1))"
    by (simp only: and_nat_rec [of "2 * y"]) simp
  then show ?thesis by (simp add: turn_off_least_1bit_def)
qed (simp add: turn_off_least_1bit_def)

lemma turn_off_odd: "turn_off_least_1bit (2 * y + 1) = 2 * y"
proof -
  have "(2 * y + 1) AND (2 * y) = 2 * (y AND y)"
    by (simp only: and_nat_rec [of "2 * y + 1"]) simp
  then show ?thesis by (simp add: turn_off_least_1bit_def)
qed

lemma turn_off_less: "x \<noteq> 0 \<Longrightarrow> turn_off_least_1bit x < x"
proof (induction x rule: less_induct)
  case (less x)
  show ?case
  proof (cases "even x")
    case True
    then obtain y where "x = 2 * y" by blast
    with less show ?thesis by (simp add: turn_off_even)
  next
    case False
    then obtain y where "x = 2 * y + 1" by (auto elim: oddE)
    then show ?thesis using turn_off_odd [of y] by simp
  qed
qed

lemma is_power_of_2_pow: "is_power_of_2 (2 ^ k)"
proof (induction k)
  case 0
  show ?case by (simp add: is_power_of_2_def turn_off_least_1bit_def)
next
  case (Suc k)
  then show ?case using turn_off_even [of "2 ^ k"] by (simp add: is_power_of_2_def)
qed

lemma turn_off_ge:
  "2 ^ k \<le> n \<Longrightarrow> \<not> is_power_of_2 n \<Longrightarrow> 2 ^ k \<le> turn_off_least_1bit n"
proof (induction k arbitrary: n)
  case 0
  then show ?case by (auto simp: is_power_of_2_def)
next
  case (Suc k)
  show ?case
  proof (cases "even n")
    case True
    then obtain y where y: "n = 2 * y" by blast
    with Suc.prems have "2 ^ k \<le> y" "\<not> is_power_of_2 y"
      by (auto simp: is_power_of_2_def turn_off_even)
    with Suc.IH show ?thesis by (simp add: y turn_off_even)
  next
    case False
    then obtain y where y: "n = 2 * y + 1" by (auto elim: oddE)
    with Suc.prems show ?thesis using turn_off_odd [of y] by simp
  qed
qed

text \<open>The loop ends, at the largest power of two that is not above its argument.\<close>

lemma round_down_loop_bounds:
  "2 ^ k \<le> n \<Longrightarrow> n < 2 ^ Suc k \<Longrightarrow> round_down_loop n = Some (2 ^ k)"
proof (induction n rule: less_induct)
  case (less n)
  show ?case
  proof (cases "is_power_of_2 n")
    case True
    have "n = 2 ^ k"
    proof (rule ccontr)
      assume "n \<noteq> 2 ^ k"
      define m where "m = n - 2 ^ k"
      from less.prems \<open>n \<noteq> 2 ^ k\<close> have m: "n = 2 ^ k + m" "0 < m" "m < 2 ^ k" by (auto simp: m_def)
      have bit_k: "bit (2 ^ k + j) k" if "j < 2 ^ k" for j :: nat
        using that by (simp add: bit_iff_odd div_add_self1)
      have "bit n k" unfolding m(1) using m(3) by (rule bit_k)
      moreover have "bit (n - 1) k" using bit_k [of "m - 1"] m by simp
      ultimately have "bit (turn_off_least_1bit n) k" by (simp add: turn_off_least_1bit_def bit_and_iff)
      with True show False by (simp add: is_power_of_2_def)
    qed
    with True show ?thesis by (simp add: round_down_loop.simps)
  next
    case False
    have "0 < n" using less.prems(1) by (cases n) auto
    then have "turn_off_least_1bit n < n" by (simp add: turn_off_less)
    with less False turn_off_ge [of k n] show ?thesis
      by (subst round_down_loop.simps) (auto intro: less_trans)
  qed
qed

lemma pow2_between: "0 < (n::nat) \<Longrightarrow> \<exists>k. 2 ^ k \<le> n \<and> n < 2 ^ Suc k"
proof (induction n rule: less_induct)
  case (less n)
  show ?case
  proof (cases "n = 1")
    case True
    then show ?thesis by (intro exI [of _ 0]) simp
  next
    case False
    with less.prems less.IH [of "n div 2"] obtain k where "2 ^ k \<le> n div 2" "n div 2 < 2 ^ Suc k"
      by auto
    then show ?thesis by (intro exI [of _ "Suc k"]) auto
  qed
qed

lemma new_bucket_cnt_spec:
  "\<exists>k\<ge>2. new_bucket_cnt h = Some (2 ^ k) \<and> h_elem_cnt h < 4 * 2 ^ k
     \<and> (k = 2 \<or> 2 * 2 ^ k \<le> h_elem_cnt h)"
proof -
  define n where "n = (let n = h_elem_cnt h div BEST_ELEMS_PER_BUCKET in if n < MIN_BUCKETS then MIN_BUCKETS else n)"
  have n4: "4 \<le> n" by (simp add: n_def MIN_BUCKETS_def Let_def)
  from pow2_between [of n] n4 obtain k where k: "2 ^ k \<le> n" "n < 2 ^ Suc k" by auto
  have "new_bucket_cnt h = Some (2 ^ k)"
    using round_down_loop_bounds [OF k] by (simp add: new_bucket_cnt_def n_def Let_def)
  moreover have k2: "2 \<le> k"
  proof (rule ccontr)
    assume "\<not> 2 \<le> k"
    then have "(2::nat) ^ Suc k \<le> 2 ^ 2" by (intro power_increasing) auto
    with k(2) n4 show False by simp
  qed
  moreover have "h_elem_cnt h < 4 * 2 ^ k"
    using k(2) by (auto simp: n_def Let_def BEST_ELEMS_PER_BUCKET_def MIN_BUCKETS_def split: if_splits)
  moreover have "k = 2 \<or> 2 * 2 ^ k \<le> h_elem_cnt h"
  proof (cases "h_elem_cnt h div 2 < 4")
    case True
    then have "n = 4" by (simp add: n_def Let_def BEST_ELEMS_PER_BUCKET_def MIN_BUCKETS_def)
    with k(1) have "(2::nat) ^ k \<le> 2 ^ 2" by simp
    then have "k \<le> 2" by (simp only: power_increasing_iff)
    with k2 show ?thesis by simp
  next
    case False
    with k(1) show ?thesis by (auto simp: n_def Let_def BEST_ELEMS_PER_BUCKET_def MIN_BUCKETS_def)
  qed
  ultimately show ?thesis by blast
qed

subsection \<open>The table as a set of elements\<close>

definition hash_elems :: "'e hash \<Rightarrow> 'e list" where
  "hash_elems h = concat (h_buckets h)"

definition placed :: "'e hash \<Rightarrow> 'e list list \<Rightarrow> bool" where
  "placed h bs = (\<forall>i < length bs. \<forall>e \<in> set (bs ! i). bucket_idx h e = i)"

definition buckets_ok :: "'e hash \<Rightarrow> bool" where
  "buckets_ok h = (length (h_buckets h) = h_bucket_cnt h \<and> (\<exists>k. h_bucket_cnt h = 2 ^ k)
     \<and> placed h (h_buckets h))"

definition eqv :: "'e hash \<Rightarrow> 'e \<Rightarrow> 'e \<Rightarrow> bool" where
  "eqv h a b = (\<not> h_less h a b \<and> \<not> h_less h b a)"

definition hash_inv :: "'e hash \<Rightarrow> bool" where
  "hash_inv h = (buckets_ok h \<and> distinct (hash_elems h) \<and> length (hash_elems h) < 2 ^ 32
     \<and> h_elem_cnt h = length (hash_elems h)
     \<and> (\<forall>a \<in> set (hash_elems h). \<forall>b \<in> set (hash_elems h). eqv h a b \<longrightarrow> a = b))"

lemma eqv_update [simp]:
  "eqv (h_buckets_update f h) = eqv h" "eqv (h_elem_cnt_update g h) = eqv h"
  "eqv (h_bucket_cnt_update g h) = eqv h"
  by (auto simp: eqv_def fun_eq_iff)

lemma bucket_idx_update [simp]:
  "bucket_idx (h_buckets_update f h) = bucket_idx h" "bucket_idx (h_elem_cnt_update g h) = bucket_idx h"
  by (auto simp: bucket_idx_def fun_eq_iff)

lemma placed_update [simp]:
  "placed (h_buckets_update f h) = placed h" "placed (h_elem_cnt_update g h) = placed h"
  by (auto simp: placed_def fun_eq_iff)

lemma bucket_idx_less: "h_bucket_cnt h = 2 ^ k \<Longrightarrow> bucket_idx h e < h_bucket_cnt h"
proof -
  assume "h_bucket_cnt h = 2 ^ k"
  moreover have "x AND (2 ^ k - 1) = x mod 2 ^ k" for x :: nat
    by (simp add: take_bit_eq_mod [symmetric] take_bit_eq_mask mask_eq_exp_minus_1)
  ultimately show ?thesis by (simp add: bucket_idx_def)
qed

lemma buckets_ok_idx: "buckets_ok h \<Longrightarrow> bucket_idx h e < length (h_buckets h)"
  using bucket_idx_less [of h _ e] by (auto simp: buckets_ok_def)

lemma mset_concat_push:
  "i < length bs \<Longrightarrow> mset (concat (bs[i := e # bs ! i])) = add_mset e (mset (concat bs))"
  by (induction bs arbitrary: i) (auto split: nat.splits)

lemma placed_push: "placed h bs \<Longrightarrow> placed h (move_elem h e bs)"
  by (cases "bucket_idx h e < length bs") (auto simp: placed_def move_elem_def nth_list_update split: if_splits)

lemma length_move_elem [simp]: "length (move_elem h e bs) = length bs"
  by (simp add: move_elem_def)

lemma fold_move_elem:
  assumes "placed h bs" "\<And>e. e \<in> set es \<Longrightarrow> bucket_idx h e < length bs"
  shows "placed h (fold (move_elem h) es bs) \<and> length (fold (move_elem h) es bs) = length bs
    \<and> mset (concat (fold (move_elem h) es bs)) = mset es + mset (concat bs)"
  using assms
proof (induction es arbitrary: bs)
  case (Cons e es)
  from Cons.prems have "mset (concat (move_elem h e bs)) = add_mset e (mset (concat bs))"
    by (simp add: move_elem_def mset_concat_push)
  with Cons.IH [of "move_elem h e bs"] Cons.prems show ?case by (auto simp: placed_push)
qed simp

lemma fold_fold_concat: "fold (fold f) xss s = fold f (concat xss) s"
  by (induction xss arbitrary: s) auto

lemma concat_remove1:
  "distinct (concat bs) \<Longrightarrow> concat (map (remove1 e) bs) = remove1 e (concat bs)"
proof (induction bs)
  case (Cons b bs)
  then show ?case
  proof (cases "e \<in> set b")
    case True
    with Cons.prems have "map (remove1 e) bs = bs"
      by (intro map_idI remove1_idem) auto
    with True show ?thesis by (simp add: remove1_append)
  qed (simp add: remove1_append remove1_idem)
qed simp

text \<open>The cost of a rehash is not a reason to fail, and neither is failing to allocate.\<close>

lemma rehash_buckets:
  assumes "buckets_ok h"
  shows "\<exists>h'. rehash malloc_ok h = Some h' \<and> buckets_ok h' \<and> mset (hash_elems h') = mset (hash_elems h)
    \<and> h_elem_cnt h' = h_elem_cnt h \<and> h_hash h' = h_hash h \<and> h_less h' = h_less h
    \<and> (malloc_ok \<longrightarrow> h_elem_cnt h < 4 * h_bucket_cnt h'
          \<and> (h_bucket_cnt h' = 4 \<or> 2 * h_bucket_cnt h' \<le> h_elem_cnt h))"
proof -
  from new_bucket_cnt_spec [of h] obtain k where k: "2 \<le> k" "new_bucket_cnt h = Some (2 ^ k)"
    "h_elem_cnt h < 4 * 2 ^ k" "k = 2 \<or> 2 * 2 ^ k \<le> h_elem_cnt h" by auto
  show ?thesis
  proof (cases "2 ^ k = h_bucket_cnt h \<or> \<not> malloc_ok")
    case True
    with assms k show ?thesis by (auto simp: rehash_def)
  next
    case False
    define g where "g = h\<lparr>h_buckets := replicate (2 ^ k) [], h_bucket_cnt := 2 ^ k\<rparr>"
    have r: "rehash malloc_ok h = Some (move_elems g (h_buckets h))"
      using False k by (simp add: rehash_def g_def)
    have gb: "h_bucket_cnt g = 2 ^ k" by (simp add: g_def)
    have "placed g (h_buckets g)" by (simp add: placed_def g_def)
    from fold_move_elem [OF this, of "concat (h_buckets h)"] bucket_idx_less [OF gb]
    have "placed g (h_buckets (move_elems g (h_buckets h)))
        \<and> length (h_buckets (move_elems g (h_buckets h))) = 2 ^ k
        \<and> mset (hash_elems (move_elems g (h_buckets h))) = mset (hash_elems h)"
      by (simp add: gb move_elems_def fold_fold_concat hash_elems_def) (simp add: g_def concat_replicate_trivial)
    then have "buckets_ok (move_elems g (h_buckets h))
        \<and> mset (hash_elems (move_elems g (h_buckets h))) = mset (hash_elems h)"
      by (auto simp: buckets_ok_def move_elems_def gb)
    with r k show ?thesis by (auto simp: move_elems_def g_def)
  qed
qed

lemma hash_inv_cong:
  assumes "hash_inv h" "buckets_ok h'" "mset (hash_elems h') = mset (hash_elems h)"
    "h_elem_cnt h' = h_elem_cnt h" "h_less h' = h_less h"
  shows "hash_inv h'"
proof -
  have "set (hash_elems h') = set (hash_elems h)" "length (hash_elems h') = length (hash_elems h)"
    "distinct (hash_elems h') = distinct (hash_elems h)"
    using assms(3) by (metis set_mset_mset, metis size_mset, metis mset_eq_imp_distinct_iff)
  with assms show ?thesis by (auto simp: hash_inv_def eqv_def)
qed

subsection \<open>The contract with the client\<close>

definition table :: "('e \<Rightarrow> u32) \<Rightarrow> ('e \<Rightarrow> 'e \<Rightarrow> bool) \<Rightarrow> 'e set \<Rightarrow> 'e hash \<Rightarrow> bool" where
  "table hsh lt D h = (hash_inv h \<and> h_hash h = hsh \<and> h_less h = lt \<and> set (hash_elems h) \<subseteq> D)"

lemma find_elem_find: "find_elem h b e = find (\<lambda>x. eqv h x e) b"
  by (induction b) (auto simp: eqv_def)

lemma hash_elems_bucket:
  "x \<in> set (hash_elems h) \<longleftrightarrow> (\<exists>i < length (h_buckets h). x \<in> set (h_buckets h ! i))"
proof
  assume "x \<in> set (hash_elems h)"
  then obtain b where "b \<in> set (h_buckets h)" "x \<in> set b" by (auto simp: hash_elems_def)
  then show "\<exists>i < length (h_buckets h). x \<in> set (h_buckets h ! i)" by (metis in_set_conv_nth)
qed (auto simp: hash_elems_def)

lemma in_own_bucket:
  "buckets_ok h \<Longrightarrow> x \<in> set (hash_elems h) \<Longrightarrow> x \<in> set (find_bucket h x)"
  by (auto simp: hash_elems_bucket find_bucket_def buckets_ok_def placed_def)

lemma find_bucket_elems: "buckets_ok h \<Longrightarrow> x \<in> set (find_bucket h e) \<Longrightarrow> x \<in> set (hash_elems h)"
  using buckets_ok_idx [of h e] by (auto simp: hash_elems_bucket find_bucket_def)

lemma buckets_ok_insert: "buckets_ok h \<Longrightarrow> buckets_ok (insert_elem h (bucket_idx h e) e)"
  using placed_push [of h "h_buckets h" e]
  by (auto simp: buckets_ok_def insert_elem_def move_elem_def)

lemma mset_insert_elem:
  "buckets_ok h \<Longrightarrow> mset (hash_elems (insert_elem h (bucket_idx h e) e)) = add_mset e (mset (hash_elems h))"
  by (simp add: hash_elems_def insert_elem_def mset_concat_push buckets_ok_idx)

lemma buckets_ok_remove: "buckets_ok h \<Longrightarrow> buckets_ok (remove_elem h e)"
  using set_remove1_subset [of e] by (fastforce simp: buckets_ok_def remove_elem_def placed_def)

lemma hash_elems_remove: "hash_inv h \<Longrightarrow> hash_elems (remove_elem h e) = remove1 e (hash_elems h)"
  by (simp add: hash_inv_def hash_elems_def remove_elem_def concat_remove1)

lemma hash_inv_remove:
  assumes "hash_inv h" "e \<in> set (hash_elems h)"
  shows "hash_inv (remove_elem h e)"
proof -
  have "0 < length (hash_elems h)" using assms(2) by (cases "hash_elems h") auto
  moreover from this have "(length (hash_elems h) + 2 ^ 32 - 1) mod 2 ^ 32 = length (hash_elems h) - 1"
    if "length (hash_elems h) < 2 ^ 32"
    using that by (simp add: mod_if)
  moreover have "h_elem_cnt (remove_elem h e) = (h_elem_cnt h + 2 ^ 32 - 1) mod 2 ^ 32"
    "eqv (remove_elem h e) = eqv h"
    by (simp_all add: remove_elem_def)
  ultimately show ?thesis
    using assms buckets_ok_remove [of h e]
    by (auto simp: hash_inv_def hash_elems_remove [OF assms(1)] length_remove1 dest: notin_set_remove1)
qed

lemma hash_inv_insert:
  assumes "hash_inv h" "length (hash_elems h) + 1 < 2 ^ 32"
    "\<And>x. x \<in> set (hash_elems h) \<Longrightarrow> \<not> eqv h x e \<and> \<not> eqv h e x" "eqv h e e"
  shows "hash_inv (insert_elem h (bucket_idx h e) e)"
proof -
  let ?h = "insert_elem h (bucket_idx h e) e"
  have ok: "buckets_ok h" using assms(1) by (simp add: hash_inv_def)
  have m: "mset (hash_elems ?h) = mset (e # hash_elems h)" by (simp add: mset_insert_elem ok)
  have "e \<notin> set (hash_elems h)" using assms(3,4) by blast
  with assms(1) have "distinct (e # hash_elems h)" by (simp add: hash_inv_def)
  with m have "distinct (hash_elems ?h)" by (metis mset_eq_imp_distinct_iff)
  moreover have "length (hash_elems ?h) = Suc (length (hash_elems h))"
    using m by (metis length_Cons mset_eq_length)
  moreover have "set (hash_elems ?h) = insert e (set (hash_elems h))"
    using m by (metis list.simps(15) mset_eq_setD)
  moreover have "h_elem_cnt ?h = length (hash_elems h) + 1"
    using assms(1,2) by (simp add: hash_inv_def insert_elem_def)
  moreover have "eqv ?h = eqv h" by (simp add: insert_elem_def)
  ultimately show ?thesis
    using assms buckets_ok_insert [OF ok, of e] by (auto simp: hash_inv_def)
qed

locale hash_contract =
  fixes hsh :: "'e \<Rightarrow> u32" and lt :: "'e \<Rightarrow> 'e \<Rightarrow> bool" and D :: "'e set"
  assumes asym: "a \<in> D \<Longrightarrow> b \<in> D \<Longrightarrow> lt a b \<Longrightarrow> \<not> lt b a"
    and ntrans: "a \<in> D \<Longrightarrow> b \<in> D \<Longrightarrow> c \<in> D \<Longrightarrow> \<not> lt a b \<Longrightarrow> \<not> lt b c \<Longrightarrow> \<not> lt a c"
    and same_hash: "a \<in> D \<Longrightarrow> b \<in> D \<Longrightarrow> \<not> lt a b \<Longrightarrow> \<not> lt b a \<Longrightarrow> hsh a = hsh b"
begin

abbreviation "ok \<equiv> table hsh lt D"

abbreviation "equivalent a b \<equiv> \<not> lt a b \<and> \<not> lt b a"

lemma ok_D: "ok h \<Longrightarrow> hash_inv h \<and> buckets_ok h \<and> eqv h = (\<lambda>a b. equivalent a b) \<and> set (hash_elems h) \<subseteq> D"
  by (auto simp: table_def hash_inv_def eqv_def fun_eq_iff)

lemma find_elem_correct:
  assumes "ok h" "e \<in> D"
  shows "find_elem h (find_bucket h e) e = Some x \<longleftrightarrow> x \<in> set (hash_elems h) \<and> equivalent x e" (is "?f = _ \<longleftrightarrow> _")
proof
  assume "?f = Some x"
  then have "x \<in> set (find_bucket h e)" "eqv h x e"
    by (auto simp: find_elem_find find_Some_iff in_set_conv_nth)
  with assms show "x \<in> set (hash_elems h) \<and> equivalent x e"
    using ok_D find_bucket_elems by metis
next
  assume x: "x \<in> set (hash_elems h) \<and> equivalent x e"
  then have xD: "x \<in> D" using assms(1) ok_D by blast
  have "h_hash h x = h_hash h e" using same_hash [OF xD assms(2)] x assms(1) by (simp add: table_def)
  then have "find_bucket h x = find_bucket h e" by (simp add: find_bucket_def bucket_idx_def)
  then have "x \<in> set (find_bucket h e)" using in_own_bucket [of h x] x assms(1) ok_D by metis
  moreover have "eqv h x e" using x ok_D [OF assms(1)] by simp
  ultimately obtain y where y: "find_elem h (find_bucket h e) e = Some y"
    by (cases "find_elem h (find_bucket h e) e") (auto simp: find_elem_find find_None_iff)
  then have "y \<in> set (find_bucket h e)" "equivalent y e"
    using ok_D [OF assms(1)] by (auto simp: find_elem_find find_Some_iff in_set_conv_nth)
  then have "y \<in> set (hash_elems h)" "y \<in> D"
    using assms(1) ok_D find_bucket_elems by (metis, metis subset_iff)
  with \<open>equivalent y e\<close> x xD assms(2) have "equivalent x y" using ntrans by blast
  then have "x = y" using x \<open>y \<in> set (hash_elems h)\<close> ok_D [OF assms(1)] by (auto simp: hash_inv_def)
  with y show "?f = Some x" by simp
qed

lemma find_elem_none:
  "ok h \<Longrightarrow> e \<in> D \<Longrightarrow> find_elem h (find_bucket h e) e = None \<longleftrightarrow> (\<forall>x \<in> set (hash_elems h). \<not> equivalent x e)"
  using find_elem_correct [of h e] by (metis option.exhaust option.distinct(1))

lemma rehash_ok:
  assumes "ok h"
  shows "\<exists>h'. rehash m h = Some h' \<and> ok h' \<and> mset (hash_elems h') = mset (hash_elems h)
    \<and> (m \<longrightarrow> hash_size h' < 4 * h_bucket_cnt h')"
proof -
  from rehash_buckets [of h m] assms ok_D obtain h' where h': "rehash m h = Some h'" "buckets_ok h'"
    "mset (hash_elems h') = mset (hash_elems h)" "h_elem_cnt h' = h_elem_cnt h"
    "h_hash h' = h_hash h" "h_less h' = h_less h" "m \<longrightarrow> h_elem_cnt h < 4 * h_bucket_cnt h'" by blast
  then have "hash_inv h'" using hash_inv_cong assms ok_D by metis
  moreover have "set (hash_elems h') = set (hash_elems h)" using h'(3) by (rule mset_eq_setD)
  ultimately show ?thesis using h' assms by (auto simp: table_def hash_size_def)
qed

lemma insert_elem_ok:
  assumes "ok h" "e \<in> D" "length (hash_elems h) + 1 < 2 ^ 32"
    "\<forall>x \<in> set (hash_elems h). \<not> equivalent x e"
  shows "ok (insert_elem h (bucket_idx h e) e)"
proof -
  have "hash_inv (insert_elem h (bucket_idx h e) e)"
    using assms asym ok_D [OF assms(1)] by (intro hash_inv_insert) auto
  moreover have "set (hash_elems (insert_elem h (bucket_idx h e) e)) = insert e (set (hash_elems h))"
    using mset_insert_elem [of h e] ok_D [OF assms(1)] by (metis mset_eq_setD list.simps(15) mset.simps(2))
  ultimately show ?thesis using assms by (auto simp: table_def insert_elem_def)
qed

lemma hash_insert_correct:
  assumes "ok h" "e \<in> D" "length (hash_elems h) + 1 < 2 ^ 32"
  shows "\<exists>h'. hash_insert m h e = Some (h', hash_find h e) \<and> ok h'
    \<and> mset (hash_elems h') = (if hash_find h e = None then {#e#} else {#}) + mset (hash_elems h)
    \<and> (m \<longrightarrow> hash_size h' < 4 * h_bucket_cnt h')"
proof (cases "hash_find h e")
  case None
  with assms have "ok (insert_elem h (bucket_idx h e) e)"
    by (intro insert_elem_ok) (auto simp: hash_find_def find_elem_none)
  from rehash_ok [OF this, of m] None mset_insert_elem [of h e] ok_D [OF assms(1)] show ?thesis
    by (auto simp: hash_insert_def hash_find_def)
next
  case (Some x)
  with rehash_ok [OF assms(1), of m] show ?thesis by (auto simp: hash_insert_def hash_find_def Let_def)
qed

lemma remove_elem_ok:
  assumes "ok h" "x \<in> set (hash_elems h)"
  shows "ok (remove_elem h x)" "mset (hash_elems (remove_elem h x)) = mset (hash_elems h) - {#x#}"
proof -
  have i: "hash_inv h" using assms(1) ok_D by blast
  then show "mset (hash_elems (remove_elem h x)) = mset (hash_elems h) - {#x#}"
    by (simp add: hash_elems_remove)
  from i show "ok (remove_elem h x)"
    using assms set_remove1_subset [of x "hash_elems h"] hash_inv_remove [OF i assms(2)] hash_elems_remove [OF i, of x]
    by (simp add: table_def remove_elem_def) blast
qed

lemma hash_delete_correct:
  assumes "ok h" "e \<in> D"
  shows "\<exists>h'. hash_delete m h e = Some (h', hash_find h e) \<and> ok h'
    \<and> mset (hash_elems h') = mset (hash_elems h) - (case hash_find h e of None \<Rightarrow> {#} | Some x \<Rightarrow> {#x#})"
proof (cases "hash_find h e")
  case None
  with assms show ?thesis by (auto simp: hash_delete_def hash_find_def)
next
  case (Some x)
  then have "x \<in> set (hash_elems h)" using find_elem_correct [OF assms] by (simp add: hash_find_def)
  from remove_elem_ok [OF assms(1) this] rehash_ok [of "remove_elem h x" m] Some show ?thesis
    by (auto simp: hash_delete_def hash_find_def)
qed

lemma hash_replace_correct:
  assumes "ok h" "e \<in> D" "length (hash_elems h) + 1 < 2 ^ 32"
  shows "\<exists>h'. hash_replace m h e = Some (h', hash_find h e) \<and> ok h' \<and> mset (hash_elems h')
    = {#e#} + mset (hash_elems h) - (case hash_find h e of None \<Rightarrow> {#} | Some x \<Rightarrow> {#x#})"
proof (cases "hash_find h e")
  case None
  with assms have "ok (insert_elem h (bucket_idx h e) e)"
    by (intro insert_elem_ok) (auto simp: hash_find_def find_elem_none)
  from rehash_ok [OF this, of m] None mset_insert_elem [of h e] ok_D [OF assms(1)] show ?thesis
    by (auto simp: hash_replace_def hash_find_def)
next
  case (Some x)
  then have x: "x \<in> set (hash_elems h)" "equivalent x e"
    using find_elem_correct [OF assms(1,2)] by (simp_all add: hash_find_def)
  let ?r = "remove_elem h x"
  have xD: "x \<in> D" using x(1) ok_D [OF assms(1)] by blast
  have r: "ok ?r" "mset (hash_elems ?r) = mset (hash_elems h) - {#x#}"
    using remove_elem_ok [OF assms(1) x(1)] by blast+
  have rs: "hash_elems ?r = remove1 x (hash_elems h)" using hash_elems_remove [of h x] ok_D [OF assms(1)] by simp
  have "\<not> equivalent y e" if "y \<in> set (hash_elems ?r)" for y
  proof
    assume "equivalent y e"
    from that rs have y: "y \<in> set (hash_elems h)" "y \<noteq> x"
      using ok_D [OF assms(1)] by (auto simp: hash_inv_def dest: notin_set_remove1)
    then have "y \<in> D" using ok_D [OF assms(1)] by blast
    with \<open>equivalent y e\<close> x xD assms(2) have "equivalent y x" using ntrans by blast
    with y x(1) ok_D [OF assms(1)] show False by (auto simp: hash_inv_def)
  qed
  moreover have "length (hash_elems ?r) + 1 < 2 ^ 32" using assms(3) by (auto simp: rs length_remove1)
  ultimately have "ok (insert_elem ?r (bucket_idx ?r e) e)" using r(1) assms(2) by (intro insert_elem_ok) auto
  moreover have "mset (hash_elems (insert_elem ?r (bucket_idx ?r e) e)) = {#e#} + mset (hash_elems h) - {#x#}"
    using mset_insert_elem [of ?r e] ok_D [OF r(1)] r(2) x(1) by (simp add: insert_DiffM2)
  moreover have "bucket_idx ?r e = bucket_idx h e" by (simp add: remove_elem_def)
  ultimately show ?thesis
    using rehash_ok [of "insert_elem ?r (bucket_idx ?r e) e" m] Some
    by (auto simp: hash_replace_def hash_find_def)
qed

lemma hash_init_ok: "\<exists>h. hash_init True hsh lt = (True, h) \<and> ok h \<and> hash_elems h = []"
  by (auto simp: hash_init_def hash_clear_def table_def hash_inv_def hash_elems_def buckets_ok_def placed_def
      concat_replicate_trivial intro!: exI [of _ 2])

end

subsection \<open>Iteration\<close>

lemma hash_apply_elems: "hash_apply h action s = fold action (hash_elems h) s"
  by (simp add: hash_apply_def fold_fold_concat hash_elems_def)

text \<open>The iterator stands in bucket \<open>b\<close> with \<open>rest\<close> still to come.\<close>

definition stands :: "'e hash \<Rightarrow> 'e hash_iterator \<Rightarrow> 'e list \<Rightarrow> bool" where
  "stands h it rest = (it_bucket it < h_bucket_cnt h \<and>
     (\<exists>pre post. rest = post @ concat (drop (Suc (it_bucket it)) (h_buckets h)) \<and>
       (case it_elem it of
          At_head \<Rightarrow> h_buckets h ! it_bucket it = post
        | At_elem e \<Rightarrow> h_buckets h ! it_bucket it = pre @ e # post
        | At_null \<Rightarrow> False)))"

lemma seek_bucket_stands:
  assumes "length (h_buckets h) = h_bucket_cnt h" "b < h_bucket_cnt h" "h_buckets h ! b = pre @ post"
    "rest = post @ concat (drop (Suc b) (h_buckets h))"
    "it = seek_bucket h \<lparr>it_bucket = b, it_elem = cursor_of post\<rparr>"
  shows "if rest = [] then it_elem it = At_null
    else it_elem it = At_elem (hd rest) \<and> stands h it (tl rest)"
  using assms
proof (induction "h_bucket_cnt h - b" arbitrary: b pre post rest it)
  case 0
  then show ?case by simp
next
  case (Suc n)
  show ?case
  proof (cases post)
    case (Cons x xs)
    with Suc.prems show ?thesis
      by (auto simp: seek_bucket.simps [of h] cursor_of_def stands_def)
  next
    case Nil
    show ?thesis
    proof (cases "b + 1 \<ge> h_bucket_cnt h")
      case True
      with Nil Suc.prems show ?thesis by (simp add: seek_bucket.simps [of h] cursor_of_def)
    next
      case False
      then have "drop (Suc b) (h_buckets h) = h_buckets h ! Suc b # drop (Suc (Suc b)) (h_buckets h)"
        using Suc.prems(1) by (simp add: Cons_nth_drop_Suc)
      moreover have "it = seek_bucket h \<lparr>it_bucket = Suc b, it_elem = cursor_of (h_buckets h ! Suc b)\<rparr>"
        using Suc.prems(5) False Nil by (simp add: seek_bucket.simps [of h "\<lparr>it_bucket = b, it_elem = _\<rparr>"] cursor_of_def)
      ultimately show ?thesis
        using Suc.hyps(2) Suc.prems False Nil
        by (intro Suc.hyps(1) [of "Suc b" "[]" "h_buckets h ! Suc b" rest it]) simp_all
    qed
  qed
qed

lemma cursor_next_elem: "e \<notin> set pre \<Longrightarrow> cursor_next (pre @ e # post) (At_elem e) = cursor_of post"
  by (subst cursor_next.simps(2), subst dropWhile_append2) auto

lemma hash_next_stands:
  assumes "buckets_ok h" "distinct (hash_elems h)" "stands h it rest"
  shows "\<exists>it'. hash_next h it = Some it' \<and>
    (if rest = [] then it_elem it' = At_null else it_elem it' = At_elem (hd rest) \<and> stands h it' (tl rest))"
proof -
  let ?b = "it_bucket it"
  from assms(3) obtain pre post where it: "?b < h_bucket_cnt h" "it_elem it \<noteq> At_null"
    "rest = post @ concat (drop (Suc ?b) (h_buckets h))"
    "it_elem it = At_head \<and> h_buckets h ! ?b = post
      \<or> (\<exists>e. it_elem it = At_elem e \<and> h_buckets h ! ?b = pre @ e # post)"
    unfolding stands_def by (cases "it_elem it") auto
  have "distinct (h_buckets h ! ?b)"
    using assms(1,2) it(1) by (auto simp: hash_elems_def distinct_concat_iff buckets_ok_def)
  then have "cursor_next (h_buckets h ! ?b) (it_elem it) = cursor_of post \<and> (\<exists>pre. h_buckets h ! ?b = pre @ post)"
    using it(4) by (auto simp: cursor_next_elem simp del: cursor_next.simps(2))
  then show ?thesis
    using seek_bucket_stands [OF _ it(1) _ it(3) refl] assms(1) it(2)
    by (cases it) (auto simp: hash_next_def buckets_ok_def)
qed

lemma hash_walk_stands:
  assumes "buckets_ok h" "distinct (hash_elems h)" "stands h it rest"
  shows "hash_walk h it = Some rest"
  using assms(3)
proof (induction rest arbitrary: it)
  case Nil
  from hash_next_stands [OF assms(1,2) Nil] show ?case
    by (subst hash_walk.simps) (auto simp: hash_cur_def)
next
  case (Cons x xs)
  from hash_next_stands [OF assms(1,2) Cons.prems] obtain it' where
    "hash_next h it = Some it'" "it_elem it' = At_elem x" "stands h it' xs" by auto
  with Cons.IH show ?case by (subst hash_walk.simps) (simp add: hash_cur_def)
qed

lemma hash_walk_all:
  assumes "hash_inv h"
  shows "hash_walk h hash_first = Some (hash_elems h)"
proof (rule hash_walk_stands)
  from assms obtain k where "length (h_buckets h) = 2 ^ k" "h_bucket_cnt h = 2 ^ k"
    by (auto simp: hash_inv_def buckets_ok_def)
  then show "stands h hash_first (hash_elems h)"
    by (cases "h_buckets h") (auto simp: stands_def hash_first_def hash_elems_def)
qed (use assms in \<open>auto simp: hash_inv_def\<close>)

subsection \<open>Properties\<close>

text \<open>A table of numbers, for the concrete instances below.\<close>

definition nat_table :: "nat hash" where
  "nat_table = \<lparr>h_elem_cnt = 2, h_bucket_cnt = 4, h_buckets = [[], [9], [], [7]],
     h_hash = word_of_nat, h_less = (<)\<rparr>"

lemma nat_contract: "hash_contract word_of_nat ((<) :: nat \<Rightarrow> nat \<Rightarrow> bool) UNIV"
  by standard auto

lemma nat_table_ok: "table word_of_nat (<) UNIV nat_table"
proof -
  have idx: "bucket_idx nat_table e = e mod 4" for e
  proof -
    have "bucket_idx nat_table e = take_bit 2 (unat (word_of_nat e :: u32))"
      by (simp add: bucket_idx_def nat_table_def take_bit_eq_mask mask_eq_exp_minus_1 numeral_3_eq_3)
    also have "\<dots> = take_bit 2 e" by (simp add: unsigned_of_nat)
    finally show ?thesis by (simp add: take_bit_eq_mod)
  qed
  have bs: "h_buckets nat_table = [[], [9], [], [7]]" by (simp add: nat_table_def)
  have "\<forall>e \<in> set (h_buckets nat_table ! i). e mod 4 = i" if "i < 4" for i
  proof -
    from that consider "i = 0" | "i = 1" | "i = 2" | "i = 3" by linarith
    then show ?thesis unfolding bs by cases simp_all
  qed
  then have "placed nat_table (h_buckets nat_table)" by (simp add: placed_def idx bs)
  then have "buckets_ok nat_table"
    by (auto simp: buckets_ok_def nat_table_def intro: exI [of _ 2])
  then show ?thesis by (auto simp: table_def hash_inv_def hash_elems_def eqv_def) (auto simp: nat_table_def)
qed

text \<open>C8: When no equal element is in the table, \<open>hash_insert\<close> returns a null pointer and adds
  the element; otherwise it returns the equal element and adds nothing.  The table keeps its
  invariant, and after it the buckets hold less than four elements on average if memory was
  there, whether or not that needed a rehash.\<close>

theorem hash_insert_adds:
  assumes "hash_contract hsh lt D" "table hsh lt D h" "e \<in> D" "hash_size h + 1 < 2 ^ 32"
  shows "\<exists>h' old. hash_insert m h e = Some (h', old) \<and> table hsh lt D h'
    \<and> (old = None \<longleftrightarrow> (\<forall>x \<in> set (hash_elems h). lt x e \<or> lt e x))
    \<and> (\<forall>x. old = Some x \<longrightarrow> x \<in> set (hash_elems h) \<and> \<not> lt x e \<and> \<not> lt e x)
    \<and> mset (hash_elems h') = (if old = None then {#e#} else {#}) + mset (hash_elems h)
    \<and> (m \<longrightarrow> hash_size h' < 4 * h_bucket_cnt h')"
proof -
  have n: "length (hash_elems h) + 1 < 2 ^ 32"
    using assms(2,4) by (simp add: table_def hash_inv_def hash_size_def)
  from hash_contract.hash_insert_correct [OF assms(1-3) n, of m] show ?thesis
    using hash_contract.find_elem_none [OF assms(1-3)] hash_contract.find_elem_correct [OF assms(1-3)]
    by (fastforce simp: hash_find_def)
qed

theorem hash_insert_adds_witness:
  "\<exists>h'. hash_insert True nat_table 8 = Some (h', None) \<and> mset (hash_elems h') = {#7, 8, 9#}"
proof -
  have "hash_size nat_table + 1 < 2 ^ 32" "hash_elems nat_table = [9, 7]"
    by (simp_all add: nat_table_def hash_size_def hash_elems_def)
  with hash_insert_adds [OF nat_contract nat_table_ok UNIV_I, where e = 8 and m = True] show ?thesis
    by (fastforce simp: add_mset_commute)
qed

text \<open>C9: \<open>hash_delete\<close> and \<open>hash_replace\<close> return what \<open>hash_find\<close> finds, the element equal to
  the argument or a null pointer; the first takes it out of the table, the second puts the
  argument in its place, and both keep the table's invariant.\<close>

theorem hash_delete_replace:
  assumes "hash_contract hsh lt D" "table hsh lt D h" "e \<in> D" "hash_size h + 1 < 2 ^ 32"
  shows "(hash_find h e = Some x \<longleftrightarrow> x \<in> set (hash_elems h) \<and> \<not> lt x e \<and> \<not> lt e x)
    \<and> (\<exists>h'. hash_delete m h e = Some (h', hash_find h e) \<and> table hsh lt D h'
       \<and> mset (hash_elems h') = mset (hash_elems h) - mset (case hash_find h e of None \<Rightarrow> [] | Some x \<Rightarrow> [x]))
    \<and> (\<exists>h'. hash_replace m h e = Some (h', hash_find h e) \<and> table hsh lt D h'
       \<and> mset (hash_elems h') = {#e#} + mset (hash_elems h) - mset (case hash_find h e of None \<Rightarrow> [] | Some x \<Rightarrow> [x]))"
proof -
  have n: "length (hash_elems h) + 1 < 2 ^ 32"
    using assms(2,4) by (simp add: table_def hash_inv_def hash_size_def)
  have c: "(case o' of None \<Rightarrow> {#} | Some x \<Rightarrow> {#x#}) = mset (case o' of None \<Rightarrow> [] | Some x \<Rightarrow> [x])" for o'
    by (cases o') auto
  from hash_contract.hash_delete_correct [OF assms(1-3), of m]
    hash_contract.hash_replace_correct [OF assms(1-3) n, of m]
    hash_contract.find_elem_correct [OF assms(1-3), of x] show ?thesis
    unfolding c hash_find_def by blast
qed

theorem hash_delete_replace_witness:
  "hash_find nat_table 7 = Some 7 \<and> (\<exists>h'. hash_delete True nat_table 7 = Some (h', Some 7)
     \<and> mset (hash_elems h') = {#9#})"
proof -
  have "hash_size nat_table + 1 < 2 ^ 32" "hash_elems nat_table = [9, 7]"
    by (simp_all add: nat_table_def hash_size_def hash_elems_def)
  with hash_delete_replace [OF nat_contract nat_table_ok UNIV_I, where e = 7 and x = 7 and m = True] show ?thesis by auto
qed

text \<open>C11: The iteration idiom of \<open>hash.h\<close> ends and meets every element of the table exactly once.\<close>

theorem hash_iteration_visits_all:
  assumes "hash_inv h"
  shows "\<exists>es. hash_walk h hash_first = Some es \<and> distinct es \<and> set es = set (hash_elems h)
    \<and> length es = hash_size h"
  using hash_walk_all [OF assms] assms by (simp add: hash_inv_def hash_size_def)

theorem hash_iteration_visits_all_witness:
  "\<exists>es. hash_walk nat_table hash_first = Some es \<and> set es = {7, 9}"
proof -
  have "hash_inv nat_table" "set (hash_elems nat_table) = {7, 9}"
    using nat_table_ok by (simp_all add: table_def) (auto simp: hash_elems_def nat_table_def)
  with hash_iteration_visits_all [of nat_table] show ?thesis by auto
qed

end
