(* ===== verification/FixedPoint.thy ===== *)
theory FixedPoint imports Prelude begin

section \<open>Fixed-point arithmetic: threads/fixed-point.h and the formulas of threads/thread.c\<close>

text \<open>
  The numbers of \<open>threads/fixed-point.h\<close> (16 fractional bits) and the four helpers
  \<open>ISF\<close>, \<open>FAI\<close>, \<open>FMF\<close>, \<open>FDF\<close> with 14 fractional bits that the multi-level feedback queue
  of \<open>threads/thread.c\<close> computes with.  An \<open>int\<close> of the source is an integer reduced to 32 bits
  (\<open>int32\<close>) after every operation, \<open>long long\<close> and \<open>int64_t\<close> to 64 bits; division truncates
  towards zero (\<open>sdiv\<close>) and dividing by zero does not return.
\<close>

subsection \<open>threads/fixed-point.h\<close>

definition FIX_P :: nat where "FIX_P = 16"
definition FIX_Q :: nat where "FIX_Q = 16"
definition FIX_F :: int where "FIX_F = 2 ^ FIX_Q"
definition FIX_MAX_INT :: int where "FIX_MAX_INT = 2 ^ FIX_P - 1"
definition FIX_MIN_INT :: int where "FIX_MIN_INT = - FIX_MAX_INT"

datatype fixed_point_t = mk_fix (fix_f: int)

definition fix_int :: "int \<Rightarrow> fixed_point_t option" where
  "fix_int n = do { ASSERT (n \<ge> FIX_MIN_INT \<and> n \<le> FIX_MAX_INT); Some (mk_fix (int32 (n * FIX_F))) }"

definition fix_frac :: "int \<Rightarrow> int \<Rightarrow> fixed_point_t option" where
  "fix_frac n d = do {
     ASSERT (d \<noteq> 0);
     ASSERT (n sdiv d \<ge> FIX_MIN_INT \<and> n sdiv d \<le> FIX_MAX_INT);
     Some (mk_fix (int32 (int64 (n * FIX_F) sdiv d))) }"

definition fix_round :: "fixed_point_t \<Rightarrow> int" where
  "fix_round x = int32 (fix_f x + FIX_F sdiv 2) sdiv FIX_F"

definition fix_trunc :: "fixed_point_t \<Rightarrow> int" where
  "fix_trunc x = fix_f x sdiv FIX_F"

definition fix_add :: "fixed_point_t \<Rightarrow> fixed_point_t \<Rightarrow> fixed_point_t" where
  "fix_add x y = mk_fix (int32 (fix_f x + fix_f y))"

definition fix_sub :: "fixed_point_t \<Rightarrow> fixed_point_t \<Rightarrow> fixed_point_t" where
  "fix_sub x y = mk_fix (int32 (fix_f x - fix_f y))"

definition fix_mul :: "fixed_point_t \<Rightarrow> fixed_point_t \<Rightarrow> fixed_point_t" where
  "fix_mul x y = mk_fix (int32 (int64 (fix_f x * fix_f y) sdiv FIX_F))"

definition fix_scale :: "fixed_point_t \<Rightarrow> int \<Rightarrow> fixed_point_t option" where
  "fix_scale x n = do { ASSERT (n \<ge> 0); Some (mk_fix (int32 (fix_f x * n))) }"

definition fix_div :: "fixed_point_t \<Rightarrow> fixed_point_t \<Rightarrow> fixed_point_t option" where
  "fix_div x y = do { ASSERT (fix_f y \<noteq> 0); Some (mk_fix (int32 (int64 (fix_f x * FIX_F) sdiv fix_f y))) }"

definition fix_unscale :: "fixed_point_t \<Rightarrow> int \<Rightarrow> fixed_point_t option" where
  "fix_unscale x n = do { ASSERT (n > 0); Some (mk_fix (fix_f x sdiv n)) }"

definition fix_inv :: "fixed_point_t \<Rightarrow> fixed_point_t option" where
  "fix_inv x = do { one \<leftarrow> fix_int 1; fix_div one x }"

definition fix_compare :: "fixed_point_t \<Rightarrow> fixed_point_t \<Rightarrow> int" where
  "fix_compare x y = (if fix_f x < fix_f y then - 1 else if fix_f x > fix_f y then 1 else 0)"

subsection \<open>The helpers of threads/thread.c\<close>

definition FRACT :: int where "FRACT = 2 ^ 14"

definition ISF :: "int \<Rightarrow> int \<Rightarrow> int" where
  "ISF i f = int32 (int32 (i * FRACT) - f)"

definition FAI :: "int \<Rightarrow> int \<Rightarrow> int" where
  "FAI f i = int32 (f + int32 (i * FRACT))"

definition FMF :: "int \<Rightarrow> int \<Rightarrow> int" where
  "FMF f1 f2 = int32 (int64 (f1 * f2) sdiv FRACT)"

definition FDF :: "int \<Rightarrow> int \<Rightarrow> int option" where
  "FDF f1 f2 = do { ASSERT (f2 \<noteq> 0); Some (int32 (int64 (f1 * FRACT) sdiv f2)) }"

definition PRI_MIN :: int where "PRI_MIN = 0"
definition PRI_DEFAULT :: int where "PRI_DEFAULT = 31"
definition PRI_MAX :: int where "PRI_MAX = 63"

text \<open>The priority of \<open>thread_set_nice\<close> and \<open>renew_prior\<close>, and the two averages.\<close>

definition mlfqs_priority :: "int \<Rightarrow> int \<Rightarrow> int" where
  "mlfqs_priority recent_cpu nice =
     (let p = int32 (int32 (FAI 0 PRI_MAX - recent_cpu sdiv 4) - int32 (2 * FAI 0 nice)) sdiv FRACT
      in if p < PRI_MIN then PRI_MIN else if p > PRI_MAX then PRI_MAX else p)"

definition next_load_avg :: "int \<Rightarrow> int \<Rightarrow> int" where
  "next_load_avg load_avg rdnum = FAI (int32 (59 * load_avg)) rdnum sdiv 60"

definition next_recent_cpu :: "int \<Rightarrow> int \<Rightarrow> int \<Rightarrow> int option" where
  "next_recent_cpu load_avg recent_cpu nice = do {
     c \<leftarrow> FDF (int32 (2 * load_avg)) (FAI (int32 (2 * load_avg)) 1);
     Some (FAI (FMF c recent_cpu) nice) }"

subsection \<open>Truncating division\<close>

lemma sdiv_nonneg: "0 \<le> (a::int) \<Longrightarrow> 0 < b \<Longrightarrow> a sdiv b = a div b"
  by (cases "a = 0") (auto simp: signed_divide_int_def)

lemma sdiv_neg: "(a::int) < 0 \<Longrightarrow> 0 < b \<Longrightarrow> a sdiv b = - ((- a) div b)"
  by (simp add: signed_divide_int_def)

lemma sdiv_mult_self: "0 < (b::int) \<Longrightarrow> (a * b) sdiv b = a"
  by (cases "0 \<le> a") (auto simp: sdiv_nonneg sdiv_neg mult_less_0_iff minus_mult_left simp del: mult_minus_left)

lemma sdiv_bounds: "0 < (b::int) \<Longrightarrow> \<bar>a - (a sdiv b) * b\<bar> < b"
proof (cases "0 \<le> a")
  case True
  assume b: "0 < b"
  with True show ?thesis by (simp add: sdiv_nonneg minus_div_mult_eq_mod)
next
  case False
  assume b: "0 < b"
  have "a - - (- a div b) * b = - (- a mod b)" by (simp add: minus_div_mult_eq_mod [symmetric])
  then show ?thesis using b False by (simp add: sdiv_neg) 
qed

lemma sdiv_mono: "a \<le> a' \<Longrightarrow> 0 < (b::int) \<Longrightarrow> a sdiv b \<le> a' sdiv b"
proof -
  assume a: "a \<le> a'" and b: "0 < b"
  consider "0 \<le> a" | "a < 0" "0 \<le> a'" | "a' < 0" using a by linarith
  then show ?thesis
  proof cases
    case 2
    then have "0 \<le> - a div b" "0 \<le> a' div b" using b by (simp_all add: pos_imp_zdiv_nonneg_iff)
    with 2 b show ?thesis by (simp add: sdiv_nonneg sdiv_neg)
  qed (use a b in \<open>auto simp: sdiv_nonneg sdiv_neg intro: zdiv_mono1\<close>)
qed

subsection \<open>The multi-level feedback queue's numbers\<close>

lemma mlfqs_priority_range: "PRI_MIN \<le> mlfqs_priority r n \<and> mlfqs_priority r n \<le> PRI_MAX"
  by (simp add: mlfqs_priority_def PRI_MIN_def PRI_MAX_def Let_def)

lemma int32_small: "\<bar>x\<bar> < 2 ^ 31 \<Longrightarrow> int32 x = x"
  by (rule int32_id) auto

lemma int64_small: "\<bar>x\<bar> < 2 ^ 63 \<Longrightarrow> int64 x = x"
  by (rule int64_id) auto

lemma sdiv_abs_le: "0 < (b::int) \<Longrightarrow> \<bar>a sdiv b\<bar> \<le> \<bar>a\<bar>"
proof -
  assume b: "0 < b"
  have "c div b \<le> c" if "0 \<le> c" for c using that b zdiv_mono2 [of c 1 b] by simp
  moreover have "0 \<le> c div b" if "0 \<le> c" for c using that b by (simp add: pos_imp_zdiv_nonneg_iff)
  ultimately show ?thesis
    using b by (cases "0 \<le> a") (auto simp: sdiv_nonneg sdiv_neg)
qed

lemma mlfqs_priority_exact:
  assumes "\<bar>r\<bar> \<le> 2 ^ 30" "\<bar>n\<bar> \<le> 20"
  shows "mlfqs_priority r n = max 0 (min 63 ((63 * 2 ^ 14 - r sdiv 4 - 2 * n * 2 ^ 14) sdiv 2 ^ 14))"
proof -
  have q: "\<bar>r sdiv 4\<bar> \<le> 2 ^ 30" using sdiv_abs_le [of 4 r] assms(1) by simp
  have f: "FAI 0 PRI_MAX = 63 * 2 ^ 14" "FAI 0 n = n * 2 ^ 14"
    using assms(2) by (simp_all add: FAI_def FRACT_def PRI_MAX_def int32_small)
  have "int32 (63 * 2 ^ 14 - r sdiv 4) = 63 * 2 ^ 14 - r sdiv 4" using q by (intro int32_small) auto
  moreover have "int32 (2 * (n * 2 ^ 14)) = 2 * n * 2 ^ 14" using assms(2) by (subst int32_small) auto
  moreover have "int32 (63 * 2 ^ 14 - r sdiv 4 - 2 * n * 2 ^ 14) = 63 * 2 ^ 14 - r sdiv 4 - 2 * n * 2 ^ 14"
    using q assms(2) by (intro int32_small) auto
  ultimately show ?thesis
    unfolding mlfqs_priority_def f by (simp add: FRACT_def PRI_MIN_def PRI_MAX_def Let_def max_def min_def)
qed

lemma next_load_avg_bounds:
  assumes "0 \<le> la" "la \<le> n * 2 ^ 14" "0 \<le> rdnum" "rdnum \<le> n" "n \<le> 2184"
  shows "next_load_avg la rdnum = (59 * la + rdnum * 2 ^ 14) div 60
    \<and> 0 \<le> next_load_avg la rdnum \<and> next_load_avg la rdnum \<le> n * 2 ^ 14"
proof -
  have r: "rdnum * 2 ^ 14 \<le> n * 2 ^ 14" using assms(4) by simp
  have "n * 2 ^ 14 \<le> 2184 * 2 ^ 14" using assms(5) by simp
  with r assms have i: "int32 (59 * la) = 59 * la" "int32 (rdnum * FRACT) = rdnum * 2 ^ 14"
    "int32 (59 * la + rdnum * 2 ^ 14) = 59 * la + rdnum * 2 ^ 14"
    unfolding FRACT_def by (auto intro!: int32_small)
  have e: "next_load_avg la rdnum = (59 * la + rdnum * 2 ^ 14) div 60"
    unfolding next_load_avg_def FAI_def i using assms(1,3) by (simp add: sdiv_nonneg)
  moreover have "(59 * la + rdnum * 2 ^ 14) div 60 \<le> n * 2 ^ 14"
    using r assms(2) by linarith
  ultimately show ?thesis using assms(1,3) by (simp add: pos_imp_zdiv_nonneg_iff)
qed

lemma div_less_bound: "(a::int) < q * b \<Longrightarrow> 0 < b \<Longrightarrow> a div b < q"
proof (rule ccontr)
  assume a: "a < q * b" "0 < b" and "\<not> a div b < q"
  then have "q * b \<le> a div b * b" by simp
  also have "\<dots> \<le> a" using a(2) by (simp add: minus_mod_eq_div_mult [symmetric])
  finally show False using a(1) by simp
qed

text \<open>The decay coefficient is in \<open>[0, 1)\<close>.\<close>

lemma decay_coefficient:
  assumes "0 \<le> la" "la \<le> 2184 * 2 ^ 14"
  shows "\<exists>c. FDF (int32 (2 * la)) (FAI (int32 (2 * la)) 1) = Some c \<and> 0 \<le> c \<and> c < FRACT
    \<and> c = (2 * la * 2 ^ 14) div (2 * la + 2 ^ 14)"
proof -
  let ?c = "(2 * la * 2 ^ 14) div (2 * la + 2 ^ 14)"
  have "0 < 2 * la + 2 ^ 14" using assms(1) by simp
  moreover have "2 * la * 2 ^ 14 < 2 ^ 14 * (2 * la + 2 ^ 14)" by (simp add: algebra_simps)
  ultimately have c: "0 \<le> ?c" "?c < 2 ^ 14"
    using assms(1) div_less_bound [of "2 * la * 2 ^ 14" "2 ^ 14" "2 * la + 2 ^ 14"]
    by (simp_all add: pos_imp_zdiv_nonneg_iff)
  have "int32 (2 * la) = 2 * la" "int32 (2 * la + 2 ^ 14) = 2 * la + 2 ^ 14"
    "int64 (2 * la * 2 ^ 14) = 2 * la * 2 ^ 14" "int32 ?c = ?c" "int32 (2 ^ 14) = 2 ^ 14"
    using assms c by (auto intro!: int32_small int64_small)
  then show ?thesis
    using assms c \<open>0 < 2 * la + 2 ^ 14\<close> by (simp add: FDF_def FAI_def FRACT_def sdiv_nonneg)
qed

lemma FMF_shrinks:
  assumes "0 \<le> c" "c < FRACT" "\<bar>r\<bar> < 2 ^ 31"
  shows "\<bar>FMF c r\<bar> \<le> \<bar>r\<bar>" and "FMF c r = (c * r) sdiv FRACT"
proof -
  have cr: "\<bar>c * r\<bar> \<le> FRACT * \<bar>r\<bar>" using assms by (simp add: abs_mult mult_right_mono)
  then have i64: "int64 (c * r) = c * r" using assms(3) by (intro int64_small) (simp add: FRACT_def)
  have "(c * r) sdiv FRACT \<le> (FRACT * \<bar>r\<bar>) sdiv FRACT" "(- (FRACT * \<bar>r\<bar>)) sdiv FRACT \<le> (c * r) sdiv FRACT"
    by (rule sdiv_mono; use cr in \<open>simp add: FRACT_def abs_le_iff\<close>)+
  moreover have "(FRACT * \<bar>r\<bar>) sdiv FRACT = \<bar>r\<bar>" "(- (FRACT * \<bar>r\<bar>)) sdiv FRACT = - \<bar>r\<bar>"
    using sdiv_mult_self [of FRACT "\<bar>r\<bar>"] sdiv_mult_self [of FRACT "- \<bar>r\<bar>"]
    by (simp_all only: mult.commute [of FRACT] mult_minus_left) (simp_all add: FRACT_def)
  ultimately have b: "\<bar>(c * r) sdiv FRACT\<bar> \<le> \<bar>r\<bar>" by linarith
  with assms(3) have "int32 ((c * r) sdiv FRACT) = (c * r) sdiv FRACT" by (intro int32_small) auto
  then show "FMF c r = (c * r) sdiv FRACT" by (simp add: FMF_def i64)
  with b show "\<bar>FMF c r\<bar> \<le> \<bar>r\<bar>" by simp
qed

lemma next_recent_cpu_bounds:
  assumes "0 \<le> la" "la \<le> 2184 * 2 ^ 14" "\<bar>r\<bar> \<le> 2 ^ 30" "\<bar>n\<bar> \<le> 20"
  shows "\<exists>r'. next_recent_cpu la r n = Some r' \<and> \<bar>r'\<bar> \<le> \<bar>r\<bar> + \<bar>n\<bar> * 2 ^ 14
    \<and> r' = ((2 * la * 2 ^ 14) div (2 * la + 2 ^ 14) * r) sdiv 2 ^ 14 + n * 2 ^ 14"
proof -
  from decay_coefficient [OF assms(1,2)] obtain c where
    c: "FDF (int32 (2 * la)) (FAI (int32 (2 * la)) 1) = Some c" "0 \<le> c" "c < FRACT"
      "c = (2 * la * 2 ^ 14) div (2 * la + 2 ^ 14)" by blast
  have f: "\<bar>FMF c r\<bar> \<le> \<bar>r\<bar>" "FMF c r = (c * r) sdiv FRACT"
    using FMF_shrinks [OF c(2,3), of r] assms(3) by auto
  have n: "\<bar>n * 2 ^ 14\<bar> = \<bar>n\<bar> * 2 ^ 14" by (simp add: abs_mult)
  have "FAI (FMF c r) n = FMF c r + n * 2 ^ 14"
  proof -
    have "int32 (n * FRACT) = n * 2 ^ 14" using assms(4) by (simp add: FRACT_def int32_small)
    moreover have "\<bar>FMF c r + n * 2 ^ 14\<bar> < 2 ^ 31"
      using f(1) assms(3,4) by (simp add: abs_le_iff abs_less_iff) linarith
    ultimately show ?thesis by (simp add: FAI_def int32_small)
  qed
  then show ?thesis using c f n by (simp add: next_recent_cpu_def FRACT_def)
qed

text \<open>Rounding is to the nearest integer for non-negative numbers.\<close>

lemma fix_round_nearest:
  assumes "0 \<le> fix_f x" "fix_f x < 2 ^ 31 - 2 ^ 15"
  shows "\<bar>2 * (fix_round x * FIX_F - fix_f x)\<bar> \<le> FIX_F"
proof -
  have "int32 (fix_f x + FIX_F sdiv 2) = fix_f x + 2 ^ 15"
    using assms by (simp add: FIX_F_def FIX_Q_def sdiv_nonneg int32_small)
  then have "fix_round x = (fix_f x + 2 ^ 15) div 2 ^ 16"
    using assms(1) by (simp add: fix_round_def FIX_F_def FIX_Q_def sdiv_nonneg)
  then show ?thesis
    by (simp add: FIX_F_def FIX_Q_def)
qed

lemma fix_round_minus_one: "fix_round (mk_fix (- FIX_F)) = 0"
  by (simp add: fix_round_def FIX_F_def FIX_Q_def int32_small sdiv_nonneg sdiv_neg)

subsection \<open>The properties\<close>

text \<open>The load average stays in the range of 17.14 fixed-point numbers and is computed exactly: with
  at most \<open>n\<close> runnable threads, \<open>n\<close> up to 2184, and an average between zero and \<open>n\<close>, the next one is
  59/60 of it plus 1/60 of the number of runnable threads, rounded down, with no overflow in
  between, and it is between zero and \<open>n\<close> again.\<close>

theorem load_average_bounded:
  assumes "0 \<le> la" "la \<le> n * 2 ^ 14" "0 \<le> rdnum" "rdnum \<le> n" "n \<le> 2184"
  shows "next_load_avg la rdnum = (59 * la + rdnum * 2 ^ 14) div 60
    \<and> 0 \<le> next_load_avg la rdnum \<and> next_load_avg la rdnum \<le> n * 2 ^ 14"
  using assms by (rule next_load_avg_bounds)

theorem load_average_bounded_witness: "next_load_avg 0 60 = 2 ^ 14"
  using load_average_bounded [of 0 60 60] by simp

text \<open>A thread's recent cpu time decays.  With a load average between 0 and 2184 and a niceness
  between -20 and 20, the coefficient's division never divides by zero, the product and the
  quotient are computed without overflow, and the new value is at most the old one plus the
  niceness in absolute value: it grows by at most 20 a second.\<close>

theorem recent_cpu_decays:
  assumes "0 \<le> la" "la \<le> 2184 * 2 ^ 14" "\<bar>r\<bar> \<le> 2 ^ 30" "\<bar>n\<bar> \<le> 20"
  shows "\<exists>r'. next_recent_cpu la r n = Some r' \<and> \<bar>r'\<bar> \<le> \<bar>r\<bar> + \<bar>n\<bar> * 2 ^ 14
    \<and> r' = ((2 * la * 2 ^ 14) div (2 * la + 2 ^ 14) * r) sdiv 2 ^ 14 + n * 2 ^ 14"
  using assms by (rule next_recent_cpu_bounds)

theorem recent_cpu_decays_witness: "next_recent_cpu 0 (2 ^ 14) 1 = Some (2 ^ 14)"
  using recent_cpu_decays [of 0 "2 ^ 14" 1] by (simp add: signed_divide_int_def)

end
