(* ===== verification/Scheduler.thy ===== *)
theory Scheduler imports OrderedLists FixedPoint begin

section \<open>threads/thread.c: threads and the scheduler\<close>

text \<open>
  The kernel of the threads project, built without \<open>USERPROG\<close>: the priority scheduler and the
  multi-level feedback queue of \<open>threads/thread.[ch]\<close>.  A \<open>struct thread\<close> lives at the address
  of its page; the kernel lists are the sequences of the threads whose \<open>elem\<close> or \<open>allelem\<close>
  they link (the theories \<open>KernelListLinks\<close> to \<open>KernelListSort\<close> show that the pointer code keeps
  such sequences, with \<open>insert_ordered\<close> and \<open>merge_sort\<close> as the effect of
  \<open>list_insert_ordered\<close> and \<open>list_sort\<close>).

  Control that leaves a routine in the middle is explicit.  \<open>k_cont\<close> holds, for every thread,
  what is still to be run on its kernel stack: a list of pieces of code (\<open>code\<close>), each of
  which runs up to its end or up to the context switch inside it.  \<open>schedule\<close> changes
  \<open>k_cur\<close>; the pieces of the thread that is switched away stay on its stack until it runs
  again.  The theory \<open>Kernel\<close> runs the pieces.
\<close>

subsection \<open>State\<close>

datatype thread_status = THREAD_RUNNING | THREAD_READY | THREAD_BLOCKED | THREAD_DYING

record thread =
  t_tid :: int
  t_status :: thread_status
  t_name :: string
  t_stack :: ptr
  t_priority :: int
  t_next_fd :: int
  t_wake :: int
  t_nice :: int
  t_recent_cpu :: int
  t_stack_pages :: nat
  t_current_stack :: nat
  t_magic :: nat

record semaphore =
  sema_value :: nat
  sema_waiters :: "ptr list"

text \<open>What a thread still has to do; the names are those of the routines, and the rest of a
  routine behind a point where it may lose the processor has a piece of its own.\<close>

datatype code =
    C_intr_set bool
  | C_yield
  | C_exit
  | C_set_priority int
  | C_set_nice int
  | C_create "ptr option" string int "code list"
  | C_take_tid ptr "code list"
  | C_created ptr int "code list"
  | C_idle_init ptr
  | C_idle_block
  | C_idle_wake
  | C_sema_down ptr
  | C_sema_loop ptr
  | C_sema_try_down ptr
  | C_sema_up ptr
  | C_lock_acquire ptr
  | C_set_holder ptr
  | C_lock_try_acquire ptr
  | C_lock_release ptr
  | C_cond_wait ptr ptr ptr
  | C_cond_signal ptr ptr
  | C_cond_broadcast ptr ptr
  | C_sleep int

record kernel =
  k_threads :: "ptr \<Rightarrow> thread option"
  k_ready :: "ptr list"
  k_all :: "ptr list"
  k_cur :: ptr
  k_idle :: ptr
  k_initial :: ptr
  k_cont :: "ptr \<Rightarrow> code list"
  k_ret :: "ptr \<Rightarrow> int"
  k_intr :: bool
  k_ext :: bool
  k_yield_on_return :: bool
  k_next_tid :: int
  k_idle_ticks :: int
  k_kernel_ticks :: int
  k_thread_ticks :: nat
  k_load_avg :: int
  k_mlfqs :: bool
  k_aging :: bool
  k_sema :: "ptr \<Rightarrow> semaphore"
  k_holder :: "ptr \<Rightarrow> ptr"
  k_cond :: "ptr \<Rightarrow> ptr list"
  k_junk :: "ptr \<Rightarrow> int"
  k_ticks :: int
  k_block_list :: "ptr list"
  k_smallest_tick :: int
  k_timer_smallest :: int

definition THREAD_NULL :: ptr where "THREAD_NULL = 0"
definition THREAD_MAGIC :: nat where "THREAD_MAGIC = 0xcd6abf4b"
definition TIME_SLICE :: nat where "TIME_SLICE = 4"
definition TID_ERROR :: int where "TID_ERROR = - 1"
definition THREAD_PGSIZE :: nat where "THREAD_PGSIZE = 4096"
definition TIMER_FREQ :: int where "TIMER_FREQ = 100"

text \<open>The address of \<open>tid_lock\<close>.\<close>

definition tid_lock :: ptr where "tid_lock = 8"

definition thread_at :: "kernel \<Rightarrow> ptr \<Rightarrow> thread option" where
  "thread_at k t = (if t = THREAD_NULL then None else k_threads k t)"

definition upd_thread :: "ptr \<Rightarrow> (thread \<Rightarrow> thread) \<Rightarrow> kernel \<Rightarrow> kernel" where
  "upd_thread t f k = k\<lparr>k_threads := (k_threads k)(t := map_option f (k_threads k t))\<rparr>"

definition priority_of :: "kernel \<Rightarrow> ptr \<Rightarrow> int" where
  "priority_of k t = (case thread_at k t of Some th \<Rightarrow> t_priority th | None \<Rightarrow> 0)"

definition set_status :: "ptr \<Rightarrow> thread_status \<Rightarrow> kernel \<Rightarrow> kernel" where
  "set_status t s = upd_thread t (\<lambda>th. th\<lparr>t_status := s\<rparr>)"

text \<open>\<open>push cs\<close>: the running thread has \<open>cs\<close> to do, and then what it had before.\<close>

definition push :: "code list \<Rightarrow> kernel \<Rightarrow> kernel" where
  "push cs k = k\<lparr>k_cont := (k_cont k)(k_cur k := cs @ k_cont k (k_cur k))\<rparr>"

definition set_ret :: "int \<Rightarrow> kernel \<Rightarrow> kernel" where
  "set_ret v k = k\<lparr>k_ret := (k_ret k)(k_cur k := v)\<rparr>"

subsection \<open>Interrupts\<close>

definition intr_enable :: "kernel \<Rightarrow> kernel option" where
  "intr_enable k = do { ASSERT (\<not> k_ext k); Some (k\<lparr>k_intr := True\<rparr>) }"

definition intr_disable :: "kernel \<Rightarrow> kernel" where
  "intr_disable k = k\<lparr>k_intr := False\<rparr>"

definition intr_set_level :: "bool \<Rightarrow> kernel \<Rightarrow> kernel option" where
  "intr_set_level level k = (if level then intr_enable k else Some (intr_disable k))"

subsection \<open>The running thread\<close>

definition is_thread :: "kernel \<Rightarrow> ptr \<Rightarrow> bool" where
  "is_thread k t = (case thread_at k t of Some th \<Rightarrow> t_magic th = THREAD_MAGIC | None \<Rightarrow> False)"

definition thread_current :: "kernel \<Rightarrow> ptr option" where
  "thread_current k = do {
     ASSERT (is_thread k (k_cur k));
     th \<leftarrow> thread_at k (k_cur k);
     ASSERT (t_status th = THREAD_RUNNING);
     Some (k_cur k) }"

definition is_prior_larger :: "kernel \<Rightarrow> ptr \<Rightarrow> ptr \<Rightarrow> bool" where
  "is_prior_larger k t1 t2 =
     (t1 \<noteq> THREAD_NULL \<and> t2 \<noteq> THREAD_NULL \<and> priority_of k t1 > priority_of k t2)"

definition thread_get_priority :: "kernel \<Rightarrow> int option" where
  "thread_get_priority k = do { t \<leftarrow> thread_current k; Some (priority_of k t) }"

subsection \<open>Context switch\<close>

definition next_thread_to_run :: "kernel \<Rightarrow> kernel \<times> ptr" where
  "next_thread_to_run k = (case k_ready k of
     [] \<Rightarrow> (k, k_idle k)
   | t # ts \<Rightarrow> (k\<lparr>k_ready := ts\<rparr>, t))"

definition thread_schedule_tail :: "ptr \<Rightarrow> kernel \<Rightarrow> kernel option" where
  "thread_schedule_tail prev k = do {
     ASSERT (\<not> k_intr k);
     let k = set_status (k_cur k) THREAD_RUNNING k;
     let k = k\<lparr>k_thread_ticks := 0\<rparr>;
     if prev \<noteq> THREAD_NULL \<and> prev \<noteq> k_initial k
        \<and> map_option t_status (thread_at k prev) = Some THREAD_DYING
     then do {
       ASSERT (prev \<noteq> k_cur k);
       Some (k\<lparr>k_threads := (k_threads k)(prev := None), k_cont := (k_cont k)(prev := [])\<rparr>) }
     else Some k }"

definition schedule :: "kernel \<Rightarrow> kernel option" where
  "schedule k = do {
     let cur = k_cur k;
     let (k, nxt) = next_thread_to_run k;
     ASSERT (\<not> k_intr k);
     th \<leftarrow> thread_at k cur;
     ASSERT (t_status th \<noteq> THREAD_RUNNING);
     ASSERT (is_thread k nxt);
     thread_schedule_tail (if cur \<noteq> nxt then cur else THREAD_NULL) (k\<lparr>k_cur := nxt\<rparr>) }"

definition thread_block :: "kernel \<Rightarrow> kernel option" where
  "thread_block k = do {
     ASSERT (\<not> k_ext k);
     ASSERT (\<not> k_intr k);
     t \<leftarrow> thread_current k;
     schedule (set_status t THREAD_BLOCKED k) }"

definition thread_unblock :: "ptr \<Rightarrow> kernel \<Rightarrow> kernel option" where
  "thread_unblock t k = do {
     ASSERT (is_thread k t);
     th \<leftarrow> thread_at k t;
     ASSERT (t_status th = THREAD_BLOCKED);
     Some (set_status t THREAD_READY (k\<lparr>k_ready := insert_ordered (is_prior_larger k) t (k_ready k)\<rparr>)) }"

definition thread_yield :: "kernel \<Rightarrow> kernel option" where
  "thread_yield k = do {
     cur \<leftarrow> thread_current k;
     ASSERT (\<not> k_ext k);
     let k = intr_disable (push [C_intr_set (k_intr k)] k);
     let k = (if cur \<noteq> k_idle k
              then k\<lparr>k_ready := insert_ordered (is_prior_larger k) cur (k_ready k)\<rparr> else k);
     schedule (set_status cur THREAD_READY k) }"

definition thread_exit :: "kernel \<Rightarrow> kernel option" where
  "thread_exit k = do {
     ASSERT (\<not> k_ext k);
     let k = intr_disable k;
     t \<leftarrow> thread_current k;
     let k = k\<lparr>k_all := remove1 t (k_all k)\<rparr>;
     schedule (set_status t THREAD_DYING k) }"

subsection \<open>Creating threads\<close>

text \<open>\<open>t\<close> is the zeroed page from the page allocator.\<close>

definition init_thread :: "ptr \<Rightarrow> string \<Rightarrow> int \<Rightarrow> kernel \<Rightarrow> kernel option" where
  "init_thread t name priority k = do {
     ASSERT (t \<noteq> THREAD_NULL);
     ASSERT (PRI_MIN \<le> priority \<and> priority \<le> PRI_MAX);
     let k = k\<lparr>k_threads := (k_threads k)(t \<mapsto> \<lparr>t_tid = 0, t_status = THREAD_BLOCKED,
       t_name = take 15 name, t_stack = t + THREAD_PGSIZE, t_priority = priority, t_next_fd = 2,
       t_wake = 0, t_nice = 0, t_recent_cpu = 0, t_stack_pages = 0,
       t_current_stack = THREAD_PGSIZE, t_magic = THREAD_MAGIC\<rparr>),
       k_all := k_all k @ [t]\<rparr>;
     running \<leftarrow> k_threads k (k_cur k);
     Some (upd_thread t (\<lambda>th. th\<lparr>t_recent_cpu := t_recent_cpu running, t_nice := t_nice running\<rparr>) k) }"

definition thread_create :: "ptr option \<Rightarrow> string \<Rightarrow> int \<Rightarrow> code list \<Rightarrow> kernel \<Rightarrow> kernel option" where
  "thread_create page name priority body k = (case page of
     None \<Rightarrow> Some (set_ret TID_ERROR k)
   | Some t \<Rightarrow> do {
       k \<leftarrow> init_thread t name priority k;
       Some (push [C_lock_acquire tid_lock, C_take_tid t body] k) })"

text \<open>\<open>allocate_tid\<close> with the lock held.\<close>

definition take_tid :: "ptr \<Rightarrow> code list \<Rightarrow> kernel \<Rightarrow> kernel" where
  "take_tid t body k = push [C_lock_release tid_lock, C_created t (k_next_tid k) body]
     (k\<lparr>k_next_tid := int32 (k_next_tid k + 1)\<rparr>)"

definition alloc_frame :: "ptr \<Rightarrow> nat \<Rightarrow> kernel \<Rightarrow> kernel option" where
  "alloc_frame t sz k = do {
     ASSERT (is_thread k t);
     ASSERT (sz mod 4 = 0);
     Some (upd_thread t (\<lambda>th. th\<lparr>t_stack := t_stack th - sz\<rparr>) k) }"

text \<open>The three stack frames make the thread start with \<open>kernel_thread\<close>: interrupts on, then the
  thread's function; the function's end, \<open>thread_exit\<close>, is a call like any other.\<close>

definition thread_created :: "ptr \<Rightarrow> int \<Rightarrow> code list \<Rightarrow> kernel \<Rightarrow> kernel option" where
  "thread_created t tid body k = do {
     let k = upd_thread t (\<lambda>th. th\<lparr>t_tid := tid\<rparr>) k;
     k \<leftarrow> alloc_frame t 12 k;
     k \<leftarrow> alloc_frame t 4 k;
     k \<leftarrow> alloc_frame t 28 k;
     let k = k\<lparr>k_cont := (k_cont k)(t := C_intr_set True # body)\<rparr>;
     k \<leftarrow> thread_unblock t k;
     p \<leftarrow> thread_get_priority k;
     let k = set_ret tid k;
     if p < priority_of k t then thread_yield k else Some k }"

subsection \<open>Priorities and the feedback queue\<close>

definition thread_set_priority :: "int \<Rightarrow> kernel \<Rightarrow> kernel option" where
  "thread_set_priority new_priority k =
     (if \<not> k_mlfqs k then do {
        let prec_level = k_intr k;
        prec_prior \<leftarrow> thread_get_priority k;
        t \<leftarrow> thread_current k;
        let k = upd_thread t (\<lambda>th. th\<lparr>t_priority := new_priority\<rparr>) k;
        if prec_prior > new_priority
        then thread_yield (intr_disable (push [C_intr_set prec_level] k))
        else Some k }
      else Some k)"

definition max_prior :: "kernel \<Rightarrow> int option" where
  "max_prior k = (case k_ready k of [] \<Rightarrow> None | t # _ \<Rightarrow> Some (priority_of k t))"

definition thread_set_nice :: "int \<Rightarrow> kernel \<Rightarrow> kernel option" where
  "thread_set_nice nice k = do {
     t \<leftarrow> thread_current k;
     Some (upd_thread t (\<lambda>th. th\<lparr>t_nice := nice, t_priority := mlfqs_priority (t_recent_cpu th) nice\<rparr>) k) }"

definition thread_get_nice :: "kernel \<Rightarrow> int option" where
  "thread_get_nice k = do { t \<leftarrow> thread_current k; th \<leftarrow> thread_at k t; Some (t_nice th) }"

definition thread_get_load_avg :: "kernel \<Rightarrow> int" where
  "thread_get_load_avg k = int32 (100 * k_load_avg k) sdiv FRACT"

definition thread_get_recent_cpu :: "kernel \<Rightarrow> int option" where
  "thread_get_recent_cpu k = do {
     t \<leftarrow> thread_current k; th \<leftarrow> thread_at k t; Some (int32 (t_recent_cpu th * 100) sdiv FRACT) }"

definition renew_load_avg :: "kernel \<Rightarrow> kernel option" where
  "renew_load_avg k = do {
     cur \<leftarrow> thread_current k;
     let rdnum = int (length (k_ready k)) + (if cur \<noteq> k_idle k then 1 else 0);
     Some (k\<lparr>k_load_avg := next_load_avg (k_load_avg k) rdnum\<rparr>) }"

fun renew_recent_cpu_loop :: "ptr list \<Rightarrow> kernel \<Rightarrow> kernel option" where
  "renew_recent_cpu_loop [] k = Some k"
| "renew_recent_cpu_loop (t # ts) k =
     (if t \<noteq> k_idle k then do {
        th \<leftarrow> thread_at k t;
        r \<leftarrow> next_recent_cpu (k_load_avg k) (t_recent_cpu th) (t_nice th);
        renew_recent_cpu_loop ts (upd_thread t (\<lambda>th. th\<lparr>t_recent_cpu := r\<rparr>) k) }
      else renew_recent_cpu_loop ts k)"

definition renew_recent_cpu :: "kernel \<Rightarrow> kernel option" where
  "renew_recent_cpu k = renew_recent_cpu_loop (k_all k) k"

definition renew_prior :: "kernel \<Rightarrow> kernel" where
  "renew_prior k = fold (\<lambda>t. upd_thread t
     (\<lambda>th. th\<lparr>t_priority := mlfqs_priority (t_recent_cpu th) (t_nice th)\<rparr>)) (k_all k) k"

definition thread_aging :: "kernel \<Rightarrow> kernel" where
  "thread_aging k = fold (\<lambda>t. upd_thread t (\<lambda>th. th\<lparr>t_priority := int32 (t_priority th + 1)\<rparr>)) (k_ready k) k"

definition thread_foreach :: "(ptr \<Rightarrow> kernel \<Rightarrow> kernel option) \<Rightarrow> kernel \<Rightarrow> kernel option" where
  "thread_foreach func k = do {
     ASSERT (\<not> k_intr k);
     foldl (\<lambda>r t. do { k \<leftarrow> r; func t k }) (Some k) (k_all k) }"

subsection \<open>The timer tick\<close>

definition tick_statistics :: "ptr \<Rightarrow> kernel \<Rightarrow> kernel" where
  "tick_statistics t k = (if t = k_idle k
     then k\<lparr>k_idle_ticks := int64 (k_idle_ticks k + 1)\<rparr>
     else k\<lparr>k_kernel_ticks := int64 (k_kernel_ticks k + 1)\<rparr>)"

definition intr_yield_on_return :: "kernel \<Rightarrow> kernel option" where
  "intr_yield_on_return k = do { ASSERT (k_ext k); Some (k\<lparr>k_yield_on_return := True\<rparr>) }"

definition tick_slice :: "kernel \<Rightarrow> kernel option" where
  "tick_slice k = (let n = (k_thread_ticks k + 1) mod 2 ^ 32; k = k\<lparr>k_thread_ticks := n\<rparr> in
     if n \<ge> TIME_SLICE then intr_yield_on_return k else Some k)"

definition thread_tick :: "kernel \<Rightarrow> kernel option" where
  "thread_tick k = do {
     t \<leftarrow> thread_current k;
     k \<leftarrow> tick_slice (tick_statistics t k);
     if k_aging k then Some (thread_aging k)
     else if k_mlfqs k then do {
       let k = upd_thread t (\<lambda>th. th\<lparr>t_recent_cpu := FAI (t_recent_cpu th) 1\<rparr>) k;
       k \<leftarrow> (if k_ticks k smod TIMER_FREQ = 0
             then do { k \<leftarrow> renew_load_avg k; renew_recent_cpu k } else Some k);
       Some (if k_ticks k smod 4 = 0 then renew_prior k else k) }
     else Some k }"

subsection \<open>The order of the ready list\<close>

text \<open>\<open>is_prior_larger\<close> is asymmetric, which is all that sorting needs to end; without its test
  for null pointers, which no list holds, it is a strict weak order.\<close>

definition by_priority :: "kernel \<Rightarrow> ptr \<Rightarrow> ptr \<Rightarrow> bool" where
  "by_priority k t1 t2 = (priority_of k t1 > priority_of k t2)"

interpretation prior: asym_order "is_prior_larger k" for k
  by unfold_locales (auto simp: is_prior_larger_def)

interpretation prio: weak_order "by_priority k" for k
  by unfold_locales (auto simp: by_priority_def)

lemma is_prior_larger_by_priority:
  "t1 \<noteq> THREAD_NULL \<Longrightarrow> t2 \<noteq> THREAD_NULL \<Longrightarrow> is_prior_larger k t1 t2 = by_priority k t1 t2"
  by (simp add: is_prior_larger_def by_priority_def)

lemma adj_sorted_cong:
  "(\<And>x y. x \<in> set xs \<Longrightarrow> y \<in> set xs \<Longrightarrow> lt x y = lt' x y) \<Longrightarrow> adj_sorted lt xs = adj_sorted lt' xs"
  by (induction lt xs rule: adj_sorted.induct) auto

lemma insert_ordered_cong:
  assumes "\<And>x. x \<in> set xs \<Longrightarrow> lt e x = lt' e x"
  shows "insert_ordered lt e xs = insert_ordered lt' e xs"
proof -
  have "takeWhile (\<lambda>x. \<not> lt e x) xs = takeWhile (\<lambda>x. \<not> lt' e x) xs"
    "dropWhile (\<lambda>x. \<not> lt e x) xs = dropWhile (\<lambda>x. \<not> lt' e x) xs"
    using assms by (auto intro!: takeWhile_cong dropWhile_cong)
  then show ?thesis by (simp add: insert_ordered_def)
qed

text \<open>The front of a sorted list of threads has the highest priority.\<close>

lemma sorted_threads:
  assumes "merge_sort (is_prior_larger k) xs = Some ys" "THREAD_NULL \<notin> set xs"
  shows "mset ys = mset xs \<and> sorted_wrt (\<lambda>x y. priority_of k x \<ge> priority_of k y) ys"
proof -
  from prior.merge_sort_sorts [of k xs] assms(1) have ys: "mset ys = mset xs" "adj_sorted (is_prior_larger k) ys"
    by auto
  from ys(1) have "set ys = set xs" by (rule mset_eq_setD)
  with ys(2) assms(2) have "adj_sorted (by_priority k) ys"
    using adj_sorted_cong [of ys "is_prior_larger k" "by_priority k"] is_prior_larger_by_priority
    by (metis (no_types, lifting))
  with ys(1) show ?thesis
    by (simp add: prio.adj_sorted_iff) (simp add: by_priority_def not_less)
qed

lemma insert_sorted_threads:
  assumes "sorted_wrt (\<lambda>x y. priority_of k x \<ge> priority_of k y) xs" "THREAD_NULL \<notin> set xs" "t \<noteq> THREAD_NULL"
  shows "sorted_wrt (\<lambda>x y. priority_of k x \<ge> priority_of k y) (insert_ordered (is_prior_larger k) t xs)"
proof -
  have "insert_ordered (is_prior_larger k) t xs = insert_ordered (by_priority k) t xs"
    using assms(2,3) by (intro insert_ordered_cong is_prior_larger_by_priority) auto
  then show ?thesis
    using prio.insert_ordered_sorted [of k xs t] assms(1) by (simp add: by_priority_def not_less)
qed

end
