(* ===== verification/Synch.thy ===== *)
theory Synch imports Scheduler begin

section \<open>threads/synch.c: semaphores, locks, condition variables\<close>

text \<open>
  The synchronisation primitives of \<open>threads/synch.[ch]\<close>.  A lock at \<open>l\<close> has its semaphore
  behind the \<open>holder\<close> field, at \<open>l + 4\<close>; a \<open>struct semaphore_elem\<close> at \<open>w\<close> has its semaphore
  behind the list element, at \<open>w + 8\<close>.

  \<open>cond_wait\<close> and \<open>cond_signal\<close> order a list of \<open>semaphore_elem\<close>s with \<open>is_prior_larger\<close>, which
  takes its arguments for threads: the priorities it compares are whatever lies at that offset
  from the element.  The model compares \<open>k_junk\<close>, about which nothing is assumed.
\<close>

subsection \<open>Semaphores\<close>

definition upd_sema :: "ptr \<Rightarrow> (semaphore \<Rightarrow> semaphore) \<Rightarrow> kernel \<Rightarrow> kernel" where
  "upd_sema s f k = k\<lparr>k_sema := (k_sema k)(s := f (k_sema k s))\<rparr>"

definition sema_init :: "ptr \<Rightarrow> nat \<Rightarrow> kernel \<Rightarrow> kernel option" where
  "sema_init s v k = do {
     ASSERT (s \<noteq> THREAD_NULL);
     Some (upd_sema s (\<lambda>_. \<lparr>sema_value = v, sema_waiters = []\<rparr>) k) }"

text \<open>The \<open>while\<close> loop of \<open>sema_down\<close>: a thread that has waited tests the value again.\<close>

definition sema_loop :: "ptr \<Rightarrow> kernel \<Rightarrow> kernel option" where
  "sema_loop s k =
     (if sema_value (k_sema k s) = 0 then do {
        t \<leftarrow> thread_current k;
        let k = upd_sema s (\<lambda>se. se\<lparr>sema_waiters :=
          insert_ordered (is_prior_larger k) t (sema_waiters se)\<rparr>) k;
        thread_block (push [C_sema_loop s] k) }
      else Some (upd_sema s (\<lambda>se. se\<lparr>sema_value := sema_value se - 1\<rparr>) k))"

definition sema_down :: "ptr \<Rightarrow> kernel \<Rightarrow> kernel option" where
  "sema_down s k = do {
     ASSERT (s \<noteq> THREAD_NULL);
     ASSERT (\<not> k_ext k);
     sema_loop s (intr_disable (push [C_intr_set (k_intr k)] k)) }"

definition sema_try_down :: "ptr \<Rightarrow> kernel \<Rightarrow> (kernel \<times> bool) option" where
  "sema_try_down s k = do {
     ASSERT (s \<noteq> THREAD_NULL);
     Some (if sema_value (k_sema k s) > 0
       then (upd_sema s (\<lambda>se. se\<lparr>sema_value := sema_value se - 1\<rparr>) k, True)
       else (k, False)) }"

text \<open>The second removal of the woken thread, \<open>list_remove (&max_th->elem)\<close>, finds it already
  unlinked and changes nothing (\<open>list_remove_twice\<close>).\<close>

definition sema_wake :: "ptr \<Rightarrow> kernel \<Rightarrow> kernel option" where
  "sema_wake s k = do {
     waiters \<leftarrow> merge_sort (is_prior_larger k) (sema_waiters (k_sema k s));
     (case waiters of
        [] \<Rightarrow> None
      | max_th # rest \<Rightarrow> thread_unblock max_th (upd_sema s (\<lambda>se. se\<lparr>sema_waiters := rest\<rparr>) k)) }"

definition sema_up :: "ptr \<Rightarrow> kernel \<Rightarrow> kernel option" where
  "sema_up s k = do {
     ASSERT (s \<noteq> THREAD_NULL);
     let k = intr_disable (push [C_intr_set (k_intr k)] k);
     k \<leftarrow> (if sema_waiters (k_sema k s) \<noteq> [] then sema_wake s k else Some k);
     thread_yield (upd_sema s (\<lambda>se. se\<lparr>sema_value := (sema_value se + 1) mod 2 ^ 32\<rparr>) k) }"

subsection \<open>Locks\<close>

definition lock_sema :: "ptr \<Rightarrow> ptr" where "lock_sema l = l + 4"

definition lock_init :: "ptr \<Rightarrow> kernel \<Rightarrow> kernel option" where
  "lock_init l k = do {
     ASSERT (l \<noteq> THREAD_NULL);
     sema_init (lock_sema l) 1 (k\<lparr>k_holder := (k_holder k)(l := THREAD_NULL)\<rparr>) }"

definition lock_held_by_current_thread :: "ptr \<Rightarrow> kernel \<Rightarrow> bool option" where
  "lock_held_by_current_thread l k = do {
     ASSERT (l \<noteq> THREAD_NULL); t \<leftarrow> thread_current k; Some (k_holder k l = t) }"

definition set_holder :: "ptr \<Rightarrow> kernel \<Rightarrow> kernel option" where
  "set_holder l k = do { t \<leftarrow> thread_current k; Some (k\<lparr>k_holder := (k_holder k)(l := t)\<rparr>) }"

definition lock_acquire :: "ptr \<Rightarrow> kernel \<Rightarrow> kernel option" where
  "lock_acquire l k = do {
     ASSERT (l \<noteq> THREAD_NULL);
     ASSERT (\<not> k_ext k);
     held \<leftarrow> lock_held_by_current_thread l k;
     ASSERT (\<not> held);
     sema_down (lock_sema l) (push [C_set_holder l] k) }"

definition lock_try_acquire :: "ptr \<Rightarrow> kernel \<Rightarrow> (kernel \<times> bool) option" where
  "lock_try_acquire l k = do {
     ASSERT (l \<noteq> THREAD_NULL);
     held \<leftarrow> lock_held_by_current_thread l k;
     ASSERT (\<not> held);
     (k, success) \<leftarrow> sema_try_down (lock_sema l) k;
     if success then do { k \<leftarrow> set_holder l k; Some (k, True) } else Some (k, False) }"

definition lock_release :: "ptr \<Rightarrow> kernel \<Rightarrow> kernel option" where
  "lock_release l k = do {
     ASSERT (l \<noteq> THREAD_NULL);
     held \<leftarrow> lock_held_by_current_thread l k;
     ASSERT held;
     sema_up (lock_sema l) (k\<lparr>k_holder := (k_holder k)(l := THREAD_NULL)\<rparr>) }"

subsection \<open>Condition variables\<close>

definition waiter_sema :: "ptr \<Rightarrow> ptr" where "waiter_sema w = w + 8"

definition cond_init :: "ptr \<Rightarrow> kernel \<Rightarrow> kernel option" where
  "cond_init c k = do { ASSERT (c \<noteq> THREAD_NULL); Some (k\<lparr>k_cond := (k_cond k)(c := [])\<rparr>) }"

definition junk_larger :: "kernel \<Rightarrow> ptr \<Rightarrow> ptr \<Rightarrow> bool" where
  "junk_larger k w1 w2 = (k_junk k w1 > k_junk k w2)"

text \<open>\<open>w\<close> is the address of the \<open>struct semaphore_elem\<close> on the waiting thread's stack.\<close>

definition cond_wait :: "ptr \<Rightarrow> ptr \<Rightarrow> ptr \<Rightarrow> kernel \<Rightarrow> kernel option" where
  "cond_wait c l w k = do {
     ASSERT (c \<noteq> THREAD_NULL);
     ASSERT (l \<noteq> THREAD_NULL);
     ASSERT (\<not> k_ext k);
     held \<leftarrow> lock_held_by_current_thread l k;
     ASSERT held;
     k \<leftarrow> sema_init (waiter_sema w) 0 k;
     let k = k\<lparr>k_cond := (k_cond k)(c := insert_ordered (junk_larger k) w (k_cond k c))\<rparr>;
     lock_release l (push [C_sema_down (waiter_sema w), C_lock_acquire l] k) }"

definition cond_signal :: "ptr \<Rightarrow> ptr \<Rightarrow> kernel \<Rightarrow> kernel option" where
  "cond_signal c l k = do {
     ASSERT (c \<noteq> THREAD_NULL);
     ASSERT (l \<noteq> THREAD_NULL);
     ASSERT (\<not> k_ext k);
     held \<leftarrow> lock_held_by_current_thread l k;
     ASSERT held;
     if k_cond k c \<noteq> [] then do {
       ws \<leftarrow> merge_sort (junk_larger k) (k_cond k c);
       (case ws of [] \<Rightarrow> None
        | w # rest \<Rightarrow> sema_up (waiter_sema w) (k\<lparr>k_cond := (k_cond k)(c := rest)\<rparr>)) }
     else Some k }"

definition cond_broadcast :: "ptr \<Rightarrow> ptr \<Rightarrow> kernel \<Rightarrow> kernel option" where
  "cond_broadcast c l k = do {
     ASSERT (c \<noteq> THREAD_NULL);
     ASSERT (l \<noteq> THREAD_NULL);
     if k_cond k c \<noteq> [] then cond_signal c l (push [C_cond_broadcast c l] k) else Some k }"

interpretation junk: weak_order "junk_larger k" for k
  by unfold_locales (auto simp: junk_larger_def)

end
