(* ===== verification/Timer.thy ===== *)
theory Timer imports Scheduler begin

section \<open>devices/timer.c: the timer and sleeping threads\<close>

text \<open>
  \<open>timer_sleep\<close> blocks the running thread until the tick it names, and the timer interrupt
  wakes the threads whose time has come.  \<open>threads/thread.h\<close> declares
  \<open>static int64_t smallest_tick\<close>, so \<open>thread.c\<close> and \<open>timer.c\<close> have a copy each:
  \<open>k_smallest_tick\<close> is the copy that \<open>update_smallest_tick\<close> and \<open>get_next_awake\<close> use, and
  \<open>k_timer_smallest\<close> the one that \<open>wake_thread\<close> resets.
\<close>

definition INT64_MAX :: int where "INT64_MAX = 2 ^ 63 - 1"

definition update_smallest_tick :: "int \<Rightarrow> kernel \<Rightarrow> kernel" where
  "update_smallest_tick n k =
     k\<lparr>k_smallest_tick := (if k_smallest_tick k > n then n else k_smallest_tick k)\<rparr>"

definition get_next_awake :: "kernel \<Rightarrow> int" where
  "get_next_awake k = k_smallest_tick k"

definition timer_ticks :: "kernel \<Rightarrow> int" where
  "timer_ticks k = k_ticks k"

definition timer_elapsed :: "int \<Rightarrow> kernel \<Rightarrow> int" where
  "timer_elapsed since k = int64 (timer_ticks k - since)"

definition timer_sleep :: "int \<Rightarrow> kernel \<Rightarrow> kernel option" where
  "timer_sleep n k = do {
     let start = timer_ticks k;
     ASSERT (k_intr k);
     if n \<le> 0 then Some k
     else do {
       let prec_level = k_intr k;
       let k = intr_disable k;
       t \<leftarrow> thread_current k;
       let k = upd_thread t (\<lambda>th. th\<lparr>t_wake := int64 (n + start)\<rparr>) k;
       let k = update_smallest_tick (int64 (n + start)) k;
       let k = k\<lparr>k_block_list := k_block_list k @ [t]\<rparr>;
       thread_block (push [C_intr_set prec_level] k) } }"

text \<open>The loop of \<open>wake_thread\<close> over the rest of the list.\<close>

fun wake_loop :: "ptr list \<Rightarrow> kernel \<Rightarrow> kernel option" where
  "wake_loop [] k = Some k"
| "wake_loop (t # ts) k = do {
     th \<leftarrow> thread_at k t;
     if t_wake th \<le> timer_ticks k
     then do {
       k \<leftarrow> thread_unblock t (k\<lparr>k_block_list := remove1 t (k_block_list k)\<rparr>);
       wake_loop ts k }
     else wake_loop ts (update_smallest_tick (t_wake th) k) }"

definition wake_thread :: "kernel \<Rightarrow> kernel option" where
  "wake_thread k = wake_loop (k_block_list k) (k\<lparr>k_timer_smallest := INT64_MAX\<rparr>)"

definition timer_interrupt :: "kernel \<Rightarrow> kernel option" where
  "timer_interrupt k = do {
     let k = k\<lparr>k_ticks := int64 (k_ticks k + 1)\<rparr>;
     k \<leftarrow> thread_tick k;
     if k_ticks k \<ge> get_next_awake k then wake_thread k else Some k }"

text \<open>\<open>intr_handler\<close> of \<open>threads/interrupt.c\<close> for the timer's external interrupt.  The processor
  clears the interrupt flag on entry; returning from the interrupt sets it again.\<close>

definition timer_intr_handler :: "kernel \<Rightarrow> kernel option" where
  "timer_intr_handler k = do {
     let k = intr_disable (push [C_intr_set True] k);
     ASSERT (\<not> k_ext k);
     let k = k\<lparr>k_ext := True, k_yield_on_return := False\<rparr>;
     k \<leftarrow> timer_interrupt k;
     ASSERT (\<not> k_intr k);
     ASSERT (k_ext k);
     let k = k\<lparr>k_ext := False\<rparr>;
     if k_yield_on_return k then thread_yield k else Some k }"

subsection \<open>Real time\<close>

text \<open>The number of rounds of \<open>busy_wait\<close>; \<open>None\<close> for the failed assertion.\<close>

definition real_time_delay :: "nat \<Rightarrow> int \<Rightarrow> int \<Rightarrow> int option" where
  "real_time_delay loops_per_tick num denom = do {
     ASSERT (denom smod 1000 = 0 \<and> denom sdiv 1000 \<noteq> 0);
     Some (int64 (int64 (int loops_per_tick * num) sdiv 1000 * TIMER_FREQ) sdiv (denom sdiv 1000)) }"

text \<open>A sleep of at least one tick, or a busy wait (its rounds in \<open>k_ret\<close>).\<close>

definition real_time_sleep :: "nat \<Rightarrow> int \<Rightarrow> int \<Rightarrow> kernel \<Rightarrow> kernel option" where
  "real_time_sleep loops_per_tick num denom k = do {
     ASSERT (denom \<noteq> 0);
     let n = int64 (num * TIMER_FREQ) sdiv denom;
     ASSERT (k_intr k);
     if n > 0 then timer_sleep n k
     else do { loops \<leftarrow> real_time_delay loops_per_tick num denom; Some (set_ret loops k) } }"

definition timer_msleep :: "nat \<Rightarrow> int \<Rightarrow> kernel \<Rightarrow> kernel option" where
  "timer_msleep lpt ms = real_time_sleep lpt ms 1000"

definition timer_usleep :: "nat \<Rightarrow> int \<Rightarrow> kernel \<Rightarrow> kernel option" where
  "timer_usleep lpt us = real_time_sleep lpt us (1000 * 1000)"

definition timer_nsleep :: "nat \<Rightarrow> int \<Rightarrow> kernel \<Rightarrow> kernel option" where
  "timer_nsleep lpt ns = real_time_sleep lpt ns (1000 * 1000 * 1000)"

definition timer_mdelay :: "nat \<Rightarrow> int \<Rightarrow> int option" where
  "timer_mdelay lpt ms = real_time_delay lpt ms 1000"

definition timer_udelay :: "nat \<Rightarrow> int \<Rightarrow> int option" where
  "timer_udelay lpt us = real_time_delay lpt us (1000 * 1000)"

definition timer_ndelay :: "nat \<Rightarrow> int \<Rightarrow> int option" where
  "timer_ndelay lpt ns = real_time_delay lpt ns (1000 * 1000 * 1000)"

end
