(* ===== verification/Kernel.thy ===== *)
theory Kernel imports Synch Timer begin

section \<open>The running kernel\<close>

text \<open>
  The pieces of code of all threads put together: \<open>run\<close> executes one piece of the running
  thread, \<open>kstep\<close> is a step of the kernel, a piece of code, a new call by the running thread,
  or a timer interrupt.
\<close>

subsection \<open>Booting\<close>

definition idle_init :: "ptr \<Rightarrow> kernel \<Rightarrow> kernel option" where
  "idle_init s k = do {
     t \<leftarrow> thread_current k;
     Some (push [C_sema_up s, C_idle_block] (k\<lparr>k_idle := t\<rparr>)) }"

definition idle_block :: "kernel \<Rightarrow> kernel option" where
  "idle_block k = thread_block (push [C_idle_wake] (intr_disable k))"

definition idle_wake :: "kernel \<Rightarrow> kernel option" where
  "idle_wake k = do { k \<leftarrow> intr_enable k; Some (push [C_idle_block] k) }"

text \<open>\<open>thread_init\<close> in the page \<open>t\<close>.  Nobody contends for \<open>tid_lock\<close> yet, and \<open>allocate_tid\<close>
  leaves it as it was.\<close>

definition thread_init :: "ptr \<Rightarrow> kernel \<Rightarrow> kernel option" where
  "thread_init t k = do {
     ASSERT (\<not> k_intr k);
     k \<leftarrow> lock_init tid_lock k;
     let k = k\<lparr>k_ready := [], k_all := [], k_cur := t, k_initial := t\<rparr>;
     k \<leftarrow> init_thread t ''main'' PRI_DEFAULT k;
     let k = set_status t THREAD_RUNNING k;
     Some (upd_thread t (\<lambda>th. th\<lparr>t_tid := k_next_tid k, t_nice := 0, t_recent_cpu := 0\<rparr>)
       (k\<lparr>k_next_tid := int32 (k_next_tid k + 1)\<rparr>)) }"

text \<open>\<open>thread_start\<close>: \<open>page\<close> for the idle thread, \<open>s\<close> the semaphore on the stack.\<close>

definition thread_start :: "ptr \<Rightarrow> ptr \<Rightarrow> kernel \<Rightarrow> kernel option" where
  "thread_start page s k = do {
     k \<leftarrow> sema_init s 0 k;
     Some (push [C_create (Some page) ''idle'' PRI_MIN [C_idle_init s], C_intr_set True, C_sema_down s] k) }"

subsection \<open>Steps\<close>

definition ret_bool :: "(kernel \<times> bool) option \<Rightarrow> kernel option" where
  "ret_bool r = do { (k, b) \<leftarrow> r; Some (set_ret (if b then 1 else 0) k) }"

fun run :: "code \<Rightarrow> kernel \<Rightarrow> kernel option" where
  "run (C_intr_set b) k = intr_set_level b k"
| "run C_yield k = thread_yield k"
| "run C_exit k = thread_exit k"
| "run (C_set_priority p) k = thread_set_priority p k"
| "run (C_set_nice n) k = thread_set_nice n k"
| "run (C_create page name p body) k = thread_create page name p body k"
| "run (C_take_tid t body) k = Some (take_tid t body k)"
| "run (C_created t tid body) k = thread_created t tid body k"
| "run (C_idle_init s) k = idle_init s k"
| "run C_idle_block k = idle_block k"
| "run C_idle_wake k = idle_wake k"
| "run (C_sema_down s) k = sema_down s k"
| "run (C_sema_loop s) k = sema_loop s k"
| "run (C_sema_try_down s) k = ret_bool (sema_try_down s k)"
| "run (C_sema_up s) k = sema_up s k"
| "run (C_lock_acquire l) k = lock_acquire l k"
| "run (C_set_holder l) k = set_holder l k"
| "run (C_lock_try_acquire l) k = ret_bool (lock_try_acquire l k)"
| "run (C_lock_release l) k = lock_release l k"
| "run (C_cond_wait c l w) k = cond_wait c l w k"
| "run (C_cond_signal c l) k = cond_signal c l k"
| "run (C_cond_broadcast c l) k = cond_broadcast c l k"
| "run (C_sleep n) k = timer_sleep n k"

text \<open>What kernel code may call: locks are used through the lock routines only, and a new thread
  of a kernel thread's own is given no code that runs before its function.\<close>

fun call_ok :: "ptr set \<Rightarrow> code \<Rightarrow> bool" where
  "call_ok L C_yield = True"
| "call_ok L C_exit = True"
| "call_ok L (C_set_priority p) = True"
| "call_ok L (C_set_nice n) = True"
| "call_ok L (C_create page name p body) = (body = [])"
| "call_ok L (C_sema_down s) = (s \<notin> lock_sema ` L)"
| "call_ok L (C_sema_try_down s) = (s \<notin> lock_sema ` L)"
| "call_ok L (C_sema_up s) = (s \<notin> lock_sema ` L)"
| "call_ok L (C_lock_acquire l) = (l \<in> L)"
| "call_ok L (C_lock_try_acquire l) = (l \<in> L)"
| "call_ok L (C_lock_release l) = (l \<in> L)"
| "call_ok L (C_cond_wait c l w) = (l \<in> L \<and> waiter_sema w \<notin> lock_sema ` L)"
| "call_ok L (C_cond_signal c l) = (l \<in> L)"
| "call_ok L (C_cond_broadcast c l) = (l \<in> L)"
| "call_ok L (C_sleep n) = True"
| "call_ok L _ = False"

text \<open>The page allocator hands out pages that no thread lives in.\<close>

fun palloc_ok :: "code \<Rightarrow> kernel \<Rightarrow> bool" where
  "palloc_ok (C_create (Some t) name p body) k = (t \<noteq> THREAD_NULL \<and> k_threads k t = None)"
| "palloc_ok _ k = True"

definition pop :: "kernel \<Rightarrow> kernel" where
  "pop k = k\<lparr>k_cont := (k_cont k)(k_cur k := tl (k_cont k (k_cur k)))\<rparr>"

inductive kstep :: "ptr set \<Rightarrow> kernel \<Rightarrow> kernel \<Rightarrow> bool" for L where
  K_run: "k_cont k (k_cur k) = c # cs \<Longrightarrow> palloc_ok c k \<Longrightarrow> run c (pop k) = Some k' \<Longrightarrow> kstep L k k'"
| K_call: "k_cont k (k_cur k) = [] \<Longrightarrow> call_ok L c \<Longrightarrow> kstep L k (push [c] k)"
| K_tick: "k_intr k \<Longrightarrow> timer_intr_handler k = Some k' \<Longrightarrow> kstep L k k'"
| K_junk: "kstep L k (k\<lparr>k_junk := j\<rparr>)"

inductive_cases kstepE [consumes 1, case_names K_run K_call K_tick K_junk]: "kstep L k k'"

inductive kreach :: "ptr set \<Rightarrow> kernel \<Rightarrow> kernel \<Rightarrow> bool" for L k0 where
  kreach_refl: "kreach L k0 k0"
| kreach_step: "kreach L k0 k \<Longrightarrow> kstep L k k' \<Longrightarrow> kreach L k0 k'"

text \<open>\<open>exec\<close> runs the pieces on the stacks, at most \<open>n\<close> of them, until the running thread has none
  left; \<open>boot\<close> is the start of the kernel, with all of its data zero, up to the return of
  \<open>thread_start\<close>.\<close>

fun exec :: "nat \<Rightarrow> kernel \<Rightarrow> kernel option" where
  "exec 0 k = None"
| "exec (Suc n) k = (case k_cont k (k_cur k) of [] \<Rightarrow> Some k
    | c # cs \<Rightarrow> do { k \<leftarrow> run c (pop k); exec n k })"

definition kernel_zero :: kernel where
  "kernel_zero = \<lparr>k_threads = (\<lambda>_. None), k_ready = [], k_all = [], k_cur = THREAD_NULL, k_idle = THREAD_NULL,
     k_initial = THREAD_NULL, k_cont = (\<lambda>_. []), k_ret = (\<lambda>_. 0), k_intr = False, k_ext = False,
     k_yield_on_return = False, k_next_tid = 1, k_idle_ticks = 0, k_kernel_ticks = 0, k_thread_ticks = 0,
     k_load_avg = 0, k_mlfqs = False, k_aging = False, k_sema = (\<lambda>_. \<lparr>sema_value = 0, sema_waiters = []\<rparr>),
     k_holder = (\<lambda>_. THREAD_NULL), k_cond = (\<lambda>_. []), k_junk = (\<lambda>_. 0), k_ticks = 0, k_block_list = [],
     k_smallest_tick = 0, k_timer_smallest = 0\<rparr>"

definition boot :: "nat \<Rightarrow> ptr \<Rightarrow> ptr \<Rightarrow> ptr \<Rightarrow> kernel option" where
  "boot n main idle s = do {
     k \<leftarrow> thread_init main kernel_zero;
     k \<leftarrow> thread_start idle s k;
     exec n k }"

end
