(* ===== verification/ThreadLists.thy ===== *)
theory ThreadLists imports Kernel begin

section \<open>The kernel's lists and the states of the threads\<close>

text \<open>
  The invariant \<open>kinv\<close> of the scheduler's data: one thread is running, the ready list holds
  exactly the ready threads, a waiting thread is blocked and in exactly one queue, the list of
  all threads holds the living ones.  The lemmas say what the context switch and the changes
  between two switches do to it.
\<close>

subsection \<open>The lists and the states of the threads\<close>

definition status :: "kernel \<Rightarrow> ptr \<Rightarrow> thread_status option" where
  "status k t = map_option t_status (k_threads k t)"

definition waiters :: "kernel \<Rightarrow> ptr \<Rightarrow> ptr list" where
  "waiters k s = sema_waiters (k_sema k s)"

text \<open>\<open>r\<close> is the running thread; it is \<open>None\<close> inside a routine, between the change of the
  running thread's state and the switch.\<close>

definition inv_threads :: "kernel \<Rightarrow> bool" where
  "inv_threads k = (\<forall>t th. k_threads k t = Some th \<longrightarrow> t \<noteq> THREAD_NULL \<and> t_magic th = THREAD_MAGIC)"

definition inv_run :: "ptr option \<Rightarrow> kernel \<Rightarrow> bool" where
  "inv_run r k = ((r = None \<or> r = Some (k_cur k))
     \<and> (\<forall>t. status k t = Some THREAD_RUNNING \<longleftrightarrow> r = Some t)
     \<and> (\<forall>t. status k t = Some THREAD_DYING \<longrightarrow> t = k_initial k \<or> (r = None \<and> t = k_cur k)))"

definition inv_ready :: "kernel \<Rightarrow> bool" where
  "inv_ready k = (distinct (k_ready k)
     \<and> (\<forall>t \<in> set (k_ready k). status k t = Some THREAD_READY \<and> t \<noteq> k_idle k)
     \<and> (\<forall>t. status k t = Some THREAD_READY \<longrightarrow> t \<in> set (k_ready k) \<or> t = k_idle k))"

definition inv_wait :: "kernel \<Rightarrow> bool" where
  "inv_wait k = (distinct (k_block_list k) \<and> (\<forall>s. distinct (waiters k s))
     \<and> (\<forall>s. set (k_block_list k) \<inter> set (waiters k s) = {})
     \<and> (\<forall>s s'. s \<noteq> s' \<longrightarrow> set (waiters k s) \<inter> set (waiters k s') = {})
     \<and> (\<forall>t \<in> set (k_block_list k). status k t = Some THREAD_BLOCKED \<and> t \<noteq> k_idle k)
     \<and> (\<forall>s. \<forall>t \<in> set (waiters k s). status k t = Some THREAD_BLOCKED \<and> t \<noteq> k_idle k))"

definition inv_all :: "kernel \<Rightarrow> bool" where
  "inv_all k = (distinct (k_all k) \<and>
     (\<forall>t. t \<in> set (k_all k) \<longleftrightarrow> (\<exists>s. status k t = Some s \<and> s \<noteq> THREAD_DYING)))"

definition inv_idle :: "kernel \<Rightarrow> bool" where
  "inv_idle k = (k_idle k \<in> set (k_all k))"

text \<open>The threads that \<open>thread_create\<close> has not put on the ready list yet.\<close>

fun creates :: "code \<Rightarrow> ptr list" where
  "creates (C_take_tid t b) = [t]"
| "creates (C_created t i b) = [t]"
| "creates _ = []"

definition pending :: "kernel \<Rightarrow> ptr \<Rightarrow> ptr list" where
  "pending k u = concat (map creates (k_cont k u))"

definition inv_pend :: "kernel \<Rightarrow> bool" where
  "inv_pend k = ((\<forall>u. distinct (pending k u)) \<and> (\<forall>u v. u \<noteq> v \<longrightarrow> set (pending k u) \<inter> set (pending k v) = {})
     \<and> (\<forall>u. \<forall>t \<in> set (pending k u). status k t = Some THREAD_BLOCKED \<and> t \<noteq> k_idle k
          \<and> t \<notin> set (k_block_list k) \<and> (\<forall>s. t \<notin> set (waiters k s))))"

definition kinv :: "ptr option \<Rightarrow> kernel \<Rightarrow> bool" where
  "kinv r k = (inv_threads k \<and> inv_run r k \<and> inv_ready k \<and> inv_wait k \<and> inv_all k \<and> inv_idle k \<and> inv_pend k)"

lemmas kinv_defs = inv_threads_def inv_run_def inv_ready_def inv_wait_def inv_all_def inv_idle_def inv_pend_def

subsection \<open>What the basic changes leave alone\<close>

lemma status_eq_Some: "status k t = Some s \<longleftrightarrow> (\<exists>th. k_threads k t = Some th \<and> t_status th = s)"
  by (auto simp: status_def)

lemma status_upd_thread [simp]:
  "(\<And>th. t_status (f th) = t_status th) \<Longrightarrow> status (upd_thread t f k) = status k"
  by (auto simp: status_def upd_thread_def fun_eq_iff option.map_comp comp_def cong: map_option_cong)

lemma status_set_status:
  "status (set_status t s k) = (\<lambda>u. if u = t \<and> status k t \<noteq> None then Some s else status k u)"
  by (auto simp: status_def set_status_def upd_thread_def fun_eq_iff)

lemma upd_thread_fields [simp]:
  "k_ready (upd_thread t f k) = k_ready k" "k_all (upd_thread t f k) = k_all k"
  "k_cur (upd_thread t f k) = k_cur k" "k_idle (upd_thread t f k) = k_idle k"
  "k_initial (upd_thread t f k) = k_initial k" "k_cont (upd_thread t f k) = k_cont k"
  "k_intr (upd_thread t f k) = k_intr k" "k_ext (upd_thread t f k) = k_ext k"
  "k_sema (upd_thread t f k) = k_sema k" "k_holder (upd_thread t f k) = k_holder k"
  "k_cond (upd_thread t f k) = k_cond k" "k_block_list (upd_thread t f k) = k_block_list k"
  "k_mlfqs (upd_thread t f k) = k_mlfqs k" "k_aging (upd_thread t f k) = k_aging k"
  "k_ticks (upd_thread t f k) = k_ticks k" "k_smallest_tick (upd_thread t f k) = k_smallest_tick k"
  "k_load_avg (upd_thread t f k) = k_load_avg k" "k_yield_on_return (upd_thread t f k) = k_yield_on_return k"
  by (simp_all add: upd_thread_def)

lemma set_status_fields [simp]:
  "k_ready (set_status t s k) = k_ready k" "k_all (set_status t s k) = k_all k"
  "k_cur (set_status t s k) = k_cur k" "k_idle (set_status t s k) = k_idle k"
  "k_initial (set_status t s k) = k_initial k" "k_cont (set_status t s k) = k_cont k"
  "k_intr (set_status t s k) = k_intr k" "k_ext (set_status t s k) = k_ext k"
  "k_sema (set_status t s k) = k_sema k" "k_holder (set_status t s k) = k_holder k"
  "k_cond (set_status t s k) = k_cond k" "k_block_list (set_status t s k) = k_block_list k"
  "k_mlfqs (set_status t s k) = k_mlfqs k" "k_aging (set_status t s k) = k_aging k"
  "k_ticks (set_status t s k) = k_ticks k" "k_smallest_tick (set_status t s k) = k_smallest_tick k"
  by (simp_all add: set_status_def)

lemma push_fields [simp]:
  "k_threads (push cs k) = k_threads k"
  "k_ready (push cs k) = k_ready k" "k_all (push cs k) = k_all k"
  "k_cur (push cs k) = k_cur k" "k_idle (push cs k) = k_idle k"
  "k_initial (push cs k) = k_initial k" "k_intr (push cs k) = k_intr k" "k_ext (push cs k) = k_ext k"
  "k_sema (push cs k) = k_sema k" "k_holder (push cs k) = k_holder k"
  "k_cond (push cs k) = k_cond k" "k_block_list (push cs k) = k_block_list k"
  "k_mlfqs (push cs k) = k_mlfqs k" "k_aging (push cs k) = k_aging k"
  "k_ticks (push cs k) = k_ticks k" "k_smallest_tick (push cs k) = k_smallest_tick k"
  "k_next_tid (push cs k) = k_next_tid k" "k_junk (push cs k) = k_junk k"
  "k_cont (push cs k) = (k_cont k)(k_cur k := cs @ k_cont k (k_cur k))"
  by (simp_all add: push_def)

lemma intr_disable_fields [simp]:
  "k_threads (intr_disable k) = k_threads k"
  "k_ready (intr_disable k) = k_ready k" "k_all (intr_disable k) = k_all k"
  "k_cur (intr_disable k) = k_cur k" "k_idle (intr_disable k) = k_idle k"
  "k_initial (intr_disable k) = k_initial k" "k_intr (intr_disable k) = False" "k_ext (intr_disable k) = k_ext k"
  "k_sema (intr_disable k) = k_sema k" "k_holder (intr_disable k) = k_holder k"
  "k_cond (intr_disable k) = k_cond k" "k_block_list (intr_disable k) = k_block_list k"
  "k_mlfqs (intr_disable k) = k_mlfqs k" "k_aging (intr_disable k) = k_aging k"
  "k_ticks (intr_disable k) = k_ticks k" "k_smallest_tick (intr_disable k) = k_smallest_tick k"
  "k_cont (intr_disable k) = k_cont k"
  by (simp_all add: intr_disable_def)

lemma upd_sema_fields [simp]:
  "k_threads (upd_sema s f k) = k_threads k"
  "k_ready (upd_sema s f k) = k_ready k" "k_all (upd_sema s f k) = k_all k"
  "k_cur (upd_sema s f k) = k_cur k" "k_idle (upd_sema s f k) = k_idle k"
  "k_initial (upd_sema s f k) = k_initial k" "k_intr (upd_sema s f k) = k_intr k" "k_ext (upd_sema s f k) = k_ext k"
  "k_sema (upd_sema s f k) = (k_sema k)(s := f (k_sema k s))" "k_holder (upd_sema s f k) = k_holder k"
  "k_cond (upd_sema s f k) = k_cond k" "k_block_list (upd_sema s f k) = k_block_list k"
  "k_mlfqs (upd_sema s f k) = k_mlfqs k" "k_aging (upd_sema s f k) = k_aging k"
  "k_ticks (upd_sema s f k) = k_ticks k" "k_smallest_tick (upd_sema s f k) = k_smallest_tick k"
  "k_cont (upd_sema s f k) = k_cont k"
  by (simp_all add: upd_sema_def)

lemma thread_at_fields [simp]:
  "thread_at (k_ready_update g_ready k) = thread_at k"
  "thread_at (k_all_update g_all k) = thread_at k"
  "thread_at (k_cur_update g_cur k) = thread_at k"
  "thread_at (k_idle_update g_idle k) = thread_at k"
  "thread_at (k_initial_update g_initial k) = thread_at k"
  "thread_at (k_cont_update g_cont k) = thread_at k"
  "thread_at (k_ret_update g_ret k) = thread_at k"
  "thread_at (k_intr_update g_intr k) = thread_at k"
  "thread_at (k_ext_update g_ext k) = thread_at k"
  "thread_at (k_yield_on_return_update g_yield_on_return k) = thread_at k"
  "thread_at (k_next_tid_update g_next_tid k) = thread_at k"
  "thread_at (k_idle_ticks_update g_idle_ticks k) = thread_at k"
  "thread_at (k_kernel_ticks_update g_kernel_ticks k) = thread_at k"
  "thread_at (k_thread_ticks_update g_thread_ticks k) = thread_at k"
  "thread_at (k_load_avg_update g_load_avg k) = thread_at k"
  "thread_at (k_mlfqs_update g_mlfqs k) = thread_at k"
  "thread_at (k_aging_update g_aging k) = thread_at k"
  "thread_at (k_sema_update g_sema k) = thread_at k"
  "thread_at (k_holder_update g_holder k) = thread_at k"
  "thread_at (k_cond_update g_cond k) = thread_at k"
  "thread_at (k_junk_update g_junk k) = thread_at k"
  "thread_at (k_ticks_update g_ticks k) = thread_at k"
  "thread_at (k_block_list_update g_block_list k) = thread_at k"
  "thread_at (k_smallest_tick_update g_smallest_tick k) = thread_at k"
  "thread_at (k_timer_smallest_update g_timer_smallest k) = thread_at k"
  by (simp_all add: thread_at_def fun_eq_iff)

lemma status_fields [simp]:
  "status (k_ready_update g_ready k) = status k"
  "status (k_all_update g_all k) = status k"
  "status (k_cur_update g_cur k) = status k"
  "status (k_idle_update g_idle k) = status k"
  "status (k_initial_update g_initial k) = status k"
  "status (k_cont_update g_cont k) = status k"
  "status (k_ret_update g_ret k) = status k"
  "status (k_intr_update g_intr k) = status k"
  "status (k_ext_update g_ext k) = status k"
  "status (k_yield_on_return_update g_yield_on_return k) = status k"
  "status (k_next_tid_update g_next_tid k) = status k"
  "status (k_idle_ticks_update g_idle_ticks k) = status k"
  "status (k_kernel_ticks_update g_kernel_ticks k) = status k"
  "status (k_thread_ticks_update g_thread_ticks k) = status k"
  "status (k_load_avg_update g_load_avg k) = status k"
  "status (k_mlfqs_update g_mlfqs k) = status k"
  "status (k_aging_update g_aging k) = status k"
  "status (k_sema_update g_sema k) = status k"
  "status (k_holder_update g_holder k) = status k"
  "status (k_cond_update g_cond k) = status k"
  "status (k_junk_update g_junk k) = status k"
  "status (k_ticks_update g_ticks k) = status k"
  "status (k_block_list_update g_block_list k) = status k"
  "status (k_smallest_tick_update g_smallest_tick k) = status k"
  "status (k_timer_smallest_update g_timer_smallest k) = status k"
  by (simp_all add: status_def fun_eq_iff)

lemma is_thread_fields [simp]:
  "is_thread (k_ready_update g_ready k) = is_thread k"
  "is_thread (k_all_update g_all k) = is_thread k"
  "is_thread (k_cur_update g_cur k) = is_thread k"
  "is_thread (k_idle_update g_idle k) = is_thread k"
  "is_thread (k_initial_update g_initial k) = is_thread k"
  "is_thread (k_cont_update g_cont k) = is_thread k"
  "is_thread (k_ret_update g_ret k) = is_thread k"
  "is_thread (k_intr_update g_intr k) = is_thread k"
  "is_thread (k_ext_update g_ext k) = is_thread k"
  "is_thread (k_yield_on_return_update g_yield_on_return k) = is_thread k"
  "is_thread (k_next_tid_update g_next_tid k) = is_thread k"
  "is_thread (k_idle_ticks_update g_idle_ticks k) = is_thread k"
  "is_thread (k_kernel_ticks_update g_kernel_ticks k) = is_thread k"
  "is_thread (k_thread_ticks_update g_thread_ticks k) = is_thread k"
  "is_thread (k_load_avg_update g_load_avg k) = is_thread k"
  "is_thread (k_mlfqs_update g_mlfqs k) = is_thread k"
  "is_thread (k_aging_update g_aging k) = is_thread k"
  "is_thread (k_sema_update g_sema k) = is_thread k"
  "is_thread (k_holder_update g_holder k) = is_thread k"
  "is_thread (k_cond_update g_cond k) = is_thread k"
  "is_thread (k_junk_update g_junk k) = is_thread k"
  "is_thread (k_ticks_update g_ticks k) = is_thread k"
  "is_thread (k_block_list_update g_block_list k) = is_thread k"
  "is_thread (k_smallest_tick_update g_smallest_tick k) = is_thread k"
  "is_thread (k_timer_smallest_update g_timer_smallest k) = is_thread k"
  by (simp_all add: is_thread_def fun_eq_iff)

lemma inv_threads_fields [simp]:
  "inv_threads (k_ready_update g_ready k) = inv_threads k"
  "inv_threads (k_all_update g_all k) = inv_threads k"
  "inv_threads (k_cur_update g_cur k) = inv_threads k"
  "inv_threads (k_idle_update g_idle k) = inv_threads k"
  "inv_threads (k_initial_update g_initial k) = inv_threads k"
  "inv_threads (k_cont_update g_cont k) = inv_threads k"
  "inv_threads (k_ret_update g_ret k) = inv_threads k"
  "inv_threads (k_intr_update g_intr k) = inv_threads k"
  "inv_threads (k_ext_update g_ext k) = inv_threads k"
  "inv_threads (k_yield_on_return_update g_yield_on_return k) = inv_threads k"
  "inv_threads (k_next_tid_update g_next_tid k) = inv_threads k"
  "inv_threads (k_idle_ticks_update g_idle_ticks k) = inv_threads k"
  "inv_threads (k_kernel_ticks_update g_kernel_ticks k) = inv_threads k"
  "inv_threads (k_thread_ticks_update g_thread_ticks k) = inv_threads k"
  "inv_threads (k_load_avg_update g_load_avg k) = inv_threads k"
  "inv_threads (k_mlfqs_update g_mlfqs k) = inv_threads k"
  "inv_threads (k_aging_update g_aging k) = inv_threads k"
  "inv_threads (k_sema_update g_sema k) = inv_threads k"
  "inv_threads (k_holder_update g_holder k) = inv_threads k"
  "inv_threads (k_cond_update g_cond k) = inv_threads k"
  "inv_threads (k_junk_update g_junk k) = inv_threads k"
  "inv_threads (k_ticks_update g_ticks k) = inv_threads k"
  "inv_threads (k_block_list_update g_block_list k) = inv_threads k"
  "inv_threads (k_smallest_tick_update g_smallest_tick k) = inv_threads k"
  "inv_threads (k_timer_smallest_update g_timer_smallest k) = inv_threads k"
  by (simp_all add: inv_threads_def)

subsection \<open>The context switch\<close>

definition switch_to :: "ptr \<Rightarrow> kernel \<Rightarrow> kernel" where
  "switch_to nxt k = set_status nxt THREAD_RUNNING
     (k\<lparr>k_ready := (if k_ready k = [] then [] else tl (k_ready k)), k_cur := nxt, k_thread_ticks := 0\<rparr>)"

definition free_thread :: "ptr \<Rightarrow> kernel \<Rightarrow> kernel" where
  "free_thread t k = k\<lparr>k_threads := (k_threads k)(t := None), k_cont := (k_cont k)(t := [])\<rparr>"

lemma schedule_tail_Some:
  assumes "thread_schedule_tail p k = Some k'"
  shows "\<not> k_intr k \<and> k' = (let k1 = set_status (k_cur k) THREAD_RUNNING (k\<lparr>k_thread_ticks := 0\<rparr>) in
    if p \<noteq> THREAD_NULL \<and> p \<noteq> k_initial k \<and> status k1 p = Some THREAD_DYING then free_thread p k1 else k1)"
proof -
  define k1 where "k1 = (set_status (k_cur k) THREAD_RUNNING k)\<lparr>k_thread_ticks := 0\<rparr>"
  have k1: "k1 = set_status (k_cur k) THREAD_RUNNING (k\<lparr>k_thread_ticks := 0\<rparr>)"
    by (simp add: k1_def set_status_def upd_thread_def)
  have f: "k_initial k1 = k_initial k" "k_cur k1 = k_cur k" by (simp_all add: k1)
  have "thread_schedule_tail p k = (if k_intr k then None
      else if p \<noteq> THREAD_NULL \<and> p \<noteq> k_initial k \<and> map_option t_status (thread_at k1 p) = Some THREAD_DYING
      then (if p \<noteq> k_cur k then Some (free_thread p k1) else None) else Some k1)"
    unfolding thread_schedule_tail_def Let_def k1_def [symmetric] f free_thread_def by auto
  moreover have cond: "(p \<noteq> THREAD_NULL \<and> p \<noteq> k_initial k \<and> map_option t_status (thread_at k1 p) = Some THREAD_DYING)
      = (p \<noteq> THREAD_NULL \<and> p \<noteq> k_initial k \<and> status k1 p = Some THREAD_DYING)"
    by (cases "p = THREAD_NULL") (simp_all add: thread_at_def status_def)
  ultimately show ?thesis
    using assms unfolding k1 [symmetric] Let_def cond by (auto split: if_splits)
qed

lemma schedule_Some:
  assumes "schedule k = Some k'"
  shows "\<exists>nxt. nxt = (if k_ready k = [] then k_idle k else hd (k_ready k)) \<and> \<not> k_intr k \<and> is_thread k nxt
    \<and> status k (k_cur k) \<noteq> None \<and> status k (k_cur k) \<noteq> Some THREAD_RUNNING \<and> k_cur k \<noteq> THREAD_NULL
    \<and> k' = (if k_cur k \<noteq> nxt \<and> k_cur k \<noteq> k_initial k \<and> status k (k_cur k) = Some THREAD_DYING
        then free_thread (k_cur k) (switch_to nxt k) else switch_to nxt k)"
proof -
  let ?nxt = "if k_ready k = [] then k_idle k else hd (k_ready k)"
  let ?k1 = "k\<lparr>k_ready := (if k_ready k = [] then [] else tl (k_ready k))\<rparr>"
  have n: "next_thread_to_run k = (?k1, ?nxt)"
    by (cases "k_ready k") (simp_all add: next_thread_to_run_def)
  define n where "n = ?nxt"
  define k1 where "k1 = ?k1"
  have k1: "k_intr k1 = k_intr k" "thread_at k1 = thread_at k" "is_thread k1 = is_thread k"
    by (simp_all add: k1_def)
  have "schedule k = do { ASSERT (\<not> k_intr k); th \<leftarrow> thread_at k (k_cur k); ASSERT (t_status th \<noteq> THREAD_RUNNING);
      ASSERT (is_thread k n); thread_schedule_tail (if k_cur k \<noteq> n then k_cur k else THREAD_NULL) (k1\<lparr>k_cur := n\<rparr>) }"
    unfolding schedule_def Let_def n [folded n_def k1_def] prod.case k1 ..
  with assms obtain th where a: "\<not> k_intr k" "thread_at k (k_cur k) = Some th" "t_status th \<noteq> THREAD_RUNNING"
      "is_thread k n"
    and t: "thread_schedule_tail (if k_cur k \<noteq> n then k_cur k else THREAD_NULL) (k1\<lparr>k_cur := n\<rparr>) = Some k'"
    by (auto simp: bind_Some_iff split: if_splits)
  from a(2) have c: "k_cur k \<noteq> THREAD_NULL" "status k (k_cur k) = Some (t_status th)"
    by (auto simp: thread_at_def status_def split: if_splits)
  have sw: "set_status n THREAD_RUNNING (k1\<lparr>k_cur := n, k_thread_ticks := 0\<rparr>) = switch_to n k"
    by (simp add: switch_to_def k1_def)
  have "k' = (if k_cur k \<noteq> n \<and> k_cur k \<noteq> k_initial k \<and> status k (k_cur k) = Some THREAD_DYING
        then free_thread (k_cur k) (switch_to n k) else switch_to n k)"
  proof (cases "k_cur k = n")
    case True
    with schedule_tail_Some [OF t] sw show ?thesis by (simp add: Let_def)
  next
    case False
    then have "status (switch_to n k) (k_cur k) = status k (k_cur k)" by (simp add: switch_to_def status_set_status)
    with False schedule_tail_Some [OF t] sw c show ?thesis by (simp add: Let_def k1_def)
  qed
  with a c show ?thesis unfolding n_def by auto
qed

lemma is_thread_status: "is_thread k t \<Longrightarrow> t \<noteq> THREAD_NULL \<and> status k t \<noteq> None"
  by (auto simp: is_thread_def thread_at_def status_def split: option.splits if_splits)

lemma switch_to_fields [simp]:
  "k_cur (switch_to t k) = t" "k_ready (switch_to t k) = (if k_ready k = [] then [] else tl (k_ready k))"
  "k_all (switch_to t k) = k_all k" "k_idle (switch_to t k) = k_idle k" "k_initial (switch_to t k) = k_initial k"
  "k_cont (switch_to t k) = k_cont k" "k_intr (switch_to t k) = k_intr k" "k_ext (switch_to t k) = k_ext k"
  "k_sema (switch_to t k) = k_sema k" "k_holder (switch_to t k) = k_holder k" "k_cond (switch_to t k) = k_cond k"
  "k_block_list (switch_to t k) = k_block_list k" "k_mlfqs (switch_to t k) = k_mlfqs k"
  "k_aging (switch_to t k) = k_aging k" "k_ticks (switch_to t k) = k_ticks k"
  "k_smallest_tick (switch_to t k) = k_smallest_tick k"
  by (simp_all add: switch_to_def)

lemma free_thread_fields [simp]:
  "k_cur (free_thread t k) = k_cur k" "k_ready (free_thread t k) = k_ready k"
  "k_all (free_thread t k) = k_all k" "k_idle (free_thread t k) = k_idle k" "k_initial (free_thread t k) = k_initial k"
  "k_cont (free_thread t k) = (k_cont k)(t := [])" "k_intr (free_thread t k) = k_intr k" "k_ext (free_thread t k) = k_ext k"
  "k_sema (free_thread t k) = k_sema k" "k_holder (free_thread t k) = k_holder k" "k_cond (free_thread t k) = k_cond k"
  "k_block_list (free_thread t k) = k_block_list k" "k_mlfqs (free_thread t k) = k_mlfqs k"
  "k_aging (free_thread t k) = k_aging k" "k_ticks (free_thread t k) = k_ticks k"
  "k_smallest_tick (free_thread t k) = k_smallest_tick k"
  by (simp_all add: free_thread_def)

lemma status_switch_to:
  "status (switch_to t k) = (\<lambda>u. if u = t \<and> status k t \<noteq> None then Some THREAD_RUNNING else status k u)"
  by (rule ext) (simp add: switch_to_def status_set_status)

lemma status_free_thread: "status (free_thread t k) = (status k)(t := None)"
  by (auto simp: status_def free_thread_def fun_eq_iff)

lemma waiters_same: "k_sema k' = k_sema k \<Longrightarrow> waiters k' = waiters k"
  by (auto simp: waiters_def fun_eq_iff)

lemma pending_same: "k_cont k' = k_cont k \<Longrightarrow> pending k' = pending k"
  by (auto simp: pending_def fun_eq_iff)

lemma inv_threads_set_status: "inv_threads k \<Longrightarrow> inv_threads (set_status t s k)"
  by (auto simp: inv_threads_def set_status_def upd_thread_def split: if_splits)

lemma kinv_switch:
  assumes i: "kinv None k" and n: "n = (if k_ready k = [] then k_idle k else hd (k_ready k))"
    and d: "status k (k_cur k) = Some THREAD_DYING \<Longrightarrow> k_cur k = k_initial k"
  shows "kinv (Some n) (switch_to n k)"
proof -
  have st: "status k n \<noteq> None" "status k n \<noteq> Some THREAD_DYING"
    using i n by (cases "k_ready k"; force simp: kinv_def kinv_defs)+
  have nw: "\<forall>s. n \<notin> set (waiters k s)" "n \<notin> set (k_block_list k)"
    using i n by (cases "k_ready k"; force simp: kinv_def inv_ready_def inv_wait_def)+
  have w: "waiters (switch_to n k) = waiters k" and p: "pending (switch_to n k) = pending k"
    by (intro waiters_same pending_same; simp)+
  have np: "n \<notin> set (pending k u)" for u
    using i n by (cases "k_ready k"; force simp: kinv_def inv_ready_def inv_pend_def)
  note s = status_switch_to
  have "inv_threads (switch_to n k)"
    using i by (auto simp: kinv_def switch_to_def intro: inv_threads_set_status)
  moreover have "inv_run (Some n) (switch_to n k)"
    using i st d by (auto simp: inv_run_def kinv_def s)
  moreover have "inv_ready (switch_to n k)"
    using i st n by (cases "k_ready k") (auto simp: kinv_def inv_ready_def s split: if_splits)
  moreover have "inv_wait (switch_to n k)"
    using i nw by (auto simp: kinv_def inv_wait_def s w split: if_splits)
  moreover have "inv_all (switch_to n k)"
    using i st by (auto simp: kinv_def inv_all_def s split: if_splits)
  moreover have "inv_idle (switch_to n k)" using i by (simp add: kinv_def inv_idle_def)
  moreover have "inv_pend (switch_to n k)"
    using i np by (auto simp: kinv_def inv_pend_def s w p split: if_splits)
  ultimately show ?thesis by (simp add: kinv_def)
qed

lemma kinv_cong:
  assumes "kinv r k" "status k' = status k" "inv_threads k'" "k_ready k' = k_ready k" "waiters k' = waiters k"
    "k_block_list k' = k_block_list k" "k_all k' = k_all k" "k_idle k' = k_idle k" "k_initial k' = k_initial k"
    "k_cur k' = k_cur k" "pending k' = pending k"
  shows "kinv r k'"
  using assms(1,3) unfolding kinv_def inv_run_def inv_ready_def inv_wait_def inv_all_def inv_idle_def inv_pend_def
    assms(2,4-) by (elim conjE) (intro conjI; assumption)

lemma kinv_queues:
  assumes "kinv r k" "status k' = status k" "inv_threads k'" "k_ready k' = k_ready k"
    "k_all k' = k_all k" "k_idle k' = k_idle k" "k_initial k' = k_initial k" "k_cur k' = k_cur k"
    "inv_wait k'" "inv_pend k'"
  shows "kinv r k'"
  using assms(1,3,9,10) unfolding kinv_def inv_run_def inv_ready_def inv_all_def inv_idle_def
    assms(2,4-8) by (elim conjE) (intro conjI; assumption)

lemma kinv_free:
  assumes i: "kinv None k" and d: "status k (k_cur k) = Some THREAD_DYING"
  shows "kinv None (free_thread (k_cur k) k)"
proof -
  let ?k = "free_thread (k_cur k) k"
  have w: "waiters ?k = waiters k" by (rule waiters_same) simp
  have p: "pending ?k = (pending k)(k_cur k := [])" by (auto simp: pending_def fun_eq_iff)
  have "inv_threads ?k" using i by (auto simp: kinv_def inv_threads_def free_thread_def)
  moreover have "inv_run None ?k" using i by (auto simp: kinv_def inv_run_def status_free_thread)
  moreover have "inv_ready ?k" using i d by (fastforce simp: kinv_def inv_ready_def status_free_thread)
  moreover have "inv_wait ?k" using i d by (fastforce simp: kinv_def inv_wait_def status_free_thread w)
  moreover have "inv_all ?k" using i d by (auto simp: kinv_def inv_all_def status_free_thread)
  moreover have "inv_idle ?k" using i by (simp add: kinv_def inv_idle_def)
  moreover have "inv_pend ?k" using i d by (fastforce simp: kinv_def inv_pend_def status_free_thread w p)
  ultimately show ?thesis by (simp add: kinv_def)
qed

lemma free_switch_commute:
  "t \<noteq> n \<Longrightarrow> free_thread t (switch_to n k) = switch_to n (free_thread t k)"
  by (simp add: free_thread_def switch_to_def set_status_def upd_thread_def fun_upd_twist)

lemma schedule_kinv:
  assumes i: "kinv None k" and s: "schedule k = Some k'"
  shows "kinv (Some (k_cur k')) k'"
proof -
  define n where "n = (if k_ready k = [] then k_idle k else hd (k_ready k))"
  from schedule_Some [OF s] have k': "k' = (if k_cur k \<noteq> n \<and> k_cur k \<noteq> k_initial k \<and> status k (k_cur k) = Some THREAD_DYING
        then free_thread (k_cur k) (switch_to n k) else switch_to n k)" by (simp add: n_def)
  show ?thesis
  proof (cases "k_cur k \<noteq> n \<and> k_cur k \<noteq> k_initial k \<and> status k (k_cur k) = Some THREAD_DYING")
    case True
    let ?f = "free_thread (k_cur k) k"
    have "kinv (Some n) (switch_to n ?f)"
      using kinv_free [OF i] True by (intro kinv_switch) (auto simp: n_def status_free_thread)
    with True k' show ?thesis by (simp add: free_switch_commute)
  next
    case False
    have "n \<in> set (k_all k)"
      using i by (cases "k_ready k"; force simp: n_def kinv_def kinv_defs)
    then have "status k n \<noteq> Some THREAD_DYING" using i by (auto simp: kinv_def inv_all_def)
    then have "kinv (Some n) (switch_to n k)"
      using False by (intro kinv_switch [OF i n_def]) auto
    with k' show ?thesis unfolding if_not_P [OF False] by simp
  qed
qed

subsection \<open>Changes between two switches\<close>

lemma pending_push: "pending (push cs k) = (pending k)(k_cur k := concat (map creates cs) @ pending k (k_cur k))"
  by (auto simp: pending_def fun_eq_iff)

lemma status_push [simp]: "status (push cs k) = status k"
  by (simp add: push_def)

lemma inv_threads_push [simp]: "inv_threads (push cs k) = inv_threads k"
  by (simp add: push_def)

lemma status_intr_disable [simp]: "status (intr_disable k) = status k"
  by (simp add: intr_disable_def)

lemma kinv_push:
  assumes "kinv r k" "concat (map creates cs) = []"
  shows "kinv r (push cs k)"
  by (rule kinv_cong [OF assms(1)])
     (use assms in \<open>auto simp: pending_push waiters_def fun_eq_iff kinv_def\<close>)

lemma kinv_intr_disable:
  assumes "kinv r k"
  shows "kinv r (intr_disable k)"
  by (rule kinv_cong [OF assms])
     (use assms in \<open>auto simp: pending_def waiters_def fun_eq_iff kinv_def intr_disable_def\<close>)

lemma kinv_upd_thread:
  assumes "kinv r k" "\<And>th. t_status (f th) = t_status th \<and> t_magic (f th) = t_magic th"
  shows "kinv r (upd_thread t f k)"
proof (rule kinv_cong [OF assms(1)])
  show "status (upd_thread t f k) = status k" using assms(2) by simp
  show "inv_threads (upd_thread t f k)"
    using assms by (auto simp: kinv_def inv_threads_def upd_thread_def split: if_splits)
qed (auto simp: pending_def waiters_def fun_eq_iff)

lemma kinv_running: "kinv (Some t) k \<Longrightarrow> status k t = Some THREAD_RUNNING"
  by (simp add: kinv_def inv_run_def)

lemma kinv_ready:
  assumes i: "kinv r k" and t: "status k t = Some THREAD_BLOCKED" "t \<noteq> k_idle k" "t \<notin> set (k_block_list k)"
    "\<And>s. t \<notin> set (waiters k s)" "\<And>u. t \<notin> set (pending k u)"
  shows "kinv r (set_status t THREAD_READY (k\<lparr>k_ready := insert_ordered lt t (k_ready k)\<rparr>))" (is "kinv r ?k")
proof -
  have s: "status ?k = (status k)(t := Some THREAD_READY)" using t(1) by (auto simp: status_set_status)
  have w: "waiters ?k = waiters k" and p: "pending ?k = pending k" by (intro waiters_same pending_same; simp)+
  have nr: "t \<notin> set (k_ready k)" using i t(1) by (auto simp: kinv_def inv_ready_def)
  have rt: "r \<noteq> Some t" using kinv_running [of t k] i t(1) by auto
  have "inv_threads ?k" using i by (auto simp: kinv_def intro: inv_threads_set_status)
  moreover have "inv_run r ?k" using i t(1) rt unfolding kinv_def inv_run_def s by auto
  moreover have "inv_ready ?k" using i t(1,2) nr unfolding kinv_def inv_ready_def s by auto
  moreover have "inv_wait ?k" using i t unfolding kinv_def inv_wait_def s w by auto
  moreover have "inv_all ?k" using i t(1) unfolding kinv_def inv_all_def s by auto
  moreover have "inv_idle ?k" using i by (simp add: kinv_def inv_idle_def)
  moreover have "inv_pend ?k" using i t unfolding kinv_def inv_pend_def s w p by auto
  ultimately show ?thesis by (simp add: kinv_def)
qed

lemma kinv_cur:
  assumes "kinv (Some (k_cur k)) k"
  shows "status k (k_cur k) = Some THREAD_RUNNING" "k_cur k \<notin> set (k_ready k)" "k_cur k \<notin> set (k_block_list k)"
    "k_cur k \<notin> set (waiters k s)" "k_cur k \<notin> set (pending k u)"
proof -
  show r: "status k (k_cur k) = Some THREAD_RUNNING" using assms by (auto simp: kinv_def inv_run_def)
  then show "k_cur k \<notin> set (k_ready k)" "k_cur k \<notin> set (k_block_list k)"
    "k_cur k \<notin> set (waiters k s)" "k_cur k \<notin> set (pending k u)"
    using assms by (auto simp: kinv_def inv_ready_def inv_wait_def inv_pend_def)
qed

text \<open>The running thread gives up the processor: it goes to the ready list, to the waiters of a
  semaphore or to the sleepers, or it is the idle thread, which is in no list, or it ends.\<close>

lemma kinv_leave:
  assumes i: "kinv (Some (k_cur k)) k" and st: "st \<in> {THREAD_READY, THREAD_BLOCKED}"
    and rd: "k_cur k \<noteq> k_idle k \<and> st = THREAD_READY \<Longrightarrow> rd = insert_ordered lt (k_cur k) (k_ready k)"
      "\<not> (k_cur k \<noteq> k_idle k \<and> st = THREAD_READY) \<Longrightarrow> rd = k_ready k"
  shows "kinv None (set_status (k_cur k) st (k\<lparr>k_ready := rd\<rparr>))" (is "kinv None ?k")
proof -
  note c = kinv_cur [OF i]
  have s: "status ?k = (status k)(k_cur k := Some st)" using c(1) by (auto simp: status_set_status)
  have w: "waiters ?k = waiters k" and p: "pending ?k = pending k" by (intro waiters_same pending_same; simp)+
  have "inv_threads ?k" using i by (auto simp: kinv_def intro: inv_threads_set_status)
  moreover have "inv_run None ?k" using i st unfolding kinv_def inv_run_def s by auto
  moreover have "inv_ready ?k"
    using i c(1,2) st rd unfolding kinv_def inv_ready_def s
    by (cases "k_cur k \<noteq> k_idle k \<and> st = THREAD_READY") auto
  moreover have "inv_wait ?k" using i c(3,4) unfolding kinv_def inv_wait_def s w by auto
  moreover have "inv_all ?k" using i c(1) st unfolding kinv_def inv_all_def s by auto
  moreover have "inv_idle ?k" using i by (simp add: kinv_def inv_idle_def)
  moreover have "inv_pend ?k" using i c(5) unfolding kinv_def inv_pend_def s w p by auto
  ultimately show ?thesis by (simp add: kinv_def)
qed

end
