(* ===== verification/KernelSteps.thy ===== *)
theory KernelSteps imports ThreadLists begin

section \<open>What every step of the kernel keeps\<close>

text \<open>
  Every routine of the scheduler, of the synchronisation primitives and of the timer keeps the
  invariant \<open>kinv\<close>, and so does every step of the kernel.
\<close>

subsection \<open>Queues\<close>

lemma inv_wait_mono:
  assumes "inv_wait k" "status k' = status k" "k_idle k' = k_idle k"
    and bl: "distinct (k_block_list k')" "set (k_block_list k') \<subseteq> set (k_block_list k)"
    and ws: "\<And>s. distinct (waiters k' s)" "\<And>s. set (waiters k' s) \<subseteq> set (waiters k s)"
  shows "inv_wait k'"
proof -
  have "set (k_block_list k') \<inter> set (waiters k' s) = {}" for s
  proof -
    have "set (k_block_list k) \<inter> set (waiters k s) = {}" using assms(1) by (simp add: inv_wait_def)
    then show ?thesis using ws(2) [of s] bl(2) by auto
  qed
  moreover have "set (waiters k' s) \<inter> set (waiters k' u) = {}" if "s \<noteq> u" for s u
  proof -
    have "set (waiters k s) \<inter> set (waiters k u) = {}" using assms(1) that by (simp add: inv_wait_def)
    then show ?thesis using ws(2) [of s] ws(2) [of u] by auto
  qed
  moreover have "\<forall>t \<in> set (k_block_list k'). status k t = Some THREAD_BLOCKED \<and> t \<noteq> k_idle k"
    using assms(1) bl(2) by (auto simp: inv_wait_def)
  moreover have "\<forall>t \<in> set (waiters k' s). status k t = Some THREAD_BLOCKED \<and> t \<noteq> k_idle k" for s
  proof -
    have "\<forall>t \<in> set (waiters k s). status k t = Some THREAD_BLOCKED \<and> t \<noteq> k_idle k"
      using assms(1) by (simp add: inv_wait_def)
    then show ?thesis using ws(2) [of s] by auto
  qed
  ultimately show ?thesis using bl(1) ws(1) by (simp add: inv_wait_def assms(2,3))
qed

lemma kinv_wait_shrink:
  assumes i: "kinv r k" and w: "distinct (sema_waiters (f (k_sema k s)))"
    "set (sema_waiters (f (k_sema k s))) \<subseteq> set (waiters k s)"
  shows "kinv r (upd_sema s f k)" (is "kinv r ?k")
proof -
  have st: "status ?k = status k" by (simp add: upd_sema_def)
  have p: "pending ?k = pending k" by (rule pending_same) simp
  have ws: "waiters ?k = (waiters k)(s := sema_waiters (f (k_sema k s)))" by (auto simp: waiters_def fun_eq_iff)
  have t': "inv_threads ?k" using i by (simp add: kinv_def upd_sema_def)
  have "inv_wait ?k"
  proof (rule inv_wait_mono)
    show "inv_wait k" using i by (simp add: kinv_def)
  qed (use i w in \<open>auto simp: st ws kinv_def inv_wait_def subset_iff\<close>)
  moreover have "inv_pend ?k" using i w unfolding kinv_def inv_pend_def st ws p by (auto simp: subset_iff)
  ultimately show ?thesis by (intro kinv_queues [OF i]) (use t' in \<open>simp_all add: upd_sema_def\<close>)
qed

lemma kinv_wait_add:
  assumes i: "kinv r k" and w: "sema_waiters (f (k_sema k s)) = insert_ordered lt t (waiters k s)"
    and t: "status k t = Some THREAD_BLOCKED" "t \<noteq> k_idle k" "t \<notin> set (k_block_list k)"
      "\<And>s. t \<notin> set (waiters k s)" "\<And>u. t \<notin> set (pending k u)"
  shows "kinv r (upd_sema s f k)" (is "kinv r ?k")
proof -
  have st: "status ?k = status k" by (simp add: upd_sema_def)
  have p: "pending ?k = pending k" by (rule pending_same) simp
  have ws: "waiters ?k = (waiters k)(s := insert_ordered lt t (waiters k s))"
    using w by (auto simp: waiters_def fun_eq_iff)
  have t': "inv_threads ?k" using i by (simp add: kinv_def upd_sema_def)
  have "inv_wait ?k" using i t unfolding kinv_def inv_wait_def st ws by auto
  moreover have "inv_pend ?k" using i t unfolding kinv_def inv_pend_def st ws p by auto
  ultimately show ?thesis by (intro kinv_queues [OF i]) (use t' in \<open>simp_all add: upd_sema_def\<close>)
qed

lemma kinv_sleep_shrink:
  assumes i: "kinv r k" and w: "distinct xs" "set xs \<subseteq> set (k_block_list k)"
  shows "kinv r (k\<lparr>k_block_list := xs\<rparr>)" (is "kinv r ?k")
proof -
  have p: "pending ?k = pending k" and ws: "waiters ?k = waiters k" by (intro waiters_same pending_same; simp)+
  have t': "inv_threads ?k" using i by (simp add: kinv_def)
  have "inv_wait ?k" using i w unfolding kinv_def inv_wait_def ws by (auto simp: subset_iff)
  moreover have "inv_pend ?k" using i w unfolding kinv_def inv_pend_def ws p by (auto simp: subset_iff)
  ultimately show ?thesis by (intro kinv_queues [OF i]) (use t' in simp_all)
qed

lemma kinv_sleep_add:
  assumes i: "kinv r k" and t: "status k t = Some THREAD_BLOCKED" "t \<noteq> k_idle k" "t \<notin> set (k_block_list k)"
      "\<And>s. t \<notin> set (waiters k s)" "\<And>u. t \<notin> set (pending k u)"
  shows "kinv r (k\<lparr>k_block_list := k_block_list k @ [t]\<rparr>)" (is "kinv r ?k")
proof -
  have p: "pending ?k = pending k" and ws: "waiters ?k = waiters k" by (intro waiters_same pending_same; simp)+
  have t': "inv_threads ?k" using i by (simp add: kinv_def)
  have "inv_wait ?k" using i t unfolding kinv_def inv_wait_def ws by auto
  moreover have "inv_pend ?k" using i t unfolding kinv_def inv_pend_def ws p by auto
  ultimately show ?thesis by (intro kinv_queues [OF i]) (use t' in simp_all)
qed

subsection \<open>The scheduler's routines\<close>

lemma thread_current_Some:
  "thread_current k = Some t \<Longrightarrow> t = k_cur k"
  by (auto simp: thread_current_def bind_Some_iff split: if_splits)

lemma thread_yield_kinv:
  assumes i: "kinv (Some (k_cur k)) k" and y: "thread_yield k = Some k'"
  shows "kinv (Some (k_cur k')) k'"
proof -
  define k1 where "k1 = intr_disable (push [C_intr_set (k_intr k)] k)"
  have k1: "kinv (Some (k_cur k1)) k1" "k_cur k1 = k_cur k" "k_idle k1 = k_idle k"
    using i by (simp_all add: k1_def kinv_push kinv_intr_disable)
  define k2 where "k2 = (if k_cur k \<noteq> k_idle k1
    then k1\<lparr>k_ready := insert_ordered (is_prior_larger k1) (k_cur k) (k_ready k1)\<rparr> else k1)"
  from y have c: "thread_current k = Some (k_cur k)"
    by (auto simp: thread_yield_def bind_Some_iff dest: thread_current_Some)
  have "schedule (set_status (k_cur k) THREAD_READY k2) = Some k'"
    using y unfolding thread_yield_def c Let_def k1_def [symmetric] Option.bind.simps k2_def [symmetric]
    by (simp split: if_splits)
  moreover have "k2 = k1\<lparr>k_ready := (if k_cur k \<noteq> k_idle k
      then insert_ordered (is_prior_larger k1) (k_cur k) (k_ready k1) else k_ready k1)\<rparr>"
    by (simp add: k2_def k1)
  then have "kinv None (set_status (k_cur k) THREAD_READY k2)"
    using kinv_leave [OF k1(1), of THREAD_READY _ "is_prior_larger k1"] k1(2,3) by simp
  ultimately show ?thesis using schedule_kinv by blast
qed

lemma thread_unblock_Some:
  "thread_unblock t k = Some k' \<Longrightarrow> status k t = Some THREAD_BLOCKED
    \<and> k' = set_status t THREAD_READY (k\<lparr>k_ready := insert_ordered (is_prior_larger k) t (k_ready k)\<rparr>)"
  by (auto simp: thread_unblock_def bind_Some_iff thread_at_def status_def split: if_splits)

lemma thread_block_Some:
  "thread_block k = Some k' \<Longrightarrow> schedule (set_status (k_cur k) THREAD_BLOCKED k) = Some k'"
  by (auto simp: thread_block_def bind_Some_iff dest: thread_current_Some split: if_splits)

lemma thread_exit_kinv:
  assumes i: "kinv (Some (k_cur k)) k" and c: "k_cur k \<noteq> k_idle k" and e: "thread_exit k = Some k'"
  shows "kinv (Some (k_cur k')) k'"
proof -
  let ?k = "set_status (k_cur k) THREAD_DYING ((intr_disable k)\<lparr>k_all := remove1 (k_cur k) (k_all k)\<rparr>)"
  have "schedule ?k = Some k'"
    using e by (auto simp: thread_exit_def bind_Some_iff Let_def dest!: thread_current_Some split: if_splits)
  moreover have "kinv None ?k"
  proof -
    note cu = kinv_cur [OF i]
    have s: "status ?k = (status k)(k_cur k := Some THREAD_DYING)" using cu(1) by (auto simp: status_set_status)
    have w: "waiters ?k = waiters k" and p: "pending ?k = pending k" by (intro waiters_same pending_same; simp)+
    have "inv_threads ?k" using i by (auto simp: kinv_def intro!: inv_threads_set_status) (simp add: intr_disable_def)
    moreover have "inv_run None ?k" using i unfolding kinv_def inv_run_def s by auto
    moreover have "inv_ready ?k" using i cu(1,2) unfolding kinv_def inv_ready_def s by auto
    moreover have "inv_wait ?k" using i cu(3,4) unfolding kinv_def inv_wait_def s w by auto
    moreover have "inv_all ?k" using i cu(1) unfolding kinv_def inv_all_def s by auto
    moreover have "inv_idle ?k" using i c by (auto simp: kinv_def inv_idle_def)
    moreover have "inv_pend ?k" using i cu(5) unfolding kinv_def inv_pend_def s w p by auto
    ultimately show ?thesis by (simp add: kinv_def)
  qed
  ultimately show ?thesis by (metis schedule_kinv)
qed

subsection \<open>Semaphores\<close>

lemma status_upd_sema [simp]: "status (upd_sema s f k) = status k"
  by (simp add: upd_sema_def)

lemma kinv_leave_blocked: "kinv (Some (k_cur k)) k \<Longrightarrow> kinv None (set_status (k_cur k) THREAD_BLOCKED k)"
  using kinv_leave [of k THREAD_BLOCKED "k_ready k"] by simp

lemma kinv_block:
  assumes i: "kinv (Some (k_cur k)) k" and s: "schedule (set_status (k_cur k) THREAD_BLOCKED k) = Some k'"
  shows "kinv (Some (k_cur k')) k'"
  using kinv_leave_blocked [OF i] schedule_kinv [OF _ s] by simp

lemma sema_loop_kinv:
  assumes i: "kinv (Some (k_cur k)) k" and c: "k_cur k \<noteq> k_idle k" and s: "sema_loop s k = Some k'"
  shows "kinv (Some (k_cur k')) k'"
proof (cases "sema_value (k_sema k s) = 0")
  case True
  let ?f = "\<lambda>se. se\<lparr>sema_waiters := insert_ordered (is_prior_larger k) (k_cur k) (sema_waiters se)\<rparr>"
  let ?k1 = "set_status (k_cur k) THREAD_BLOCKED (push [C_sema_loop s] k)"
  from s True have "thread_block (push [C_sema_loop s] (upd_sema s ?f k)) = Some k'"
    by (auto simp: sema_loop_def bind_Some_iff Let_def dest!: thread_current_Some split: if_splits)
  then have "schedule (set_status (k_cur k) THREAD_BLOCKED (push [C_sema_loop s] (upd_sema s ?f k))) = Some k'"
    using thread_block_Some by fastforce
  moreover have "set_status (k_cur k) THREAD_BLOCKED (push [C_sema_loop s] (upd_sema s ?f k)) = upd_sema s ?f ?k1"
    by (simp add: set_status_def upd_thread_def push_def upd_sema_def)
  moreover have "kinv None (upd_sema s ?f ?k1)"
  proof (rule kinv_wait_add)
    have p: "kinv (Some (k_cur (push [C_sema_loop s] k))) (push [C_sema_loop s] k)" using i by (simp add: kinv_push)
    from kinv_leave_blocked [OF p] show "kinv None ?k1" by simp
    have w: "waiters ?k1 = waiters k" by (rule waiters_same) simp
    have pd: "pending ?k1 = pending k" by (simp add: pending_def fun_eq_iff)
    note cu = kinv_cur [OF i]
    show "sema_waiters (?f (k_sema ?k1 s)) = insert_ordered (is_prior_larger k) (k_cur k) (waiters ?k1 s)"
      by (simp add: w) (simp add: waiters_def)
    show "status ?k1 (k_cur k) = Some THREAD_BLOCKED" using cu(1) by (simp add: status_set_status)
    show "k_cur k \<noteq> k_idle ?k1" using c by simp
    show "k_cur k \<notin> set (k_block_list ?k1)" "\<And>s. k_cur k \<notin> set (waiters ?k1 s)" "\<And>u. k_cur k \<notin> set (pending ?k1 u)"
      using cu(3-5) by (simp_all add: w pd)
  qed
  ultimately show ?thesis using schedule_kinv by metis
next
  case False
  with s have "k' = upd_sema s (\<lambda>se. se\<lparr>sema_value := sema_value se - 1\<rparr>) k" by (simp add: sema_loop_def)
  moreover have "kinv (Some (k_cur k)) (upd_sema s (\<lambda>se. se\<lparr>sema_value := sema_value se - 1\<rparr>) k)"
    using i by (intro kinv_wait_shrink) (auto simp: waiters_def kinv_def inv_wait_def)
  ultimately show ?thesis by simp
qed

lemma sema_down_kinv:
  assumes "kinv (Some (k_cur k)) k" "k_cur k \<noteq> k_idle k" "sema_down s k = Some k'"
  shows "kinv (Some (k_cur k')) k'"
  using assms sema_loop_kinv [of "intr_disable (push [C_intr_set (k_intr k)] k)" s k']
  by (auto simp: sema_down_def kinv_push kinv_intr_disable split: if_splits)

lemma kinv_value:
  assumes "kinv r k" "\<And>se. sema_waiters (f se) = sema_waiters se"
  shows "kinv r (upd_sema s f k)"
  using assms by (intro kinv_wait_shrink) (auto simp: waiters_def kinv_def inv_wait_def)

lemma sema_try_down_kinv:
  assumes "kinv r k" "sema_try_down s k = Some (k', b)"
  shows "kinv r k' \<and> k_cur k' = k_cur k"
  using assms by (auto simp: sema_try_down_def kinv_value split: if_splits)

lemma kinv_not_null: "kinv r k \<Longrightarrow> status k THREAD_NULL = None"
  by (cases "k_threads k THREAD_NULL") (auto simp: kinv_def inv_threads_def status_def)

lemma waiting_blocked:
  "kinv r k \<Longrightarrow> t \<in> set (waiters k s) \<Longrightarrow> status k t = Some THREAD_BLOCKED"
  "kinv r k \<Longrightarrow> t \<in> set (k_block_list k) \<Longrightarrow> status k t = Some THREAD_BLOCKED"
  by (simp_all add: kinv_def inv_wait_def)

lemma waiters_not_null: "kinv r k \<Longrightarrow> THREAD_NULL \<notin> set (waiters k s)"
  using waiting_blocked(1) [of r k THREAD_NULL s] kinv_not_null [of r k] by auto

lemma ready_not_null: "kinv r k \<Longrightarrow> THREAD_NULL \<notin> set (k_ready k)"
  using kinv_not_null [of r k] by (auto simp: kinv_def inv_ready_def)

lemma sema_wake_Some:
  assumes i: "kinv r k" and s: "sema_wake s k = Some k'"
  shows "\<exists>t rest k1. mset (t # rest) = mset (waiters k s)
    \<and> (\<forall>u \<in> set rest. priority_of k u \<le> priority_of k t)
    \<and> k1 = upd_sema s (\<lambda>se. se\<lparr>sema_waiters := rest\<rparr>) k \<and> thread_unblock t k1 = Some k'"
proof -
  have "THREAD_NULL \<notin> set (waiters k s)" by (rule waiters_not_null [OF i])
  moreover from s obtain ws where ws: "merge_sort (is_prior_larger k) (waiters k s) = Some ws"
    "(case ws of [] \<Rightarrow> None | max_th # rest \<Rightarrow>
        thread_unblock max_th (upd_sema s (\<lambda>se. se\<lparr>sema_waiters := rest\<rparr>) k)) = Some k'"
    unfolding sema_wake_def waiters_def bind_Some_iff by blast
  ultimately have srt: "mset ws = mset (waiters k s)" "sorted_wrt (\<lambda>x y. priority_of k x \<ge> priority_of k y) ws"
    using sorted_threads by blast+
  show ?thesis
  proof (cases ws)
    case (Cons t rest)
    with srt ws(2) show ?thesis by (intro exI [of _ t] exI [of _ rest] exI) auto
  qed (use ws(2) in simp)
qed

lemma sema_wake_kinv:
  assumes i: "kinv r k" and s: "sema_wake s k = Some k'"
  shows "kinv r k' \<and> k_cur k' = k_cur k"
proof -
  from sema_wake_Some [OF assms] obtain t rest k1 where m: "mset (t # rest) = mset (waiters k s)"
    and k1: "k1 = upd_sema s (\<lambda>se. se\<lparr>sema_waiters := rest\<rparr>) k" and u: "thread_unblock t k1 = Some k'" by blast
  from m have st: "set (waiters k s) = insert t (set rest)" by (metis list.simps(15) mset_eq_setD)
  have d: "distinct (t # rest)"
    using i m by (metis (no_types, lifting) kinv_def inv_wait_def mset_eq_imp_distinct_iff)
  have k1i: "kinv r k1" unfolding k1 using i d st by (intro kinv_wait_shrink) auto
  have w1: "waiters k1 = (waiters k)(s := rest)" by (auto simp: k1 waiters_def fun_eq_iff)
  have tw: "t \<in> set (waiters k s)" using st by simp
  have "kinv r (set_status t THREAD_READY (k1\<lparr>k_ready := insert_ordered (is_prior_larger k1) t (k_ready k1)\<rparr>))"
  proof (rule kinv_ready [OF k1i])
    show "status k1 t = Some THREAD_BLOCKED" "t \<noteq> k_idle k1" "t \<notin> set (k_block_list k1)"
      using i tw by (auto simp: kinv_def inv_wait_def k1)
    show "t \<notin> set (waiters k1 v)" for v
    proof (cases "v = s")
      case True
      then show ?thesis using d by (simp add: w1)
    next
      case False
      then have "set (waiters k s) \<inter> set (waiters k v) = {}" using i by (simp add: kinv_def inv_wait_def)
      then show ?thesis using tw False by (auto simp: w1)
    qed
    have "pending k1 = pending k" by (rule pending_same) (simp add: k1)
    then show "t \<notin> set (pending k1 v)" for v using i tw by (auto simp: kinv_def inv_pend_def)
  qed
  then show ?thesis using thread_unblock_Some [OF u] by (simp add: k1)
qed

lemma sema_up_kinv:
  assumes i: "kinv (Some (k_cur k)) k" and s: "sema_up s k = Some k'"
  shows "kinv (Some (k_cur k')) k'"
proof -
  define k1 where "k1 = intr_disable (push [C_intr_set (k_intr k)] k)"
  have k1: "kinv (Some (k_cur k1)) k1" using i by (simp add: k1_def kinv_push kinv_intr_disable)
  from s obtain k2 where k2: "(if sema_waiters (k_sema k1 s) \<noteq> [] then sema_wake s k1 else Some k1) = Some k2"
    and y: "thread_yield (upd_sema s (\<lambda>se. se\<lparr>sema_value := (sema_value se + 1) mod 2 ^ 32\<rparr>) k2) = Some k'"
    unfolding sema_up_def Let_def k1_def [symmetric] by (auto simp: bind_Some_iff split: if_splits)
  from k2 have "kinv (Some (k_cur k2)) k2"
    using k1 sema_wake_kinv [of "Some (k_cur k1)" k1 s k2] by (auto split: if_splits)
  then show ?thesis using thread_yield_kinv [OF _ y] kinv_value by simp
qed

subsection \<open>Locks and condition variables\<close>

lemma kinv_holder:
  assumes "kinv r k"
  shows "kinv r (k\<lparr>k_holder := h\<rparr>)"
  by (rule kinv_cong [OF assms]) (use assms in \<open>auto simp: pending_def waiters_def fun_eq_iff kinv_def\<close>)

lemma kinv_cond:
  assumes "kinv r k"
  shows "kinv r (k\<lparr>k_cond := h\<rparr>)"
  by (rule kinv_cong [OF assms]) (use assms in \<open>auto simp: pending_def waiters_def fun_eq_iff kinv_def\<close>)

lemma kinv_ret:
  assumes "kinv r k"
  shows "kinv r (set_ret v k)"
  by (rule kinv_cong [OF assms])
     (use assms in \<open>auto simp: pending_def waiters_def fun_eq_iff kinv_def set_ret_def\<close>)

lemma k_cur_set_ret [simp]: "k_cur (set_ret v k) = k_cur k"
  by (simp add: set_ret_def)

lemma set_holder_kinv: "kinv r k \<Longrightarrow> set_holder l k = Some k' \<Longrightarrow> kinv r k' \<and> k_cur k' = k_cur k"
  by (auto simp: set_holder_def bind_Some_iff kinv_holder)

lemma lock_acquire_kinv:
  assumes "kinv (Some (k_cur k)) k" "k_cur k \<noteq> k_idle k" "lock_acquire l k = Some k'"
  shows "kinv (Some (k_cur k')) k'"
  using assms sema_down_kinv [of "push [C_set_holder l] k" "lock_sema l" k']
  by (auto simp: lock_acquire_def bind_Some_iff kinv_push split: if_splits)

lemma lock_try_acquire_kinv:
  assumes "kinv r k" "lock_try_acquire l k = Some (k', b)"
  shows "kinv r k' \<and> k_cur k' = k_cur k"
proof -
  from assms(2) obtain k1 s where s: "sema_try_down (lock_sema l) k = Some (k1, s)"
    and r: "(if s then do { k \<leftarrow> set_holder l k1; Some (k, True) } else Some (k1, False)) = Some (k', b)"
    unfolding lock_try_acquire_def ASSERT_bind by (auto simp: bind_Some_iff split: if_splits)
  from sema_try_down_kinv [OF assms(1) s] have k1: "kinv r k1" "k_cur k1 = k_cur k" by simp_all
  show ?thesis
  proof (cases s)
    case True
    with r have "set_holder l k1 = Some k'" by (auto simp: bind_Some_iff)
    with set_holder_kinv [OF k1(1) this] k1(2) show ?thesis by simp
  qed (use r k1 in simp)
qed

lemma lock_release_kinv:
  assumes "kinv (Some (k_cur k)) k" "lock_release l k = Some k'"
  shows "kinv (Some (k_cur k')) k'"
  using assms sema_up_kinv [of "k\<lparr>k_holder := (k_holder k)(l := THREAD_NULL)\<rparr>" "lock_sema l" k']
  by (auto simp: lock_release_def bind_Some_iff kinv_holder split: if_splits)

lemma cond_wait_kinv:
  assumes "kinv (Some (k_cur k)) k" "cond_wait c l w k = Some k'"
  shows "kinv (Some (k_cur k')) k'"
proof -
  from assms(2) obtain k1 where k1: "sema_init (waiter_sema w) 0 k = Some k1"
    and r: "lock_release l (push [C_sema_down (waiter_sema w), C_lock_acquire l]
      (k1\<lparr>k_cond := (k_cond k1)(c := insert_ordered (junk_larger k1) w (k_cond k1 c))\<rparr>)) = Some k'"
    by (auto simp: cond_wait_def bind_Some_iff Let_def split: if_splits)
  from k1 assms(1) have "kinv (Some (k_cur k1)) k1"
    by (auto simp: sema_init_def split: if_splits intro!: kinv_wait_shrink)
  then show ?thesis using lock_release_kinv [OF _ r] by (simp add: kinv_push kinv_cond)
qed

lemma cond_signal_kinv:
  assumes "kinv (Some (k_cur k)) k" "cond_signal c l k = Some k'"
  shows "kinv (Some (k_cur k')) k'"
proof (cases "k_cond k c = []")
  case True
  with assms show ?thesis by (auto simp: cond_signal_def bind_Some_iff split: if_splits)
next
  case False
  with assms(2) obtain ws where "(case ws of [] \<Rightarrow> None
      | w # rest \<Rightarrow> sema_up (waiter_sema w) (k\<lparr>k_cond := (k_cond k)(c := rest)\<rparr>)) = Some k'"
    unfolding cond_signal_def by (auto simp: bind_Some_iff split: if_splits)
  then obtain w rest where "sema_up (waiter_sema w) (k\<lparr>k_cond := (k_cond k)(c := rest)\<rparr>) = Some k'"
    by (cases ws) auto
  from sema_up_kinv [OF _ this] show ?thesis using assms(1) by (simp add: kinv_cond)
qed

lemma cond_broadcast_kinv:
  assumes "kinv (Some (k_cur k)) k" "cond_broadcast c l k = Some k'"
  shows "kinv (Some (k_cur k')) k'"
  using assms cond_signal_kinv [of "push [C_cond_broadcast c l] k" c l k']
  by (auto simp: cond_broadcast_def kinv_push split: if_splits)

subsection \<open>Creating threads\<close>

lemma init_thread_kinv:
  assumes i: "kinv r k" and f: "k_threads k t = None" "t \<noteq> THREAD_NULL" and s: "init_thread t n p k = Some k'"
  shows "kinv r k' \<and> k_cur k' = k_cur k \<and> k_idle k' = k_idle k \<and> k_cont k' = k_cont k
    \<and> status k' = (status k)(t := Some THREAD_BLOCKED) \<and> k_block_list k' = k_block_list k
    \<and> k_sema k' = k_sema k \<and> k_holder k' = k_holder k \<and> k_cond k' = k_cond k \<and> k_ext k' = k_ext k
    \<and> k_intr k' = k_intr k \<and> k_ready k' = k_ready k"
proof -
  define th where "th = \<lparr>t_tid = 0, t_status = THREAD_BLOCKED,
       t_name = take 15 n, t_stack = t + THREAD_PGSIZE, t_priority = p, t_next_fd = 2,
       t_wake = 0, t_nice = 0, t_recent_cpu = 0, t_stack_pages = 0,
       t_current_stack = THREAD_PGSIZE, t_magic = THREAD_MAGIC\<rparr>"
  have th: "t_status th = THREAD_BLOCKED" "t_magic th = THREAD_MAGIC" by (simp_all add: th_def)
  from s have "do { running \<leftarrow> k_threads (k\<lparr>k_threads := (k_threads k)(t \<mapsto> th), k_all := k_all k @ [t]\<rparr>) (k_cur k);
      Some (upd_thread t (\<lambda>th. th\<lparr>t_recent_cpu := t_recent_cpu running, t_nice := t_nice running\<rparr>)
        (k\<lparr>k_threads := (k_threads k)(t \<mapsto> th), k_all := k_all k @ [t]\<rparr>)) } = Some k'"
    unfolding init_thread_def Let_def th_def [symmetric] ASSERT_bind by (simp split: if_split_asm)
  then obtain running :: thread where k0: "k' = upd_thread t
      (\<lambda>th. th\<lparr>t_recent_cpu := t_recent_cpu running, t_nice := t_nice running\<rparr>)
      (k\<lparr>k_threads := (k_threads k)(t \<mapsto> th), k_all := k_all k @ [t]\<rparr>)"
    unfolding bind_Some_iff option.inject by blast
  define g :: "thread \<Rightarrow> thread" where "g = (\<lambda>th. th\<lparr>t_recent_cpu := t_recent_cpu running, t_nice := t_nice running\<rparr>)"
  have g: "t_status (g th) = t_status th \<and> t_magic (g th) = t_magic th" for th by (simp add: g_def)
  note k' = k0 [folded g_def]
  let ?k = "k\<lparr>k_threads := (k_threads k)(t \<mapsto> th), k_all := k_all k @ [t]\<rparr>"
  have st: "status ?k = (status k)(t := Some THREAD_BLOCKED)" using th(1) by (auto simp: status_def fun_eq_iff)
  have n: "status k t = None" using f(1) by (simp add: status_def)
  have w: "waiters ?k = waiters k" and pd: "pending ?k = pending k" by (intro waiters_same pending_same; simp)+
  have r: "r \<noteq> Some t" using kinv_running [of t k] i n by auto
  have nq: "t \<notin> set (k_ready k)" "t \<notin> set (k_block_list k)" "\<And>s. t \<notin> set (waiters k s)"
    "\<And>u. t \<notin> set (pending k u)" "t \<notin> set (k_all k)" "t \<noteq> k_idle k"
    using i n by (auto simp: kinv_def inv_ready_def inv_wait_def inv_pend_def inv_all_def inv_idle_def)
  have "inv_threads ?k" using i f(2) th(2) by (auto simp: kinv_def inv_threads_def)
  moreover have "inv_run r ?k" using i r n unfolding kinv_def inv_run_def st by auto
  moreover have "inv_ready ?k" using i nq unfolding kinv_def inv_ready_def st by auto
  moreover have "inv_wait ?k" using i nq unfolding kinv_def inv_wait_def st w by auto
  moreover have "inv_all ?k" using i nq n unfolding kinv_def inv_all_def st by auto
  moreover have "inv_idle ?k" using i by (simp add: kinv_def inv_idle_def)
  moreover have "inv_pend ?k" using i nq unfolding kinv_def inv_pend_def st w pd by auto
  ultimately have "kinv r ?k" by (simp add: kinv_def)
  then have "kinv r k'" unfolding k' by (rule kinv_upd_thread [OF _ g])
  moreover have "status k' = status ?k" unfolding k' using g by (intro status_upd_thread) simp
  ultimately show ?thesis unfolding st by (simp add: k')
qed

lemma kinv_pending_drop:
  assumes i: "kinv r k" and p: "\<And>u. \<exists>ts. pending k u = ts @ pending k' u"
    and same: "status k' = status k" "inv_threads k'" "k_ready k' = k_ready k" "waiters k' = waiters k"
      "k_block_list k' = k_block_list k" "k_all k' = k_all k" "k_idle k' = k_idle k" "k_initial k' = k_initial k"
      "k_cur k' = k_cur k"
  shows "kinv r k'"
proof -
  have d: "distinct (pending k' u)" for u
    using i p [of u] by (metis distinct_append inv_pend_def kinv_def)
  have s: "set (pending k' u) \<subseteq> set (pending k u)" for u
    using p [of u] by auto
  have "inv_wait k'" using i same by (simp add: kinv_def inv_wait_def)
  moreover have "set (pending k' u) \<inter> set (pending k' v) = {}" if "u \<noteq> v" for u v
  proof -
    have "set (pending k u) \<inter> set (pending k v) = {}" using i that by (simp add: kinv_def inv_pend_def)
    then show ?thesis using s [of u] s [of v] by auto
  qed
  moreover have "\<forall>t \<in> set (pending k' u). status k t = Some THREAD_BLOCKED \<and> t \<noteq> k_idle k
          \<and> t \<notin> set (k_block_list k) \<and> (\<forall>s. t \<notin> set (waiters k s))" for u
  proof -
    have "\<forall>t \<in> set (pending k u). status k t = Some THREAD_BLOCKED \<and> t \<noteq> k_idle k
          \<and> t \<notin> set (k_block_list k) \<and> (\<forall>s. t \<notin> set (waiters k s))"
      using i by (simp add: kinv_def inv_pend_def)
    then show ?thesis using s [of u] by blast
  qed
  ultimately have "inv_wait k'" "inv_pend k'" using d by (simp_all add: inv_pend_def same)
  then show ?thesis by (intro kinv_queues [OF i]) (simp_all add: same)
qed

text \<open>A thread that \<open>thread_create\<close> has made and not started is nobody else's.\<close>

lemma kinv_push_create:
  assumes i: "kinv r k" and t: "status k t = Some THREAD_BLOCKED" "t \<noteq> k_idle k" "t \<notin> set (k_block_list k)"
      "\<And>s. t \<notin> set (waiters k s)" "\<And>u. t \<notin> set (pending k u)"
    and cs: "concat (map creates cs) = [t]"
  shows "kinv r (push cs k)"
proof -
  have p: "pending (push cs k) = (pending k)(k_cur k := t # pending k (k_cur k))"
    by (simp add: pending_push cs)
  have w: "waiters (push cs k) = waiters k" by (rule waiters_same) simp
  have t': "inv_threads (push cs k)" "inv_wait (push cs k)" using i by (simp_all add: kinv_def inv_wait_def w)
  have "inv_pend (push cs k)" using i t unfolding kinv_def inv_pend_def p w by auto
  then show ?thesis by (intro kinv_queues [OF i]) (use t' in simp_all)
qed

lemma pending_cont: "pending (k\<lparr>k_cont := f\<rparr>) u = concat (map creates (f u))"
  by (simp add: pending_def)

lemma kinv_pop:
  assumes "kinv r k" "k_cont k (k_cur k) = c # cs"
  shows "kinv r (pop k)"
proof (rule kinv_pending_drop [OF assms(1)])
  fix u
  have "pending k u = (if u = k_cur k then creates c else []) @ pending (pop k) u"
    using assms(2) by (simp add: pop_def pending_def)
  then show "\<exists>ts. pending k u = ts @ pending (pop k) u" by blast
qed (use assms(1) in \<open>auto simp: pop_def kinv_def waiters_def fun_eq_iff\<close>)

lemma pop_fields [simp]:
  "k_cur (pop k) = k_cur k" "k_idle (pop k) = k_idle k" "k_threads (pop k) = k_threads k"
  "status (pop k) = status k" "k_block_list (pop k) = k_block_list k" "waiters (pop k) = waiters k"
  "k_ext (pop k) = k_ext k" "k_sema (pop k) = k_sema k" "k_holder (pop k) = k_holder k"
  "k_cond (pop k) = k_cond k" "k_ready (pop k) = k_ready k" "k_all (pop k) = k_all k" "k_intr (pop k) = k_intr k"
  "k_cont (pop k) = (k_cont k)(k_cur k := tl (k_cont k (k_cur k)))" "k_initial (pop k) = k_initial k"
  "k_mlfqs (pop k) = k_mlfqs k" "k_aging (pop k) = k_aging k"
  by (simp_all add: pop_def waiters_def fun_eq_iff)

text \<open>The thread of a piece of code that is about to run.\<close>

lemma popped_thread:
  assumes i: "kinv r k" and c: "k_cont k (k_cur k) = c # cs" "creates c = [t]"
  shows "status (pop k) t = Some THREAD_BLOCKED" "t \<noteq> k_idle (pop k)" "t \<notin> set (k_block_list (pop k))"
    "t \<notin> set (waiters (pop k) s)" "t \<notin> set (pending (pop k) u)"
proof -
  have p: "pending k (k_cur k) = t # pending (pop k) (k_cur k)" "u \<noteq> k_cur k \<Longrightarrow> pending (pop k) u = pending k u"
    using c by (simp_all add: pending_def)
  then have t: "t \<in> set (pending k (k_cur k))" by simp
  then show "status (pop k) t = Some THREAD_BLOCKED" "t \<noteq> k_idle (pop k)" "t \<notin> set (k_block_list (pop k))"
    "t \<notin> set (waiters (pop k) s)"
    using i by (simp_all add: kinv_def inv_pend_def)
  show "t \<notin> set (pending (pop k) u)"
  proof (cases "u = k_cur k")
    case True
    have "distinct (pending k (k_cur k))" using i by (simp add: kinv_def inv_pend_def)
    with True p(1) show ?thesis by simp
  next
    case False
    then have "set (pending k u) \<inter> set (pending k (k_cur k)) = {}" using i by (simp add: kinv_def inv_pend_def)
    with t p(2) [OF False] show ?thesis by auto
  qed
qed

lemma take_tid_kinv:
  assumes i: "kinv (Some (k_cur k)) k" and c: "k_cont k (k_cur k) = C_take_tid t [] # cs"
  shows "kinv (Some (k_cur (take_tid t [] (pop k)))) (take_tid t [] (pop k))"
proof -
  let ?k = "(pop k)\<lparr>k_next_tid := int32 (k_next_tid (pop k) + 1)\<rparr>"
  have p: "pending ?k = pending (pop k)" and w: "waiters ?k = waiters (pop k)" by (intro pending_same waiters_same; simp)+
  have kp: "kinv (Some (k_cur k)) (pop k)" using kinv_pop [OF i c] .
  then have k: "kinv (Some (k_cur k)) ?k"
    by (rule kinv_cong) (use kp in \<open>simp_all add: p w kinv_def\<close>)
  have cr: "creates (C_take_tid t []) = [t]" by simp
  note pt = popped_thread [OF i c cr]
  have "kinv (Some (k_cur k)) (push [C_lock_release tid_lock, C_created t (k_next_tid (pop k)) []] ?k)"
    by (rule kinv_push_create [OF k]) (use pt in \<open>simp_all add: p w\<close>)
  then show ?thesis by (simp add: take_tid_def)
qed

lemma thread_create_kinv:
  assumes i: "kinv r k" and f: "palloc_ok (C_create page n p b) k" and s: "thread_create page n p b k = Some k'"
  shows "kinv r k' \<and> k_cur k' = k_cur k"
proof (cases page)
  case None
  with s i show ?thesis by (auto simp: thread_create_def kinv_ret)
next
  case (Some t)
  with s obtain k1 where k1: "init_thread t n p k = Some k1"
    and k': "k' = push [C_lock_acquire tid_lock, C_take_tid t b] k1"
    by (auto simp: thread_create_def bind_Some_iff)
  have f': "k_threads k t = None" "t \<noteq> THREAD_NULL" using f Some by simp_all
  from init_thread_kinv [OF i f' k1] have i1: "kinv r k1" "k_cur k1 = k_cur k" "k_cont k1 = k_cont k"
    "k_idle k1 = k_idle k" "status k1 = (status k)(t := Some THREAD_BLOCKED)"
    "k_block_list k1 = k_block_list k" "k_sema k1 = k_sema k" by simp_all
  have n: "status k t = None" using f' by (simp add: status_def)
  have w: "k_block_list k1 = k_block_list k" "waiters k1 = waiters k" using i1(6) waiters_same [OF i1(7)] by simp_all
  have p: "pending k1 = pending k" by (rule pending_same) (rule i1(3))
  have "kinv r (push [C_lock_acquire tid_lock, C_take_tid t b] k1)"
  proof (rule kinv_push_create [OF i1(1)])
    show "status k1 t = Some THREAD_BLOCKED" by (simp add: i1(5))
    show "t \<noteq> k_idle k1" "t \<notin> set (k_block_list k1)" "\<And>s. t \<notin> set (waiters k1 s)" "\<And>u. t \<notin> set (pending k1 u)"
      using i n by (auto simp: kinv_def inv_idle_def inv_all_def inv_wait_def inv_pend_def i1(4) w p)
  qed simp
  then show ?thesis by (simp add: k' i1(2))
qed

lemma alloc_frame_Some:
  "alloc_frame t n k = Some k' \<longleftrightarrow>
     is_thread k t \<and> n mod 4 = 0 \<and> k' = upd_thread t (\<lambda>th. th\<lparr>t_stack := t_stack th - n\<rparr>) k"
  by (auto simp: alloc_frame_def split: if_splits)

lemma upd_thread_upd_thread: "upd_thread t f (upd_thread t g k) = upd_thread t (f \<circ> g) k"
  by (simp add: upd_thread_def option.map_comp)

lemma thread_created_kinv:
  assumes i: "kinv (Some (k_cur k)) k" and c: "k_cont k (k_cur k) = C_created t tid [] # cs"
    and s: "thread_created t tid [] (pop k) = Some k'"
  shows "kinv (Some (k_cur k')) k'"
proof -
  let ?k0 = "pop k"
  have cr: "creates (C_created t tid []) = [t]" by simp
  note pt = popped_thread [OF i c cr]
  define g where "g = (\<lambda>th. th\<lparr>t_tid := tid, t_stack := t_stack th - 12 - 4 - 28\<rparr> :: thread)"
  define k1 where "k1 = (upd_thread t g ?k0)\<lparr>k_cont := (k_cont ?k0)(t := [C_intr_set True])\<rparr>"
  from s obtain ka kb kc k2 p where a: "alloc_frame t 12 (upd_thread t (\<lambda>th. th\<lparr>t_tid := tid\<rparr>) ?k0) = Some ka"
      "alloc_frame t 4 ka = Some kb" "alloc_frame t 28 kb = Some kc"
    and k2: "thread_unblock t (kc\<lparr>k_cont := (k_cont kc)(t := [C_intr_set True])\<rparr>) = Some k2"
    and y: "(if p < priority_of (set_ret tid k2) t then thread_yield (set_ret tid k2) else Some (set_ret tid k2)) = Some k'"
    unfolding thread_created_def Let_def bind_Some_iff by blast
  have "kc = upd_thread t g ?k0"
    using a by (simp add: alloc_frame_Some upd_thread_upd_thread comp_def g_def)
  then have "kc\<lparr>k_cont := (k_cont kc)(t := [C_intr_set True])\<rparr> = k1" by (simp add: k1_def)
  note k2 = k2 [unfolded this]
  have g: "kinv (Some (k_cur k)) (upd_thread t g ?k0)"
    using kinv_pop [OF i c] by (rule kinv_upd_thread) (simp add: g_def)
  have st: "status k1 = status ?k0" by (simp add: k1_def g_def)
  have w: "waiters k1 = waiters ?k0" by (rule waiters_same) (simp add: k1_def)
  have pd: "pending k1 u = (if u = t then [] else pending ?k0 u)" for u
    by (simp add: k1_def pending_def)
  have "kinv (Some (k_cur k)) k1"
  proof (rule kinv_pending_drop [OF g])
    show "\<exists>ts. pending (upd_thread t g ?k0) u = ts @ pending k1 u" for u
      by (simp add: pd) (simp add: pending_def)
  qed (use g in \<open>auto simp: k1_def kinv_def waiters_def fun_eq_iff\<close>)
  then have "kinv (Some (k_cur k)) (set_status t THREAD_READY (k1\<lparr>k_ready := insert_ordered (is_prior_larger k1) t (k_ready k1)\<rparr>))"
    by (rule kinv_ready) (use pt in \<open>simp_all add: st w pd k1_def [THEN arg_cong [where f = k_idle]]
        k1_def [THEN arg_cong [where f = k_block_list]]\<close>)
  then have i2: "kinv (Some (k_cur k)) k2" "k_cur k2 = k_cur k"
    using thread_unblock_Some [OF k2] by (simp_all add: k1_def)
  from kinv_ret [OF i2(1), of tid] y show ?thesis
    using thread_yield_kinv [of "set_ret tid k2" k'] i2(2) by (auto split: if_splits)
qed

subsection \<open>Priorities and the timer\<close>

lemma thread_set_priority_kinv:
  assumes i: "kinv (Some (k_cur k)) k" and s: "thread_set_priority p k = Some k'"
  shows "kinv (Some (k_cur k')) k'"
proof (cases "k_mlfqs k")
  case False
  let ?k = "upd_thread (k_cur k) (\<lambda>th. th\<lparr>t_priority := p\<rparr>) k"
  have k: "kinv (Some (k_cur ?k)) ?k" using i by (simp add: kinv_upd_thread)
  from s False have "thread_yield (intr_disable (push [C_intr_set (k_intr k)] ?k)) = Some k' \<or> k' = ?k"
    by (auto simp: thread_set_priority_def bind_Some_iff Let_def split: if_splits dest!: thread_current_Some)
  then show ?thesis
  proof
    assume "thread_yield (intr_disable (push [C_intr_set (k_intr k)] ?k)) = Some k'"
    from thread_yield_kinv [OF _ this] k show ?thesis by (simp add: kinv_push kinv_intr_disable)
  qed (use k in simp)
qed (use s i in \<open>simp add: thread_set_priority_def\<close>)

lemma thread_set_nice_kinv:
  "kinv r k \<Longrightarrow> thread_set_nice n k = Some k' \<Longrightarrow> kinv r k' \<and> k_cur k' = k_cur k"
  by (auto simp: thread_set_nice_def bind_Some_iff kinv_upd_thread)

lemma timer_sleep_kinv:
  assumes i: "kinv (Some (k_cur k)) k" and c: "k_cur k \<noteq> k_idle k" and s: "timer_sleep n k = Some k'"
  shows "kinv (Some (k_cur k')) k'"
proof (cases "n \<le> 0")
  case True
  with s i show ?thesis by (auto simp: timer_sleep_def split: if_splits)
next
  case False
  let ?w = "int64 (n + timer_ticks k)"
  define k1 where "k1 = update_smallest_tick ?w (upd_thread (k_cur k) (\<lambda>th. th\<lparr>t_wake := ?w\<rparr>) (intr_disable k))"
  have f: "k_cur k1 = k_cur k" "k_idle k1 = k_idle k" by (simp_all add: k1_def update_smallest_tick_def)
  have "kinv (Some (k_cur k)) (upd_thread (k_cur k) (\<lambda>th. th\<lparr>t_wake := ?w\<rparr>) (intr_disable k))" (is "kinv _ ?k0")
    using i by (simp add: kinv_upd_thread kinv_intr_disable)
  then have k1: "kinv (Some (k_cur k1)) k1"
    unfolding f by (rule kinv_cong) (use \<open>kinv _ ?k0\<close> in \<open>auto simp: k1_def update_smallest_tick_def pending_def waiters_def fun_eq_iff kinv_def\<close>)
  let ?k2 = "push [C_intr_set (k_intr k)] k1"
  have k2: "kinv (Some (k_cur ?k2)) ?k2" using k1 by (simp add: kinv_push)
  from s False have "thread_block (push [C_intr_set (k_intr k)] (k1\<lparr>k_block_list := k_block_list k1 @ [k_cur k]\<rparr>)) = Some k'"
    unfolding timer_sleep_def Let_def k1_def by (auto simp: bind_Some_iff split: if_splits dest!: thread_current_Some)
  from thread_block_Some [OF this]
  have "schedule (set_status (k_cur k) THREAD_BLOCKED (push [C_intr_set (k_intr k)] (k1\<lparr>k_block_list := k_block_list k1 @ [k_cur k]\<rparr>))) = Some k'"
    by (simp add: f)
  moreover have "set_status (k_cur k) THREAD_BLOCKED (push [C_intr_set (k_intr k)] (k1\<lparr>k_block_list := k_block_list k1 @ [k_cur k]\<rparr>))
      = (set_status (k_cur k) THREAD_BLOCKED ?k2)\<lparr>k_block_list := k_block_list (set_status (k_cur k) THREAD_BLOCKED ?k2) @ [k_cur k]\<rparr>"
    by (simp add: set_status_def upd_thread_def push_def)
  moreover have "kinv None \<dots>"
  proof (rule kinv_sleep_add)
    show "kinv None (set_status (k_cur k) THREAD_BLOCKED ?k2)" using kinv_leave_blocked [OF k2] f by simp
    have w: "waiters (set_status (k_cur k) THREAD_BLOCKED ?k2) = waiters ?k2"
      and p: "pending (set_status (k_cur k) THREAD_BLOCKED ?k2) = pending ?k2"
      by (intro waiters_same pending_same; simp)+
    note cu = kinv_cur [OF k2]
    show "status (set_status (k_cur k) THREAD_BLOCKED ?k2) (k_cur k) = Some THREAD_BLOCKED"
      using cu(1) f by (simp add: status_set_status)
    show "k_cur k \<noteq> k_idle (set_status (k_cur k) THREAD_BLOCKED ?k2)"
      "k_cur k \<notin> set (k_block_list (set_status (k_cur k) THREAD_BLOCKED ?k2))"
      "\<And>s. k_cur k \<notin> set (waiters (set_status (k_cur k) THREAD_BLOCKED ?k2) s)"
      "\<And>u. k_cur k \<notin> set (pending (set_status (k_cur k) THREAD_BLOCKED ?k2) u)"
      using cu(3-5) f c by (simp_all add: w p)
  qed
  ultimately show ?thesis using schedule_kinv by metis
qed

lemma wake_loop_kinv:
  "kinv r k \<Longrightarrow> distinct ts \<Longrightarrow> set ts \<subseteq> set (k_block_list k) \<Longrightarrow> wake_loop ts k = Some k'
    \<Longrightarrow> kinv r k' \<and> k_cur k' = k_cur k"
proof (induction ts k rule: wake_loop.induct)
  case (2 t ts k)
  from 2(6) obtain th where th: "thread_at k t = Some th" by (auto simp: bind_Some_iff)
  have tb: "t \<in> set (k_block_list k)" using 2(5) by simp
  show ?case
  proof (cases "t_wake th \<le> timer_ticks k")
    case True
    let ?k1 = "k\<lparr>k_block_list := remove1 t (k_block_list k)\<rparr>"
    from 2(6) th True obtain k2 where u: "thread_unblock t ?k1 = Some k2" and w: "wake_loop ts k2 = Some k'"
      by (auto simp: bind_Some_iff)
    have d: "distinct (k_block_list k)" using 2(3) by (simp add: kinv_def inv_wait_def)
    have k1: "kinv r ?k1" using 2(3) d by (intro kinv_sleep_shrink) (auto dest: notin_set_remove1)
    have ws: "waiters ?k1 = waiters k" and pd: "pending ?k1 = pending k" by (intro waiters_same pending_same; simp)+
    have "kinv r (set_status t THREAD_READY (?k1\<lparr>k_ready := insert_ordered (is_prior_larger ?k1) t (k_ready ?k1)\<rparr>))"
    proof (rule kinv_ready [OF k1])
      show "status ?k1 t = Some THREAD_BLOCKED" using waiting_blocked(2) [OF 2(3) tb] by simp
      show "t \<noteq> k_idle ?k1" using 2(3) tb by (auto simp: kinv_def inv_wait_def)
      show "t \<notin> set (k_block_list ?k1)" using d by simp
      show "t \<notin> set (waiters ?k1 s)" for s
      proof -
        have "set (k_block_list k) \<inter> set (waiters k s) = {}" using 2(3) by (simp add: kinv_def inv_wait_def)
        with tb ws show ?thesis by auto
      qed
      show "t \<notin> set (pending ?k1 u)" for u using 2(3) tb by (auto simp: kinv_def inv_pend_def pd)
    qed
    then have k2: "kinv r k2" "k_cur k2 = k_cur k" "k_block_list k2 = remove1 t (k_block_list k)"
      using thread_unblock_Some [OF u] by simp_all
    have "set ts \<subseteq> set (k_block_list k2)" using 2(4,5) d by (auto simp: k2(3))
    with 2(1) [OF th True u k2(1)] 2(4) w k2(2) show ?thesis by simp
  next
    case False
    let ?k1 = "update_smallest_tick (t_wake th) k"
    from 2(6) th False have w: "wake_loop ts ?k1 = Some k'" by simp
    have "kinv r ?k1"
      by (rule kinv_cong [OF 2(3)]) (use 2(3) in \<open>auto simp: update_smallest_tick_def pending_def waiters_def fun_eq_iff kinv_def\<close>)
    with 2(2) [OF th False] 2(4,5) w show ?thesis by (simp add: update_smallest_tick_def)
  qed
qed simp

lemma wake_thread_kinv:
  assumes "kinv r k" "wake_thread k = Some k'"
  shows "kinv r k' \<and> k_cur k' = k_cur k"
proof -
  let ?k = "k\<lparr>k_timer_smallest := INT64_MAX\<rparr>"
  have "kinv r ?k"
    by (rule kinv_cong [OF assms(1)]) (use assms in \<open>auto simp: pending_def waiters_def fun_eq_iff kinv_def\<close>)
  then show ?thesis
    using wake_loop_kinv [of r ?k "k_block_list k" k'] assms by (auto simp: wake_thread_def kinv_def inv_wait_def)
qed

text \<open>\<open>same_threads\<close>: only numbers of the scheduler and fields of threads other than their
  state have changed.\<close>

definition same_threads :: "kernel \<Rightarrow> kernel \<Rightarrow> bool" where
  "same_threads k k' = (status k' = status k \<and> (inv_threads k \<longrightarrow> inv_threads k') \<and> k_ready k' = k_ready k
     \<and> k_sema k' = k_sema k \<and> k_block_list k' = k_block_list k \<and> k_all k' = k_all k \<and> k_idle k' = k_idle k
     \<and> k_initial k' = k_initial k \<and> k_cur k' = k_cur k \<and> k_cont k' = k_cont k \<and> k_holder k' = k_holder k
     \<and> k_cond k' = k_cond k \<and> k_ext k' = k_ext k \<and> k_intr k' = k_intr k \<and> k_ticks k' = k_ticks k
     \<and> k_mlfqs k' = k_mlfqs k \<and> k_aging k' = k_aging k \<and> k_smallest_tick k' = k_smallest_tick k
     \<and> (\<forall>t. map_option t_wake (k_threads k' t) = map_option t_wake (k_threads k t)))"

lemma same_threads_refl [simp]: "same_threads k k"
  by (simp add: same_threads_def)

lemma same_threads_trans: "same_threads k k1 \<Longrightarrow> same_threads k1 k2 \<Longrightarrow> same_threads k k2"
  by (simp add: same_threads_def)

lemma same_threads_kinv:
  assumes "kinv r k" "same_threads k k'"
  shows "kinv r k'"
proof (rule kinv_cong [OF assms(1)])
  show "waiters k' = waiters k" using assms(2) by (intro waiters_same) (simp add: same_threads_def)
  show "pending k' = pending k" using assms(2) by (intro pending_same) (simp add: same_threads_def)
  show "inv_threads k'" using assms by (simp add: same_threads_def kinv_def)
qed (use assms(2) in \<open>simp_all add: same_threads_def\<close>)

lemma same_threads_upd:
  assumes "\<And>th. t_status (f th) = t_status th \<and> t_magic (f th) = t_magic th \<and> t_wake (f th) = t_wake th"
  shows "same_threads k (upd_thread t f k)"
proof -
  have "inv_threads k \<Longrightarrow> inv_threads (upd_thread t f k)"
    using assms by (auto simp: inv_threads_def upd_thread_def split: if_splits)
  moreover have "map_option t_wake (k_threads (upd_thread t f k) u) = map_option t_wake (k_threads k u)" for u
    using assms by (simp add: upd_thread_def option.map_comp comp_def)
  ultimately show ?thesis using assms by (simp add: same_threads_def)
qed

lemma same_threads_fold:
  "(\<And>t k. same_threads k (g t k)) \<Longrightarrow> same_threads k (fold g ts k)"
  by (induction ts arbitrary: k) (auto intro: same_threads_trans)

lemma renew_recent_cpu_loop_same: "renew_recent_cpu_loop ts k = Some k' \<Longrightarrow> same_threads k k'"
proof (induction ts k rule: renew_recent_cpu_loop.induct)
  case (2 t ts k)
  show ?case
  proof (cases "t = k_idle k")
    case True
    with 2 show ?thesis by simp
  next
    case False
    with 2(3) obtain th r where "thread_at k t = Some th" "next_recent_cpu (k_load_avg k) (t_recent_cpu th) (t_nice th) = Some r"
      and l: "renew_recent_cpu_loop ts (upd_thread t (\<lambda>th. th\<lparr>t_recent_cpu := r\<rparr>) k) = Some k'"
      by (auto simp: bind_Some_iff)
    with 2(1) [OF False this] show ?thesis
      using same_threads_trans [OF same_threads_upd [of "\<lambda>th. th\<lparr>t_recent_cpu := r\<rparr>" k t]] by simp
  qed
qed simp

lemma thread_tick_same: "thread_tick k = Some k' \<Longrightarrow> same_threads k k'"
proof -
  assume "thread_tick k = Some k'"
  then obtain t k1 where t: "tick_slice (tick_statistics t k) = Some k1"
    and r: "(if k_aging k1 then Some (thread_aging k1)
     else if k_mlfqs k1 then do {
       let k = upd_thread t (\<lambda>th. th\<lparr>t_recent_cpu := FAI (t_recent_cpu th) 1\<rparr>) k1;
       k \<leftarrow> (if k_ticks k smod TIMER_FREQ = 0 then do { k \<leftarrow> renew_load_avg k; renew_recent_cpu k } else Some k);
       Some (if k_ticks k smod 4 = 0 then renew_prior k else k) }
     else Some k1) = Some k'"
    unfolding thread_tick_def by (auto simp: bind_Some_iff)
  have s1: "same_threads k k1"
    using t by (auto simp: tick_slice_def tick_statistics_def Let_def intr_yield_on_return_def same_threads_def
        split: if_splits)
  have s2: "same_threads k (thread_aging k)" "same_threads k (renew_prior k)" for k
    unfolding thread_aging_def renew_prior_def by (intro same_threads_fold same_threads_upd; simp)+
  have s3: "same_threads k k''" if "renew_load_avg k = Some k''" for k k''
    using that by (auto simp: renew_load_avg_def bind_Some_iff Let_def same_threads_def)
  let ?k2 = "upd_thread t (\<lambda>th. th\<lparr>t_recent_cpu := FAI (t_recent_cpu th) 1\<rparr>) k1"
  have u: "same_threads k1 ?k2" by (rule same_threads_upd) simp
  show "same_threads k k'"
  proof (cases "k_aging k1 \<or> \<not> k_mlfqs k1")
    case True
    with r have "k' = thread_aging k1 \<or> k' = k1" by (auto split: if_splits)
    with s1 s2(1) same_threads_trans show ?thesis by blast
  next
    case False
    then have "do { k \<leftarrow> (if k_ticks ?k2 smod TIMER_FREQ = 0 then do { k \<leftarrow> renew_load_avg ?k2; renew_recent_cpu k } else Some ?k2);
        Some (if k_ticks k smod 4 = 0 then renew_prior k else k) } = Some k'"
      using r by (simp add: Let_def)
    then obtain k3 where k3: "(if k_ticks ?k2 smod TIMER_FREQ = 0 then do { k \<leftarrow> renew_load_avg ?k2; renew_recent_cpu k } else Some ?k2) = Some k3"
        "k' = (if k_ticks k3 smod 4 = 0 then renew_prior k3 else k3)"
      unfolding bind_Some_iff option.inject by blast
    from k3(1) have "same_threads ?k2 k3"
      by (auto simp: bind_Some_iff renew_recent_cpu_def split: if_splits
          intro: same_threads_trans dest!: s3 dest: renew_recent_cpu_loop_same)
    then have "same_threads k k3" using s1 u same_threads_trans by blast
    with k3(2) s2(2) same_threads_trans show ?thesis by auto
  qed
qed

lemma timer_interrupt_kinv:
  assumes "kinv r k" "timer_interrupt k = Some k'"
  shows "kinv r k' \<and> k_cur k' = k_cur k"
proof -
  let ?k = "k\<lparr>k_ticks := int64 (k_ticks k + 1)\<rparr>"
  have k: "kinv r ?k"
    by (rule kinv_cong [OF assms(1)]) (use assms in \<open>auto simp: pending_def waiters_def fun_eq_iff kinv_def\<close>)
  from assms(2) obtain k1 where t: "thread_tick ?k = Some k1"
    and w: "(if k_ticks k1 \<ge> get_next_awake k1 then wake_thread k1 else Some k1) = Some k'"
    by (auto simp: timer_interrupt_def Let_def bind_Some_iff)
  have "kinv r k1" "k_cur k1 = k_cur k"
    using same_threads_kinv [OF k thread_tick_same [OF t]] thread_tick_same [OF t]
    by (simp_all add: same_threads_def)
  with w show ?thesis using wake_thread_kinv [of r k1 k'] by (auto split: if_splits)
qed

lemma timer_intr_handler_kinv:
  assumes i: "kinv (Some (k_cur k)) k" and s: "timer_intr_handler k = Some k'"
  shows "kinv (Some (k_cur k')) k'"
proof -
  let ?k = "(intr_disable (push [C_intr_set True] k))\<lparr>k_ext := True, k_yield_on_return := False\<rparr>"
  have k0: "kinv (Some (k_cur k)) (intr_disable (push [C_intr_set True] k))"
    using i by (simp add: kinv_push kinv_intr_disable)
  have k: "kinv (Some (k_cur k)) ?k"
    by (rule kinv_cong [OF k0]) (use k0 in \<open>auto simp: pending_def waiters_def fun_eq_iff kinv_def\<close>)
  from s obtain k1 where t: "timer_interrupt ?k = Some k1"
    and r: "(if k_yield_on_return k1 then thread_yield (k1\<lparr>k_ext := False\<rparr>) else Some (k1\<lparr>k_ext := False\<rparr>)) = Some k'"
    unfolding timer_intr_handler_def Let_def by (auto simp: bind_Some_iff split: if_split_asm)
  from timer_interrupt_kinv [OF k t] have k1: "kinv (Some (k_cur k1)) k1" by simp
  have k2: "kinv (Some (k_cur k1)) (k1\<lparr>k_ext := False\<rparr>)"
    by (rule kinv_cong [OF k1]) (use k1 in \<open>auto simp: pending_def waiters_def fun_eq_iff kinv_def\<close>)
  with r show ?thesis using thread_yield_kinv [of "k1\<lparr>k_ext := False\<rparr>" k'] by (auto split: if_splits)
qed

end
