(* ===== verification/KernelLocks.thy ===== *)
theory KernelLocks imports KernelSteps begin

section \<open>Kernel stacks and mutual exclusion\<close>

text \<open>
  What the steps of the kernel do to the kernel stacks, to the values of the semaphores and to
  the holders of the locks, and the invariant from it that makes a lock exclusive: of the
  semaphore's value, the holder and the threads that have taken the semaphore and not yet
  written their name into \<open>holder\<close>, exactly one is there.
\<close>

subsection \<open>Effects\<close>

definition value_of :: "kernel \<Rightarrow> ptr \<Rightarrow> nat" where
  "value_of k s = sema_value (k_sema k s)"

text \<open>\<open>eff k k' cs f h d\<close>: the running thread of \<open>k\<close> has \<open>cs\<close> pushed on its stack, the other stacks
  are as they were; the semaphores' values are \<open>f\<close>, the holders \<open>h\<close>, the conditions' waiters \<open>d\<close>.\<close>

definition eff :: "kernel \<Rightarrow> kernel \<Rightarrow> code list \<Rightarrow> (ptr \<Rightarrow> nat) \<Rightarrow> (ptr \<Rightarrow> ptr) \<Rightarrow> (ptr \<Rightarrow> ptr list) \<Rightarrow> bool" where
  "eff k k' cs f h d = (k_cont k' = (k_cont k)(k_cur k := cs @ k_cont k (k_cur k)) \<and> value_of k' = f
     \<and> k_holder k' = h \<and> k_cond k' = d \<and> k_idle k' = k_idle k \<and> k_ext k' = k_ext k
     \<and> (\<forall>t. status k' t = None \<longrightarrow> status k t = None))"

lemma schedule_eff:
  assumes "schedule k = Some k'" "status k (k_cur k) \<noteq> Some THREAD_DYING"
  shows "eff k k' [] (value_of k) (k_holder k) (k_cond k) \<and> \<not> k_intr k'"
proof -
  from schedule_Some [OF assms(1)] assms(2) obtain n where n: "k' = switch_to n k" "\<not> k_intr k" by auto
  then show ?thesis by (auto simp: eff_def value_of_def fun_eq_iff status_switch_to)
qed

lemma thread_current_status: "thread_current k = Some t \<Longrightarrow> status k (k_cur k) = Some THREAD_RUNNING"
  by (auto simp: thread_current_def bind_Some_iff thread_at_def status_def split: if_splits)

lemma eff_from:
  assumes "eff j k' cs f h d" "k_cont j = (k_cont k)(k_cur k := ds @ k_cont k (k_cur k))" "k_cur j = k_cur k"
    "k_idle j = k_idle k" "k_ext j = k_ext k" "\<forall>t. status j t = None \<longrightarrow> status k t = None"
  shows "eff k k' (cs @ ds) f h d"
  using assms unfolding eff_def by auto

lemma value_of_simps [simp]:
  "value_of (push cs k) = value_of k" "value_of (intr_disable k) = value_of k" "value_of (pop k) = value_of k"
  "value_of (upd_sema s g k) = (value_of k)(s := sema_value (g (k_sema k s)))"
  "value_of (k\<lparr>k_holder := h\<rparr>) = value_of k" "value_of (k\<lparr>k_cond := d\<rparr>) = value_of k"
  "value_of (set_status t st k) = value_of k" "value_of (upd_thread t f k) = value_of k"
  "value_of (set_ret v k) = value_of k"
  by (simp_all add: value_of_def fun_eq_iff set_ret_def)

lemma thread_block_eff:
  assumes "thread_block k = Some k'"
  shows "eff k k' [] (value_of k) (k_holder k) (k_cond k) \<and> \<not> k_intr k'"
proof -
  let ?k = "set_status (k_cur k) THREAD_BLOCKED k"
  have "thread_current k \<noteq> None" using assms by (auto simp: thread_block_def bind_Some_iff split: if_splits)
  then have "status k (k_cur k) \<noteq> None" using thread_current_status by fastforce
  then have e: "eff ?k k' [] (value_of k) (k_holder k) (k_cond k) \<and> \<not> k_intr k'"
    using schedule_eff [OF thread_block_Some [OF assms]] by (simp add: status_set_status)
  then show ?thesis
    using eff_from [OF conjunct1 [OF e], of k "[]"] by (auto simp: status_set_status split: if_splits)
qed

lemma thread_yield_eff:
  assumes "thread_yield k = Some k'"
  shows "eff k k' [C_intr_set (k_intr k)] (value_of k) (k_holder k) (k_cond k) \<and> \<not> k_intr k'"
proof -
  have c: "thread_current k = Some (k_cur k)"
    using assms by (auto simp: thread_yield_def bind_Some_iff dest: thread_current_Some)
  define k1 where "k1 = intr_disable (push [C_intr_set (k_intr k)] k)"
  define k2 where "k2 = (if k_cur k \<noteq> k_idle k1
    then k1\<lparr>k_ready := insert_ordered (is_prior_larger k1) (k_cur k) (k_ready k1)\<rparr> else k1)"
  let ?k = "set_status (k_cur k) THREAD_READY k2"
  have s: "schedule ?k = Some k'"
    using assms unfolding thread_yield_def c Let_def k1_def [symmetric] Option.bind.simps k2_def [symmetric]
    by (simp split: if_splits)
  have f: "k_cur k2 = k_cur k" "k_cont k2 = (k_cont k)(k_cur k := C_intr_set (k_intr k) # k_cont k (k_cur k))"
    "value_of k2 = value_of k" "k_holder k2 = k_holder k" "k_cond k2 = k_cond k" "k_idle k2 = k_idle k" "k_ext k2 = k_ext k"
    "status k2 = status k"
    by (simp_all add: k2_def k1_def value_of_def fun_eq_iff)
  have "status k (k_cur k) \<noteq> None" using thread_current_status [OF c] by simp
  then have e: "eff ?k k' [] (value_of k) (k_holder k) (k_cond k) \<and> \<not> k_intr k'"
    using schedule_eff [OF s] f by (simp add: status_set_status)
  then show ?thesis
    using eff_from [OF conjunct1 [OF e], of k "[C_intr_set (k_intr k)]"] f
    by (auto simp: status_set_status split: if_splits)
qed

lemma push_Nil [simp]: "push [] k = k"
  by (simp add: push_def)

lemma eff_push: "eff (push cs k) k' ds f h d \<longleftrightarrow> eff k k' (ds @ cs) f h d"
  by (simp add: eff_def)

lemma eff_intr_disable: "eff (intr_disable k) k' cs f h d \<longleftrightarrow> eff k k' cs f h d"
  by (simp add: eff_def)

lemma eff_upd_sema: "eff (upd_sema s g k) k' cs f h d \<longleftrightarrow> eff k k' cs f h d"
  by (simp add: eff_def)

lemma sema_loop_eff:
  assumes "sema_loop s k = Some k'"
  shows "if value_of k s = 0 then eff k k' [C_sema_loop s] (value_of k) (k_holder k) (k_cond k)
    else eff k k' [] ((value_of k)(s := value_of k s - 1)) (k_holder k) (k_cond k) \<and> k_cur k' = k_cur k"
proof (cases "value_of k s = 0")
  case True
  let ?f = "\<lambda>se. se\<lparr>sema_waiters := insert_ordered (is_prior_larger k) (k_cur k) (sema_waiters se)\<rparr>"
  from assms True have "thread_block (push [C_sema_loop s] (upd_sema s ?f k)) = Some k'"
    by (auto simp: sema_loop_def value_of_def bind_Some_iff Let_def dest!: thread_current_Some split: if_splits)
  from thread_block_eff [OF this] True show ?thesis
    by (simp add: eff_push eff_upd_sema fun_upd_idem value_of_def)
next
  case False
  with assms show ?thesis by (auto simp: sema_loop_def value_of_def eff_def fun_eq_iff)
qed

lemma sema_down_eff:
  assumes "sema_down s k = Some k'"
  shows "if value_of k s = 0 then eff k k' [C_sema_loop s, C_intr_set (k_intr k)] (value_of k) (k_holder k) (k_cond k)
    else eff k k' [C_intr_set (k_intr k)] ((value_of k)(s := value_of k s - 1)) (k_holder k) (k_cond k)"
proof -
  from assms have "sema_loop s (intr_disable (push [C_intr_set (k_intr k)] k)) = Some k'"
    by (auto simp: sema_down_def split: if_splits)
  from sema_loop_eff [OF this] show ?thesis by (simp add: eff_push eff_intr_disable split: if_splits)
qed

lemma sema_try_down_eff:
  "sema_try_down s k = Some (k', b) \<Longrightarrow> b = (value_of k s > 0) \<and> k_cur k' = k_cur k
    \<and> eff k k' [] (if b then (value_of k)(s := value_of k s - 1) else value_of k) (k_holder k) (k_cond k)"
  by (auto simp: sema_try_down_def value_of_def eff_def fun_eq_iff split: if_splits)

lemma thread_unblock_eff:
  "thread_unblock t k = Some k' \<Longrightarrow> eff k k' [] (value_of k) (k_holder k) (k_cond k) \<and> k_cur k' = k_cur k
     \<and> k_intr k' = k_intr k"
  by (drule thread_unblock_Some) (auto simp: eff_def value_of_def fun_eq_iff status_set_status)

lemma sema_up_eff:
  assumes "sema_up s k = Some k'"
  shows "eff k k' [C_intr_set False, C_intr_set (k_intr k)] ((value_of k)(s := (value_of k s + 1) mod 2 ^ 32))
    (k_holder k) (k_cond k)"
proof -
  define k1 where "k1 = intr_disable (push [C_intr_set (k_intr k)] k)"
  from assms obtain k2 where k2: "(if sema_waiters (k_sema k1 s) \<noteq> [] then sema_wake s k1 else Some k1) = Some k2"
    and y: "thread_yield (upd_sema s (\<lambda>se. se\<lparr>sema_value := (sema_value se + 1) mod 2 ^ 32\<rparr>) k2) = Some k'"
    unfolding sema_up_def Let_def k1_def [symmetric] by (auto simp: bind_Some_iff split: if_splits)
  have "eff k1 k2 [] (value_of k1) (k_holder k1) (k_cond k1) \<and> k_cur k2 = k_cur k1 \<and> k_intr k2 = k_intr k1"
  proof (cases "sema_waiters (k_sema k1 s) = []")
    case True
    with k2 show ?thesis by (simp add: eff_def)
  next
    case False
    with k2 obtain ws where "(case ws of [] \<Rightarrow> None | max_th # rest \<Rightarrow>
        thread_unblock max_th (upd_sema s (\<lambda>se. se\<lparr>sema_waiters := rest\<rparr>) k1)) = Some k2"
      by (auto simp: sema_wake_def bind_Some_iff)
    then obtain t rest where "thread_unblock t (upd_sema s (\<lambda>se. se\<lparr>sema_waiters := rest\<rparr>) k1) = Some k2"
      by (cases ws) auto
    from thread_unblock_eff [OF this] show ?thesis
      by (simp add: eff_upd_sema fun_upd_idem value_of_def)
  qed
  then have "eff k k2 [C_intr_set (k_intr k)] (value_of k) (k_holder k) (k_cond k)" "k_cur k2 = k_cur k" "\<not> k_intr k2"
    by (simp_all add: k1_def eff_push eff_intr_disable)
  with thread_yield_eff [OF y] show ?thesis
    by (simp add: eff_def) (simp add: value_of_def fun_eq_iff)
qed

lemma set_holder_eff:
  "set_holder l k = Some k' \<Longrightarrow> eff k k' [] (value_of k) ((k_holder k)(l := k_cur k)) (k_cond k) \<and> k_cur k' = k_cur k"
  by (auto simp: set_holder_def bind_Some_iff eff_def dest!: thread_current_Some)

lemma lock_acquire_eff:
  assumes "lock_acquire l k = Some k'"
  shows "if value_of k (lock_sema l) = 0
    then eff k k' [C_sema_loop (lock_sema l), C_intr_set (k_intr k), C_set_holder l] (value_of k) (k_holder k) (k_cond k)
    else eff k k' [C_intr_set (k_intr k), C_set_holder l]
      ((value_of k)(lock_sema l := value_of k (lock_sema l) - 1)) (k_holder k) (k_cond k)"
proof -
  from assms have "sema_down (lock_sema l) (push [C_set_holder l] k) = Some k'"
    by (auto simp: lock_acquire_def bind_Some_iff split: if_splits)
  from sema_down_eff [OF this] show ?thesis by (simp add: eff_push split: if_splits)
qed

lemma lock_try_acquire_eff:
  assumes "lock_try_acquire l k = Some (k', b)"
  shows "b = (value_of k (lock_sema l) > 0) \<and> k_cur k' = k_cur k
    \<and> (if b then eff k k' [] ((value_of k)(lock_sema l := value_of k (lock_sema l) - 1)) ((k_holder k)(l := k_cur k)) (k_cond k)
       else eff k k' [] (value_of k) (k_holder k) (k_cond k))"
proof -
  from assms obtain k1 s where s: "sema_try_down (lock_sema l) k = Some (k1, s)"
    and r: "(if s then do { k \<leftarrow> set_holder l k1; Some (k, True) } else Some (k1, False)) = Some (k', b)"
    unfolding lock_try_acquire_def ASSERT_bind by (auto simp: bind_Some_iff split: if_splits)
  note e = sema_try_down_eff [OF s]
  show ?thesis
  proof (cases s)
    case True
    with r have "set_holder l k1 = Some k'" "b" by (auto simp: bind_Some_iff)
    with set_holder_eff [OF this(1)] e True show ?thesis by (simp add: eff_def)
  next
    case False
    have "eff k k1 [] (value_of k) (k_holder k) (k_cond k)" using e unfolding if_not_P [OF False] by blast
    with r e False show ?thesis by simp
  qed
qed

lemma lock_held: "lock_held_by_current_thread l k = Some True \<Longrightarrow> k_holder k l = k_cur k"
  by (auto simp: lock_held_by_current_thread_def bind_Some_iff dest!: thread_current_Some split: if_splits)

lemma lock_release_eff:
  assumes "lock_release l k = Some k'"
  shows "k_holder k l = k_cur k \<and> eff k k' [C_intr_set False, C_intr_set (k_intr k)]
    ((value_of k)(lock_sema l := (value_of k (lock_sema l) + 1) mod 2 ^ 32)) ((k_holder k)(l := THREAD_NULL)) (k_cond k)"
proof -
  from assms have h: "lock_held_by_current_thread l k = Some True"
    and u: "sema_up (lock_sema l) (k\<lparr>k_holder := (k_holder k)(l := THREAD_NULL)\<rparr>) = Some k'"
    by (auto simp: lock_release_def bind_Some_iff split: if_splits)
  from sema_up_eff [OF u] lock_held [OF h] show ?thesis by (simp add: eff_def)
qed

lemma cond_wait_eff:
  assumes "cond_wait c l w k = Some k'"
  shows "k_holder k l = k_cur k \<and> eff k k' [C_intr_set False, C_intr_set (k_intr k), C_sema_down (waiter_sema w), C_lock_acquire l]
    (let f = (value_of k)(waiter_sema w := 0) in f(lock_sema l := (f (lock_sema l) + 1) mod 2 ^ 32))
    ((k_holder k)(l := THREAD_NULL)) ((k_cond k)(c := insert_ordered (junk_larger k) w (k_cond k c)))"
proof -
  let ?k1 = "upd_sema (waiter_sema w) (\<lambda>_. \<lparr>sema_value = 0, sema_waiters = []\<rparr>) k"
  have j: "junk_larger ?k1 = junk_larger k" by (simp add: junk_larger_def fun_eq_iff upd_sema_def)
  from assms have r: "lock_release l (push [C_sema_down (waiter_sema w), C_lock_acquire l]
      (?k1\<lparr>k_cond := (k_cond k)(c := insert_ordered (junk_larger k) w (k_cond k c))\<rparr>)) = Some k'"
    by (auto simp: cond_wait_def sema_init_def bind_Some_iff Let_def j [simplified] split: if_splits)
  have "k_intr ?k1 = k_intr k" by simp
  with lock_release_eff [OF r] show ?thesis by (simp add: eff_def Let_def)
qed

lemma cond_signal_eff:
  assumes "cond_signal c l k = Some k'"
  shows "eff k k' [] (value_of k) (k_holder k) (k_cond k)
    \<or> (\<exists>w rest. mset (w # rest) = mset (k_cond k c)
        \<and> eff k k' [C_intr_set False, C_intr_set (k_intr k)]
            ((value_of k)(waiter_sema w := (value_of k (waiter_sema w) + 1) mod 2 ^ 32)) (k_holder k) ((k_cond k)(c := rest)))"
proof (cases "k_cond k c = []")
  case True
  with assms show ?thesis by (auto simp: cond_signal_def bind_Some_iff eff_def split: if_splits)
next
  case False
  with assms obtain ws where ws: "merge_sort (junk_larger k) (k_cond k c) = Some ws" "(case ws of [] \<Rightarrow> None
      | w # rest \<Rightarrow> sema_up (waiter_sema w) (k\<lparr>k_cond := (k_cond k)(c := rest)\<rparr>)) = Some k'"
    unfolding cond_signal_def by (auto simp: bind_Some_iff split: if_splits)
  then obtain w rest where w: "ws = w # rest" "sema_up (waiter_sema w) (k\<lparr>k_cond := (k_cond k)(c := rest)\<rparr>) = Some k'"
    by (cases ws) auto
  have "mset ws = mset (k_cond k c)" using junk.merge_sort_correct [of k "k_cond k c"] ws(1) by auto
  with sema_up_eff [OF w(2)] w(1) show ?thesis by (auto simp: eff_def)
qed

lemma timer_sleep_eff:
  assumes "timer_sleep n k = Some k'"
  shows "\<exists>cs. set cs \<subseteq> range C_intr_set \<and> eff k k' cs (value_of k) (k_holder k) (k_cond k)"
proof (cases "n \<le> 0")
  case True
  with assms show ?thesis by (intro exI [of _ "[]"]) (auto simp: timer_sleep_def eff_def split: if_splits)
next
  case False
  let ?w = "int64 (n + timer_ticks k)"
  define k1 where "k1 = update_smallest_tick ?w (upd_thread (k_cur k) (\<lambda>th. th\<lparr>t_wake := ?w\<rparr>) (intr_disable k))"
  from assms False have "thread_block (push [C_intr_set (k_intr k)] (k1\<lparr>k_block_list := k_block_list k1 @ [k_cur k]\<rparr>)) = Some k'"
    unfolding timer_sleep_def Let_def k1_def by (auto simp: bind_Some_iff split: if_splits dest!: thread_current_Some)
  from thread_block_eff [OF this] have "eff k k' [C_intr_set (k_intr k)] (value_of k) (k_holder k) (k_cond k)"
    by (simp add: eff_def k1_def update_smallest_tick_def value_of_def fun_eq_iff)
  then show ?thesis by (intro exI [of _ "[C_intr_set (k_intr k)]"]) simp
qed

lemma thread_set_priority_eff:
  assumes "thread_set_priority p k = Some k'"
  shows "\<exists>cs. set cs \<subseteq> range C_intr_set \<and> eff k k' cs (value_of k) (k_holder k) (k_cond k)"
proof -
  let ?k = "upd_thread (k_cur k) (\<lambda>th. th\<lparr>t_priority := p\<rparr>) k"
  from assms have "thread_yield (intr_disable (push [C_intr_set (k_intr k)] ?k)) = Some k' \<or> k' = ?k \<or> k' = k"
    by (auto simp: thread_set_priority_def bind_Some_iff Let_def split: if_splits dest!: thread_current_Some)
  then consider "thread_yield (intr_disable (push [C_intr_set (k_intr k)] ?k)) = Some k'" | "k' = ?k" | "k' = k" by blast
  then show ?thesis
  proof cases
    case 1
    from thread_yield_eff [OF this]
    have "eff k k' [C_intr_set False, C_intr_set (k_intr k)] (value_of k) (k_holder k) (k_cond k)"
      by (simp add: eff_def)
    then show ?thesis by (rule exI [of _ "[C_intr_set False, C_intr_set (k_intr k)]", OF conjI [rotated]]) auto
  next
    case 2
    then show ?thesis by (intro exI [of _ "[]"]) (simp add: eff_def)
  next
    case 3
    then show ?thesis by (intro exI [of _ "[]"]) (simp add: eff_def)
  qed
qed

lemma timer_intr_handler_eff:
  assumes "timer_intr_handler k = Some k'"
  shows "\<exists>cs. set cs \<subseteq> range C_intr_set \<and> eff k k' cs (value_of k) (k_holder k) (k_cond k)"
proof -
  let ?k = "(intr_disable (push [C_intr_set True] k))\<lparr>k_ext := True, k_yield_on_return := False\<rparr>"
  from assms obtain k1 where t: "timer_interrupt ?k = Some k1" and x: "\<not> k_ext k"
    and r: "(if k_yield_on_return k1 then thread_yield (k1\<lparr>k_ext := False\<rparr>) else Some (k1\<lparr>k_ext := False\<rparr>)) = Some k'"
    unfolding timer_intr_handler_def Let_def by (auto simp: bind_Some_iff split: if_split_asm)
  have wl: "eff k k'' [] (value_of k) (k_holder k) (k_cond k) \<and> k_cur k'' = k_cur k" if "wake_loop ts k = Some k''" for ts k k''
    using that
  proof (induction ts k rule: wake_loop.induct)
    case (2 t ts k)
    from 2(3) obtain th where th: "thread_at k t = Some th" by (auto simp: bind_Some_iff)
    show ?case
    proof (cases "t_wake th \<le> timer_ticks k")
      case True
      with 2(3) th obtain k2 where u: "thread_unblock t (k\<lparr>k_block_list := remove1 t (k_block_list k)\<rparr>) = Some k2"
        and w: "wake_loop ts k2 = Some k''" by (auto simp: bind_Some_iff)
      from thread_unblock_eff [OF u] 2(1) [OF th True u w] show ?thesis by (simp add: eff_def value_of_def fun_eq_iff)
    next
      case False
      with 2(3) th have "wake_loop ts (update_smallest_tick (t_wake th) k) = Some k''" by simp
      from 2(2) [OF th False this] show ?thesis by (simp add: eff_def update_smallest_tick_def value_of_def fun_eq_iff)
    qed
  qed (simp add: eff_def)
  from t obtain k0 where tt: "thread_tick (?k\<lparr>k_ticks := int64 (k_ticks ?k + 1)\<rparr>) = Some k0"
    and w: "(if k_ticks k0 \<ge> get_next_awake k0 then wake_thread k0 else Some k0) = Some k1"
    by (auto simp: timer_interrupt_def Let_def bind_Some_iff)
  have "eff k0 k1 [] (value_of k0) (k_holder k0) (k_cond k0) \<and> k_cur k1 = k_cur k0"
    using w wl [of "k_block_list k0" "k0\<lparr>k_timer_smallest := INT64_MAX\<rparr>" k1]
    by (auto simp: wake_thread_def eff_def value_of_def fun_eq_iff split: if_splits)
  with thread_tick_same [OF tt]
  have k1: "k_cont k1 = (k_cont k)(k_cur k := C_intr_set True # k_cont k (k_cur k))" "value_of k1 = value_of k"
    "k_holder k1 = k_holder k" "k_cond k1 = k_cond k" "k_idle k1 = k_idle k" "k_cur k1 = k_cur k"
    "\<forall>t. status k1 t = None \<longrightarrow> status k t = None"
    by (simp_all add: eff_def same_threads_def value_of_def fun_eq_iff)
  show ?thesis
  proof (cases "k_yield_on_return k1")
    case True
    with r have "thread_yield (k1\<lparr>k_ext := False\<rparr>) = Some k'" by simp
    from thread_yield_eff [OF this] k1 x
    have "eff k k' [C_intr_set (k_intr k1), C_intr_set True] (value_of k) (k_holder k) (k_cond k)"
      by (simp add: eff_def value_of_def fun_eq_iff)
    then show ?thesis by (rule exI [of _ "[C_intr_set (k_intr k1), C_intr_set True]", OF conjI [rotated]]) auto
  next
    case False
    with r k1 x have "eff k k' [C_intr_set True] (value_of k) (k_holder k) (k_cond k)"
      by (auto simp: eff_def value_of_def fun_eq_iff)
    then show ?thesis by (rule exI [of _ "[C_intr_set True]", OF conjI [rotated]]) auto
  qed
qed

subsection \<open>The code on the kernel stacks\<close>

text \<open>What may lie on a stack: the calls of \<open>call_ok\<close> and what they leave behind.\<close>

fun code_ok :: "ptr set \<Rightarrow> code \<Rightarrow> bool" where
  "code_ok L (C_create page n p body) = (body = [])"
| "code_ok L (C_take_tid t body) = (body = [])"
| "code_ok L (C_created t tid body) = (body = [])"
| "code_ok L (C_idle_init s) = False"
| "code_ok L (C_sema_down s) = (s \<notin> lock_sema ` L)"
| "code_ok L (C_sema_try_down s) = (s \<notin> lock_sema ` L)"
| "code_ok L (C_sema_up s) = (s \<notin> lock_sema ` L)"
| "code_ok L (C_set_holder l) = (l \<in> L)"
| "code_ok L (C_lock_acquire l) = (l \<in> L)"
| "code_ok L (C_lock_try_acquire l) = (l \<in> L)"
| "code_ok L (C_lock_release l) = (l \<in> L)"
| "code_ok L (C_cond_wait c l w) = (l \<in> L \<and> waiter_sema w \<notin> lock_sema ` L)"
| "code_ok L (C_cond_signal c l) = (l \<in> L)"
| "code_ok L (C_cond_broadcast c l) = (l \<in> L)"
| "code_ok L _ = True"

lemma call_ok_code_ok: "call_ok L c \<Longrightarrow> code_ok L c"
  by (cases c) auto

text \<open>A thread that waits for a lock's semaphore will be its holder; a thread that exits has
  nothing else to do.\<close>

fun stack_ok :: "ptr set \<Rightarrow> code list \<Rightarrow> bool" where
  "stack_ok L [] = True"
| "stack_ok L (c # cs) = ((\<forall>l \<in> L. c = C_sema_loop (lock_sema l) \<longrightarrow> (\<exists>b cs'. cs = C_intr_set b # C_set_holder l # cs'))
     \<and> (c = C_exit \<longrightarrow> cs = []) \<and> code_ok L c \<and> stack_ok L cs)"

fun idle_code :: "code \<Rightarrow> bool" where
  "idle_code (C_intr_set b) = True"
| "idle_code C_idle_block = True"
| "idle_code C_idle_wake = True"
| "idle_code (C_sema_up s) = True"
| "idle_code _ = False"

definition idle_stack :: "code list \<Rightarrow> bool" where
  "idle_stack cs = (cs \<noteq> [] \<and> last cs \<in> {C_idle_block, C_idle_wake} \<and> (\<forall>c \<in> set cs. idle_code c))"

definition inv_stacks :: "ptr set \<Rightarrow> kernel \<Rightarrow> bool" where
  "inv_stacks L k = ((\<forall>u. stack_ok L (k_cont k u)) \<and> idle_stack (k_cont k (k_idle k))
     \<and> (\<forall>t. status k t = None \<longrightarrow> k_cont k t = []) \<and> (\<forall>u. \<forall>t \<in> set (pending k u). k_cont k t = [])
     \<and> (\<forall>c. \<forall>w \<in> set (k_cond k c). waiter_sema w \<notin> lock_sema ` L) \<and> \<not> k_ext k)"

subsection \<open>Who has a lock\<close>

text \<open>The pieces of a stack that will write the thread's name into the lock at \<open>l\<close>, its
  semaphore already taken; \<open>w\<close>: the thread still waits for the semaphore.\<close>

fun grants :: "ptr \<Rightarrow> bool \<Rightarrow> code list \<Rightarrow> nat" where
  "grants l w [] = 0"
| "grants l w (c # cs) =
     (if c = C_sema_loop (lock_sema l) then grants l True cs
      else if c = C_set_holder l then (if w then 0 else 1) + grants l False cs
      else grants l w cs)"

definition lock_ok :: "ptr \<Rightarrow> nat \<Rightarrow> ptr \<Rightarrow> (ptr \<Rightarrow> nat) \<Rightarrow> bool" where
  "lock_ok l v h g =
     ((v = 1 \<and> h = THREAD_NULL \<and> (\<forall>t. g t = 0))
      \<or> (v = 0 \<and> h \<noteq> THREAD_NULL \<and> (\<forall>t. g t = 0))
      \<or> (v = 0 \<and> h = THREAD_NULL \<and> (\<exists>t. g t = 1 \<and> (\<forall>u. u \<noteq> t \<longrightarrow> g u = 0))))"

definition inv_locks :: "ptr set \<Rightarrow> kernel \<Rightarrow> bool" where
  "inv_locks L k = (\<forall>l \<in> L. lock_ok l (value_of k (lock_sema l)) (k_holder k l) (\<lambda>t. grants l False (k_cont k t)))"

definition sys_inv :: "ptr set \<Rightarrow> kernel \<Rightarrow> bool" where
  "sys_inv L k = (kinv (Some (k_cur k)) k \<and> inv_stacks L k \<and> inv_locks L k \<and> tid_lock \<in> L \<and> THREAD_NULL \<notin> L)"

text \<open>Pieces that neither take part in a lock nor end the thread.\<close>

fun quiet :: "ptr set \<Rightarrow> code \<Rightarrow> bool" where
  "quiet L (C_sema_loop s) = (s \<notin> lock_sema ` L)"
| "quiet L (C_set_holder l) = False"
| "quiet L C_exit = False"
| "quiet L _ = True"

lemma grants_quiet: "\<forall>c \<in> set cs. quiet L c \<Longrightarrow> l \<in> L \<Longrightarrow> grants l w (cs @ ds) = grants l w ds"
  by (induction cs) auto

lemma stack_ok_quiet: "\<forall>c \<in> set cs. quiet L c \<and> code_ok L c \<Longrightarrow> stack_ok L ds \<Longrightarrow> stack_ok L (cs @ ds)"
  by (induction cs) auto

lemma lock_sema_inj [simp]: "lock_sema l = lock_sema m \<longleftrightarrow> l = m"
  by (simp add: lock_sema_def)

lemma lock_sema_image [simp]: "lock_sema l \<in> lock_sema ` L \<longleftrightarrow> l \<in> L"
  by auto

subsection \<open>Steps keep the invariant\<close>

text \<open>The situation before a piece of code \<open>c\<close> runs.\<close>

definition running :: "ptr set \<Rightarrow> kernel \<Rightarrow> code \<Rightarrow> code list \<Rightarrow> bool" where
  "running L k c cs = (sys_inv L k \<and> k_cont k (k_cur k) = c # cs)"

lemma runningD:
  assumes "running L k c cs"
  shows "kinv (Some (k_cur k)) k" "kinv (Some (k_cur k)) (pop k)" "inv_stacks L k" "inv_locks L k"
    "k_cont k (k_cur k) = c # cs" "code_ok L c" "stack_ok L cs" "status k (k_cur k) = Some THREAD_RUNNING"
    "k_cur k = k_idle k \<Longrightarrow> idle_stack (c # cs)" "tid_lock \<in> L" "THREAD_NULL \<notin> L"
    "k_cur k \<noteq> THREAD_NULL"
proof -
  show i: "kinv (Some (k_cur k)) k" and s: "inv_stacks L k" and "inv_locks L k" and c: "k_cont k (k_cur k) = c # cs"
    and "tid_lock \<in> L" "THREAD_NULL \<notin> L"
    using assms by (simp_all add: running_def sys_inv_def)
  show "kinv (Some (k_cur k)) (pop k)" by (rule kinv_pop [OF i c])
  have "stack_ok L (c # cs)" using s c by (metis inv_stacks_def)
  then show "code_ok L c" "stack_ok L cs" by simp_all
  show r: "status k (k_cur k) = Some THREAD_RUNNING" by (rule kinv_running [OF i])
  show "k_cur k = k_idle k \<Longrightarrow> idle_stack (c # cs)" using s c by (simp add: inv_stacks_def)
  show "k_cur k \<noteq> THREAD_NULL" using kinv_not_null [OF i] r by auto
qed

lemma eff_pop:
  assumes "running L k c cs" "eff (pop k) k' ds f h d"
  shows "k_cont k' = (k_cont k)(k_cur k := ds @ cs)" "value_of k' = f" "k_holder k' = h" "k_cond k' = d"
    "k_idle k' = k_idle k" "k_ext k' = k_ext k" "status k' t = None \<Longrightarrow> status k t = None"
  using assms(2) runningD(5) [OF assms(1)] by (simp_all add: eff_def)

lemma stacks_eff:
  assumes r: "running L k c cs" and e: "eff (pop k) k' ds f h d" and ok: "stack_ok L (ds @ cs)"
    and d: "\<And>q w. w \<in> set (d q) \<Longrightarrow> waiter_sema w \<notin> lock_sema ` L"
    and p: "\<And>t. t \<in> set (concat (map creates ds)) \<Longrightarrow> k_cont k t = [] \<and> t \<noteq> k_cur k"
    and idle: "k_cur k = k_idle k \<Longrightarrow> idle_stack (ds @ cs)"
  shows "inv_stacks L k'"
proof -
  note rd = runningD [OF r] and ep = eff_pop [OF r e]
  have s: "\<forall>u. stack_ok L (k_cont k u)" "idle_stack (k_cont k (k_idle k))"
    "\<forall>t. status k t = None \<longrightarrow> k_cont k t = []" "\<forall>u. \<forall>t \<in> set (pending k u). k_cont k t = []" "\<not> k_ext k"
    using rd(3) by (simp_all add: inv_stacks_def)
  have "k_cont k' t = []" if "t \<in> set (pending k' u)" for u t
  proof -
    from that have "t \<in> set (concat (map creates ds)) \<or> t \<in> set (pending k u)"
      using rd(5) by (auto simp: pending_def ep(1) split: if_splits)
    then have "k_cont k t = [] \<and> t \<noteq> k_cur k"
    proof
      assume t: "t \<in> set (pending k u)"
      then have "t \<noteq> k_cur k" using kinv_cur(5) [OF rd(1)] by blast
      with s(4) t show ?thesis by blast
    qed (rule p)
    then show ?thesis by (simp add: ep(1))
  qed
  moreover have "k_cont k' t = []" if "status k' t = None" for t
    using that s(3) rd(8) ep(7) by (auto simp: ep(1))
  ultimately show ?thesis
    using s ok d idle rd(5) by (simp add: inv_stacks_def ep(1,4,5,6))
qed

lemma locks_eff:
  assumes r: "running L k c cs" and e: "eff (pop k) k' ds f h d"
    and l: "\<And>l. l \<in> L \<Longrightarrow> lock_ok l (f (lock_sema l)) (h l)
      ((\<lambda>t. grants l False (k_cont k t))(k_cur k := grants l False (ds @ cs)))"
  shows "inv_locks L k'"
proof -
  have "(\<lambda>t. grants l False (k_cont k' t)) = (\<lambda>t. grants l False (k_cont k t))(k_cur k := grants l False (ds @ cs))" for l
    by (auto simp: eff_pop [OF r e] fun_eq_iff)
  with l show ?thesis by (simp add: inv_locks_def eff_pop [OF r e])
qed

lemma quiet_step:
  assumes r: "running L k c cs" and k': "kinv (Some (k_cur k')) k'" and e: "eff (pop k) k' ds f h d"
    and q: "quiet L c" "\<forall>x \<in> set ds. quiet L x \<and> code_ok L x"
    and l: "\<And>l. l \<in> L \<Longrightarrow> f (lock_sema l) = value_of k (lock_sema l) \<and> h l = k_holder k l"
    and d: "\<And>q w. w \<in> set (d q) \<Longrightarrow> waiter_sema w \<notin> lock_sema ` L"
    and p: "\<And>t. t \<in> set (concat (map creates ds)) \<Longrightarrow> k_cont k t = [] \<and> t \<noteq> k_cur k"
    and idle: "k_cur k = k_idle k \<Longrightarrow> idle_stack (ds @ cs)"
  shows "sys_inv L k'"
proof -
  note rd = runningD [OF r]
  have "stack_ok L (ds @ cs)" using q rd(7) by (intro stack_ok_quiet) auto
  then have "inv_stacks L k'" by (rule stacks_eff [OF r e]) (erule d p idle)+
  moreover have "inv_locks L k'"
  proof (rule locks_eff [OF r e])
    fix l assume "l \<in> L"
    have "grants l False (ds @ cs) = grants l False (k_cont k (k_cur k))"
      using q grants_quiet [of ds L l False cs] grants_quiet [of "[c]" L l False cs] \<open>l \<in> L\<close> by (simp add: rd(5))
    then have "(\<lambda>t. grants l False (k_cont k t))(k_cur k := grants l False (ds @ cs)) = (\<lambda>t. grants l False (k_cont k t))"
      by auto
    with l [OF \<open>l \<in> L\<close>] rd(4) \<open>l \<in> L\<close> show "lock_ok l (f (lock_sema l)) (h l)
        ((\<lambda>t. grants l False (k_cont k t))(k_cur k := grants l False (ds @ cs)))"
      by (simp add: inv_locks_def)
  qed
  ultimately show ?thesis using k' rd(10,11) by (simp add: sys_inv_def)
qed

lemma idle_stack_tl: "idle_stack (c # cs) \<Longrightarrow> c \<noteq> C_idle_block \<Longrightarrow> c \<noteq> C_idle_wake \<Longrightarrow> idle_stack cs"
  by (auto simp: idle_stack_def split: if_splits)

lemma idle_stack_append: "idle_stack cs \<Longrightarrow> \<forall>c \<in> set ds. idle_code c \<Longrightarrow> idle_stack (ds @ cs)"
  by (auto simp: idle_stack_def)

lemma idle_stack_code: "idle_stack (c # cs) \<Longrightarrow> idle_code c"
  by (simp add: idle_stack_def)

lemma not_idle: "running L k c cs \<Longrightarrow> \<not> idle_code c \<Longrightarrow> k_cur k \<noteq> k_idle k"
  using runningD(9) idle_stack_code by blast

text \<open>A quiet step that pushes only pieces that restore the interrupt level and changes no lock.\<close>

lemma restoring_step:
  assumes r: "running L k c cs" and k': "kinv (Some (k_cur k')) k'" and e: "eff (pop k) k' ds f (k_holder k) (k_cond k)"
    and q: "quiet L c" "set ds \<subseteq> range C_intr_set" "c \<noteq> C_idle_block" "c \<noteq> C_idle_wake"
    and l: "\<And>l. l \<in> L \<Longrightarrow> f (lock_sema l) = value_of k (lock_sema l)"
  shows "sys_inv L k'"
proof (rule quiet_step [OF r k' e q(1)])
  show "\<forall>x \<in> set ds. quiet L x \<and> code_ok L x" using q(2) by auto
  show "waiter_sema w \<notin> lock_sema ` L" if "w \<in> set (k_cond k qq)" for w qq
    using runningD(3) [OF r] that by (simp add: inv_stacks_def)
  show "k_cont k t = [] \<and> t \<noteq> k_cur k" if "t \<in> set (concat (map creates ds))" for t
    using that q(2) by auto
  show "idle_stack (ds @ cs)" if "k_cur k = k_idle k"
    using idle_stack_tl [OF runningD(9) [OF r that] q(3,4)] q(2) by (intro idle_stack_append) auto
qed (use l in auto)

subsection \<open>Each piece of code\<close>

lemma lock_sema_ne: "s \<notin> lock_sema ` L \<Longrightarrow> l \<in> L \<Longrightarrow> s \<noteq> lock_sema l"
  by auto

lemma eff_refl: "k_cont k' = k_cont k \<Longrightarrow> k_sema k' = k_sema k \<Longrightarrow> k_holder k' = k_holder k \<Longrightarrow> k_cond k' = k_cond k
    \<Longrightarrow> k_idle k' = k_idle k \<Longrightarrow> k_ext k' = k_ext k \<Longrightarrow> status k' = status k
    \<Longrightarrow> eff k k' [] (value_of k) (k_holder k) (k_cond k)"
  by (simp add: eff_def value_of_def fun_eq_iff)

lemma step_intr_set:
  assumes r: "running L k (C_intr_set b) cs" and s: "intr_set_level b (pop k) = Some k'"
  shows "sys_inv L k'"
proof -
  from s have k': "k' = (pop k)\<lparr>k_intr := b\<rparr>"
    by (auto simp: intr_set_level_def intr_enable_def intr_disable_def split: if_splits)
  have "kinv (Some (k_cur k')) k'"
    using runningD(2) [OF r] unfolding k'
    by (simp add: kinv_cong [OF runningD(2) [OF r]] waiters_def pending_def fun_eq_iff)
       (rule kinv_cong [OF runningD(2) [OF r]]; simp add: waiters_def pending_def fun_eq_iff kinv_def)
  moreover have "eff (pop k) k' [] (value_of k) (k_holder k) (k_cond k)"
    using eff_refl [of k' "pop k"] by (simp add: k')
  ultimately show ?thesis by (intro restoring_step [OF r]) auto
qed

lemma step_yield: "running L k C_yield cs \<Longrightarrow> thread_yield (pop k) = Some k' \<Longrightarrow> sys_inv L k'"
  using thread_yield_kinv [of "pop k" k'] thread_yield_eff [of "pop k" k'] runningD(2) [of L k C_yield cs]
  by (intro restoring_step [of L k C_yield cs k' "[C_intr_set (k_intr k)]" "value_of k"]) auto

lemma step_set_priority:
  assumes r: "running L k (C_set_priority p) cs" and s: "thread_set_priority p (pop k) = Some k'"
  shows "sys_inv L k'"
proof -
  from thread_set_priority_eff [OF s] obtain ds where
    "set ds \<subseteq> range C_intr_set" "eff (pop k) k' ds (value_of k) (k_holder k) (k_cond k)" by auto
  then show ?thesis
    using thread_set_priority_kinv [OF _ s] runningD(2) [OF r] by (intro restoring_step [OF r]) auto
qed

lemma step_sleep:
  assumes r: "running L k (C_sleep n) cs" and s: "timer_sleep n (pop k) = Some k'"
  shows "sys_inv L k'"
proof -
  from timer_sleep_eff [OF s] obtain ds where
    "set ds \<subseteq> range C_intr_set" "eff (pop k) k' ds (value_of k) (k_holder k) (k_cond k)" by auto
  then show ?thesis
    using timer_sleep_kinv [OF _ _ s] runningD(2) [OF r] not_idle [OF r] by (intro restoring_step [OF r]) auto
qed

lemma step_set_nice:
  assumes r: "running L k (C_set_nice n) cs" and s: "thread_set_nice n (pop k) = Some k'"
  shows "sys_inv L k'"
proof -
  have e: "eff (pop k) k' [] (value_of k) (k_holder k) (k_cond k)"
    using s eff_refl [of k' "pop k"] by (auto simp: thread_set_nice_def bind_Some_iff)
  show ?thesis
    using thread_set_nice_kinv [OF runningD(2) [OF r] s] by (intro restoring_step [OF r _ e]) auto
qed

lemma step_sema_up:
  assumes r: "running L k (C_sema_up s) cs" and s: "sema_up s (pop k) = Some k'"
  shows "sys_inv L k'"
proof -
  have "s \<notin> lock_sema ` L" using runningD(6) [OF r] by simp
  then show ?thesis
    using sema_up_eff [OF s] sema_up_kinv [OF _ s] runningD(2) [OF r]
    by (intro restoring_step [OF r, of k' "[C_intr_set False, C_intr_set (k_intr k)]"
          "(value_of k)(s := (value_of k s + 1) mod 2 ^ 32)"]) (auto dest: lock_sema_ne)
qed

lemma step_sema_try_down:
  assumes r: "running L k (C_sema_try_down s) cs" and s: "ret_bool (sema_try_down s (pop k)) = Some k'"
  shows "sys_inv L k'"
proof -
  have n: "s \<notin> lock_sema ` L" using runningD(6) [OF r] by simp
  from s obtain k1 b where k1: "sema_try_down s (pop k) = Some (k1, b)" "k' = set_ret (if b then 1 else 0) k1"
    by (auto simp: ret_bool_def bind_Some_iff)
  note e = sema_try_down_eff [OF k1(1)]
  have e': "eff (pop k) k' [] (if b then (value_of k)(s := value_of k s - 1) else value_of k) (k_holder k) (k_cond k)"
    using e by (simp add: k1(2) eff_def set_ret_def fun_eq_iff value_of_def)
  moreover have "kinv (Some (k_cur k')) k'"
    using sema_try_down_kinv [OF runningD(2) [OF r] k1(1)] by (simp add: k1(2) kinv_ret)
  ultimately show ?thesis using n by (intro restoring_step [OF r _ e']) (auto dest: lock_sema_ne)
qed

lemma idle_next:
  assumes "idle_stack (c # cs)" "d = C_idle_block \<or> d = C_idle_wake"
  shows "idle_stack (d # cs)"
  using assms by (cases "cs = []") (auto simp: idle_stack_def)

lemma step_idle_block:
  assumes r: "running L k C_idle_block cs" and s: "idle_block (pop k) = Some k'"
  shows "sys_inv L k'"
proof -
  let ?k = "push [C_idle_wake] (intr_disable (pop k))"
  from s have b: "thread_block ?k = Some k'" by (simp add: idle_block_def)
  have "kinv (Some (k_cur ?k)) ?k" using runningD(2) [OF r] by (simp add: kinv_push kinv_intr_disable)
  from kinv_block [OF this thread_block_Some [OF b]] have k': "kinv (Some (k_cur k')) k'" .
  have e: "eff (pop k) k' [C_idle_wake] (value_of k) (k_holder k) (k_cond k)"
    using thread_block_eff [OF b] by (simp add: eff_push eff_intr_disable)
  show ?thesis
    using runningD(3,9) [OF r] by (intro quiet_step [OF r k' e]) (auto intro: idle_next simp: inv_stacks_def)
qed

lemma step_idle_wake:
  assumes r: "running L k C_idle_wake cs" and s: "idle_wake (pop k) = Some k'"
  shows "sys_inv L k'"
proof -
  let ?k = "(pop k)\<lparr>k_intr := True\<rparr>"
  from s have k1: "k' = push [C_idle_block] ?k" by (auto simp: idle_wake_def intr_enable_def split: if_splits)
  have "kinv (Some (k_cur k)) ?k"
    by (rule kinv_cong [OF runningD(2) [OF r]]) (use runningD(2) [OF r] in \<open>auto simp: waiters_def pending_def fun_eq_iff kinv_def\<close>)
  then have k': "kinv (Some (k_cur k')) k'" by (simp add: k1 kinv_push)
  have e: "eff (pop k) k' [C_idle_block] (value_of k) (k_holder k) (k_cond k)"
    by (simp add: k1 eff_def value_of_def fun_eq_iff)
  show ?thesis
    using runningD(3,9) [OF r] by (intro quiet_step [OF r k' e]) (auto intro: idle_next simp: inv_stacks_def)
qed

lemma conds_ok: "running L k c cs \<Longrightarrow> w \<in> set (k_cond k q) \<Longrightarrow> waiter_sema w \<notin> lock_sema ` L"
  using runningD(3) [of L k c cs] by (auto simp: inv_stacks_def)

lemma step_sema_down:
  assumes r: "running L k (C_sema_down s) cs" and s: "sema_down s (pop k) = Some k'"
  shows "sys_inv L k'"
proof -
  have n: "s \<notin> lock_sema ` L" using runningD(6) [OF r] by simp
  have ni: "k_cur k \<noteq> k_idle k" using not_idle [OF r] by simp
  have k': "kinv (Some (k_cur k')) k'" using sema_down_kinv [OF _ _ s] runningD(2) [OF r] ni by simp
  show ?thesis
  proof (cases "value_of k s = 0")
    case True
    then have e: "eff (pop k) k' [C_sema_loop s, C_intr_set (k_intr k)] (value_of k) (k_holder k) (k_cond k)"
      using sema_down_eff [OF s] by simp
    show ?thesis by (rule quiet_step [OF r k' e]) (use n ni conds_ok [OF r] in auto)
  next
    case False
    then have e: "eff (pop k) k' [C_intr_set (k_intr k)] ((value_of k)(s := value_of k s - 1)) (k_holder k) (k_cond k)"
      using sema_down_eff [OF s] by simp
    show ?thesis by (rule quiet_step [OF r k' e]) (use n ni conds_ok [OF r] in \<open>auto dest: lock_sema_ne\<close>)
  qed
qed

lemma sys_invI:
  assumes "running L k c cs" "kinv (Some (k_cur k')) k'" "inv_stacks L k'" "inv_locks L k'"
  shows "sys_inv L k'"
  using assms runningD(10,11) [OF assms(1)] by (simp add: sys_inv_def)

text \<open>What a piece means for one lock.\<close>

lemma lock_now: "running L k c cs \<Longrightarrow> l \<in> L \<Longrightarrow>
    lock_ok l (value_of k (lock_sema l)) (k_holder k l) (\<lambda>t. grants l False (k_cont k t))"
  using runningD(4) [of L k c cs] by (simp add: inv_locks_def)

lemma lock_same:
  assumes "running L k c cs" "l \<in> L" "v = value_of k (lock_sema l)" "h = k_holder k l"
    "g = grants l False (c # cs)"
  shows "lock_ok l v h ((\<lambda>t. grants l False (k_cont k t))(k_cur k := g))"
proof -
  have "(\<lambda>t. grants l False (k_cont k t))(k_cur k := g) = (\<lambda>t. grants l False (k_cont k t))"
    using assms runningD(5) [OF assms(1)] by auto
  with lock_now [OF assms(1,2)] assms show ?thesis by simp
qed

text \<open>The semaphore of the lock was free: nobody has the lock, and now the running thread takes it.\<close>

lemma lock_taken:
  assumes "running L k c cs" "l \<in> L" "value_of k (lock_sema l) \<noteq> 0" "g = Suc (grants l False (c # cs))"
  shows "lock_ok l (value_of k (lock_sema l) - 1) (k_holder k l) ((\<lambda>t. grants l False (k_cont k t))(k_cur k := g))"
proof -
  have now: "value_of k (lock_sema l) = 1" "k_holder k l = THREAD_NULL" "\<And>t. grants l False (k_cont k t) = 0"
    using lock_now [OF assms(1,2)] assms(3) by (simp_all add: lock_ok_def)
  have "g = 1" using now(3) [of "k_cur k"] assms(4) runningD(5) [OF assms(1)] by simp
  then show ?thesis
    unfolding lock_ok_def by (intro disjI2 conjI exI [of _ "k_cur k"]) (simp_all add: now)
qed

lemma grants_loop_other: "m \<noteq> l \<Longrightarrow> grants l w (C_sema_loop (lock_sema m) # cs) = grants l w cs"
  by simp

lemma step_sema_loop:
  assumes r: "running L k (C_sema_loop s) cs" and s: "sema_loop s (pop k) = Some k'"
  shows "sys_inv L k'"
proof -
  note rd = runningD [OF r]
  have ni: "k_cur k \<noteq> k_idle k" using not_idle [OF r] by simp
  have k': "kinv (Some (k_cur k')) k'" using sema_loop_kinv [OF _ _ s] rd(2) ni by simp
  show ?thesis
  proof (cases "value_of k s = 0")
    case True
    then have e: "eff (pop k) k' [C_sema_loop s] (value_of k) (k_holder k) (k_cond k)"
      using sema_loop_eff [OF s] by simp
    have st: "stack_ok L (C_sema_loop s # cs)" using rd(3,5) by (metis inv_stacks_def)
    have "inv_stacks L k'" by (rule stacks_eff [OF r e]) (use st ni conds_ok [OF r] in auto)
    moreover have "inv_locks L k'" by (rule locks_eff [OF r e], rule lock_same [OF r]) auto
    ultimately show ?thesis using sys_invI [OF r k'] by simp
  next
    case False
    then have e: "eff (pop k) k' [] ((value_of k)(s := value_of k s - 1)) (k_holder k) (k_cond k)"
      using sema_loop_eff [OF s] by simp
    have "inv_stacks L k'" by (rule stacks_eff [OF r e]) (use rd(7) ni conds_ok [OF r] in auto)
    moreover have "inv_locks L k'"
    proof (rule locks_eff [OF r e])
      fix l assume l: "l \<in> L"
      show "lock_ok l (((value_of k)(s := value_of k s - 1)) (lock_sema l)) (k_holder k l)
          ((\<lambda>t. grants l False (k_cont k t))(k_cur k := grants l False ([] @ cs)))"
      proof (cases "s = lock_sema l")
        case True
        have "stack_ok L (C_sema_loop s # cs)" using rd(3,5) by (metis inv_stacks_def)
        with True l obtain b cs' where "cs = C_intr_set b # C_set_holder l # cs'" by auto
        then have "grants l False cs = Suc (grants l False (C_sema_loop s # cs))" using True by simp
        with lock_taken [OF r l] True False show ?thesis by simp
      next
        case other: False
        then show ?thesis using l by (intro lock_same [OF r]) auto
      qed
    qed
    ultimately show ?thesis using sys_invI [OF r k'] by simp
  qed
qed

lemma step_lock_acquire:
  assumes r: "running L k (C_lock_acquire l) cs" and s: "lock_acquire l (pop k) = Some k'"
  shows "sys_inv L k'"
proof -
  note rd = runningD [OF r]
  have l: "l \<in> L" using rd(6) by simp
  have ni: "k_cur k \<noteq> k_idle k" using not_idle [OF r] by simp
  have k': "kinv (Some (k_cur k')) k'" using lock_acquire_kinv [OF _ _ s] rd(2) ni by simp
  show ?thesis
  proof (cases "value_of k (lock_sema l) = 0")
    case True
    then have e: "eff (pop k) k' [C_sema_loop (lock_sema l), C_intr_set (k_intr k), C_set_holder l]
        (value_of k) (k_holder k) (k_cond k)"
      using lock_acquire_eff [OF s] by simp
    have "inv_stacks L k'" by (rule stacks_eff [OF r e]) (use rd(7) l ni conds_ok [OF r] in auto)
    moreover have "inv_locks L k'" by (rule locks_eff [OF r e], rule lock_same [OF r]) (auto simp: lock_sema_def)
    ultimately show ?thesis using sys_invI [OF r k'] by simp
  next
    case False
    then have e: "eff (pop k) k' [C_intr_set (k_intr k), C_set_holder l]
        ((value_of k)(lock_sema l := value_of k (lock_sema l) - 1)) (k_holder k) (k_cond k)"
      using lock_acquire_eff [OF s] by simp
    have "inv_stacks L k'" by (rule stacks_eff [OF r e]) (use rd(7) l ni conds_ok [OF r] in auto)
    moreover have "inv_locks L k'"
    proof (rule locks_eff [OF r e])
      fix m assume m: "m \<in> L"
      show "lock_ok m (((value_of k)(lock_sema l := value_of k (lock_sema l) - 1)) (lock_sema m)) (k_holder k m)
          ((\<lambda>t. grants m False (k_cont k t))(k_cur k := grants m False ([C_intr_set (k_intr k), C_set_holder l] @ cs)))"
      proof (cases "m = l")
        case True
        then show ?thesis using lock_taken [OF r l False, of "Suc (grants l False cs)"] by simp
      next
        case False
        then show ?thesis using m by (intro lock_same [OF r]) auto
      qed
    qed
    ultimately show ?thesis using sys_invI [OF r k'] by simp
  qed
qed

lemma step_set_holder:
  assumes r: "running L k (C_set_holder l) cs" and s: "set_holder l (pop k) = Some k'"
  shows "sys_inv L k' \<and> k_holder k l = THREAD_NULL \<and> k_holder k' l = k_cur k"
proof -
  note rd = runningD [OF r]
  have l: "l \<in> L" using rd(6) by simp
  have ni: "k_cur k \<noteq> k_idle k" using not_idle [OF r] by simp
  have k': "kinv (Some (k_cur k')) k'" using set_holder_kinv [OF rd(2) s] by simp
  have e: "eff (pop k) k' [] (value_of k) ((k_holder k)(l := k_cur k)) (k_cond k)"
    using set_holder_eff [OF s] by simp
  have g: "grants l False (k_cont k (k_cur k)) = Suc (grants l False cs)" by (simp add: rd(5))
  have now: "value_of k (lock_sema l) = 0" "k_holder k l = THREAD_NULL" "grants l False cs = 0"
    "\<And>u. u \<noteq> k_cur k \<Longrightarrow> grants l False (k_cont k u) = 0"
  proof -
    have "\<not> (\<forall>t. grants l False (k_cont k t) = 0)" using g by (metis nat.distinct(1))
    with lock_now [OF r l] obtain t where t: "value_of k (lock_sema l) = 0" "k_holder k l = THREAD_NULL"
      "grants l False (k_cont k t) = 1" "\<And>u. u \<noteq> t \<Longrightarrow> grants l False (k_cont k u) = 0"
      by (auto simp: lock_ok_def)
    from t(4) [of "k_cur k"] g have "t = k_cur k" by fastforce
    with t g show "value_of k (lock_sema l) = 0" "k_holder k l = THREAD_NULL" "grants l False cs = 0"
      "\<And>u. u \<noteq> k_cur k \<Longrightarrow> grants l False (k_cont k u) = 0" by simp_all
  qed
  have "inv_stacks L k'" by (rule stacks_eff [OF r e]) (use rd(7) ni conds_ok [OF r] in auto)
  moreover have "inv_locks L k'"
  proof (rule locks_eff [OF r e])
    fix m assume m: "m \<in> L"
    show "lock_ok m (value_of k (lock_sema m)) (((k_holder k)(l := k_cur k)) m)
        ((\<lambda>t. grants m False (k_cont k t))(k_cur k := grants m False ([] @ cs)))"
    proof (cases "m = l")
      case True
      then show ?thesis using now rd(12) by (simp add: lock_ok_def)
    next
      case False
      then show ?thesis using m by (intro lock_same [OF r]) auto
    qed
  qed
  ultimately show ?thesis using sys_invI [OF r k'] now(2) eff_pop(3) [OF r e] by simp
qed

lemma step_lock_try_acquire:
  assumes r: "running L k (C_lock_try_acquire l) cs" and s: "ret_bool (lock_try_acquire l (pop k)) = Some k'"
  shows "sys_inv L k' \<and> (k_holder k' = k_holder k \<or> k_holder k l = THREAD_NULL \<and> k_holder k' = (k_holder k)(l := k_cur k))"
proof -
  note rd = runningD [OF r]
  have l: "l \<in> L" using rd(6) by simp
  have ni: "k_cur k \<noteq> k_idle k" using not_idle [OF r] by simp
  from s obtain k1 b where k1: "lock_try_acquire l (pop k) = Some (k1, b)" "k' = set_ret (if b then 1 else 0) k1"
    by (auto simp: ret_bool_def bind_Some_iff)
  note te = lock_try_acquire_eff [OF k1(1)]
  have k': "kinv (Some (k_cur k')) k'"
    using lock_try_acquire_kinv [OF rd(2) k1(1)] by (simp add: k1(2) kinv_ret)
  have ret: "eff j (set_ret v k1) ds f h d = eff j k1 ds f h d" for j v ds f h d
    by (simp add: eff_def set_ret_def value_of_def fun_eq_iff)
  show ?thesis
  proof (cases b)
    case False
    with te have e: "eff (pop k) k' [] (value_of k) (k_holder k) (k_cond k)" by (simp add: k1(2) ret)
    show ?thesis using restoring_step [OF r k' e] eff_pop(3) [OF r e] by simp
  next
    case True
    with te have e: "eff (pop k) k' [] ((value_of k)(lock_sema l := value_of k (lock_sema l) - 1))
        ((k_holder k)(l := k_cur k)) (k_cond k)" and v: "value_of k (lock_sema l) \<noteq> 0"
      by (simp_all add: k1(2) ret)
    have now: "value_of k (lock_sema l) = 1" "k_holder k l = THREAD_NULL" "\<And>t. grants l False (k_cont k t) = 0"
      using lock_now [OF r l] v by (auto simp: lock_ok_def)
    have g: "grants l False cs = 0" using now(3) [of "k_cur k"] by (simp add: rd(5))
    have "inv_stacks L k'" by (rule stacks_eff [OF r e]) (use rd(7) ni conds_ok [OF r] in auto)
    moreover have "inv_locks L k'"
    proof (rule locks_eff [OF r e])
      fix m assume m: "m \<in> L"
      show "lock_ok m (((value_of k)(lock_sema l := value_of k (lock_sema l) - 1)) (lock_sema m))
          (((k_holder k)(l := k_cur k)) m) ((\<lambda>t. grants m False (k_cont k t))(k_cur k := grants m False ([] @ cs)))"
      proof (cases "m = l")
        case True
        then show ?thesis using now rd(12) g by (simp add: lock_ok_def)
      next
        case False
        then show ?thesis using m by (intro lock_same [OF r]) auto
      qed
    qed
    ultimately show ?thesis using sys_invI [OF r k'] now(2) eff_pop(3) [OF r e] by simp
  qed
qed

text \<open>The holder gives the lock back: the semaphore is at one again.\<close>

lemma lock_given_back:
  assumes r: "running L k c cs" and l: "l \<in> L" and h: "k_holder k l = k_cur k"
    and g: "g = grants l False (c # cs)"
  shows "lock_ok l ((value_of k (lock_sema l) + 1) mod 2 ^ 32) THREAD_NULL ((\<lambda>t. grants l False (k_cont k t))(k_cur k := g))"
proof -
  have now: "value_of k (lock_sema l) = 0" "\<And>t. grants l False (k_cont k t) = 0"
    using lock_now [OF r l] h runningD(12) [OF r] by (auto simp: lock_ok_def)
  then have "g = 0" using g runningD(5) [OF r] by metis
  with now show ?thesis by (simp add: lock_ok_def)
qed

lemma step_lock_release:
  assumes r: "running L k (C_lock_release l) cs" and s: "lock_release l (pop k) = Some k'"
  shows "sys_inv L k'"
proof -
  note rd = runningD [OF r]
  have l: "l \<in> L" using rd(6) by simp
  have ni: "k_cur k \<noteq> k_idle k" using not_idle [OF r] by simp
  have k': "kinv (Some (k_cur k')) k'" using lock_release_kinv [OF _ s] rd(2) by simp
  have e: "eff (pop k) k' [C_intr_set False, C_intr_set (k_intr k)]
      ((value_of k)(lock_sema l := (value_of k (lock_sema l) + 1) mod 2 ^ 32)) ((k_holder k)(l := THREAD_NULL)) (k_cond k)"
    and h: "k_holder k l = k_cur k"
    using lock_release_eff [OF s] by simp_all
  have "inv_stacks L k'" by (rule stacks_eff [OF r e]) (use rd(7) ni conds_ok [OF r] in auto)
  moreover have "inv_locks L k'"
  proof (rule locks_eff [OF r e])
    fix m assume m: "m \<in> L"
    show "lock_ok m (((value_of k)(lock_sema l := (value_of k (lock_sema l) + 1) mod 2 ^ 32)) (lock_sema m))
        (((k_holder k)(l := THREAD_NULL)) m)
        ((\<lambda>t. grants m False (k_cont k t))(k_cur k := grants m False ([C_intr_set False, C_intr_set (k_intr k)] @ cs)))"
    proof (cases "m = l")
      case True
      then show ?thesis using lock_given_back [OF r l h, of "grants l False cs"] by simp
    next
      case False
      then show ?thesis using m by (intro lock_same [OF r]) auto
    qed
  qed
  ultimately show ?thesis using sys_invI [OF r k'] by simp
qed

lemma step_cond_wait:
  assumes r: "running L k (C_cond_wait q l w) cs" and s: "cond_wait q l w (pop k) = Some k'"
  shows "sys_inv L k'"
proof -
  note rd = runningD [OF r]
  have l: "l \<in> L" and w: "waiter_sema w \<notin> lock_sema ` L" using rd(6) by simp_all
  have ni: "k_cur k \<noteq> k_idle k" using not_idle [OF r] by simp
  have k': "kinv (Some (k_cur k')) k'" using cond_wait_kinv [OF _ s] rd(2) by simp
  let ?ds = "[C_intr_set False, C_intr_set (k_intr k), C_sema_down (waiter_sema w), C_lock_acquire l]"
  let ?f = "((value_of k)(waiter_sema w := 0))(lock_sema l := (value_of k (lock_sema l) + 1) mod 2 ^ 32)"
  have wl: "waiter_sema w \<noteq> lock_sema m" if "m \<in> L" for m using w that by auto
  have e: "eff (pop k) k' ?ds ?f ((k_holder k)(l := THREAD_NULL))
      ((k_cond k)(q := insert_ordered (junk_larger (pop k)) w (k_cond k q)))"
    and h: "k_holder k l = k_cur k"
    using cond_wait_eff [OF s] wl [OF l] by (simp_all add: Let_def)
  have "inv_stacks L k'"
    by (rule stacks_eff [OF r e]) (use rd(7) l w ni conds_ok [OF r] in \<open>auto split: if_splits\<close>)
  moreover have "inv_locks L k'"
  proof (rule locks_eff [OF r e])
    fix m assume m: "m \<in> L"
    show "lock_ok m (?f (lock_sema m)) (((k_holder k)(l := THREAD_NULL)) m)
        ((\<lambda>t. grants m False (k_cont k t))(k_cur k := grants m False (?ds @ cs)))"
    proof (cases "m = l")
      case True
      then show ?thesis using lock_given_back [OF r l h, of "grants l False cs"] by simp
    next
      case False
      then show ?thesis using m wl [OF m] by (intro lock_same [OF r]) auto
    qed
  qed
  ultimately show ?thesis using sys_invI [OF r k'] by simp
qed

lemma cond_rest_ok:
  assumes r: "running L k c cs" and m: "mset (w # rest) = mset (k_cond k q)" and v: "v \<in> set (((k_cond k)(q := rest)) q')"
  shows "waiter_sema v \<notin> lock_sema ` L" "waiter_sema w \<notin> lock_sema ` L"
proof -
  have "set (w # rest) = set (k_cond k q)" using m by (rule mset_eq_setD)
  then show "waiter_sema w \<notin> lock_sema ` L" "waiter_sema v \<notin> lock_sema ` L"
    using conds_ok [OF r, of w q] conds_ok [OF r, of v q] conds_ok [OF r, of v q'] v by (auto split: if_splits)
qed

lemma step_signal:
  assumes r: "running L k c cs" and q: "quiet L c" "\<not> idle_code c" and ds: "\<forall>x \<in> set ds. quiet L x \<and> code_ok L x \<and> creates x = []"
    and s: "cond_signal cv l (push ds (pop k)) = Some k'"
  shows "sys_inv L k'"
proof -
  note rd = runningD [OF r]
  have ni: "k_cur k \<noteq> k_idle k" using not_idle [OF r q(2)] .
  have "kinv (Some (k_cur (push ds (pop k)))) (push ds (pop k))" using rd(2) ds by (simp add: kinv_push)
  from cond_signal_kinv [OF this s] have k': "kinv (Some (k_cur k')) k'" .
  from cond_signal_eff [OF s] show ?thesis
  proof (elim disjE exE conjE)
    assume "eff (push ds (pop k)) k' [] (value_of (push ds (pop k))) (k_holder (push ds (pop k))) (k_cond (push ds (pop k)))"
    then have e: "eff (pop k) k' ds (value_of k) (k_holder k) (k_cond k)" by (simp add: eff_push)
    show ?thesis by (rule quiet_step [OF r k' e q(1)]) (use ds ni conds_ok [OF r] in auto)
  next
    fix w rest
    assume m: "mset (w # rest) = mset (k_cond (push ds (pop k)) cv)"
      and "eff (push ds (pop k)) k' [C_intr_set False, C_intr_set (k_intr (push ds (pop k)))]
        ((value_of (push ds (pop k)))(waiter_sema w := (value_of (push ds (pop k)) (waiter_sema w) + 1) mod 2 ^ 32))
        (k_holder (push ds (pop k))) ((k_cond (push ds (pop k)))(cv := rest))"
    then have e: "eff (pop k) k' ([C_intr_set False, C_intr_set (k_intr k)] @ ds)
        ((value_of k)(waiter_sema w := (value_of k (waiter_sema w) + 1) mod 2 ^ 32)) (k_holder k) ((k_cond k)(cv := rest))"
      by (simp add: eff_push)
    have m': "mset (w # rest) = mset (k_cond k cv)" using m by simp
    have w: "waiter_sema w \<notin> lock_sema ` L"
      using mset_eq_setD [OF m'] conds_ok [OF r, of w cv] by auto
    show ?thesis
      by (rule quiet_step [OF r k' e q(1)]) (use ds ni w cond_rest_ok(1) [OF r m'] in \<open>auto dest: lock_sema_ne\<close>)
  qed
qed

lemma step_cond_broadcast:
  assumes r: "running L k (C_cond_broadcast q l) cs" and s: "cond_broadcast q l (pop k) = Some k'"
  shows "sys_inv L k'"
proof (cases "k_cond k q = []")
  case True
  with s have k': "k' = pop k" by (auto simp: cond_broadcast_def split: if_splits)
  have e: "eff (pop k) k' [] (value_of k) (k_holder k) (k_cond k)" using k' by (simp add: eff_def)
  show ?thesis using restoring_step [OF r _ e] runningD(2) [OF r] by (simp add: k')
next
  case False
  with s have "cond_signal q l (push [C_cond_broadcast q l] (pop k)) = Some k'"
    by (auto simp: cond_broadcast_def split: if_splits)
  then show ?thesis using runningD(6) [OF r] by (intro step_signal [OF r]) auto
qed

lemma step_create:
  assumes r: "running L k (C_create page n p b) cs" and a: "palloc_ok (C_create page n p b) k"
    and s: "thread_create page n p b (pop k) = Some k'"
  shows "sys_inv L k'"
proof -
  note rd = runningD [OF r]
  have ni: "k_cur k \<noteq> k_idle k" using not_idle [OF r] by simp
  have ap: "palloc_ok (C_create page n p b) (pop k)" using a by (cases page) auto
  have k': "kinv (Some (k_cur k')) k'" using thread_create_kinv [OF rd(2) ap s] by simp
  show ?thesis
  proof (cases page)
    case None
    with s have k1: "k' = set_ret TID_ERROR (pop k)" by (simp add: thread_create_def)
    have e: "eff (pop k) k' [] (value_of k) (k_holder k) (k_cond k)"
      by (simp add: k1 eff_def) (simp add: set_ret_def)
    show ?thesis by (rule restoring_step [OF r k' e]) auto
  next
    case (Some t)
    with s obtain k1 where k1: "init_thread t n p (pop k) = Some k1"
      and k2: "k' = push [C_lock_acquire tid_lock, C_take_tid t b] k1"
      by (auto simp: thread_create_def bind_Some_iff)
    have f: "k_threads (pop k) t = None" "t \<noteq> THREAD_NULL" using a Some by simp_all
    from init_thread_kinv [OF rd(2) f k1]
    have e: "eff (pop k) k' [C_lock_acquire tid_lock, C_take_tid t b] (value_of k) (k_holder k) (k_cond k)"
      by (auto simp: k2 eff_def value_of_def fun_eq_iff)
    have t: "k_cont k t = []" "t \<noteq> k_cur k"
    proof -
      have n: "status k t = None" using f by (simp add: status_def)
      then show "k_cont k t = []" using rd(3) by (simp add: inv_stacks_def)
      show "t \<noteq> k_cur k" using n rd(8) by auto
    qed
    show ?thesis by (rule quiet_step [OF r k' e]) (use t ni rd(6,10) conds_ok [OF r] in auto)
  qed
qed

lemma step_take_tid:
  assumes r: "running L k (C_take_tid t b) cs"
  shows "sys_inv L (take_tid t b (pop k))"
proof -
  note rd = runningD [OF r]
  have ni: "k_cur k \<noteq> k_idle k" using not_idle [OF r] by simp
  have b: "b = []" using rd(6) by simp
  have k': "kinv (Some (k_cur (take_tid t b (pop k)))) (take_tid t b (pop k))"
    using take_tid_kinv [of k t cs] rd(1,5) b by simp
  have e: "eff (pop k) (take_tid t b (pop k)) [C_lock_release tid_lock, C_created t (k_next_tid (pop k)) b]
      (value_of k) (k_holder k) (k_cond k)"
    by (simp add: take_tid_def eff_def value_of_def fun_eq_iff)
  have "t \<in> set (pending k (k_cur k))" by (simp add: pending_def rd(5))
  then have t: "k_cont k t = []" "t \<noteq> k_cur k"
    using rd(3) kinv_cur(5) [OF rd(1)] by (auto simp: inv_stacks_def)
  show ?thesis by (rule quiet_step [OF r k' e]) (use b t ni rd(10) conds_ok [OF r] in auto)
qed

lemma pending_pop_subset: "k_cont k (k_cur k) = c # cs \<Longrightarrow> set (pending (pop k) u) \<subseteq> set (pending k u)"
  by (auto simp: pending_def)

lemma step_created:
  assumes r: "running L k (C_created t tid b) cs" and s: "thread_created t tid b (pop k) = Some k'"
  shows "sys_inv L k'"
proof -
  note rd = runningD [OF r]
  have ni: "k_cur k \<noteq> k_idle k" using not_idle [OF r] by simp
  have b: "b = []" using rd(6) by simp
  have k': "kinv (Some (k_cur k')) k'" using thread_created_kinv [OF rd(1) _ s [unfolded b]] rd(5) b by simp
  have cr: "creates (C_created t tid []) = [t]" by simp
  note pt = popped_thread [OF rd(1) rd(5) [unfolded b] cr]
  have tp: "t \<in> set (pending k (k_cur k))" by (simp add: pending_def rd(5))
  have t: "k_cont k t = []" "t \<noteq> k_cur k"
    using tp rd(3) kinv_cur(5) [OF rd(1)] by (auto simp: inv_stacks_def)
  define g where "g = (\<lambda>th. th\<lparr>t_tid := tid, t_stack := t_stack th - 12 - 4 - 28\<rparr> :: thread)"
  define k1 where "k1 = (upd_thread t g (pop k))\<lparr>k_cont := (k_cont (pop k))(t := [C_intr_set True])\<rparr>"
  from s b obtain ka kb kc k2 p where a: "alloc_frame t 12 (upd_thread t (\<lambda>th. th\<lparr>t_tid := tid\<rparr>) (pop k)) = Some ka"
      "alloc_frame t 4 ka = Some kb" "alloc_frame t 28 kb = Some kc"
    and k2: "thread_unblock t (kc\<lparr>k_cont := (k_cont kc)(t := [C_intr_set True])\<rparr>) = Some k2"
    and y: "(if p < priority_of (set_ret tid k2) t then thread_yield (set_ret tid k2) else Some (set_ret tid k2)) = Some k'"
    unfolding thread_created_def Let_def bind_Some_iff by blast
  have "kc = upd_thread t g (pop k)"
    using a by (simp add: alloc_frame_Some upd_thread_upd_thread comp_def g_def)
  then have "kc\<lparr>k_cont := (k_cont kc)(t := [C_intr_set True])\<rparr> = k1" by (simp add: k1_def)
  note e2 = thread_unblock_eff [OF k2 [unfolded this]]
  have f1: "k_cont k1 = (k_cont k)(k_cur k := cs, t := [C_intr_set True])" "k_cur k1 = k_cur k" "value_of k1 = value_of k"
    "k_holder k1 = k_holder k" "k_cond k1 = k_cond k" "k_idle k1 = k_idle k" "k_ext k1 = k_ext k" "status k1 = status k"
    by (simp_all add: k1_def g_def rd(5) value_of_def fun_eq_iff status_def)
  obtain ds where ds: "set ds \<subseteq> range C_intr_set" "eff k1 k' ds (value_of k) (k_holder k) (k_cond k)"
  proof (cases "p < priority_of (set_ret tid k2) t")
    case True
    with y have "thread_yield (set_ret tid k2) = Some k'" by simp
    from thread_yield_eff [OF this] e2 f1
    have "eff k1 k' [C_intr_set (k_intr k2)] (value_of k) (k_holder k) (k_cond k)"
      by (simp add: eff_def set_ret_def status_def value_of_def fun_eq_iff)
    then show ?thesis by (rule that [rotated]) auto
  next
    case False
    with y have "k' = set_ret tid k2" by simp
    with e2 f1 have "eff k1 k' [] (value_of k) (k_holder k) (k_cond k)"
      by (simp add: eff_def set_ret_def status_def value_of_def fun_eq_iff)
    then show ?thesis by (rule that [rotated]) auto
  qed
  then have c': "k_cont k' = (k_cont k)(k_cur k := ds @ cs, t := [C_intr_set True])" "value_of k' = value_of k"
    "k_holder k' = k_holder k" "k_cond k' = k_cond k" "k_idle k' = k_idle k" "k_ext k' = k_ext k"
    "\<And>u. status k' u = None \<Longrightarrow> status k u = None"
    using f1 t(2) by (auto simp: eff_def fun_eq_iff)
  have ds': "\<forall>x \<in> set ds. quiet L x \<and> code_ok L x \<and> creates x = []" using ds(1) by auto
  have "inv_stacks L k'"
  proof -
    have st: "status k t = Some THREAD_BLOCKED" "t \<noteq> k_idle k" using rd(1) tp by (auto simp: kinv_def inv_pend_def)
    have "stack_ok L (k_cont k' u)" for u
      using rd(3,7) stack_ok_quiet [of ds L cs] ds' by (auto simp: c'(1) inv_stacks_def)
    moreover have "idle_stack (k_cont k' (k_idle k'))" using rd(3) st(2) ni by (simp add: c' inv_stacks_def)
    moreover have "k_cont k' u = []" if "status k' u = None" for u
      using c'(7) [OF that] st(1) rd(3,8) by (auto simp: c'(1) inv_stacks_def)
    moreover have "k_cont k' v = []" if "v \<in> set (pending k' u)" for u v
    proof -
      have "v \<in> set (pending (pop k) u)"
        using that ds' rd(5) by (auto simp: pending_def c'(1) split: if_splits)
      then have "v \<in> set (pending k u)" "v \<noteq> t"
        using pt(5) [of u] rd(5) by (metis (no_types) pending_pop_subset subsetD) (use pt(5) [of u] \<open>v \<in> set (pending (pop k) u)\<close> in blast)
      moreover have "v \<noteq> k_cur k" using \<open>v \<in> set (pending k u)\<close> kinv_cur(5) [OF rd(1)] by blast
      ultimately show ?thesis using rd(3) by (auto simp: c'(1) inv_stacks_def)
    qed
    ultimately show ?thesis using rd(3) by (simp add: inv_stacks_def c'(4,6))
  qed
  moreover have "inv_locks L k'"
  proof -
    have "(\<lambda>u. grants l False (k_cont k' u)) = (\<lambda>u. grants l False (k_cont k u))" if "l \<in> L" for l
      using grants_quiet [of ds L l False cs] ds' that rd(5) t by (auto simp: c'(1) fun_eq_iff)
    then show ?thesis using rd(4) by (simp add: inv_locks_def c'(2,3))
  qed
  ultimately show ?thesis using sys_invI [OF r k'] by simp
qed

lemma step_exit:
  assumes r: "running L k C_exit cs" and s: "thread_exit (pop k) = Some k'"
  shows "sys_inv L k'"
proof -
  note rd = runningD [OF r]
  have ni: "k_cur k \<noteq> k_idle k" using not_idle [OF r] by simp
  have "stack_ok L (C_exit # cs)" using rd(3,5) by (metis inv_stacks_def)
  then have cs: "cs = []" by simp
  have k': "kinv (Some (k_cur k')) k'" using thread_exit_kinv [OF _ _ s] rd(2) ni by simp
  define k1 where "k1 = set_status (k_cur k) THREAD_DYING ((intr_disable (pop k))\<lparr>k_all := remove1 (k_cur k) (k_all k)\<rparr>)"
  have "schedule k1 = Some k'"
    using s by (auto simp: k1_def thread_exit_def bind_Some_iff Let_def dest!: thread_current_Some split: if_splits)
  from schedule_Some [OF this] obtain n where
    "k' = (if k_cur k1 \<noteq> n \<and> k_cur k1 \<noteq> k_initial k1 \<and> status k1 (k_cur k1) = Some THREAD_DYING
      then free_thread (k_cur k1) (switch_to n k1) else switch_to n k1)" by blast
  then have n: "k' = switch_to n k1 \<or> k' = free_thread (k_cur k) (switch_to n k1)"
    by (simp add: k1_def)
  have c: "k_cont k' = (k_cont k)(k_cur k := [])" "value_of k' = value_of k" "k_holder k' = k_holder k"
    "k_cond k' = k_cond k" "k_idle k' = k_idle k" "k_ext k' = k_ext k"
    using n rd(5) cs by (auto simp: k1_def free_thread_def value_of_def fun_eq_iff split: if_splits)
  have c7: "u = k_cur k \<or> status k u = None" if "status k' u = None" for u
  proof -
    have s1: "status k1 = (\<lambda>v. if v = k_cur k \<and> status k (k_cur k) \<noteq> None then Some THREAD_DYING else status k v)"
      by (auto simp: k1_def status_set_status fun_eq_iff)
    show ?thesis
    proof (cases "u = k_cur k")
      assume u: "u \<noteq> k_cur k"
      then have "status (switch_to n k1) u = None" using n that by (auto simp: status_free_thread)
      then have "status k1 u = None" by (auto simp: status_switch_to split: if_splits)
      with u show ?thesis by (simp add: s1)
    qed simp
  qed
  have "inv_stacks L k'"
    using rd(3) ni by (auto simp: inv_stacks_def c pending_def dest: c7)
  moreover have "inv_locks L k'"
  proof -
    have "(\<lambda>u. grants l False (k_cont k' u)) = (\<lambda>u. grants l False (k_cont k u))" for l
      using rd(5) cs by (auto simp: c fun_eq_iff)
    then show ?thesis using rd(4) by (simp add: inv_locks_def c)
  qed
  ultimately show ?thesis using sys_invI [OF r k'] by simp
qed

subsection \<open>Every step keeps the invariant\<close>

lemma step_run:
  assumes r: "running L k c cs" and a: "palloc_ok c k" and s: "run c (pop k) = Some k'"
  shows "sys_inv L k'"
proof (cases c)
  case (C_intr_set b) then show ?thesis using r s by (auto intro: step_intr_set)
next
  case C_yield then show ?thesis using r s by (auto intro: step_yield)
next
  case C_exit then show ?thesis using r s by (auto intro: step_exit)
next
  case (C_set_priority p) then show ?thesis using r s by (auto intro: step_set_priority)
next
  case (C_set_nice n) then show ?thesis using r s by (auto intro: step_set_nice)
next
  case (C_create g n p b) then show ?thesis using r s a step_create by auto
next
  case (C_take_tid t b) then show ?thesis using r s step_take_tid by auto
next
  case (C_created t i b) then show ?thesis using r s by (auto intro: step_created)
next
  case (C_idle_init x) then show ?thesis using runningD(6) [OF r] by simp
next
  case C_idle_block then show ?thesis using r s by (auto intro: step_idle_block)
next
  case C_idle_wake then show ?thesis using r s by (auto intro: step_idle_wake)
next
  case (C_sema_down x) then show ?thesis using r s by (auto intro: step_sema_down)
next
  case (C_sema_loop x) then show ?thesis using r s by (auto intro: step_sema_loop)
next
  case (C_sema_try_down x) then show ?thesis using r s by (auto intro: step_sema_try_down)
next
  case (C_sema_up x) then show ?thesis using r s by (auto intro: step_sema_up)
next
  case (C_lock_acquire l) then show ?thesis using r s by (auto intro: step_lock_acquire)
next
  case (C_set_holder l) then show ?thesis using r s step_set_holder by auto
next
  case (C_lock_try_acquire l) then show ?thesis using r s step_lock_try_acquire by auto
next
  case (C_lock_release l) then show ?thesis using r s by (auto intro: step_lock_release)
next
  case (C_cond_wait q l w) then show ?thesis using r s by (auto intro: step_cond_wait)
next
  case (C_cond_signal q l)
  then show ?thesis using step_signal [OF r, of "[]" q l k'] s by simp
next
  case (C_cond_broadcast q l) then show ?thesis using r s by (auto intro: step_cond_broadcast)
next
  case (C_sleep n) then show ?thesis using r s by (auto intro: step_sleep)
qed

text \<open>A call and an interrupt push pieces on the stack of the running thread.\<close>

lemma step_push:
  assumes i: "sys_inv L k" and k': "kinv (Some (k_cur k')) k'"
    and e: "eff k k' ds (value_of k) (k_holder k) (k_cond k)"
    and ds: "stack_ok L (ds @ k_cont k (k_cur k))" "\<forall>x \<in> set ds. creates x = []"
      "\<And>l. l \<in> L \<Longrightarrow> grants l False (ds @ k_cont k (k_cur k)) = grants l False (k_cont k (k_cur k))"
    and idle: "k_cur k = k_idle k \<Longrightarrow> \<forall>x \<in> set ds. idle_code x"
  shows "sys_inv L k'"
proof -
  have s: "inv_stacks L k" "inv_locks L k" "kinv (Some (k_cur k)) k" using i by (simp_all add: sys_inv_def)
  have run: "status k (k_cur k) = Some THREAD_RUNNING" by (rule kinv_running [OF s(3)])
  have c: "k_cont k' = (k_cont k)(k_cur k := ds @ k_cont k (k_cur k))" "value_of k' = value_of k"
    "k_holder k' = k_holder k" "k_cond k' = k_cond k" "k_idle k' = k_idle k" "k_ext k' = k_ext k"
    "\<And>u. status k' u = None \<Longrightarrow> status k u = None"
    using e by (simp_all add: eff_def)
  have pn: "pending k' u = pending k u" for u
    using ds(2) by (auto simp: pending_def c(1))
  have "idle_stack (k_cont k' (k_idle k'))"
    using s(1) idle idle_stack_append [of "k_cont k (k_idle k)" ds] by (auto simp: c inv_stacks_def)
  moreover have "k_cont k' u = []" if "status k' u = None" for u
    using c(7) [OF that] s(1) run by (auto simp: c(1) inv_stacks_def)
  moreover have "k_cont k' v = []" if "v \<in> set (pending k' u)" for u v
    using that s(1) kinv_cur(5) [OF s(3)] by (auto simp: c(1) pn inv_stacks_def)
  ultimately have "inv_stacks L k'" using s(1) ds(1) by (simp add: inv_stacks_def c(1,4,6))
  moreover have "inv_locks L k'"
  proof -
    have "(\<lambda>t. grants l False (k_cont k' t)) = (\<lambda>t. grants l False (k_cont k t))" if "l \<in> L" for l
      using ds(3) [OF that] by (auto simp: c(1) fun_eq_iff)
    then show ?thesis using s(2) by (simp add: inv_locks_def c(2,3))
  qed
  ultimately show ?thesis using i k' by (simp add: sys_inv_def)
qed

lemma sys_inv_step:
  assumes i: "sys_inv L k" and s: "kstep L k k'"
  shows "sys_inv L k'"
  using s
proof (cases rule: kstepE)
  case (K_run c cs)
  then show ?thesis using i step_run [of L k c cs k'] by (simp add: running_def)
next
  case (K_call c)
  have i': "kinv (Some (k_cur k)) k" "inv_stacks L k" using i by (simp_all add: sys_inv_def)
  have ni: "k_cur k \<noteq> k_idle k" using i'(2) K_call(2) by (auto simp: inv_stacks_def idle_stack_def)
  have c: "creates c = []" "code_ok L c" "quiet L c \<or> c = C_exit" "\<And>l. c \<noteq> C_sema_loop l" "\<And>l. c \<noteq> C_set_holder l"
    using K_call(3) by (cases c; simp)+
  have "eff k k' [c] (value_of k) (k_holder k) (k_cond k)" by (simp add: K_call(1) eff_def)
  then show ?thesis
    using kinv_push [of "Some (k_cur k)" k "[c]"] i' c ni K_call(2)
    by (intro step_push [OF i]) (auto simp: K_call(1))
next
  case K_tick
  have i': "kinv (Some (k_cur k)) k" "inv_stacks L k" using i by (simp_all add: sys_inv_def)
  from timer_intr_handler_eff [OF K_tick(2)] obtain ds
    where ds: "set ds \<subseteq> range C_intr_set" "eff k k' ds (value_of k) (k_holder k) (k_cond k)" by auto
  have q: "\<forall>x \<in> set ds. quiet L x \<and> code_ok L x \<and> creates x = [] \<and> idle_code x" using ds(1) by auto
  show ?thesis
    using timer_intr_handler_kinv [OF i'(1) K_tick(2)] i'(2) q
    by (intro step_push [OF i _ ds(2)]) (auto intro!: stack_ok_quiet grants_quiet simp: inv_stacks_def)
next
  case (K_junk j)
  have i': "kinv (Some (k_cur k)) k" using i by (simp add: sys_inv_def)
  have "kinv (Some (k_cur k)) (k\<lparr>k_junk := j\<rparr>)"
    by (rule kinv_cong [OF i']) (use i' in \<open>auto simp: waiters_def pending_def fun_eq_iff kinv_def\<close>)
  then have "kinv (Some (k_cur k')) k'" by (simp add: K_junk)
  then show ?thesis
    by (intro step_push [OF i, of k' "[]"]) (use i in \<open>auto simp: K_junk eff_def value_of_def fun_eq_iff sys_inv_def inv_stacks_def\<close>)
qed

lemma sys_inv_reach: "kreach L k0 k \<Longrightarrow> sys_inv L k0 \<Longrightarrow> sys_inv L k"
  by (induction rule: kreach.induct) (auto intro: sys_inv_step)

end
