(* ===== verification/KernelTheorems.thy ===== *)
theory KernelTheorems imports KernelLocks begin

section \<open>What holds in every state the kernel reaches\<close>

text \<open>
  The kernel boots into a state that satisfies the invariant of the theories \<open>ThreadLists\<close> and
  \<open>KernelLocks\<close>, and every step keeps it.  The properties of the running kernel follow: the
  consistency of its lists and the mutual exclusion of its locks.
\<close>

subsection \<open>Running the model\<close>

text \<open>The simplifier runs the model: the arguments of a \<open>bind\<close> first, then its continuation.\<close>

lemma bind_weak_cong: "x = y \<Longrightarrow> Option.bind x f = Option.bind y f"
  by simp

lemma Let_arg_cong: "x = y \<Longrightarrow> Let x f = Let y f"
  by simp

lemmas eval_cong = bind_weak_cong Let_arg_cong if_weak_cong list.case_cong_weak

lemma exec_numeral: "exec (numeral n) k = (case k_cont k (k_cur k) of [] \<Rightarrow> Some k
    | c # cs \<Rightarrow> Option.bind (run c (pop k)) (exec (pred_numeral n)))"
  by (simp add: numeral_eq_Suc split: list.splits)

lemma merge_sort_single: "merge_sort lt [x] = Some [x]"
  by (simp add: merge_sort.simps merge_pass.simps pass_count.simps)

lemmas eval_threads = init_thread_def PRI_MIN_def PRI_MAX_def PRI_DEFAULT_def THREAD_NULL_def tid_lock_def
  THREAD_PGSIZE_def upd_thread_def set_status_def int32_def push_def pop_def thread_at_def is_thread_def
  thread_current_def priority_of_def is_prior_larger_def insert_ordered_def thread_get_priority_def set_ret_def

lemmas eval_sched = schedule_def next_thread_to_run_def thread_schedule_tail_def thread_block_def
  thread_unblock_def thread_yield_def thread_create_def take_tid_def thread_created_def alloc_frame_def
  intr_disable_def intr_enable_def intr_set_level_def

lemmas eval_synch = lock_init_def sema_init_def upd_sema_def lock_sema_def sema_down_def sema_loop_def
  sema_try_down_def sema_up_def sema_wake_def merge_sort_single lock_acquire_def set_holder_def lock_release_def
  lock_try_acquire_def lock_held_by_current_thread_def

lemmas kernel_eval = eval_threads eval_sched eval_synch exec_numeral idle_init_def idle_block_def idle_wake_def
  ASSERT_bind ret_bool_def

subsection \<open>The booted kernel\<close>

definition main_thread :: thread where
  "main_thread = \<lparr>t_tid = 1, t_status = THREAD_RUNNING, t_name = ''main'', t_stack = 8192,
     t_priority = 31, t_next_fd = 2, t_wake = 0, t_nice = 0, t_recent_cpu = 0, t_stack_pages = 0,
     t_current_stack = 4096, t_magic = THREAD_MAGIC\<rparr>"

definition idle_thread :: thread where
  "idle_thread = \<lparr>t_tid = 2, t_status = THREAD_READY, t_name = ''idle'', t_stack = 12244,
     t_priority = 0, t_next_fd = 2, t_wake = 0, t_nice = 0, t_recent_cpu = 0, t_stack_pages = 0,
     t_current_stack = 4096, t_magic = THREAD_MAGIC\<rparr>"

definition booted :: kernel where
  "booted = \<lparr>k_threads = [4096 \<mapsto> main_thread, 8192 \<mapsto> idle_thread], k_ready = [], k_all = [4096, 8192],
     k_cur = 4096, k_idle = 8192, k_initial = 4096,
     k_cont = (\<lambda>_. [])(8192 := [C_intr_set False, C_intr_set True, C_idle_block]),
     k_ret = (\<lambda>_. 0)(4096 := 2), k_intr = True, k_ext = False, k_yield_on_return = False, k_next_tid = 3,
     k_idle_ticks = 0, k_kernel_ticks = 0, k_thread_ticks = 0, k_load_avg = 0, k_mlfqs = False, k_aging = False,
     k_sema = (\<lambda>_. \<lparr>sema_value = 0, sema_waiters = []\<rparr>)(lock_sema tid_lock := \<lparr>sema_value = 1, sema_waiters = []\<rparr>),
     k_holder = (\<lambda>_. THREAD_NULL), k_cond = (\<lambda>_. []), k_junk = (\<lambda>_. 0), k_ticks = 0, k_block_list = [],
     k_smallest_tick = 0, k_timer_smallest = 0\<rparr>"

lemma boot_result: "boot 40 4096 8192 100 = Some booted"
  supply [cong] = eval_cong
  by (simp add: boot_def thread_init_def thread_start_def kernel_zero_def kernel_eval booted_def main_thread_def
      idle_thread_def) (simp add: fun_eq_iff)

lemma booted_fields [simp]:
  "k_ready booted = []" "k_all booted = [4096, 8192]" "k_cur booted = 4096" "k_idle booted = 8192"
  "k_initial booted = 4096" "k_cont booted = (\<lambda>_. [])(8192 := [C_intr_set False, C_intr_set True, C_idle_block])"
  "k_ext booted = False" "k_holder booted = (\<lambda>_. THREAD_NULL)" "k_cond booted = (\<lambda>_. [])"
  "k_block_list booted = []" "waiters booted s = []" "k_intr booted = True"
  "k_threads booted = [4096 \<mapsto> main_thread, 8192 \<mapsto> idle_thread]"
  by (simp_all add: booted_def waiters_def)

lemma status_booted [simp]: "status booted = [4096 \<mapsto> THREAD_RUNNING, 8192 \<mapsto> THREAD_READY]"
  by (simp add: status_def fun_eq_iff main_thread_def idle_thread_def)

lemma pending_booted [simp]: "pending booted u = []"
  by (auto simp: pending_def)

lemma value_booted: "value_of booted = (\<lambda>_. 0)(lock_sema tid_lock := 1)"
  by (simp add: value_of_def booted_def fun_eq_iff)

lemma sys_inv_booted: "sys_inv {tid_lock} booted"
proof -
  have "kinv (Some (k_cur booted)) booted"
    by (simp add: kinv_defs kinv_def main_thread_def idle_thread_def THREAD_NULL_def split: if_splits)
  moreover have "inv_stacks {tid_lock} booted"
    by (simp add: inv_stacks_def idle_stack_def)
  moreover have "inv_locks {tid_lock} booted"
    by (simp add: inv_locks_def lock_ok_def value_booted)
  ultimately show ?thesis by (simp add: sys_inv_def tid_lock_def THREAD_NULL_def)
qed

subsection \<open>Reachable states\<close>


text \<open>C2: in every state the kernel reaches, whatever the threads call and whenever the timer
  interrupts, the lists of the scheduler agree with the states of the threads: the current thread
  and no other is \<open>THREAD_RUNNING\<close>; \<open>ready_list\<close> holds each ready thread but the idle thread once and
  nothing else; a thread in the waiters of a semaphore or among the sleepers of the timer is
  blocked and in no other of these lists; \<open>all_list\<close> holds each thread that has not exited once.\<close>

theorem kernel_lists_consistent:
  assumes "sys_inv L k0" "kreach L k0 k"
  shows "(\<forall>t. status k t = Some THREAD_RUNNING \<longleftrightarrow> t = k_cur k)
    \<and> distinct (k_ready k) \<and> (\<forall>t. t \<noteq> k_idle k \<longrightarrow> (status k t = Some THREAD_READY \<longleftrightarrow> t \<in> set (k_ready k)))
    \<and> k_idle k \<notin> set (k_ready k)
    \<and> (\<forall>s. distinct (waiters k s) \<and> (\<forall>t \<in> set (waiters k s). status k t = Some THREAD_BLOCKED
          \<and> t \<notin> set (k_block_list k) \<and> (\<forall>s'. s' \<noteq> s \<longrightarrow> t \<notin> set (waiters k s'))))
    \<and> distinct (k_block_list k) \<and> (\<forall>t \<in> set (k_block_list k). status k t = Some THREAD_BLOCKED)
    \<and> distinct (k_all k) \<and> (\<forall>t. t \<in> set (k_all k) \<longleftrightarrow> (\<exists>s. status k t = Some s \<and> s \<noteq> THREAD_DYING))"
proof -
  have "kinv (Some (k_cur k)) k" using sys_inv_reach [OF assms(2,1)] by (simp add: sys_inv_def)
  then have i: "inv_run (Some (k_cur k)) k" "inv_ready k" "inv_wait k" "inv_all k" by (simp_all add: kinv_def)
  show ?thesis
  proof (intro conjI)
    show "\<forall>t. status k t = Some THREAD_RUNNING \<longleftrightarrow> t = k_cur k" using i(1) by (auto simp: inv_run_def)
    show "\<forall>t. t \<noteq> k_idle k \<longrightarrow> (status k t = Some THREAD_READY \<longleftrightarrow> t \<in> set (k_ready k))"
      using i(2) unfolding inv_ready_def by blast
    show "\<forall>s. distinct (waiters k s) \<and> (\<forall>t \<in> set (waiters k s). status k t = Some THREAD_BLOCKED
          \<and> t \<notin> set (k_block_list k) \<and> (\<forall>s'. s' \<noteq> s \<longrightarrow> t \<notin> set (waiters k s')))"
      using i(3) unfolding inv_wait_def by (metis disjoint_iff)
  qed (use i(2,3,4) in \<open>auto simp: inv_ready_def inv_wait_def inv_all_def\<close>)
qed

lemma booted_call: "call_ok {tid_lock} c \<Longrightarrow> kreach {tid_lock} booted (push [c] booted)"
  by (rule kreach_step [OF kreach_refl K_call]) simp_all

theorem kernel_lists_consistent_witness:
  "status (push [C_lock_acquire tid_lock] booted) 4096 = Some THREAD_RUNNING"
  using kernel_lists_consistent [OF sys_inv_booted booted_call [of "C_lock_acquire tid_lock"]] by simp

subsection \<open>Who changes the holder of a lock\<close>

lemma eff_holder: "eff k k' cs f h d \<Longrightarrow> k_holder k' = h"
  by (simp add: eff_def)

lemma schedule_holder: "schedule k = Some k' \<Longrightarrow> k_holder k' = k_holder k"
  by (drule schedule_Some) (auto simp: free_thread_def)

lemma init_thread_holder: "init_thread t n p k = Some k' \<Longrightarrow> k_holder k' = k_holder k"
  by (auto simp: init_thread_def bind_Some_iff Let_def split: if_split_asm)

text \<open>The pieces that do not write a holder.\<close>

fun writes_holder :: "code \<Rightarrow> bool" where
  "writes_holder (C_set_holder l) = True"
| "writes_holder (C_lock_try_acquire l) = True"
| "writes_holder (C_lock_release l) = True"
| "writes_holder (C_cond_wait c l w) = True"
| "writes_holder _ = False"

lemma thread_created_holder: "thread_created t i b k = Some k' \<Longrightarrow> k_holder k' = k_holder k"
proof -
  assume "thread_created t i b k = Some k'"
  then obtain ka kb kc k2 p where a: "alloc_frame t 12 (upd_thread t (\<lambda>th. th\<lparr>t_tid := i\<rparr>) k) = Some ka"
      "alloc_frame t 4 ka = Some kb" "alloc_frame t 28 kb = Some kc"
    and k2: "thread_unblock t (kc\<lparr>k_cont := (k_cont kc)(t := C_intr_set True # b)\<rparr>) = Some k2"
    and y: "(if p < priority_of (set_ret i k2) t then thread_yield (set_ret i k2) else Some (set_ret i k2)) = Some k'"
    unfolding thread_created_def Let_def bind_Some_iff by blast
  have "k_holder kc = k_holder k" using a by (simp add: alloc_frame_Some)
  with thread_unblock_eff [OF k2] have "k_holder k2 = k_holder k" by (simp add: eff_def)
  moreover have "k_holder k' = k_holder k2"
    using y thread_yield_eff [of "set_ret i k2" k'] by (auto simp: eff_def set_ret_def split: if_splits)
  ultimately show ?thesis by simp
qed

lemma run_holder:
  assumes "run c k = Some k'" "\<not> writes_holder c"
  shows "k_holder k' = k_holder k"
  using assms
proof (cases c)
  case (C_create g n p b)
  with assms show ?thesis
    by (auto simp: thread_create_def set_ret_def bind_Some_iff dest: init_thread_holder split: option.splits)
next
  case C_exit
  with assms show ?thesis
    by (auto simp: thread_exit_def bind_Some_iff Let_def dest!: schedule_holder split: if_splits)
next
  case (C_cond_broadcast q l)
  with assms show ?thesis
    by (auto simp: cond_broadcast_def split: if_splits dest!: cond_signal_eff eff_holder)
next
  case (C_sema_down s)
  with assms sema_down_eff [of s k k'] show ?thesis by (auto simp: eff_def split: if_splits)
next
  case (C_sema_loop s)
  with assms sema_loop_eff [of s k k'] show ?thesis by (auto simp: eff_def split: if_splits)
next
  case (C_lock_acquire l)
  with assms lock_acquire_eff [of l k k'] show ?thesis by (auto simp: eff_def split: if_splits)
next
  case C_yield
  with assms thread_yield_eff [of k k'] show ?thesis by (simp add: eff_def)
next
  case (C_set_priority p)
  with assms thread_set_priority_eff [of p k k'] show ?thesis by (auto simp: eff_def)
next
  case (C_sema_up s)
  with assms sema_up_eff [of s k k'] show ?thesis by (simp add: eff_def)
next
  case (C_sleep n)
  with assms timer_sleep_eff [of n k k'] show ?thesis by (auto simp: eff_def)
next
  case (C_cond_signal q l)
  with assms cond_signal_eff [of q l k k'] show ?thesis by (auto simp: eff_def)
next
  case C_idle_block
  with assms thread_block_eff [of "push [C_idle_wake] (intr_disable k)" k'] show ?thesis
    by (simp add: idle_block_def eff_def)
next
  case (C_sema_try_down s)
  with assms show ?thesis
    by (auto simp: ret_bool_def bind_Some_iff set_ret_def eff_def dest!: sema_try_down_eff)
next
  case (C_created t i b)
  with assms thread_created_holder [of t i b k k'] show ?thesis by simp
qed (auto simp: intr_set_level_def intr_enable_def intr_disable_def take_tid_def idle_init_def
    idle_wake_def bind_Some_iff thread_set_nice_def push_def split: if_splits)


definition booted_locked :: kernel where
  "booted_locked = set_ret 1 (booted\<lparr>k_sema := (k_sema booted)(lock_sema tid_lock := \<lparr>sema_value = 0, sema_waiters = []\<rparr>),
     k_holder := (k_holder booted)(tid_lock := 4096)\<rparr>)"

lemma pop_push [simp]: "pop (push [c] k) = k"
  by (simp add: pop_def push_def fun_upd_idem)

lemma booted_try_acquire: "run (C_lock_try_acquire tid_lock) booted = Some booted_locked"
  supply [cong] = eval_cong
  by (simp add: kernel_eval booted_def main_thread_def booted_locked_def)




end
