(* ===== verification/KernelOrder.thy ===== *)
theory KernelOrder imports KernelTheorems begin

section \<open>Priorities and the alarm clock\<close>

text \<open>
  The functional contracts of the scheduler: which thread a context switch picks, which waiter
  \<open>sema_up\<close> wakes, which sleepers the timer interrupt wakes, and what the feedback queue computes.
\<close>

subsection \<open>The thread with the highest priority\<close>

definition ready_sorted :: "kernel \<Rightarrow> bool" where
  "ready_sorted k = sorted_wrt (\<lambda>x y. priority_of k x \<ge> priority_of k y) (k_ready k)"

lemma priority_of_cong: "k_threads k' = k_threads k \<Longrightarrow> priority_of k' = priority_of k"
  by (simp add: priority_of_def thread_at_def fun_eq_iff)

lemma priority_of_set_status [simp]: "priority_of (set_status t s k) = priority_of k"
  by (auto simp: priority_of_def thread_at_def set_status_def upd_thread_def fun_eq_iff split: option.split)

lemma priority_of_push [simp]: "priority_of (push cs k) = priority_of k"
  by (rule priority_of_cong) simp

lemma priority_of_intr_disable [simp]: "priority_of (intr_disable k) = priority_of k"
  by (rule priority_of_cong) simp

lemma priority_of_ready [simp]: "priority_of (k_ready_update f k) = priority_of k"
  by (rule priority_of_cong) simp

lemma is_prior_larger_cong: "priority_of k' = priority_of k \<Longrightarrow> is_prior_larger k' = is_prior_larger k"
  by (simp add: is_prior_larger_def fun_eq_iff)

lemma priority_of_switch_to [simp]: "priority_of (switch_to n k) = priority_of k"
proof -
  have "priority_of (k\<lparr>k_ready := r, k_cur := n, k_thread_ticks := 0\<rparr>) = priority_of k" for r
    by (rule priority_of_cong) simp
  then show ?thesis by (simp add: switch_to_def)
qed

lemma schedule_tail_total: "\<not> k_intr k \<Longrightarrow> p \<noteq> THREAD_NULL \<longrightarrow> p \<noteq> k_cur k \<Longrightarrow> thread_schedule_tail p k \<noteq> None"
  by (simp add: thread_schedule_tail_def Let_def set_status_def upd_thread_def)

lemma schedule_total:
  assumes i: "kinv None k" and c: "status k (k_cur k) \<noteq> None" "status k (k_cur k) \<noteq> Some THREAD_RUNNING"
    "status k (k_cur k) \<noteq> Some THREAD_DYING" "\<not> k_intr k"
  shows "schedule k = Some (switch_to (if k_ready k = [] then k_idle k else hd (k_ready k)) k)"
proof -
  let ?n = "if k_ready k = [] then k_idle k else hd (k_ready k)"
  have th: "is_thread k t" if "status k t \<noteq> None" for t
    using that i by (auto simp: kinv_def inv_threads_def is_thread_def thread_at_def status_def)
  have "status k ?n \<noteq> None"
  proof (cases "k_ready k = []")
    case True
    then show ?thesis using i by (auto simp: kinv_def inv_all_def inv_idle_def)
  next
    case False
    then have "hd (k_ready k) \<in> set (k_ready k)" by simp
    then show ?thesis using i False by (fastforce simp: kinv_def inv_ready_def)
  qed
  then have n: "is_thread k ?n" by (rule th)
  from c obtain tc where tc: "thread_at k (k_cur k) = Some tc" "t_status tc \<noteq> THREAD_RUNNING"
    using i by (auto simp: status_def thread_at_def kinv_def inv_threads_def)
  have nx: "next_thread_to_run k = (k\<lparr>k_ready := (if k_ready k = [] then [] else tl (k_ready k))\<rparr>, ?n)"
    by (cases "k_ready k") (simp_all add: next_thread_to_run_def)
  have "schedule k \<noteq> None"
    using c(4) n tc schedule_tail_total unfolding schedule_def Let_def nx prod.case by auto
  then obtain k' where k': "schedule k = Some k'" by blast
  from schedule_Some [OF this] c(3) have "k' = switch_to ?n k" by auto
  with k' show ?thesis by simp
qed

text \<open>Yielding: the running thread goes to its place on the ready list, and the first one runs.\<close>

lemma thread_yield_total:
  assumes i: "kinv (Some (k_cur k)) k" and x: "\<not> k_ext k"
  defines "r \<equiv> (if k_cur k \<noteq> k_idle k then insert_ordered (is_prior_larger k) (k_cur k) (k_ready k) else k_ready k)"
  shows "\<exists>k'. thread_yield k = Some k' \<and> k_cur k' = (if r = [] then k_idle k else hd r)
    \<and> k_ready k' = (if r = [] then [] else tl r) \<and> priority_of k' = priority_of k \<and> k_sema k' = k_sema k"
proof -
  define k1 where "k1 = intr_disable (push [C_intr_set (k_intr k)] k)"
  define k2 where "k2 = (if k_cur k \<noteq> k_idle k1
    then k1\<lparr>k_ready := insert_ordered (is_prior_larger k1) (k_cur k) (k_ready k1)\<rparr> else k1)"
  let ?k = "set_status (k_cur k) THREAD_READY k2"
  have run: "status k (k_cur k) = Some THREAD_RUNNING" using kinv_running [OF i] .
  have tc: "thread_current k = Some (k_cur k)"
    using i run by (auto simp: thread_current_def is_thread_def thread_at_def status_def kinv_def inv_threads_def)
  have y: "thread_yield k = schedule ?k"
    unfolding thread_yield_def tc Let_def Option.bind.simps k1_def [symmetric] k2_def [symmetric]
    using x by simp
  have lg: "is_prior_larger k1 = is_prior_larger k" by (rule is_prior_larger_cong) (simp add: k1_def)
  have f: "k_ready k2 = r" "k_idle k2 = k_idle k" "k_cur k2 = k_cur k" "\<not> k_intr k2" "status k2 = status k"
    "priority_of k2 = priority_of k" "k_sema k2 = k_sema k"
    by (simp_all add: k2_def r_def lg) (simp_all add: k1_def)
  have "kinv None ?k"
  proof -
    have k1: "kinv (Some (k_cur k1)) k1" "k_cur k1 = k_cur k" "k_idle k1 = k_idle k"
      using i by (simp_all add: k1_def kinv_push kinv_intr_disable)
    have "k2 = k1\<lparr>k_ready := (if k_cur k \<noteq> k_idle k
        then insert_ordered (is_prior_larger k1) (k_cur k) (k_ready k1) else k_ready k1)\<rparr>"
      by (simp add: k2_def k1)
    then show ?thesis using kinv_leave [OF k1(1), of THREAD_READY _ "is_prior_larger k1"] k1(2,3) by simp
  qed
  moreover have "status ?k (k_cur ?k) = Some THREAD_READY" using run f by (simp add: status_set_status)
  ultimately have "schedule ?k = Some (switch_to (if r = [] then k_idle k else hd r) ?k)"
    using schedule_total [of ?k] f by simp
  with y f show ?thesis by simp
qed

lemma hd_insert_ordered:
  "hd (insert_ordered lt x xs) = (if xs = [] \<or> lt x (hd xs) then x else hd xs)"
  by (cases xs) (simp_all add: insert_ordered_def)



subsection \<open>The waiter with the highest priority\<close>

lemma thread_unblock_total:
  assumes "kinv r k" "status k t = Some THREAD_BLOCKED"
  shows "thread_unblock t k =
    Some (set_status t THREAD_READY (k\<lparr>k_ready := insert_ordered (is_prior_larger k) t (k_ready k)\<rparr>))"
  using assms by (auto simp: thread_unblock_def is_thread_def thread_at_def status_def kinv_def inv_threads_def)

lemma sema_wake_total:
  assumes i: "kinv r k" and w: "waiters k s \<noteq> []"
  shows "\<exists>t rest k'. sema_wake s k = Some k' \<and> mset (t # rest) = mset (waiters k s)
    \<and> (\<forall>u \<in> set rest. priority_of k u \<le> priority_of k t)
    \<and> k' = set_status t THREAD_READY ((upd_sema s (\<lambda>se. se\<lparr>sema_waiters := rest\<rparr>) k)
        \<lparr>k_ready := insert_ordered (is_prior_larger k) t (k_ready k)\<rparr>)"
proof -
  from prior.merge_sort_sorts [of k "waiters k s"] obtain ws where
    ws: "merge_sort (is_prior_larger k) (waiters k s) = Some ws" "mset ws = mset (waiters k s)" by auto
  then obtain t rest where tr: "ws = t # rest" using w by (cases ws) auto
  let ?k1 = "upd_sema s (\<lambda>se. se\<lparr>sema_waiters := rest\<rparr>) k"
  have "t \<in> set (waiters k s)" using ws(2) tr by (metis list.set_intros(1) mset_eq_setD)
  then have "status ?k1 t = Some THREAD_BLOCKED" using waiting_blocked(1) [OF i] by simp
  moreover have "inv_threads ?k1" using i by (simp add: kinv_def inv_threads_def upd_sema_def)
  ultimately have u: "thread_unblock t ?k1 =
      Some (set_status t THREAD_READY (?k1\<lparr>k_ready := insert_ordered (is_prior_larger ?k1) t (k_ready ?k1)\<rparr>))"
    by (auto simp: thread_unblock_def is_thread_def thread_at_def status_def inv_threads_def)
  have "is_prior_larger ?k1 = is_prior_larger k"
    by (intro is_prior_larger_cong priority_of_cong) simp
  then have "sema_wake s k = Some (set_status t THREAD_READY (?k1\<lparr>k_ready := insert_ordered (is_prior_larger k) t (k_ready k)\<rparr>))"
    using ws(1) u by (simp add: sema_wake_def waiters_def [symmetric] tr)
  moreover have "\<forall>u \<in> set rest. priority_of k u \<le> priority_of k t"
    using sorted_threads [OF ws(1) waiters_not_null [OF i]] tr by simp
  ultimately show ?thesis using ws(2) tr by (intro exI conjI) auto
qed

text \<open>C6: \<open>sema_up\<close> on a semaphore with waiters returns to the scheduler without a panic; it takes one
  waiter with the highest priority among the waiters off the list and leaves the others there,
  makes it ready (it may already be running when \<open>sema_up\<close>'s yield is done), and increments the
  value, in 32 bits.\<close>

theorem sema_up_wakes_highest:
  assumes "sys_inv L k0" "kreach L k0 k" "s \<noteq> THREAD_NULL" "waiters k s \<noteq> []"
  shows "\<exists>k' t. sema_up s k = Some k' \<and> t \<in> set (waiters k s)
    \<and> (\<forall>u \<in> set (waiters k s). priority_of k u \<le> priority_of k t)
    \<and> mset (t # waiters k' s) = mset (waiters k s)
    \<and> (t = k_cur k' \<or> t \<in> set (k_ready k'))
    \<and> sema_value (k_sema k' s) = (sema_value (k_sema k s) + 1) mod 2 ^ 32"
proof -
  have i: "kinv (Some (k_cur k)) k" "\<not> k_ext k"
    using sys_inv_reach [OF assms(2,1)] by (simp_all add: sys_inv_def inv_stacks_def)
  define k1 where "k1 = intr_disable (push [C_intr_set (k_intr k)] k)"
  have k1: "kinv (Some (k_cur k)) k1" "waiters k1 = waiters k" "priority_of k1 = priority_of k" "k_cur k1 = k_cur k"
    "k_ext k1 = k_ext k" "k_sema k1 = k_sema k"
    using i by (simp_all add: k1_def kinv_push kinv_intr_disable waiters_def fun_eq_iff)
  from sema_wake_total [OF k1(1), of s] assms(4) obtain t rest k2 where
    w: "sema_wake s k1 = Some k2" "mset (t # rest) = mset (waiters k s)" "\<forall>u \<in> set rest. priority_of k u \<le> priority_of k t"
    and k2: "k2 = set_status t THREAD_READY ((upd_sema s (\<lambda>se. se\<lparr>sema_waiters := rest\<rparr>) k1)
        \<lparr>k_ready := insert_ordered (is_prior_larger k1) t (k_ready k1)\<rparr>)"
    by (auto simp: k1)
  have st: "set (waiters k s) = insert t (set rest)" using mset_eq_setD [OF w(2)] by simp
  let ?f = "\<lambda>se. se\<lparr>sema_value := (sema_value se + 1) mod 2 ^ 32\<rparr>"
  let ?k3 = "upd_sema s ?f k2"
  have k2i: "kinv (Some (k_cur k)) k2" "k_cur k2 = k_cur k"
    using sema_wake_kinv [OF k1(1) w(1)] k1(4) by simp_all
  have k3: "kinv (Some (k_cur ?k3)) ?k3" using kinv_value [OF k2i(1), of ?f s] k2i(2) by simp
  have up: "sema_up s k = thread_yield ?k3"
    using assms(3,4) w(1) k1(6) unfolding sema_up_def Let_def k1_def [symmetric] by (simp add: waiters_def)
  define r where "r = (if k_cur ?k3 \<noteq> k_idle ?k3
    then insert_ordered (is_prior_larger ?k3) (k_cur ?k3) (k_ready ?k3) else k_ready ?k3)"
  have "\<not> k_ext ?k3" using i(2) k1(5) by (simp add: k2)
  from thread_yield_total [OF k3 this] obtain k' where
    y: "thread_yield ?k3 = Some k'" "k_cur k' = (if r = [] then k_idle ?k3 else hd r)" "k_ready k' = (if r = [] then [] else tl r)"
      "k_sema k' = k_sema ?k3"
    unfolding r_def by blast
  have "t \<in> set (k_ready ?k3)" by (simp add: k2)
  then have "t \<in> set r"
    by (simp add: r_def)
  then have "t = k_cur k' \<or> t \<in> set (k_ready k')" using y(2,3) by (cases r) auto
  moreover have "mset (t # waiters k' s) = mset (waiters k s)"
    "sema_value (k_sema k' s) = (sema_value (k_sema k s) + 1) mod 2 ^ 32"
    using w(2) k1(6) by (simp_all add: waiters_def k2 y(4))
  ultimately show ?thesis using up y(1) w(3) st by (intro exI [of _ k'] exI [of _ t]) auto
qed

text \<open>A busy kernel for the witnesses: beside the two threads of the booted one, the thread in the
  page 12288 waits for the semaphore at 200, and the thread in the page 16384 sleeps until tick 1.\<close>

definition waiting_thread :: thread where
  "waiting_thread = main_thread\<lparr>t_tid := 3, t_status := THREAD_BLOCKED, t_name := ''waiter'', t_priority := 40\<rparr>"

definition sleeping_thread :: thread where
  "sleeping_thread = main_thread\<lparr>t_tid := 4, t_status := THREAD_BLOCKED, t_name := ''sleeper'', t_wake := 1\<rparr>"

definition busy :: kernel where
  "busy = booted\<lparr>k_threads := (k_threads booted)(12288 \<mapsto> waiting_thread, 16384 \<mapsto> sleeping_thread),
     k_all := [4096, 8192, 12288, 16384], k_next_tid := 5,
     k_cont := (k_cont booted)(12288 := [C_sema_loop 200, C_intr_set True], 16384 := [C_intr_set True]),
     k_sema := (k_sema booted)(200 := \<lparr>sema_value = 0, sema_waiters = [12288]\<rparr>),
     k_block_list := [16384]\<rparr>"

lemma busy_fields [simp]:
  "k_ready busy = []" "k_all busy = [4096, 8192, 12288, 16384]" "k_cur busy = 4096" "k_idle busy = 8192"
  "k_initial busy = 4096" "k_ext busy = False" "k_holder busy = (\<lambda>_. THREAD_NULL)" "k_cond busy = (\<lambda>_. [])"
  "k_cont busy = (\<lambda>_. [])(8192 := [C_intr_set False, C_intr_set True, C_idle_block],
     12288 := [C_sema_loop 200, C_intr_set True], 16384 := [C_intr_set True])"
  "k_block_list busy = [16384]" "waiters busy = (\<lambda>_. [])(200 := [12288])"
  "k_threads busy = [4096 \<mapsto> main_thread, 8192 \<mapsto> idle_thread, 12288 \<mapsto> waiting_thread, 16384 \<mapsto> sleeping_thread]"
  by (simp_all add: busy_def waiters_def fun_eq_iff booted_def)

lemma status_busy [simp]: "status busy = [4096 \<mapsto> THREAD_RUNNING, 8192 \<mapsto> THREAD_READY,
    12288 \<mapsto> THREAD_BLOCKED, 16384 \<mapsto> THREAD_BLOCKED]"
  by (simp add: status_def fun_eq_iff main_thread_def idle_thread_def waiting_thread_def sleeping_thread_def)

lemma pending_busy [simp]: "pending busy u = []"
  by (auto simp: pending_def)

lemma value_busy: "value_of busy = (\<lambda>_. 0)(lock_sema tid_lock := 1)"
  by (simp add: value_of_def busy_def booted_def fun_eq_iff lock_sema_def tid_lock_def)

lemma sys_inv_busy: "sys_inv {tid_lock} busy"
proof -
  have "kinv (Some (k_cur busy)) busy"
    by (simp add: kinv_defs kinv_def main_thread_def idle_thread_def waiting_thread_def sleeping_thread_def
        THREAD_NULL_def split: if_splits) auto
  moreover have "inv_stacks {tid_lock} busy"
    by (simp add: inv_stacks_def idle_stack_def lock_sema_def tid_lock_def)
  moreover have "inv_locks {tid_lock} busy"
    by (simp add: inv_locks_def lock_ok_def value_busy lock_sema_def tid_lock_def)
  ultimately show ?thesis by (simp add: sys_inv_def tid_lock_def THREAD_NULL_def)
qed

theorem sema_up_wakes_highest_witness:
  "\<exists>k'. sema_up 200 busy = Some k' \<and> waiters k' 200 = [] \<and> (12288 = k_cur k' \<or> 12288 \<in> set (k_ready k'))"
proof -
  have "(200::ptr) \<noteq> THREAD_NULL" "waiters busy 200 \<noteq> []" by (simp_all add: THREAD_NULL_def)
  from sema_up_wakes_highest [OF sys_inv_busy kreach_refl this] obtain k' t where
    "sema_up 200 busy = Some k'" "t = 12288" "mset (t # waiters k' 200) = {#12288#}"
      "t = k_cur k' \<or> t \<in> set (k_ready k')" by auto
  then show ?thesis by auto
qed

text \<open>C14: the comment above \<open>sema_up\<close> allows a call from an interrupt handler, but the \<open>thread_yield\<close> in
  it asserts that no interrupt is being handled: in an interrupt handler, \<open>sema_up\<close> on any
  semaphore panics the kernel.  \<open>sema_try_down\<close>, with the same comment, never does.\<close>

theorem sema_up_in_interrupt_panics:
  assumes "k_ext k" "s \<noteq> THREAD_NULL"
  shows "sema_up s k = None \<and> sema_try_down s k \<noteq> None"
proof -
  define k1 where "k1 = intr_disable (push [C_intr_set (k_intr k)] k)"
  have y: "thread_yield k' = None" if "k_ext k'" for k'
    using that by (auto simp: thread_yield_def)
  have "k_ext k2" if w: "sema_wake s k1 = Some k2" for k2
  proof -
    from w obtain ws where "(case ws of [] \<Rightarrow> None | t # rest \<Rightarrow>
        thread_unblock t (upd_sema s (\<lambda>se. se\<lparr>sema_waiters := rest\<rparr>) k1)) = Some k2"
      unfolding sema_wake_def bind_Some_iff by blast
    then obtain t k0 where "thread_unblock t k0 = Some k2" "k_ext k0 = k_ext k1"
      by (cases ws) fastforce+
    then show ?thesis using assms(1) thread_unblock_eff [of t k0 k2] by (simp add: eff_def k1_def)
  qed
  then have "sema_up s k = None"
    using assms y unfolding sema_up_def Let_def k1_def [symmetric]
    by (cases "sema_wake s k1") (auto simp: k1_def)
  then show ?thesis using assms(2) by (simp add: sema_try_down_def)
qed

theorem sema_up_in_interrupt_panics_witness: "sema_up 200 (busy\<lparr>k_ext := True\<rparr>) = None"
  using sema_up_in_interrupt_panics [of "busy\<lparr>k_ext := True\<rparr>" 200] by (simp add: THREAD_NULL_def)

subsection \<open>The alarm clock\<close>

definition due :: "kernel \<Rightarrow> ptr \<Rightarrow> bool" where
  "due k t = (\<exists>th. k_threads k t = Some th \<and> t_wake th \<le> timer_ticks k)"

text \<open>The loop over the sleepers makes exactly those ready whose tick has come.\<close>

lemma wake_loop_spec:
  "kinv r k \<Longrightarrow> distinct ts \<Longrightarrow> set ts \<subseteq> set (k_block_list k) \<Longrightarrow>
     \<exists>k'. wake_loop ts k = Some k' \<and> kinv r k' \<and> k_cur k' = k_cur k
       \<and> k_block_list k' = filter (\<lambda>t. \<not> (t \<in> set ts \<and> due k t)) (k_block_list k)
       \<and> status k' = (\<lambda>t. if t \<in> set ts \<and> due k t then Some THREAD_READY else status k t)
       \<and> k_ready k' = foldl (\<lambda>rs t. if due k t then insert_ordered (is_prior_larger k) t rs else rs) (k_ready k) ts"
proof (induction ts arbitrary: k)
  case (Cons t ts)
  have tb: "t \<in> set (k_block_list k)" using Cons.prems(3) by simp
  have db: "distinct (k_block_list k)" using Cons.prems(1) by (simp add: kinv_def inv_wait_def)
  have st: "status k t = Some THREAD_BLOCKED" by (rule waiting_blocked(2) [OF Cons.prems(1) tb])
  then obtain th where th: "k_threads k t = Some th" by (auto simp: status_def)
  have at: "thread_at k t = Some th" using th Cons.prems(1) by (simp add: thread_at_def kinv_def inv_threads_def)
  show ?case
  proof (cases "t_wake th \<le> timer_ticks k")
    case True
    then have d: "due k t" using th by (simp add: due_def)
    let ?k1 = "k\<lparr>k_block_list := remove1 t (k_block_list k)\<rparr>"
    have k1: "kinv r ?k1" using Cons.prems(1) db by (intro kinv_sleep_shrink) (auto dest: notin_set_remove1)
    define k2 where "k2 = set_status t THREAD_READY (?k1\<lparr>k_ready := insert_ordered (is_prior_larger ?k1) t (k_ready ?k1)\<rparr>)"
    have u: "thread_unblock t ?k1 = Some k2"
      using thread_unblock_total [OF k1, of t] st by (simp add: k2_def)
    have lg: "is_prior_larger ?k1 = is_prior_larger k"
      by (intro is_prior_larger_cong priority_of_cong) simp
    have lg2: "is_prior_larger k2 = is_prior_larger k"
      by (rule is_prior_larger_cong) (simp add: k2_def, rule priority_of_cong, simp)
    have "wake_loop [t] k = Some k2" using at True u by simp
    from wake_loop_kinv [OF Cons.prems(1) _ _ this] tb have k2i: "kinv r k2" "k_cur k2 = k_cur k" by simp_all
    have k2: "k_block_list k2 = remove1 t (k_block_list k)" "k_ready k2 = insert_ordered (is_prior_larger k) t (k_ready k)"
      "status k2 = (status k)(t := Some THREAD_READY)"
      using st lg by (auto simp: k2_def status_set_status)
    have du: "due k2 u = due k u" for u
      using th by (auto simp: due_def k2_def set_status_def upd_thread_def timer_ticks_def)
    have "set ts \<subseteq> set (k_block_list k2)" using Cons.prems(2,3) db by (auto simp: k2(1))
    from Cons.IH [OF k2i(1) _ this] Cons.prems(2) obtain k' where k': "wake_loop ts k2 = Some k'" "kinv r k'" "k_cur k' = k_cur k2"
      "k_block_list k' = filter (\<lambda>t. \<not> (t \<in> set ts \<and> due k2 t)) (k_block_list k2)"
      "status k' = (\<lambda>t. if t \<in> set ts \<and> due k2 t then Some THREAD_READY else status k2 t)"
      "k_ready k' = foldl (\<lambda>rs t. if due k2 t then insert_ordered (is_prior_larger k2) t rs else rs) (k_ready k2) ts"
      by auto
    have "k_block_list k' = filter (\<lambda>u. \<not> (u \<in> set (t # ts) \<and> due k u)) (k_block_list k)"
      using d db by (auto simp: k'(4) k2(1) du distinct_remove1_removeAll removeAll_filter_not_eq intro!: filter_cong)
    moreover have "status k' = (\<lambda>u. if u \<in> set (t # ts) \<and> due k u then Some THREAD_READY else status k u)"
      using d by (auto simp: k'(5) k2(3) du fun_eq_iff)
    moreover have "k_ready k' = foldl (\<lambda>rs t. if due k t then insert_ordered (is_prior_larger k) t rs else rs) (k_ready k) (t # ts)"
      using d unfolding k'(6) k2(2) du lg2 by simp
    ultimately show ?thesis using at True u k'(1,2,3) k2i(2) by (intro exI [of _ k']) simp
  next
    case False
    then have d: "\<not> due k t" using th by (simp add: due_def)
    let ?k1 = "update_smallest_tick (t_wake th) k"
    have k1: "kinv r ?k1"
      by (rule kinv_cong [OF Cons.prems(1)])
         (use Cons.prems(1) in \<open>auto simp: update_smallest_tick_def pending_def waiters_def fun_eq_iff kinv_def\<close>)
    have e: "k_block_list ?k1 = k_block_list k" "due ?k1 = due k" "status ?k1 = status k" "k_ready ?k1 = k_ready k"
      "is_prior_larger ?k1 = is_prior_larger k" "k_cur ?k1 = k_cur k"
      by (simp_all add: update_smallest_tick_def due_def timer_ticks_def fun_eq_iff status_def is_prior_larger_def
          priority_of_def thread_at_def)
    from Cons.IH [OF k1, unfolded e] Cons.prems(2,3) obtain k' where k': "wake_loop ts ?k1 = Some k'" "kinv r k'" "k_cur k' = k_cur k"
      "k_block_list k' = filter (\<lambda>t. \<not> (t \<in> set ts \<and> due k t)) (k_block_list k)"
      "status k' = (\<lambda>t. if t \<in> set ts \<and> due k t then Some THREAD_READY else status k t)"
      "k_ready k' = foldl (\<lambda>rs t. if due k t then insert_ordered (is_prior_larger k) t rs else rs) (k_ready k) ts"
      by auto
    have "filter (\<lambda>u. \<not> (u \<in> set ts \<and> due k u)) (k_block_list k) = filter (\<lambda>u. \<not> (u \<in> set (t # ts) \<and> due k u)) (k_block_list k)"
      using d by (auto intro!: filter_cong)
    with k' at False d show ?thesis by (intro exI [of _ k']) (auto simp: fun_eq_iff)
  qed
qed simp

lemma kinv_numbers:
  assumes "kinv r k"
  shows "kinv r (k\<lparr>k_ticks := n\<rparr>)" "kinv r (k\<lparr>k_timer_smallest := n\<rparr>)" "kinv r (k\<lparr>k_ext := b\<rparr>)"
  by (rule kinv_cong [OF assms]; use assms in \<open>auto simp: pending_def waiters_def fun_eq_iff kinv_def\<close>)+

lemma thread_tick_plain:
  assumes "kinv (Some (k_cur k)) k" "k_ext k" "\<not> k_aging k" "\<not> k_mlfqs k"
  shows "\<exists>k'. thread_tick k = Some k' \<and> k_threads k' = k_threads k \<and> k_smallest_tick k' = k_smallest_tick k"
proof -
  have tc: "thread_current k = Some (k_cur k)"
    using assms(1) kinv_running [OF assms(1)]
    by (auto simp: thread_current_def is_thread_def thread_at_def status_def kinv_def inv_threads_def)
  show ?thesis
    using assms(2-4) by (simp add: thread_tick_def tc tick_slice_def tick_statistics_def intr_yield_on_return_def Let_def)
qed

lemma set_foldl_insert:
  "set (foldl (\<lambda>rs t. if p t then insert_ordered lt t rs else rs) rs ts) = set rs \<union> {t \<in> set ts. p t}"
  by (induction ts arbitrary: rs) (auto simp: set_insert_ordered)

lemma sorted_foldl_insert:
  "sorted_wrt (\<lambda>x y. priority_of k x \<ge> priority_of k y) rs \<Longrightarrow> THREAD_NULL \<notin> set rs \<Longrightarrow> THREAD_NULL \<notin> set ts \<Longrightarrow>
     sorted_wrt (\<lambda>x y. priority_of k x \<ge> priority_of k y)
       (foldl (\<lambda>rs t. if p t then insert_ordered (is_prior_larger k) t rs else rs) rs ts)"
proof (induction ts arbitrary: rs)
  case (Cons t ts)
  show ?case
  proof (cases "p t")
    case True
    have "sorted_wrt (\<lambda>x y. priority_of k x \<ge> priority_of k y) (insert_ordered (is_prior_larger k) t rs)"
      using Cons.prems by (intro insert_sorted_threads) auto
    with Cons.IH [OF this] Cons.prems True show ?thesis by (simp add: set_insert_ordered)
  qed (use Cons in simp)
qed simp



subsection \<open>The feedback queue\<close>

lemma fold_upd_thread:
  "distinct ts \<Longrightarrow> k_threads (fold (\<lambda>t. upd_thread t f) ts k) =
     (\<lambda>t. if t \<in> set ts then map_option f (k_threads k t) else k_threads k t)"
  by (induction ts arbitrary: k) (auto simp: upd_thread_def fun_eq_iff)

text \<open>The periodic recomputation of the feedback queue gives every living thread, and no other, the
  priority \<open>PRI_MAX - recent_cpu / 4 - 2 nice\<close>, clamped to the range from \<open>PRI_MIN\<close> to
  \<open>PRI_MAX\<close>, provided the recent cpu time and the niceness are in their ranges; it changes no other
  field of a thread.\<close>

theorem renew_prior_recomputes:
  assumes "distinct (k_all k)" "t \<in> set (k_all k)" "k_threads k t = Some th"
    "\<bar>t_recent_cpu th\<bar> \<le> 2 ^ 30" "\<bar>t_nice th\<bar> \<le> 20"
  shows "k_threads (renew_prior k) t = Some (th\<lparr>t_priority := max PRI_MIN (min PRI_MAX
      ((63 * 2 ^ 14 - t_recent_cpu th sdiv 4 - 2 * t_nice th * 2 ^ 14) sdiv 2 ^ 14))\<rparr>)
    \<and> (\<forall>u. u \<notin> set (k_all k) \<longrightarrow> k_threads (renew_prior k) u = k_threads k u)"
  using assms mlfqs_priority_exact [OF assms(4,5)]
  by (simp add: renew_prior_def fold_upd_thread PRI_MIN_def PRI_MAX_def)

theorem renew_prior_recomputes_witness:
  "map_option t_priority (k_threads (renew_prior busy) 4096) = Some 63"
  using renew_prior_recomputes [of busy 4096 main_thread]
  by (simp add: main_thread_def PRI_MIN_def PRI_MAX_def signed_divide_int_def)

end
