(* ===== verification/CString.thy ===== *)
theory CString imports Prelude begin

section \<open>lib/string.c: strings and blocks of memory\<close>

text \<open>
  The string library over a memory of bytes.  An address that is not mapped has no byte, and an
  access to it does not come back (\<open>None\<close>).  A loop that runs to the end of a string is a
  recursion in the option monad, since a memory in which the string has no end is possible;
  the lemmas show that it returns on strings (\<open>str_at\<close>).
\<close>

type_synonym mem = "ptr \<Rightarrow> byte option"

definition NULL :: ptr where "NULL = 0"

definition load :: "mem \<Rightarrow> ptr \<Rightarrow> byte option" where
  "load m p = m p"

definition store :: "ptr \<Rightarrow> byte \<Rightarrow> mem \<Rightarrow> mem option" where
  "store p b m = (case m p of None \<Rightarrow> None | Some _ \<Rightarrow> Some (m(p \<mapsto> b)))"

subsection \<open>Blocks of memory\<close>

fun memcpy_loop :: "nat \<Rightarrow> ptr \<Rightarrow> ptr \<Rightarrow> mem \<Rightarrow> mem option" where
  "memcpy_loop 0 dst src m = Some m"
| "memcpy_loop (Suc n) dst src m = do {
     b \<leftarrow> load m src;
     m \<leftarrow> store dst b m;
     memcpy_loop n (dst + 1) (src + 1) m }"

text \<open>The routines that return an address and change the memory return both.\<close>

definition memcpy :: "ptr \<Rightarrow> ptr \<Rightarrow> nat \<Rightarrow> mem \<Rightarrow> (ptr \<times> mem) option" where
  "memcpy dst src sz m = do {
     ASSERT (dst \<noteq> NULL \<or> sz = 0);
     ASSERT (src \<noteq> NULL \<or> sz = 0);
     m \<leftarrow> memcpy_loop sz dst src m;
     Some (dst, m) }"

fun memmove_down :: "nat \<Rightarrow> ptr \<Rightarrow> ptr \<Rightarrow> mem \<Rightarrow> mem option" where
  "memmove_down 0 dst src m = Some m"
| "memmove_down (Suc n) dst src m = do {
     b \<leftarrow> load m (src + n);
     m \<leftarrow> store (dst + n) b m;
     memmove_down n dst src m }"

text \<open>\<open>memmove\<close> returns its variable \<open>dst\<close>, which the upward loop has moved to the end of the block
  and the downward loop back to its start.\<close>

definition memmove :: "ptr \<Rightarrow> ptr \<Rightarrow> nat \<Rightarrow> mem \<Rightarrow> (ptr \<times> mem) option" where
  "memmove dst src sz m = do {
     ASSERT (dst \<noteq> NULL \<or> sz = 0);
     ASSERT (src \<noteq> NULL \<or> sz = 0);
     if dst < src then do { m \<leftarrow> memcpy_loop sz dst src m; Some (dst + sz, m) }
     else do { m \<leftarrow> memmove_down sz dst src m; Some (dst, m) } }"

fun memcmp_loop :: "nat \<Rightarrow> ptr \<Rightarrow> ptr \<Rightarrow> mem \<Rightarrow> int option" where
  "memcmp_loop 0 a b m = Some 0"
| "memcmp_loop (Suc n) a b m = do {
     x \<leftarrow> load m a;
     y \<leftarrow> load m b;
     if x \<noteq> y then Some (if x > y then 1 else - 1) else memcmp_loop n (a + 1) (b + 1) m }"

definition memcmp :: "ptr \<Rightarrow> ptr \<Rightarrow> nat \<Rightarrow> mem \<Rightarrow> int option" where
  "memcmp a b sz m = do {
     ASSERT (a \<noteq> NULL \<or> sz = 0);
     ASSERT (b \<noteq> NULL \<or> sz = 0);
     memcmp_loop sz a b m }"

fun memchr_loop :: "nat \<Rightarrow> ptr \<Rightarrow> byte \<Rightarrow> mem \<Rightarrow> ptr option" where
  "memchr_loop 0 block ch m = Some NULL"
| "memchr_loop (Suc n) block ch m = do {
     b \<leftarrow> load m block;
     if b = ch then Some block else memchr_loop n (block + 1) ch m }"

definition memchr :: "ptr \<Rightarrow> int \<Rightarrow> nat \<Rightarrow> mem \<Rightarrow> ptr option" where
  "memchr block ch sz m = do {
     ASSERT (block \<noteq> NULL \<or> sz = 0);
     memchr_loop sz block (word_of_int ch) m }"

fun memset_loop :: "nat \<Rightarrow> ptr \<Rightarrow> byte \<Rightarrow> mem \<Rightarrow> mem option" where
  "memset_loop 0 dst b m = Some m"
| "memset_loop (Suc n) dst b m = do { m \<leftarrow> store dst b m; memset_loop n (dst + 1) b m }"

definition memset :: "ptr \<Rightarrow> int \<Rightarrow> nat \<Rightarrow> mem \<Rightarrow> (ptr \<times> mem) option" where
  "memset dst val sz m = do {
     ASSERT (dst \<noteq> NULL \<or> sz = 0);
     m \<leftarrow> memset_loop sz dst (word_of_int val) m;
     Some (dst, m) }"

subsection \<open>Strings\<close>

partial_function (option) strlen_loop :: "mem \<Rightarrow> ptr \<Rightarrow> ptr option" where
  "strlen_loop m p = do {
     c \<leftarrow> load m p;
     if c \<noteq> 0 then strlen_loop m (p + 1) else Some p }"

definition strlen :: "ptr \<Rightarrow> mem \<Rightarrow> nat option" where
  "strlen string m = do {
     ASSERT (string \<noteq> NULL);
     p \<leftarrow> strlen_loop m string;
     Some (p - string) }"

partial_function (option) strnlen_loop :: "mem \<Rightarrow> ptr \<Rightarrow> nat \<Rightarrow> nat \<Rightarrow> nat option" where
  "strnlen_loop m string maxlen len = do {
     c \<leftarrow> load m (string + len);
     if c \<noteq> 0 \<and> len < maxlen then strnlen_loop m string maxlen (len + 1) else Some len }"

definition strnlen :: "ptr \<Rightarrow> nat \<Rightarrow> mem \<Rightarrow> nat option" where
  "strnlen string maxlen m = strnlen_loop m string maxlen 0"

partial_function (option) strcmp_loop :: "mem \<Rightarrow> ptr \<Rightarrow> ptr \<Rightarrow> int option" where
  "strcmp_loop m a b = do {
     x \<leftarrow> load m a;
     y \<leftarrow> load m b;
     if x \<noteq> 0 \<and> x = y then strcmp_loop m (a + 1) (b + 1)
     else Some (if x < y then - 1 else if x > y then 1 else 0) }"

definition strcmp :: "ptr \<Rightarrow> ptr \<Rightarrow> mem \<Rightarrow> int option" where
  "strcmp a b m = do { ASSERT (a \<noteq> NULL); ASSERT (b \<noteq> NULL); strcmp_loop m a b }"

partial_function (option) strchr_loop :: "mem \<Rightarrow> byte \<Rightarrow> ptr \<Rightarrow> ptr option" where
  "strchr_loop m c string = do {
     x \<leftarrow> load m string;
     if x = c then Some string
     else if x = 0 then Some NULL
     else strchr_loop m c (string + 1) }"

definition strchr :: "ptr \<Rightarrow> int \<Rightarrow> mem \<Rightarrow> ptr option" where
  "strchr string c m = do { ASSERT (string \<noteq> NULL); strchr_loop m (word_of_int c) string }"

text \<open>A character of a string as the \<open>int\<close> argument of \<open>strchr\<close>: \<open>char\<close> is signed.\<close>

definition char_arg :: "byte \<Rightarrow> int" where
  "char_arg c = sint c"

partial_function (option) strcspn_loop :: "mem \<Rightarrow> ptr \<Rightarrow> ptr \<Rightarrow> nat \<Rightarrow> nat option" where
  "strcspn_loop m string stop len = do {
     c \<leftarrow> load m (string + len);
     if c \<noteq> 0 then do {
       p \<leftarrow> strchr stop (char_arg c) m;
       if p \<noteq> NULL then Some len else strcspn_loop m string stop (len + 1) }
     else Some len }"

definition strcspn :: "ptr \<Rightarrow> ptr \<Rightarrow> mem \<Rightarrow> nat option" where
  "strcspn string stop m = strcspn_loop m string stop 0"

partial_function (option) strpbrk_loop :: "mem \<Rightarrow> ptr \<Rightarrow> ptr \<Rightarrow> ptr option" where
  "strpbrk_loop m stop string = do {
     c \<leftarrow> load m string;
     if c \<noteq> 0 then do {
       p \<leftarrow> strchr stop (char_arg c) m;
       if p \<noteq> NULL then Some string else strpbrk_loop m stop (string + 1) }
     else Some NULL }"

definition strpbrk :: "ptr \<Rightarrow> ptr \<Rightarrow> mem \<Rightarrow> ptr option" where
  "strpbrk string stop m = strpbrk_loop m stop string"

partial_function (option) strrchr_loop :: "mem \<Rightarrow> byte \<Rightarrow> ptr \<Rightarrow> ptr \<Rightarrow> ptr option" where
  "strrchr_loop m c string p = do {
     x \<leftarrow> load m string;
     if x \<noteq> 0 then strrchr_loop m c (string + 1) (if x = c then string else p) else Some p }"

definition strrchr :: "ptr \<Rightarrow> int \<Rightarrow> mem \<Rightarrow> ptr option" where
  "strrchr string c m = strrchr_loop m (word_of_int c) string NULL"

partial_function (option) strspn_loop :: "mem \<Rightarrow> ptr \<Rightarrow> ptr \<Rightarrow> nat \<Rightarrow> nat option" where
  "strspn_loop m string skip len = do {
     c \<leftarrow> load m (string + len);
     if c \<noteq> 0 then do {
       p \<leftarrow> strchr skip (char_arg c) m;
       if p = NULL then Some len else strspn_loop m string skip (len + 1) }
     else Some len }"

definition strspn :: "ptr \<Rightarrow> ptr \<Rightarrow> mem \<Rightarrow> nat option" where
  "strspn string skip m = strspn_loop m string skip 0"

text \<open>\<open>n\<close> positions are left to try from \<open>haystack + i\<close>.\<close>

fun strstr_loop :: "nat \<Rightarrow> ptr \<Rightarrow> ptr \<Rightarrow> nat \<Rightarrow> nat \<Rightarrow> mem \<Rightarrow> ptr option" where
  "strstr_loop 0 haystack needle needle_len i m = Some NULL"
| "strstr_loop (Suc n) haystack needle needle_len i m = do {
     c \<leftarrow> memcmp (haystack + i) needle needle_len m;
     if c = 0 then Some (haystack + i) else strstr_loop n haystack needle needle_len (i + 1) m }"

definition strstr :: "ptr \<Rightarrow> ptr \<Rightarrow> mem \<Rightarrow> ptr option" where
  "strstr haystack needle m = do {
     haystack_len \<leftarrow> strlen haystack m;
     needle_len \<leftarrow> strlen needle m;
     if haystack_len \<ge> needle_len
     then strstr_loop (haystack_len - needle_len + 1) haystack needle needle_len 0 m
     else Some NULL }"

definition strlcpy :: "ptr \<Rightarrow> ptr \<Rightarrow> nat \<Rightarrow> mem \<Rightarrow> (nat \<times> mem) option" where
  "strlcpy dst src sz m = do {
     ASSERT (dst \<noteq> NULL);
     ASSERT (src \<noteq> NULL);
     src_len \<leftarrow> strlen src m;
     if sz > 0 then do {
       let dst_len = (if src_len < sz - 1 then src_len else sz - 1);
       (_, m) \<leftarrow> memcpy dst src dst_len m;
       m \<leftarrow> store (dst + dst_len) 0 m;
       Some (src_len, m) }
     else Some (src_len, m) }"

definition strlcat :: "ptr \<Rightarrow> ptr \<Rightarrow> nat \<Rightarrow> mem \<Rightarrow> (nat \<times> mem) option" where
  "strlcat dst src sz m = do {
     ASSERT (dst \<noteq> NULL);
     ASSERT (src \<noteq> NULL);
     src_len \<leftarrow> strlen src m;
     dst_len \<leftarrow> strlen dst m;
     if sz > 0 \<and> dst_len < sz then do {
       let copy_cnt = (if src_len < sz - dst_len - 1 then src_len else sz - dst_len - 1);
       (_, m) \<leftarrow> memcpy (dst + dst_len) src copy_cnt m;
       m \<leftarrow> store (dst + dst_len + copy_cnt) 0 m;
       Some (src_len + dst_len, m) }
     else Some (src_len + dst_len, m) }"

text \<open>The tokenizer.  \<open>None\<close> in the loops' results is \<open>the end of the string\<close>.\<close>

partial_function (option) skip_delims :: "mem \<Rightarrow> ptr \<Rightarrow> ptr \<Rightarrow> (ptr \<times> bool) option" where
  "skip_delims m delims s = do {
     c \<leftarrow> load m s;
     p \<leftarrow> strchr delims (char_arg c) m;
     if p \<noteq> NULL then (if c = 0 then Some (s, True) else skip_delims m delims (s + 1))
     else Some (s, False) }"

partial_function (option) skip_token :: "mem \<Rightarrow> ptr \<Rightarrow> ptr \<Rightarrow> ptr option" where
  "skip_token m delims s = do {
     c \<leftarrow> load m s;
     p \<leftarrow> strchr delims (char_arg c) m;
     if p = NULL then skip_token m delims (s + 1) else Some s }"

text \<open>The token, the saved position and the memory.\<close>

definition strtok_r :: "ptr \<Rightarrow> ptr \<Rightarrow> ptr \<Rightarrow> mem \<Rightarrow> (ptr \<times> ptr \<times> mem) option" where
  "strtok_r s delims save m = do {
     ASSERT (delims \<noteq> NULL);
     let s = (if s = NULL then save else s);
     ASSERT (s \<noteq> NULL);
     (s, ended) \<leftarrow> skip_delims m delims s;
     if ended then Some (NULL, s, m)
     else do {
       e \<leftarrow> skip_token m delims s;
       c \<leftarrow> load m e;
       if c \<noteq> 0 then do { m \<leftarrow> store e 0 m; Some (s, e + 1, m) }
       else Some (s, e, m) } }"

declare strlen_loop.simps [code] strnlen_loop.simps [code] strcmp_loop.simps [code] strchr_loop.simps [code]
  strcspn_loop.simps [code] strpbrk_loop.simps [code] strrchr_loop.simps [code] strspn_loop.simps [code]
  skip_delims.simps [code] skip_token.simps [code]

subsection \<open>Bytes in memory\<close>

fun bytes_at :: "mem \<Rightarrow> ptr \<Rightarrow> byte list \<Rightarrow> bool" where
  "bytes_at m p [] = True"
| "bytes_at m p (b # bs) = (m p = Some b \<and> bytes_at m (p + 1) bs)"

definition put :: "ptr \<Rightarrow> byte list \<Rightarrow> mem \<Rightarrow> mem" where
  "put p bs m = (\<lambda>a. if p \<le> a \<and> a < p + length bs then Some (bs ! (a - p)) else m a)"

definition mapped :: "mem \<Rightarrow> ptr \<Rightarrow> nat \<Rightarrow> bool" where
  "mapped m p n = (\<forall>a. p \<le> a \<and> a < p + n \<longrightarrow> m a \<noteq> None)"

text \<open>A string: characters other than the null character, and then that one.\<close>

definition str_at :: "mem \<Rightarrow> ptr \<Rightarrow> byte list \<Rightarrow> bool" where
  "str_at m p cs = (bytes_at m p (cs @ [0]) \<and> 0 \<notin> set cs)"

lemma bytes_at_append: "bytes_at m p (xs @ ys) \<longleftrightarrow> bytes_at m p xs \<and> bytes_at m (p + length xs) ys"
  by (induction xs arbitrary: p) auto

lemma bytes_at_iff: "bytes_at m p bs \<longleftrightarrow> (\<forall>i < length bs. m (p + i) = Some (bs ! i))"
proof (induction bs arbitrary: p)
  case (Cons b bs)
  then show ?case by (simp add: All_less_Suc2)
qed simp

lemma bytes_at_cong: "(\<And>i. i < length bs \<Longrightarrow> m' (p + i) = m (p + i)) \<Longrightarrow> bytes_at m' p bs = bytes_at m p bs"
  by (simp add: bytes_at_iff)

lemma bytes_at_upd: "a < p \<or> p + length bs \<le> a \<Longrightarrow> bytes_at (m(a \<mapsto> b)) p bs = bytes_at m p bs"
  by (rule bytes_at_cong) auto

lemma bytes_at_put: "bytes_at (put p bs m) p bs"
  by (simp add: bytes_at_iff put_def)

lemma bytes_at_put_other:
  "p + length bs \<le> q \<or> q + length cs \<le> p \<Longrightarrow> bytes_at (put p bs m) q cs = bytes_at m q cs"
  by (rule bytes_at_cong) (auto simp: put_def)

lemma put_Cons: "put p (b # bs) m = put (p + 1) bs (m(p \<mapsto> b))"
  by (auto simp: put_def fun_eq_iff nth_Cons' split: if_splits)

lemma put_snoc: "put p (bs @ [b]) m = put p bs (m(p + length bs \<mapsto> b))"
  by (auto simp: put_def fun_eq_iff nth_append)

lemma put_put_next: "put (p + length bs) cs (put p bs m) = put p (bs @ cs) m"
  by (auto simp: put_def fun_eq_iff nth_append)

lemma put_Nil [simp]: "put p [] m = m"
  by (rule ext) (auto simp: put_def)

lemma mapped_upd: "mapped m p n \<Longrightarrow> mapped (m(a \<mapsto> b)) p n"
  by (simp add: mapped_def)

lemma mapped_store: "mapped m p n \<Longrightarrow> p \<le> a \<Longrightarrow> a < p + n \<Longrightarrow> store a b m = Some (m(a \<mapsto> b))"
  by (auto simp: mapped_def store_def split: option.splits)

lemma mapped_mono: "mapped m p n \<Longrightarrow> p \<le> q \<Longrightarrow> q + k \<le> p + n \<Longrightarrow> mapped m q k"
  by (simp add: mapped_def)

lemma mapped_put: "mapped m p n \<Longrightarrow> mapped (put q bs m) p n"
  by (simp add: mapped_def put_def)

lemma str_at_hd: "str_at m p cs \<Longrightarrow> load m p = Some (hd (cs @ [0]))"
  by (cases cs) (auto simp: str_at_def load_def)

lemma str_at_Nil: "str_at m p [] = (m p = Some 0)"
  by (simp add: str_at_def)

lemma str_at_Cons: "str_at m p (c # cs) \<longleftrightarrow> m p = Some c \<and> c \<noteq> 0 \<and> str_at m (p + 1) cs"
  by (auto simp: str_at_def)

lemma str_at_append: "str_at m p (xs @ ys) \<longleftrightarrow> bytes_at m p xs \<and> 0 \<notin> set xs \<and> str_at m (p + length xs) ys"
  by (auto simp: str_at_def bytes_at_append)

lemma load_str_Cons: "str_at m p (c # cs) \<Longrightarrow> load m p = Some c"
  by (simp add: str_at_Cons load_def)

subsection \<open>Copying\<close>

lemma memcpy_loop_put:
  "bytes_at m src bs \<Longrightarrow> mapped m dst (length bs) \<Longrightarrow> dst \<le> src \<or> src + length bs \<le> dst \<Longrightarrow>
     memcpy_loop (length bs) dst src m = Some (put dst bs m)"
proof (induction bs arbitrary: dst src m)
  case (Cons b bs)
  have "store dst b m = Some (m(dst \<mapsto> b))" using Cons.prems(2) by (rule mapped_store) auto
  moreover have "memcpy_loop (length bs) (dst + 1) (src + 1) (m(dst \<mapsto> b)) = Some (put (dst + 1) bs (m(dst \<mapsto> b)))"
  proof (rule Cons.IH)
    show "bytes_at (m(dst \<mapsto> b)) (src + 1) bs"
      using Cons.prems(1,3) by (subst bytes_at_upd) auto
    show "mapped (m(dst \<mapsto> b)) (dst + 1) (length bs)"
      using Cons.prems(2) by (intro mapped_upd mapped_mono [OF Cons.prems(2)]) auto
  qed (use Cons.prems(3) in auto)
  ultimately show ?case using Cons.prems(1) by (simp add: load_def put_Cons)
qed simp

lemma memmove_down_put:
  "bytes_at m src bs \<Longrightarrow> mapped m dst (length bs) \<Longrightarrow> src \<le> dst \<Longrightarrow>
     memmove_down (length bs) dst src m = Some (put dst bs m)"
proof (induction bs arbitrary: m rule: rev_induct)
  case (snoc b bs)
  let ?m = "m(dst + length bs \<mapsto> b)"
  have "store (dst + length bs) b m = Some ?m" using snoc.prems(2) by (rule mapped_store) auto
  moreover have "load m (src + length bs) = Some b" using snoc.prems(1) by (simp add: bytes_at_append load_def)
  moreover have "memmove_down (length bs) dst src ?m = Some (put dst bs ?m)"
  proof (rule snoc.IH)
    show "bytes_at ?m src bs"
      using snoc.prems(1,3) by (subst bytes_at_upd) (auto simp: bytes_at_append)
    show "mapped ?m dst (length bs)"
      by (intro mapped_upd mapped_mono [OF snoc.prems(2)]) auto
  qed (use snoc.prems(3) in auto)
  ultimately show ?case by (simp add: put_snoc)
qed simp

lemma memset_loop_put:
  "mapped m dst n \<Longrightarrow> memset_loop n dst b m = Some (put dst (replicate n b) m)"
proof (induction n arbitrary: dst m)
  case (Suc n)
  have "store dst b m = Some (m(dst \<mapsto> b))" using Suc.prems by (rule mapped_store) auto
  moreover have "mapped (m(dst \<mapsto> b)) (dst + 1) n"
    by (intro mapped_upd mapped_mono [OF Suc.prems]) auto
  ultimately show ?case using Suc.IH by (simp add: put_Cons)
qed simp

subsection \<open>Searching\<close>

lemma strlen_loop_str: "str_at m p cs \<Longrightarrow> strlen_loop m p = Some (p + length cs)"
proof (induction cs arbitrary: p)
  case Nil
  then show ?case by (subst strlen_loop.simps) (simp add: str_at_Nil load_def)
next
  case (Cons c cs)
  then show ?case by (subst strlen_loop.simps) (simp add: str_at_Cons load_def)
qed

lemma strlen_str: "str_at m p cs \<Longrightarrow> p \<noteq> NULL \<Longrightarrow> strlen p m = Some (length cs)"
  by (simp add: strlen_def strlen_loop_str)

lemma strchr_loop_str:
  "str_at m p cs \<Longrightarrow> strchr_loop m c p =
     Some (if c \<in> set (cs @ [0]) then p + length (takeWhile (\<lambda>x. x \<noteq> c) (cs @ [0])) else NULL)"
proof (induction cs arbitrary: p)
  case Nil
  then show ?case by (subst strchr_loop.simps) (auto simp: str_at_Nil load_def)
next
  case (Cons d cs)
  then show ?case by (subst strchr_loop.simps) (auto simp: str_at_Cons load_def)
qed

lemma word_of_int_char_arg [simp]: "word_of_int (char_arg c) = c"
  by (simp add: char_arg_def)

text \<open>The test by which the scans use \<open>strchr\<close>; the null character is found at the end.\<close>

lemma strchr_test:
  assumes "str_at m stop st" "stop \<noteq> NULL"
  shows "\<exists>p. strchr stop (char_arg c) m = Some p \<and> (p \<noteq> NULL \<longleftrightarrow> c \<in> insert 0 (set st))"
  using assms strchr_loop_str [OF assms(1), of c] by (auto simp: strchr_def NULL_def)

lemma strcspn_loop_str:
  assumes "str_at m stop st" "stop \<noteq> NULL"
  shows "str_at m (p + n) cs \<Longrightarrow> strcspn_loop m p stop n = Some (n + length (takeWhile (\<lambda>x. x \<notin> set st) cs))"
proof (induction cs arbitrary: n)
  case Nil
  then show ?case by (subst strcspn_loop.simps) (simp add: str_at_Nil load_def)
next
  case (Cons c cs)
  obtain q where q: "strchr stop (char_arg c) m = Some q" "q \<noteq> NULL \<longleftrightarrow> c \<in> insert 0 (set st)"
    using strchr_test [OF assms] by blast
  have "str_at m (p + (n + 1)) cs" using Cons.prems by (simp add: str_at_Cons)
  from Cons.IH [OF this] Cons.prems q show ?case
    by (subst strcspn_loop.simps) (auto simp: str_at_Cons load_def)
qed

lemma strspn_loop_str:
  assumes "str_at m skip st" "skip \<noteq> NULL"
  shows "str_at m (p + n) cs \<Longrightarrow> strspn_loop m p skip n = Some (n + length (takeWhile (\<lambda>x. x \<in> set st) cs))"
proof (induction cs arbitrary: n)
  case Nil
  then show ?case by (subst strspn_loop.simps) (simp add: str_at_Nil load_def)
next
  case (Cons c cs)
  obtain q where q: "strchr skip (char_arg c) m = Some q" "q \<noteq> NULL \<longleftrightarrow> c \<in> insert 0 (set st)"
    using strchr_test [OF assms] by blast
  have "str_at m (p + (n + 1)) cs" using Cons.prems by (simp add: str_at_Cons)
  from Cons.IH [OF this] Cons.prems q show ?case
    by (subst strspn_loop.simps) (auto simp: str_at_Cons load_def)
qed

lemma strpbrk_loop_str:
  assumes "str_at m stop st" "stop \<noteq> NULL"
  shows "str_at m p cs \<Longrightarrow> strpbrk_loop m stop p =
    Some (if set cs \<inter> set st = {} then NULL else p + length (takeWhile (\<lambda>x. x \<notin> set st) cs))"
proof (induction cs arbitrary: p)
  case Nil
  then show ?case by (subst strpbrk_loop.simps) (simp add: str_at_Nil load_def)
next
  case (Cons c cs)
  obtain q where q: "strchr stop (char_arg c) m = Some q" "q \<noteq> NULL \<longleftrightarrow> c \<in> insert 0 (set st)"
    using strchr_test [OF assms] by blast
  have "str_at m (p + 1) cs" using Cons.prems by (simp add: str_at_Cons)
  from Cons.IH [OF this] Cons.prems q show ?case
    by (subst strpbrk_loop.simps) (auto simp: str_at_Cons load_def)
qed

lemma strrchr_loop_str:
  "str_at m p cs \<Longrightarrow> strrchr_loop m c p r =
     Some (if c \<in> set cs then p + length cs - 1 - length (takeWhile (\<lambda>x. x \<noteq> c) (rev cs)) else r)"
proof (induction cs arbitrary: p r)
  case Nil
  then show ?case by (subst strrchr_loop.simps) (simp add: str_at_Nil load_def)
next
  case (Cons d cs)
  have "length (takeWhile (\<lambda>x. x \<noteq> c) (rev cs)) < length cs" if "c \<in> set cs"
  proof -
    have "length (takeWhile (\<lambda>x. x \<noteq> c) (rev cs)) + length (dropWhile (\<lambda>x. x \<noteq> c) (rev cs)) = length (rev cs)"
      by (metis length_append takeWhile_dropWhile_id)
    moreover have "dropWhile (\<lambda>x. x \<noteq> c) (rev cs) \<noteq> []" using that by simp
    ultimately show ?thesis by (metis add.commute less_add_same_cancel2 length_greater_0_conv length_rev)
  qed
  moreover have "takeWhile (\<lambda>x. x \<noteq> c) (rev cs @ [d]) = takeWhile (\<lambda>x. x \<noteq> c) (rev cs)" if "c \<in> set cs"
    using that by (intro takeWhile_append1) auto
  moreover have "takeWhile (\<lambda>x. x \<noteq> c) (rev cs @ [d]) = rev cs @ takeWhile (\<lambda>x. x \<noteq> c) [d]" if "c \<notin> set cs"
    using that by (intro takeWhile_append2) auto
  ultimately show ?case
    using Cons by (subst strrchr_loop.simps) (auto simp: str_at_Cons load_def)
qed

lemma strnlen_loop_str:
  "str_at m (p + n) cs \<Longrightarrow> n \<le> k \<Longrightarrow> strnlen_loop m p k n = Some (min k (n + length cs))"
proof (induction cs arbitrary: n)
  case Nil
  then show ?case by (subst strnlen_loop.simps) (simp add: str_at_Nil load_def)
next
  case (Cons c cs)
  show ?case
  proof (cases "n < k")
    case True
    have "str_at m (p + (n + 1)) cs" using Cons.prems by (simp add: str_at_Cons)
    from Cons.IH [OF this] True Cons.prems show ?thesis
      by (subst strnlen_loop.simps) (simp add: str_at_Cons load_def)
  next
    case False
    with Cons.prems show ?thesis by (subst strnlen_loop.simps) (simp add: str_at_Cons load_def)
  qed
qed

subsection \<open>Comparing\<close>

lemma memcmp_loop_bytes:
  "bytes_at m a as \<Longrightarrow> bytes_at m b bs \<Longrightarrow> length as = length bs \<Longrightarrow>
     memcmp_loop (length as) a b m = Some (if as = bs then 0 else if (as, bs) \<in> lexord {(x, y). x < y} then - 1 else 1)"
proof (induction as bs arbitrary: a b rule: list_induct2')
  case (4 x xs y ys)
  then show ?case by (auto simp: load_def)
qed auto

lemma strcmp_loop_str:
  "str_at m a as \<Longrightarrow> str_at m b bs \<Longrightarrow>
     strcmp_loop m a b = Some (if as = bs then 0 else if (as, bs) \<in> lexord {(x, y). x < y} then - 1 else 1)"
proof (induction as bs arbitrary: a b rule: list_induct2')
  case (4 x xs y ys)
  then show ?case by (subst strcmp_loop.simps) (auto simp: load_def str_at_Cons)
qed (subst strcmp_loop.simps; auto simp: load_def str_at_Cons str_at_Nil word_gt_0)+

subsection \<open>The properties\<close>

text \<open>C37: \<open>memmove\<close> copies a block correctly however the two blocks overlap: the bytes that were at the
  source are at the destination afterwards, and nothing else changes.  The address it returns is the
  destination only when the block moves up; when it moves down, the address behind the block is
  returned, although the comment says that the destination is.\<close>

theorem memmove_copies_overlapping:
  assumes "bytes_at m src bs" "mapped m dst (length bs)" "dst \<noteq> NULL" "src \<noteq> NULL"
  shows "\<exists>m'. memmove dst src (length bs) m = Some (if dst < src then dst + length bs else dst, m')
    \<and> bytes_at m' dst bs \<and> (\<forall>a. a < dst \<or> dst + length bs \<le> a \<longrightarrow> m' a = m a)"
proof (intro exI conjI)
  show "memmove dst src (length bs) m = Some (if dst < src then dst + length bs else dst, put dst bs m)"
    using assms memcpy_loop_put [OF assms(1,2)] memmove_down_put [OF assms(1,2)]
    by (simp add: memmove_def)
  show "bytes_at (put dst bs m) dst bs" by (rule bytes_at_put)
  show "\<forall>a. a < dst \<or> dst + length bs \<le> a \<longrightarrow> put dst bs m a = m a" by (auto simp: put_def)
qed

theorem memmove_copies_overlapping_witness:
  "\<exists>m'. memmove 100 101 2 (put 100 [1, 2, 3] (\<lambda>_. None)) = Some (102, m') \<and> bytes_at m' 100 [2, 3]"
proof -
  let ?m = "put 100 [1, 2, 3] (\<lambda>_. None) :: mem"
  have "bytes_at ?m 101 [2, 3]" using bytes_at_put [of 100 "[1, 2, 3]" "\<lambda>_. None"] by simp
  moreover have "mapped ?m 100 (length [2, 3 :: byte])" by (simp add: mapped_def put_def)
  ultimately obtain m' where "memmove 100 101 (length [2, 3 :: byte]) ?m = Some (102, m')" "bytes_at m' 100 [2, 3]"
    using memmove_copies_overlapping [of ?m 101 "[2, 3]" 100] by (auto simp: NULL_def)
  moreover have "length [2, 3 :: byte] = 2" by simp
  ultimately show ?thesis by metis
qed

lemma memcpy_put:
  "bytes_at m src bs \<Longrightarrow> mapped m dst (length bs) \<Longrightarrow> dst + length bs \<le> src \<or> src + length bs \<le> dst \<Longrightarrow>
     dst \<noteq> NULL \<Longrightarrow> src \<noteq> NULL \<Longrightarrow> memcpy dst src (length bs) m = Some (dst, put dst bs m)"
  using memcpy_loop_put [of m src bs dst] by (auto simp: memcpy_def)

lemma bytes_at_take: "bytes_at m p bs \<Longrightarrow> bytes_at m p (take n bs)"
  by (simp add: bytes_at_iff)

text \<open>Copying the first \<open>n\<close> characters of a string and a null character behind them.\<close>

lemma copy_terminated:
  assumes "str_at m src cs" "n \<le> length cs" "mapped m dst (n + 1)" "dst + n + 1 \<le> src \<or> src + n \<le> dst"
    "dst \<noteq> NULL" "src \<noteq> NULL"
  shows "memcpy dst src n m = Some (dst, put dst (take n cs) m)"
    "store (dst + n) 0 (put dst (take n cs) m) = Some (put dst (take n cs @ [0]) m)"
    "str_at (put dst (take n cs @ [0]) m) dst (take n cs)"
proof -
  have b: "bytes_at m src (take n cs)" using assms(1) by (intro bytes_at_take) (simp add: str_at_def bytes_at_append)
  have l: "length (take n cs) = n" using assms(2) by simp
  have "mapped m dst (length (take n cs))" using mapped_mono [OF assms(3)] by (simp add: l)
  from memcpy_put [OF b this, unfolded l] assms(4-6) show "memcpy dst src n m = Some (dst, put dst (take n cs) m)"
    by auto
  show "store (dst + n) 0 (put dst (take n cs) m) = Some (put dst (take n cs @ [0]) m)"
    using mapped_store [OF mapped_put [OF assms(3)], of "dst + n" 0 dst "take n cs"]
      put_put_next [of dst "take n cs" "[0]" m, unfolded l] by (simp add: put_Cons)
  have "0 \<notin> set (take n cs)" using assms(1) by (auto simp: str_at_def dest: in_set_takeD)
  with bytes_at_put show "str_at (put dst (take n cs @ [0]) m) dst (take n cs)" by (simp add: str_at_def)
qed

text \<open>C38: \<open>strlcpy\<close> never writes outside the \<open>sz\<close> bytes of its destination; it leaves there the string, or
  its first \<open>sz - 1\<close> characters, with a null character behind them, unless \<open>sz\<close> is zero, and it
  returns the length of the source.\<close>

theorem strlcpy_bounded:
  assumes "str_at m src cs" "mapped m dst sz" "dst + sz \<le> src \<or> src + length cs + 1 \<le> dst"
    "dst \<noteq> NULL" "src \<noteq> NULL"
  shows "\<exists>m'. strlcpy dst src sz m = Some (length cs, m')
    \<and> (sz > 0 \<longrightarrow> str_at m' dst (take (sz - 1) cs))
    \<and> (\<forall>a. a < dst \<or> dst + sz \<le> a \<longrightarrow> m' a = m a)"
proof (cases "sz = 0")
  case True
  then show ?thesis using assms by (simp add: strlcpy_def strlen_str)
next
  case False
  define n where "n = (if length cs < sz - 1 then length cs else sz - 1)"
  have n: "n \<le> length cs" "n + 1 \<le> sz" "take n cs = take (sz - 1) cs" using False by (auto simp: n_def)
  have "mapped m dst (n + 1)" using mapped_mono [OF assms(2)] n(2) by simp
  from copy_terminated [OF assms(1) n(1) this _ assms(4,5)] assms(3) n
  have c: "memcpy dst src n m = Some (dst, put dst (take n cs) m)"
    "store (dst + n) 0 (put dst (take n cs) m) = Some (put dst (take n cs @ [0]) m)"
    "str_at (put dst (take n cs @ [0]) m) dst (take n cs)" by auto
  have "strlcpy dst src sz m = Some (length cs, put dst (take n cs @ [0]) m)"
  proof -
    have "strlcpy dst src sz m = do { (_, m) \<leftarrow> memcpy dst src n m; m \<leftarrow> store (dst + n) 0 m; Some (length cs, m) }"
      using False assms(1,4,5) by (simp add: strlcpy_def strlen_str n_def Let_def)
    then show ?thesis by (simp add: c)
  qed
  moreover have "\<forall>a. a < dst \<or> dst + sz \<le> a \<longrightarrow> put dst (take n cs @ [0]) m a = m a"
    using n by (auto simp: put_def)
  ultimately show ?thesis using c(3) n(3) by auto
qed

definition example_strings :: mem where
  "example_strings = put 100 [104, 105, 33, 0] (put 200 [97, 0, 7, 7] (\<lambda>_. None))"

lemma example_strings: "str_at example_strings 100 [104, 105, 33]" "str_at example_strings 200 [97]"
  "mapped example_strings 200 4"
  by (simp_all add: example_strings_def str_at_def put_def mapped_def)

theorem strlcpy_bounded_witness: "\<exists>m'. strlcpy 200 100 3 example_strings = Some (3, m') \<and> str_at m' 200 [104, 105]"
  using strlcpy_bounded [OF example_strings(1), of 200 3] mapped_mono [OF example_strings(3), of 200 3]
  by (auto simp: NULL_def)

text \<open>\<open>strlcat\<close> never writes outside the \<open>sz\<close> bytes of its destination; behind the string that is
  there it puts the source, or as much of it as fits with a null character, and it returns the
  length the whole would have.\<close>

theorem strlcat_bounded:
  assumes "str_at m src cs" "str_at m dst ds" "mapped m dst sz" "length ds < sz"
    "dst + sz \<le> src \<or> src + length cs + 1 \<le> dst" "dst \<noteq> NULL" "src \<noteq> NULL"
  shows "\<exists>m'. strlcat dst src sz m = Some (length cs + length ds, m')
    \<and> str_at m' dst (ds @ take (sz - length ds - 1) cs)
    \<and> (\<forall>a. a < dst + length ds \<or> dst + sz \<le> a \<longrightarrow> m' a = m a)"
proof -
  let ?d = "dst + length ds"
  define n where "n = (if length cs < sz - length ds - 1 then length cs else sz - length ds - 1)"
  have n: "n \<le> length cs" "length ds + n + 1 \<le> sz" "take n cs = take (sz - length ds - 1) cs"
    using assms(4) by (auto simp: n_def)
  have "mapped m ?d (n + 1)" using mapped_mono [OF assms(3)] n(2) by simp
  from copy_terminated [OF assms(1) n(1) this _ _ assms(7)] assms(5,6) n
  have c: "memcpy ?d src n m = Some (?d, put ?d (take n cs) m)"
    "store (?d + n) 0 (put ?d (take n cs) m) = Some (put ?d (take n cs @ [0]) m)"
    "str_at (put ?d (take n cs @ [0]) m) ?d (take n cs)" by (auto simp: NULL_def)
  have "strlcat dst src sz m = Some (length cs + length ds, put ?d (take n cs @ [0]) m)"
  proof -
    have "strlcat dst src sz m = do { (_, m) \<leftarrow> memcpy ?d src n m; m \<leftarrow> store (?d + n) 0 m; Some (length cs + length ds, m) }"
      using assms(1,2,4,6,7) by (simp add: strlcat_def strlen_str n_def Let_def)
    then show ?thesis by (simp add: c)
  qed
  moreover have "\<forall>a. a < ?d \<or> dst + sz \<le> a \<longrightarrow> put ?d (take n cs @ [0]) m a = m a"
    using n by (auto simp: put_def)
  moreover have "bytes_at (put ?d (take n cs @ [0]) m) dst ds \<and> 0 \<notin> set ds"
    using assms(2) by (simp add: str_at_def bytes_at_append bytes_at_put_other)
  ultimately show ?thesis using c(3) n(3) by (auto simp: str_at_append)
qed

theorem strlcat_bounded_witness:
  "\<exists>m'. strlcat 200 100 4 example_strings = Some (4, m') \<and> str_at m' 200 [97, 104, 105]"
  using strlcat_bounded [OF example_strings] by (auto simp: NULL_def)

text \<open>\<open>strcmp\<close> compares two strings in the lexicographic order of their characters as unsigned
  bytes: zero for equal strings, -1 when the first is smaller, 1 when it is greater.\<close>

theorem strcmp_lexicographic:
  assumes "str_at m a as" "str_at m b bs" "a \<noteq> NULL" "b \<noteq> NULL"
  shows "strcmp a b m = Some (if as = bs then 0 else if (as, bs) \<in> lexord {(x, y). x < y} then - 1 else 1)"
  using assms by (simp add: strcmp_def strcmp_loop_str)

theorem strcmp_lexicographic_witness: "strcmp 100 200 example_strings = Some 1"
  using strcmp_lexicographic [OF example_strings(1,2)] by (simp add: NULL_def)

definition occurs_at :: "byte list \<Rightarrow> byte list \<Rightarrow> nat \<Rightarrow> bool" where
  "occurs_at hs ns i = (i + length ns \<le> length hs \<and> take (length ns) (drop i hs) = ns)"

lemma strstr_loop_str:
  assumes "bytes_at m h hs" "bytes_at m nd ns" "h \<noteq> NULL" "nd \<noteq> NULL"
  shows "i + n = length hs - length ns + 1 \<Longrightarrow> length ns \<le> length hs \<Longrightarrow>
    (case strstr_loop n h nd (length ns) i m of None \<Rightarrow> False
     | Some p \<Rightarrow> (p = NULL \<and> (\<forall>j. i \<le> j \<longrightarrow> \<not> occurs_at hs ns j))
        \<or> (\<exists>j. p = h + j \<and> i \<le> j \<and> occurs_at hs ns j \<and> (\<forall>j'. i \<le> j' \<and> j' < j \<longrightarrow> \<not> occurs_at hs ns j')))"
proof (induction n arbitrary: i)
  case 0
  then show ?case by (auto simp: occurs_at_def)
next
  case (Suc n)
  let ?w = "take (length ns) (drop i hs)"
  have i: "i + length ns \<le> length hs" using Suc.prems by simp
  then have l: "length ?w = length ns" by simp
  have "bytes_at m (h + i) ?w"
    using assms(1) i bytes_at_append [of m h "take i hs" "drop i hs"] by (intro bytes_at_take) simp
  from memcmp_loop_bytes [OF this assms(2) l, unfolded l]
  have c: "memcmp (h + i) nd (length ns) m = Some (if ?w = ns then 0 else if (?w, ns) \<in> lexord {(x, y). x < y} then - 1 else 1)"
    using assms(3,4) by (simp add: memcmp_def NULL_def)
  show ?case
  proof (cases "?w = ns")
    case True
    then have "occurs_at hs ns i" using i by (simp add: occurs_at_def)
    then show ?thesis using c True by auto
  next
    case False
    then have no: "\<not> occurs_at hs ns i" by (simp add: occurs_at_def)
    have st: "strstr_loop (Suc n) h nd (length ns) i m = strstr_loop n h nd (length ns) (i + 1) m"
      using c False by simp
    have le: "i \<le> j \<longleftrightarrow> j = i \<or> i + 1 \<le> j" for j by auto
    from Suc.IH [of "i + 1"] Suc.prems have
      "case strstr_loop n h nd (length ns) (i + 1) m of None \<Rightarrow> False
       | Some p \<Rightarrow> (p = NULL \<and> (\<forall>j. i + 1 \<le> j \<longrightarrow> \<not> occurs_at hs ns j))
        \<or> (\<exists>j. p = h + j \<and> i + 1 \<le> j \<and> occurs_at hs ns j \<and> (\<forall>j'. i + 1 \<le> j' \<and> j' < j \<longrightarrow> \<not> occurs_at hs ns j'))"
      by simp
    then show ?thesis unfolding st le using no by (auto split: option.splits)
  qed
qed

text \<open>\<open>strstr\<close> finds the first occurrence of the needle in the haystack: it always returns; it returns
  the null pointer exactly when the needle occurs nowhere, and otherwise the address of an
  occurrence with none before it.\<close>

theorem strstr_first_occurrence:
  assumes "str_at m h hs" "str_at m nd ns" "h \<noteq> NULL" "nd \<noteq> NULL"
  shows "\<exists>p. strstr h nd m = Some p
    \<and> (p = NULL \<longleftrightarrow> (\<forall>j. \<not> occurs_at hs ns j))
    \<and> (p \<noteq> NULL \<longrightarrow> (\<exists>j. p = h + j \<and> occurs_at hs ns j \<and> (\<forall>j'. j' < j \<longrightarrow> \<not> occurs_at hs ns j')))"
proof (cases "length ns \<le> length hs")
  case False
  then have "\<not> occurs_at hs ns j" for j by (simp add: occurs_at_def)
  with False show ?thesis using assms by (simp add: strstr_def strlen_str)
next
  case True
  have b: "bytes_at m h hs" "bytes_at m nd ns" using assms(1,2) by (simp_all add: str_at_def bytes_at_append)
  have "strstr h nd m = strstr_loop (length hs - length ns + 1) h nd (length ns) 0 m"
    using assms True by (simp add: strstr_def strlen_str)
  with strstr_loop_str [OF b assms(3,4), of 0 "length hs - length ns + 1"] True assms(3)
  show ?thesis by (auto simp: NULL_def split: option.splits)
qed

theorem strstr_first_occurrence_witness: "strstr 100 200 example_strings = Some NULL"
proof -
  have "\<not> occurs_at [104, 105, 33] [97] j" for j
  proof
    assume o: "occurs_at [104, 105, 33] [97] j"
    then have "j = 0 \<or> j = 1 \<or> j = 2" by (auto simp: occurs_at_def)
    with o show False by (auto simp: occurs_at_def drop_Cons' take_Cons')
  qed
  then show ?thesis using strstr_first_occurrence [OF example_strings(1,2)] by (auto simp: NULL_def)
qed

lemma strnlen_loop_past:
  "bytes_at m (p + n) bs \<Longrightarrow> 0 \<notin> set bs \<Longrightarrow> n + length bs = k \<Longrightarrow> m (p + k) = None \<Longrightarrow> strnlen_loop m p k n = None"
proof (induction bs arbitrary: n)
  case Nil
  then show ?case by (subst strnlen_loop.simps) (auto simp: load_def)
next
  case (Cons b bs)
  have "bytes_at m (p + (n + 1)) bs" using Cons.prems(1) by simp
  from Cons.IH [OF this] Cons.prems show ?case by (subst strnlen_loop.simps) (simp add: load_def)
qed

text \<open>\<open>strnlen\<close> returns the length of a string, or the limit when the string is longer.  But it reads
  the character at the limit before it compares with the limit: on a buffer of \<open>maxlen\<close> characters
  without a null character, behind which nothing is mapped, it does not come back.\<close>

theorem strnlen_reads_past:
  shows "(str_at m p cs \<longrightarrow> strnlen p k m = Some (min k (length cs)))
    \<and> (bytes_at m p bs \<and> 0 \<notin> set bs \<and> m (p + length bs) = None \<longrightarrow> strnlen p (length bs) m = None)"
  using strnlen_loop_str [of m p 0 cs k] strnlen_loop_past [of m p 0 bs "length bs"] by (simp add: strnlen_def)

theorem strnlen_reads_past_witness:
  "strnlen 100 2 (put 100 [104, 105] (\<lambda>_. None)) = None \<and> strnlen 100 2 example_strings = Some 2"
proof -
  have "bytes_at (put 100 [104, 105] (\<lambda>_. None)) 100 [104, 105]" by (rule bytes_at_put)
  moreover have "length [104, 105 :: byte] = 2" by simp
  moreover have "put 100 [104, 105] (\<lambda>_. None) (100 + length [104, 105 :: byte]) = (None :: byte option)" by (simp add: put_def)
  moreover have "(0 :: byte) \<notin> set [104, 105]" by simp
  ultimately show ?thesis
    using strnlen_reads_past [of "put 100 [104, 105] (\<lambda>_. None)" 100 _ _ "[104, 105]"]
      strnlen_reads_past [of example_strings 100 "[104, 105, 33]" 2 "[]"] example_strings(1)
    by (simp add: numeral_2_eq_2)
qed

lemma takeWhile_then_drop: "takeWhile P xs @ drop (length (takeWhile P xs)) xs = xs"
  by (metis append_eq_conv_conj takeWhile_dropWhile_id)

lemma skip_delims_str:
  assumes "str_at m delims ds" "delims \<noteq> NULL"
  shows "str_at m s cs \<Longrightarrow> skip_delims m delims s =
    Some (s + length (takeWhile (\<lambda>c. c \<in> set ds) cs), set cs \<subseteq> set ds)"
proof (induction cs arbitrary: s)
  case Nil
  obtain q where q: "strchr delims (char_arg 0) m = Some q" "q \<noteq> NULL"
    using strchr_test [OF assms, of 0] by auto
  with Nil show ?case by (subst skip_delims.simps) (simp add: str_at_Nil load_def)
next
  case (Cons c cs)
  obtain q where q: "strchr delims (char_arg c) m = Some q" "q \<noteq> NULL \<longleftrightarrow> c \<in> insert 0 (set ds)"
    using strchr_test [OF assms] by blast
  with Cons show ?case by (subst skip_delims.simps) (auto simp: str_at_Cons load_def)
qed

lemma skip_token_str:
  assumes "str_at m delims ds" "delims \<noteq> NULL"
  shows "str_at m s cs \<Longrightarrow> skip_token m delims s = Some (s + length (takeWhile (\<lambda>c. c \<notin> set ds) cs))"
proof (induction cs arbitrary: s)
  case Nil
  obtain q where q: "strchr delims (char_arg 0) m = Some q" "q \<noteq> NULL"
    using strchr_test [OF assms, of 0] by auto
  with Nil show ?case by (subst skip_token.simps) (simp add: str_at_Nil load_def)
next
  case (Cons c cs)
  obtain q where q: "strchr delims (char_arg c) m = Some q" "q \<noteq> NULL \<longleftrightarrow> c \<in> insert 0 (set ds)"
    using strchr_test [OF assms] by blast
  with Cons show ?case by (subst skip_token.simps) (auto simp: str_at_Cons load_def)
qed

text \<open>\<open>strtok_r\<close> finds the next token.  With nothing but delimiters left it returns the null pointer
  and saves the end of the string; otherwise it returns the token, the longest run of characters
  other than delimiters behind the leading delimiters, which is not empty, terminated in place
  by a null character that replaces the delimiter behind it, and saves the address behind that
  delimiter (or of the string's end), where the rest of the string is, for the next call.\<close>

theorem strtok_r_next_token:
  assumes "str_at m delims ds" "delims \<noteq> NULL" "str_at m p cs" "p \<noteq> NULL" "s = p \<or> (s = NULL \<and> save = p)"
  defines "skipped \<equiv> takeWhile (\<lambda>c. c \<in> set ds) cs"
  defines "token \<equiv> takeWhile (\<lambda>c. c \<notin> set ds) (drop (length skipped) cs)"
  defines "rest \<equiv> drop (length skipped + length token) cs"
  shows "if set cs \<subseteq> set ds then strtok_r s delims save m = Some (NULL, p + length cs, m)
    else \<exists>m'. strtok_r s delims save m = Some (p + length skipped, p + length cs - length (tl rest), m')
      \<and> token \<noteq> [] \<and> str_at m' (p + length skipped) token
      \<and> str_at m' (p + length cs - length (tl rest)) (tl rest)
      \<and> (\<forall>a. a \<noteq> p + length skipped + length token \<longrightarrow> m' a = m a)"
proof -
  have sk: "skip_delims m delims p = Some (p + length skipped, set cs \<subseteq> set ds)"
    using skip_delims_str [OF assms(1,2,3)] by (simp add: skipped_def)
  have start: "(if s = NULL then save else s) = p" using assms(4,5) by auto
  show ?thesis
  proof (cases "set cs \<subseteq> set ds")
    case True
    then have "skipped = cs" by (auto simp: skipped_def)
    with True show ?thesis using sk start assms(2,4) by (simp add: strtok_r_def Let_def)
  next
    case False
    let ?q = "p + length skipped" and ?e = "p + length skipped + length token"
    have sd: "skipped @ drop (length skipped) cs = cs" unfolding skipped_def by (rule takeWhile_then_drop)
    have "rest = drop (length token) (drop (length skipped) cs)" by (simp add: rest_def add.commute)
    then have "token @ rest = drop (length skipped) cs"
      using takeWhile_then_drop [of "\<lambda>c. c \<notin> set ds" "drop (length skipped) cs"] by (simp add: token_def)
    with sd have cs: "cs = skipped @ token @ rest" by simp
    have q: "str_at m ?q (token @ rest)" using assms(3) by (simp add: cs str_at_append)
    then have e: "str_at m ?e rest" "bytes_at m ?q token" "0 \<notin> set token" by (simp_all add: str_at_append add.assoc)
    have tk: "skip_token m delims ?q = Some ?e"
    proof -
      have "takeWhile (\<lambda>c. c \<notin> set ds) (token @ rest) = token"
        unfolding token_def using \<open>token @ rest = drop (length skipped) cs\<close> token_def by simp
      with skip_token_str [OF assms(1,2) q] show ?thesis by simp
    qed
    have ne: "token \<noteq> []"
    proof -
      have "dropWhile (\<lambda>c. c \<in> set ds) cs \<noteq> []" using False by auto
      then have "hd (dropWhile (\<lambda>c. c \<in> set ds) cs) \<notin> set ds" "dropWhile (\<lambda>c. c \<in> set ds) cs \<noteq> []"
        using hd_dropWhile [of "\<lambda>c. c \<in> set ds" cs] by auto
      moreover have "drop (length skipped) cs = dropWhile (\<lambda>c. c \<in> set ds) cs"
        unfolding skipped_def by (simp add: dropWhile_eq_drop)
      ultimately show ?thesis unfolding token_def by (cases "dropWhile (\<lambda>c. c \<in> set ds) cs") auto
    qed
    have st: "strtok_r s delims save m = do {
        c \<leftarrow> load m ?e;
        if c \<noteq> 0 then do { m \<leftarrow> store ?e 0 m; Some (?q, ?e + 1, m) } else Some (?q, ?e, m) }"
      using sk tk start assms(2,4) False by (simp add: strtok_r_def Let_def)
    show ?thesis
    proof (cases rest)
      case Nil
      then have z: "m ?e = Some 0" using e(1) by (simp add: str_at_Nil)
      have "p + length cs - length (tl rest) = ?e" by (simp add: cs Nil)
      moreover have "strtok_r s delims save m = Some (?q, ?e, m)" using st z by (simp add: load_def)
      moreover have "str_at m ?q token" "str_at m ?e (tl rest)"
        using e(2,3) z by (simp_all add: str_at_def bytes_at_append Nil)
      ultimately show ?thesis using ne unfolding if_not_P [OF False] by auto
    next
      case (Cons c r)
      let ?m = "m(?e \<mapsto> 0)"
      have c: "m ?e = Some c" "c \<noteq> 0" "str_at m (?e + 1) r" using e(1) by (simp_all add: Cons str_at_Cons)
      have "str_at ?m ?q token" using e(2,3) by (simp add: str_at_def bytes_at_append bytes_at_upd)
      moreover have "str_at ?m (?e + 1) r" using c(3) by (simp add: str_at_def bytes_at_upd)
      moreover have "strtok_r s delims save m = Some (?q, ?e + 1, ?m)"
        using st c(1,2) by (simp add: load_def store_def)
      moreover have "p + length cs - length (tl rest) = ?e + 1" by (simp add: cs Cons)
      ultimately show ?thesis using ne unfolding if_not_P [OF False] by (auto simp: Cons)
    qed
  qed
qed

theorem strtok_r_next_token_witness:
  "\<exists>m'. strtok_r 100 200 0 (put 100 [32, 97, 32, 98, 0] (put 200 [32, 0] (\<lambda>_. None))) = Some (101, 103, m')
     \<and> str_at m' 101 [97] \<and> str_at m' 103 [98]"
proof -
  let ?m = "put 100 [32, 97, 32, 98, 0] (put 200 [32, 0] (\<lambda>_. None)) :: mem"
  have "str_at ?m 200 [32]" "str_at ?m 100 [32, 97, 32, 98]" by (simp_all add: str_at_def put_def)
  from strtok_r_next_token [OF this(1) _ this(2), of 100 0] show ?thesis by (auto simp: NULL_def)
qed

end
