(* ===== verification/Arith64.thy ===== *)
theory Arith64 imports Prelude begin

section \<open>lib/arithmetic.c: 64-bit division on a 32-bit machine\<close>

text \<open>
  The routines behind the \<open>/\<close> and \<open>%\<close> operators on 64-bit integers.  The machine's \<open>DIVL\<close>
  instruction divides 64 by 32 bits and traps (\<open>None\<close>) when the quotient does not fit in 32 bits.
\<close>

type_synonym u64 = "64 word"

definition divl :: "u64 \<Rightarrow> u32 \<Rightarrow> u32 option" where
  "divl n d = (if d = 0 \<or> unat n div unat d \<ge> 2 ^ 32 then None
     else Some (word_of_nat (unat n div unat d)))"

definition nlz :: "u32 \<Rightarrow> nat" where
  "nlz x = (
     let (n, x) = (if x \<le> 0x0000FFFF then (16, push_bit 16 x) else (0, x));
         (n, x) = (if x \<le> 0x00FFFFFF then (n + 8, push_bit 8 x) else (n, x));
         (n, x) = (if x \<le> 0x0FFFFFFF then (n + 4, push_bit 4 x) else (n, x));
         (n, x) = (if x \<le> 0x3FFFFFFF then (n + 2, push_bit 2 x) else (n, x))
     in if x \<le> 0x7FFFFFFF then n + 1 else n)"

definition udiv64 :: "u64 \<Rightarrow> u64 \<Rightarrow> u64 option" where
  "udiv64 n d =
     (if drop_bit 32 d = 0 then do {
        let b = (2 ^ 32 :: u64);
        let n1 = (ucast (drop_bit 32 n) :: u32);
        let n0 = (ucast n :: u32);
        let d0 = (ucast d :: u32);
        ASSERT (d0 \<noteq> 0);
        q \<leftarrow> divl (b * ucast (n1 mod d0) + ucast n0) d0;
        Some (ucast q + b * ucast (n1 div d0)) }
      else if n < d then Some 0
      else do {
        let d1 = (ucast (drop_bit 32 d) :: u32);
        let s = nlz d1;
        q \<leftarrow> divl (drop_bit 1 n) (ucast (drop_bit 32 (push_bit s d)));
        let q = (ucast (drop_bit (31 - s) q) :: u64);
        Some (if n - (q - 1) * d < d then q - 1 else q) })"

text \<open>\<open>umod64\<close> and \<open>smod64\<close> return 32 bits.\<close>

definition umod64 :: "u64 \<Rightarrow> u64 \<Rightarrow> u32 option" where
  "umod64 n d = do { q \<leftarrow> udiv64 n d; Some (ucast (n - d * q)) }"

definition sdiv64 :: "u64 \<Rightarrow> u64 \<Rightarrow> u64 option" where
  "sdiv64 n d = do {
     let n_abs = (if 0 \<le>s n then n else - n);
     let d_abs = (if 0 \<le>s d then d else - d);
     q_abs \<leftarrow> udiv64 n_abs d_abs;
     Some (if (n <s 0) = (d <s 0) then q_abs else - q_abs) }"

definition smod64 :: "u64 \<Rightarrow> u64 \<Rightarrow> u32 option" where
  "smod64 n d = do { q \<leftarrow> sdiv64 n d; Some (ucast (n - d * q)) }"

text \<open>The names GCC calls.\<close>

definition divdi3 :: "u64 \<Rightarrow> u64 \<Rightarrow> u64 option" where "divdi3 n d = sdiv64 n d"
definition moddi3 :: "u64 \<Rightarrow> u64 \<Rightarrow> u64 option" where
  "moddi3 n d = do { r \<leftarrow> smod64 n d; Some (scast r) }"
definition udivdi3 :: "u64 \<Rightarrow> u64 \<Rightarrow> u64 option" where "udivdi3 n d = udiv64 n d"
definition umoddi3 :: "u64 \<Rightarrow> u64 \<Rightarrow> u64 option" where
  "umoddi3 n d = do { r \<leftarrow> umod64 n d; Some (ucast r) }"

subsection \<open>The number of leading zeros\<close>

lemma unat_push_bit_small:
  assumes "unat (x :: u32) < 2 ^ (32 - k)" "k \<le> 32"
  shows "unat (push_bit k x) = unat x * 2 ^ k"
proof -
  have "unat x * 2 ^ k < 2 ^ (32 - k) * 2 ^ k" using assms(1) by simp
  also have "\<dots> = 2 ^ 32" using assms(2) by (simp flip: power_add)
  finally have "take_bit 32 (push_bit k (unat x)) = unat x * 2 ^ k"
    by (simp add: push_bit_eq_mult take_bit_nat_eq_self)
  moreover have "unat (push_bit k x) = take_bit 32 (push_bit k (unat x))" by (simp add: unsigned_push_bit_eq)
  ultimately show ?thesis by metis
qed

text \<open>One step: the bits are shifted up by \<open>k\<close> places if there is room.\<close>

lemma nlz_step:
  assumes "unat x0 * 2 ^ n = unat (x :: u32)" "k \<le> 32" "unat t = 2 ^ (32 - k) - 1"
    "(n', x') = (if x \<le> t then (n + k, push_bit k x) else (n, x))" "2 ^ (32 - k - k) \<le> unat x" "k + k \<le> 32"
  shows "unat x0 * 2 ^ n' = unat x' \<and> 2 ^ (32 - k) \<le> unat x'"
proof (cases "x \<le> t")
  case True
  then have "unat x \<le> 2 ^ (32 - k) - 1" using assms(3) by (simp add: word_le_nat_alt)
  then have "unat x < 2 ^ (32 - k)" by (metis Suc_pred' less_Suc_eq_le zero_less_numeral zero_less_power)
  then have s: "unat (push_bit k x) = unat x * 2 ^ k" using assms(2) by (rule unat_push_bit_small)
  have "2 ^ (32 - k - k) * 2 ^ k \<le> unat x * 2 ^ k" using assms(5) by simp
  moreover have "(2 :: nat) ^ (32 - k - k) * 2 ^ k = 2 ^ (32 - k)" using assms(6) by (simp flip: power_add)
  ultimately have "2 ^ (32 - k) \<le> unat x * 2 ^ k" by metis
  then show ?thesis using True assms(1,4) s by (simp add: power_add mult.assoc [symmetric])
next
  case False
  then have "2 ^ (32 - k) - 1 < unat x" using assms(3) by (simp add: word_less_nat_alt not_le)
  then have "2 ^ (32 - k) \<le> unat x" by simp
  then show ?thesis using False assms(1,4) by simp
qed

lemma nlz_normalises:
  assumes "x \<noteq> 0"
  shows "2 ^ 31 \<le> unat x * 2 ^ nlz x \<and> unat x * 2 ^ nlz x < 2 ^ 32 \<and> nlz x \<le> 31"
proof -
  define p1 where "p1 = (if x \<le> 0x0000FFFF then (0 + 16 :: nat, push_bit 16 x) else (0, x))"
  define p2 where "p2 = (if snd p1 \<le> 0x00FFFFFF then (fst p1 + 8, push_bit 8 (snd p1)) else (fst p1, snd p1))"
  define p3 where "p3 = (if snd p2 \<le> 0x0FFFFFFF then (fst p2 + 4, push_bit 4 (snd p2)) else (fst p2, snd p2))"
  define p4 where "p4 = (if snd p3 \<le> 0x3FFFFFFF then (fst p3 + 2, push_bit 2 (snd p3)) else (fst p3, snd p3))"
  define p5 where "p5 = (if snd p4 \<le> 0x7FFFFFFF then (fst p4 + 1, push_bit 1 (snd p4)) else (fst p4, snd p4))"
  have e: "nlz x = fst p5"
    by (simp add: nlz_def p5_def p4_def p3_def p2_def p1_def case_prod_beta Let_def)
  have x: "1 \<le> unat x" using assms by (simp add: unat_gt_0 Suc_le_eq)
  note step = nlz_step [where n' = "fst p" and x' = "snd p" for p, unfolded prod.collapse]
  have 1: "unat x * 2 ^ fst p1 = unat (snd p1) \<and> 2 ^ (32 - 16) \<le> unat (snd p1)"
    by (rule step [OF _ _ _ p1_def]) (use x in simp_all)
  have 2: "unat x * 2 ^ fst p2 = unat (snd p2) \<and> 2 ^ (32 - 8) \<le> unat (snd p2)"
    by (rule step [OF _ _ _ p2_def]) (use 1 in simp_all)
  have 3: "unat x * 2 ^ fst p3 = unat (snd p3) \<and> 2 ^ (32 - 4) \<le> unat (snd p3)"
    by (rule step [OF _ _ _ p3_def]) (use 2 in simp_all)
  have 4: "unat x * 2 ^ fst p4 = unat (snd p4) \<and> 2 ^ (32 - 2) \<le> unat (snd p4)"
    by (rule step [OF _ _ _ p4_def]) (use 3 in simp_all)
  have 5: "unat x * 2 ^ fst p5 = unat (snd p5) \<and> 2 ^ (32 - 1) \<le> unat (snd p5)"
    by (rule step [OF _ _ _ p5_def]) (use 4 in simp_all)
  have "unat (snd p5) < 2 ^ 32" using unsigned_less [of "snd p5"] by simp
  then have lt: "unat x * 2 ^ fst p5 < 2 ^ 32" using 5 by simp
  have "fst p5 \<le> 31"
  proof (rule ccontr)
    assume "\<not> fst p5 \<le> 31"
    then have "(2 :: nat) ^ 32 \<le> 2 ^ fst p5" by (intro power_increasing) auto
    then have "2 ^ 32 \<le> unat x * 2 ^ fst p5" using x by (metis mult_le_mono nat_mult_1)
    with lt show False by simp
  qed
  then show ?thesis using 5 lt e by simp
qed

subsection \<open>The quotient\<close>

text \<open>The estimate of the quotient from the divisor's leading 32 bits is exact or one too large.\<close>

lemma quotient_estimate:
  fixes N D P :: nat
  assumes "0 < P" "2 ^ 31 \<le> D div P" "N < 2 ^ 64"
  shows "N div D \<le> N div (D div P * P)" "N div (D div P * P) \<le> N div D + 1"
proof -
  define v where "v = D div P"
  define r where "r = D mod P"
  have D: "D = v * P + r" "r < P" using assms(1) by (simp_all add: v_def r_def)
  have v: "2 ^ 31 \<le> v" using assms(2) by (simp add: v_def)
  have vP: "0 < v * P" using v assms(1) by (simp add: gr0I)
  show "N div D \<le> N div (D div P * P)" using vP D(1) unfolding v_def [symmetric] by (intro div_le_mono2) auto
  show "N div (D div P * P) \<le> N div D + 1"
  proof (rule ccontr)
    define q where "q = N div (v * P)"
    assume "\<not> N div (D div P * P) \<le> N div D + 1"
    then have q: "N div D + 2 \<le> q" by (simp add: q_def v_def)
    have a: "q * (v * P) \<le> N" unfolding q_def by (simp add: div_times_less_eq_dividend)
    have "N < (N div D + 1) * D" using D(1) vP by (simp add: dividend_less_div_times add.commute)
    also have "\<dots> \<le> (q - 1) * D" using q by (intro mult_le_mono1) simp
    finally have b: "N < (q - 1) * D" .
    have "q * (v * P) < (q - 1) * (v * P) + (q - 1) * r" using a b by (simp add: D(1) algebra_simps)
    moreover have "q * (v * P) = (q - 1) * (v * P) + v * P" using q by (cases q) auto
    ultimately have c: "v * P < (q - 1) * r" by simp
    have "(v * P) * (v * P) < (q - 1) * r * (v * P)" using c vP by simp
    also have "\<dots> \<le> q * (v * P) * r" by (simp add: algebra_simps mult_le_mono)
    also have "\<dots> \<le> N * r" using a by simp
    also have "\<dots> \<le> 2 ^ 64 * (P - 1)" using assms(3) D(2) by (intro mult_le_mono) auto
    finally have d: "(v * P) * (v * P) < 2 ^ 64 * (P - 1)" .
    have "(2 ^ 31 * P) * (2 ^ 31 * P) \<le> (v * P) * (v * P)" using v by (intro mult_le_mono) auto
    with d have "(2 ^ 31 * P) * (2 ^ 31 * P) < 2 ^ 64 * (P - 1)" by linarith
    then have e: "P * P < 4 * (P - 1)" by simp
    have "int (P * P) < 4 * (int P - 1)" using e assms(1) by (simp add: of_nat_diff flip: of_nat_mult)
    moreover have "0 \<le> (int P - 2) * (int P - 2)" by (metis zero_le_square)
    ultimately show False by (simp add: algebra_simps)
  qed
qed

lemma unat_word_of_nat_small: "k < 2 ^ LENGTH('a) \<Longrightarrow> unat (word_of_nat k :: 'a::len word) = k"
  by (simp add: unsigned_of_nat take_bit_nat_eq_self)

lemma word_eq_of_unat: "k < 2 ^ 64 \<Longrightarrow> unat (x :: u64) = k \<Longrightarrow> x = word_of_nat k"
  by (simp add: word_unat_eq_iff unat_word_of_nat_small)

lemma unat_less_64: "unat (x :: u64) < 2 ^ 64"
  using unsigned_less [of x] by simp

lemma unat_less_32: "unat (x :: u32) < 2 ^ 32"
  using unsigned_less [of x] by simp

lemma unat_add_small: "unat (a :: u64) + unat b < 2 ^ 64 \<Longrightarrow> unat (a + b) = unat a + unat b"
  by (simp add: unat_word_ariths)

lemma unat_mult_small: "unat (a :: u64) * unat b < 2 ^ 64 \<Longrightarrow> unat (a * b) = unat a * unat b"
  by (simp add: unat_word_ariths)

lemma unat_ucast_32_64 [simp]: "unat (ucast (x :: u32) :: u64) = unat x"
  by (simp add: unsigned_ucast_eq take_bit_nat_eq_self less_trans [OF unat_less_32])

lemma unat_ucast_64_32: "unat (ucast (x :: u64) :: u32) = unat x mod 2 ^ 32"
  by (simp add: unsigned_ucast_eq take_bit_eq_mod)

lemma unat_drop_32: "unat (drop_bit 32 (x :: u64)) = unat x div 2 ^ 32"
  by (simp add: drop_bit_eq_div unat_div)

lemma high_half: "unat (ucast (drop_bit 32 (x :: u64)) :: u32) = unat x div 2 ^ 32"
  using unat_less_64 [of x] by (simp add: unat_ucast_64_32 unat_drop_32 less_mult_imp_div_less)

lemma unat_drop_bit_32: "unat (drop_bit k (x :: u32)) = unat x div 2 ^ k"
  unfolding unsigned_drop_bit_eq using unat_less_32 [of x] by (simp add: drop_bit_eq_div take_bit_nat_eq_self)

lemma low_half: "ucast (ucast (x :: u64) :: u32) = take_bit 32 x"
  by (rule bit_word_eqI) (auto simp: bit_simps)

lemma long_division: "N = (b * (N div b mod D) + N mod b) + D * (b * (N div b div D))" for N b D :: nat
proof -
  define q where "q = N div b"
  have "b * q = D * (b * (q div D)) + b * (q mod D)"
    by (metis distrib_left mult.left_commute mult_div_mod_eq)
  moreover have "N = b * q + N mod b" by (simp add: q_def)
  ultimately show ?thesis unfolding q_def [symmetric] by linarith
qed

text \<open>A divisor of 32 bits: two steps of long division.\<close>

lemma udiv64_short:
  assumes "d \<noteq> 0" "drop_bit 32 d = 0"
  shows "udiv64 n d = Some (n div d)"
proof -
  let ?D = "unat d" and ?N1 = "unat n div 2 ^ 32" and ?N0 = "unat n mod 2 ^ 32"
  let ?d0 = "ucast d :: u32" and ?n1 = "ucast (drop_bit 32 n) :: u32" and ?n0 = "ucast n :: u32"
  have D: "?D < 2 ^ 32" "0 < ?D"
  proof -
    have "?D div 2 ^ 32 = 0" using assms(2) unat_drop_32 [of d] by simp
    then show "?D < 2 ^ 32" by (simp add: div_eq_0_iff)
    show "0 < ?D" using assms(1) by (simp add: unat_gt_0)
  qed
  then have d0: "unat ?d0 = ?D" by (simp add: unat_ucast_64_32)
  then have d0n: "?d0 \<noteq> 0" using D(2) by (metis less_irrefl unsigned_0)
  have n1: "unat ?n1 = ?N1" by (rule high_half)
  have n0: "unat ?n0 = ?N0" by (rule unat_ucast_64_32)
  have N: "unat n = ?N1 * 2 ^ 32 + ?N0" by simp
  define M where "M = 2 ^ 32 * (?N1 mod ?D) + ?N0"
  have m: "?N1 mod ?D \<le> ?D - 1" "?N0 < 2 ^ 32" using D(2) by (simp_all add: Suc_le_eq flip: less_Suc_eq_le)
  then have "2 ^ 32 * (?N1 mod ?D) \<le> 2 ^ 32 * (?D - 1)" by simp
  with m have Ml: "M < 2 ^ 32 * ?D" using D(2) by (simp add: M_def right_diff_distrib')
  then have M64: "M < 2 ^ 64" using D(1) by simp
  have um: "unat (?n1 mod ?d0) = ?N1 mod ?D" "unat (?n1 div ?d0) = ?N1 div ?D"
    by (simp_all add: unat_mod unat_div n1 d0)
  have b: "unat (2 ^ 32 :: u64) = 2 ^ 32" by simp
  have p: "unat (2 ^ 32 * ucast (?n1 mod ?d0) :: u64) = 2 ^ 32 * (?N1 mod ?D)"
    using M64 um by (subst unat_mult_small) (simp_all add: M_def)
  have x: "unat (2 ^ 32 * ucast (?n1 mod ?d0) + ucast ?n0 :: u64) = M"
    using M64 p n0 by (subst unat_add_small) (simp_all add: M_def)
  have q32: "M div ?D < 2 ^ 32" using Ml by (simp add: less_mult_imp_div_less mult.commute)
  have dv: "divl (2 ^ 32 * ucast (?n1 mod ?d0) + ucast ?n0) ?d0 = Some (word_of_nat (M div ?D))"
    unfolding divl_def x d0 using q32 d0n by simp
  have uq: "unat (word_of_nat (M div ?D) :: u32) = M div ?D" using q32 by (simp add: unat_word_of_nat_small)
  have split: "unat n div ?D = M div ?D + 2 ^ 32 * (?N1 div ?D)"
  proof -
    have "unat n = M + ?D * (2 ^ 32 * (?N1 div ?D))"
      unfolding M_def by (rule long_division)
    then have "unat n div ?D = (M + ?D * (2 ^ 32 * (?N1 div ?D))) div ?D" by (rule arg_cong)
    then show ?thesis using D(2) by simp
  qed
  have Q: "unat n div ?D < 2 ^ 64" using unat_less_64 [of n] div_le_dividend [of "unat n" ?D] by linarith
  have "unat (2 ^ 32 * ucast (?n1 div ?d0) :: u64) = 2 ^ 32 * (?N1 div ?D)"
    using Q split um by (subst unat_mult_small) simp_all
  then have "unat (ucast (word_of_nat (M div ?D) :: u32) + 2 ^ 32 * ucast (?n1 div ?d0) :: u64) = unat n div ?D"
    using Q split uq by (subst unat_add_small) simp_all
  then have "ucast (word_of_nat (M div ?D) :: u32) + 2 ^ 32 * ucast (?n1 div ?d0) = n div d"
    by (simp add: word_unat_eq_iff unat_div)
  then show ?thesis using assms(2) d0n dv unfolding udiv64_def Let_def by simp
qed

lemma div_times_le: "N div b * k \<le> N * k div b" for N b k :: nat
proof (cases "b = 0")
  case False
  have "N div b * k * b = (N div b * b) * k" by (simp add: algebra_simps)
  also have "\<dots> \<le> N * k" by (intro mult_le_mono1) (simp add: div_times_less_eq_dividend)
  finally show ?thesis using False by (simp add: less_eq_div_iff_mult_less_eq)
qed simp

text \<open>A longer divisor: its leading 32 bits give an estimate.\<close>

lemma udiv64_long:
  assumes "drop_bit 32 d \<noteq> 0" "d \<le> n"
  shows "udiv64 n d = Some (n div d)"
proof -
  let ?D = "unat d" and ?N = "unat n"
  let ?d1 = "ucast (drop_bit 32 d) :: u32"
  define s where "s = nlz ?d1"
  define P :: nat where "P = 2 ^ (32 - s)"
  define v where "v = ?D div P"
  define q where "q = ?N div (v * P)"
  have D32: "2 ^ 32 \<le> ?D"
  proof (rule ccontr)
    assume "\<not> 2 ^ 32 \<le> ?D"
    then have "unat (drop_bit 32 d) = 0" unfolding unat_drop_32 by simp
    with assms(1) show False by (metis unat_eq_zero)
  qed
  have d1: "unat ?d1 = ?D div 2 ^ 32" by (rule high_half)
  then have "0 < unat ?d1" using D32 by (simp add: div_greater_zero_iff)
  then have "?d1 \<noteq> 0" by (metis less_irrefl unsigned_0)
  from nlz_normalises [OF this] have s: "2 ^ 31 \<le> ?D div 2 ^ 32 * 2 ^ s" "?D div 2 ^ 32 * 2 ^ s < 2 ^ 32" "s \<le> 31"
    unfolding s_def d1 by simp_all
  have PS: "P * 2 ^ s = 2 ^ 32" using s(3) by (simp add: P_def flip: power_add)
  have Ds: "?D * 2 ^ s < 2 ^ 64"
  proof -
    have "(?D div 2 ^ 32 + 1) * 2 ^ s \<le> 2 ^ 32"
    proof -
      have "?D div 2 ^ 32 * 2 ^ s < P * 2 ^ s" using s(2) PS by simp
      then have "?D div 2 ^ 32 + 1 \<le> P" by simp
      then have "(?D div 2 ^ 32 + 1) * 2 ^ s \<le> P * 2 ^ s" by (rule mult_le_mono1)
      then show ?thesis using PS by simp
    qed
    have "?D < (?D div 2 ^ 32 + 1) * 2 ^ 32" by (simp add: dividend_less_div_times)
    then have "?D * 2 ^ s < (?D div 2 ^ 32 + 1) * 2 ^ 32 * 2 ^ s" by simp
    also have "\<dots> = (?D div 2 ^ 32 + 1) * 2 ^ s * 2 ^ 32" by (simp add: algebra_simps)
    also have "\<dots> \<le> 2 ^ 32 * 2 ^ 32" using \<open>(?D div 2 ^ 32 + 1) * 2 ^ s \<le> 2 ^ 32\<close> by (rule mult_le_mono1)
    finally show ?thesis by simp
  qed
  have ve: "?D * 2 ^ s div 2 ^ 32 = v"
    unfolding v_def PS [symmetric] by (simp add: P_def)
  have "unat (push_bit s d) = ?D * 2 ^ s"
  proof -
    have "take_bit 64 (push_bit s ?D) = ?D * 2 ^ s" using Ds by (simp add: push_bit_eq_mult take_bit_nat_eq_self)
    moreover have "unat (push_bit s d) = take_bit 64 (push_bit s ?D)" by (simp add: unsigned_push_bit_eq)
    ultimately show ?thesis by metis
  qed
  then have uv: "unat (ucast (drop_bit 32 (push_bit s d)) :: u32) = v" unfolding high_half ve [symmetric] by simp
  have v: "2 ^ 31 \<le> v" "v < 2 ^ 32"
  proof -
    have "?D div 2 ^ 32 * 2 ^ s \<le> ?D * 2 ^ s div 2 ^ 32" by (rule div_times_le)
    then show "2 ^ 31 \<le> v" using s(1) ve by linarith
    show "v < 2 ^ 32" using unat_less_32 [of "ucast (drop_bit 32 (push_bit s d))"] uv by simp
  qed
  then have vn: "ucast (drop_bit 32 (push_bit s d)) \<noteq> (0 :: u32)" using uv by (metis not_numeral_le_zero unsigned_0 power_eq_0_iff le_zero_eq zero_neq_numeral)
  have h: "unat (drop_bit 1 n) = ?N div 2" by (simp add: drop_bit_eq_div unat_div)
  have q1: "?N div 2 div v < 2 ^ 32"
  proof -
    have "?N div 2 < 2 ^ 32 * 2 ^ 31" using unat_less_64 [of n] by simp
    also have "\<dots> \<le> 2 ^ 32 * v" using v(1) by (rule mult_le_mono2)
    finally show ?thesis by (simp add: less_mult_imp_div_less)
  qed
  have dv: "divl (drop_bit 1 n) (ucast (drop_bit 32 (push_bit s d))) = Some (word_of_nat (?N div 2 div v))"
    unfolding divl_def uv h using q1 vn by simp
  have q: "unat (ucast (drop_bit (31 - s) (word_of_nat (?N div 2 div v) :: u32)) :: u64) = q"
  proof -
    have "unat (drop_bit (31 - s) (word_of_nat (?N div 2 div v) :: u32)) = ?N div 2 div v div 2 ^ (31 - s)"
      unfolding unat_drop_bit_32 using q1 by (simp add: unat_word_of_nat_small)
    also have "\<dots> = ?N div (v * P)"
    proof -
      have "(2 :: nat) * v * 2 ^ (31 - s) = v * P" 
      proof -
        have "32 - s = Suc (31 - s)" using s(3) by arith
        then show ?thesis by (simp add: P_def)
      qed
      moreover have "?N div 2 div v div 2 ^ (31 - s) = ?N div (2 * v * 2 ^ (31 - s))" by (simp only: div_mult2_eq)
      ultimately show ?thesis by metis
    qed
    finally show ?thesis by (simp add: q_def)
  qed
  have P0: "0 < P" by (simp add: P_def)
  have est: "?N div ?D \<le> q" "q \<le> ?N div ?D + 1"
    using quotient_estimate [OF P0, of ?D ?N] v(1) unat_less_64 [of n] by (simp_all add: q_def v_def)
  define Q where "Q = (ucast (drop_bit (31 - s) (word_of_nat (?N div 2 div v) :: u32)) :: u64)"
  have DN: "?D \<le> ?N" using assms(2) by (simp add: word_le_nat_alt)
  have D0: "0 < ?D" using D32 by (rule less_le_trans [rotated]) simp
  have N1: "1 \<le> ?N div ?D" using DN D0 by (simp add: Suc_le_eq div_greater_zero_iff)
  have Q1: "unat (Q - 1) = q - 1"
    using q est(1) N1 unfolding Q_def [symmetric] by (simp add: unat_sub word_le_nat_alt)
  have le: "(q - 1) * ?D \<le> ?N"
  proof -
    have "(q - 1) * ?D \<le> ?N div ?D * ?D" using est(2) by (intro mult_le_mono1) simp
    then show ?thesis using div_times_less_eq_dividend [of ?N ?D] by linarith
  qed
  have m: "unat ((Q - 1) * d) = (q - 1) * ?D"
    using le unat_less_64 [of n] by (subst unat_mult_small) (simp_all add: Q1)
  have sub: "unat (n - (Q - 1) * d) = ?N - (q - 1) * ?D"
    using le m by (simp add: unat_sub word_le_nat_alt)
  have res: "(if n - (Q - 1) * d < d then Q - 1 else Q) = n div d"
  proof (cases "q = ?N div ?D")
    case True
    then have "?D \<le> ?N - (q - 1) * ?D"
    proof -
      have "q \<noteq> 0" using N1 True by simp
      then have "(q - 1) * ?D + ?D = q * ?D" by (cases q) auto
      also have "\<dots> \<le> ?N" using True by (simp add: div_times_less_eq_dividend)
      finally show ?thesis by simp
    qed
    then have "\<not> n - (Q - 1) * d < d" by (simp add: word_less_nat_alt sub)
    moreover have "Q = n div d" using True q by (simp add: word_unat_eq_iff unat_div Q_def)
    ultimately show ?thesis by simp
  next
    case False
    then have q': "q - 1 = ?N div ?D" using est by simp
    then have "?N - (q - 1) * ?D = ?N mod ?D" by (simp add: minus_div_mult_eq_mod)
    then have "n - (Q - 1) * d < d" using D0 by (simp add: word_less_nat_alt sub)
    moreover have "Q - 1 = n div d" using q' Q1 by (simp add: word_unat_eq_iff unat_div)
    ultimately show ?thesis by simp
  qed
  have "\<not> n < d" using assms(2) by simp
  then have "udiv64 n d = Some (if n - (Q - 1) * d < d then Q - 1 else Q)"
    unfolding udiv64_def Let_def if_not_P [OF assms(1)] if_not_P [OF \<open>\<not> n < d\<close>] s_def [symmetric] dv
    by (simp add: Q_def)
  then show ?thesis unfolding res .
qed

subsection \<open>The properties\<close>

text \<open>C39: the 64-bit unsigned division is division: it traps exactly when the divisor is zero, neither of
  the machine divisions inside it overflows, and it returns the quotient rounded down, for all
  operands.\<close>

theorem udiv64_divides: "udiv64 n d = (if d = 0 then None else Some (n div d))"
proof (cases "drop_bit 32 d = 0")
  case True
  show ?thesis
  proof (cases "d = 0")
    case True
    then show ?thesis by (simp add: udiv64_def Let_def)
  qed (use True udiv64_short in simp)
next
  case long: False
  then have "d \<noteq> 0" by auto
  show ?thesis
  proof (cases "n < d")
    case True
    then have "n div d = 0" by (simp add: word_unat_eq_iff unat_div word_less_nat_alt)
    with True long \<open>d \<noteq> 0\<close> show ?thesis by (simp add: udiv64_def)
  qed (use long udiv64_long \<open>d \<noteq> 0\<close> in simp)
qed

lemma abs_word: "(if 0 \<le>s n then n else - n) = (word_of_int \<bar>sint n\<bar> :: u64)"
  by (simp add: word_sle_eq)

lemma uint_abs_word: "uint (word_of_int \<bar>sint (n :: u64)\<bar> :: u64) = \<bar>sint n\<bar>"
proof -
  have "\<bar>sint n\<bar> \<le> 2 ^ 63" using sint_greater_eq [of n] sint_less [of n] by simp
  then show ?thesis by (simp add: uint_word_of_int take_bit_int_eq_self)
qed

text \<open>The 64-bit signed division truncates towards zero, as C's division does, for all operands and
  all signs: it traps exactly when the divisor is zero, and it wraps around for the one quotient that
  does not fit, that of the smallest number by -1.\<close>

theorem sdiv64_truncates:
  "divdi3 n d = (if d = 0 then None else Some (word_of_int (sint n sdiv sint d)))"
proof (cases "d = 0")
  case True
  then show ?thesis by (simp add: divdi3_def sdiv64_def udiv64_divides)
next
  case False
  let ?n = "word_of_int \<bar>sint n\<bar> :: u64" and ?d = "word_of_int \<bar>sint d\<bar> :: u64"
  have "?d \<noteq> 0" using False uint_abs_word [of d] by (metis abs_eq_0 signed_eq_0_iff uint_0_eq)
  then have u: "udiv64 ?n ?d = Some (?n div ?d)" by (simp add: udiv64_divides)
  have q: "?n div ?d = word_of_int (\<bar>sint n\<bar> div \<bar>sint d\<bar>)"
    by (simp add: word_div_def uint_abs_word)
  have sg: "(n <s 0) = (sint n < 0)" "(d <s 0) = (sint d < 0)" by (simp_all add: word_sless_alt)
  have "sint d \<noteq> 0" using False by (simp add: signed_eq_0_iff)
  then have "(if (sint n < 0) = (sint d < 0) then ?n div ?d else - (?n div ?d)) = word_of_int (sint n sdiv sint d)"
    unfolding q by (cases "sint n = 0") (auto simp: signed_divide_int_def sgn_if)
  with u False show ?thesis unfolding divdi3_def sdiv64_def abs_word Let_def sg by simp
qed

text \<open>The 64-bit remainder is wrong for long remainders.  \<open>umod64\<close> returns 32 bits, so what GCC's
  \<open>__umoddi3\<close> returns is the low half of the remainder: it is the remainder exactly when that is
  less than \<open>2 ^ 32\<close>.\<close>

theorem umoddi3_loses_high_half:
  assumes "d \<noteq> 0"
  shows "umoddi3 n d = Some (take_bit 32 (n mod d)) \<and> (umoddi3 n d = Some (n mod d) \<longleftrightarrow> n mod d < 2 ^ 32)"
proof -
  have "n - d * (n div d) = n mod d" by (metis add_diff_cancel_left' mult_div_mod_eq)
  then have u: "umoddi3 n d = Some (take_bit 32 (n mod d))"
    using assms by (simp add: umoddi3_def umod64_def udiv64_divides low_half)
  have "take_bit 32 r = r \<longleftrightarrow> r < 2 ^ 32" for r :: u64
    by (simp add: word_unat_eq_iff word_less_nat_alt unsigned_take_bit_eq take_bit_nat_eq_self_iff)
  with u show ?thesis by simp
qed

theorem umoddi3_loses_high_half_witness: "umoddi3 (2 ^ 33) (2 ^ 34) = Some 0"
proof -
  have "(2 ^ 33 :: u64) mod 2 ^ 34 = 2 ^ 33" "take_bit 32 (2 ^ 33 :: u64) = 0" by simp_all
  then show ?thesis using umoddi3_loses_high_half [of "2 ^ 34" "2 ^ 33"] by simp
qed

end
