(* ===== verification/PseudoRandom.thy ===== *)
theory PseudoRandom imports Prelude "HOL-Library.Multiset" begin

section \<open>lib/random.c: the pseudo-random number generator\<close>

text \<open>The generator's static variables and its operations; the state is an RC4 state, which has to
  stay a permutation of the 256 bytes.\<close>

record rc4 =
  rc_s :: "byte list"
  rc_i :: byte
  rc_j :: byte
  rc_inited :: bool

definition swap_byte :: "nat \<Rightarrow> nat \<Rightarrow> byte list \<Rightarrow> byte list" where
  "swap_byte a b s = (let t = s ! a; s = s[a := s ! b] in s[b := t])"

text \<open>The second loop of \<open>random_init\<close>, from index \<open>i\<close> on, \<open>n\<close> rounds.\<close>

fun mix_seed :: "nat \<Rightarrow> nat \<Rightarrow> byte list \<Rightarrow> byte \<Rightarrow> byte list \<Rightarrow> byte list" where
  "mix_seed 0 i seedp j s = s"
| "mix_seed (Suc n) i seedp j s =
     (let j = j + (s ! i + seedp ! (i mod 4)) in mix_seed n (i + 1) seedp j (swap_byte i (unat j) s))"

definition random_init :: "u32 \<Rightarrow> rc4 \<Rightarrow> rc4" where
  "random_init seed r =
     \<lparr>rc_s = mix_seed 256 0 (bytes_of_u32 seed) 0 (map word_of_nat [0..<256]), rc_i = 0, rc_j = 0, rc_inited = True\<rparr>"

fun random_loop :: "nat \<Rightarrow> rc4 \<Rightarrow> rc4 \<times> byte list" where
  "random_loop 0 r = (r, [])"
| "random_loop (Suc n) r =
     (let r = r\<lparr>rc_i := rc_i r + 1\<rparr>;
          r = r\<lparr>rc_j := rc_j r + rc_s r ! unat (rc_i r)\<rparr>;
          r = r\<lparr>rc_s := swap_byte (unat (rc_i r)) (unat (rc_j r)) (rc_s r)\<rparr>;
          s_k = rc_s r ! unat (rc_i r) + rc_s r ! unat (rc_j r);
          b = rc_s r ! unat s_k;
          (r', bs) = random_loop n r
      in (r', b # bs))"

definition random_bytes :: "nat \<Rightarrow> rc4 \<Rightarrow> rc4 \<times> byte list" where
  "random_bytes sz r = random_loop sz (if \<not> rc_inited r then random_init 0 r else r)"

definition random_ulong :: "rc4 \<Rightarrow> rc4 \<times> u32" where
  "random_ulong r = (let (r, bs) = random_bytes 4 r in (r, u32_of_bytes bs))"

subsection \<open>The state is a permutation\<close>

definition rc4_ok :: "rc4 \<Rightarrow> bool" where
  "rc4_ok r = (length (rc_s r) = 256 \<and> distinct (rc_s r) \<and> set (rc_s r) = UNIV)"

lemma swap_byte_perm: "a < length s \<Longrightarrow> b < length s \<Longrightarrow> mset (swap_byte a b s) = mset s"
  by (simp add: swap_byte_def Let_def mset_swap)

lemma length_swap_byte [simp]: "length (swap_byte a b s) = length s"
  by (simp add: swap_byte_def Let_def)

lemma unat_byte: "unat (x :: byte) < 256"
  using unsigned_less [of x] by simp

lemma mix_seed_perm:
  "i + n \<le> 256 \<Longrightarrow> length s = 256 \<Longrightarrow> mset (mix_seed n i seedp j s) = mset s \<and> length (mix_seed n i seedp j s) = 256"
proof (induction n arbitrary: i j s)
  case (Suc n)
  then show ?case by (simp add: Let_def swap_byte_perm unat_byte)
qed simp

lemma all_bytes: "distinct (map word_of_nat [0..<256] :: byte list)" "set (map word_of_nat [0..<256]) = (UNIV :: byte set)"
proof -
  have "unat (word_of_nat n :: byte) = n" if "n < 256" for n using that by (simp add: unsigned_of_nat take_bit_nat_eq_self)
  then have "inj_on (word_of_nat :: nat \<Rightarrow> byte) {0..<256}" by (intro inj_onI) (metis atLeastLessThan_iff)
  then show "distinct (map word_of_nat [0..<256] :: byte list)" by (simp add: distinct_map)
  have "x \<in> word_of_nat ` {0..<256}" for x :: byte using unat_byte [of x] by (intro image_eqI [of _ _ "unat x"]) auto
  then show "set (map word_of_nat [0..<256]) = (UNIV :: byte set)" by auto
qed

lemma rc4_ok_mset: "rc4_ok r \<Longrightarrow> mset (rc_s r') = mset (rc_s r) \<Longrightarrow> rc4_ok r'"
  unfolding rc4_ok_def by (metis mset_eq_imp_distinct_iff mset_eq_length mset_eq_setD)

lemma random_init_ok: "rc4_ok (random_init seed r) \<and> rc_inited (random_init seed r)"
proof -
  let ?xs = "map word_of_nat [0..<256] :: byte list"
  have "mset (rc_s (random_init seed r)) = mset ?xs"
    using mix_seed_perm [where i = 0 and n = 256 and s = ?xs and seedp = "bytes_of_u32 seed" and j = 0] by (simp add: random_init_def)
  moreover have "rc4_ok \<lparr>rc_s = ?xs, rc_i = 0, rc_j = 0, rc_inited = True\<rparr>"
    using all_bytes by (simp add: rc4_ok_def)
  ultimately show ?thesis using rc4_ok_mset by (auto simp: random_init_def)
qed

lemma random_loop_ok:
  "rc4_ok r \<Longrightarrow> rc4_ok (fst (random_loop n r)) \<and> length (snd (random_loop n r)) = n
     \<and> rc_inited (fst (random_loop n r)) = rc_inited r"
proof (induction n arbitrary: r)
  case (Suc n)
  define i where "i = rc_i r + 1"
  define j where "j = rc_j r + rc_s r ! unat i"
  define r1 where "r1 = r\<lparr>rc_i := i, rc_j := j, rc_s := swap_byte (unat i) (unat j) (rc_s r)\<rparr>"
  have "mset (rc_s r1) = mset (rc_s r)"
    using Suc.prems unat_byte by (simp add: r1_def rc4_ok_def swap_byte_perm)
  then have "rc4_ok r1" by (rule rc4_ok_mset [OF Suc.prems])
  moreover have "random_loop (Suc n) r = (fst (random_loop n r1),
      rc_s r1 ! unat (rc_s r1 ! unat i + rc_s r1 ! unat j) # snd (random_loop n r1))"
    by (simp add: Let_def i_def j_def r1_def case_prod_beta)
  moreover have "rc_inited r1 = rc_inited r" by (simp add: r1_def)
  ultimately show ?case using Suc.IH [of r1] by simp
qed simp

text \<open>C40: whatever the seed, and whether or not \<open>random_init\<close> was called before, after any call of
  \<open>random_bytes\<close> the generator's table is a permutation of the 256 bytes, so that no index into it is
  out of its bounds and no byte value is lost; it is initialised; and the call wrote as many
  bytes as it was asked for.\<close>

theorem random_state_permutation:
  assumes "rc_inited r \<longrightarrow> rc4_ok r"
  shows "rc4_ok (fst (random_bytes n r)) \<and> rc_inited (fst (random_bytes n r)) \<and> length (snd (random_bytes n r)) = n
    \<and> rc4_ok (random_init seed r)"
  using assms random_init_ok [of 0 r] random_init_ok [of seed r] random_loop_ok by (auto simp: random_bytes_def)

theorem random_state_permutation_witness:
  "length (snd (random_bytes 16 \<lparr>rc_s = [], rc_i = 0, rc_j = 0, rc_inited = False\<rparr>)) = 16"
  using random_state_permutation [of "\<lparr>rc_s = [], rc_i = 0, rc_j = 0, rc_inited = False\<rparr>" 16] by simp

end
