(* ===== verification/BlockDevice.thy ===== *)
theory BlockDevice imports Prelude begin

section \<open>devices/block.c: block devices\<close>

text \<open>
  A block device is an array of sectors of 512 bytes behind the operations of its driver.  The
  driver (\<open>ops\<close>, \<open>aux\<close>) talks to a disk; what the kernel relies on is that a read returns what the
  sector holds and a write replaces it, so a device carries its \<open>medium\<close>, the contents of its
  sectors.  \<open>block_layer\<close> is the list of registered devices with the devices by role.

  The interface of a store of sectors, the locale \<open>sector_store\<close>, is what the file system asks of
  the layer below it; the device and the buffer cache over it both provide it.
\<close>

definition BLOCK_SECTOR_SIZE :: nat where
  "BLOCK_SECTOR_SIZE = 512"

datatype block_type = BLOCK_KERNEL | BLOCK_FILESYS | BLOCK_SCRATCH | BLOCK_SWAP | BLOCK_RAW | BLOCK_FOREIGN

text \<open>The order of the enumeration; \<open>BLOCK_ROLE_CNT\<close> is the number of the first four.\<close>

fun block_type_code :: "block_type \<Rightarrow> nat" where
  "block_type_code BLOCK_KERNEL = 0" | "block_type_code BLOCK_FILESYS = 1"
| "block_type_code BLOCK_SCRATCH = 2" | "block_type_code BLOCK_SWAP = 3"
| "block_type_code BLOCK_RAW = 4" | "block_type_code BLOCK_FOREIGN = 5"

definition BLOCK_ROLE_CNT :: nat where
  "BLOCK_ROLE_CNT = 4"

record block =
  dev_name :: string
  dev_type :: block_type
  dev_size :: nat
  medium :: "byte list list"
  read_cnt :: nat
  write_cnt :: nat

record block_layer =
  all_blocks :: "ptr list"
  block_of :: "ptr \<Rightarrow> block option"
  block_by_role :: "block_type \<Rightarrow> ptr option"

definition block_type_name :: "block_type \<Rightarrow> string" where
  "block_type_name t =
     [''kernel'', ''filesys'', ''scratch'', ''swap'', ''raw'', ''foreign''] ! block_type_code t"

subsection \<open>Finding devices\<close>

definition block_get_role :: "block_type \<Rightarrow> block_layer \<Rightarrow> ptr option option" where
  "block_get_role role bl = do {
     ASSERT (block_type_code role < BLOCK_ROLE_CNT);
     Some (block_by_role bl role) }"

definition block_set_role :: "block_type \<Rightarrow> ptr option \<Rightarrow> block_layer \<Rightarrow> block_layer option" where
  "block_set_role role b bl = do {
     ASSERT (block_type_code role < BLOCK_ROLE_CNT);
     Some (bl\<lparr>block_by_role := (block_by_role bl)(role := b)\<rparr>) }"

text \<open>\<open>list_elem_to_block\<close> turns the end of the list into a null pointer: here the end is the empty
  rest of the list.\<close>

fun list_elem_to_block :: "ptr list \<Rightarrow> ptr option" where
  "list_elem_to_block [] = None"
| "list_elem_to_block (b # bs) = Some b"

definition block_first :: "block_layer \<Rightarrow> ptr option" where
  "block_first bl = list_elem_to_block (all_blocks bl)"

definition block_next :: "ptr \<Rightarrow> block_layer \<Rightarrow> ptr option" where
  "block_next b bl = list_elem_to_block (tl (dropWhile (\<lambda>x. x \<noteq> b) (all_blocks bl)))"

fun block_get_by_name_loop :: "string \<Rightarrow> ptr list \<Rightarrow> block_layer \<Rightarrow> ptr option" where
  "block_get_by_name_loop name [] bl = None"
| "block_get_by_name_loop name (b # bs) bl =
     (if map_option dev_name (block_of bl b) = Some name then Some b
      else block_get_by_name_loop name bs bl)"

definition block_get_by_name :: "string \<Rightarrow> block_layer \<Rightarrow> ptr option" where
  "block_get_by_name name bl = block_get_by_name_loop name (all_blocks bl) bl"

text \<open>\<open>malloc\<close> gives the new descriptor's address, or nothing, and then the kernel panics.  The name is
  cut to 15 characters by \<open>strlcpy\<close>.\<close>

definition block_register ::
  "ptr option \<Rightarrow> string \<Rightarrow> block_type \<Rightarrow> nat \<Rightarrow> byte list list \<Rightarrow> block_layer \<Rightarrow> (ptr \<times> block_layer) option" where
  "block_register mallocd name type sz contents bl = do {
     b \<leftarrow> mallocd;
     let dev = \<lparr>dev_name = take 15 name, dev_type = type, dev_size = sz, medium = contents,
                read_cnt = 0, write_cnt = 0\<rparr>;
     Some (b, bl\<lparr>all_blocks := all_blocks bl @ [b], block_of := (block_of bl)(b := Some dev)\<rparr>) }"

subsection \<open>Access to the sectors\<close>

definition check_sector :: "block \<Rightarrow> nat \<Rightarrow> unit option" where
  "check_sector b sector = (if sector \<ge> dev_size b then None else Some ())"

definition block_read :: "nat \<Rightarrow> block \<Rightarrow> (byte list \<times> block) option" where
  "block_read sector b = do {
     check_sector b sector;
     Some (medium b ! sector, b\<lparr>read_cnt := read_cnt b + 1\<rparr>) }"

definition block_write :: "nat \<Rightarrow> byte list \<Rightarrow> block \<Rightarrow> block option" where
  "block_write sector buffer b = do {
     check_sector b sector;
     ASSERT (dev_type b \<noteq> BLOCK_FOREIGN);
     Some (b\<lparr>medium := (medium b)[sector := buffer], write_cnt := write_cnt b + 1\<rparr>) }"

definition block_size :: "block \<Rightarrow> nat" where
  "block_size b = dev_size b"

definition block_name :: "block \<Rightarrow> string" where
  "block_name b = dev_name b"

definition block_type_of :: "block \<Rightarrow> block_type" where
  "block_type_of b = dev_type b"

subsection \<open>The interface of a store of sectors\<close>

locale sector_store =
  fixes rd :: "nat \<Rightarrow> 's \<Rightarrow> (byte list \<times> 's) option"
    and wr :: "nat \<Rightarrow> byte list \<Rightarrow> 's \<Rightarrow> 's option"
    and view :: "'s \<Rightarrow> nat \<Rightarrow> byte list"
    and limit :: "'s \<Rightarrow> nat"
    and ok :: "'s \<Rightarrow> bool"
  assumes rd_spec: "ok s \<Longrightarrow> a < limit s \<Longrightarrow>
      \<exists>s'. rd a s = Some (view s a, s') \<and> ok s' \<and> view s' = view s \<and> limit s' = limit s"
    and rd_outside: "ok s \<Longrightarrow> limit s \<le> a \<Longrightarrow> rd a s = None"
    and wr_spec: "ok s \<Longrightarrow> a < limit s \<Longrightarrow> length d = BLOCK_SECTOR_SIZE \<Longrightarrow>
      \<exists>s'. wr a d s = Some s' \<and> ok s' \<and> view s' = (view s)(a := d) \<and> limit s' = limit s"
    and view_length: "ok s \<Longrightarrow> a < limit s \<Longrightarrow> length (view s a) = BLOCK_SECTOR_SIZE"
begin

lemma rdE:
  assumes "ok s" "rd a s = Some (d, s')"
  shows "a < limit s" "d = view s a" "ok s'" "view s' = view s" "limit s' = limit s"
proof -
  show a: "a < limit s" using assms rd_outside by (metis not_le option.distinct(1))
  from rd_spec [OF assms(1) a] assms(2)
  show "d = view s a" "ok s'" "view s' = view s" "limit s' = limit s" by auto
qed

lemma read_after_write:
  assumes "ok s" "a < limit s" "length d = BLOCK_SECTOR_SIZE" "b < limit s"
  obtains s' s'' where "wr a d s = Some s'" "rd b s' = Some (if b = a then d else view s b, s'')" "ok s''"
    "view s'' = (view s)(a := d)" "limit s'' = limit s"
proof -
  from wr_spec [OF assms(1-3)] obtain s' where
    s': "wr a d s = Some s'" "ok s'" "view s' = (view s)(a := d)" "limit s' = limit s" by blast
  with rd_spec [of s' b] assms(4) obtain s'' where
    "rd b s' = Some (view s' b, s'')" "ok s''" "view s'' = view s'" "limit s'' = limit s'" by auto
  with s' show ?thesis by (intro that [of s' s'']) simp_all
qed

end

definition block_ok :: "block \<Rightarrow> bool" where
  "block_ok b = (dev_type b \<noteq> BLOCK_FOREIGN \<and> length (medium b) = dev_size b
     \<and> (\<forall>d\<in>set (medium b). length d = BLOCK_SECTOR_SIZE))"

lemma block_read_Some:
  "sector < dev_size b \<Longrightarrow> block_read sector b = Some (medium b ! sector, b\<lparr>read_cnt := read_cnt b + 1\<rparr>)"
  by (simp add: block_read_def check_sector_def)

lemma block_write_Some:
  "sector < dev_size b \<Longrightarrow> dev_type b \<noteq> BLOCK_FOREIGN \<Longrightarrow> block_write sector d b =
     Some (b\<lparr>medium := (medium b)[sector := d], write_cnt := write_cnt b + 1\<rparr>)"
  by (simp add: block_write_def check_sector_def)

text \<open>The device itself is such a store; outside its sectors the view is left open, so it is cut to
  them.\<close>

definition block_view :: "block \<Rightarrow> nat \<Rightarrow> byte list" where
  "block_view b a = (if a < dev_size b then medium b ! a else [])"

interpretation device: sector_store block_read block_write block_view dev_size block_ok
proof
  fix s :: block and a d
  assume ok: "block_ok s"
  show "block_read a s = None" if "dev_size s \<le> a"
    using that by (simp add: block_read_def check_sector_def)
  show "length (block_view s a) = BLOCK_SECTOR_SIZE" if "a < dev_size s"
    using ok that by (simp add: block_view_def block_ok_def)
  show "\<exists>s'. block_read a s = Some (block_view s a, s') \<and> block_ok s' \<and> block_view s' = block_view s
      \<and> dev_size s' = dev_size s" if "a < dev_size s"
    using ok that by (auto simp: block_read_Some block_view_def block_ok_def)
  show "\<exists>s'. block_write a d s = Some s' \<and> block_ok s' \<and> block_view s' = (block_view s)(a := d)
      \<and> dev_size s' = dev_size s" if "a < dev_size s" "length d = BLOCK_SECTOR_SIZE"
    using ok that by (auto simp: block_write_Some block_view_def block_ok_def fun_eq_iff nth_list_update
      dest!: set_update_subset_insert [THEN subsetD])
qed

end
