(* ===== verification/BufferCache.thy ===== *)
theory BufferCache imports BlockDevice begin

section \<open>filesys/cache.c: the buffer cache\<close>

text \<open>
  The cache is an array of 64 entries in front of the file system's device, written back when an
  entry is evicted and when the file system is shut down.  \<open>bc_held\<close> is whether the running thread
  holds \<open>bc_lock\<close>: the lock makes the operations exclude each other, so they are modelled one after
  another.  An entry is named by its index; a null pointer is \<open>None\<close>.  \<open>exit (-1)\<close> does not
  come back.

  \<open>bc_view\<close> is the disk as the cache's callers see it.  The cache is a \<open>sector_store\<close> for this
  view: reads do not change it, a write changes one sector of it, whatever is evicted on the way.
\<close>

definition NUM_CACHE :: nat where
  "NUM_CACHE = 64"

record buffer_cache_entry =
  valid_bit :: bool
  disk_sector :: nat
  buffer :: "byte list"
  dirty_bit :: bool
  refer_bit :: bool

record bcache =
  bc_entries :: "buffer_cache_entry list"
  bc_held :: bool
  fs_device :: block

definition bc_lock_acquire :: "bcache \<Rightarrow> bcache option" where
  "bc_lock_acquire c = do { ASSERT (\<not> bc_held c); Some (c\<lparr>bc_held := True\<rparr>) }"

definition bc_lock_release :: "bcache \<Rightarrow> bcache option" where
  "bc_lock_release c = do { ASSERT (bc_held c); Some (c\<lparr>bc_held := False\<rparr>) }"

definition bc_update :: "nat \<Rightarrow> (buffer_cache_entry \<Rightarrow> buffer_cache_entry) \<Rightarrow> bcache \<Rightarrow> bcache" where
  "bc_update i f c = c\<lparr>bc_entries := (bc_entries c)[i := f (bc_entries c ! i)]\<rparr>"

definition buffer_cache_init :: "bcache \<Rightarrow> bcache" where
  "buffer_cache_init c = c\<lparr>bc_held := False, bc_entries := map (valid_bit_update (\<lambda>_. False)) (bc_entries c)\<rparr>"

fun lookup_loop :: "nat \<Rightarrow> nat \<Rightarrow> buffer_cache_entry list \<Rightarrow> nat option" where
  "lookup_loop sector i [] = None"
| "lookup_loop sector i (e # es) =
     (if valid_bit e \<and> disk_sector e = sector then Some i else lookup_loop sector (i + 1) es)"

definition buffer_cache_lookup :: "nat \<Rightarrow> bcache \<Rightarrow> nat option" where
  "buffer_cache_lookup sector c = lookup_loop sector 0 (bc_entries c)"

definition buffer_cache_flush_entry :: "nat \<Rightarrow> bcache \<Rightarrow> bcache option" where
  "buffer_cache_flush_entry ent c = do {
     ASSERT (bc_held c);
     ASSERT (valid_bit (bc_entries c ! ent));
     if dirty_bit (bc_entries c ! ent) then do {
       d \<leftarrow> block_write (disk_sector (bc_entries c ! ent)) (buffer (bc_entries c ! ent)) (fs_device c);
       Some (bc_update ent (dirty_bit_update (\<lambda>_. False)) (c\<lparr>fs_device := d\<rparr>)) }
     else Some c }"

text \<open>The search for a victim starts at the first entry and passes over the entries referred to since
  it last saw them; it comes back with an entry that is not valid, or with one to evict.\<close>

partial_function (option) victim_loop ::
  "buffer_cache_entry list \<Rightarrow> nat \<Rightarrow> (buffer_cache_entry list \<times> nat \<times> bool) option" where
  "victim_loop es cindex =
     (if \<not> valid_bit (es ! cindex) then Some (es, cindex, False)
      else if refer_bit (es ! cindex) then
        victim_loop (es[cindex := (es ! cindex)\<lparr>refer_bit := False\<rparr>]) ((cindex + 1) mod NUM_CACHE)
      else Some (es, cindex, True))"

definition buffer_cache_select_victim :: "bcache \<Rightarrow> (nat \<times> bcache) option" where
  "buffer_cache_select_victim c = do {
     ASSERT (bc_held c);
     (es, cindex, evict) \<leftarrow> victim_loop (bc_entries c) 0;
     let c = c\<lparr>bc_entries := es\<rparr>;
     if \<not> evict then Some (cindex, c)
     else do {
       c \<leftarrow> (if dirty_bit (bc_entries c ! cindex) then buffer_cache_flush_entry cindex c else Some c);
       Some (cindex, bc_update cindex (valid_bit_update (\<lambda>_. False)) c) } }"

text \<open>The part \<open>buffer_cache_read\<close> and \<open>buffer_cache_write\<close> have in common: the entry of the sector, read
  from the device when it is not there.\<close>

definition bc_fetch :: "nat \<Rightarrow> bcache \<Rightarrow> (nat \<times> bcache) option" where
  "bc_fetch sector c =
     (case buffer_cache_lookup sector c of
        Some ent \<Rightarrow> Some (ent, c)
      | None \<Rightarrow> do {
          (ent, c) \<leftarrow> buffer_cache_select_victim c;
          ASSERT (\<not> valid_bit (bc_entries c ! ent));
          let c = bc_update ent (\<lambda>e. e\<lparr>dirty_bit := False, valid_bit := True, disk_sector := sector\<rparr>) c;
          (data, d) \<leftarrow> block_read sector (fs_device c);
          Some (ent, bc_update ent (buffer_update (\<lambda>_. data)) (c\<lparr>fs_device := d\<rparr>)) })"

definition buffer_cache_read :: "nat \<Rightarrow> bcache \<Rightarrow> (byte list \<times> bcache) option" where
  "buffer_cache_read sector c = do {
     c \<leftarrow> bc_lock_acquire c;
     (ent, c) \<leftarrow> bc_fetch sector c;
     let c = bc_update ent (refer_bit_update (\<lambda>_. True)) c;
     let target = buffer (bc_entries c ! ent);
     c \<leftarrow> bc_lock_release c;
     Some (target, c) }"

definition buffer_cache_write :: "nat \<Rightarrow> byte list \<Rightarrow> bcache \<Rightarrow> bcache option" where
  "buffer_cache_write sector source c = do {
     c \<leftarrow> bc_lock_acquire c;
     (ent, c) \<leftarrow> bc_fetch sector c;
     let c = bc_update ent (\<lambda>e. e\<lparr>refer_bit := True, dirty_bit := True\<rparr>) c;
     let c = bc_update ent (buffer_update (\<lambda>_. source)) c;
     bc_lock_release c }"

fun terminate_loop :: "nat \<Rightarrow> nat \<Rightarrow> bcache \<Rightarrow> bcache option" where
  "terminate_loop i 0 c = Some c"
| "terminate_loop i (Suc n) c = do {
     c \<leftarrow> (if valid_bit (bc_entries c ! i) then buffer_cache_flush_entry i c else Some c);
     terminate_loop (i + 1) n c }"

definition buffer_cache_terminate :: "bcache \<Rightarrow> bcache option" where
  "buffer_cache_terminate c = do {
     c \<leftarrow> bc_lock_acquire c;
     c \<leftarrow> terminate_loop 0 NUM_CACHE c;
     bc_lock_release c }"

subsection \<open>The disk behind the cache\<close>

definition bc_view :: "bcache \<Rightarrow> nat \<Rightarrow> byte list" where
  "bc_view c a = (case buffer_cache_lookup a c of
     Some i \<Rightarrow> buffer (bc_entries c ! i)
   | None \<Rightarrow> block_view (fs_device c) a)"

definition bc_limit :: "bcache \<Rightarrow> nat" where
  "bc_limit c = dev_size (fs_device c)"

text \<open>An entry that is valid caches a sector of the device, alone, and agrees with it unless it is
  dirty.\<close>

definition bc_inv :: "bcache \<Rightarrow> bool" where
  "bc_inv c = (length (bc_entries c) = NUM_CACHE \<and> block_ok (fs_device c)
     \<and> (\<forall>i<NUM_CACHE. let e = bc_entries c ! i in valid_bit e \<longrightarrow>
          disk_sector e < dev_size (fs_device c) \<and> length (buffer e) = BLOCK_SECTOR_SIZE
          \<and> (\<not> dirty_bit e \<longrightarrow> buffer e = medium (fs_device c) ! disk_sector e)
          \<and> (\<forall>j<NUM_CACHE. valid_bit (bc_entries c ! j) \<longrightarrow> disk_sector (bc_entries c ! j) = disk_sector e \<longrightarrow> j = i)))"

definition bc_ok :: "bcache \<Rightarrow> bool" where
  "bc_ok c = (bc_inv c \<and> \<not> bc_held c)"

subsection \<open>Looking up\<close>

lemma bc_update_fields [simp]:
  "bc_entries (bc_update i f c) = (bc_entries c)[i := f (bc_entries c ! i)]"
  "fs_device (bc_update i f c) = fs_device c" "bc_held (bc_update i f c) = bc_held c"
  by (simp_all add: bc_update_def)

lemma lookup_loop_spec:
  "lookup_loop a k es = (if \<exists>i<length es. valid_bit (es ! i) \<and> disk_sector (es ! i) = a
     then Some (k + (LEAST i. i < length es \<and> valid_bit (es ! i) \<and> disk_sector (es ! i) = a)) else None)"
proof (induction es arbitrary: k)
  case (Cons e es)
  let ?P = "\<lambda>i. i < length (e # es) \<and> valid_bit ((e # es) ! i) \<and> disk_sector ((e # es) ! i) = a"
  show ?case
  proof (cases "valid_bit e \<and> disk_sector e = a")
    case True
    then have "(LEAST i. ?P i) = 0" by (intro Least_equality) auto
    with True show ?thesis by (auto intro: exI [of _ 0])
  next
    case False
    have "(LEAST i. ?P i) = Suc (LEAST i. ?P (Suc i))" if "?P n" for n
      using False that by (intro Least_Suc [of ?P n]) auto
    moreover have "(\<exists>i. ?P i) = (\<exists>i<length es. valid_bit (es ! i) \<and> disk_sector (es ! i) = a)"
      using False by (auto simp: less_Suc_eq_0_disj)
    ultimately show ?thesis using False Cons.IH [of "k + 1"] by auto
  qed
qed simp

definition caches :: "bcache \<Rightarrow> nat \<Rightarrow> nat \<Rightarrow> bool" where
  "caches c i a = (i < length (bc_entries c) \<and> valid_bit (bc_entries c ! i) \<and> disk_sector (bc_entries c ! i) = a)"

lemma lookup_Some: "buffer_cache_lookup a c = Some i \<Longrightarrow> caches c i a"
proof -
  assume l: "buffer_cache_lookup a c = Some i"
  then have ex: "\<exists>i. caches c i a"
    by (auto simp: buffer_cache_lookup_def lookup_loop_spec caches_def split: if_splits)
  from l ex have "i = (LEAST i. caches c i a)"
    by (auto simp: buffer_cache_lookup_def lookup_loop_spec caches_def split: if_splits)
  then show ?thesis using LeastI_ex [OF ex] by simp
qed

lemma lookup_None: "buffer_cache_lookup a c = None \<longleftrightarrow> (\<forall>i. \<not> caches c i a)"
  by (auto simp: buffer_cache_lookup_def lookup_loop_spec caches_def)

lemma bc_invI:
  assumes "length (bc_entries c) = NUM_CACHE" "block_ok (fs_device c)"
    "\<And>i a. caches c i a \<Longrightarrow> a < dev_size (fs_device c) \<and> length (buffer (bc_entries c ! i)) = BLOCK_SECTOR_SIZE
       \<and> (\<not> dirty_bit (bc_entries c ! i) \<longrightarrow> buffer (bc_entries c ! i) = medium (fs_device c) ! a)"
    "\<And>i j a. caches c i a \<Longrightarrow> caches c j a \<Longrightarrow> i = j"
  shows "bc_inv c"
  unfolding bc_inv_def Let_def using assms by (auto simp: caches_def)

lemma bc_invD:
  assumes "bc_inv c"
  shows "length (bc_entries c) = NUM_CACHE" "block_ok (fs_device c)"
    "\<And>i a. caches c i a \<Longrightarrow> a < dev_size (fs_device c)"
    "\<And>i a. caches c i a \<Longrightarrow> length (buffer (bc_entries c ! i)) = BLOCK_SECTOR_SIZE"
    "\<And>i a. caches c i a \<Longrightarrow> \<not> dirty_bit (bc_entries c ! i) \<Longrightarrow> buffer (bc_entries c ! i) = medium (fs_device c) ! a"
    "\<And>i j a. caches c i a \<Longrightarrow> caches c j a \<Longrightarrow> i = j"
  using assms unfolding bc_inv_def Let_def caches_def by auto

lemma bc_view_hit: "bc_inv c \<Longrightarrow> caches c i a \<Longrightarrow> bc_view c a = buffer (bc_entries c ! i)"
  unfolding bc_view_def by (cases "buffer_cache_lookup a c") (auto simp: lookup_None dest: lookup_Some bc_invD(6))

lemma bc_view_miss: "(\<And>i. \<not> caches c i a) \<Longrightarrow> bc_view c a = block_view (fs_device c) a"
  using lookup_None [of a c] by (simp add: bc_view_def)

lemma bc_view_eqI:
  assumes "bc_inv c" "bc_inv c'"
    and "\<And>i. caches c' i a \<Longrightarrow> bc_view c a = buffer (bc_entries c' ! i)"
    and "(\<And>i. \<not> caches c' i a) \<Longrightarrow> bc_view c a = block_view (fs_device c') a"
  shows "bc_view c' a = bc_view c a"
proof (cases "\<exists>i. caches c' i a")
  case True
  with assms bc_view_hit [OF assms(2)] show ?thesis by metis
next
  case False
  with assms bc_view_miss [of c' a] show ?thesis by metis
qed

subsection \<open>The steps of the operations\<close>

text \<open>What differs in the lock and the reference bits only is the same disk.\<close>

definition core :: "buffer_cache_entry \<Rightarrow> buffer_cache_entry" where
  "core e = e\<lparr>refer_bit := False\<rparr>"

definition same_disk :: "bcache \<Rightarrow> bcache \<Rightarrow> bool" where
  "same_disk c c' = (fs_device c' = fs_device c \<and> map core (bc_entries c') = map core (bc_entries c))"

lemma core_nth:
  assumes "same_disk c c'" "i < length (bc_entries c)"
  shows "valid_bit (bc_entries c' ! i) = valid_bit (bc_entries c ! i)"
    "disk_sector (bc_entries c' ! i) = disk_sector (bc_entries c ! i)"
    "buffer (bc_entries c' ! i) = buffer (bc_entries c ! i)"
    "dirty_bit (bc_entries c' ! i) = dirty_bit (bc_entries c ! i)"
proof -
  from assms have "core (bc_entries c' ! i) = core (bc_entries c ! i)"
    unfolding same_disk_def by (metis length_map nth_map)
  then show "valid_bit (bc_entries c' ! i) = valid_bit (bc_entries c ! i)"
    "disk_sector (bc_entries c' ! i) = disk_sector (bc_entries c ! i)"
    "buffer (bc_entries c' ! i) = buffer (bc_entries c ! i)"
    "dirty_bit (bc_entries c' ! i) = dirty_bit (bc_entries c ! i)"
    unfolding core_def by (metis buffer_cache_entry.ext_inject buffer_cache_entry.surjective
      buffer_cache_entry.update_convs(5))+
qed

lemma same_disk_caches: "same_disk c c' \<Longrightarrow> caches c' i a = caches c i a"
  using core_nth [of c c' i] unfolding same_disk_def caches_def by (metis length_map)

lemma same_disk_inv:
  assumes "same_disk c c'" "bc_inv c"
  shows "bc_inv c' \<and> bc_view c' = bc_view c \<and> bc_limit c' = bc_limit c"
proof -
  note inv = bc_invD [OF assms(2)]
  from assms have dev: "fs_device c' = fs_device c" and len: "length (bc_entries c') = NUM_CACHE"
    using inv(1) unfolding same_disk_def by (auto dest: map_eq_imp_length_eq)
  have nth: "buffer (bc_entries c' ! i) = buffer (bc_entries c ! i)" "dirty_bit (bc_entries c' ! i) = dirty_bit (bc_entries c ! i)"
    if "caches c i a" for i a using that core_nth [OF assms(1)] by (auto simp: caches_def)
  have inv': "bc_inv c'"
    using inv nth by (intro bc_invI) (auto simp: same_disk_caches [OF assms(1)] len dev)
  moreover have "bc_view c' a = bc_view c a" for a
    using nth bc_view_hit [OF assms(2)] bc_view_miss [of c a]
    by (intro bc_view_eqI [OF assms(2) inv']) (auto simp: same_disk_caches [OF assms(1)] dev)
  ultimately show ?thesis by (auto simp: bc_limit_def dev)
qed

lemma caches_update:
  "caches (bc_update i f c) j a = (if i = j \<and> i < length (bc_entries c)
     then valid_bit (f (bc_entries c ! i)) \<and> disk_sector (f (bc_entries c ! i)) = a else caches c j a)"
  by (auto simp: caches_def)

lemma caches_device [simp]: "caches (c\<lparr>fs_device := d\<rparr>) i a = caches c i a"
  by (simp add: caches_def)

lemma caches_held [simp]: "caches (c\<lparr>bc_held := b\<rparr>) i a = caches c i a"
  by (simp add: caches_def)

lemma block_ok_write: "block_ok d \<Longrightarrow> length s = BLOCK_SECTOR_SIZE \<Longrightarrow>
    block_ok (d\<lparr>medium := (medium d)[a := s], write_cnt := n\<rparr>)"
  using set_update_subset_insert [of "medium d" a s] by (auto simp: block_ok_def)

lemma flush_Some:
  assumes "bc_inv c" "bc_held c" "caches c i a"
  defines "c' \<equiv> bc_update i (dirty_bit_update (\<lambda>_. False))
     (c\<lparr>fs_device := (fs_device c)\<lparr>medium := (medium (fs_device c))[a := buffer (bc_entries c ! i)],
        write_cnt := write_cnt (fs_device c) + 1\<rparr>\<rparr>)"
  shows "buffer_cache_flush_entry i c = Some (if dirty_bit (bc_entries c ! i) then c' else c)"
  using assms bc_invD(2,3) [OF assms(1)]
  by (auto simp: buffer_cache_flush_entry_def caches_def block_write_Some block_ok_def)

lemma flush_spec:
  assumes "bc_inv c" "bc_held c" "caches c i a"
  shows "\<exists>c'. buffer_cache_flush_entry i c = Some c' \<and> bc_inv c' \<and> bc_held c' \<and> bc_view c' = bc_view c
     \<and> bc_limit c' = bc_limit c \<and> caches c' = caches c \<and> \<not> dirty_bit (bc_entries c' ! i)
     \<and> (\<forall>j. j \<noteq> i \<longrightarrow> bc_entries c' ! j = bc_entries c ! j)"
proof (cases "dirty_bit (bc_entries c ! i)")
  case True
  note inv = bc_invD [OF assms(1)]
  let ?e = "bc_entries c ! i"
  define c' where "c' = bc_update i (dirty_bit_update (\<lambda>_. False))
     (c\<lparr>fs_device := (fs_device c)\<lparr>medium := (medium (fs_device c))[a := buffer ?e],
        write_cnt := write_cnt (fs_device c) + 1\<rparr>\<rparr>)"
  have i: "i < length (bc_entries c)" and dev: "length (medium (fs_device c)) = dev_size (fs_device c)"
    using assms(3) inv(2) by (auto simp: caches_def block_ok_def)
  have caches: "caches c' = caches c"
    using assms(3) by (auto simp: c'_def fun_eq_iff caches_update) (auto simp: caches_def)
  have other: "b \<noteq> a" if "caches c j b" "j \<noteq> i" for j b using that inv(6) [OF assms(3)] by blast
  have buf: "buffer (bc_entries c' ! j) = buffer (bc_entries c ! j)" for j
    using i by (cases "j = i") (simp_all add: c'_def)
  have med: "medium (fs_device c') ! b = (if b = a then buffer ?e else medium (fs_device c) ! b)" for b
    using inv(3) [OF assms(3)] dev by (simp add: c'_def)
  have inv': "bc_inv c'"
  proof (rule bc_invI; (unfold caches)?)
    show "length (bc_entries c') = NUM_CACHE" using inv(1) by (simp add: c'_def)
    show "block_ok (fs_device c')" using inv(2,4) assms(3) by (simp add: c'_def block_ok_write)
    show "j = k" if "caches c j b" "caches c k b" for j k b by (rule inv(6) [OF that])
    fix j b assume j: "caches c j b"
    have "buffer (bc_entries c' ! j) = medium (fs_device c') ! b" if "\<not> dirty_bit (bc_entries c' ! j)"
    proof (cases "j = i")
      case True then show ?thesis using j assms(3) by (auto simp: buf med caches_def)
    next
      case False
      then show ?thesis using that inv(5) [OF j] other [OF j False] by (simp add: buf med) (simp add: c'_def)
    qed
    then show "b < dev_size (fs_device c') \<and> length (buffer (bc_entries c' ! j)) = BLOCK_SECTOR_SIZE \<and>
        (\<not> dirty_bit (bc_entries c' ! j) \<longrightarrow> buffer (bc_entries c' ! j) = medium (fs_device c') ! b)"
      using inv(3,4) [OF j] by (simp add: buf) (simp add: c'_def)
  qed
  have "bc_view c' b = bc_view c b" for b
    using assms(1,3) bc_view_miss [of c b] med [of b]
    by (intro bc_view_eqI [OF assms(1) inv'])
      (auto simp: caches bc_view_hit buf block_view_def simp del: One_nat_def, auto simp: c'_def)
  then show ?thesis using flush_Some [OF assms] True inv' assms(2) caches i
    by (intro exI [of _ c']) (auto simp: c'_def [symmetric], auto simp: c'_def bc_limit_def)
next
  case False
  then show ?thesis using flush_Some [OF assms] assms by auto
qed

text \<open>Each turn of the search for a victim clears a reference bit, so it ends.\<close>

definition referred :: "buffer_cache_entry list \<Rightarrow> nat" where
  "referred es = length (filter refer_bit es)"

lemma referred_clear: "i < length es \<Longrightarrow> refer_bit (es ! i) \<Longrightarrow> referred (es[i := (es ! i)\<lparr>refer_bit := False\<rparr>]) < referred es"
  unfolding referred_def
proof (induction es arbitrary: i)
  case (Cons e es)
  then show ?case by (cases i) auto
qed simp

lemma victim_loop_spec:
  "length es = NUM_CACHE \<Longrightarrow> i < NUM_CACHE \<Longrightarrow> \<exists>es' j. victim_loop es i = Some (es', j, valid_bit (es' ! j))
     \<and> map core es' = map core es \<and> j < NUM_CACHE"
proof (induction "referred es" arbitrary: es i rule: less_induct)
  case less
  show ?case
  proof (cases "valid_bit (es ! i) \<and> refer_bit (es ! i)")
    case True
    let ?es = "es[i := (es ! i)\<lparr>refer_bit := False\<rparr>]"
    have "map core ?es = map core es"
      using less.prems by (intro nth_equalityI) (auto simp: nth_list_update core_def)
    moreover have "referred ?es < referred es" using True less.prems by (intro referred_clear) auto
    moreover have "(i + 1) mod NUM_CACHE < NUM_CACHE" by (simp add: NUM_CACHE_def)
    ultimately show ?thesis using less.hyps [of ?es "(i + 1) mod NUM_CACHE"] less.prems True
      by (subst victim_loop.simps) auto
  next
    case False
    then show ?thesis using less.prems by (subst victim_loop.simps) auto
  qed
qed

lemma invalidate_spec:
  assumes "bc_inv c" "i < NUM_CACHE" "\<not> dirty_bit (bc_entries c ! i)"
  defines "c' \<equiv> bc_update i (valid_bit_update (\<lambda>_. False)) c"
  shows "bc_inv c' \<and> bc_view c' = bc_view c"
proof -
  note inv = bc_invD [OF assms(1)]
  have caches: "caches c' j a = (j \<noteq> i \<and> caches c j a)" for j a
    using assms(2) inv(1) by (auto simp: c'_def caches_update)
  have inv': "bc_inv c'"
    using inv by (intro bc_invI) (auto simp: caches, auto simp: c'_def)
  moreover have "bc_view c' a = bc_view c a" for a
  proof (rule bc_view_eqI [OF assms(1) inv'])
    show "bc_view c a = buffer (bc_entries c' ! j)" if "caches c' j a" for j
      using that bc_view_hit [OF assms(1)] by (auto simp: caches) (auto simp: c'_def)
    assume none: "\<And>j. \<not> caches c' j a"
    show "bc_view c a = block_view (fs_device c') a"
    proof (cases "caches c i a")
      case True
      then show ?thesis using bc_view_hit [OF assms(1) True] inv(3,5) assms(3)
        by (simp add: c'_def block_view_def)
    next
      case False
      with none have "\<not> caches c j a" for j using caches by blast
      then show ?thesis using bc_view_miss [of c a] by (simp add: c'_def)
    qed
  qed
  ultimately show ?thesis by auto
qed

lemma select_victim_spec:
  assumes "bc_inv c" "bc_held c"
  shows "\<exists>i c'. buffer_cache_select_victim c = Some (i, c') \<and> bc_inv c' \<and> bc_held c' \<and> bc_view c' = bc_view c
     \<and> bc_limit c' = bc_limit c \<and> i < NUM_CACHE \<and> \<not> valid_bit (bc_entries c' ! i)
     \<and> (\<forall>j a. caches c' j a \<longrightarrow> caches c j a)"
proof -
  from victim_loop_spec [of "bc_entries c" 0] bc_invD(1) [OF assms(1)]
  obtain es i where v: "victim_loop (bc_entries c) 0 = Some (es, i, valid_bit (es ! i))"
    "map core es = map core (bc_entries c)" "i < NUM_CACHE" by (auto simp: NUM_CACHE_def)
  define d where "d = c\<lparr>bc_entries := es\<rparr>"
  have "same_disk c d" using v(2) by (simp add: same_disk_def d_def)
  from same_disk_inv [OF this assms(1)] same_disk_caches [OF this]
  have d: "bc_inv d" "bc_view d = bc_view c" "bc_limit d = bc_limit c" "caches d = caches c" by auto
  have len: "length es = NUM_CACHE" using bc_invD(1) [OF d(1)] by (simp add: d_def)
  have sel: "buffer_cache_select_victim c = (if \<not> valid_bit (es ! i) then Some (i, d) else do {
       c \<leftarrow> (if dirty_bit (bc_entries d ! i) then buffer_cache_flush_entry i d else Some d);
       Some (i, bc_update i (valid_bit_update (\<lambda>_. False)) c) })"
    using v assms(2) by (simp add: buffer_cache_select_victim_def d_def)
  show ?thesis
  proof (cases "valid_bit (es ! i)")
    case False
    then show ?thesis using sel d assms(2) v(3) by (intro exI [of _ i] exI [of _ d]) (auto simp: d_def)
  next
    case True
    then have "caches d i (disk_sector (es ! i))" using v(3) len by (simp add: caches_def d_def)
    moreover have "bc_held d" using assms(2) by (simp add: d_def)
    ultimately obtain e where e: "(if dirty_bit (bc_entries d ! i) then buffer_cache_flush_entry i d else Some d) = Some e"
      "bc_inv e" "bc_held e" "bc_view e = bc_view d" "bc_limit e = bc_limit d" "caches e = caches d"
      "\<not> dirty_bit (bc_entries e ! i)"
      using flush_spec [OF d(1), of i] d(1) by (cases "dirty_bit (bc_entries d ! i)") auto
    let ?f = "bc_update i (valid_bit_update (\<lambda>_. False)) e"
    have "i < length (bc_entries e)" using v(3) bc_invD(1) [OF e(2)] by simp
    then have "\<forall>j a. caches ?f j a \<longrightarrow> caches c j a" by (auto simp: caches_update e(6) d(4))
    then show ?thesis using invalidate_spec [OF e(2) v(3) e(7)] e d sel True v(3) bc_invD(1) [OF e(2)]
      by (intro exI [of _ i] exI [of _ ?f]) (auto simp: bc_limit_def)
  qed
qed

lemma load_spec:
  fixes n :: nat
  assumes "bc_inv c" "i < NUM_CACHE" "\<not> valid_bit (bc_entries c ! i)" "\<And>j. \<not> caches c j a" "a < bc_limit c"
  defines "c' \<equiv> bc_update i (\<lambda>e. e\<lparr>dirty_bit := False, valid_bit := True, disk_sector := a, buffer := medium (fs_device c) ! a\<rparr>)
     (c\<lparr>fs_device := (fs_device c)\<lparr>read_cnt := n\<rparr>\<rparr>)"
  shows "bc_inv c' \<and> bc_view c' = bc_view c \<and> caches c' i a"
proof -
  note inv = bc_invD [OF assms(1)]
  have caches: "caches c' j b = (if j = i then b = a else caches c j b)" for j b
    using assms(2,3) inv(1) by (auto simp: c'_def caches_update)
  have ent: "bc_entries c' ! j = bc_entries c ! j" if "j \<noteq> i" for j using that by (simp add: c'_def)
  have buf: "buffer (bc_entries c' ! i) = medium (fs_device c) ! a" using assms(2) inv(1) by (simp add: c'_def)
  have ok: "block_ok (fs_device c')" using inv(2) by (simp add: c'_def block_ok_def)
  have "medium (fs_device c) ! a \<in> set (medium (fs_device c))"
    using inv(2) assms(5) by (simp add: block_ok_def bc_limit_def)
  then have len: "length (medium (fs_device c) ! a) = BLOCK_SECTOR_SIZE" using inv(2) by (simp add: block_ok_def)
  have dev: "medium (fs_device c') = medium (fs_device c)" "dev_size (fs_device c') = dev_size (fs_device c)"
    "block_view (fs_device c') = block_view (fs_device c)"
    by (auto simp: c'_def block_view_def)
  have inv': "bc_inv c'"
  proof (rule bc_invI [OF _ ok])
    show "length (bc_entries c') = NUM_CACHE" using inv(1) by (simp add: c'_def)
    show "j = k" if "caches c' j b" "caches c' k b" for j k b
      using that assms(4) inv(6) by (auto simp: caches split: if_splits)
    fix j b assume "caches c' j b"
    then show "b < dev_size (fs_device c') \<and> length (buffer (bc_entries c' ! j)) = BLOCK_SECTOR_SIZE \<and>
        (\<not> dirty_bit (bc_entries c' ! j) \<longrightarrow> buffer (bc_entries c' ! j) = medium (fs_device c') ! b)"
      using inv(3-5) assms(5) len buf by (cases "j = i") (auto simp: caches dev ent bc_limit_def)
  qed
  moreover have "bc_view c' b = bc_view c b" for b
  proof (rule bc_view_eqI [OF assms(1) inv'])
    show "bc_view c b = buffer (bc_entries c' ! j)" if "caches c' j b" for j
      using that bc_view_hit [OF assms(1)] bc_view_miss [of c a] assms(4,5)
      by (cases "j = i") (auto simp: caches buf ent block_view_def bc_limit_def)
    assume none: "\<And>j. \<not> caches c' j b"
    have "\<not> caches c j b" for j using none [of j] assms(3) by (cases "j = i") (auto simp: caches, simp add: caches_def)
    then show "bc_view c b = block_view (fs_device c') b" using bc_view_miss [of c b] dev(3) by simp
  qed
  ultimately show ?thesis by (auto simp: caches)
qed

lemma bc_fetch_spec:
  assumes "bc_inv c" "bc_held c" "a < bc_limit c"
  shows "\<exists>i c'. bc_fetch a c = Some (i, c') \<and> bc_inv c' \<and> bc_held c' \<and> bc_view c' = bc_view c
     \<and> bc_limit c' = bc_limit c \<and> caches c' i a"
proof (cases "buffer_cache_lookup a c")
  case (Some i)
  then show ?thesis using assms lookup_Some by (auto simp: bc_fetch_def)
next
  case None
  from select_victim_spec [OF assms(1,2)] obtain i d where
    d: "buffer_cache_select_victim c = Some (i, d)" "bc_inv d" "bc_held d" "bc_view d = bc_view c"
      "bc_limit d = bc_limit c" "i < NUM_CACHE" "\<not> valid_bit (bc_entries d ! i)" "\<forall>j a. caches d j a \<longrightarrow> caches c j a"
    by auto
  have a: "\<not> caches d j a" "a < bc_limit d" for j using d(5,8) None assms(3) by (auto simp: lookup_None)
  define c' where "c' = bc_update i (\<lambda>e. e\<lparr>dirty_bit := False, valid_bit := True, disk_sector := a, buffer := medium (fs_device d) ! a\<rparr>)
     (d\<lparr>fs_device := (fs_device d)\<lparr>read_cnt := read_cnt (fs_device d) + 1\<rparr>\<rparr>)"
  have "bc_fetch a c = Some (i, c')"
    using None d a(2) bc_invD(1) [OF d(2)]
    by (simp add: bc_fetch_def block_read_Some bc_limit_def c'_def bc_update_def)
  then show ?thesis using load_spec [OF d(2,6,7) a, of "read_cnt (fs_device d) + 1"] d
    by (intro exI [of _ i] exI [of _ c']) (auto simp: c'_def [symmetric], auto simp: c'_def bc_limit_def)
qed

lemma bc_fetch_outside:
  assumes "bc_inv c" "bc_held c" "bc_limit c \<le> a"
  shows "bc_fetch a c = None"
proof -
  have "buffer_cache_lookup a c = None"
    using assms(3) bc_invD(3) [OF assms(1)] by (fastforce simp: lookup_None bc_limit_def)
  moreover from select_victim_spec [OF assms(1,2)] obtain i d where
    "buffer_cache_select_victim c = Some (i, d)" "bc_limit d = bc_limit c" by auto
  ultimately show ?thesis using assms(3)
    by (auto simp: bc_fetch_def bc_limit_def block_read_def check_sector_def bc_update_def Let_def)
qed

lemma set_refer_spec:
  assumes "bc_inv c"
  shows "bc_inv (bc_update i (refer_bit_update (\<lambda>_. True)) c) \<and> bc_view (bc_update i (refer_bit_update (\<lambda>_. True)) c) = bc_view c
    \<and> bc_limit (bc_update i (refer_bit_update (\<lambda>_. True)) c) = bc_limit c
    \<and> caches (bc_update i (refer_bit_update (\<lambda>_. True)) c) = caches c"
proof -
  let ?c' = "bc_update i (refer_bit_update (\<lambda>_. True)) c"
  have "map core (bc_entries ?c') = map core (bc_entries c)"
    by (cases "i < length (bc_entries c)") (simp_all add: map_update core_def list_update_same_conv list_update_beyond)
  then have "same_disk c ?c'" by (simp add: same_disk_def)
  from same_disk_inv [OF this assms] same_disk_caches [OF this] show ?thesis by auto
qed

lemma same_disk_held: "same_disk c (c\<lparr>bc_held := b\<rparr>)"
  by (simp add: same_disk_def)

lemma held_update [simp]:
  "bc_inv (c\<lparr>bc_held := b\<rparr>) = bc_inv c" "bc_view (c\<lparr>bc_held := b\<rparr>) = bc_view c" "bc_limit (c\<lparr>bc_held := b\<rparr>) = bc_limit c"
  by (simp_all add: bc_inv_def bc_view_def bc_limit_def buffer_cache_lookup_def fun_eq_iff split: option.split)

lemma overwrite_spec:
  assumes "bc_inv c" "caches c i a" "length d = BLOCK_SECTOR_SIZE"
  defines "c' \<equiv> bc_update i (\<lambda>e. e\<lparr>refer_bit := True, dirty_bit := True, buffer := d\<rparr>) c"
  shows "bc_inv c' \<and> bc_view c' = (bc_view c)(a := d) \<and> bc_limit c' = bc_limit c"
proof -
  note inv = bc_invD [OF assms(1)]
  have i: "i < length (bc_entries c)" using assms(2) by (simp add: caches_def)
  have caches: "caches c' = caches c"
    using assms(2) by (auto simp: c'_def fun_eq_iff caches_update) (auto simp: caches_def)
  have ent: "bc_entries c' ! j = bc_entries c ! j" if "j \<noteq> i" for j using that by (simp add: c'_def)
  have self: "buffer (bc_entries c' ! i) = d" "dirty_bit (bc_entries c' ! i)" using i by (simp_all add: c'_def)
  have dev: "fs_device c' = fs_device c" by (simp add: c'_def)
  have inv': "bc_inv c'"
  proof (rule bc_invI; (unfold caches dev)?)
    show "length (bc_entries c') = NUM_CACHE" using inv(1) by (simp add: c'_def)
    show "block_ok (fs_device c)" by (rule inv(2))
    show "j = k" if "caches c j b" "caches c k b" for j k b by (rule inv(6) [OF that])
    show "b < dev_size (fs_device c) \<and> length (buffer (bc_entries c' ! j)) = BLOCK_SECTOR_SIZE \<and>
        (\<not> dirty_bit (bc_entries c' ! j) \<longrightarrow> buffer (bc_entries c' ! j) = medium (fs_device c) ! b)"
      if "caches c j b" for j b
      using that inv(3-5) assms(3) self ent [of j] by (cases "j = i") auto
  qed
  moreover have "bc_view c' b = ((bc_view c)(a := d)) b" for b
  proof (cases "\<exists>j. caches c j b")
    case True
    then obtain j where j: "caches c j b" by blast
    then have "b = a \<longleftrightarrow> j = i" using inv(6) assms(2) by (auto simp: caches_def)
    then show ?thesis using bc_view_hit [OF inv', of j b] bc_view_hit [OF assms(1) j] j self ent [of j]
      by (auto simp: caches)
  next
    case False
    then show ?thesis using bc_view_miss [of c b] bc_view_miss [of c' b] assms(2) by (auto simp: caches dev)
  qed
  ultimately show ?thesis by (auto simp: bc_limit_def dev)
qed

lemma bc_update_twice: "i < length (bc_entries c) \<Longrightarrow> bc_update i f (bc_update i g c) = bc_update i (\<lambda>e. f (g e)) c"
  by (simp add: bc_update_def)

lemma buffer_cache_read_spec:
  assumes "bc_ok c" "a < bc_limit c"
  shows "\<exists>c'. buffer_cache_read a c = Some (bc_view c a, c') \<and> bc_ok c' \<and> bc_view c' = bc_view c \<and> bc_limit c' = bc_limit c"
proof -
  let ?c = "c\<lparr>bc_held := True\<rparr>"
  have "bc_inv ?c" "bc_held ?c" "a < bc_limit ?c" using assms by (auto simp: bc_ok_def)
  from bc_fetch_spec [OF this] obtain i d where
    d: "bc_fetch a ?c = Some (i, d)" "bc_inv d" "bc_held d" "bc_view d = bc_view c" "bc_limit d = bc_limit c" "caches d i a"
    by auto
  let ?e = "bc_update i (refer_bit_update (\<lambda>_. True)) d"
  from set_refer_spec [OF d(2), of i] have e: "bc_inv ?e" "bc_view ?e = bc_view d" "bc_limit ?e = bc_limit d" "caches ?e i a"
    using d(6) by auto
  have "buffer (bc_entries ?e ! i) = bc_view c a" using bc_view_hit [OF e(1,4)] e(2) d(4) by simp
  then show ?thesis using assms d e
    by (auto simp: buffer_cache_read_def bc_lock_acquire_def bc_lock_release_def bc_ok_def Let_def)
qed

lemma buffer_cache_write_spec:
  assumes "bc_ok c" "a < bc_limit c" "length s = BLOCK_SECTOR_SIZE"
  shows "\<exists>c'. buffer_cache_write a s c = Some c' \<and> bc_ok c' \<and> bc_view c' = (bc_view c)(a := s) \<and> bc_limit c' = bc_limit c"
proof -
  let ?c = "c\<lparr>bc_held := True\<rparr>"
  have "bc_inv ?c" "bc_held ?c" "a < bc_limit ?c" using assms by (auto simp: bc_ok_def)
  from bc_fetch_spec [OF this] obtain i d where
    d: "bc_fetch a ?c = Some (i, d)" "bc_inv d" "bc_held d" "bc_view d = bc_view c" "bc_limit d = bc_limit c" "caches d i a"
    by auto
  have "i < length (bc_entries d)" using d(6) by (simp add: caches_def)
  then show ?thesis using overwrite_spec [OF d(2,6) assms(3)] assms d
    by (auto simp: buffer_cache_write_def bc_lock_acquire_def bc_lock_release_def bc_ok_def Let_def bc_update_twice)
qed

text \<open>The cache provides the interface of the device it stands in front of.\<close>

interpretation cache: sector_store buffer_cache_read buffer_cache_write bc_view bc_limit bc_ok
proof
  fix c a d
  assume ok: "bc_ok c"
  show "\<exists>c'. buffer_cache_read a c = Some (bc_view c a, c') \<and> bc_ok c' \<and> bc_view c' = bc_view c \<and> bc_limit c' = bc_limit c"
    if "a < bc_limit c" by (rule buffer_cache_read_spec [OF ok that])
  show "\<exists>c'. buffer_cache_write a d c = Some c' \<and> bc_ok c' \<and> bc_view c' = (bc_view c)(a := d) \<and> bc_limit c' = bc_limit c"
    if "a < bc_limit c" "length d = BLOCK_SECTOR_SIZE" by (rule buffer_cache_write_spec [OF ok that])
  show "buffer_cache_read a c = None" if "bc_limit c \<le> a"
    using ok that bc_fetch_outside [of "c\<lparr>bc_held := True\<rparr>" a]
    by (auto simp: buffer_cache_read_def bc_lock_acquire_def bc_ok_def)
  show "length (bc_view c a) = BLOCK_SECTOR_SIZE" if "a < bc_limit c"
  proof -
    have inv: "bc_inv c" using ok by (simp add: bc_ok_def)
    show ?thesis
    proof (cases "\<exists>i. caches c i a")
      case True
      then show ?thesis using bc_view_hit [OF inv] bc_invD(4) [OF inv] by auto
    next
      case False
      then show ?thesis using bc_view_miss [of c a] device.view_length bc_invD(2) [OF inv] that
        by (auto simp: bc_limit_def)
    qed
  qed
qed

subsection \<open>Shutting down\<close>

lemma flush_outside: "\<not> valid_bit (bc_entries c ! i) \<Longrightarrow> \<not> caches c i a"
  by (simp add: caches_def)

lemma terminate_loop_spec:
  assumes "bc_inv c" "bc_held c" "i + n = NUM_CACHE" "\<And>j a. j < i \<Longrightarrow> caches c j a \<Longrightarrow> \<not> dirty_bit (bc_entries c ! j)"
  shows "\<exists>c'. terminate_loop i n c = Some c' \<and> bc_inv c' \<and> bc_held c' \<and> bc_view c' = bc_view c
     \<and> bc_limit c' = bc_limit c \<and> (\<forall>j a. caches c' j a \<longrightarrow> \<not> dirty_bit (bc_entries c' ! j))"
  using assms
proof (induction n arbitrary: i c)
  case 0
  then show ?case using bc_invD(1) [OF 0(1)] by (auto simp: caches_def)
next
  case (Suc n)
  have i: "i < length (bc_entries c)" using Suc.prems(3) bc_invD(1) [OF Suc.prems(1)] by simp
  obtain d where d: "(if valid_bit (bc_entries c ! i) then buffer_cache_flush_entry i c else Some c) = Some d"
    "bc_inv d" "bc_held d" "bc_view d = bc_view c" "bc_limit d = bc_limit c" "caches d = caches c"
    "\<And>a. caches d i a \<Longrightarrow> \<not> dirty_bit (bc_entries d ! i)" "\<And>j. j \<noteq> i \<Longrightarrow> bc_entries d ! j = bc_entries c ! j"
  proof (cases "valid_bit (bc_entries c ! i)")
    case True
    with i have "caches c i (disk_sector (bc_entries c ! i))" by (simp add: caches_def)
    from flush_spec [OF Suc.prems(1,2) this] True show ?thesis by (auto intro: that)
  next
    case False
    then show ?thesis using Suc.prems by (intro that [of c]) (auto simp: caches_def)
  qed
  have "\<not> dirty_bit (bc_entries d ! j)" if "j < i + 1" "caches d j a" for j a
    using that d(6,7) d(8) [of j] Suc.prems(4) [of j a] by (cases "j = i") auto
  from Suc.IH [OF d(2,3) _ this] Suc.prems(3) d show ?case by auto
qed

text \<open>C32: the buffer cache is transparent.  Whatever sectors its 64 entries hold and whatever has to be
  evicted, a read returns the contents of the sector as last written and changes none, a write changes
  that sector alone, and after \<open>buffer_cache_terminate\<close> the device itself holds these contents, every
  sector of it.  A sector outside the device panics.\<close>

theorem buffer_cache_transparent:
  assumes "bc_ok c" "length d = BLOCK_SECTOR_SIZE"
  shows "(a < bc_limit c \<longrightarrow> (\<exists>c'. buffer_cache_read a c = Some (bc_view c a, c') \<and> bc_ok c' \<and> bc_view c' = bc_view c))
    \<and> (a < bc_limit c \<longrightarrow> (\<exists>c'. buffer_cache_write a d c = Some c' \<and> bc_ok c' \<and> bc_view c' = (bc_view c)(a := d)))
    \<and> (\<exists>c'. buffer_cache_terminate c = Some c' \<and> bc_ok c' \<and> bc_view c' = bc_view c
       \<and> (\<forall>a<bc_limit c. medium (fs_device c') ! a = bc_view c a))
    \<and> (bc_limit c \<le> a \<longrightarrow> buffer_cache_read a c = None)"
proof (intro conjI impI)
  show "\<exists>c'. buffer_cache_read a c = Some (bc_view c a, c') \<and> bc_ok c' \<and> bc_view c' = bc_view c" if "a < bc_limit c"
    using cache.rd_spec [OF assms(1) that] by auto
  show "\<exists>c'. buffer_cache_write a d c = Some c' \<and> bc_ok c' \<and> bc_view c' = (bc_view c)(a := d)" if "a < bc_limit c"
    using cache.wr_spec [OF assms(1) that assms(2)] by auto
  show "buffer_cache_read a c = None" if "bc_limit c \<le> a" by (rule cache.rd_outside [OF assms(1) that])
  let ?c = "c\<lparr>bc_held := True\<rparr>"
  from terminate_loop_spec [of ?c 0 NUM_CACHE] assms(1) obtain e where
    e: "terminate_loop 0 NUM_CACHE ?c = Some e" "bc_inv e" "bc_held e" "bc_view e = bc_view c" "bc_limit e = bc_limit c"
      "\<And>j a. caches e j a \<Longrightarrow> \<not> dirty_bit (bc_entries e ! j)" by (auto simp: bc_ok_def)
  have "medium (fs_device e) ! a = bc_view c a" if "a < bc_limit c" for a
  proof (cases "\<exists>j. caches e j a")
    case True
    then show ?thesis using bc_view_hit [OF e(2)] bc_invD(5) [OF e(2)] e(4,6) by metis
  next
    case False
    then show ?thesis using bc_view_miss [of e a] that e(4,5) by (simp add: block_view_def bc_limit_def)
  qed
  then show "\<exists>c'. buffer_cache_terminate c = Some c' \<and> bc_ok c' \<and> bc_view c' = bc_view c
       \<and> (\<forall>a<bc_limit c. medium (fs_device c') ! a = bc_view c a)"
    using assms(1) e by (auto simp: buffer_cache_terminate_def bc_lock_acquire_def bc_lock_release_def bc_ok_def)
qed

text \<open>A freshly initialised cache over a device of two sectors.\<close>

definition example_cache :: bcache where
  "example_cache = buffer_cache_init \<lparr>bc_entries = replicate NUM_CACHE
       \<lparr>valid_bit = True, disk_sector = 0, buffer = [], dirty_bit = True, refer_bit = False\<rparr>, bc_held = True,
     fs_device = \<lparr>dev_name = ''hdb1'', dev_type = BLOCK_FILESYS, dev_size = 2,
       medium = [replicate 512 0, replicate 512 1], read_cnt = 0, write_cnt = 0\<rparr>\<rparr>"

lemma bc_init_ok:
  "block_ok (fs_device c) \<Longrightarrow> length (bc_entries c) = NUM_CACHE \<Longrightarrow> bc_ok (buffer_cache_init c)
     \<and> bc_view (buffer_cache_init c) = block_view (fs_device c)"
proof -
  assume a: "block_ok (fs_device c)" "length (bc_entries c) = NUM_CACHE"
  have none: "\<not> caches (buffer_cache_init c) i b" for i b by (auto simp: caches_def buffer_cache_init_def)
  with a have "bc_inv (buffer_cache_init c)" by (intro bc_invI) (auto simp: buffer_cache_init_def)
  then show ?thesis using none bc_view_miss [of "buffer_cache_init c"]
    by (auto simp: bc_ok_def fun_eq_iff) (auto simp: buffer_cache_init_def)
qed

lemma example_cache_ok: "bc_ok example_cache" "bc_limit example_cache = 2"
  unfolding example_cache_def by (rule bc_init_ok [THEN conjunct1])
    (simp_all add: block_ok_def BLOCK_SECTOR_SIZE_def bc_limit_def buffer_cache_init_def)

theorem buffer_cache_transparent_witness:
  "\<exists>c'. buffer_cache_write 1 (replicate 512 7) example_cache = Some c' \<and> bc_view c' 1 = replicate 512 7"
  using buffer_cache_transparent [OF example_cache_ok(1), of "replicate 512 7" 1]
  by (auto simp: BLOCK_SECTOR_SIZE_def example_cache_ok(2))

end
