(* ===== verification/FsState.thy ===== *)
theory FsState imports BufferCache Bitmap begin

section \<open>The data of the file system\<close>

text \<open>
  The structures of \<open>filesys/inode.c\<close>, \<open>filesys/file.c\<close> and \<open>filesys/directory.c\<close>, on the disk and in
  memory, and the state \<open>fs\<close> the file system's operations work on: the buffer cache with the device,
  the free map, and the heap of open inodes, files and directories.

  A sector number is a natural number; on the disk it is a 32-bit word, and \<open>-1u\<close> is \<open>NO_SECTOR\<close>.  An
  offset (\<open>off_t\<close>) is an integer, cut to 32 bits where the source adds two of them.  A null pointer is
  \<open>None\<close>; an access to a structure that is not allocated, or not any more, does not come back.
  \<open>malloc_ok n\<close> is whether the n-th allocation succeeds: it may fail at any point.
\<close>

definition DIRECT :: nat where "DIRECT = 123"
definition INDIRECT :: nat where "INDIRECT = 128"
definition INODE_MAGIC :: nat where "INODE_MAGIC = 0x494e4f44"
definition FREE_MAP_SECTOR :: nat where "FREE_MAP_SECTOR = 0"
definition ROOT_DIR_SECTOR :: nat where "ROOT_DIR_SECTOR = 1"
definition NO_SECTOR :: nat where "NO_SECTOR = 2 ^ 32 - 1"

subsection \<open>On the disk\<close>

record inode_disk =
  d_indir_block :: nat
  indir_block :: nat
  dir_blocks :: "nat list"
  ilen :: int
  inode_magic :: nat
  is_dir :: bool

text \<open>A sector full of sector numbers: \<open>struct indir_inode\<close>.\<close>

fun words_of_bytes :: "byte list \<Rightarrow> nat list" where
  "words_of_bytes (a # b # c # d # bs) = unat (u32_of_bytes [a, b, c, d]) # words_of_bytes bs"
| "words_of_bytes _ = []"

definition bytes_of_words :: "nat list \<Rightarrow> byte list" where
  "bytes_of_words ws = concat (map (\<lambda>w. bytes_of_u32 (word_of_nat w)) ws)"

text \<open>The layout of \<open>struct inode_disk\<close>: three bytes of padding after \<open>is_dir\<close>.\<close>

definition encode_inode :: "inode_disk \<Rightarrow> byte list" where
  "encode_inode d = bytes_of_words ([d_indir_block d, indir_block d] @ dir_blocks d)
     @ bytes_of_u32 (word_of_int (ilen d)) @ bytes_of_u32 (word_of_nat (inode_magic d))
     @ [if is_dir d then 1 else 0, 0, 0, 0]"

definition decode_inode :: "byte list \<Rightarrow> inode_disk" where
  "decode_inode bs = (let ws = words_of_bytes bs in
     \<lparr>d_indir_block = ws ! 0, indir_block = ws ! 1, dir_blocks = take DIRECT (drop 2 ws),
      ilen = sint (u32_of_bytes (take 4 (drop 500 bs))), inode_magic = ws ! 126, is_dir = (bs ! 508 \<noteq> 0)\<rparr>)"

subsection \<open>In memory\<close>

record inode =
  isector :: nat
  open_cnt :: int
  removed :: bool
  deny_write_cnt :: int
  idata :: inode_disk

record open_file =
  file_inode :: ptr
  file_pos :: int
  deny_write :: bool

record dir =
  dir_inode :: ptr
  dir_pos :: int

record fs =
  bc :: bcache
  free_map :: bitmap
  free_map_file :: "ptr option"
  open_inodes :: "ptr list"
  inode_of :: "ptr \<Rightarrow> inode option"
  file_of :: "ptr \<Rightarrow> open_file option"
  dir_of :: "ptr \<Rightarrow> dir option"
  heap_next :: ptr
  malloc_ok :: "nat \<Rightarrow> bool"
  cwd :: "ptr option"

text \<open>Addresses are handed out once.\<close>

definition fs_malloc :: "fs \<Rightarrow> ptr option \<times> fs" where
  "fs_malloc st = (if malloc_ok st (heap_next st) then Some (heap_next st) else None, st\<lparr>heap_next := heap_next st + 1\<rparr>)"

definition bc_read :: "nat \<Rightarrow> fs \<Rightarrow> (byte list \<times> fs) option" where
  "bc_read a st = do { (d, c) \<leftarrow> buffer_cache_read a (bc st); Some (d, st\<lparr>bc := c\<rparr>) }"

definition bc_write :: "nat \<Rightarrow> byte list \<Rightarrow> fs \<Rightarrow> fs option" where
  "bc_write a d st = do { c \<leftarrow> buffer_cache_write a d (bc st); Some (st\<lparr>bc := c\<rparr>) }"

definition set_inode :: "ptr \<Rightarrow> (inode \<Rightarrow> inode) \<Rightarrow> fs \<Rightarrow> fs option" where
  "set_inode p f st = do { i \<leftarrow> inode_of st p; Some (st\<lparr>inode_of := (inode_of st)(p \<mapsto> f i)\<rparr>) }"

definition set_file :: "ptr \<Rightarrow> (open_file \<Rightarrow> open_file) \<Rightarrow> fs \<Rightarrow> fs option" where
  "set_file p f st = do { i \<leftarrow> file_of st p; Some (st\<lparr>file_of := (file_of st)(p \<mapsto> f i)\<rparr>) }"

definition set_dir :: "ptr \<Rightarrow> (dir \<Rightarrow> dir) \<Rightarrow> fs \<Rightarrow> fs option" where
  "set_dir p f st = do { i \<leftarrow> dir_of st p; Some (st\<lparr>dir_of := (dir_of st)(p \<mapsto> f i)\<rparr>) }"

subsection \<open>The layout is read back\<close>

lemma bytes_of_words_simps [simp]:
  "bytes_of_words [] = []" "bytes_of_words (w # ws) = bytes_of_u32 (word_of_nat w) @ bytes_of_words ws"
  "bytes_of_words (ws @ vs) = bytes_of_words ws @ bytes_of_words vs"
  by (simp_all add: bytes_of_words_def)

lemma length_bytes_of_words [simp]: "length (bytes_of_words ws) = 4 * length ws"
  by (induction ws) auto

lemma length_words_of_bytes [simp]: "length (words_of_bytes bs) = length bs div 4"
  by (induction bs rule: words_of_bytes.induct) auto

lemma words_of_bytes_less: "w \<in> set (words_of_bytes bs) \<Longrightarrow> w < 2 ^ 32"
proof (induction bs rule: words_of_bytes.induct)
  case (1 a b c d bs)
  then show ?case using unsigned_less [of "u32_of_bytes [a, b, c, d]"] by auto
qed auto

lemma words_of_word_append: "words_of_bytes (bytes_of_u32 w @ bs) = unat w # words_of_bytes bs"
proof -
  obtain a b c d where bs: "bytes_of_u32 w = [a, b, c, d]" by (simp add: bytes_of_u32_def)
  have "u32_of_bytes [a, b, c, d] = w" unfolding bs [symmetric] by simp
  then show ?thesis by (simp add: bs)
qed

lemma words_of_bytes_append:
  "\<forall>w\<in>set ws. w < 2 ^ 32 \<Longrightarrow> words_of_bytes (bytes_of_words ws @ bs) = ws @ words_of_bytes bs"
  by (induction ws) (simp_all add: words_of_word_append unsigned_of_nat take_bit_nat_eq_self)

lemma words_of_bytes_of_words [simp]: "\<forall>w\<in>set ws. w < 2 ^ 32 \<Longrightarrow> words_of_bytes (bytes_of_words ws) = ws"
  using words_of_bytes_append [of ws "[]"] by simp

lemma bytes_of_words_of_bytes: "length bs mod 4 = 0 \<Longrightarrow> bytes_of_words (words_of_bytes bs) = bs"
proof (induction bs rule: words_of_bytes.induct)
  case (1 a b c d bs)
  then show ?case using bytes_of_u32_of_bytes [of "[a, b, c, d]"] by simp
qed auto

definition inode_disk_wf :: "inode_disk \<Rightarrow> bool" where
  "inode_disk_wf d = (length (dir_blocks d) = DIRECT \<and> d_indir_block d < 2 ^ 32 \<and> indir_block d < 2 ^ 32
     \<and> (\<forall>s\<in>set (dir_blocks d). s < 2 ^ 32) \<and> - (2 ^ 31) \<le> ilen d \<and> ilen d < 2 ^ 31 \<and> inode_magic d < 2 ^ 32)"

lemma length_encode_inode: "length (dir_blocks d) = DIRECT \<Longrightarrow> length (encode_inode d) = BLOCK_SECTOR_SIZE"
  by (simp add: encode_inode_def DIRECT_def BLOCK_SECTOR_SIZE_def)

lemma sint_of_int_id: "- (2 ^ 31) \<le> x \<Longrightarrow> x < 2 ^ 31 \<Longrightarrow> sint (word_of_int x :: u32) = x"
  by (simp add: signed_of_int signed_take_bit_int_eq_self)

lemma decode_encode_inode:
  assumes "inode_disk_wf d"
  shows "decode_inode (encode_inode d) = d"
proof -
  let ?ws = "[d_indir_block d, indir_block d] @ dir_blocks d"
  let ?t = "bytes_of_u32 (word_of_nat (inode_magic d)) @ [if is_dir d then 1 else 0, 0, 0, 0]"
  have len: "length (bytes_of_words ?ws) = 500" using assms by (simp add: inode_disk_wf_def DIRECT_def)
  have enc: "encode_inode d = bytes_of_words ?ws @ bytes_of_u32 (word_of_int (ilen d)) @ ?t"
    by (simp add: encode_inode_def)
  have ws: "words_of_bytes (encode_inode d) = ?ws @ unat (word_of_int (ilen d) :: u32) # inode_magic d # [if is_dir d then 1 else 0]"
    unfolding enc using assms by (subst words_of_bytes_append)
      (auto simp: inode_disk_wf_def words_of_word_append unsigned_of_nat take_bit_nat_eq_self u32_of_bytes_def)
  have "take 4 (drop 500 (encode_inode d)) = bytes_of_u32 (word_of_int (ilen d))"
    unfolding enc using len by simp
  moreover have "encode_inode d ! 508 = (if is_dir d then 1 else 0)"
    unfolding enc using len by (simp add: nth_append)
  moreover have "words_of_bytes (encode_inode d) ! 126 = inode_magic d"
    unfolding ws using assms by (simp add: nth_append inode_disk_wf_def DIRECT_def)
  moreover have "take DIRECT (drop 2 (words_of_bytes (encode_inode d))) = dir_blocks d"
    unfolding ws using assms by (simp add: inode_disk_wf_def)
  ultimately show ?thesis using assms
    by (simp add: decode_inode_def ws sint_of_int_id inode_disk_wf_def)
qed

end
