(* ===== verification/InodeIO.thy ===== *)
theory InodeIO imports FsState begin

section \<open>filesys/inode.c: the blocks of a file\<close>

text \<open>
  Where the bytes of a file are on the disk, and how they are read, written and allocated.  A file has
  123 direct blocks, an indirect block with 128 more and a doubly indirect block with 128 * 128 more.

  Allocating a sector writes the free map, which is itself a file, so \<open>free_map_allocate\<close> and
  \<open>inode_write_at\<close> call each other.  The operations that allocate take the allocation of one sector as
  the argument \<open>alloc\<close>; the theory \<open>FreeMap\<close> closes the circle.  A result \<open>None\<close> inside the pair is
  the allocation's failure.
\<close>

type_synonym allocator = "fs \<Rightarrow> (nat option \<times> fs) option"

definition zeros :: "byte list" where
  "zeros = replicate BLOCK_SECTOR_SIZE 0"

definition bytes_to_sectors :: "int \<Rightarrow> int" where
  "bytes_to_sectors size' = int32 (size' + 511) sdiv 512"

subsection \<open>Allocating the blocks\<close>

text \<open>The loop over the entries of an indirect block: \<open>n\<close> entries from \<open>i\<close> on, \<open>num\<close> sectors left.\<close>

fun reserve_loop ::
  "(nat \<Rightarrow> nat \<Rightarrow> fs \<Rightarrow> (bool \<times> nat \<times> fs) option) \<Rightarrow> nat \<Rightarrow> nat \<Rightarrow> nat \<Rightarrow> nat \<Rightarrow> nat list \<Rightarrow> fs
     \<Rightarrow> (bool \<times> nat \<times> nat list \<times> fs) option" where
  "reserve_loop reserve chunk i 0 num block st = Some (True, num, block, st)"
| "reserve_loop reserve chunk i (Suc n) num block st = do {
     let nmax = (if num < chunk then num else chunk);
     ASSERT (i < length block);
     (ok, page, st) \<leftarrow> reserve (block ! i) nmax st;
     let block = block[i := page];
     if \<not> ok then Some (False, num, block, st)
     else reserve_loop reserve chunk (i + 1) n (num - nmax) block st }"

primrec reserve_indir :: "allocator \<Rightarrow> nat \<Rightarrow> nat \<Rightarrow> nat \<Rightarrow> fs \<Rightarrow> (bool \<times> nat \<times> fs) option" where
  "reserve_indir alloc 0 = (\<lambda>page num st.
     if page = 0 then do {
       (r, st) \<leftarrow> alloc st;
       case r of
         None \<Rightarrow> Some (False, page, st)
       | Some page \<Rightarrow> do { st \<leftarrow> bc_write page zeros st; Some (True, page, st) } }
     else Some (True, page, st))"
| "reserve_indir alloc (Suc level) = (\<lambda>page num st.
     if Suc level > 2 then None
     else do {
       let chunk = (if Suc level > 1 then INDIRECT else 1);
       (page, st) \<leftarrow>
         (if page = 0 then do {
            (r, st) \<leftarrow> alloc st;
            let page = (case r of None \<Rightarrow> page | Some p \<Rightarrow> p);
            st \<leftarrow> bc_write page zeros st;
            Some (page, st) }
          else Some (page, st));
       (buf, st) \<leftarrow> bc_read page st;
       (ok, num, block, st) \<leftarrow>
         reserve_loop (reserve_indir alloc level) chunk 0 (DIV_ROUND_UP num chunk) num (words_of_bytes buf) st;
       if \<not> ok then Some (False, page, st)
       else do {
         ASSERT (num = 0);
         st \<leftarrow> bc_write page (bytes_of_words block) st;
         Some (True, page, st) } })"

fun reserve_direct :: "allocator \<Rightarrow> nat \<Rightarrow> nat \<Rightarrow> nat list \<Rightarrow> fs \<Rightarrow> (bool \<times> nat list \<times> fs) option" where
  "reserve_direct alloc i 0 blocks st = Some (True, blocks, st)"
| "reserve_direct alloc i (Suc n) blocks st =
     (if blocks ! i = 0 then do {
        (r, st) \<leftarrow> alloc st;
        case r of
          None \<Rightarrow> Some (False, blocks, st)
        | Some p \<Rightarrow> do { st \<leftarrow> bc_write p zeros st; reserve_direct alloc (i + 1) n (blocks[i := p]) st } }
      else reserve_direct alloc (i + 1) n blocks st)"

text \<open>The result has the structure the source changes through its pointer, also on failure.\<close>

definition inode_reserve :: "allocator \<Rightarrow> inode_disk \<Rightarrow> int \<Rightarrow> fs \<Rightarrow> (bool \<times> inode_disk \<times> fs) option" where
  "inode_reserve alloc page l st =
     (if l < 0 then Some (False, page, st)
      else do {
        let num_sec = nat (bytes_to_sectors l);
        let max' = min num_sec DIRECT;
        (ok, blocks, st) \<leftarrow> reserve_direct alloc 0 max' (dir_blocks page) st;
        let page = page\<lparr>dir_blocks := blocks\<rparr>;
        let num_sec = num_sec - max';
        if \<not> ok then Some (False, page, st)
        else if num_sec = 0 then Some (True, page, st)
        else do {
          let max' = min num_sec INDIRECT;
          (ok, b, st) \<leftarrow> reserve_indir alloc 1 (indir_block page) max' st;
          let page = page\<lparr>indir_block := b\<rparr>;
          let num_sec = num_sec - max';
          if \<not> ok then Some (False, page, st)
          else if num_sec = 0 then Some (True, page, st)
          else do {
            let max' = min num_sec (INDIRECT * INDIRECT);
            (ok, b, st) \<leftarrow> reserve_indir alloc 2 (d_indir_block page) max' st;
            let page = page\<lparr>d_indir_block := b\<rparr>;
            let num_sec = num_sec - max';
            if \<not> ok then Some (False, page, st)
            else do { ASSERT (num_sec = 0); Some (True, page, st) } } } })"

definition inode_new :: "allocator \<Rightarrow> inode_disk \<Rightarrow> fs \<Rightarrow> (bool \<times> inode_disk \<times> fs) option" where
  "inode_new alloc page st = inode_reserve alloc page (ilen page) st"

subsection \<open>Finding the sector of a byte\<close>

text \<open>The structure the block is read into comes from \<open>calloc\<close>, whose failure is not tested: reading
  into a null pointer faults.\<close>

definition calloc_indir :: "fs \<Rightarrow> fs option" where
  "calloc_indir st = (case fs_malloc st of (None, st) \<Rightarrow> None | (Some p, st) \<Rightarrow> Some st)"

definition sector_number :: "inode_disk \<Rightarrow> int \<Rightarrow> fs \<Rightarrow> (nat \<times> fs) option" where
  "sector_number idisk index st = do {
     ASSERT (0 \<le> index);
     let index = nat index;
     if index < DIRECT then Some (dir_blocks idisk ! index, st)
     else if index < DIRECT + INDIRECT then do {
       st \<leftarrow> calloc_indir st;
       (buf, st) \<leftarrow> bc_read (indir_block idisk) st;
       Some (words_of_bytes buf ! (index - DIRECT), st) }
     else if index < DIRECT + INDIRECT + INDIRECT * INDIRECT then do {
       let ibase = DIRECT + INDIRECT;
       st \<leftarrow> calloc_indir st;
       (buf, st) \<leftarrow> bc_read (d_indir_block idisk) st;
       (buf, st) \<leftarrow> bc_read (words_of_bytes buf ! ((index - ibase) div INDIRECT)) st;
       Some (words_of_bytes buf ! ((index - ibase) mod INDIRECT), st) }
     else Some (0, st) }"

definition byte_to_sector :: "ptr \<Rightarrow> int \<Rightarrow> fs \<Rightarrow> (nat \<times> fs) option" where
  "byte_to_sector p pos st = do {
     i \<leftarrow> inode_of st p;
     if pos < ilen (idata i) then sector_number (idata i) (pos sdiv 512) st
     else Some (NO_SECTOR, st) }"

definition inode_length :: "ptr \<Rightarrow> fs \<Rightarrow> int option" where
  "inode_length p st = do { i \<leftarrow> inode_of st p; Some (ilen (idata i)) }"

subsection \<open>Reading and writing\<close>

text \<open>How many bytes a turn of the loops moves: what is left of the request, of the file and of the
  sector, the least of the three.  \<open>bounce\<close> is whether the bounce buffer has been allocated.\<close>

definition chunk_size :: "int \<Rightarrow> int \<Rightarrow> int \<Rightarrow> int" where
  "chunk_size size' inode_left sector_left =
     (let min_left = (if inode_left < sector_left then inode_left else sector_left)
      in if size' < min_left then size' else min_left)"

definition get_bounce :: "bool \<Rightarrow> fs \<Rightarrow> bool \<times> fs" where
  "get_bounce bounce st =
     (if bounce then (True, st) else (case fs_malloc st of (p, st) \<Rightarrow> (p \<noteq> None, st)))"

function read_loop :: "ptr \<Rightarrow> int \<Rightarrow> int \<Rightarrow> bool \<Rightarrow> byte list \<Rightarrow> fs \<Rightarrow> (byte list \<times> fs) option" where
  "read_loop p size' offset bounce acc st =
     (if size' \<le> 0 then Some (acc, st)
      else do {
        (sector_idx, st) \<leftarrow> byte_to_sector p offset st;
        let sector_ofs = offset smod 512;
        l \<leftarrow> inode_length p st;
        let chunk = chunk_size size' (l - offset) (512 - sector_ofs);
        if chunk \<le> 0 then Some (acc, st)
        else if sector_ofs = 0 \<and> chunk = 512 then do {
          (buf, st) \<leftarrow> bc_read sector_idx st;
          read_loop p (size' - chunk) (offset + chunk) bounce (acc @ buf) st }
        else (case get_bounce bounce st of
            (False, st) \<Rightarrow> Some (acc, st)
          | (True, st) \<Rightarrow> do {
              (buf, st) \<leftarrow> bc_read sector_idx st;
              read_loop p (size' - chunk) (offset + chunk) True
                (acc @ take (nat chunk) (drop (nat sector_ofs) buf)) st }) })"
  by pat_completeness auto
termination by (relation "measure (\<lambda>(p, size', _). nat size')") auto

text \<open>The result is what was put into the caller's buffer; the number of bytes read is its length.\<close>

definition inode_read_at :: "ptr \<Rightarrow> int \<Rightarrow> int \<Rightarrow> fs \<Rightarrow> (byte list \<times> fs) option" where
  "inode_read_at p size' offset st = read_loop p size' offset False [] st"

text \<open>The loop of \<open>inode_write_at\<close>: \<open>rest\<close> is what is left of the caller's.\<close>

function write_loop :: "ptr \<Rightarrow> byte list \<Rightarrow> int \<Rightarrow> bool \<Rightarrow> int \<Rightarrow> fs \<Rightarrow> (int \<times> fs) option" where
  "write_loop p rest offset bounce written st =
     (if rest = [] then Some (written, st)
      else do {
        (sector_idx, st) \<leftarrow> byte_to_sector p offset st;
        let sector_ofs = offset smod 512;
        l \<leftarrow> inode_length p st;
        let sector_left = 512 - sector_ofs;
        let chunk = chunk_size (int (length rest)) (l - offset) sector_left;
        if chunk \<le> 0 then Some (written, st)
        else if sector_ofs = 0 \<and> chunk = 512 then do {
          st \<leftarrow> bc_write sector_idx (take 512 rest) st;
          write_loop p (drop (nat chunk) rest) (offset + chunk) bounce (written + chunk) st }
        else (case get_bounce bounce st of
            (False, st) \<Rightarrow> Some (written, st)
          | (True, st) \<Rightarrow> do {
              (buf, st) \<leftarrow> (if sector_ofs > 0 \<or> chunk < sector_left then bc_read sector_idx st else Some (zeros, st));
              let buf = take (nat sector_ofs) buf @ take (nat chunk) rest @ drop (nat (sector_ofs + chunk)) buf;
              st \<leftarrow> bc_write sector_idx buf st;
              write_loop p (drop (nat chunk) rest) (offset + chunk) True (written + chunk) st }) })"
  by pat_completeness auto
termination by (relation "measure (\<lambda>(p, rest, _). length rest)") auto

text \<open>Before it writes, \<open>inode_write_at\<close> grows a file that has no byte at the last position.  The
  caller's size is the length of its buffer.\<close>

definition inode_grow :: "allocator \<Rightarrow> ptr \<Rightarrow> int \<Rightarrow> fs \<Rightarrow> (bool \<times> fs) option" where
  "inode_grow alloc p l st = do {
     (s, st) \<leftarrow> byte_to_sector p (l - 1) st;
     if s = NO_SECTOR then do {
       i \<leftarrow> inode_of st p;
       (ok, d, st) \<leftarrow> inode_reserve alloc (idata i) l st;
       st \<leftarrow> set_inode p (\<lambda>i. i\<lparr>idata := d\<rparr>) st;
       if \<not> ok then Some (False, st)
       else do {
         st \<leftarrow> set_inode p (\<lambda>i. i\<lparr>idata := (idata i)\<lparr>ilen := l\<rparr>\<rparr>) st;
         st \<leftarrow> bc_write (isector i) (encode_inode (d\<lparr>ilen := l\<rparr>)) st;
         Some (True, st) } }
     else Some (True, st) }"

definition inode_write_at :: "allocator \<Rightarrow> ptr \<Rightarrow> byte list \<Rightarrow> int \<Rightarrow> fs \<Rightarrow> (int \<times> fs) option" where
  "inode_write_at alloc p rest offset st = do {
     i \<leftarrow> inode_of st p;
     if deny_write_cnt i \<noteq> 0 then Some (0, st)
     else do {
       (ok, st) \<leftarrow> inode_grow alloc p (int32 (offset + int (length rest))) st;
       if \<not> ok then Some (0, st) else write_loop p rest offset False 0 st } }"

declare read_loop.simps [simp del] write_loop.simps [simp del]

subsection \<open>Denying writes\<close>

definition inode_deny_write :: "ptr \<Rightarrow> fs \<Rightarrow> fs option" where
  "inode_deny_write p st = do {
     st \<leftarrow> set_inode p (\<lambda>i. i\<lparr>deny_write_cnt := deny_write_cnt i + 1\<rparr>) st;
     i \<leftarrow> inode_of st p;
     ASSERT (deny_write_cnt i \<le> open_cnt i);
     Some st }"

definition inode_allow_write :: "ptr \<Rightarrow> fs \<Rightarrow> fs option" where
  "inode_allow_write p st = do {
     i \<leftarrow> inode_of st p;
     ASSERT (deny_write_cnt i > 0);
     ASSERT (deny_write_cnt i \<le> open_cnt i);
     set_inode p (\<lambda>i. i\<lparr>deny_write_cnt := deny_write_cnt i - 1\<rparr>) st }"

definition inode_get_inumber :: "ptr \<Rightarrow> fs \<Rightarrow> nat option" where
  "inode_get_inumber p st = do { i \<leftarrow> inode_of st p; Some (isector i) }"

definition is_inode_dir :: "ptr \<Rightarrow> fs \<Rightarrow> bool option" where
  "is_inode_dir p st = do { i \<leftarrow> inode_of st p; Some (is_dir (idata i)) }"

definition is_inode_rm :: "ptr \<Rightarrow> fs \<Rightarrow> bool option" where
  "is_inode_rm p st = do { i \<leftarrow> inode_of st p; Some (removed i) }"

definition inode_remove :: "ptr \<Rightarrow> fs \<Rightarrow> fs option" where
  "inode_remove p st = set_inode p (\<lambda>i. i\<lparr>removed := True\<rparr>) st"

definition inode_reopen :: "ptr option \<Rightarrow> fs \<Rightarrow> (ptr option \<times> fs) option" where
  "inode_reopen p st = (case p of
     None \<Rightarrow> Some (None, st)
   | Some q \<Rightarrow> do { st \<leftarrow> set_inode q (\<lambda>i. i\<lparr>open_cnt := open_cnt i + 1\<rparr>) st; Some (p, st) })"

end
