(* ===== verification/FreeMap.thy ===== *)
theory FreeMap imports InodeIO begin

section \<open>filesys/file.c and filesys/free-map.c: files and the map of free sectors\<close>

text \<open>
  An open file is an inode with a position.  The free map is a bitmap with a bit per sector of the
  device, kept in the file whose inode is sector 0: each change is written there.
\<close>

subsection \<open>Files\<close>

definition file_get_inode :: "ptr \<Rightarrow> fs \<Rightarrow> ptr option" where
  "file_get_inode f st = do { x \<leftarrow> file_of st f; Some (file_inode x) }"

definition file_read :: "ptr \<Rightarrow> int \<Rightarrow> fs \<Rightarrow> (byte list \<times> fs) option" where
  "file_read f size' st = do {
     x \<leftarrow> file_of st f;
     (bs, st) \<leftarrow> inode_read_at (file_inode x) size' (file_pos x) st;
     st \<leftarrow> set_file f (\<lambda>x. x\<lparr>file_pos := int32 (file_pos x + int (length bs))\<rparr>) st;
     Some (bs, st) }"

definition file_read_at :: "ptr \<Rightarrow> int \<Rightarrow> int \<Rightarrow> fs \<Rightarrow> (byte list \<times> fs) option" where
  "file_read_at f size' ofs st = do { x \<leftarrow> file_of st f; inode_read_at (file_inode x) size' ofs st }"

definition file_write_via :: "allocator \<Rightarrow> ptr \<Rightarrow> byte list \<Rightarrow> fs \<Rightarrow> (int \<times> fs) option" where
  "file_write_via alloc f buf st = do {
     x \<leftarrow> file_of st f;
     (n, st) \<leftarrow> inode_write_at alloc (file_inode x) buf (file_pos x) st;
     st \<leftarrow> set_file f (\<lambda>x. x\<lparr>file_pos := int32 (file_pos x + n)\<rparr>) st;
     Some (n, st) }"

definition file_write_at :: "allocator \<Rightarrow> ptr \<Rightarrow> byte list \<Rightarrow> int \<Rightarrow> fs \<Rightarrow> (int \<times> fs) option" where
  "file_write_at alloc f buf ofs st = do { x \<leftarrow> file_of st f; inode_write_at alloc (file_inode x) buf ofs st }"

definition file_deny_write :: "ptr \<Rightarrow> fs \<Rightarrow> fs option" where
  "file_deny_write f st = do {
     x \<leftarrow> file_of st f;
     if \<not> deny_write x then do {
       st \<leftarrow> set_file f (\<lambda>x. x\<lparr>deny_write := True\<rparr>) st;
       inode_deny_write (file_inode x) st }
     else Some st }"

definition file_allow_write :: "ptr \<Rightarrow> fs \<Rightarrow> fs option" where
  "file_allow_write f st = do {
     x \<leftarrow> file_of st f;
     if deny_write x then do {
       st \<leftarrow> set_file f (\<lambda>x. x\<lparr>deny_write := False\<rparr>) st;
       inode_allow_write (file_inode x) st }
     else Some st }"

definition file_length :: "ptr \<Rightarrow> fs \<Rightarrow> int option" where
  "file_length f st = do { x \<leftarrow> file_of st f; inode_length (file_inode x) st }"

definition file_seek :: "ptr \<Rightarrow> int \<Rightarrow> fs \<Rightarrow> fs option" where
  "file_seek f new_pos st = do { ASSERT (new_pos \<ge> 0); set_file f (\<lambda>x. x\<lparr>file_pos := new_pos\<rparr>) st }"

definition file_tell :: "ptr \<Rightarrow> fs \<Rightarrow> int option" where
  "file_tell f st = do { x \<leftarrow> file_of st f; Some (file_pos x) }"

subsection \<open>The bitmap in its file\<close>

definition bitmap_bytes :: "bitmap \<Rightarrow> byte list" where
  "bitmap_bytes b = take (byte_cnt (bit_cnt b)) (concat (map bytes_of_u32 (elems b)))"

definition elems_of_bytes :: "byte list \<Rightarrow> u32 list" where
  "elems_of_bytes bs = map word_of_nat (words_of_bytes bs)"

text \<open>A null file faults.  After a short read the bytes that came are in the bitmap.\<close>

definition bitmap_write :: "allocator \<Rightarrow> bitmap \<Rightarrow> ptr option \<Rightarrow> fs \<Rightarrow> (bool \<times> fs) option" where
  "bitmap_write alloc b file' st = do {
     f \<leftarrow> file';
     (n, st) \<leftarrow> file_write_at alloc f (bitmap_bytes b) 0 st;
     Some (n = int (byte_cnt (bit_cnt b)), st) }"

definition bitmap_read :: "bitmap \<Rightarrow> ptr option \<Rightarrow> fs \<Rightarrow> (bool \<times> bitmap \<times> fs) option" where
  "bitmap_read b file' st =
     (if bit_cnt b > 0 then do {
        f \<leftarrow> file';
        (bs, st) \<leftarrow> file_read_at f (int (byte_cnt (bit_cnt b))) 0 st;
        let old = concat (map bytes_of_u32 (elems b));
        let es = elems_of_bytes (bs @ drop (length bs) old);
        let k = elem_cnt (bit_cnt b) - 1;
        ASSERT (k < length es);
        Some (int (length bs) = int (byte_cnt (bit_cnt b)), b\<lparr>elems := es[k := es ! k AND last_mask b]\<rparr>, st) }
      else Some (True, b, st))"

subsection \<open>The free map\<close>

text \<open>\<open>free_map_allocate\<close> with at most \<open>n\<close> calls of it inside each other.  A nested call happens only when
  writing the free map has to allocate, and it has then marked a further sector; so with one call more
  than the map has bits the bound is not reached.\<close>

primrec allocate_nested :: "nat \<Rightarrow> nat \<Rightarrow> fs \<Rightarrow> (nat option \<times> fs) option" where
  "allocate_nested 0 cnt st = None"
| "allocate_nested (Suc n) cnt st = do {
     (b, sector) \<leftarrow> bitmap_scan_and_flip (free_map st) 0 cnt False;
     let st = st\<lparr>free_map := b\<rparr>;
     (written, st) \<leftarrow>
       (if sector \<noteq> BITMAP_ERROR \<and> free_map_file st \<noteq> None
        then bitmap_write (allocate_nested n 1) (free_map st) (free_map_file st) st else Some (True, st));
     if \<not> written then do {
       b \<leftarrow> bitmap_set_multiple (free_map st) sector cnt False;
       Some (None, st\<lparr>free_map := b\<rparr>) }
     else Some (if sector \<noteq> BITMAP_ERROR then Some sector else None, st) }"

definition free_map_allocate :: "nat \<Rightarrow> fs \<Rightarrow> (nat option \<times> fs) option" where
  "free_map_allocate cnt st = allocate_nested (bit_cnt (free_map st) + 2) cnt st"

definition allocate_one :: allocator where
  "allocate_one = free_map_allocate 1"

definition free_map_release :: "nat \<Rightarrow> nat \<Rightarrow> fs \<Rightarrow> fs option" where
  "free_map_release sector cnt st = do {
     full \<leftarrow> bitmap_all (free_map st) sector cnt;
     ASSERT full;
     b \<leftarrow> bitmap_set_multiple (free_map st) sector cnt False;
     let st = st\<lparr>free_map := b\<rparr>;
     (_, st) \<leftarrow> bitmap_write allocate_one b (free_map_file st) st;
     Some st }"

definition file_write :: "ptr \<Rightarrow> byte list \<Rightarrow> fs \<Rightarrow> (int \<times> fs) option" where
  "file_write f buf st = file_write_via allocate_one f buf st"

text \<open>\<open>bitmap_create\<close> is given the results of its two allocations.\<close>

definition free_map_init :: "bool \<Rightarrow> u32 list option \<Rightarrow> fs \<Rightarrow> fs option" where
  "free_map_init ok mem st = do {
     r \<leftarrow> bitmap_create ok mem (block_size (fs_device (bc st)));
     b \<leftarrow> r;
     b \<leftarrow> bitmap_mark b FREE_MAP_SECTOR;
     b \<leftarrow> bitmap_mark b ROOT_DIR_SECTOR;
     Some (st\<lparr>free_map := b\<rparr>) }"

end
