(* ===== verification/Inode.thy ===== *)
theory Inode imports FreeMap begin

section \<open>filesys/inode.c: creating, opening and closing inodes\<close>

text \<open>
  The open inodes are on a list, so that a sector opened twice is one structure; it is freed by the
  last of its openers, with its sectors when it was removed.
\<close>

definition inode_init :: "fs \<Rightarrow> fs" where
  "inode_init st = st\<lparr>open_inodes := []\<rparr>"

definition inode_create :: "nat \<Rightarrow> int \<Rightarrow> bool \<Rightarrow> fs \<Rightarrow> (bool \<times> fs) option" where
  "inode_create sector l isdir st = do {
     ASSERT (l \<ge> 0);
     (case fs_malloc st of
        (None, st) \<Rightarrow> Some (False, st)
      | (Some _, st) \<Rightarrow> do {
          let d = \<lparr>d_indir_block = 0, indir_block = 0, dir_blocks = replicate DIRECT 0, ilen = l,
                   inode_magic = INODE_MAGIC, is_dir = isdir\<rparr>;
          (ok, d, st) \<leftarrow> inode_new allocate_one d st;
          if ok then do { st \<leftarrow> bc_write sector (encode_inode d) st; Some (True, st) }
          else Some (False, st) }) }"

fun find_open :: "nat \<Rightarrow> ptr list \<Rightarrow> fs \<Rightarrow> ptr option option" where
  "find_open sector [] st = Some None"
| "find_open sector (p # ps) st = do {
     i \<leftarrow> inode_of st p;
     if isector i = sector then Some (Some p) else find_open sector ps st }"

definition inode_open :: "nat \<Rightarrow> fs \<Rightarrow> (ptr option \<times> fs) option" where
  "inode_open sector st = do {
     r \<leftarrow> find_open sector (open_inodes st) st;
     case r of
       Some p \<Rightarrow> do { (_, st) \<leftarrow> inode_reopen (Some p) st; Some (Some p, st) }
     | None \<Rightarrow>
         (case fs_malloc st of
            (None, st) \<Rightarrow> Some (None, st)
          | (Some p, st) \<Rightarrow> do {
              let st = st\<lparr>open_inodes := p # open_inodes st\<rparr>;
              (buf, st) \<leftarrow> bc_read sector st;
              let i = \<lparr>isector = sector, open_cnt = 1, removed = False, deny_write_cnt = 0, idata = decode_inode buf\<rparr>;
              Some (Some p, st\<lparr>inode_of := (inode_of st)(p \<mapsto> i)\<rparr>) }) }"

subsection \<open>Freeing the blocks\<close>

fun delete_loop :: "(nat \<Rightarrow> nat \<Rightarrow> fs \<Rightarrow> fs option) \<Rightarrow> nat \<Rightarrow> nat \<Rightarrow> nat \<Rightarrow> nat \<Rightarrow> nat list \<Rightarrow> fs \<Rightarrow> (nat \<times> fs) option" where
  "delete_loop del chunk i 0 num block st = Some (num, st)"
| "delete_loop del chunk i (Suc n) num block st = do {
     let nmax = (if num < chunk then num else chunk);
     ASSERT (i < length block);
     st \<leftarrow> del (block ! i) nmax st;
     delete_loop del chunk (i + 1) n (num - nmax) block st }"

primrec delete_indir :: "nat \<Rightarrow> nat \<Rightarrow> nat \<Rightarrow> fs \<Rightarrow> fs option" where
  "delete_indir 0 = (\<lambda>ent num st. free_map_release ent 1 st)"
| "delete_indir (Suc level) = (\<lambda>ent num st.
     if Suc level > 2 then None
     else do {
       let chunk = (if Suc level = 1 then 1 else INDIRECT);
       (buf, st) \<leftarrow> bc_read ent st;
       (num, st) \<leftarrow> delete_loop (delete_indir level) chunk 0 (DIV_ROUND_UP num chunk) num (words_of_bytes buf) st;
       ASSERT (num = 0);
       free_map_release ent 1 st })"

fun release_direct :: "nat list \<Rightarrow> fs \<Rightarrow> fs option" where
  "release_direct [] st = Some st"
| "release_direct (b # bs) st = do { st \<leftarrow> free_map_release b 1 st; release_direct bs st }"

definition inode_delete :: "inode \<Rightarrow> fs \<Rightarrow> (bool \<times> fs) option" where
  "inode_delete i st =
     (if ilen (idata i) < 0 then Some (False, st)
      else do {
        let num_sec = nat (bytes_to_sectors (ilen (idata i)));
        let max' = min num_sec DIRECT;
        st \<leftarrow> release_direct (take max' (dir_blocks (idata i))) st;
        let num_sec = num_sec - max';
        let max' = min num_sec INDIRECT;
        st \<leftarrow> (if max' > 0 then delete_indir 1 (indir_block (idata i)) max' st else Some st);
        let num_sec = num_sec - max';
        let max' = min num_sec (INDIRECT * INDIRECT);
        st \<leftarrow> (if max' > 0 then delete_indir 2 (d_indir_block (idata i)) max' st else Some st);
        ASSERT (num_sec - max' = 0);
        Some (True, st) })"

text \<open>A removed inode is still in memory while its sectors are freed.\<close>

definition inode_close :: "ptr option \<Rightarrow> fs \<Rightarrow> fs option" where
  "inode_close p st = (case p of
     None \<Rightarrow> Some st
   | Some q \<Rightarrow> do {
       st \<leftarrow> set_inode q (\<lambda>i. i\<lparr>open_cnt := open_cnt i - 1\<rparr>) st;
       i \<leftarrow> inode_of st q;
       if open_cnt i = 0 then do {
         let st = st\<lparr>open_inodes := remove1 q (open_inodes st)\<rparr>;
         st \<leftarrow> (if removed i then do {
                  st \<leftarrow> free_map_release (isector i) 1 st;
                  (_, st) \<leftarrow> inode_delete i st;
                  Some st }
                else Some st);
         Some (st\<lparr>inode_of := (inode_of st)(q := None)\<rparr>) }
       else Some st })"

subsection \<open>Opening and closing files\<close>

definition file_open :: "ptr option \<Rightarrow> fs \<Rightarrow> (ptr option \<times> fs) option" where
  "file_open p st = (case (p, fs_malloc st) of
     (Some q, (Some f, st)) \<Rightarrow>
       Some (Some f, st\<lparr>file_of := (file_of st)(f \<mapsto> \<lparr>file_inode = q, file_pos = 0, deny_write = False\<rparr>)\<rparr>)
   | (_, (_, st)) \<Rightarrow> do { st \<leftarrow> inode_close p st; Some (None, st) })"

definition file_reopen :: "ptr \<Rightarrow> fs \<Rightarrow> (ptr option \<times> fs) option" where
  "file_reopen f st = do {
     x \<leftarrow> file_of st f;
     (p, st) \<leftarrow> inode_reopen (Some (file_inode x)) st;
     file_open p st }"

definition file_close :: "ptr option \<Rightarrow> fs \<Rightarrow> fs option" where
  "file_close f st = (case f of
     None \<Rightarrow> Some st
   | Some g \<Rightarrow> do {
       st \<leftarrow> file_allow_write g st;
       x \<leftarrow> file_of st g;
       st \<leftarrow> inode_close (Some (file_inode x)) st;
       Some (st\<lparr>file_of := (file_of st)(g := None)\<rparr>) })"

subsection \<open>The free map's own file\<close>

definition free_map_open :: "fs \<Rightarrow> fs option" where
  "free_map_open st = do {
     (p, st) \<leftarrow> inode_open FREE_MAP_SECTOR st;
     (f, st) \<leftarrow> file_open p st;
     ASSERT (f \<noteq> None);
     let st = st\<lparr>free_map_file := f\<rparr>;
     (ok, b, st) \<leftarrow> bitmap_read (free_map st) f st;
     ASSERT ok;
     Some (st\<lparr>free_map := b\<rparr>) }"

definition free_map_close :: "fs \<Rightarrow> fs option" where
  "free_map_close st = file_close (free_map_file st) st"

definition free_map_create :: "fs \<Rightarrow> fs option" where
  "free_map_create st = do {
     (ok, st) \<leftarrow> inode_create FREE_MAP_SECTOR (int (bitmap_file_size (free_map st))) False st;
     ASSERT ok;
     (p, st) \<leftarrow> inode_open FREE_MAP_SECTOR st;
     (f, st) \<leftarrow> file_open p st;
     ASSERT (f \<noteq> None);
     let st = st\<lparr>free_map_file := f\<rparr>;
     (ok, st) \<leftarrow> bitmap_write allocate_one (free_map st) f st;
     ASSERT ok;
     Some st }"

end
