(* ===== verification/Directory.thy ===== *)
theory Directory imports Inode CString begin

section \<open>filesys/directory.c: directories\<close>

text \<open>
  A directory is a file of 20-byte entries; the first holds the parent's sector.  A name is a list of
  bytes without the null character that ends it in memory.  Where the source uses memory it has not
  set, an uninitialised \<open>struct dir_entry\<close> or character array on its stack, what is there is an
  argument: \<open>frame\<close> has the bytes of such an entry and such an array, and the number of bytes the
  compiler reserves for an array of a given size.
\<close>

definition NAME_MAX :: nat where "NAME_MAX = 14"

record dir_entry =
  inode_sector :: nat
  ename :: "byte list"
  in_use :: byte

record frame =
  junk_entry :: dir_entry
  junk :: "nat \<Rightarrow> byte"
  room :: "nat \<Rightarrow> nat"

definition ENTRY_SIZE :: nat where "ENTRY_SIZE = 20"

definition encode_entry :: "dir_entry \<Rightarrow> byte list" where
  "encode_entry e = bytes_of_u32 (word_of_nat (inode_sector e)) @ ename e @ [in_use e]"

definition decode_entry :: "byte list \<Rightarrow> dir_entry" where
  "decode_entry bs = \<lparr>inode_sector = unat (u32_of_bytes (take 4 bs)), ename = take 15 (drop 4 bs), in_use = bs ! 19\<rparr>"

text \<open>Reading into an entry replaces as many of its bytes as come.\<close>

definition overlay :: "byte list \<Rightarrow> dir_entry \<Rightarrow> dir_entry" where
  "overlay bs e = decode_entry (bs @ drop (length bs) (encode_entry e))"

definition read_entry :: "ptr \<Rightarrow> int \<Rightarrow> dir_entry \<Rightarrow> fs \<Rightarrow> (bool \<times> dir_entry \<times> fs) option" where
  "read_entry p ofs e st = do {
     (bs, st) \<leftarrow> inode_read_at p (int ENTRY_SIZE) ofs st;
     Some (length bs = ENTRY_SIZE, overlay bs e, st) }"

definition write_entry :: "ptr \<Rightarrow> int \<Rightarrow> dir_entry \<Rightarrow> fs \<Rightarrow> (bool \<times> fs) option" where
  "write_entry p ofs e st = do {
     (n, st) \<leftarrow> inode_write_at allocate_one p (encode_entry e) ofs st;
     Some (n = int ENTRY_SIZE, st) }"

subsection \<open>Opening and closing\<close>

definition dir_open :: "ptr option \<Rightarrow> fs \<Rightarrow> (ptr option \<times> fs) option" where
  "dir_open p st = (case (p, fs_malloc st) of
     (Some q, (Some d, st)) \<Rightarrow>
       Some (Some d, st\<lparr>dir_of := (dir_of st)(d \<mapsto> \<lparr>dir_inode = q, dir_pos = int ENTRY_SIZE\<rparr>)\<rparr>)
   | (_, (_, st)) \<Rightarrow> do { st \<leftarrow> inode_close p st; Some (None, st) })"

definition dir_open_root :: "fs \<Rightarrow> (ptr option \<times> fs) option" where
  "dir_open_root st = do { (p, st) \<leftarrow> inode_open ROOT_DIR_SECTOR st; dir_open p st }"

definition dir_reopen :: "ptr \<Rightarrow> fs \<Rightarrow> (ptr option \<times> fs) option" where
  "dir_reopen d st = do {
     x \<leftarrow> dir_of st d;
     (p, st) \<leftarrow> inode_reopen (Some (dir_inode x)) st;
     dir_open p st }"

definition dir_close :: "ptr option \<Rightarrow> fs \<Rightarrow> fs option" where
  "dir_close d st = (case d of
     None \<Rightarrow> Some st
   | Some e \<Rightarrow> do {
       x \<leftarrow> dir_of st e;
       st \<leftarrow> inode_close (Some (dir_inode x)) st;
       Some (st\<lparr>dir_of := (dir_of st)(e := None)\<rparr>) })"

definition dir_get_inode :: "ptr \<Rightarrow> fs \<Rightarrow> ptr option" where
  "dir_get_inode d st = do { x \<leftarrow> dir_of st d; Some (dir_inode x) }"

definition dir_create :: "nat \<Rightarrow> nat \<Rightarrow> frame \<Rightarrow> fs \<Rightarrow> (bool \<times> fs) option" where
  "dir_create sector entry_cnt fr st = do {
     (ok, st) \<leftarrow> inode_create sector (int (entry_cnt * ENTRY_SIZE)) True st;
     if \<not> ok then Some (False, st)
     else do {
       (p, st) \<leftarrow> inode_open sector st;
       (d, st) \<leftarrow> dir_open p st;
       case d of
         None \<Rightarrow> Some (False, st)
       | Some e \<Rightarrow> do {
           q \<leftarrow> dir_get_inode e st;
           (res, st) \<leftarrow> write_entry q 0 ((junk_entry fr)\<lparr>inode_sector := sector\<rparr>) st;
           st \<leftarrow> dir_close d st;
           Some (res, st) } } }"

subsection \<open>Searching\<close>

text \<open>\<open>strcmp (name, e.name)\<close>: the name and the entry as they lie in memory, the byte \<open>in_use\<close> behind
  the entry's name.\<close>

definition same_name :: "byte list \<Rightarrow> dir_entry \<Rightarrow> bool option" where
  "same_name name e = do {
     r \<leftarrow> strcmp 65536 4096 (put 65536 (name @ [0]) (put 4096 (ename e @ [in_use e]) (\<lambda>_. None)));
     Some (r = 0) }"

partial_function (option) lookup_entries ::
  "ptr \<Rightarrow> byte list \<Rightarrow> int \<Rightarrow> dir_entry \<Rightarrow> fs \<Rightarrow> ((dir_entry \<times> int) option \<times> fs) option" where
  "lookup_entries p name ofs e st = do {
     (full, e, st) \<leftarrow> read_entry p ofs e st;
     if \<not> full then Some (None, st)
     else do {
       same \<leftarrow> (if in_use e \<noteq> 0 then same_name name e else Some False);
       if same then Some (Some (e, ofs), st)
       else lookup_entries p name (ofs + int ENTRY_SIZE) e st } }"

definition lookup :: "ptr option \<Rightarrow> byte list \<Rightarrow> frame \<Rightarrow> fs \<Rightarrow> ((dir_entry \<times> int) option \<times> fs) option" where
  "lookup d name fr st = do {
     e \<leftarrow> d;
     p \<leftarrow> dir_get_inode e st;
     lookup_entries p name (int ENTRY_SIZE) (junk_entry fr) st }"

partial_function (option) empty_loop :: "ptr \<Rightarrow> int \<Rightarrow> dir_entry \<Rightarrow> fs \<Rightarrow> (bool \<times> fs) option" where
  "empty_loop p ofs e st = do {
     (full, e, st) \<leftarrow> read_entry p ofs e st;
     if \<not> full then Some (True, st)
     else if in_use e \<noteq> 0 then Some (False, st)
     else empty_loop p (ofs + int ENTRY_SIZE) e st }"

definition dir_empty :: "ptr option \<Rightarrow> frame \<Rightarrow> fs \<Rightarrow> (bool \<times> fs) option" where
  "dir_empty d fr st = do {
     e \<leftarrow> d;
     p \<leftarrow> dir_get_inode e st;
     empty_loop p (int ENTRY_SIZE) (junk_entry fr) st }"

definition dir_lookup :: "ptr option \<Rightarrow> byte list \<Rightarrow> frame \<Rightarrow> fs \<Rightarrow> (ptr option \<times> fs) option" where
  "dir_lookup d name fr st = do {
     x \<leftarrow> d;
     p \<leftarrow> dir_get_inode x st;
     if name = [46, 46] then do {
       (_, e, st) \<leftarrow> read_entry p 0 (junk_entry fr) st;
       inode_open (inode_sector e) st }
     else if name = [46] then inode_reopen (Some p) st
     else do {
       (r, st) \<leftarrow> lookup d name fr st;
       case r of
         None \<Rightarrow> Some (None, st)
       | Some (e, _) \<Rightarrow> inode_open (inode_sector e) st } }"

subsection \<open>Changing a directory\<close>

text \<open>The search for a free slot comes back with its offset and what is in \<open>e\<close>.\<close>

partial_function (option) slot_loop :: "ptr \<Rightarrow> int \<Rightarrow> dir_entry \<Rightarrow> fs \<Rightarrow> (int \<times> dir_entry \<times> fs) option" where
  "slot_loop p ofs e st = do {
     (full, e, st) \<leftarrow> read_entry p ofs e st;
     if \<not> full \<or> in_use e = 0 then Some (ofs, e, st)
     else slot_loop p (ofs + int ENTRY_SIZE) e st }"

text \<open>\<open>strlcpy\<close> into the name of an entry.\<close>

definition set_name :: "byte list \<Rightarrow> dir_entry \<Rightarrow> dir_entry" where
  "set_name name e = e\<lparr>ename := (let n = min (length name) NAME_MAX in take n name @ [0] @ drop (n + 1) (ename e))\<rparr>"

definition dir_add :: "ptr option \<Rightarrow> byte list \<Rightarrow> nat \<Rightarrow> bool \<Rightarrow> frame \<Rightarrow> fs \<Rightarrow> (bool \<times> fs) option" where
  "dir_add d name sector isdir fr st = do {
     x \<leftarrow> d;
     p \<leftarrow> dir_get_inode x st;
     if name = [] \<or> length name > NAME_MAX then Some (False, st)
     else do {
       (r, st) \<leftarrow> lookup d name fr st;
       if r \<noteq> None then Some (False, st)
       else do {
         (ok, e, st) \<leftarrow>
           (if isdir then do {
              (q, st) \<leftarrow> inode_open sector st;
              (cdir, st) \<leftarrow> dir_open q st;
              case cdir of
                None \<Rightarrow> Some (False, junk_entry fr, st)
              | Some c \<Rightarrow> do {
                  n \<leftarrow> inode_get_inumber p st;
                  let e = (junk_entry fr)\<lparr>inode_sector := n\<rparr>;
                  cp \<leftarrow> dir_get_inode c st;
                  (ok, st) \<leftarrow> write_entry cp 0 e st;
                  st \<leftarrow> dir_close cdir st;
                  Some (ok, e, st) } }
            else Some (True, junk_entry fr, st));
         if \<not> ok then Some (False, st)
         else do {
           (ofs, e, st) \<leftarrow> slot_loop p 0 e st;
           let e = (set_name name (e\<lparr>in_use := 1\<rparr>))\<lparr>inode_sector := sector\<rparr>;
           write_entry p ofs e st } } } }"

text \<open>A directory that is to be removed is opened and closed again to see whether it is empty.\<close>

definition dir_remove :: "ptr option \<Rightarrow> byte list \<Rightarrow> frame \<Rightarrow> fs \<Rightarrow> (bool \<times> fs) option" where
  "dir_remove d name fr st = do {
     x \<leftarrow> d;
     p \<leftarrow> dir_get_inode x st;
     (r, st) \<leftarrow> lookup d name fr st;
     case r of
       None \<Rightarrow> Some (False, st)
     | Some (e, ofs) \<Rightarrow> do {
         (q, st) \<leftarrow> inode_open (inode_sector e) st;
         case q of
           None \<Rightarrow> Some (False, st)
         | Some i \<Rightarrow> do {
             isdir \<leftarrow> is_inode_dir i st;
             (empty, st) \<leftarrow>
               (if isdir then do {
                  (dcur, st) \<leftarrow> dir_open q st;
                  (empty, st) \<leftarrow> dir_empty dcur fr st;
                  st \<leftarrow> dir_close dcur st;
                  Some (empty, st) }
                else Some (True, st));
             (success, st) \<leftarrow>
               (if \<not> empty then Some (False, st)
                else do {
                  (ok, st) \<leftarrow> write_entry p ofs (e\<lparr>in_use := 0\<rparr>) st;
                  if \<not> ok then Some (False, st)
                  else do { st \<leftarrow> inode_remove i st; Some (True, st) } });
             st \<leftarrow> inode_close q st;
             Some (success, st) } } }"

partial_function (option) readdir_loop :: "ptr \<Rightarrow> ptr \<Rightarrow> dir_entry \<Rightarrow> fs \<Rightarrow> (byte list option \<times> fs) option" where
  "readdir_loop d p e st = do {
     x \<leftarrow> dir_of st d;
     (full, e, st) \<leftarrow> read_entry p (dir_pos x) e st;
     if \<not> full then Some (None, st)
     else do {
       st \<leftarrow> set_dir d (\<lambda>x. x\<lparr>dir_pos := dir_pos x + int ENTRY_SIZE\<rparr>) st;
       if in_use e \<noteq> 0 then Some (Some (take NAME_MAX (takeWhile (\<lambda>c. c \<noteq> 0) (ename e))), st)
       else readdir_loop d p e st } }"

definition dir_readdir :: "ptr \<Rightarrow> frame \<Rightarrow> fs \<Rightarrow> (byte list option \<times> fs) option" where
  "dir_readdir d fr st = do { p \<leftarrow> dir_get_inode d st; readdir_loop d p (junk_entry fr) st }"

declare lookup_entries.simps [code] empty_loop.simps [code] slot_loop.simps [code] readdir_loop.simps [code]

end
