(* ===== verification/FileSys.thy ===== *)
theory FileSys imports Directory begin

section \<open>filesys/filesys.c and the paths of filesys/directory.c\<close>

text \<open>
  A path is taken apart with \<open>strtok_r\<close> in a copy on the stack, at the level of memory: the string
  constants, the path, the copy and the arrays for the results lie at fixed places.
\<close>

definition SLASH_STR :: ptr where "SLASH_STR = 1"
definition EMPTY_STR :: ptr where "EMPTY_STR = 3"
definition PATH_AT :: ptr where "PATH_AT = 16"

definition constants :: mem where
  "constants = put SLASH_STR [47, 0] (put EMPTY_STR [0] (\<lambda>_. None))"

definition string_at :: "mem \<Rightarrow> ptr \<Rightarrow> byte list option" where
  "string_at m p = do { n \<leftarrow> strlen p m; those (map m [p..<p + n]) }"

subsection \<open>Walking a path\<close>

partial_function (option) walk_path ::
  "mem \<Rightarrow> ptr \<Rightarrow> ptr \<Rightarrow> ptr option \<Rightarrow> frame \<Rightarrow> fs \<Rightarrow> (ptr option \<times> fs) option" where
  "walk_path m chunk pos dcur fr st =
     (if chunk = NULL then do {
        d \<leftarrow> dcur;
        p \<leftarrow> dir_get_inode d st;
        rm \<leftarrow> is_inode_rm p st;
        if rm then do { st \<leftarrow> dir_close dcur st; Some (None, st) } else Some (dcur, st) }
      else do {
        name \<leftarrow> string_at m chunk;
        (id, st) \<leftarrow> dir_lookup dcur name fr st;
        if id = None then do { st \<leftarrow> dir_close dcur st; Some (None, st) }
        else do {
          (dnext, st) \<leftarrow> dir_open id st;
          st \<leftarrow> dir_close dcur st;
          if dnext = None then Some (None, st)
          else do {
            (chunk, pos, m) \<leftarrow> strtok_r NULL SLASH_STR pos m;
            walk_path m chunk pos dnext fr st } } })"

definition make_path :: "byte list \<Rightarrow> frame \<Rightarrow> fs \<Rightarrow> (ptr option \<times> fs) option" where
  "make_path path fr st = do {
     (dcur, st) \<leftarrow>
       (if hd (path @ [0]) \<noteq> 47 then
          (case cwd st of None \<Rightarrow> dir_open_root st | Some d \<Rightarrow> dir_reopen d st)
        else dir_open_root st);
     (chunk, pos, m) \<leftarrow> strtok_r PATH_AT SLASH_STR NULL (put PATH_AT (path @ [0]) constants);
     walk_path m chunk pos dcur fr st }"

subsection \<open>Splitting a path\<close>

partial_function (option) divide_loop :: "mem \<Rightarrow> ptr \<Rightarrow> ptr \<Rightarrow> ptr \<Rightarrow> ptr \<Rightarrow> (mem \<times> ptr \<times> ptr) option" where
  "divide_loop m chunk pos last_p d_temp =
     (if chunk = NULL then Some (m, last_p, d_temp)
      else do {
        last_len \<leftarrow> strlen last_p m;
        (d_temp, m) \<leftarrow>
          (if d_temp \<noteq> NULL \<and> last_len \<noteq> 0 then do {
             (_, m) \<leftarrow> memcpy d_temp last_p last_len m;
             m \<leftarrow> store (d_temp + last_len) 47 m;
             Some (d_temp + last_len + 1, m) }
           else Some (d_temp, m));
        (chunk', pos, m) \<leftarrow> strtok_r NULL SLASH_STR pos m;
        divide_loop m chunk' pos chunk d_temp })"

text \<open>\<open>temp\<close> is the copy on the stack.\<close>

definition divide_fn :: "ptr \<Rightarrow> ptr \<Rightarrow> ptr \<Rightarrow> ptr \<Rightarrow> mem \<Rightarrow> mem option" where
  "divide_fn path d_token f_token temp m = do {
     n \<leftarrow> strlen path m;
     (_, m) \<leftarrow> memcpy temp path (n + 1) m;
     c \<leftarrow> load m path;
     (d_temp, m) \<leftarrow>
       (if c = 47 then do {
          k \<leftarrow> strlen d_token m;
          if k \<noteq> 0 then do { m \<leftarrow> store d_token 47 m; Some (d_token + 1, m) } else Some (d_token, m) }
        else Some (d_token, m));
     (chunk, pos, m) \<leftarrow> strtok_r temp SLASH_STR NULL m;
     (m, last_p, d_temp) \<leftarrow> divide_loop m chunk pos EMPTY_STR d_temp;
     m \<leftarrow> (if d_temp \<noteq> NULL then store d_temp 0 m else Some m);
     k \<leftarrow> strlen last_p m;
     (_, m) \<leftarrow> memcpy f_token last_p (k + 1) m;
     Some m }"

text \<open>The callers' arrays of \<open>n\<close> characters, as large as the compiler makes them, with what the stack
  holds there; behind each lies a byte that is not the array's.\<close>

definition divided :: "byte list \<Rightarrow> nat \<Rightarrow> frame \<Rightarrow> (byte list \<times> byte list) option" where
  "divided path n fr = (let
       temp = PATH_AT + length path + 1;
       d_token = temp + length path + 1;
       f_token = d_token + room fr n + 1;
       old = map (junk fr) [0..<room fr n];
       m = put f_token old (put d_token old (put temp (replicate (length path + 1) 0)
             (put PATH_AT (path @ [0]) constants)))
     in do {
       m \<leftarrow> divide_fn PATH_AT d_token f_token temp m;
       d \<leftarrow> string_at m d_token;
       f \<leftarrow> string_at m f_token;
       Some (d, f) })"

subsection \<open>The operations of the file system\<close>

definition do_format :: "frame \<Rightarrow> fs \<Rightarrow> fs option" where
  "do_format fr st = do {
     st \<leftarrow> free_map_create st;
     (ok, st) \<leftarrow> dir_create ROOT_DIR_SECTOR 16 fr st;
     ASSERT ok;
     free_map_close st }"

text \<open>\<open>dev\<close> is the device with the role of the file system; the allocations of the free map are
  arguments.\<close>

definition filesys_init :: "bool \<Rightarrow> block option \<Rightarrow> bool \<Rightarrow> u32 list option \<Rightarrow> frame \<Rightarrow> fs \<Rightarrow> fs option" where
  "filesys_init format dev ok mem fr st = do {
     d \<leftarrow> dev;
     let st = st\<lparr>bc := (bc st)\<lparr>fs_device := d\<rparr>\<rparr>;
     let st = st\<lparr>bc := buffer_cache_init (bc st)\<rparr>;
     let st = inode_init st;
     st \<leftarrow> free_map_init ok mem st;
     st \<leftarrow> (if format then do_format fr st else Some st);
     free_map_open st }"

definition filesys_done :: "fs \<Rightarrow> fs option" where
  "filesys_done st = do {
     st \<leftarrow> free_map_close st;
     c \<leftarrow> buffer_cache_terminate (bc st);
     Some (st\<lparr>bc := c\<rparr>) }"

text \<open>The steps of \<open>filesys_create\<close> stop at the first that fails; \<open>inode_sector\<close> is zero until a sector is
  allocated.\<close>

definition filesys_create :: "byte list \<Rightarrow> int \<Rightarrow> bool \<Rightarrow> frame \<Rightarrow> fs \<Rightarrow> (bool \<times> fs) option" where
  "filesys_create path initial_size isdir fr st = do {
     (d_token, f_token) \<leftarrow> divided path (length path) fr;
     (dir, st) \<leftarrow> make_path d_token fr st;
     (success, inode_sector, st) \<leftarrow>
       (if dir = None then Some (False, 0, st)
        else do {
          (r, st) \<leftarrow> free_map_allocate 1 st;
          case r of
            None \<Rightarrow> Some (False, 0, st)
          | Some s \<Rightarrow> do {
              (ok, st) \<leftarrow> inode_create s initial_size isdir st;
              (ok, st) \<leftarrow> (if ok then dir_add dir f_token s isdir fr st else Some (False, st));
              Some (ok, s, st) } });
     st \<leftarrow> (if \<not> success \<and> inode_sector \<noteq> 0 then free_map_release inode_sector 1 st else Some st);
     st \<leftarrow> dir_close dir st;
     Some (success, st) }"

definition filesys_open :: "byte list \<Rightarrow> frame \<Rightarrow> fs \<Rightarrow> (ptr option \<times> fs) option" where
  "filesys_open path fr st =
     (if path = [] then Some (None, st)
      else do {
        (d_token, f_token) \<leftarrow> divided path (length path + 1) fr;
        (dir, st) \<leftarrow> make_path d_token fr st;
        case dir of
          None \<Rightarrow> Some (None, st)
        | Some d \<Rightarrow> do {
            (inode, st) \<leftarrow>
              (if f_token \<noteq> [] then do {
                 (inode, st) \<leftarrow> dir_lookup dir f_token fr st;
                 st \<leftarrow> dir_close dir st;
                 Some (inode, st) }
               else do { p \<leftarrow> dir_get_inode d st; Some (Some p, st) });
            case inode of
              None \<Rightarrow> Some (None, st)
            | Some p \<Rightarrow> do {
                rm \<leftarrow> is_inode_rm p st;
                if rm then Some (None, st) else file_open inode st } } })"

definition filesys_remove :: "byte list \<Rightarrow> frame \<Rightarrow> fs \<Rightarrow> (bool \<times> fs) option" where
  "filesys_remove path fr st =
     (if path = [] then Some (False, st)
      else do {
        (d_token, f_token) \<leftarrow> divided path (length path + 1) fr;
        (dir, st) \<leftarrow> make_path d_token fr st;
        (success, st) \<leftarrow> (if dir \<noteq> None then dir_remove dir f_token fr st else Some (False, st));
        st \<leftarrow> dir_close dir st;
        Some (success, st) })"

definition filesys_chdir :: "byte list \<Rightarrow> frame \<Rightarrow> fs \<Rightarrow> (bool \<times> fs) option" where
  "filesys_chdir path fr st = do {
     (dir, st) \<leftarrow> make_path path fr st;
     if dir = None then Some (False, st)
     else do {
       st \<leftarrow> dir_close (cwd st) st;
       Some (True, st\<lparr>cwd := dir\<rparr>) } }"

declare walk_path.simps [code] divide_loop.simps [code]

end
