(* ===== verification/InodeContent.thy ===== *)
theory InodeContent imports InodeIO begin

section \<open>The contents of a file\<close>

text \<open>
  A file's inode maps its bytes to sectors of the disk behind the cache.  \<open>content\<close> is the list of its
  bytes; \<open>inode_ok\<close> says that the sectors of its index blocks and of its data are different sectors of
  the device.  Reading and writing are refined to lists: a read is \<open>take\<close> and \<open>drop\<close> of the content, a
  write inside the file replaces a segment of it, and no sector but the file's data is touched.
\<close>

abbreviation disk :: "fs \<Rightarrow> nat \<Rightarrow> byte list" where
  "disk st \<equiv> bc_view (bc st)"

abbreviation sectors :: "fs \<Rightarrow> nat" where
  "sectors st \<equiv> bc_limit (bc st)"

text \<open>A step that changes nothing but the disk and the number of allocations made.\<close>

definition disk_step :: "fs \<Rightarrow> (nat \<Rightarrow> byte list) \<Rightarrow> fs \<Rightarrow> bool" where
  "disk_step st v st' = (\<exists>c n. st' = st\<lparr>bc := c, heap_next := n\<rparr> \<and> bc_ok c \<and> bc_view c = v \<and> bc_limit c = sectors st)"

abbreviation quiet :: "fs \<Rightarrow> fs \<Rightarrow> bool" where
  "quiet st st' \<equiv> disk_step st (disk st) st'"

lemma disk_stepD:
  assumes "disk_step st v st'"
  shows "bc_ok (bc st')" "disk st' = v" "sectors st' = sectors st" "inode_of st' = inode_of st" "file_of st' = file_of st"
    "dir_of st' = dir_of st" "malloc_ok st' = malloc_ok st" "free_map st' = free_map st" "free_map_file st' = free_map_file st"
    "open_inodes st' = open_inodes st" "cwd st' = cwd st"
  using assms by (auto simp: disk_step_def)

lemma quiet_refl: "bc_ok (bc st) \<Longrightarrow> quiet st st"
  by (auto simp: disk_step_def intro!: exI [of _ "bc st"] exI [of _ "heap_next st"])

lemma disk_step_trans: "disk_step st v st' \<Longrightarrow> disk_step st' w st'' \<Longrightarrow> disk_step st w st''"
  unfolding disk_step_def by (rule exI [of _ "bc st''"], rule exI [of _ "heap_next st''"]) auto

lemma quiet_trans: "quiet st st' \<Longrightarrow> disk_step st' w st'' \<Longrightarrow> disk_step st w st''"
  by (rule disk_step_trans)

lemma bc_read_step:
  assumes "bc_ok (bc st)" "a < sectors st"
  shows "\<exists>st'. bc_read a st = Some (disk st a, st') \<and> quiet st st'"
proof -
  from cache.rd_spec [OF assms] obtain c where
    c: "buffer_cache_read a (bc st) = Some (disk st a, c)" "bc_ok c" "bc_view c = disk st" "bc_limit c = sectors st" by auto
  then show ?thesis by (auto simp: bc_read_def disk_step_def intro!: exI [of _ c] exI [of _ "heap_next st"])
qed

lemma bc_write_step:
  assumes "bc_ok (bc st)" "a < sectors st" "length d = BLOCK_SECTOR_SIZE"
  shows "\<exists>st'. bc_write a d st = Some st' \<and> disk_step st ((disk st)(a := d)) st'"
proof -
  from cache.wr_spec [OF assms] obtain c where
    c: "buffer_cache_write a d (bc st) = Some c" "bc_ok c" "bc_view c = (disk st)(a := d)" "bc_limit c = sectors st" by auto
  then show ?thesis by (auto simp: bc_write_def disk_step_def intro!: exI [of _ c] exI [of _ "heap_next st"])
qed

lemma fs_malloc_step:
  assumes "bc_ok (bc st)" "\<forall>n. malloc_ok st n"
  shows "\<exists>p st'. fs_malloc st = (Some p, st') \<and> quiet st st'"
  using assms by (auto simp: fs_malloc_def disk_step_def intro!: exI [of _ "bc st"])

subsection \<open>The sectors of a file\<close>

definition sector_of :: "(nat \<Rightarrow> byte list) \<Rightarrow> inode_disk \<Rightarrow> nat \<Rightarrow> nat" where
  "sector_of v d i =
     (if i < DIRECT then dir_blocks d ! i
      else if i < DIRECT + INDIRECT then words_of_bytes (v (indir_block d)) ! (i - DIRECT)
      else let k = i - (DIRECT + INDIRECT) in
        words_of_bytes (v (words_of_bytes (v (d_indir_block d)) ! (k div INDIRECT))) ! (k mod INDIRECT))"

text \<open>The index blocks a file of \<open>n\<close> sectors uses.\<close>

definition index_sectors :: "(nat \<Rightarrow> byte list) \<Rightarrow> inode_disk \<Rightarrow> nat \<Rightarrow> nat list" where
  "index_sectors v d n =
     (if n > DIRECT then [indir_block d] else [])
     @ (if n > DIRECT + INDIRECT
        then d_indir_block d # map (\<lambda>k. words_of_bytes (v (d_indir_block d)) ! k) [0..<(n - (DIRECT + INDIRECT) + 127) div INDIRECT]
        else [])"

definition data_sectors :: "(nat \<Rightarrow> byte list) \<Rightarrow> inode_disk \<Rightarrow> nat \<Rightarrow> nat list" where
  "data_sectors v d n = map (sector_of v d) [0..<n]"

definition MAX_SECTORS :: nat where
  "MAX_SECTORS = DIRECT + INDIRECT + INDIRECT * INDIRECT"

definition sector_cnt :: "inode_disk \<Rightarrow> nat" where
  "sector_cnt d = (nat (ilen d) + 511) div 512"

definition inode_ok :: "nat \<Rightarrow> (nat \<Rightarrow> byte list) \<Rightarrow> inode_disk \<Rightarrow> bool" where
  "inode_ok lim v d = (0 \<le> ilen d \<and> sector_cnt d \<le> MAX_SECTORS \<and> length (dir_blocks d) = DIRECT
     \<and> distinct (index_sectors v d (sector_cnt d) @ data_sectors v d (sector_cnt d))
     \<and> (\<forall>a\<in>set (index_sectors v d (sector_cnt d) @ data_sectors v d (sector_cnt d)). a < lim))"

definition content :: "(nat \<Rightarrow> byte list) \<Rightarrow> inode_disk \<Rightarrow> byte list" where
  "content v d = map (\<lambda>i. v (sector_of v d (i div 512)) ! (i mod 512)) [0..<nat (ilen d)]"

lemma length_content [simp]: "length (content v d) = nat (ilen d)"
  by (simp add: content_def)

lemma content_nth: "i < nat (ilen d) \<Longrightarrow> content v d ! i = v (sector_of v d (i div 512)) ! (i mod 512)"
  by (simp add: content_def)

lemma byte_in_sector: "i < nat (ilen d) \<Longrightarrow> i div 512 < sector_cnt d"
  unfolding sector_cnt_def by linarith

lemma sector_ofI:
  assumes "inode_ok lim v d" "i < sector_cnt d"
  shows "sector_of v d i < lim" "sector_of v d i \<in> set (data_sectors v d (sector_cnt d))"
    "sector_of v d i \<notin> set (index_sectors v d (sector_cnt d))"
  using assms unfolding inode_ok_def data_sectors_def by auto

lemma sector_of_inj:
  assumes "inode_ok lim v d" "i < sector_cnt d" "j < sector_cnt d" "sector_of v d i = sector_of v d j"
  shows "i = j"
proof -
  have "inj_on (sector_of v d) (set [0..<sector_cnt d])"
    using assms(1) by (simp add: inode_ok_def data_sectors_def distinct_map)
  then show ?thesis using assms by (auto dest: inj_onD)
qed

text \<open>The map of a file's bytes depends on its index blocks only.\<close>

lemma dbl_index: "DIRECT + INDIRECT \<le> i \<Longrightarrow> i < n \<Longrightarrow> (i - (DIRECT + INDIRECT)) div INDIRECT < (n - (DIRECT + INDIRECT) + 127) div INDIRECT"
  unfolding DIRECT_def INDIRECT_def by linarith

lemma index_sectorsI:
  "i < n \<Longrightarrow> DIRECT \<le> i \<Longrightarrow> indir_block d \<in> set (index_sectors v d n)"
  "i < n \<Longrightarrow> DIRECT + INDIRECT \<le> i \<Longrightarrow> d_indir_block d \<in> set (index_sectors v d n)"
  "i < n \<Longrightarrow> DIRECT + INDIRECT \<le> i \<Longrightarrow>
     words_of_bytes (v (d_indir_block d)) ! ((i - (DIRECT + INDIRECT)) div INDIRECT) \<in> set (index_sectors v d n)"
  using dbl_index [of i n] by (auto simp: index_sectors_def)

lemma sector_of_cong:
  assumes "\<forall>a\<in>set (index_sectors v d n). w a = v a" "i < n"
  shows "sector_of w d i = sector_of v d i"
  using assms index_sectorsI [OF assms(2), where v = v and d = d] by (auto simp: sector_of_def Let_def)

lemma index_sectors_cong:
  assumes "\<forall>a\<in>set (index_sectors v d n). w a = v a"
  shows "index_sectors w d n = index_sectors v d n"
  using assms by (auto simp: index_sectors_def)

lemma data_sectors_cong:
  assumes "\<forall>a\<in>set (index_sectors v d n). w a = v a"
  shows "data_sectors w d n = data_sectors v d n"
  using sector_of_cong [OF assms] by (simp add: data_sectors_def)

lemma inode_ok_cong:
  assumes "\<forall>a\<in>set (index_sectors v d (sector_cnt d)). w a = v a"
  shows "inode_ok lim w d = inode_ok lim v d"
  unfolding inode_ok_def index_sectors_cong [OF assms] data_sectors_cong [OF assms] ..

lemma content_cong:
  assumes "\<forall>a\<in>set (index_sectors v d (sector_cnt d) @ data_sectors v d (sector_cnt d)). w a = v a"
  shows "content w d = content v d"
proof (rule nth_equalityI)
  fix i assume "i < length (content w d)"
  then have i: "i < nat (ilen d)" by simp
  then have "sector_of w d (i div 512) = sector_of v d (i div 512)"
    using assms byte_in_sector [OF i] by (intro sector_of_cong [of v d "sector_cnt d"]) auto
  moreover have "sector_of v d (i div 512) \<in> set (data_sectors v d (sector_cnt d))"
    using byte_in_sector [OF i] by (auto simp: data_sectors_def)
  ultimately show "content w d ! i = content v d ! i" using assms i by (simp add: content_nth)
qed simp

subsection \<open>Finding sectors\<close>

lemma sdiv_smod_512: "0 \<le> (x :: int) \<Longrightarrow> x sdiv 512 = x div 512" "0 \<le> (x :: int) \<Longrightarrow> x smod 512 = x mod 512"
  by (cases "x = 0"; simp add: signed_divide_int_def signed_modulo_int_def)+

lemma same_sector: "(a :: nat) mod 512 + j < 512 \<Longrightarrow> (a + j) div 512 = a div 512 \<and> (a + j) mod 512 = a mod 512 + j"
proof -
  assume r: "a mod 512 + j < 512"
  have "a + j = (a mod 512 + j) + a div 512 * 512" using mod_div_mult_eq [of a 512] by linarith
  then have "(a + j) div 512 = (a mod 512 + j) div 512 + a div 512" "(a + j) mod 512 = (a mod 512 + j) mod 512"
    by (metis div_mult_self1 zero_neq_numeral add.commute, metis mod_mult_self1)
  with r show ?thesis by simp
qed

lemma calloc_indir_step:
  assumes "bc_ok (bc st)" "\<forall>n. malloc_ok st n"
  shows "\<exists>st'. calloc_indir st = Some st' \<and> quiet st st'"
  using fs_malloc_step [OF assms] by (auto simp: calloc_indir_def)

lemma sector_number_spec:
  assumes "bc_ok (bc st)" "\<forall>n. malloc_ok st n" "i < MAX_SECTORS"
    "\<forall>a\<in>set (index_sectors (disk st) d (i + 1)). a < sectors st"
  shows "\<exists>st'. sector_number d (int i) st = Some (sector_of (disk st) d i, st') \<and> quiet st st'"
proof -
  have idx: "indir_block d < sectors st" if "DIRECT \<le> i"
    using assms(4) index_sectorsI(1) [where i = i and n = "i + 1" and d = d and v = "disk st"] that by auto
  consider "i < DIRECT" | "DIRECT \<le> i" "i < DIRECT + INDIRECT" | "DIRECT + INDIRECT \<le> i" by linarith
  then show ?thesis
  proof cases
    case 1
    then show ?thesis using quiet_refl [OF assms(1)] by (auto simp: sector_number_def sector_of_def)
  next
    case 2
    from calloc_indir_step [OF assms(1,2)] obtain s1 where s1: "calloc_indir st = Some s1" "quiet st s1" by blast
    note f1 = disk_stepD [OF s1(2)]
    from bc_read_step [OF f1(1), of "indir_block d"] idx 2 f1 obtain s2 where
      s2: "bc_read (indir_block d) s1 = Some (disk st (indir_block d), s2)" "quiet s1 s2" by auto
    have "quiet st s2" using disk_step_trans [OF s1(2) s2(2)] f1 by simp
    then show ?thesis using 2 s1 s2 by (auto simp: sector_number_def sector_of_def)
  next
    case 3
    let ?k = "(i - (DIRECT + INDIRECT)) div INDIRECT"
    let ?b = "words_of_bytes (disk st (d_indir_block d)) ! ?k"
    have db: "d_indir_block d < sectors st" "?b < sectors st"
      using assms(4) index_sectorsI(2,3) [where i = i and n = "i + 1" and d = d and v = "disk st"] 3 by auto
    from calloc_indir_step [OF assms(1,2)] obtain s1 where s1: "calloc_indir st = Some s1" "quiet st s1" by blast
    note f1 = disk_stepD [OF s1(2)]
    from bc_read_step [OF f1(1), of "d_indir_block d"] db f1 obtain s2 where
      s2: "bc_read (d_indir_block d) s1 = Some (disk st (d_indir_block d), s2)" "quiet s1 s2" by auto
    note f2 = disk_stepD [OF s2(2)]
    from bc_read_step [OF f2(1), of ?b] db f1 f2 obtain s3 where
      s3: "bc_read ?b s2 = Some (disk st ?b, s3)" "quiet s2 s3" by auto
    have "quiet st s3" using disk_step_trans [OF s1(2) disk_step_trans [OF s2(2) s3(2)]] f1 f2 by simp
    then show ?thesis using 3 s1 s2 s3 assms(3)
      by (auto simp: sector_number_def sector_of_def Let_def MAX_SECTORS_def)
  qed
qed

lemma index_sectors_mono: "m \<le> n \<Longrightarrow> set (index_sectors v d m) \<subseteq> set (index_sectors v d n)"
proof -
  assume mn: "m \<le> n"
  then have "(m - (DIRECT + INDIRECT) + 127) div INDIRECT \<le> (n - (DIRECT + INDIRECT) + 127) div INDIRECT"
    by (intro div_le_mono) simp
  with mn show ?thesis unfolding index_sectors_def by auto
qed

text \<open>An inode in memory whose sectors are in order, in a state where memory is there.\<close>

definition opened :: "fs \<Rightarrow> ptr \<Rightarrow> inode \<Rightarrow> bool" where
  "opened st p i = (bc_ok (bc st) \<and> (\<forall>n. malloc_ok st n) \<and> inode_of st p = Some i \<and> inode_ok (sectors st) (disk st) (idata i))"

lemma opened_quiet: "opened st p i \<Longrightarrow> quiet st st' \<Longrightarrow> opened st' p i"
  using disk_stepD [of st "disk st" st'] by (simp add: opened_def)

lemma byte_to_sector_spec:
  assumes "opened st p i" "0 \<le> pos" "pos < ilen (idata i)"
  shows "\<exists>st'. byte_to_sector p pos st = Some (sector_of (disk st) (idata i) (nat pos div 512), st') \<and> quiet st st'"
proof -
  let ?d = "idata i"
  let ?k = "nat pos div 512"
  have k: "?k < sector_cnt ?d" using assms(2,3) by (intro byte_in_sector) linarith
  have ok: "inode_ok (sectors st) (disk st) ?d" and st: "bc_ok (bc st)" "\<forall>n. malloc_ok st n" "inode_of st p = Some i"
    using assms(1) by (auto simp: opened_def)
  have "set (index_sectors (disk st) ?d (?k + 1)) \<subseteq> set (index_sectors (disk st) ?d (sector_cnt ?d))"
    using k by (intro index_sectors_mono) simp
  then have "\<forall>a\<in>set (index_sectors (disk st) ?d (?k + 1)). a < sectors st" using ok by (auto simp: inode_ok_def)
  moreover have "?k < MAX_SECTORS" using k ok by (simp add: inode_ok_def)
  ultimately obtain st' where "sector_number ?d (int ?k) st = Some (sector_of (disk st) ?d ?k, st')" "quiet st st'"
    using sector_number_spec [OF st(1,2), of ?k ?d] by auto
  moreover have "pos sdiv 512 = int ?k" using assms(2) by (simp add: sdiv_smod_512 zdiv_int)
  ultimately show ?thesis using assms(3) st(3) by (auto simp: byte_to_sector_def)
qed

lemma byte_to_sector_outside:
  "inode_of st p = Some i \<Longrightarrow> ilen (idata i) \<le> pos \<Longrightarrow> byte_to_sector p pos st = Some (NO_SECTOR, st)"
  by (simp add: byte_to_sector_def)

subsection \<open>Reading\<close>

lemma get_bounce_step:
  assumes "bc_ok (bc st)" "\<forall>n. malloc_ok st n"
  shows "\<exists>st'. get_bounce b st = (True, st') \<and> quiet st st'"
  using quiet_refl [OF assms(1)] fs_malloc_step [OF assms] by (cases b) (auto simp: get_bounce_def)

text \<open>The bytes of a chunk lie in one sector.\<close>

lemma chunk_in_sector:
  assumes "length (v (sector_of v d (o' div 512))) = BLOCK_SECTOR_SIZE" "o' + k \<le> nat (ilen d)" "o' mod 512 + k \<le> 512"
  shows "take k (drop (o' mod 512) (v (sector_of v d (o' div 512)))) = take k (drop o' (content v d))"
proof (rule nth_equalityI)
  show "length (take k (drop (o' mod 512) (v (sector_of v d (o' div 512))))) = length (take k (drop o' (content v d)))"
    using assms by (simp add: BLOCK_SECTOR_SIZE_def)
  fix j assume "j < length (take k (drop (o' mod 512) (v (sector_of v d (o' div 512)))))"
  then have j: "j < k" using assms by (simp add: BLOCK_SECTOR_SIZE_def)
  then have "(o' + j) div 512 = o' div 512" "(o' + j) mod 512 = o' mod 512 + j"
    using same_sector [of o' j] assms(3) by simp_all
  then show "take k (drop (o' mod 512) (v (sector_of v d (o' div 512)))) ! j = take k (drop o' (content v d)) ! j"
    using j assms by (simp add: content_nth BLOCK_SECTOR_SIZE_def)
qed

lemma opened_length: "opened st p i \<Longrightarrow> s \<in> set (data_sectors (disk st) (idata i) (sector_cnt (idata i)))
    \<Longrightarrow> s < sectors st \<and> length (disk st s) = BLOCK_SECTOR_SIZE"
  using cache.view_length [of "bc st" s] by (auto simp: opened_def inode_ok_def)

lemma chunk_bounds:
  assumes "0 \<le> ofs" "ofs < l" "0 < sz"
  defines "k \<equiv> chunk_size sz (l - ofs) (512 - ofs smod 512)"
  shows "0 < k" "k \<le> sz" "nat ofs + nat k \<le> nat l" "nat ofs mod 512 + nat k \<le> 512" "ofs smod 512 = int (nat ofs mod 512)"
proof -
  obtain o' where o': "ofs = int o'" using assms(1) nonneg_int_cases by blast
  have m: "ofs smod 512 = int (o' mod 512)" by (simp add: o' sdiv_smod_512 zmod_int)
  then show "ofs smod 512 = int (nat ofs mod 512)" by (simp add: o')
  have "o' mod 512 < 512" by simp
  then have "0 < k \<and> k \<le> sz \<and> ofs + k \<le> l \<and> int (o' mod 512) + k \<le> 512"
    unfolding k_def chunk_size_def Let_def m using assms by auto
  then show "0 < k" "k \<le> sz" "nat ofs + nat k \<le> nat l" "nat ofs mod 512 + nat k \<le> 512"
    using assms by (auto simp: o')
qed

lemma read_loop_spec:
  assumes "opened st p i" "0 \<le> ofs"
  shows "\<exists>st'. read_loop p sz ofs b acc st
      = Some (acc @ take (nat sz) (drop (nat ofs) (content (disk st) (idata i))), st') \<and> quiet st st'"
  using assms
proof (induction "nat sz" arbitrary: sz ofs b acc st rule: less_induct)
  case less
  let ?d = "idata i"
  let ?c = "content (disk st) ?d"
  note op = less.prems(1)
  have st: "bc_ok (bc st)" "\<forall>n. malloc_ok st n" "inode_of st p = Some i" using op by (auto simp: opened_def)
  consider "sz \<le> 0" | "sz > 0" "ilen ?d \<le> ofs" | "sz > 0" "ofs < ilen ?d" by linarith
  then show ?case
  proof cases
    case 1
    then show ?thesis using quiet_refl [OF st(1)] by (subst read_loop.simps) auto
  next
    case 2
    then have "byte_to_sector p ofs st = Some (NO_SECTOR, st)" by (intro byte_to_sector_outside [OF st(3)])
    moreover have "chunk_size sz (ilen ?d - ofs) (512 - ofs smod 512) \<le> 0" using 2 by (auto simp: chunk_size_def Let_def)
    ultimately show ?thesis using 2 st quiet_refl [OF st(1)] by (subst read_loop.simps) (auto simp: inode_length_def)
  next
    case 3
    define s where "s = sector_of (disk st) ?d (nat ofs div 512)"
    define k where "k = chunk_size sz (ilen ?d - ofs) (512 - ofs smod 512)"
    have k: "0 < k" "k \<le> sz" "nat ofs + nat k \<le> nat (ilen ?d)" "nat ofs mod 512 + nat k \<le> 512"
      and m: "ofs smod 512 = int (nat ofs mod 512)"
      using chunk_bounds [OF less.prems(2) 3(2,1)] by (auto simp: k_def)
    from byte_to_sector_spec [OF op less.prems(2) 3(2)] obtain s1 where
      s1: "byte_to_sector p ofs st = Some (s, s1)" "quiet st s1" by (auto simp: s_def)
    note f1 = disk_stepD [OF s1(2)]
    have sin: "s \<in> set (data_sectors (disk st) ?d (sector_cnt ?d))"
      using op sector_ofI(2) byte_in_sector [of "nat ofs" ?d] 3(2) less.prems(2) by (auto simp: s_def opened_def)
    from get_bounce_step [of s1 b] f1 st obtain s2 where s2: "get_bounce b s1 = (True, s2)" "quiet s1 s2" by auto
    have q2: "quiet st s2" using disk_step_trans [OF s1(2) s2(2)] f1 by simp
    have rd: "\<exists>s''. bc_read s s' = Some (disk st s, s'') \<and> quiet st s''" if "quiet st s'" for s'
      using bc_read_step [of s' s] disk_stepD [OF that] opened_length [OF op sin] disk_step_trans [OF that] by fastforce
    have chunk: "take (nat k) (drop (nat ofs mod 512) (disk st s)) = take (nat k) (drop (nat ofs) ?c)"
      unfolding s_def using k opened_length [OF op sin] by (intro chunk_in_sector) (auto simp: s_def)
    have step: "\<exists>st'. read_loop p (sz - k) (ofs + k) b' (acc @ take (nat k) (drop (nat ofs) ?c)) s'
        = Some (acc @ take (nat sz) (drop (nat ofs) ?c), st') \<and> quiet st st'" if "quiet st s'" for s' b'
    proof -
      have d: "disk s' = disk st" using disk_stepD [OF that] by simp
      have "take (nat sz) (drop (nat ofs) ?c) = take (nat k) (drop (nat ofs) ?c) @ take (nat (sz - k)) (drop (nat (ofs + k)) ?c)"
      proof -
        have "nat sz = nat k + nat (sz - k)" "nat (ofs + k) = nat k + nat ofs" using k(1,2) less.prems(2) by simp_all
        then show ?thesis by (simp add: take_add del: take_drop)
      qed
      moreover have "nat (sz - k) < nat sz" using k by linarith
      ultimately show ?thesis
        using less.hyps [of "sz - k" s' "ofs + k" b' "acc @ take (nat k) (drop (nat ofs) ?c)"]
          opened_quiet [OF op that] k less.prems(2) disk_step_trans [OF that] d by fastforce
    qed
    have unfold: "read_loop p sz ofs b acc st =
        (if ofs smod 512 = 0 \<and> k = 512 then do {
           (buf, st) \<leftarrow> bc_read s s1;
           read_loop p (sz - k) (ofs + k) b (acc @ buf) st }
         else do {
           (buf, st) \<leftarrow> bc_read s s2;
           read_loop p (sz - k) (ofs + k) True (acc @ take (nat k) (drop (nat (ofs smod 512)) buf)) st })"
      using 3(1) s1(1) s2(1) f1(4) st(3) k(1) unfolding k_def
      by (subst read_loop.simps) (simp add: inode_length_def Let_def split del: if_split cong del: if_weak_cong)
    show ?thesis
    proof (cases "ofs smod 512 = 0 \<and> k = 512")
      case True
      from rd [OF s1(2)] obtain s' where s': "bc_read s s1 = Some (disk st s, s')" "quiet st s'" by auto
      have "disk st s = take (nat k) (drop (nat ofs) ?c)"
        using chunk m True opened_length [OF op sin] by (simp add: BLOCK_SECTOR_SIZE_def)
      with step [OF s'(2), of b] s'(1) True show ?thesis unfolding unfold by auto
    next
      case False
      from rd [OF q2] obtain s' where s': "bc_read s s2 = Some (disk st s, s')" "quiet st s'" by auto
      with step [OF s'(2), of True] s'(1) False chunk m show ?thesis unfolding unfold by auto
    qed
  qed
qed

lemma inode_read_at_spec:
  assumes "opened st p i" "0 \<le> ofs"
  shows "\<exists>st'. inode_read_at p sz ofs st = Some (take (nat sz) (drop (nat ofs) (content (disk st) (idata i))), st') \<and> quiet st st'"
  using read_loop_spec [OF assms, of sz False "[]"] by (simp add: inode_read_at_def)

subsection \<open>Writing\<close>

text \<open>A segment of a list is replaced.\<close>

definition patch :: "nat \<Rightarrow> 'a list \<Rightarrow> 'a list \<Rightarrow> 'a list" where
  "patch ofs bs c = take ofs c @ bs @ drop (ofs + length bs) c"

lemma length_patch [simp]: "ofs + length bs \<le> length c \<Longrightarrow> length (patch ofs bs c) = length c"
  by (simp add: patch_def)

lemma patch_nil [simp]: "patch ofs [] c = c"
  by (simp add: patch_def)

lemma patch_nth: "ofs + length bs \<le> length c \<Longrightarrow> i < length c \<Longrightarrow>
    patch ofs bs c ! i = (if ofs \<le> i \<and> i < ofs + length bs then bs ! (i - ofs) else c ! i)"
  by (auto simp: patch_def nth_append min_def)

lemma patch_patch: "ofs + length xs + length ys \<le> length c \<Longrightarrow>
    patch (ofs + length xs) ys (patch ofs xs c) = patch ofs (xs @ ys) c"
  by (rule nth_equalityI) (auto simp: patch_nth nth_append)

lemma take_drop_patch: "ofs + length bs \<le> length c \<Longrightarrow> take (length bs) (drop ofs (patch ofs bs c)) = bs"
  by (simp add: patch_def)

text \<open>Replacing a segment of one of a file's sectors replaces the segment of its content.\<close>

lemma content_patch:
  assumes "inode_ok lim v d" "o' + length bs \<le> nat (ilen d)" "o' mod 512 + length bs \<le> 512" "bs \<noteq> []"
    "length (v (sector_of v d (o' div 512))) = BLOCK_SECTOR_SIZE"
  defines "s \<equiv> sector_of v d (o' div 512)"
  shows "content (v(s := patch (o' mod 512) bs (v s))) d = patch o' bs (content v d)"
proof (rule nth_equalityI)
  let ?w = "v(s := patch (o' mod 512) bs (v s))"
  have o: "o' < nat (ilen d)" using assms(2,4) by (cases bs) auto
  note sin = sector_ofI [OF assms(1) byte_in_sector [OF o], folded s_def]
  have idx: "sector_of ?w d j = sector_of v d j" if "j < sector_cnt d" for j
    using sin(3) by (intro sector_of_cong [OF _ that]) auto
  show "length (content ?w d) = length (patch o' bs (content v d))" using assms(2) by simp
  fix i assume "i < length (content ?w d)"
  then have i: "i < nat (ilen d)" by simp
  have len: "length (v s) = 512" using assms(5) by (simp add: s_def BLOCK_SECTOR_SIZE_def)
  have hit: "sector_of v d (i div 512) = s \<longleftrightarrow> i div 512 = o' div 512"
    using sector_of_inj [OF assms(1) byte_in_sector [OF i] byte_in_sector [OF o]] by (auto simp: s_def)
  have i_eq: "i = i div 512 * 512 + i mod 512" and o_eq: "o' = o' div 512 * 512 + o' mod 512" by simp_all
  have lhs: "content ?w d ! i = (if i div 512 = o' div 512 then patch (o' mod 512) bs (v s) ! (i mod 512) else content v d ! i)"
    using i idx [OF byte_in_sector [OF i]] hit by (simp add: content_nth)
  show "content ?w d ! i = patch o' bs (content v d) ! i"
  proof (cases "i div 512 = o' div 512")
    case True
    then have *: "i - o' = i mod 512 - o' mod 512" "o' \<le> i \<longleftrightarrow> o' mod 512 \<le> i mod 512"
      "i < o' + length bs \<longleftrightarrow> i mod 512 < o' mod 512 + length bs"
      using i_eq o_eq by linarith+
    have "content v d ! i = v s ! (i mod 512)" using i hit True by (simp add: content_nth)
    then show ?thesis using True lhs assms(2,3) len i * by (simp add: patch_nth)
  next
    case False
    have "\<not> (o' \<le> i \<and> i < o' + length bs)"
    proof
      assume a: "o' \<le> i \<and> i < o' + length bs"
      then have "i = o' + (i - o')" "o' mod 512 + (i - o') < 512" using assms(3) by auto
      then have "i div 512 = o' div 512" using same_sector [of o' "i - o'"] by simp
      with False show False by simp
    qed
    then show ?thesis using False lhs assms(2) i by (auto simp: patch_nth)
  qed
qed

text \<open>What lies in a file's last sector behind its end.\<close>

definition slack :: "(nat \<Rightarrow> byte list) \<Rightarrow> inode_disk \<Rightarrow> byte list" where
  "slack v d = map (\<lambda>i. v (sector_of v d (i div 512)) ! (i mod 512)) [nat (ilen d)..<512 * sector_cnt d]"

lemma slack_patch:
  assumes "inode_ok lim v d" "o' + length bs \<le> nat (ilen d)" "o' mod 512 + length bs \<le> 512" "bs \<noteq> []"
    "length (v (sector_of v d (o' div 512))) = BLOCK_SECTOR_SIZE"
  defines "s \<equiv> sector_of v d (o' div 512)"
  shows "slack (v(s := patch (o' mod 512) bs (v s))) d = slack v d"
  unfolding slack_def
proof (rule map_cong [OF refl])
  let ?w = "v(s := patch (o' mod 512) bs (v s))"
  have o: "o' < nat (ilen d)" using assms(2,4) by (cases bs) auto
  note sin = sector_ofI [OF assms(1) byte_in_sector [OF o], folded s_def]
  fix i assume "i \<in> set [nat (ilen d)..<512 * sector_cnt d]"
  then have i: "nat (ilen d) \<le> i" "i div 512 < sector_cnt d" by auto
  have idx: "sector_of ?w d (i div 512) = sector_of v d (i div 512)"
    using sin(3) by (intro sector_of_cong [OF _ i(2)]) auto
  have len: "length (v s) = 512" using assms(5) by (simp add: s_def BLOCK_SECTOR_SIZE_def)
  show "?w (sector_of ?w d (i div 512)) ! (i mod 512) = v (sector_of v d (i div 512)) ! (i mod 512)"
  proof (cases "sector_of v d (i div 512) = s")
    case True
    then have "i div 512 = o' div 512"
      using sector_of_inj [OF assms(1) i(2) byte_in_sector [OF o]] by (simp add: s_def)
    moreover have "i = i div 512 * 512 + i mod 512" "o' = o' div 512 * 512 + o' mod 512" by simp_all
    ultimately have "\<not> i mod 512 < o' mod 512 + length bs" using i(1) assms(2) by linarith
    then show ?thesis using True idx assms(3) len by (simp add: patch_nth)
  qed (simp add: idx)
qed

text \<open>A disk that differs from another only in a file's data sectors.\<close>

definition data_only :: "inode_disk \<Rightarrow> (nat \<Rightarrow> byte list) \<Rightarrow> (nat \<Rightarrow> byte list) \<Rightarrow> bool" where
  "data_only d v w = (\<forall>a. a \<notin> set (data_sectors v d (sector_cnt d)) \<longrightarrow> w a = v a)"

lemma data_only_index:
  assumes "inode_ok lim v d" "data_only d v w"
  shows "\<forall>a\<in>set (index_sectors v d (sector_cnt d)). w a = v a"
  using assms unfolding inode_ok_def data_only_def by auto

lemma data_only_trans:
  assumes "inode_ok lim v d" "data_only d v w" "data_only d w u"
  shows "data_only d v u"
  using assms data_sectors_cong [OF data_only_index [OF assms(1,2)]] by (simp add: data_only_def)

lemma opened_write:
  assumes "opened st p i" "disk_step st w st'" "data_only (idata i) (disk st) w"
  shows "opened st' p i"
  using assms disk_stepD [OF assms(2)] inode_ok_cong [OF data_only_index [OF _ assms(3)]]
  by (auto simp: opened_def)

lemma write_sector_step:
  assumes "opened st p i" "o' + length bs \<le> nat (ilen (idata i))" "o' mod 512 + length bs \<le> 512" "bs \<noteq> []"
    "quiet st s1"
  defines "s \<equiv> sector_of (disk st) (idata i) (o' div 512)"
  shows "\<exists>s2 w. bc_write s (patch (o' mod 512) bs (disk st s)) s1 = Some s2 \<and> disk_step st w s2
    \<and> data_only (idata i) (disk st) w \<and> content w (idata i) = patch o' bs (content (disk st) (idata i))
    \<and> slack w (idata i) = slack (disk st) (idata i)"
proof -
  let ?w = "(disk st)(s := patch (o' mod 512) bs (disk st s))"
  note f = disk_stepD [OF assms(5)]
  have "o' < nat (ilen (idata i))" using assms(2,4) by (cases bs) auto
  then have sin: "s \<in> set (data_sectors (disk st) (idata i) (sector_cnt (idata i)))"
    using assms(1) sector_ofI(2) byte_in_sector by (auto simp: s_def opened_def)
  note len = opened_length [OF assms(1) sin]
  then have "length (patch (o' mod 512) bs (disk st s)) = BLOCK_SECTOR_SIZE"
    using assms(3) by (simp add: BLOCK_SECTOR_SIZE_def)
  with bc_write_step [OF f(1), of s] f len obtain s2 where
    s2: "bc_write s (patch (o' mod 512) bs (disk st s)) s1 = Some s2" "disk_step s1 ?w s2" by auto
  moreover have "content ?w (idata i) = patch o' bs (content (disk st) (idata i))"
    using assms(1) len content_patch [of "sectors st" "disk st" "idata i" o' bs] assms(2-4)
    by (auto simp: s_def opened_def)
  moreover have "slack ?w (idata i) = slack (disk st) (idata i)"
    using assms(1) len slack_patch [of "sectors st" "disk st" "idata i" o' bs] assms(2-4)
    by (auto simp: s_def opened_def)
  moreover have "data_only (idata i) (disk st) ?w" using sin by (auto simp: data_only_def)
  ultimately show ?thesis using disk_step_trans [OF assms(5) s2(2)] by blast
qed

lemma min_shift: "(k :: nat) \<le> r \<Longrightarrow> a + k \<le> l \<Longrightarrow> min r (l - a) = k + min (r - k) (l - (a + k))"
  by linarith

lemma min_fits: "(a :: nat) \<le> l \<Longrightarrow> a + min r (l - a) \<le> l"
  by linarith

lemma write_loop_spec:
  assumes "opened st p i" "0 \<le> ofs" "n = min (length rest) (nat (ilen (idata i)) - nat ofs)"
  shows "\<exists>st' w. write_loop p rest ofs b written st = Some (written + int n, st') \<and> disk_step st w st'
    \<and> data_only (idata i) (disk st) w \<and> content w (idata i) = patch (nat ofs) (take n rest) (content (disk st) (idata i))
    \<and> slack w (idata i) = slack (disk st) (idata i)"
  using assms
proof (induction "length rest" arbitrary: rest ofs n b written st rule: less_induct)
  case less
  let ?d = "idata i"
  let ?c = "content (disk st) ?d"
  note op = less.prems(1)
  have st: "bc_ok (bc st)" "\<forall>n. malloc_ok st n" "inode_of st p = Some i" using op by (auto simp: opened_def)
  have stop: ?case if "n = 0" "write_loop p rest ofs b written st = Some (written, st)"
    using that quiet_refl [OF st(1)] by (intro exI [of _ st] exI [of _ "disk st"]) (auto simp: data_only_def)
  consider "rest = []" | "rest \<noteq> []" "ilen ?d \<le> ofs" | "rest \<noteq> []" "ofs < ilen ?d" by linarith
  then show ?case
  proof cases
    case 1
    then show ?thesis using less.prems(3) by (intro stop) (auto simp: write_loop.simps)
  next
    case 2
    then have "byte_to_sector p ofs st = Some (NO_SECTOR, st)" by (intro byte_to_sector_outside [OF st(3)])
    moreover have "chunk_size (int (length rest)) (ilen ?d - ofs) (512 - ofs smod 512) \<le> 0" using 2 by (auto simp: chunk_size_def Let_def)
    ultimately have "write_loop p rest ofs b written st = Some (written, st)"
      using 2 st by (subst write_loop.simps) (auto simp: inode_length_def)
    then show ?thesis using 2 less.prems by (intro stop) auto
  next
    case 3
    obtain o' where o': "ofs = int o'" using less.prems(2) nonneg_int_cases by blast
    define s where "s = sector_of (disk st) ?d (o' div 512)"
    define k where "k = chunk_size (int (length rest)) (ilen ?d - ofs) (512 - ofs smod 512)"
    have "0 < int (length rest)" using 3(1) by simp
    note cb = chunk_bounds [OF less.prems(2) 3(2) this]
    have k: "0 < k" "k \<le> int (length rest)" "o' + nat k \<le> nat (ilen ?d)" "o' mod 512 + nat k \<le> 512" and m: "ofs smod 512 = int (o' mod 512)"
      using cb by (auto simp: k_def o')
    let ?bs = "take (nat k) rest"
    have bs: "length ?bs = nat k" "?bs \<noteq> []" using k(1,2) 3(1) by auto
    from byte_to_sector_spec [OF op less.prems(2) 3(2)] obtain s1 where
      s1: "byte_to_sector p ofs st = Some (s, s1)" "quiet st s1" by (auto simp: s_def o')
    note f1 = disk_stepD [OF s1(2)]
    have sin: "s \<in> set (data_sectors (disk st) ?d (sector_cnt ?d))"
      using op sector_ofI(2) byte_in_sector [of o' ?d] 3(2) by (auto simp: s_def o' opened_def)
    note len = opened_length [OF op sin]
    from get_bounce_step [of s1 b] f1 st obtain s2 where s2: "get_bounce b s1 = (True, s2)" "quiet s1 s2" by auto
    have q2: "quiet st s2" using disk_step_trans [OF s1(2) s2(2)] f1 by simp
    note f2 = disk_stepD [OF q2]
    have after: ?thesis if "write_loop p rest ofs b written st = do {
           st \<leftarrow> bc_write s (patch (o' mod 512) ?bs (disk st s)) s'; write_loop p (drop (nat k) rest) (ofs + k) b' (written + k) st }"
      and "quiet st s'" for s' b'
    proof -
      from write_sector_step [OF op _ _ bs(2) that(2), of o'] k(3,4) bs(1) obtain s3 w where
        s3: "bc_write s (patch (o' mod 512) ?bs (disk st s)) s' = Some s3" "disk_step st w s3"
          "data_only ?d (disk st) w" "content w ?d = patch o' ?bs ?c" "slack w ?d = slack (disk st) ?d" by (auto simp: s_def)
      note f3 = disk_stepD [OF s3(2)]
      define n' where "n' = min (length (drop (nat k) rest)) (nat (ilen ?d) - nat (ofs + k))"
      have ofk: "nat (ofs + k) = o' + nat k" using k(1) by (simp add: o' nat_add_distrib)
      have "nat k \<le> length rest" using k(2) by linarith
      then have n': "n = nat k + n'" unfolding n'_def ofk using min_shift [of "nat k" "length rest" o'] k(3) less.prems(3) by (simp add: o')
      have "length (drop (nat k) rest) < length rest" using k 3(1) by simp
      from less.hyps [OF this opened_write [OF op s3(2,3)] _ n'_def, of b' "written + k"] k(1) o' obtain s4 u where
        s4: "write_loop p (drop (nat k) rest) (ofs + k) b' (written + k) s3 = Some (written + k + int n', s4)" "disk_step s3 u s4"
          "data_only ?d w u" "content u ?d = patch (nat (ofs + k)) (take n' (drop (nat k) rest)) (content w ?d)"
          "slack u ?d = slack w ?d"
        using f3(2) by auto
      have le: "o' + length ?bs + length (take n' (drop (nat k) rest)) \<le> length ?c"
        unfolding n'_def ofk using min_fits [OF k(3)] bs(1) by simp
      have e1: "nat (ofs + k) = o' + length ?bs" using ofk bs(1) by simp
      have e2: "?bs @ take n' (drop (nat k) rest) = take n rest" by (simp add: n' take_add)
      have "content u ?d = patch o' (take n rest) ?c"
        using s4(4) unfolding s3(4) e1 using patch_patch [OF le] unfolding e2 by metis
      moreover have "data_only ?d (disk st) u"
        using data_only_trans [OF _ s3(3) s4(3)] op by (auto simp: opened_def)
      moreover have "written + k + int n' = written + int n" using k(1) by (simp add: n')
      ultimately show ?thesis using that(1) s3(1,5) s4(1,5) disk_step_trans [OF s3(2) s4(2)] by (auto simp: o')
    qed
    have unfold: "write_loop p rest ofs b written st =
        (if ofs smod 512 = 0 \<and> k = 512 then do {
           st \<leftarrow> bc_write s (take 512 rest) s1; write_loop p (drop (nat k) rest) (ofs + k) b (written + k) st }
         else do {
           (buf, st) \<leftarrow> (if ofs smod 512 > 0 \<or> k < 512 - ofs smod 512 then bc_read s s2 else Some (zeros, s2));
           st \<leftarrow> bc_write s (take (nat (ofs smod 512)) buf @ ?bs @ drop (nat (ofs smod 512 + k)) buf) st;
           write_loop p (drop (nat k) rest) (ofs + k) True (written + k) st })"
      using 3(1) s1(1) s2(1) f1(4) st(3) k(1) unfolding k_def
      by (subst write_loop.simps) (simp add: inode_length_def Let_def split del: if_split cong del: if_weak_cong)
    show ?thesis
    proof (cases "ofs smod 512 = 0 \<and> k = 512")
      case True
      then have "patch (o' mod 512) ?bs (disk st s) = take 512 rest"
        using m len bs(1) by (simp add: patch_def BLOCK_SECTOR_SIZE_def)
      with True show ?thesis by (intro after [OF _ s1(2), of b]) (simp add: unfold)
    next
      case False
      then have rd: "ofs smod 512 > 0 \<or> k < 512 - ofs smod 512" using k(4) m by auto
      from bc_read_step [OF f2(1), of s] len f2 obtain s3 where
        s3: "bc_read s s2 = Some (disk st s, s3)" "quiet s2 s3" by auto
      have "quiet st s3" using disk_step_trans [OF q2 s3(2)] f2 by simp
      moreover have "take (nat (ofs smod 512)) (disk st s) @ ?bs @ drop (nat (ofs smod 512 + k)) (disk st s)
          = patch (o' mod 512) ?bs (disk st s)"
        using m k(1) bs(1) by (simp add: patch_def nat_add_distrib)
      ultimately show ?thesis using s3(1)
        by (intro after [of s3 True]) (simp_all only: unfold if_not_P [OF False] if_P [OF rd] bind.bind_lunit prod.case)
    qed
  qed
qed

text \<open>A write inside the file.  \<open>NO_SECTOR\<close> is not one of the device's sectors.\<close>

lemma inode_write_at_spec:
  assumes "opened st p i" "deny_write_cnt i = 0" "sectors st \<le> NO_SECTOR" "buf \<noteq> []"
    "int o' + int (length buf) \<le> ilen (idata i)" "ilen (idata i) < 2 ^ 31"
  shows "\<exists>st' w. inode_write_at alloc p buf (int o') st = Some (int (length buf), st') \<and> disk_step st w st'
    \<and> data_only (idata i) (disk st) w \<and> content w (idata i) = patch o' buf (content (disk st) (idata i))
    \<and> slack w (idata i) = slack (disk st) (idata i)"
proof -
  let ?l = "int o' + int (length buf)"
  have l: "int32 ?l = ?l" using assms(5,6) by (intro int32_id) auto
  have "0 < length buf" using assms(4) by simp
  then have pos: "0 \<le> ?l - 1" "?l - 1 < ilen (idata i)" using assms(5) by linarith+
  from byte_to_sector_spec [OF assms(1) pos] obtain s1 where
    s1: "byte_to_sector p (?l - 1) st = Some (sector_of (disk st) (idata i) (nat (?l - 1) div 512), s1)" "quiet st s1" by blast
  have "sector_of (disk st) (idata i) (nat (?l - 1) div 512) < sectors st"
    using assms(1) sector_ofI(1) byte_in_sector [of "nat (?l - 1)" "idata i"] pos by (auto simp: opened_def)
  then have "inode_grow alloc p ?l st = Some (True, s1)" using s1(1) assms(3) by (simp add: inode_grow_def)
  moreover have "length buf = min (length buf) (nat (ilen (idata i)) - nat (int o'))" using assms(5) by simp
  from write_loop_spec [OF opened_quiet [OF assms(1) s1(2)] _ this, of False 0] obtain s2 w where
    "write_loop p buf (int o') False 0 s1 = Some (int (length buf), s2)" "disk_step s1 w s2"
      "data_only (idata i) (disk st) w" "content w (idata i) = patch o' buf (content (disk st) (idata i))"
      "slack w (idata i) = slack (disk st) (idata i)"
    using disk_stepD(2) [OF s1(2)] by auto
  ultimately show ?thesis using assms(1,2) disk_step_trans [OF s1(2)]
    by (auto simp: inode_write_at_def opened_def l)
qed

end
