(* ===== verification/SectorAllocator.thy ===== *)
theory SectorAllocator imports FreeMap InodeContent begin

section \<open>Allocating sectors\<close>

text \<open>
  What the operations that allocate ask of the allocator: the locale \<open>sector_allocator\<close>.  It hands out
  free sectors, each once, and changes no sector of the disk but its own.  \<open>free_map_allocate\<close> provides
  it, both while the free map has no file yet and when each allocation writes the map to its file.
\<close>

definition same_heap :: "fs \<Rightarrow> fs \<Rightarrow> bool" where
  "same_heap st st' = (\<exists>c b n. st' = st\<lparr>bc := c, free_map := b, heap_next := n\<rparr>)"

lemma same_heap_refl [simp]: "same_heap st st"
  unfolding same_heap_def by (rule exI [of _ "bc st"], rule exI [of _ "free_map st"], rule exI [of _ "heap_next st"]) simp

lemma same_heap_trans: "same_heap st st' \<Longrightarrow> same_heap st' st'' \<Longrightarrow> same_heap st st''"
  unfolding same_heap_def
  by (rule exI [of _ "bc st''"], rule exI [of _ "free_map st''"], rule exI [of _ "heap_next st''"]) auto

lemma same_heapD:
  assumes "same_heap st st'"
  shows "inode_of st' = inode_of st" "file_of st' = file_of st" "dir_of st' = dir_of st" "malloc_ok st' = malloc_ok st"
    "free_map_file st' = free_map_file st" "open_inodes st' = open_inodes st" "cwd st' = cwd st"
  using assms by (auto simp: same_heap_def)

lemma disk_step_heap: "disk_step st w st' \<Longrightarrow> same_heap st st'"
proof -
  assume "disk_step st w st'"
  then obtain c n where "st' = st\<lparr>bc := c, heap_next := n\<rparr>" by (auto simp: disk_step_def)
  then have "st' = st\<lparr>bc := c, free_map := free_map st, heap_next := n\<rparr>" by simp
  then show ?thesis unfolding same_heap_def by blast
qed

locale sector_allocator =
  fixes alloc :: allocator and ok :: "fs \<Rightarrow> bool" and free :: "fs \<Rightarrow> nat set" and sys :: "fs \<Rightarrow> nat set"
  assumes ok_disk: "ok st \<Longrightarrow> bc_ok (bc st) \<and> sectors st < 2 ^ 32"
    and free_range: "ok st \<Longrightarrow> a \<in> free st \<Longrightarrow> 0 < a \<and> a < sectors st \<and> a \<notin> sys st"
    and alloc_spec: "ok st \<Longrightarrow> free st \<noteq> {} \<Longrightarrow> \<exists>a st'. alloc st = Some (Some a, st') \<and> ok st' \<and> a \<in> free st
      \<and> free st' = free st - {a} \<and> sys st' = sys st \<and> sectors st' = sectors st \<and> same_heap st st'
      \<and> (\<forall>b. b \<notin> sys st \<longrightarrow> disk st' b = disk st b)"
    and alloc_full: "ok st \<Longrightarrow> free st = {} \<Longrightarrow> \<exists>st'. alloc st = Some (None, st') \<and> ok st' \<and> free st' = {} \<and> sys st' = sys st
      \<and> sectors st' = sectors st \<and> same_heap st st' \<and> disk st' = disk st"
    and write_ok: "ok st \<Longrightarrow> disk_step st w st' \<Longrightarrow> \<forall>a\<in>sys st. w a = disk st a
      \<Longrightarrow> ok st' \<and> free st' = free st \<and> sys st' = sys st"

subsection \<open>The free map\<close>

definition free_sectors :: "fs \<Rightarrow> nat set" where
  "free_sectors st = {a. a < bit_cnt (free_map st) \<and> \<not> bit_of (free_map st) a}"

text \<open>The inode of the free map's file, when it is open, and the sectors of this file.\<close>

definition fm_inode :: "fs \<Rightarrow> inode option" where
  "fm_inode st = do { f \<leftarrow> free_map_file st; x \<leftarrow> file_of st f; inode_of st (file_inode x) }"

definition fm_sectors :: "fs \<Rightarrow> nat set" where
  "fm_sectors st = (case fm_inode st of None \<Rightarrow> {}
     | Some i \<Rightarrow> set (index_sectors (disk st) (idata i) (sector_cnt (idata i)) @ data_sectors (disk st) (idata i) (sector_cnt (idata i))))"

definition fm_file_ok :: "fs \<Rightarrow> inode \<Rightarrow> bool" where
  "fm_file_ok st i = (inode_ok (sectors st) (disk st) (idata i) \<and> deny_write_cnt i = 0
     \<and> ilen (idata i) = int (byte_cnt (bit_cnt (free_map st))))"

definition fm_ok :: "fs \<Rightarrow> bool" where
  "fm_ok st = (bc_ok (bc st) \<and> (\<forall>n. malloc_ok st n) \<and> bm_wf (free_map st) \<and> bit_cnt (free_map st) = sectors st
     \<and> 0 < sectors st \<and> sectors st < 2 ^ 31 \<and> bit_of (free_map st) 0
     \<and> (free_map_file st \<noteq> None \<longrightarrow> (\<exists>i. fm_inode st = Some i \<and> fm_file_ok st i))
     \<and> (\<forall>a\<in>fm_sectors st. bit_of (free_map st) a))"

lemma byte_cnt_small: "n < 2 ^ 31 \<Longrightarrow> byte_cnt n = 4 * ((n + 31) div 32)"
  by (simp add: byte_cnt_def elem_cnt_def DIV_ROUND_UP_def ELEM_BITS_def)

lemma length_bitmap_bytes:
  assumes "bm_wf b" "bit_cnt b < 2 ^ 31"
  shows "length (bitmap_bytes b) = byte_cnt (bit_cnt b)"
proof -
  have "(bit_cnt b + 31) div 32 \<le> (32 * length (elems b) + 31) div 32"
    using assms(1) by (intro div_le_mono) (simp add: bm_wf_def)
  then have "(bit_cnt b + 31) div 32 \<le> length (elems b)" by simp
  moreover have "length (concat (map bytes_of_u32 es)) = 4 * length es" for es by (induction es) auto
  ultimately show ?thesis using byte_cnt_small [OF assms(2)] by (simp add: bitmap_bytes_def)
qed

lemma fm_sectors_cong:
  assumes "fm_ok st" "disk_step st w st'" "\<forall>a\<in>fm_sectors st. w a = disk st a"
  shows "fm_sectors st' = fm_sectors st" "fm_inode st' = fm_inode st"
proof -
  note f = disk_stepD [OF assms(2)]
  show i: "fm_inode st' = fm_inode st" using f by (simp add: fm_inode_def)
  show "fm_sectors st' = fm_sectors st"
  proof (cases "fm_inode st")
    case (Some j)
    then have "\<forall>a\<in>set (index_sectors (disk st) (idata j) (sector_cnt (idata j))). w a = disk st a"
      using assms(3) by (auto simp: fm_sectors_def)
    from index_sectors_cong [OF this] data_sectors_cong [OF this] show ?thesis
      using Some by (simp add: fm_sectors_def i f(2))
  qed (simp add: fm_sectors_def i)
qed

lemma fm_write_ok:
  assumes "fm_ok st" "disk_step st w st'" "\<forall>a\<in>fm_sectors st. w a = disk st a"
  shows "fm_ok st' \<and> free_sectors st' = free_sectors st \<and> fm_sectors st' = fm_sectors st"
proof -
  note f = disk_stepD [OF assms(2)] and c = fm_sectors_cong [OF assms]
  have "fm_file_ok st' i" if "fm_inode st = Some i" "fm_file_ok st i" for i
  proof -
    have "\<forall>a\<in>set (index_sectors (disk st) (idata i) (sector_cnt (idata i))). w a = disk st a"
      using assms(3) that(1) by (auto simp: fm_sectors_def)
    from inode_ok_cong [OF this] that(2) f show ?thesis by (simp add: fm_file_ok_def)
  qed
  then show ?thesis using assms(1) f c by (auto simp: fm_ok_def free_sectors_def)
qed

lemma sector_cnt_pos: "0 < ilen d \<Longrightarrow> 0 < sector_cnt d"
  unfolding sector_cnt_def by simp

text \<open>One allocation, whatever is left of the bound on nested calls.\<close>

lemma bitmap_write_spec:
  assumes "fm_ok st" "free_map_file st = Some f" "fm_inode st = Some i" "bm_wf b" "bit_cnt b = bit_cnt (free_map st)"
  defines "st1 \<equiv> st\<lparr>free_map := b\<rparr>"
  shows "\<exists>st' w. bitmap_write alloc b (Some f) st1 = Some (True, st') \<and> disk_step st1 w st'
    \<and> data_only (idata i) (disk st) w \<and> content w (idata i) = bitmap_bytes b"
proof -
  from assms(2,3) obtain x where x: "file_of st f = Some x" "inode_of st (file_inode x) = Some i"
    by (auto simp: fm_inode_def bind_Some_iff)
  have fok: "fm_file_ok st i" using assms(1-3) by (auto simp: fm_ok_def)
  have b31: "bit_cnt b < 2 ^ 31" "0 < bit_cnt b" using assms(1,5) by (auto simp: fm_ok_def)
  have len: "length (bitmap_bytes b) = byte_cnt (bit_cnt b)" using length_bitmap_bytes [OF assms(4) b31(1)] .
  have cnt: "0 < byte_cnt (bit_cnt b)" "byte_cnt (bit_cnt b) < 2 ^ 31" using b31 byte_cnt_small [OF b31(1)] by auto
  have op: "opened st1 (file_inode x) i"
    using assms(1) x fok by (auto simp: opened_def fm_ok_def fm_file_ok_def st1_def)
  have "sectors st1 \<le> NO_SECTOR" using assms(1) by (simp add: fm_ok_def st1_def NO_SECTOR_def)
  then have "\<exists>st' w. inode_write_at alloc (file_inode x) (bitmap_bytes b) (int 0) st1 = Some (int (length (bitmap_bytes b)), st')
      \<and> disk_step st1 w st' \<and> data_only (idata i) (disk st1) w \<and> content w (idata i) = patch 0 (bitmap_bytes b) (content (disk st1) (idata i))
      \<and> slack w (idata i) = slack (disk st1) (idata i)"
    using fok len cnt assms(5) by (intro inode_write_at_spec [OF op]) (auto simp: fm_file_ok_def)
  then obtain st' w where
    w: "inode_write_at alloc (file_inode x) (bitmap_bytes b) 0 st1 = Some (int (byte_cnt (bit_cnt b)), st')"
      "disk_step st1 w st'" "data_only (idata i) (disk st) w"
      "content w (idata i) = patch 0 (bitmap_bytes b) (content (disk st) (idata i))"
    by (auto simp: st1_def len)
  have "content w (idata i) = bitmap_bytes b"
    using w(4) len fok assms(5) by (simp add: patch_def fm_file_ok_def)
  with w x(1) show ?thesis by (auto simp: bitmap_write_def file_write_at_def st1_def)
qed

lemma allocate_nested_spec:
  assumes "fm_ok st"
  shows "(free_sectors st \<noteq> {} \<longrightarrow> (\<exists>a st'. allocate_nested (Suc n) 1 st = Some (Some a, st') \<and> fm_ok st' \<and> a \<in> free_sectors st
      \<and> free_sectors st' = free_sectors st - {a} \<and> fm_sectors st' = fm_sectors st \<and> sectors st' = sectors st \<and> same_heap st st'
      \<and> (\<forall>b. b \<notin> fm_sectors st \<longrightarrow> disk st' b = disk st b)
      \<and> (\<forall>i. fm_inode st = Some i \<and> free_map_file st \<noteq> None \<longrightarrow> content (disk st') (idata i) = bitmap_bytes (free_map st'))))
    \<and> (free_sectors st = {} \<longrightarrow> allocate_nested (Suc n) 1 st = Some (None, st))"
proof -
  have wf: "bm_wf (free_map st)" and cnt: "bit_cnt (free_map st) < 2 ^ 31" using assms by (auto simp: fm_ok_def)
  have grp: "group_at (bits_of (free_map st)) k 1 False \<longleftrightarrow> k \<in> free_sectors st" for k
    by (auto simp: group_at_def free_sectors_def le_less_Suc_eq)
  show ?thesis
  proof (cases "free_sectors st = {}")
    case True
    with grp have "\<not> (\<exists>k\<ge>0. group_at (bits_of (free_map st)) k 1 False)" by simp
    from bitmap_scan_and_flip_none [OF wf _ this] show ?thesis using True by simp
  next
    case False
    with grp have "\<exists>k\<ge>0. group_at (bits_of (free_map st)) k 1 False" by auto
    from bitmap_scan_and_flip_found [OF wf _ this] obtain b a where
      b: "bitmap_scan_and_flip (free_map st) 0 1 False = Some (b, a)" "bm_wf b" "bit_cnt b = bit_cnt (free_map st)"
        "a \<in> free_sectors st" "bits_of b = fill a 1 True (bits_of (free_map st))"
      using grp by auto
    have bit: "bit_of b k = (bit_of (free_map st) k \<or> k = a)" if "k < bit_cnt (free_map st)" for k
      using that b(3) arg_cong [OF b(5), of "\<lambda>xs. xs ! k"] by auto
    have a: "a < bit_cnt (free_map st)" "a \<noteq> BITMAP_ERROR" using b(4) cnt by (auto simp: free_sectors_def BITMAP_ERROR_def)
    define st1 where "st1 = st\<lparr>free_map := b\<rparr>"
    have st1: "fm_ok st1" "free_sectors st1 = free_sectors st - {a}" "fm_sectors st1 = fm_sectors st" "fm_inode st1 = fm_inode st"
    proof -
      show i: "fm_inode st1 = fm_inode st" and s: "fm_sectors st1 = fm_sectors st"
        by (auto simp: fm_inode_def fm_sectors_def st1_def cong: option.case_cong)
      show "free_sectors st1 = free_sectors st - {a}" using bit b(3) by (auto simp: free_sectors_def st1_def)
      have lim: "c < bit_cnt (free_map st)" if "c \<in> fm_sectors st" for c
        using that assms by (auto simp: fm_ok_def fm_sectors_def fm_file_ok_def inode_ok_def fm_inode_def split: option.splits)
      show "fm_ok st1" using assms bit b(2,3) lim unfolding fm_ok_def s i
        by (auto simp: st1_def fm_file_ok_def)
    qed
    have heap: "same_heap st st1" by (auto simp: same_heap_def st1_def intro!: exI [of _ "bc st"] exI [of _ b] exI [of _ "heap_next st"])
    show ?thesis
    proof (cases "free_map_file st")
      case None
      then have "allocate_nested (Suc n) 1 st = Some (Some a, st1)" using b(1) a(2) by (simp add: st1_def)
      then show ?thesis using False None st1 heap b(4) by (auto simp: st1_def)
    next
      case (Some f)
      then obtain i where i: "fm_inode st = Some i" using assms by (auto simp: fm_ok_def)
      from bitmap_write_spec [OF assms Some i b(2,3), of "allocate_nested n 1"] obtain st' w where
        w: "bitmap_write (allocate_nested n 1) b (Some f) st1 = Some (True, st')" "disk_step st1 w st'"
          "data_only (idata i) (disk st) w" "content w (idata i) = bitmap_bytes b" unfolding st1_def by blast
      note f = disk_stepD [OF w(2)]
      have call: "allocate_nested (Suc n) 1 st = Some (Some a, st')"
        using b(1) a(2) Some w(1) by (simp add: st1_def)
      have idx: "\<forall>c\<in>set (index_sectors (disk st) (idata i) (sector_cnt (idata i))). w c = disk st c"
        using data_only_index [OF _ w(3)] assms i Some by (auto simp: fm_ok_def fm_file_ok_def)
      have same: "fm_inode st' = fm_inode st" "fm_sectors st' = fm_sectors st"
      proof -
        show e: "fm_inode st' = fm_inode st" using f by (simp add: fm_inode_def st1_def)
        show "fm_sectors st' = fm_sectors st"
          using i f(2) index_sectors_cong [OF idx] data_sectors_cong [OF idx] by (simp add: fm_sectors_def e)
      qed
      moreover have "fm_file_ok st' i" using assms i Some f inode_ok_cong [OF idx, of "sectors st"] b(3)
        by (auto simp: fm_ok_def fm_file_ok_def st1_def)
      ultimately have "fm_ok st'" using st1(1,3,4) f i unfolding fm_ok_def by (auto simp: st1_def)
      moreover have "\<forall>c. c \<notin> fm_sectors st \<longrightarrow> disk st' c = disk st c"
        using w(3) f i by (auto simp: data_only_def fm_sectors_def)
      moreover have "free_sectors st' = free_sectors st - {a}" using st1(2) f by (simp add: free_sectors_def)
      moreover have "same_heap st st'" using same_heap_trans [OF heap disk_step_heap [OF w(2)]] .
      moreover have "sectors st' = sectors st" "free_map st' = b" using f by (auto simp: st1_def)
      ultimately show ?thesis using False call b(4) same w(4) i f by auto
    qed
  qed
qed

interpretation free_map: sector_allocator allocate_one fm_ok free_sectors fm_sectors
proof
  fix st :: fs and a w st'
  assume ok: "fm_ok st"
  show "bc_ok (bc st) \<and> sectors st < 2 ^ 32" using ok by (simp add: fm_ok_def)
  show "0 < a \<and> a < sectors st \<and> a \<notin> fm_sectors st" if "a \<in> free_sectors st"
    using that ok by (cases "a = 0") (auto simp: fm_ok_def free_sectors_def)
  note spec = allocate_nested_spec [OF ok, of "bit_cnt (free_map st) + 1"]
  have one: "allocate_one st = allocate_nested (Suc (bit_cnt (free_map st) + 1)) 1 st"
    by (simp only: allocate_one_def free_map_allocate_def) (simp only: add_2_eq_Suc' add.right_neutral One_nat_def add_Suc_right)
  show "\<exists>a st'. allocate_one st = Some (Some a, st') \<and> fm_ok st' \<and> a \<in> free_sectors st
      \<and> free_sectors st' = free_sectors st - {a} \<and> fm_sectors st' = fm_sectors st \<and> sectors st' = sectors st \<and> same_heap st st'
      \<and> (\<forall>b. b \<notin> fm_sectors st \<longrightarrow> disk st' b = disk st b)" if "free_sectors st \<noteq> {}"
    using spec that unfolding one by blast
  show "\<exists>st'. allocate_one st = Some (None, st') \<and> fm_ok st' \<and> free_sectors st' = {} \<and> fm_sectors st' = fm_sectors st
      \<and> sectors st' = sectors st \<and> same_heap st st' \<and> disk st' = disk st" if "free_sectors st = {}"
    using spec that ok unfolding one by auto
  show "fm_ok st' \<and> free_sectors st' = free_sectors st \<and> fm_sectors st' = fm_sectors st"
    if "disk_step st w st'" "\<forall>a\<in>fm_sectors st. w a = disk st a" by (rule fm_write_ok [OF ok that])
qed

end
