(* ===== verification/IndexTree.thy ===== *)
theory IndexTree imports SectorAllocator begin

section \<open>Growing the index of a file\<close>

text \<open>
  An index block at level \<open>l\<close> with the number of sectors below it is a tree; a zero stands for what is
  not allocated yet.  \<open>used\<close> are the sectors of a tree, \<open>leaves\<close> its data sectors in order (zero where
  there is none), \<open>tree_ok\<close> says that no sector occurs twice.  \<open>reserve_indir\<close> completes a tree: the
  sectors that are there stay where they are with their contents, and the missing ones are fresh and
  filled with zeros.
\<close>

text \<open>How \<open>n\<close> sectors are divided among the entries of a block, \<open>c\<close> to each.\<close>

function sizes :: "nat \<Rightarrow> nat \<Rightarrow> nat list" where
  "sizes c n = (if n = 0 \<or> c = 0 then [] else min c n # sizes c (n - min c n))"
  by pat_completeness auto
termination by (relation "measure snd") auto

declare sizes.simps [simp del]

lemma sizes_simps [simp]:
  "sizes c 0 = []" "0 < c \<Longrightarrow> 0 < n \<Longrightarrow> sizes c n = min c n # sizes c (n - min c n)"
  by (subst sizes.simps; simp)+

lemma sum_list_sizes: "0 < c \<Longrightarrow> sum_list (sizes c n) = n"
proof (induction c n rule: sizes.induct)
  case (1 c n)
  then show ?case by (cases "n = 0") auto
qed

lemma length_sizes: "0 < c \<Longrightarrow> length (sizes c n) = (n + c - 1) div c"
proof (induction c n rule: sizes.induct)
  case (1 c n)
  show ?case
  proof (cases "n = 0")
    case False
    with 1 have "length (sizes c n) = Suc ((n - min c n + c - 1) div c)" by auto
    also have "\<dots> = (n + c - 1) div c"
    proof (cases "c \<le> n")
      case True
      then have "n + c - 1 = (n - c + c - 1) + c" using 1(2) by simp
      then have "(n + c - 1) div c = Suc ((n - c + c - 1) div c)" using 1(2) by (metis div_add_self2 Suc_eq_plus1 less_not_refl)
      with True show ?thesis by (simp add: min_def)
    next
      case F: False
      then have "(n + c - 1) div c = 1" using False 1(2) by (intro div_nat_eqI) auto
      moreover have "(c - 1) div c = 0" using 1(2) by simp
      ultimately show ?thesis using F by (simp add: min_def)
    qed
    finally show ?thesis .
  qed (use 1(2) in simp)
qed

lemma sizes_set: "0 < c \<Longrightarrow> m \<in> set (sizes c n) \<Longrightarrow> 0 < m \<and> m \<le> c"
proof (induction c n rule: sizes.induct)
  case (1 c n)
  then show ?case by (cases "n = 0") auto
qed

definition cap :: "nat \<Rightarrow> nat" where
  "cap l = INDIRECT ^ l"

lemma cap_pos [simp]: "0 < cap l"
  by (simp add: cap_def INDIRECT_def)

definition kids :: "(nat \<Rightarrow> byte list) \<Rightarrow> nat \<Rightarrow> nat \<Rightarrow> nat \<Rightarrow> (nat \<times> nat) list" where
  "kids v l p n = zip (words_of_bytes (v p)) (sizes (cap l) n)"

primrec used :: "(nat \<Rightarrow> byte list) \<Rightarrow> nat \<Rightarrow> nat \<times> nat \<Rightarrow> nat set" where
  "used v 0 = (\<lambda>(p, n). if p = 0 then {} else {p})"
| "used v (Suc l) = (\<lambda>(p, n). if p = 0 then {} else insert p (\<Union>x\<in>set (kids v l p n). used v l x))"

text \<open>Trees next to each other: each in order and no sector in two of them.\<close>

fun forest :: "('x \<Rightarrow> nat set) \<Rightarrow> ('x \<Rightarrow> bool) \<Rightarrow> 'x list \<Rightarrow> bool" where
  "forest U W [] = True"
| "forest U W (x # xs) = (W x \<and> U x \<inter> (\<Union>y\<in>set xs. U y) = {} \<and> forest U W xs)"

primrec tree_ok :: "(nat \<Rightarrow> byte list) \<Rightarrow> nat \<Rightarrow> nat \<times> nat \<Rightarrow> bool" where
  "tree_ok v 0 = (\<lambda>_. True)"
| "tree_ok v (Suc l) = (\<lambda>(p, n). p \<noteq> 0 \<longrightarrow>
     p \<notin> (\<Union>x\<in>set (kids v l p n). used v l x) \<and> forest (used v l) (tree_ok v l) (kids v l p n))"

primrec full :: "(nat \<Rightarrow> byte list) \<Rightarrow> nat \<Rightarrow> nat \<times> nat \<Rightarrow> bool" where
  "full v 0 = (\<lambda>(p, n). p \<noteq> 0)"
| "full v (Suc l) = (\<lambda>(p, n). p \<noteq> 0 \<and> (\<forall>x\<in>set (kids v l p n). full v l x))"

primrec leaves :: "(nat \<Rightarrow> byte list) \<Rightarrow> nat \<Rightarrow> nat \<times> nat \<Rightarrow> nat list" where
  "leaves v 0 = (\<lambda>(p, n). [p])"
| "leaves v (Suc l) = (\<lambda>(p, n). if p = 0 then replicate n 0 else concat (map (leaves v l) (kids v l p n)))"

text \<open>How many sectors completing a tree can take.\<close>

primrec cost :: "nat \<Rightarrow> nat \<Rightarrow> nat" where
  "cost 0 n = 1"
| "cost (Suc l) n = 1 + sum_list (map (cost l) (sizes (cap l) n))"

lemma forest_cong: "(\<And>x. x \<in> set xs \<Longrightarrow> U' x = U x \<and> W' x = W x) \<Longrightarrow> forest U' W' xs = forest U W xs"
  by (induction xs) auto

text \<open>The blocks of a tree that hold sector numbers: all but its leaves.\<close>

primrec inner :: "(nat \<Rightarrow> byte list) \<Rightarrow> nat \<Rightarrow> nat \<times> nat \<Rightarrow> nat set" where
  "inner v 0 = (\<lambda>_. {})"
| "inner v (Suc l) = (\<lambda>(p, n). if p = 0 then {} else insert p (\<Union>x\<in>set (kids v l p n). inner v l x))"

text \<open>The entries behind those of the tree's sectors are zero.\<close>

primrec tail0 :: "(nat \<Rightarrow> byte list) \<Rightarrow> nat \<Rightarrow> nat \<times> nat \<Rightarrow> bool" where
  "tail0 v 0 = (\<lambda>_. True)"
| "tail0 v (Suc l) = (\<lambda>(p, n). p \<noteq> 0 \<longrightarrow>
     (\<forall>w\<in>set (drop (length (sizes (cap l) n)) (words_of_bytes (v p))). w = 0) \<and> (\<forall>x\<in>set (kids v l p n). tail0 v l x))"

lemma inner_used: "inner v l x \<subseteq> used v l x"
proof (induction l arbitrary: x)
  case (Suc l)
  then show ?case by (cases x) (fastforce split: if_splits)
qed simp

text \<open>A tree depends on these blocks only.\<close>

lemma tree_cong_inner:
  "\<forall>a\<in>inner v l x. w a = v a \<Longrightarrow> inner w l x = inner v l x \<and> used w l x = used v l x \<and> tree_ok w l x = tree_ok v l x
     \<and> full w l x = full v l x \<and> leaves w l x = leaves v l x \<and> tail0 w l x = tail0 v l x"
proof (induction l arbitrary: x)
  case 0
  then show ?case by (cases x) simp
next
  case (Suc l)
  obtain p n where x: "x = (p, n)" by (cases x)
  show ?case
  proof (cases "p = 0")
    case False
    with Suc.prems have wp: "w p = v p" by (simp add: x)
    then have "kids w l p n = kids v l p n" by (simp add: kids_def)
    moreover have IH: "inner w l y = inner v l y \<and> used w l y = used v l y \<and> tree_ok w l y = tree_ok v l y
        \<and> full w l y = full v l y \<and> leaves w l y = leaves v l y \<and> tail0 w l y = tail0 v l y"
      if "y \<in> set (kids v l p n)" for y using that False Suc.prems by (intro Suc.IH) (auto simp: x)
    moreover have "forest (used w l) (tree_ok w l) (kids v l p n) = forest (used v l) (tree_ok v l) (kids v l p n)"
      using IH by (intro forest_cong) auto
    moreover have "concat (map (leaves w l) (kids v l p n)) = concat (map (leaves v l) (kids v l p n))"
      using IH by (simp cong: map_cong)
    ultimately show ?thesis using False wp by (simp add: x)
  qed (simp add: x)
qed

lemma tree_cong:
  assumes "\<forall>a\<in>used v l x. w a = v a"
  shows "used w l x = used v l x \<and> tree_ok w l x = tree_ok v l x \<and> full w l x = full v l x \<and> leaves w l x = leaves v l x"
    and tail0_cong: "tail0 w l x = tail0 v l x"
  using tree_cong_inner [of v l x w] inner_used [of v l x] assms by auto

lemmas used_cong = tree_cong(1) [THEN conjunct1]

lemma zero_unused: "0 \<notin> used v l x"
  by (induction l arbitrary: x) (auto split: if_splits)

lemma full_root: "full v l (p, n) \<Longrightarrow> p \<noteq> 0 \<and> p \<in> used v l (p, n)"
  by (cases l) auto

lemma leaves_used: "a \<in> set (leaves v l x) \<Longrightarrow> a \<noteq> 0 \<Longrightarrow> a \<in> used v l x"
proof (induction l arbitrary: x)
  case 0
  then show ?case by (cases x) simp
next
  case (Suc l)
  then show ?case by (cases x) (fastforce split: if_splits)
qed

lemma leaves_zero: "(l = 0 \<Longrightarrow> n = 1) \<Longrightarrow> leaves v l (0, n) = replicate n 0"
  by (cases l) auto

lemma concat_replicates: "concat (map (\<lambda>n. replicate n x) ns) = replicate (sum_list ns) x"
  by (induction ns) (simp_all add: replicate_add)

text \<open>What becomes of a leaf.\<close>

definition grown :: "(nat \<Rightarrow> byte list) \<Rightarrow> (nat \<Rightarrow> byte list) \<Rightarrow> nat \<Rightarrow> nat \<Rightarrow> bool" where
  "grown v w x y = (y \<noteq> 0 \<and> (if x = 0 then w y = zeros else y = x \<and> w y = v x))"

lemma list_all2_concat:
  "list_all2 (\<lambda>x y. list_all2 R (f x) (g y)) xs ys \<Longrightarrow> list_all2 R (concat (map f xs)) (concat (map g ys))"
  by (induction rule: list_all2_induct) (auto intro: list_all2_appendI)

subsection \<open>What allocation may change\<close>

text \<open>The sectors in use that are not the allocator's own.\<close>

definition alloced :: "(fs \<Rightarrow> nat set) \<Rightarrow> (fs \<Rightarrow> nat set) \<Rightarrow> fs \<Rightarrow> nat set" where
  "alloced free sys st = {a. 0 < a \<and> a < sectors st} - free st - sys st"

text \<open>From \<open>st\<close> to \<open>st'\<close> sectors were allocated, and only those, the allocator's own and those of \<open>c\<close>
  may have changed.\<close>

definition grows :: "(fs \<Rightarrow> nat set) \<Rightarrow> (fs \<Rightarrow> nat set) \<Rightarrow> nat set \<Rightarrow> fs \<Rightarrow> fs \<Rightarrow> bool" where
  "grows free sys c st st' = (sys st' = sys st \<and> sectors st' = sectors st \<and> same_heap st st' \<and> free st' \<subseteq> free st
     \<and> (\<forall>a. a \<notin> sys st \<longrightarrow> a \<notin> c \<longrightarrow> a \<notin> free st - free st' \<longrightarrow> disk st' a = disk st a))"

lemma grows_refl: "grows free sys c st st"
  by (simp add: grows_def)

lemma grows_trans: "grows free sys c st st' \<Longrightarrow> grows free sys c' st' st'' \<Longrightarrow> c \<union> c' \<subseteq> d \<Longrightarrow> grows free sys d st st''"
proof -
  assume a: "grows free sys c st st'" "grows free sys c' st' st''" "c \<union> c' \<subseteq> d"
  have "disk st'' b = disk st b" if "b \<notin> sys st" "b \<notin> d" "b \<notin> free st - free st''" for b
  proof -
    have "disk st'' b = disk st' b" using a that unfolding grows_def by blast
    also have "\<dots> = disk st b" using a that unfolding grows_def by blast
    finally show ?thesis .
  qed
  then show ?thesis using a unfolding grows_def by (auto intro: same_heap_trans)
qed

definition tree_done ::
  "(fs \<Rightarrow> nat set) \<Rightarrow> (fs \<Rightarrow> nat set) \<Rightarrow> nat \<Rightarrow> fs \<Rightarrow> nat \<times> nat \<Rightarrow> nat \<times> nat \<Rightarrow> fs \<Rightarrow> bool" where
  "tree_done free sys l st x y st' = (grows free sys (used (disk st) l x) st st' \<and> snd y = snd x
     \<and> tree_ok (disk st') l y \<and> full (disk st') l y \<and> used (disk st') l y \<subseteq> used (disk st) l x \<union> (free st - free st')
     \<and> list_all2 (grown (disk st) (disk st')) (leaves (disk st) l x) (leaves (disk st') l y)
     \<and> card (free st) \<le> card (free st') + cost l (snd x) \<and> (tail0 (disk st) l x \<longrightarrow> tail0 (disk st') l y))"

abbreviation useds :: "(nat \<Rightarrow> byte list) \<Rightarrow> nat \<Rightarrow> (nat \<times> nat) list \<Rightarrow> nat set" where
  "useds v l xs \<equiv> \<Union>x\<in>set xs. used v l x"

definition forest_done ::
  "(fs \<Rightarrow> nat set) \<Rightarrow> (fs \<Rightarrow> nat set) \<Rightarrow> nat \<Rightarrow> fs \<Rightarrow> (nat \<times> nat) list \<Rightarrow> (nat \<times> nat) list \<Rightarrow> fs \<Rightarrow> bool" where
  "forest_done free sys l st xs ys st' = (grows free sys (useds (disk st) l xs) st st' \<and> map snd ys = map snd xs
     \<and> forest (used (disk st') l) (tree_ok (disk st') l) ys \<and> (\<forall>y\<in>set ys. full (disk st') l y)
     \<and> useds (disk st') l ys \<subseteq> useds (disk st) l xs \<union> (free st - free st')
     \<and> list_all2 (\<lambda>x y. list_all2 (grown (disk st) (disk st')) (leaves (disk st) l x) (leaves (disk st') l y)) xs ys
     \<and> card (free st) \<le> card (free st') + sum_list (map (cost l \<circ> snd) xs)
     \<and> ((\<forall>x\<in>set xs. tail0 (disk st) l x) \<longrightarrow> (\<forall>y\<in>set ys. tail0 (disk st') l y)))"

lemma grown_cong:
  assumes "list_all2 (grown v w) xs ys" "\<And>a. a \<in> set xs \<Longrightarrow> a \<noteq> 0 \<Longrightarrow> v' a = v a" "\<And>a. a \<in> set ys \<Longrightarrow> a \<noteq> 0 \<Longrightarrow> w' a = w a"
  shows "list_all2 (grown v' w') xs ys"
  using assms(1)
proof (rule list.rel_mono_strong)
  show "grown v' w' x y" if "x \<in> set xs" "y \<in> set ys" "grown v w x y" for x y
    using that assms(2) [of x] assms(3) [of y] by (auto simp: grown_def split: if_splits)
qed

text \<open>A tree in use is left alone while other trees grow.\<close>

lemma grows_keeps:
  assumes "grows free sys c st st'" "u \<subseteq> alloced free sys st" "u \<inter> c = {}"
  shows "\<forall>a\<in>u. disk st' a = disk st a" "u \<subseteq> alloced free sys st'"
  using assms unfolding grows_def alloced_def by auto

text \<open>Two parts of an index are completed one after the other: the first is not touched any more, and they
  stay apart.\<close>

lemma two_phases:
  assumes u: "u1 \<subseteq> alloced free sys st" "u2 \<subseteq> alloced free sys st" "u1 \<inter> u2 = {}"
    and free: "\<forall>a\<in>free st. 0 < a \<and> a < sectors st \<and> a \<notin> sys st"
    and g1: "grows free sys u1 st st1" and w1: "w1 \<subseteq> u1 \<union> (free st - free st1)"
    and g2: "grows free sys u2 st1 st2" and w2: "w2 \<subseteq> u2 \<union> (free st1 - free st2)"
  shows "\<forall>a\<in>u2. disk st1 a = disk st a" "u2 \<subseteq> alloced free sys st1" "\<forall>a\<in>w1. disk st2 a = disk st1 a"
    "grows free sys (u1 \<union> u2) st st2" "w1 \<inter> w2 = {}" "w1 \<union> w2 \<subseteq> (u1 \<union> u2) \<union> (free st - free st2)"
proof -
  have i: "u2 \<inter> u1 = {}" using u(3) by blast
  show "\<forall>a\<in>u2. disk st1 a = disk st a" "u2 \<subseteq> alloced free sys st1" by (rule grows_keeps [OF g1 u(2) i])+
  have fr: "free st1 \<subseteq> free st" "sys st1 = sys st" "sectors st1 = sectors st" "free st2 \<subseteq> free st1"
    using g1 g2 by (auto simp: grows_def)
  have d1: "u1 \<inter> free st = {}" "u2 \<inter> free st = {}" using u by (auto simp: alloced_def)
  have "w1 \<subseteq> alloced free sys st1"
  proof
    fix a assume "a \<in> w1"
    with w1 consider "a \<in> u1" | "a \<in> free st" "a \<notin> free st1" by blast
    then show "a \<in> alloced free sys st1" using u(1) free fr by cases (auto simp: alloced_def)
  qed
  moreover have "w1 \<inter> u2 = {}" using w1 u(3) d1 by blast
  ultimately show "\<forall>a\<in>w1. disk st2 a = disk st1 a" by (rule grows_keeps(1) [OF g2])
  show "grows free sys (u1 \<union> u2) st st2" by (rule grows_trans [OF g1 g2 subset_refl])
  show "w1 \<inter> w2 = {}" using w1 w2 u(3) d1 fr(1) by blast
  show "w1 \<union> w2 \<subseteq> (u1 \<union> u2) \<union> (free st - free st2)" using w1 w2 fr by blast
qed

text \<open>The first tree of a row and then the rest.\<close>

lemma forest_done_Cons:
  assumes pre: "useds (disk st) l (x # xs) \<subseteq> alloced free sys st" "used (disk st) l x \<inter> useds (disk st) l xs = {}"
    and free: "\<forall>a\<in>free st. 0 < a \<and> a < sectors st \<and> a \<notin> sys st"
    and x: "tree_done free sys l st x y st1" and xs: "forest_done free sys l st1 xs ys st2"
  shows "forest_done free sys l st (x # xs) (y # ys) st2"
proof -
  have u: "used (disk st) l x \<subseteq> alloced free sys st" "useds (disk st) l xs \<subseteq> alloced free sys st"
    using pre(1) by auto
  have g1: "grows free sys (used (disk st) l x) st st1"
    and w1: "used (disk st1) l y \<subseteq> used (disk st) l x \<union> (free st - free st1)" using x by (auto simp: tree_done_def)
  have keep1: "\<forall>a\<in>useds (disk st) l xs. disk st1 a = disk st a"
    using pre(2) by (intro grows_keeps(1) [OF g1 u(2)]) blast
  then have tail: "used (disk st1) l z = used (disk st) l z" "leaves (disk st1) l z = leaves (disk st) l z" if "z \<in> set xs" for z
    using tree_cong [of "disk st" l z "disk st1"] that by auto
  then have us: "useds (disk st1) l xs = useds (disk st) l xs" by auto
  have t0: "tail0 (disk st1) l z = tail0 (disk st) l z" if "z \<in> set xs" for z
    using tail0_cong [of "disk st" l z "disk st1"] keep1 that by auto
  have g2: "grows free sys (useds (disk st) l xs) st1 st2"
    and w2: "useds (disk st2) l ys \<subseteq> useds (disk st) l xs \<union> (free st1 - free st2)"
    using xs us by (auto simp: forest_done_def)
  note ph = two_phases [OF u pre(2) free g1 w1 g2 w2]
  note y = tree_cong(1) [OF ph(3)]
  have "tail0 (disk st2) l y" if "tail0 (disk st) l x" using that x tail0_cong [OF ph(3)] by (simp add: tree_done_def)
  moreover have "\<forall>y\<in>set ys. tail0 (disk st2) l y" if "\<forall>z\<in>set xs. tail0 (disk st) l z"
    using that xs t0 by (simp add: forest_done_def)
  ultimately have tl: "(\<forall>z\<in>set (x # xs). tail0 (disk st) l z) \<longrightarrow> (\<forall>z\<in>set (y # ys). tail0 (disk st2) l z)" by simp
  from y have uy: "used (disk st2) l y = used (disk st1) l y" by simp
  have "list_all2 (grown (disk st) (disk st2)) (leaves (disk st) l x) (leaves (disk st1) l y)"
  proof (rule grown_cong)
    show "list_all2 (grown (disk st) (disk st1)) (leaves (disk st) l x) (leaves (disk st1) l y)"
      using x by (simp add: tree_done_def)
    show "disk st2 a = disk st1 a" if "a \<in> set (leaves (disk st1) l y)" "a \<noteq> 0" for a
      using leaves_used [OF that] ph(3) by simp
  qed simp
  moreover have "list_all2 (\<lambda>x y. list_all2 (grown (disk st) (disk st2)) (leaves (disk st) l x) (leaves (disk st2) l y)) xs ys"
  proof -
    have "list_all2 (\<lambda>x y. list_all2 (grown (disk st1) (disk st2)) (leaves (disk st1) l x) (leaves (disk st2) l y)) xs ys"
      using xs by (simp add: forest_done_def)
    then show ?thesis
    proof (rule list.rel_mono_strong)
      fix z w assume z: "z \<in> set xs" and "w \<in> set ys"
        and g: "list_all2 (grown (disk st1) (disk st2)) (leaves (disk st1) l z) (leaves (disk st2) l w)"
      have "disk st a = disk st1 a" if "a \<in> set (leaves (disk st) l z)" "a \<noteq> 0" for a
        using leaves_used [OF that] z keep1 by auto
      then show "list_all2 (grown (disk st) (disk st2)) (leaves (disk st) l z) (leaves (disk st2) l w)"
        using grown_cong [OF g, of "disk st" "disk st2"] unfolding tail(2) [OF z] by simp
    qed
  qed
  moreover have "grows free sys (useds (disk st) l (x # xs)) st st2" using ph(4) by simp
  moreover have "useds (disk st2) l (y # ys) \<subseteq> useds (disk st) l (x # xs) \<union> (free st - free st2)"
    using ph(6) by (simp only: list.set UN_insert uy)
  moreover have "snd y = snd x" "tree_ok (disk st2) l y" "full (disk st2) l y"
    "card (free st) \<le> card (free st1) + cost l (snd x)" using x y by (auto simp: tree_done_def)
  moreover have "map snd ys = map snd xs" "forest (used (disk st2) l) (tree_ok (disk st2) l) ys" "\<forall>y\<in>set ys. full (disk st2) l y"
    "card (free st1) \<le> card (free st2) + sum_list (map (cost l \<circ> snd) xs)" using xs by (auto simp: forest_done_def)
  ultimately show ?thesis using ph(5) y tl unfolding forest_done_def by (simp add: uy)
qed

subsection \<open>Completing a tree\<close>

definition reserves :: "allocator \<Rightarrow> (fs \<Rightarrow> bool) \<Rightarrow> (fs \<Rightarrow> nat set) \<Rightarrow> (fs \<Rightarrow> nat set) \<Rightarrow> nat \<Rightarrow> bool" where
  "reserves alloc ok free sys l = (\<forall>st p m. ok st \<longrightarrow> 0 < m \<longrightarrow> m \<le> cap l \<longrightarrow> tree_ok (disk st) l (p, m)
     \<longrightarrow> used (disk st) l (p, m) \<subseteq> alloced free sys st \<longrightarrow> cost l m \<le> card (free st)
     \<longrightarrow> (\<exists>q st'. reserve_indir alloc l p m st = Some (True, q, st') \<and> ok st' \<and> tree_done free sys l st (p, m) (q, m) st'))"

lemma forest_used_cong:
  assumes "\<forall>a\<in>useds v l xs. w a = v a"
  shows "forest (used w l) (tree_ok w l) xs = forest (used v l) (tree_ok v l) xs" "useds w l xs = useds v l xs"
proof -
  have c: "used w l x = used v l x \<and> tree_ok w l x = tree_ok v l x" if "x \<in> set xs" for x
    using tree_cong [of v l x w] assms that by auto
  then show "forest (used w l) (tree_ok w l) xs = forest (used v l) (tree_ok v l) xs" by (intro forest_cong)
  show "useds w l xs = useds v l xs" using c by auto
qed

context sector_allocator
begin

lemma finite_free: "ok st \<Longrightarrow> finite (free st)"
  by (rule finite_subset [of _ "{..<sectors st}"]) (auto dest: free_range)

lemma reserve_loop_spec:
  assumes IH: "reserves alloc ok free sys l"
  shows "ok st \<Longrightarrow> n = length (sizes (cap l) num) \<Longrightarrow> xs = zip (take n (drop i block)) (sizes (cap l) num) \<Longrightarrow> i + n \<le> length block
    \<Longrightarrow> forest (used (disk st) l) (tree_ok (disk st) l) xs \<Longrightarrow> useds (disk st) l xs \<subseteq> alloced free sys st
    \<Longrightarrow> sum_list (map (cost l) (sizes (cap l) num)) \<le> card (free st) \<Longrightarrow>
    \<exists>ys st'. reserve_loop (reserve_indir alloc l) (cap l) i n num block st
        = Some (True, 0, take i block @ map fst ys @ drop (i + n) block, st') \<and> ok st' \<and> forest_done free sys l st xs ys st'"
proof (induction n arbitrary: i num block st xs)
  case 0
  then have "num = 0" using sizes_simps(2) [of "cap l" num] by (cases "num = 0") auto
  then show ?case using 0 grows_refl by (intro exI [of _ "[]"] exI [of _ st]) (simp add: forest_done_def)
next
  case (Suc n)
  have num: "0 < num" using Suc.prems(2) by (cases "num = 0") auto
  define m where "m = min (cap l) num"
  have sz: "sizes (cap l) num = m # sizes (cap l) (num - m)" using num by (simp add: m_def)
  define xs' where "xs' = zip (take n (drop (i + 1) block)) (sizes (cap l) (num - m))"
  have "drop i block = block ! i # drop (i + 1) block" using Suc.prems(4) by (simp add: Cons_nth_drop_Suc)
  then have xs: "xs = (block ! i, m) # xs'" using Suc.prems(3) by (simp add: sz xs'_def)
  have m: "0 < m" "m \<le> cap l" using num by (auto simp: m_def)
  have nmax: "(if num < cap l then num else cap l) = m" by (simp add: m_def)
  have pre: "tree_ok (disk st) l (block ! i, m)" "used (disk st) l (block ! i, m) \<subseteq> alloced free sys st"
    "used (disk st) l (block ! i, m) \<inter> useds (disk st) l xs' = {}" "useds (disk st) l xs' \<subseteq> alloced free sys st"
    "forest (used (disk st) l) (tree_ok (disk st) l) xs'" using Suc.prems(5,6) by (auto simp: xs)
  have c: "cost l m \<le> card (free st)" using Suc.prems(7) by (simp add: sz)
  from IH [unfolded reserves_def, rule_format, OF Suc.prems(1) m pre(1,2) c] obtain q st1 where
    q: "reserve_indir alloc l (block ! i) m st = Some (True, q, st1)" "ok st1" "tree_done free sys l st (block ! i, m) (q, m) st1" by blast
  then have g: "grows free sys (used (disk st) l (block ! i, m)) st st1" and card: "card (free st) \<le> card (free st1) + cost l m"
    by (auto simp: tree_done_def)
  have "useds (disk st) l xs' \<inter> used (disk st) l (block ! i, m) = {}" using pre(3) by (simp add: Int_commute)
  note k = grows_keeps [OF g pre(4) this]
  note fc = forest_used_cong [OF k(1)]
  have "\<exists>ys st'. reserve_loop (reserve_indir alloc l) (cap l) (i + 1) n (num - m) (block[i := q]) st1
        = Some (True, 0, take (i + 1) (block[i := q]) @ map fst ys @ drop (i + 1 + n) (block[i := q]), st')
      \<and> ok st' \<and> forest_done free sys l st1 xs' ys st'"
  proof (rule Suc.IH [OF q(2)])
    show "n = length (sizes (cap l) (num - m))" using Suc.prems(2) by (simp add: sz)
    show "xs' = zip (take n (drop (i + 1) (block[i := q]))) (sizes (cap l) (num - m))" by (simp add: xs'_def)
    show "i + 1 + n \<le> length (block[i := q])" using Suc.prems(4) by simp
    show "forest (used (disk st1) l) (tree_ok (disk st1) l) xs'" using fc(1) pre(5) by simp
    show "useds (disk st1) l xs' \<subseteq> alloced free sys st1" using fc(2) k(2) by simp
    show "sum_list (map (cost l) (sizes (cap l) (num - m))) \<le> card (free st1)" using Suc.prems(7) card by (simp add: sz)
  qed
  then obtain ys st2 where ys: "reserve_loop (reserve_indir alloc l) (cap l) (i + 1) n (num - m) (block[i := q]) st1
        = Some (True, 0, take (i + 1) (block[i := q]) @ map fst ys @ drop (i + 1 + n) (block[i := q]), st2)"
      "ok st2" "forest_done free sys l st1 xs' ys st2" by blast
  have i: "i < length block" using Suc.prems(4) by simp
  have blk: "take (i + 1) (block[i := q]) = take i block @ [q]" using i by (simp add: take_Suc_conv_app_nth)
  have "reserve_loop (reserve_indir alloc l) (cap l) i (Suc n) num block st
      = Some (True, 0, take i block @ map fst ((q, m) # ys) @ drop (i + Suc n) block, st2)"
    using i q(1) ys(1) unfolding reserve_loop.simps Let_def nmax blk by simp
  moreover have "forest_done free sys l st xs ((q, m) # ys) st2"
    unfolding xs using Suc.prems(1,6) pre(3) free_range q(3) ys(3) by (intro forest_done_Cons) (auto simp: xs)
  ultimately show ?case using ys(2) by blast
qed

end

subsection \<open>A level at a time\<close>

lemma length_zeros [simp]: "length zeros = BLOCK_SECTOR_SIZE"
  by (simp add: zeros_def)

lemma words_of_zeros: "words_of_bytes zeros = replicate INDIRECT 0"
proof -
  have "replicate (4 + k) x = x # x # x # x # replicate k x" for k and x :: byte by (simp add: eval_nat_numeral)
  then have z: "bytes_of_words (replicate n 0) = replicate (4 * n) 0" for n
    by (induction n) (simp_all add: bytes_of_u32_def)
  have "zeros = bytes_of_words (replicate INDIRECT 0)" unfolding z by (simp add: zeros_def BLOCK_SECTOR_SIZE_def INDIRECT_def)
  also have "words_of_bytes (bytes_of_words (replicate INDIRECT 0)) = replicate INDIRECT 0"
    by (rule words_of_bytes_of_words) simp
  finally show ?thesis .
qed

lemma length_sizes_le: "n \<le> cap (Suc l) \<Longrightarrow> length (sizes (cap l) n) \<le> INDIRECT"
proof -
  assume "n \<le> cap (Suc l)"
  then have "n + cap l - 1 \<le> cap l * INDIRECT + (cap l - 1)" by (simp add: cap_def mult.commute)
  then have "(n + cap l - 1) div cap l \<le> (cap l * INDIRECT + (cap l - 1)) div cap l" by (rule div_le_mono)
  also have "\<dots> = INDIRECT + (cap l - 1) div cap l" using cap_pos [of l] by (simp only: div_mult_self4 neq0_conv)
  also have "(cap l - 1) div cap l = 0" by simp
  finally show ?thesis by (simp add: length_sizes)
qed

text \<open>The tree under a block of zeros.\<close>

lemma tree_zeros:
  assumes "v p = zeros" "n \<le> cap (Suc l)" "p \<noteq> 0"
  shows "useds v l (kids v l p n) = {}" "tree_ok v (Suc l) (p, n)" "used v (Suc l) (p, n) = {p}" "leaves v (Suc l) (p, n) = replicate n 0"
    "tail0 v (Suc l) (p, n)"
proof -
  have k: "kids v l p n = map (Pair 0) (sizes (cap l) n)"
    using length_sizes_le [OF assms(2)] by (simp add: kids_def assms(1) words_of_zeros zip_replicate1)
  have u: "used v l (0, m) = {}" and t: "tree_ok v l (0, m)" for m by (cases l; simp)+
  show e: "useds v l (kids v l p n) = {}" by (auto simp: k u)
  have "forest (used v l) (tree_ok v l) (map (Pair 0) ms)" for ms by (induction ms) (auto simp: u t)
  then show "tree_ok v (Suc l) (p, n)" "used v (Suc l) (p, n) = {p}" using e assms(3) by (simp_all add: k)
  have "leaves v l (0, m) = replicate m 0" if "m \<in> set (sizes (cap l) n)" for m
    using sizes_set [OF cap_pos that] by (intro leaves_zero) (simp add: cap_def)
  then have "map (leaves v l) (kids v l p n) = map (\<lambda>m. replicate m 0) (sizes (cap l) n)" by (simp add: k)
  then show "leaves v (Suc l) (p, n) = replicate n 0"
    using assms(3) by (simp add: concat_replicates sum_list_sizes del: map_map)
  have "tail0 v l (0, m)" for m by (cases l; simp)
  then show "tail0 v (Suc l) (p, n)" by (auto simp: k assms(1) words_of_zeros)
qed

text \<open>A row of trees for \<open>m\<close> sectors with zeros behind it is one for more sectors.\<close>

lemma row_extend:
  fixes U :: "nat \<times> nat \<Rightarrow> nat set" and L :: "nat \<times> nat \<Rightarrow> nat list"
  assumes "0 < c" "m \<le> n" "length (sizes c n) \<le> length ws" "\<forall>w\<in>set (drop (length (sizes c m)) ws). w = 0"
    and "\<And>q a b. (q, a) \<in> set (zip ws (sizes c m)) \<Longrightarrow> a \<le> b \<Longrightarrow> b \<le> c
      \<Longrightarrow> U (q, b) = U (q, a) \<and> W (q, b) = W (q, a) \<and> L (q, b) = L (q, a) @ replicate (b - a) 0 \<and> T (q, b)"
    and "\<And>b. 0 < b \<Longrightarrow> b \<le> c \<Longrightarrow> U (0, b) = {} \<and> W (0, b) \<and> L (0, b) = replicate b 0 \<and> T (0, b)"
  shows "(\<Union>x\<in>set (zip ws (sizes c n)). U x) = (\<Union>x\<in>set (zip ws (sizes c m)). U x)
    \<and> forest U W (zip ws (sizes c n)) = forest U W (zip ws (sizes c m))
    \<and> concat (map L (zip ws (sizes c n))) = concat (map L (zip ws (sizes c m))) @ replicate (n - m) 0
    \<and> (\<forall>x\<in>set (zip ws (sizes c n)). T x)"
  using assms
proof (induction c n arbitrary: ws m rule: sizes.induct)
  case (1 c n)
  note zero = 1(7)
  show ?case
  proof (cases "n = 0")
    case False
    define b where "b = min c n"
    have b: "0 < b" "b \<le> c" "b \<le> n" using False 1(2) by (auto simp: b_def)
    have sz: "sizes c n = b # sizes c (n - b)" using False 1(2) by (simp add: b_def)
    obtain w ws' where ws: "ws = w # ws'" using 1(4) by (cases ws) (auto simp: sz)
    have len: "length (sizes c (n - b)) \<le> length ws'" using 1(4) by (simp add: sz ws)
    note IH = 1(1) [folded b_def, OF _ 1(2) _ len]
    have rest: "(\<Union>x\<in>set (zip ws' (sizes c (n - b))). U x) = {}"
        "forest U W (zip ws' (sizes c (n - b)))" "concat (map L (zip ws' (sizes c (n - b)))) = replicate (n - b) 0"
        "\<forall>x\<in>set (zip ws' (sizes c (n - b))). T x" if "\<forall>w\<in>set ws'. w = 0"
      using IH [of 0] that False zero 1(2) by auto
    show ?thesis
    proof (cases "m = 0")
      case True
      then have z: "w = 0" "\<forall>w\<in>set ws'. w = 0" using 1(5) by (auto simp: ws)
      have "replicate b (0 :: nat) @ replicate (n - b) 0 = replicate n 0" using b by (simp add: replicate_add [symmetric])
      then show ?thesis using zero [OF b(1,2)] rest [OF z(2)] True by (simp add: sz ws z(1))
    next
      case m0: False
      define a where "a = min c m"
      have a: "0 < a" "a \<le> b" "a \<le> m" using m0 1(2,3) by (auto simp: a_def b_def)
      have szm: "sizes c m = a # sizes c (m - a)" using m0 1(2) by (simp add: a_def)
      have hd: "U (w, b) = U (w, a) \<and> W (w, b) = W (w, a) \<and> L (w, b) = L (w, a) @ replicate (b - a) 0 \<and> T (w, b)"
        using a b by (intro 1(6)) (auto simp: ws szm)
      show ?thesis
      proof (cases "c \<le> m")
        case True
        then have ab: "a = c" "b = c" using 1(3) by (auto simp: a_def b_def)
        have "(\<Union>x\<in>set (zip ws' (sizes c (n - b))). U x) = (\<Union>x\<in>set (zip ws' (sizes c (m - b))). U x)
          \<and> forest U W (zip ws' (sizes c (n - b))) = forest U W (zip ws' (sizes c (m - b)))
          \<and> concat (map L (zip ws' (sizes c (n - b)))) = concat (map L (zip ws' (sizes c (m - b)))) @ replicate (n - b - (m - b)) 0
          \<and> (\<forall>x\<in>set (zip ws' (sizes c (n - b))). T x)"
        proof (rule IH)
          show "\<not> (n = 0 \<or> c = 0)" "m - b \<le> n - b" using False 1(2,3) by auto
          show "\<forall>w\<in>set (drop (length (sizes c (m - b))) ws'). w = 0" using 1(5) ab by (simp add: ws szm)
          show "U (q, b') = U (q, a') \<and> W (q, b') = W (q, a') \<and> L (q, b') = L (q, a') @ replicate (b' - a') 0 \<and> T (q, b')"
            if "(q, a') \<in> set (zip ws' (sizes c (m - b)))" "a' \<le> b'" "b' \<le> c" for q a' b'
            using that ab by (intro 1(6)) (auto simp: ws szm)
          show "U (0, k) = {} \<and> W (0, k) \<and> L (0, k) = replicate k 0 \<and> T (0, k)" if "0 < k" "k \<le> c" for k
            using that by (rule zero)
        qed
        moreover have "n - b - (m - b) = n - m" using True ab by simp
        ultimately show ?thesis using hd ab by (simp add: sz szm ws)
      next
        case F: False
        then have am: "a = m" by (simp add: a_def)
        then have z: "\<forall>w\<in>set ws'. w = 0" using 1(5) by (simp add: ws szm)
        have "b - m + (n - b) = n - m" using a b am by simp
        then have "replicate (b - m) (0 :: nat) @ replicate (n - b) 0 = replicate (n - m) 0" by (simp only: replicate_add [symmetric])
        then show ?thesis using hd rest [OF z] by (simp add: sz szm ws am)
      qed
    qed
  qed (use 1(3) in simp)
qed

lemma tree_extend:
  "full v l (p, m) \<Longrightarrow> tail0 v l (p, m) \<Longrightarrow> 0 < m \<Longrightarrow> m \<le> n \<Longrightarrow> n \<le> cap l \<Longrightarrow> \<forall>a\<in>inner v l (p, m). length (words_of_bytes (v a)) = INDIRECT
     \<Longrightarrow> used v l (p, n) = used v l (p, m) \<and> tree_ok v l (p, n) = tree_ok v l (p, m)
       \<and> leaves v l (p, n) = leaves v l (p, m) @ replicate (n - m) 0 \<and> tail0 v l (p, n)"
proof (induction l arbitrary: p m n)
  case 0
  then have "n = m" by (simp add: cap_def)
  then show ?case by simp
next
  case (Suc l)
  have p: "p \<noteq> 0" using full_root [OF Suc.prems(1)] by simp
  have len: "length (words_of_bytes (v p)) = INDIRECT" using Suc.prems(6) p by simp
  have szn: "length (sizes (cap l) n) \<le> length (words_of_bytes (v p))" unfolding len by (rule length_sizes_le [OF Suc.prems(5)])
  have row: "(\<Union>x\<in>set (kids v l p n). used v l x) = (\<Union>x\<in>set (kids v l p m). used v l x)
    \<and> forest (used v l) (tree_ok v l) (kids v l p n) = forest (used v l) (tree_ok v l) (kids v l p m)
    \<and> concat (map (leaves v l) (kids v l p n)) = concat (map (leaves v l) (kids v l p m)) @ replicate (n - m) 0
    \<and> (\<forall>x\<in>set (kids v l p n). tail0 v l x)"
    unfolding kids_def
  proof (rule row_extend [OF cap_pos Suc.prems(4) szn])
    show "\<forall>w\<in>set (drop (length (sizes (cap l) m)) (words_of_bytes (v p))). w = 0" using Suc.prems(2) p by simp
    show "used v l (q, b) = used v l (q, a) \<and> tree_ok v l (q, b) = tree_ok v l (q, a)
        \<and> leaves v l (q, b) = leaves v l (q, a) @ replicate (b - a) 0 \<and> tail0 v l (q, b)"
      if "(q, a) \<in> set (zip (words_of_bytes (v p)) (sizes (cap l) m))" "a \<le> b" "b \<le> cap l" for q a b
    proof (rule Suc.IH [OF _ _ _ that(2,3)])
      have k: "(q, a) \<in> set (kids v l p m)" using that(1) by (simp add: kids_def)
      then show "full v l (q, a)" "tail0 v l (q, a)" "\<forall>a\<in>inner v l (q, a). length (words_of_bytes (v a)) = INDIRECT"
        using Suc.prems p by auto
      show "0 < a" using sizes_set [OF cap_pos] set_zip_rightD [OF that(1)] by blast
    qed
    show "used v l (0, b) = {} \<and> tree_ok v l (0, b) \<and> leaves v l (0, b) = replicate b 0 \<and> tail0 v l (0, b)"
      if "0 < b" "b \<le> cap l" for b using that by (cases l) (auto simp: cap_def le_Suc_eq)
  qed
  have "\<forall>w\<in>set (drop (length (sizes (cap l) n)) (words_of_bytes (v p))). w = 0"
  proof -
    have "(m + cap l - 1) div cap l \<le> (n + cap l - 1) div cap l" using Suc.prems(4) by (intro div_le_mono) simp
    then have "set (drop (length (sizes (cap l) n)) (words_of_bytes (v p))) \<subseteq> set (drop (length (sizes (cap l) m)) (words_of_bytes (v p)))"
      by (intro set_drop_subset_set_drop) (simp add: length_sizes)
    then show ?thesis using Suc.prems(2) p by auto
  qed
  moreover have "(\<forall>x\<in>set (kids v l p n). p \<notin> used v l x) = (\<forall>x\<in>set (kids v l p m). p \<notin> used v l x)"
    using row by blast
  ultimately show ?case using row p by simp
qed

context sector_allocator
begin

lemma alloc_zeroed:
  assumes "ok st" "free st \<noteq> {}"
  shows "\<exists>a st1 st2. alloc st = Some (Some a, st1) \<and> bc_write a zeros st1 = Some st2 \<and> ok st2 \<and> a \<in> free st
    \<and> free st2 = free st - {a} \<and> grows free sys {} st st2 \<and> disk st2 a = zeros \<and> card (free st) = card (free st2) + 1"
proof -
  from alloc_spec [OF assms] obtain a st1 where
    a: "alloc st = Some (Some a, st1)" "ok st1" "a \<in> free st" "free st1 = free st - {a}" "sys st1 = sys st" "sectors st1 = sectors st"
      "same_heap st st1" "\<forall>b. b \<notin> sys st \<longrightarrow> disk st1 b = disk st b" by blast
  note fr = free_range [OF assms(1) a(3)]
  from bc_write_step [of st1 a zeros] ok_disk [OF a(2)] fr a(6) obtain st2 where
    w: "bc_write a zeros st1 = Some st2" "disk_step st1 ((disk st1)(a := zeros)) st2" by auto
  from write_ok [OF a(2) w(2)] fr a(5) have o2: "ok st2" "free st2 = free st1" "sys st2 = sys st1" by auto
  note f = disk_stepD [OF w(2)]
  have "grows free sys {} st st2"
    using a o2 f same_heap_trans [OF a(7) disk_step_heap [OF w(2)]] by (auto simp: grows_def)
  moreover have "card (free st) = card (free st2) + 1"
    using card.remove [OF finite_free [OF assms(1)] a(3)] a(4) o2(2) by simp
  ultimately show ?thesis using a w o2 f by auto
qed

lemma reserves_0: "reserves alloc ok free sys 0"
  unfolding reserves_def
proof (intro allI impI)
  fix st p m
  assume ok: "ok st" and m: "0 < m" "m \<le> cap 0" and u: "used (disk st) 0 (p, m) \<subseteq> alloced free sys st" and c: "cost 0 m \<le> card (free st)"
  show "\<exists>q st'. reserve_indir alloc 0 p m st = Some (True, q, st') \<and> ok st' \<and> tree_done free sys 0 st (p, m) (q, m) st'"
  proof (cases "p = 0")
    case False
    then show ?thesis using ok grows_refl by (intro exI [of _ p] exI [of _ st]) (simp add: tree_done_def grown_def)
  next
    case True
    have "free st \<noteq> {}" using c by auto
    from alloc_zeroed [OF ok this] obtain a st1 st2 where
      a: "alloc st = Some (Some a, st1)" "bc_write a zeros st1 = Some st2" "ok st2" "a \<in> free st" "free st2 = free st - {a}"
        "grows free sys {} st st2" "disk st2 a = zeros" "card (free st) = card (free st2) + 1" by blast
    have "a \<noteq> 0" using free_range [OF ok a(4)] by simp
    with True a show ?thesis by (intro exI [of _ a] exI [of _ st2]) (auto simp: tree_done_def grown_def)
  qed
qed

end

text \<open>The block at the root of a tree, allocated if it is not there.\<close>

definition root_step :: "allocator \<Rightarrow> nat \<Rightarrow> fs \<Rightarrow> (nat \<times> fs) option" where
  "root_step alloc page st =
     (if page = 0 then do {
        (r, st) \<leftarrow> alloc st;
        let page = (case r of None \<Rightarrow> page | Some p \<Rightarrow> p);
        st \<leftarrow> bc_write page zeros st;
        Some (page, st) }
      else Some (page, st))"

lemma reserve_indir_Suc:
  "Suc l \<le> 2 \<Longrightarrow> reserve_indir alloc (Suc l) page num st = do {
     (page, st) \<leftarrow> root_step alloc page st;
     (buf, st) \<leftarrow> bc_read page st;
     (ok, num, block, st) \<leftarrow>
       reserve_loop (reserve_indir alloc l) (cap l) 0 (DIV_ROUND_UP num (cap l)) num (words_of_bytes buf) st;
     if \<not> ok then Some (False, page, st)
     else do {
       ASSERT (num = 0);
       st \<leftarrow> bc_write page (bytes_of_words block) st;
       Some (True, page, st) } }"
  by (cases "l = 0") (auto simp: root_step_def cap_def Let_def le_Suc_eq)

lemma zip_take_left: "length ys \<le> k \<Longrightarrow> zip (take k xs) ys = zip xs ys"
  by (simp add: list_eq_iff_nth_eq min_def)

lemma zip_fst_snd_append: "zip (map fst ys @ zs) (map snd ys) = ys"
  by (induction ys) auto

lemma grows_shrink: "grows free sys c st st' \<Longrightarrow> c \<subseteq> d \<union> (free st - free st') \<Longrightarrow> grows free sys d st st'"
  unfolding grows_def by blast

lemma disk_step_grows:
  "disk_step st w st' \<Longrightarrow> (\<And>a. a \<notin> c \<Longrightarrow> w a = disk st a) \<Longrightarrow> free st' = free st \<Longrightarrow> sys st' = sys st \<Longrightarrow> grows free sys c st st'"
  using disk_stepD [of st w st'] disk_step_heap [of st w st'] by (simp add: grows_def)

lemma used_below: "p \<noteq> 0 \<Longrightarrow> x \<in> set (kids v l p n) \<Longrightarrow> used v l x \<subseteq> used v (Suc l) (p, n)"
  by auto

context sector_allocator
begin

lemma root_step_spec:
  assumes "ok st" "n \<le> cap (Suc l)" "tree_ok (disk st) (Suc l) (p, n)" "used (disk st) (Suc l) (p, n) \<subseteq> alloced free sys st" "free st \<noteq> {}"
  shows "\<exists>q st'. root_step alloc p st = Some (q, st') \<and> ok st' \<and> grows free sys {} st st' \<and> q \<noteq> 0 \<and> tree_ok (disk st') (Suc l) (q, n)
    \<and> used (disk st') (Suc l) (q, n) \<subseteq> alloced free sys st' \<and> used (disk st') (Suc l) (q, n) \<subseteq> used (disk st) (Suc l) (p, n) \<union> (free st - free st')
    \<and> leaves (disk st') (Suc l) (q, n) = leaves (disk st) (Suc l) (p, n) \<and> card (free st) \<le> card (free st') + 1
    \<and> (\<forall>a\<in>used (disk st) (Suc l) (p, n). disk st' a = disk st a)
    \<and> (tail0 (disk st) (Suc l) (p, n) \<longrightarrow> tail0 (disk st') (Suc l) (q, n))"
proof (cases "p = 0")
  case False
  then show ?thesis using assms grows_refl by (intro exI [of _ p] exI [of _ st]) (auto simp: root_step_def)
next
  case True
  from alloc_zeroed [OF assms(1,5)] obtain a st1 st2 where
    a: "alloc st = Some (Some a, st1)" "bc_write a zeros st1 = Some st2" "ok st2" "a \<in> free st" "free st2 = free st - {a}"
      "grows free sys {} st st2" "disk st2 a = zeros" "card (free st) = card (free st2) + 1" by blast
  have a0: "a \<noteq> 0" "a \<in> alloced free sys st2"
    using free_range [OF assms(1) a(4)] a(5,6) by (auto simp: alloced_def grows_def)
  note z = tree_zeros [of "disk st2" a, OF a(7) assms(2) a0(1)]
  have "root_step alloc p st = Some (a, st2)" using True a(1,2) by (simp add: root_step_def)
  moreover have "leaves (disk st) (Suc l) (p, n) = replicate n 0" "used (disk st) (Suc l) (p, n) = {}" using True by simp_all
  ultimately show ?thesis using a a0 z by auto
qed

lemma reserves_Suc:
  assumes IH: "reserves alloc ok free sys l" and l: "Suc l \<le> 2"
  shows "reserves alloc ok free sys (Suc l)"
  unfolding reserves_def
proof (intro allI impI)
  fix st p n
  assume ok: "ok st" and n: "0 < n" "n \<le> cap (Suc l)" and t: "tree_ok (disk st) (Suc l) (p, n)"
    and u: "used (disk st) (Suc l) (p, n) \<subseteq> alloced free sys st" and c: "cost (Suc l) n \<le> card (free st)"
  have "free st \<noteq> {}" using c by auto
  from root_step_spec [OF ok n(2) t u this] obtain q st1 where
    q: "root_step alloc p st = Some (q, st1)" "ok st1" "grows free sys {} st st1" "q \<noteq> 0" "tree_ok (disk st1) (Suc l) (q, n)"
      "used (disk st1) (Suc l) (q, n) \<subseteq> alloced free sys st1" "used (disk st1) (Suc l) (q, n) \<subseteq> used (disk st) (Suc l) (p, n) \<union> (free st - free st1)"
      "leaves (disk st1) (Suc l) (q, n) = leaves (disk st) (Suc l) (p, n)" "card (free st) \<le> card (free st1) + 1"
      "\<forall>a\<in>used (disk st) (Suc l) (p, n). disk st1 a = disk st a"
      "tail0 (disk st) (Suc l) (p, n) \<longrightarrow> tail0 (disk st1) (Suc l) (q, n)" by blast
  define xs where "xs = kids (disk st1) l q n"
  define block where "block = words_of_bytes (disk st1 q)"
  have qa: "q \<in> alloced free sys st1" "useds (disk st1) l xs \<subseteq> alloced free sys st1" "q \<notin> useds (disk st1) l xs"
      "forest (used (disk st1) l) (tree_ok (disk st1) l) xs" using q(4-6) by (auto simp: xs_def)
  have qs: "q < sectors st1" "q \<notin> sys st1" "q \<notin> free st1" using qa(1) by (auto simp: alloced_def)
  from bc_read_step [of st1 q] ok_disk [OF q(2)] qs(1) obtain st2 where
    r: "bc_read q st1 = Some (disk st1 q, st2)" "quiet st1 st2" by blast
  note f2 = disk_stepD [OF r(2)]
  have o2: "ok st2" "free st2 = free st1" "sys st2 = sys st1" using write_ok [OF q(2) r(2)] by auto
  have len: "length block = INDIRECT"
    using cache.view_length [of "bc st1" q] ok_disk [OF q(2)] qs(1) by (simp add: block_def BLOCK_SECTOR_SIZE_def INDIRECT_def)
  define k where "k = length (sizes (cap l) n)"
  have k: "k \<le> INDIRECT" "DIV_ROUND_UP n (cap l) = k"
  proof -
    show "k \<le> INDIRECT" unfolding k_def by (rule length_sizes_le [OF n(2)])
    have "n + cap l - 1 < 2 ^ 32" using n(2) l by (cases "l = 0") (auto simp: cap_def INDIRECT_def le_Suc_eq)
    then show "DIV_ROUND_UP n (cap l) = k" by (simp add: DIV_ROUND_UP_def k_def length_sizes)
  qed
  have al2: "alloced free sys st2 = alloced free sys st1" using o2 f2 by (simp add: alloced_def)
  have "\<exists>ys st3. reserve_loop (reserve_indir alloc l) (cap l) 0 k n block st2
      = Some (True, 0, take 0 block @ map fst ys @ drop (0 + k) block, st3) \<and> ok st3 \<and> forest_done free sys l st2 xs ys st3"
  proof (rule reserve_loop_spec [OF IH o2(1)])
    show "k = length (sizes (cap l) n)" by (rule k_def)
    show "xs = zip (take k (drop 0 block)) (sizes (cap l) n)"
      by (simp add: xs_def kids_def block_def k_def zip_take_left)
    show "0 + k \<le> length block" using k(1) len by simp
    show "forest (used (disk st2) l) (tree_ok (disk st2) l) xs" using qa(4) f2(2) by simp
    show "useds (disk st2) l xs \<subseteq> alloced free sys st2" using qa(2) f2(2) al2 by simp
    show "sum_list (map (cost l) (sizes (cap l) n)) \<le> card (free st2)" using c q(9) o2(2) by simp
  qed
  then obtain ys st3 where ys: "reserve_loop (reserve_indir alloc l) (cap l) 0 k n block st2
      = Some (True, 0, map fst ys @ drop k block, st3)" "ok st3" "forest_done free sys l st2 xs ys st3" by auto
  show "\<exists>q st'. reserve_indir alloc (Suc l) p n st = Some (True, q, st') \<and> ok st' \<and> tree_done free sys (Suc l) st (p, n) (q, n) st'"
  proof -
    note fd = ys(3) [unfolded forest_done_def]
    define v3 where "v3 = disk st3"
    have g3: "grows free sys (useds (disk st1) l xs) st2 st3" using fd f2(2) by simp
    have m3: "sys st3 = sys st1" "sectors st3 = sectors st1" "free st3 \<subseteq> free st1" using g3 o2 f2 by (auto simp: grows_def)
    have uys: "useds v3 l ys \<subseteq> useds (disk st1) l xs \<union> (free st1 - free st3)" using fd f2(2) o2(2) by (simp add: v3_def)
    have q3: "q < sectors st3" "q \<notin> sys st3" "q \<notin> useds v3 l ys" using qs qa(3) m3 subsetD [OF uys, of q] by auto
    define ws where "ws = map fst ys @ drop k block"
    have snds: "map snd ys = sizes (cap l) n"
    proof -
      have "map snd ys = map snd xs" using fd by simp
      also have "\<dots> = take (length block) (sizes (cap l) n)" by (simp add: xs_def kids_def block_def map_snd_zip_take min_def)
      finally show ?thesis using k(1) len by (simp add: k_def)
    qed
    have lw: "length ws = INDIRECT" using arg_cong [OF snds, of length] len k(1) by (simp add: ws_def k_def)
    have "fst y < 2 ^ 32" if y: "y \<in> set ys" for y
    proof -
      have "full v3 l (fst y, snd y)" using fd y by (simp add: v3_def)
      from full_root [OF this] have "fst y \<in> useds v3 l ys" using y by auto
      then have "fst y \<in> alloced free sys st1 \<union> free st1" using uys qa(2) by blast
      then show ?thesis using free_range [OF q(2)] ok_disk [OF q(2)] by (auto simp: alloced_def dest: less_trans)
    qed
    moreover have "w < 2 ^ 32" if "w \<in> set (drop k block)" for w
      using set_drop_subset [THEN subsetD, OF that] words_of_bytes_less by (simp add: block_def)
    ultimately have small: "\<forall>w\<in>set ws. w < 2 ^ 32" by (auto simp: ws_def)
    from bc_write_step [of st3 q "bytes_of_words ws"] ok_disk [OF ys(2)] q3(1) lw obtain st4 where
      w: "bc_write q (bytes_of_words ws) st3 = Some st4" "disk_step st3 (v3(q := bytes_of_words ws)) st4"
      by (auto simp: v3_def INDIRECT_def BLOCK_SECTOR_SIZE_def)
    note f4 = disk_stepD [OF w(2)]
    have o4: "ok st4" "free st4 = free st3" "sys st4 = sys st3" using write_ok [OF ys(2) w(2)] q3(2) by (auto simp: v3_def)
    have kids4: "kids (disk st4) l q n = ys"
      by (simp add: kids_def f4(2) words_of_bytes_of_words [OF small] snds [symmetric]) (simp add: ws_def zip_fst_snd_append)
    have keep4: "\<forall>a\<in>useds v3 l ys. disk st4 a = v3 a" using q3(3) f4(2) by auto
    have tree4: "used (disk st4) l y = used v3 l y" "full (disk st4) l y = full v3 l y" "leaves (disk st4) l y = leaves v3 l y"
      if "y \<in> set ys" for y using tree_cong [of v3 l y "disk st4"] keep4 that by auto
    note forest4 = forest_used_cong [OF keep4]
    have t4: "tree_ok (disk st4) (Suc l) (q, n)" "full (disk st4) (Suc l) (q, n)" "used (disk st4) (Suc l) (q, n) = insert q (useds v3 l ys)"
      "leaves (disk st4) (Suc l) (q, n) = concat (map (leaves v3 l) ys)"
      using q(4) q3(3) fd forest4 tree4 by (auto simp: kids4 v3_def cong: map_cong)
    have u1: "used (disk st1) (Suc l) (q, n) = insert q (useds (disk st1) l xs)" using q(4) by (simp add: xs_def)
    have "grows free sys {} st1 st2" using r(2) o2 by (intro disk_step_grows) auto
    moreover have "grows free sys {q} st3 st4" using w(2) o4 by (intro disk_step_grows [OF w(2)]) (auto simp: v3_def)
    ultimately have "grows free sys (used (disk st1) (Suc l) (q, n)) st st4"
      unfolding u1 by (intro grows_trans [OF grows_trans [OF grows_trans [OF q(3) _ subset_refl] g3 subset_refl]]) auto
    moreover have fr4: "free st - free st1 \<subseteq> free st - free st4" "free st1 - free st3 \<subseteq> free st - free st4"
      using m3(3) o4(2) q(3) by (auto simp: grows_def)
    ultimately have g: "grows free sys (used (disk st) (Suc l) (p, n)) st st4"
      using q(7) by (elim grows_shrink) blast
    have ud: "used (disk st4) (Suc l) (q, n) \<subseteq> used (disk st) (Suc l) (p, n) \<union> (free st - free st4)"
      using q(7) uys fr4 unfolding t4(3) u1 by blast
    have "list_all2 (grown (disk st1) v3) (concat (map (leaves (disk st1) l) xs)) (concat (map (leaves v3 l) ys))"
      using fd f2(2) by (intro list_all2_concat) (simp add: v3_def)
    moreover have lv: "concat (map (leaves (disk st1) l) xs) = leaves (disk st) (Suc l) (p, n)"
      using q(4,8) by (simp add: xs_def)
    ultimately have "list_all2 (grown (disk st1) v3) (leaves (disk st) (Suc l) (p, n)) (leaves (disk st4) (Suc l) (q, n))"
      by (simp only: t4(4))
    then have gr: "list_all2 (grown (disk st) (disk st4)) (leaves (disk st) (Suc l) (p, n)) (leaves (disk st4) (Suc l) (q, n))"
    proof (rule grown_cong)
      show "disk st a = disk st1 a" if "a \<in> set (leaves (disk st) (Suc l) (p, n))" "a \<noteq> 0" for a
        using leaves_used [OF that] q(10) by simp
      show "disk st4 a = v3 a" if "a \<in> set (leaves (disk st4) (Suc l) (q, n))" "a \<noteq> 0" for a
        using that leaves_used [of a v3 l] keep4 unfolding t4(4) by auto
    qed
    have "sum_list (map (cost l \<circ> snd) xs) = sum_list (map (cost l) (sizes (cap l) n))"
      using fd snds by (metis map_map)
    then have cd: "card (free st) \<le> card (free st4) + cost (Suc l) n" using fd q(9) o2(2) o4(2) by simp
    have "reserve_indir alloc (Suc l) p n st = Some (True, q, st4)"
      using q(1) r(1) ys(1) w(1) k(2) unfolding reserve_indir_Suc [OF l] by (simp add: block_def [symmetric] ws_def)
    moreover have "tail0 (disk st4) (Suc l) (q, n)" if "tail0 (disk st) (Suc l) (p, n)"
    proof -
      have t: "\<forall>w\<in>set (drop k block). w = 0" "\<forall>x\<in>set xs. tail0 (disk st2) l x"
        using q(4,11) that f2(2) by (auto simp: block_def k_def xs_def)
      have "length (map fst ys) = k" using arg_cong [OF snds, of length] by (simp add: k_def)
      then have "drop k ws = drop k block" by (simp add: ws_def)
      moreover have "tail0 (disk st4) l y" if "y \<in> set ys" for y
        using fd t(2) that tail0_cong [of v3 l y "disk st4"] keep4 by (auto simp: v3_def)
      ultimately show ?thesis using t(1) unfolding tail0.simps prod.case kids4
        by (simp add: f4(2) words_of_bytes_of_words [OF small] k_def)
    qed
    ultimately show ?thesis using o4(1) g t4(1,2) ud gr cd unfolding tree_done_def snd_conv by blast
  qed
qed

end



end
