(* ===== verification/InodeIndex.thy ===== *)
theory InodeIndex imports IndexTree "HOL-Library.Multiset" begin

section \<open>The index of an inode as trees\<close>

text \<open>
  The sectors of an inode for a file of \<open>n\<close> sectors are a row of direct blocks, a tree of level 1 under
  the indirect block and one of level 2 under the doubly indirect block.  When these are complete, the
  file's sectors in the sense of \<open>inode_ok\<close> are their leaves.
\<close>

text \<open>How many sectors each part has.\<close>

definition n_dir :: "nat \<Rightarrow> nat" where "n_dir n = min n DIRECT"
definition n_ind :: "nat \<Rightarrow> nat" where "n_ind n = min (n - DIRECT) INDIRECT"
definition n_dbl :: "nat \<Rightarrow> nat" where "n_dbl n = n - DIRECT - INDIRECT"

definition dir_row :: "inode_disk \<Rightarrow> nat \<Rightarrow> (nat \<times> nat) list" where
  "dir_row d n = map (\<lambda>p. (p, 1)) (take (n_dir n) (dir_blocks d))"

text \<open>A tree that is not there when it has no sectors.\<close>

definition part_used :: "(nat \<Rightarrow> byte list) \<Rightarrow> nat \<Rightarrow> nat \<Rightarrow> nat \<Rightarrow> nat set" where
  "part_used v l p k = (if k = 0 then {} else used v l (p, k))"

definition part_ok :: "(nat \<Rightarrow> byte list) \<Rightarrow> nat \<Rightarrow> nat \<Rightarrow> nat \<Rightarrow> bool" where
  "part_ok v l p k = (k \<noteq> 0 \<longrightarrow> tree_ok v l (p, k))"

definition part_full :: "(nat \<Rightarrow> byte list) \<Rightarrow> nat \<Rightarrow> nat \<Rightarrow> nat \<Rightarrow> bool" where
  "part_full v l p k = (k \<noteq> 0 \<longrightarrow> full v l (p, k))"

definition part_leaves :: "(nat \<Rightarrow> byte list) \<Rightarrow> nat \<Rightarrow> nat \<Rightarrow> nat \<Rightarrow> nat list" where
  "part_leaves v l p k = (if k = 0 then [] else leaves v l (p, k))"

text \<open>Nothing behind the tree's sectors; a tree without sectors is not there.\<close>

definition part_tail :: "(nat \<Rightarrow> byte list) \<Rightarrow> nat \<Rightarrow> nat \<Rightarrow> nat \<Rightarrow> bool" where
  "part_tail v l p k = (if k = 0 then p = 0 else tail0 v l (p, k))"

definition part_cost :: "nat \<Rightarrow> nat \<Rightarrow> nat" where
  "part_cost l k = (if k = 0 then 0 else cost l k)"

definition index_used :: "(nat \<Rightarrow> byte list) \<Rightarrow> inode_disk \<Rightarrow> nat \<Rightarrow> nat set" where
  "index_used v d n = (useds v 0 (dir_row d n) \<union> part_used v 1 (indir_block d) (n_ind n)) \<union> part_used v 2 (d_indir_block d) (n_dbl n)"

definition index_ok :: "(nat \<Rightarrow> byte list) \<Rightarrow> inode_disk \<Rightarrow> nat \<Rightarrow> bool" where
  "index_ok v d n = (forest (used v 0) (tree_ok v 0) (dir_row d n) \<and> part_ok v 1 (indir_block d) (n_ind n)
     \<and> part_ok v 2 (d_indir_block d) (n_dbl n)
     \<and> useds v 0 (dir_row d n) \<inter> part_used v 1 (indir_block d) (n_ind n) = {}
     \<and> (useds v 0 (dir_row d n) \<union> part_used v 1 (indir_block d) (n_ind n)) \<inter> part_used v 2 (d_indir_block d) (n_dbl n) = {})"

definition index_full :: "(nat \<Rightarrow> byte list) \<Rightarrow> inode_disk \<Rightarrow> nat \<Rightarrow> bool" where
  "index_full v d n = ((\<forall>x\<in>set (dir_row d n). full v 0 x) \<and> part_full v 1 (indir_block d) (n_ind n) \<and> part_full v 2 (d_indir_block d) (n_dbl n))"

definition index_leaves :: "(nat \<Rightarrow> byte list) \<Rightarrow> inode_disk \<Rightarrow> nat \<Rightarrow> nat list" where
  "index_leaves v d n = take (n_dir n) (dir_blocks d) @ part_leaves v 1 (indir_block d) (n_ind n) @ part_leaves v 2 (d_indir_block d) (n_dbl n)"

definition index_tail :: "(nat \<Rightarrow> byte list) \<Rightarrow> inode_disk \<Rightarrow> nat \<Rightarrow> bool" where
  "index_tail v d n = ((\<forall>b\<in>set (drop (n_dir n) (dir_blocks d)). b = 0)
     \<and> part_tail v 1 (indir_block d) (n_ind n) \<and> part_tail v 2 (d_indir_block d) (n_dbl n))"

definition index_cost :: "nat \<Rightarrow> nat" where
  "index_cost n = n_dir n + part_cost 1 (n_ind n) + part_cost 2 (n_dbl n)"

lemma part_cong:
  "\<forall>a\<in>part_used v l p k. w a = v a \<Longrightarrow> part_used w l p k = part_used v l p k \<and> part_ok w l p k = part_ok v l p k
     \<and> part_full w l p k = part_full v l p k \<and> part_leaves w l p k = part_leaves v l p k"
  using tree_cong(1) [of v l "(p, k)" w] by (auto simp: part_used_def part_ok_def part_full_def part_leaves_def)

lemma part_tail_cong: "\<forall>a\<in>part_used v l p k. w a = v a \<Longrightarrow> part_tail w l p k = part_tail v l p k"
  using tail0_cong [of v l "(p, k)" w] by (auto simp: part_used_def part_tail_def)

lemma part_leaves_used: "a \<in> set (part_leaves v l p k) \<Longrightarrow> a \<noteq> 0 \<Longrightarrow> a \<in> part_used v l p k"
  using leaves_used by (auto simp: part_leaves_def part_used_def split: if_splits)

lemma useds_0: "useds v 0 (dir_row d n) = set (take (n_dir n) (dir_blocks d)) - {0}"
  by (auto simp: dir_row_def split: if_splits)

lemma index_used_cong:
  assumes "\<forall>a\<in>index_used v d n. w a = v a"
  shows "index_used w d n = index_used v d n" "index_ok w d n = index_ok v d n" "index_leaves w d n = index_leaves v d n"
    "index_full w d n = index_full v d n"
proof -
  have p: "\<forall>a\<in>part_used v 1 (indir_block d) (n_ind n). w a = v a" "\<forall>a\<in>part_used v 2 (d_indir_block d) (n_dbl n). w a = v a"
    using assms by (auto simp: index_used_def)
  note c = part_cong [OF p(1)] part_cong [OF p(2)]
  show "index_used w d n = index_used v d n" "index_leaves w d n = index_leaves v d n"
    using c by (simp_all add: index_used_def useds_0 index_leaves_def)
  show "index_ok w d n = index_ok v d n"
    using c forest_cong [of "dir_row d n" "used w 0" "used v 0" "tree_ok w 0" "tree_ok v 0"]
    unfolding index_ok_def useds_0 by simp
  show "index_full w d n = index_full v d n" using c by (simp add: index_full_def dir_row_def)
qed

subsection \<open>The leaves in order\<close>

lemma sizes_1: "sizes 1 n = replicate n 1"
  by (induction n) auto

lemma kids_0: "n \<le> length (words_of_bytes (v p)) \<Longrightarrow> kids v 0 p n = map (\<lambda>q. (q, 1)) (take n (words_of_bytes (v p)))"
  by (simp add: kids_def cap_def sizes_1 zip_replicate2) (simp add: sizes_1 [simplified] zip_replicate2)

lemma concat_single: "concat (map (\<lambda>x. [f x]) xs) = map f xs"
  by (induction xs) auto

lemma leaves_1:
  assumes "p \<noteq> 0" "n \<le> length (words_of_bytes (v p))"
  shows "leaves v 1 (p, n) = take n (words_of_bytes (v p))"
proof -
  have "leaves v 1 (p, n) = concat (map (leaves v 0) (kids v 0 p n))" using assms(1) by simp
  also have "\<dots> = take n (words_of_bytes (v p))" unfolding kids_0 [where v = v, OF assms(2)] by (simp add: comp_def concat_single)
  finally show ?thesis .
qed

text \<open>Item \<open>i\<close> of what \<open>sizes\<close> divides among the entries lies in entry \<open>i div c\<close>.\<close>

lemma concat_sizes_nth:
  assumes "0 < c" "\<And>x m. (x, m) \<in> set (zip ws (sizes c n)) \<Longrightarrow> length (f (x, m)) = m"
    "length (sizes c n) \<le> length ws" "i < n"
  shows "\<exists>m. (ws ! (i div c), m) \<in> set (zip ws (sizes c n)) \<and> i mod c < m
    \<and> concat (map f (zip ws (sizes c n))) ! i = f (ws ! (i div c), m) ! (i mod c)"
  using assms
proof (induction c n arbitrary: ws i rule: sizes.induct)
  case (1 c n)
  have n: "n \<noteq> 0" "c \<noteq> 0" using 1 by auto
  then have sz: "sizes c n = min c n # sizes c (n - min c n)" by simp
  obtain w ws' where ws: "ws = w # ws'" using 1(4) by (cases ws) (auto simp: sz)
  have len: "length (f (w, min c n)) = min c n" using 1(3) [of w "min c n"] by (simp add: ws sz)
  show ?case
  proof (cases "i < c")
    case True
    then have "i div c = 0" "i mod c = i" "i < min c n" using 1(5) by auto
    then show ?thesis using len by (intro exI [of _ "min c n"]) (simp add: ws sz nth_append)
  next
    case False
    then have cn: "min c n = c" using 1(5) by simp
    have "(i - c) div c = i div c - 1" "(i - c) mod c = i mod c" "0 < i div c"
      using False 1(2) by (simp_all add: le_div_geq le_mod_geq)
    then have idx: "ws ! (i div c) = ws' ! ((i - c) div c)" "i mod c = (i - c) mod c" by (simp_all add: ws nth_Cons')
    have "\<exists>m. (ws' ! ((i - c) div c), m) \<in> set (zip ws' (sizes c (n - min c n))) \<and> (i - c) mod c < m
        \<and> concat (map f (zip ws' (sizes c (n - min c n)))) ! (i - c) = f (ws' ! ((i - c) div c), m) ! ((i - c) mod c)"
    proof (rule 1(1))
      show "\<not> (n = 0 \<or> c = 0)" using n by simp
      show "0 < c" by (rule 1(2))
      show "length (f (x, m)) = m" if "(x, m) \<in> set (zip ws' (sizes c (n - min c n)))" for x m
        using that by (intro 1(3)) (simp add: ws sz)
      show "length (sizes c (n - min c n)) \<le> length ws'" using 1(4) by (simp add: ws sz)
      show "i - c < n - min c n" using False 1(5) cn by simp
    qed
    then obtain m where "(ws ! (i div c), m) \<in> set (zip ws' (sizes c (n - min c n)))" "i mod c < m"
      "concat (map f (zip ws' (sizes c (n - min c n)))) ! (i - c) = f (ws ! (i div c), m) ! (i mod c)"
      unfolding idx by blast
    then show ?thesis using False len cn by (intro exI [of _ m]) (simp add: ws sz nth_append)
  qed
qed

lemma kids_sizes: "(q, m) \<in> set (kids v l p n) \<Longrightarrow> 0 < m \<and> m \<le> cap l"
  using sizes_set [OF cap_pos] by (auto simp: kids_def dest: set_zip_rightD)

lemma cap_1 [simp]: "cap (Suc 0) = INDIRECT"
  by (simp add: cap_def)

lemma leaves_2_nth:
  assumes "full v 2 (p, n)" "n \<le> INDIRECT * INDIRECT" "\<And>a. length (words_of_bytes (v a)) = INDIRECT \<or> a \<notin> used v 2 (p, n)"
  shows "length (leaves v 2 (p, n)) = n"
    "i < n \<Longrightarrow> leaves v 2 (p, n) ! i = words_of_bytes (v (words_of_bytes (v p) ! (i div INDIRECT))) ! (i mod INDIRECT)"
proof -
  have p: "p \<noteq> 0" and fk: "\<forall>x\<in>set (kids v 1 p n). full v 1 x" using assms(1) by (auto simp: numeral_2_eq_2)
  have kin: "q \<noteq> 0 \<and> q \<in> used v 2 (p, n)" if "(q, m) \<in> set (kids v 1 p n)" for q m
  proof -
    have "full v 1 (q, m)" using fk that by blast
    from full_root [OF this] p that show ?thesis by (auto simp: numeral_2_eq_2)
  qed
  have lv: "leaves v 1 (q, m) = take m (words_of_bytes (v q))" "length (leaves v 1 (q, m)) = m" if "(q, m) \<in> set (kids v 1 p n)" for q m
  proof -
    have len: "length (words_of_bytes (v q)) = INDIRECT" using kin [OF that] assms(3) [of q] by blast
    moreover have "m \<le> INDIRECT" using kids_sizes [OF that] by simp
    ultimately show "leaves v 1 (q, m) = take m (words_of_bytes (v q))" using kin [OF that] by (intro leaves_1) simp_all
    with len \<open>m \<le> INDIRECT\<close> show "length (leaves v 1 (q, m)) = m" by simp
  qed
  have "p \<in> used v 2 (p, n)" using full_root [OF assms(1)] by simp
  then have wp: "length (words_of_bytes (v p)) = INDIRECT" using assms(3) [of p] by blast
  have "length (sizes INDIRECT n) \<le> length (words_of_bytes (v p))"
    using length_sizes_le [of n 1] assms(2) wp by (simp add: cap_def)
  then have snds: "map snd (kids v 1 p n) = sizes INDIRECT n" by (simp add: kids_def map_snd_zip_take)
  have e: "leaves v 2 (p, n) = concat (map (leaves v 1) (kids v 1 p n))" using p by (simp add: numeral_2_eq_2)
  have "map length (map (leaves v 1) (kids v 1 p n)) = map snd (kids v 1 p n)" using lv(2) by auto
  then have "length (leaves v 2 (p, n)) = sum_list (sizes INDIRECT n)" unfolding e length_concat snds by (rule arg_cong)
  then show "length (leaves v 2 (p, n)) = n" by (simp add: sum_list_sizes INDIRECT_def)
  assume i: "i < n"
  from concat_sizes_nth [of INDIRECT "words_of_bytes (v p)" n "leaves v 1", OF _ _ \<open>length (sizes INDIRECT n) \<le> _\<close> i] lv(2)
  obtain m where m: "(words_of_bytes (v p) ! (i div INDIRECT), m) \<in> set (kids v 1 p n)" "i mod INDIRECT < m"
    "concat (map (leaves v 1) (kids v 1 p n)) ! i = leaves v 1 (words_of_bytes (v p) ! (i div INDIRECT), m) ! (i mod INDIRECT)"
    by (auto simp: kids_def INDIRECT_def)
  then show "leaves v 2 (p, n) ! i = words_of_bytes (v (words_of_bytes (v p) ! (i div INDIRECT))) ! (i mod INDIRECT)"
    unfolding e using lv(1) [OF m(1)] by simp
qed

text \<open>Every sector of a file is one of the device, so its block has its size.\<close>

definition blocks_ok :: "(nat \<Rightarrow> byte list) \<Rightarrow> inode_disk \<Rightarrow> nat \<Rightarrow> bool" where
  "blocks_ok v d n = (\<forall>a\<in>index_used v d n. length (v a) = BLOCK_SECTOR_SIZE)"

lemma length_leaves:
  assumes "l \<le> 1" "full v l (p, n)" "0 < n" "n \<le> cap l" "\<forall>a\<in>used v l (p, n). length (words_of_bytes (v a)) = INDIRECT"
  shows "length (leaves v l (p, n)) = n"
proof (cases "l = 0")
  case True
  with assms show ?thesis by (simp add: cap_def)
next
  case False
  then have l: "l = 1" using assms(1) by simp
  have p: "p \<noteq> 0" "p \<in> used v l (p, n)" using full_root [OF assms(2)] by auto
  then have "length (words_of_bytes (v p)) = INDIRECT" using assms(5) by blast
  with p show ?thesis using leaves_1 [of p n v] assms(4) by (simp add: l)
qed

lemma sum_parts: "n \<le> MAX_SECTORS \<Longrightarrow> n = n_dir n + n_ind n + n_dbl n \<and> n_dbl n \<le> INDIRECT * INDIRECT \<and> n_ind n \<le> INDIRECT"
  by (auto simp: n_dir_def n_ind_def n_dbl_def MAX_SECTORS_def)

lemma index_leaves_nth:
  notes One_nat_def [simp del]
  assumes "index_full v d n" "blocks_ok v d n" "n \<le> MAX_SECTORS" "length (dir_blocks d) = DIRECT"
  shows "length (index_leaves v d n) = n" "i < n \<Longrightarrow> index_leaves v d n ! i = sector_of v d i"
proof -
  have len: "length (words_of_bytes (v a)) = INDIRECT" if "a \<in> index_used v d n" for a
    using assms(2) that by (simp add: blocks_ok_def BLOCK_SECTOR_SIZE_def INDIRECT_def)
  have dl: "length (take (n_dir n) (dir_blocks d)) = n_dir n" using assms(4) by (simp add: n_dir_def)
  have il: "part_leaves v 1 (indir_block d) (n_ind n) = take (n_ind n) (words_of_bytes (v (indir_block d)))" "length (words_of_bytes (v (indir_block d))) = INDIRECT"
    if "n_ind n \<noteq> 0"
  proof -
    have f: "full v 1 (indir_block d, n_ind n)" using assms(1) that by (simp add: index_full_def part_full_def)
    from full_root [OF this] have r: "indir_block d \<noteq> 0" "indir_block d \<in> index_used v d n" using that by (auto simp: index_used_def part_used_def)
    show "length (words_of_bytes (v (indir_block d))) = INDIRECT" using len [OF r(2)] .
    then show "part_leaves v 1 (indir_block d) (n_ind n) = take (n_ind n) (words_of_bytes (v (indir_block d)))"
      using leaves_1 [OF r(1), of "n_ind n" v] that by (simp add: part_leaves_def n_ind_def)
  qed
  have ill: "length (part_leaves v 1 (indir_block d) (n_ind n)) = n_ind n"
  proof (cases "n_ind n = 0")
    case False
    then show ?thesis using il(2) unfolding il(1) [OF False] by (simp add: n_ind_def)
  qed (simp add: part_leaves_def)
  have dbl: "length (leaves v 2 (d_indir_block d, n_dbl n)) = n_dbl n"
    "k < n_dbl n \<Longrightarrow> leaves v 2 (d_indir_block d, n_dbl n) ! k = sector_of v d (k + (DIRECT + INDIRECT))" if "n_dbl n \<noteq> 0" for k
  proof -
    have f: "full v 2 (d_indir_block d, n_dbl n)" using assms(1) that by (simp add: index_full_def part_full_def)
    have l: "length (words_of_bytes (v a)) = INDIRECT \<or> a \<notin> used v 2 (d_indir_block d, n_dbl n)" for a
      using len that by (auto simp: index_used_def part_used_def)
    have m: "n_dbl n \<le> INDIRECT * INDIRECT" using sum_parts [OF assms(3)] by simp
    show "length (leaves v 2 (d_indir_block d, n_dbl n)) = n_dbl n" by (rule leaves_2_nth(1) [where v = v, OF f m l])
    show "leaves v 2 (d_indir_block d, n_dbl n) ! k = sector_of v d (k + (DIRECT + INDIRECT))" if "k < n_dbl n"
      using leaves_2_nth(2) [where v = v, OF f m l that] by (simp add: sector_of_def)
  qed
  then have dll: "length (part_leaves v 2 (d_indir_block d) (n_dbl n)) = n_dbl n" by (cases "n_dbl n = 0") (auto simp: part_leaves_def)
  show "length (index_leaves v d n) = n" using dl ill dll sum_parts [OF assms(3)] by (simp add: index_leaves_def)
  assume i: "i < n"
  consider "i < DIRECT" | "DIRECT \<le> i" "i < DIRECT + INDIRECT" | "DIRECT + INDIRECT \<le> i" by linarith
  then show "index_leaves v d n ! i = sector_of v d i"
  proof cases
    case 1
    then have "i < n_dir n" using i by (simp add: n_dir_def)
    then show ?thesis using 1 dl by (simp add: index_leaves_def nth_append sector_of_def)
  next
    case 2
    then have k: "n_dir n = DIRECT" "n_ind n \<noteq> 0" "i - DIRECT < n_ind n" using i by (auto simp: n_dir_def n_ind_def)
    then have "index_leaves v d n ! i = part_leaves v 1 (indir_block d) (n_ind n) ! (i - DIRECT)"
      using 2 dl ill by (simp add: index_leaves_def nth_append)
    then show ?thesis using 2 k il(2) [OF k(2)] unfolding il(1) [OF k(2)] by (simp add: sector_of_def)
  next
    case 3
    then have k: "n_dir n = DIRECT" "n_ind n = INDIRECT" "n_dbl n \<noteq> 0" "i - (DIRECT + INDIRECT) < n_dbl n"
      using i by (auto simp: n_dir_def n_ind_def n_dbl_def)
    have "\<not> i < DIRECT" "\<not> i - DIRECT < INDIRECT" using 3 by linarith+
    then have "index_leaves v d n ! i = leaves v 2 (d_indir_block d, n_dbl n) ! (i - (DIRECT + INDIRECT))"
      using k dl ill by (simp add: index_leaves_def nth_append part_leaves_def diff_diff_left)
    then show ?thesis using dbl(2) [OF k(3,4)] 3 by simp
  qed
qed

lemma index_leaves_data:
  assumes "index_full v d n" "blocks_ok v d n" "n \<le> MAX_SECTORS" "length (dir_blocks d) = DIRECT"
  shows "index_leaves v d n = data_sectors v d n"
  using index_leaves_nth [OF assms] by (intro nth_equalityI) (simp_all add: data_sectors_def)

subsection \<open>The sectors are different\<close>

primrec sects :: "(nat \<Rightarrow> byte list) \<Rightarrow> nat \<Rightarrow> nat \<times> nat \<Rightarrow> nat list" where
  "sects v 0 = (\<lambda>(p, n). [p])"
| "sects v (Suc l) = (\<lambda>(p, n). p # concat (map (sects v l) (kids v l p n)))"

lemma set_sects: "full v l x \<Longrightarrow> set (sects v l x) = used v l x"
proof (induction l arbitrary: x)
  case 0
  then show ?case by (cases x) simp
next
  case (Suc l)
  obtain p n where x: "x = (p, n)" by (cases x)
  have "set (sects v l y) = used v l y" if "y \<in> set (kids v l p n)" for y using that Suc by (auto simp: x)
  then show ?case using Suc.prems by (simp add: x)
qed

lemma forest_distinct:
  "forest U W xs \<Longrightarrow> (\<And>x. x \<in> set xs \<Longrightarrow> set (f x) = U x) \<Longrightarrow> (\<And>x. x \<in> set xs \<Longrightarrow> W x \<Longrightarrow> distinct (f x))
     \<Longrightarrow> distinct (concat (map f xs))"
  by (induction xs) auto

lemma distinct_sects: "full v l x \<Longrightarrow> tree_ok v l x \<Longrightarrow> distinct (sects v l x)"
proof (induction l arbitrary: x)
  case 0
  then show ?case by (cases x) simp
next
  case (Suc l)
  obtain p n where x: "x = (p, n)" by (cases x)
  have fk: "full v l y" if "y \<in> set (kids v l p n)" for y using that Suc.prems(1) by (simp add: x)
  have "distinct (concat (map (sects v l) (kids v l p n)))"
    using Suc.prems Suc.IH fk set_sects by (intro forest_distinct [of "used v l" "tree_ok v l"]) (auto simp: x)
  moreover have "p \<notin> set (concat (map (sects v l) (kids v l p n)))"
    using Suc.prems set_sects [OF fk] by (auto simp: x)
  ultimately show ?case by (simp add: x)
qed

lemma sects_1: "p \<noteq> 0 \<Longrightarrow> sects v 1 (p, n) = p # leaves v 1 (p, n)"
  by simp

lemma mset_concat_Cons: "mset (concat (map (\<lambda>x. f x # g x) xs)) = mset (map f xs) + mset (concat (map g xs))"
  by (induction xs) auto

lemma sects_2:
  assumes "full v 2 (p, n)"
  shows "mset (sects v 2 (p, n)) = {#p#} + mset (map fst (kids v 1 p n)) + mset (leaves v 2 (p, n))"
proof -
  have "sects v 1 x = fst x # leaves v 1 x" if "x \<in> set (kids v 1 p n)" for x
  proof -
    obtain q m where x: "x = (q, m)" by (cases x)
    have "full v 1 (q, m)" using assms that by (auto simp: numeral_2_eq_2 x)
    from full_root [OF this] have "q \<noteq> 0" ..
    then show ?thesis unfolding x fst_conv by (rule sects_1)
  qed
  then have "concat (map (sects v 1) (kids v 1 p n)) = concat (map (\<lambda>x. fst x # leaves v 1 x) (kids v 1 p n))"
    by (intro arg_cong [of _ _ concat] map_cong) auto
  moreover have "sects v 2 (p, n) = p # concat (map (sects v 1) (kids v 1 p n))"
    "leaves v 2 (p, n) = concat (map (leaves v 1) (kids v 1 p n))"
    using full_root [OF assms] by (simp_all add: numeral_2_eq_2)
  ultimately show ?thesis by (simp only: mset.simps mset_concat_Cons) simp
qed

lemma map_nth_take: "k \<le> length xs \<Longrightarrow> map (\<lambda>i. xs ! i) [0..<k] = take k xs"
  by (rule nth_equalityI) auto

lemma index_sectors_mset:
  notes One_nat_def [simp del]
  assumes "index_full v d n" "blocks_ok v d n" "n \<le> MAX_SECTORS" "length (dir_blocks d) = DIRECT"
  shows "mset (index_sectors v d n @ data_sectors v d n)
    = mset (take (n_dir n) (dir_blocks d) @ (if n_ind n = 0 then [] else sects v 1 (indir_block d, n_ind n))
        @ (if n_dbl n = 0 then [] else sects v 2 (d_indir_block d, n_dbl n)))"
proof -
  have i: "(n > DIRECT) = (n_ind n \<noteq> 0)" "(n > DIRECT + INDIRECT) = (n_dbl n \<noteq> 0)" "n - (DIRECT + INDIRECT) = n_dbl n"
    by (auto simp: n_ind_def n_dbl_def INDIRECT_def)
  have one: "mset (sects v 1 (indir_block d, n_ind n)) = {#indir_block d#} + mset (part_leaves v 1 (indir_block d) (n_ind n))" if "n_ind n \<noteq> 0"
  proof -
    have "full v 1 (indir_block d, n_ind n)" using assms(1) that by (simp add: index_full_def part_full_def)
    from full_root [OF this] show ?thesis using sects_1 that by (simp add: part_leaves_def)
  qed
  have two: "mset (sects v 2 (d_indir_block d, n_dbl n)) = {#d_indir_block d#}
      + mset (map (\<lambda>k. words_of_bytes (v (d_indir_block d)) ! k) [0..<(n_dbl n + 127) div INDIRECT])
      + mset (part_leaves v 2 (d_indir_block d) (n_dbl n))" if "n_dbl n \<noteq> 0"
  proof -
    have f: "full v 2 (d_indir_block d, n_dbl n)" using assms(1) that by (simp add: index_full_def part_full_def)
    from full_root [OF this] have "d_indir_block d \<in> index_used v d n" using that by (simp add: index_used_def part_used_def)
    then have w: "length (words_of_bytes (v (d_indir_block d))) = INDIRECT"
      using assms(2) by (simp add: blocks_ok_def BLOCK_SECTOR_SIZE_def INDIRECT_def)
    have s: "length (sizes INDIRECT (n_dbl n)) \<le> INDIRECT"
      using length_sizes_le [of "n_dbl n" 1] sum_parts [OF assms(3)] by (simp add: cap_def power2_eq_square)
    have "map fst (kids v 1 (d_indir_block d) (n_dbl n)) = take (length (sizes INDIRECT (n_dbl n))) (words_of_bytes (v (d_indir_block d)))"
      using s w by (simp add: kids_def cap_def map_fst_zip_take min_def)
    also have "\<dots> = map (\<lambda>k. words_of_bytes (v (d_indir_block d)) ! k) [0..<length (sizes INDIRECT (n_dbl n))]"
      using s w by (intro map_nth_take [symmetric]) simp
    also have "length (sizes INDIRECT (n_dbl n)) = (n_dbl n + 127) div INDIRECT" using length_sizes [of INDIRECT] by (simp add: INDIRECT_def)
    finally show ?thesis using sects_2 [OF f] that by (simp add: part_leaves_def)
  qed
  show ?thesis unfolding index_leaves_data [OF assms, symmetric] index_leaves_def index_sectors_def i
    using one two by (auto simp: part_leaves_def)
qed

lemma dir_row_full: "\<forall>x\<in>set (dir_row d n). full v 0 x \<Longrightarrow> 0 \<notin> set (take (n_dir n) (dir_blocks d))"
  by (auto simp: dir_row_def)

lemma dir_row_distinct:
  "forest (used v 0) (tree_ok v 0) (dir_row d n) \<Longrightarrow> \<forall>x\<in>set (dir_row d n). full v 0 x \<Longrightarrow> distinct (take (n_dir n) (dir_blocks d))"
proof -
  assume a: "forest (used v 0) (tree_ok v 0) (dir_row d n)" "\<forall>x\<in>set (dir_row d n). full v 0 x"
  have "distinct (concat (map (sects v 0) (dir_row d n)))"
    using a set_sects distinct_sects by (intro forest_distinct [OF a(1)]) auto
  then show ?thesis by (simp add: dir_row_def comp_def concat_single)
qed

text \<open>A complete index in order makes a file in order.\<close>

lemma index_inode_ok:
  assumes "index_ok v d n" "index_full v d n" "n \<le> MAX_SECTORS" "length (dir_blocks d) = DIRECT"
    "\<And>a. a \<in> index_used v d n \<Longrightarrow> a < lim \<and> length (v a) = BLOCK_SECTOR_SIZE" "0 \<le> ilen d" "sector_cnt d = n"
  shows "inode_ok lim v d" "set (index_sectors v d n @ data_sectors v d n) = index_used v d n"
proof -
  let ?one = "if n_ind n = 0 then [] else sects v 1 (indir_block d, n_ind n)"
  let ?two = "if n_dbl n = 0 then [] else sects v 2 (d_indir_block d, n_dbl n)"
  let ?dir = "take (n_dir n) (dir_blocks d)"
  have b: "blocks_ok v d n" using assms(5) by (simp add: blocks_ok_def)
  note m = index_sectors_mset [OF assms(2) b assms(3,4)]
  have s1: "set ?one = part_used v 1 (indir_block d) (n_ind n)" "distinct ?one"
    using assms(1,2) set_sects [of v 1] distinct_sects [of v 1]
    by (auto simp: index_full_def part_full_def part_used_def index_ok_def part_ok_def simp del: One_nat_def sects.simps)
  have s2: "set ?two = part_used v 2 (d_indir_block d) (n_dbl n)" "distinct ?two"
    using assms(1,2) set_sects [of v 2] distinct_sects [of v 2]
    by (auto simp: index_full_def part_full_def part_used_def index_ok_def part_ok_def simp del: One_nat_def sects.simps)
  have dr: "forest (used v 0) (tree_ok v 0) (dir_row d n)" "\<forall>x\<in>set (dir_row d n). full v 0 x"
    using assms(1,2) by (simp_all add: index_full_def index_ok_def)
  have sd: "set ?dir = useds v 0 (dir_row d n)" "distinct ?dir"
    using dir_row_full [OF dr(2)] dir_row_distinct [OF dr] unfolding useds_0 by simp_all
  have "set ?dir \<inter> set ?one = {}" "(set ?dir \<union> set ?one) \<inter> set ?two = {}"
    unfolding s1(1) s2(1) sd(1) using assms(1) [unfolded index_ok_def, THEN conjunct2, THEN conjunct2, THEN conjunct2] by fast+
  then have "set ?dir \<inter> (set ?one \<union> set ?two) = {}" "set ?one \<inter> set ?two = {}"
    unfolding Int_Un_distrib Int_Un_distrib2 by simp_all
  then have "distinct (?dir @ ?one @ ?two)"
    unfolding distinct_append set_append using s1(2) s2(2) sd(2) by (intro conjI)
  then have "distinct (index_sectors v d n @ data_sectors v d n)" using mset_eq_imp_distinct_iff [OF m] by simp
  moreover show set: "set (index_sectors v d n @ data_sectors v d n) = index_used v d n"
  proof -
    have "set (?dir @ ?one @ ?two) = index_used v d n"
      unfolding set_append s1(1) s2(1) sd(1) index_used_def by (simp only: Un_assoc)
    then show ?thesis using mset_eq_setD [OF m] by (rule trans [rotated])
  qed
  ultimately show "inode_ok lim v d" using assms(3-7) unfolding inode_ok_def by (simp add: set del: set_append)
qed

end
