(* ===== verification/InodeGrowth.thy ===== *)
theory InodeGrowth imports InodeIndex begin

section \<open>Files grow\<close>

text \<open>
  \<open>inode_reserve\<close> completes the index of an inode for a number of sectors: the file's sectors stay, the
  new ones are fresh and zero.  With it \<open>inode_write_at\<close> writes past the end of a file.
\<close>

lemma reserve_direct_loop:
  "reserve_loop (reserve_indir alloc 0) 1 i n n blocks st = Some (True, k, b, st') \<Longrightarrow> reserve_direct alloc i n blocks st = Some (True, b, st')"
proof (induction n arbitrary: i blocks st)
  case (Suc n)
  from Suc.prems obtain q st1 where q: "reserve_indir alloc 0 (blocks ! i) 1 st = Some (True, q, st1)"
    and r: "reserve_loop (reserve_indir alloc 0) 1 (i + 1) n n (blocks[i := q]) st1 = Some (True, k, b, st')"
    by (auto simp: bind_Some_iff Let_def simp del: reserve_indir.simps split: if_splits)
  note IH = Suc.IH [OF r]
  show ?case
  proof (cases "blocks ! i = 0")
    case True
    then show ?thesis using q IH by (auto simp: bind_Some_iff split: option.splits)
  next
    case False
    then have "q = blocks ! i" "st1 = st" using q by auto
    then show ?thesis using False IH by simp
  qed
qed simp

lemma sum_list_cost_0: "sum_list (map (cost 0) ms) = length ms"
  by (induction ms) auto

lemma zip_ones: "length xs = n \<Longrightarrow> zip xs (replicate n (1 :: nat)) = map (\<lambda>p. (p, 1)) xs"
  by (simp add: zip_replicate2)

lemma direct_leaves:
  "list_all2 (\<lambda>x y. list_all2 R (leaves v 0 x) (leaves w 0 y)) xs ys \<Longrightarrow> list_all2 R (map fst xs) (map fst ys)"
  by (induction rule: list_all2_induct) (auto split: prod.splits)

context sector_allocator
begin

lemma reserves_any: "l \<le> 2 \<Longrightarrow> reserves alloc ok free sys l"
proof (induction l)
  case 0
  show ?case by (rule reserves_0)
next
  case (Suc l)
  then show ?case by (intro reserves_Suc) simp_all
qed

lemma free_in_range: "ok st \<Longrightarrow> \<forall>a\<in>free st. 0 < a \<and> a < sectors st \<and> a \<notin> sys st"
  using free_range by blast

lemma reserve_direct_spec:
  assumes "ok st" "length blocks = DIRECT" "n \<le> DIRECT" "xs = map (\<lambda>p. (p, 1)) (take n blocks)"
    "forest (used (disk st) 0) (tree_ok (disk st) 0) xs" "useds (disk st) 0 xs \<subseteq> alloced free sys st" "n \<le> card (free st)"
  shows "\<exists>ps st'. reserve_direct alloc 0 n blocks st = Some (True, ps @ drop n blocks, st') \<and> ok st' \<and> length ps = n
    \<and> forest_done free sys 0 st xs (map (\<lambda>p. (p, 1)) ps) st'"
proof -
  have c: "cap 0 = 1" by (simp add: cap_def)
  have sz: "sizes (cap 0) n = replicate n 1" using sizes_1 [of n] by (simp only: c)
  have "xs = zip (take n (drop 0 blocks)) (sizes (cap 0) n)" using assms(2-4) unfolding sz by (subst zip_ones) auto
  from reserve_loop_spec [OF reserves_0 assms(1) _ this _ assms(5,6)] obtain ys st' where
    ys: "reserve_loop (reserve_indir alloc 0) (cap 0) 0 n n blocks st = Some (True, 0, map fst ys @ drop n blocks, st')"
      "ok st'" "forest_done free sys 0 st xs ys st'"
    using assms(2,3,7) by (auto simp: sz sum_list_cost_0 sum_list_replicate simp del: reserve_indir.simps)
  have "map snd ys = map snd xs" using ys(3) by (simp add: forest_done_def)
  also have "\<dots> = replicate n 1" using assms(2-4) by (simp add: comp_def map_replicate_const)
  finally have s: "map snd ys = replicate n 1" .
  then have l: "length ys = n" by (metis length_map length_replicate)
  have "ys = zip (map fst ys) (map snd ys)" by (rule zip_map_fst_snd [symmetric])
  then have "map (\<lambda>p. (p, 1)) (map fst ys) = ys" using zip_ones [of "map fst ys" n] l s by simp
  then show ?thesis using reserve_direct_loop [OF ys(1) [unfolded c]] ys(2,3) l
    by (intro exI [of _ "map fst ys"] exI [of _ st']) simp
qed

text \<open>The step for the tree under an indirect block, which may have nothing to do.\<close>

lemma reserve_part_spec:
  assumes "l \<le> 2" "ok st" "k \<le> cap l" "part_ok (disk st) l p k" "part_used (disk st) l p k \<subseteq> alloced free sys st"
    "part_cost l k \<le> card (free st)"
  shows "\<exists>q st'. (if k = 0 then Some (True, p, st) else reserve_indir alloc l p k st) = Some (True, q, st') \<and> ok st'
    \<and> grows free sys (part_used (disk st) l p k) st st' \<and> part_ok (disk st') l q k \<and> part_full (disk st') l q k
    \<and> part_used (disk st') l q k \<subseteq> part_used (disk st) l p k \<union> (free st - free st')
    \<and> list_all2 (grown (disk st) (disk st')) (part_leaves (disk st) l p k) (part_leaves (disk st') l q k)
    \<and> card (free st) \<le> card (free st') + part_cost l k \<and> (part_tail (disk st) l p k \<longrightarrow> part_tail (disk st') l q k)"
proof (cases "k = 0")
  case True
  then show ?thesis using assms(2) grows_refl
    by (intro exI [of _ p] exI [of _ st]) (simp add: part_used_def part_ok_def part_full_def part_leaves_def part_cost_def part_tail_def)
next
  case False
  then have "\<exists>q st'. reserve_indir alloc l p k st = Some (True, q, st') \<and> ok st' \<and> tree_done free sys l st (p, k) (q, k) st'"
    using reserves_any [OF assms(1)] assms(2-6) unfolding reserves_def part_ok_def part_used_def part_cost_def by simp
  then show ?thesis using False unfolding tree_done_def part_used_def part_ok_def part_full_def part_leaves_def part_cost_def part_tail_def by auto
qed

end

lemma inode_reserve_steps:
  assumes "0 \<le> l" "n = nat (bytes_to_sectors l)" "n \<le> MAX_SECTORS"
    and "reserve_direct alloc 0 (n_dir n) (dir_blocks d) st = Some (True, bs, s1)"
    and "(if n_ind n = 0 then Some (True, indir_block d, s1) else reserve_indir alloc 1 (indir_block d) (n_ind n) s1) = Some (True, q1, s2)"
    and "(if n_dbl n = 0 then Some (True, d_indir_block d, s2) else reserve_indir alloc 2 (d_indir_block d) (n_dbl n) s2) = Some (True, q2, s3)"
  shows "inode_reserve alloc d l st = Some (True, d\<lparr>dir_blocks := bs, indir_block := q1, d_indir_block := q2\<rparr>, s3)"
proof -
  have m: "min n DIRECT = n_dir n" "min (n - n_dir n) INDIRECT = n_ind n" "n - n_dir n - n_ind n = n_dbl n" "min (n_dbl n) (INDIRECT * INDIRECT) = n_dbl n"
    using sum_parts [OF assms(3)] by (auto simp: n_dir_def n_ind_def n_dbl_def)
  have z: "n - n_dir n = 0 \<longleftrightarrow> n_ind n = 0" by (auto simp: n_dir_def n_ind_def INDIRECT_def)
  have zz: "n_ind n = 0 \<Longrightarrow> n_dbl n = 0" by (auto simp: n_ind_def n_dbl_def INDIRECT_def)
  show ?thesis
    using assms(1,4-6) zz
    unfolding inode_reserve_def assms(2) [symmetric] Let_def m z
    by (cases "n_ind n = 0"; cases "n_dbl n = 0") (auto simp del: One_nat_def reserve_indir.simps)
qed

text \<open>The state and the inode after the index was completed for \<open>n\<close> sectors.\<close>

definition index_done ::
  "(fs \<Rightarrow> nat set) \<Rightarrow> (fs \<Rightarrow> nat set) \<Rightarrow> fs \<Rightarrow> inode_disk \<Rightarrow> nat \<Rightarrow> inode_disk \<Rightarrow> fs \<Rightarrow> bool" where
  "index_done free sys st d n d' st' = (grows free sys (index_used (disk st) d n) st st' \<and> index_ok (disk st') d' n
     \<and> index_full (disk st') d' n \<and> index_used (disk st') d' n \<subseteq> index_used (disk st) d n \<union> (free st - free st')
     \<and> list_all2 (grown (disk st) (disk st')) (index_leaves (disk st) d n) (index_leaves (disk st') d' n)
     \<and> (index_tail (disk st) d n \<longrightarrow> index_tail (disk st') d' n))"

context sector_allocator
begin

lemma inode_reserve_spec:
  notes One_nat_def [simp del] numeral_2_eq_2 [simp del]
  assumes ok: "ok st" and l: "0 \<le> l" "n = nat (bytes_to_sectors l)" "n \<le> MAX_SECTORS" and dirs: "length (dir_blocks d) = DIRECT"
    and idx: "index_ok (disk st) d n" and al: "index_used (disk st) d n \<subseteq> alloced free sys st" and c: "index_cost n \<le> card (free st)"
  shows "\<exists>d' st'. inode_reserve alloc d l st = Some (True, d', st') \<and> ok st' \<and> index_done free sys st d n d' st'
    \<and> length (dir_blocks d') = DIRECT \<and> ilen d' = ilen d \<and> is_dir d' = is_dir d \<and> inode_magic d' = inode_magic d"
proof -
  let ?v = "disk st" and ?k0 = "n_dir n" and ?k1 = "n_ind n" and ?k2 = "n_dbl n" and ?i = "indir_block d" and ?di = "d_indir_block d"
  let ?xs = "dir_row d n"
  let ?u0 = "useds ?v 0 ?xs" and ?u1 = "part_used ?v 1 ?i ?k1" and ?u2 = "part_used ?v 2 ?di ?k2"
  note sp = sum_parts [OF l(3)]
  have pre: "forest (used ?v 0) (tree_ok ?v 0) ?xs" "part_ok ?v 1 ?i ?k1" "part_ok ?v 2 ?di ?k2" "?u0 \<inter> ?u1 = {}" "(?u0 \<union> ?u1) \<inter> ?u2 = {}"
    using idx unfolding index_ok_def by blast+
  have al0: "?u0 \<subseteq> alloced free sys st" and al1: "?u1 \<subseteq> alloced free sys st" and al2: "?u2 \<subseteq> alloced free sys st"
    and al01: "?u0 \<union> ?u1 \<subseteq> alloced free sys st" using al unfolding index_used_def by blast+
  have cs: "?k0 \<le> card (free st)" using c by (simp add: index_cost_def)
  have "?k0 \<le> DIRECT" by (simp add: n_dir_def)
  from reserve_direct_spec [OF ok dirs this dir_row_def [unfolded] pre(1) al0 cs] obtain ps s1 where
    s1: "reserve_direct alloc 0 ?k0 (dir_blocks d) st = Some (True, ps @ drop ?k0 (dir_blocks d), s1)" "ok s1" "length ps = ?k0"
      "forest_done free sys 0 st ?xs (map (\<lambda>p. (p, 1)) ps) s1" by blast
  let ?ys = "map (\<lambda>p. (p, 1)) ps :: (nat \<times> nat) list"
  note f1 = s1(4) [unfolded forest_done_def]
  have g1: "grows free sys ?u0 st s1" and w0: "useds (disk s1) 0 ?ys \<subseteq> ?u0 \<union> (free st - free s1)" using f1 by blast+
  have card1: "card (free st) \<le> card (free s1) + ?k0"
  proof -
    have "sum_list (map (cost 0 \<circ> snd) ?xs) = length ?xs" by (simp add: comp_def sum_list_triv)
    then show ?thesis using f1 dirs by (simp add: dir_row_def n_dir_def)
  qed
  have i10: "?u1 \<inter> ?u0 = {}" "?u2 \<inter> ?u0 = {}" using pre(4,5) by blast+
  note k1 = grows_keeps [OF g1 al1 i10(1)] and k2 = grows_keeps [OF g1 al2 i10(2)]
  note p1 = part_cong [OF k1(1)] and p2 = part_cong [OF k2(1)]
  have "\<exists>q s2. (if ?k1 = 0 then Some (True, ?i, s1) else reserve_indir alloc 1 ?i ?k1 s1) = Some (True, q, s2) \<and> ok s2
    \<and> grows free sys (part_used (disk s1) 1 ?i ?k1) s1 s2 \<and> part_ok (disk s2) 1 q ?k1 \<and> part_full (disk s2) 1 q ?k1
    \<and> part_used (disk s2) 1 q ?k1 \<subseteq> part_used (disk s1) 1 ?i ?k1 \<union> (free s1 - free s2)
    \<and> list_all2 (grown (disk s1) (disk s2)) (part_leaves (disk s1) 1 ?i ?k1) (part_leaves (disk s2) 1 q ?k1)
    \<and> card (free s1) \<le> card (free s2) + part_cost 1 ?k1 \<and> (part_tail (disk s1) 1 ?i ?k1 \<longrightarrow> part_tail (disk s2) 1 q ?k1)"
    using p1 k1(2) pre(2) sp c card1 by (intro reserve_part_spec [OF _ s1(2)]) (auto simp: cap_def index_cost_def)
  then obtain q1 s2 where s2: "(if ?k1 = 0 then Some (True, ?i, s1) else reserve_indir alloc 1 ?i ?k1 s1) = Some (True, q1, s2)" "ok s2"
      "grows free sys ?u1 s1 s2" "part_ok (disk s2) 1 q1 ?k1" "part_full (disk s2) 1 q1 ?k1"
      "part_used (disk s2) 1 q1 ?k1 \<subseteq> ?u1 \<union> (free s1 - free s2)"
      "list_all2 (grown (disk s1) (disk s2)) (part_leaves ?v 1 ?i ?k1) (part_leaves (disk s2) 1 q1 ?k1)"
      "card (free s1) \<le> card (free s2) + part_cost 1 ?k1" "part_tail ?v 1 ?i ?k1 \<longrightarrow> part_tail (disk s2) 1 q1 ?k1"
    using p1 part_tail_cong [OF k1(1)] by auto
  note ph1 = two_phases [OF al0 al1 pre(4) free_in_range [OF ok] g1 w0 s2(3,6)]
  have "?u2 \<inter> (?u0 \<union> ?u1) = {}" using pre(5) by (simp only: Int_commute)
  note k3 = grows_keeps [OF ph1(4) al2 this]
  note p3 = part_cong [OF k3(1)]
  have "\<exists>q s3. (if ?k2 = 0 then Some (True, ?di, s2) else reserve_indir alloc 2 ?di ?k2 s2) = Some (True, q, s3) \<and> ok s3
    \<and> grows free sys (part_used (disk s2) 2 ?di ?k2) s2 s3 \<and> part_ok (disk s3) 2 q ?k2 \<and> part_full (disk s3) 2 q ?k2
    \<and> part_used (disk s3) 2 q ?k2 \<subseteq> part_used (disk s2) 2 ?di ?k2 \<union> (free s2 - free s3)
    \<and> list_all2 (grown (disk s2) (disk s3)) (part_leaves (disk s2) 2 ?di ?k2) (part_leaves (disk s3) 2 q ?k2)
    \<and> card (free s2) \<le> card (free s3) + part_cost 2 ?k2 \<and> (part_tail (disk s2) 2 ?di ?k2 \<longrightarrow> part_tail (disk s3) 2 q ?k2)"
    using p3 k3(2) pre(3) sp c card1 s2(8) by (intro reserve_part_spec [OF _ s2(2)]) (auto simp: cap_def index_cost_def power2_eq_square)
  then obtain q2 s3 where s3: "(if ?k2 = 0 then Some (True, ?di, s2) else reserve_indir alloc 2 ?di ?k2 s2) = Some (True, q2, s3)" "ok s3"
      "grows free sys ?u2 s2 s3" "part_ok (disk s3) 2 q2 ?k2" "part_full (disk s3) 2 q2 ?k2"
      "part_used (disk s3) 2 q2 ?k2 \<subseteq> ?u2 \<union> (free s2 - free s3)"
      "list_all2 (grown (disk s2) (disk s3)) (part_leaves ?v 2 ?di ?k2) (part_leaves (disk s3) 2 q2 ?k2)"
      "part_tail ?v 2 ?di ?k2 \<longrightarrow> part_tail (disk s3) 2 q2 ?k2"
    using p3 part_tail_cong [OF k3(1)] by auto
  note ph2 = two_phases [OF al01 al2 pre(5) free_in_range [OF ok] ph1(4,6) s3(3,6)]
  define d' where "d' = d\<lparr>dir_blocks := ps @ drop ?k0 (dir_blocks d), indir_block := q1, d_indir_block := q2\<rparr>"
  have call: "inode_reserve alloc d l st = Some (True, d', s3)"
    unfolding d'_def by (rule inode_reserve_steps [OF l s1(1) s2(1) s3(1)])
  let ?z = "disk s3"
  let ?w0 = "useds (disk s1) 0 ?ys" and ?w1 = "part_used (disk s2) 1 q1 ?k1" and ?w2 = "part_used ?z 2 q2 ?k2"
  have row: "dir_row d' n = ?ys" "take ?k0 (dir_blocks d') = ps" using s1(3) by (simp_all add: dir_row_def d'_def)
  have keep0: "\<forall>a\<in>?w0. ?z a = disk s1 a" using ph1(3) ph2(3) by simp
  have keep1: "\<forall>a\<in>?w1. ?z a = disk s2 a" using ph2(3) by simp
  note q1 = part_cong [OF keep1] and r0 = forest_used_cong [OF keep0]
  have used: "index_used ?z d' n = (?w0 \<union> ?w1) \<union> ?w2"
    unfolding index_used_def row r0(2) using q1 by (simp add: d'_def)
  have "index_ok ?z d' n"
    unfolding index_ok_def row r0 using f1 q1 s2(4) s3(4) ph1(5) ph2(5) by (simp add: d'_def)
  moreover have "index_full ?z d' n"
    unfolding index_full_def row using f1 q1 s2(5) s3(5) by (simp add: d'_def)
  moreover have "list_all2 (grown ?v ?z) (index_leaves ?v d n) (index_leaves ?z d' n)"
  proof -
    have "list_all2 (grown ?v (disk s1)) (map fst ?xs) (map fst ?ys)" using f1 by (intro direct_leaves) blast
    then have "list_all2 (grown ?v (disk s1)) (take ?k0 (dir_blocks d)) ps" by (simp add: dir_row_def comp_def)
    then have l0: "list_all2 (grown ?v ?z) (take ?k0 (dir_blocks d)) ps"
    proof (rule grown_cong)
      show "?z a = disk s1 a" if "a \<in> set ps" "a \<noteq> 0" for a using keep0 that by auto
    qed simp
    have l1: "list_all2 (grown ?v ?z) (part_leaves ?v 1 ?i ?k1) (part_leaves (disk s2) 1 q1 ?k1)"
      by (rule grown_cong [OF s2(7)]) (use part_leaves_used k1(1) keep1 in auto)
    have l2: "list_all2 (grown ?v ?z) (part_leaves ?v 2 ?di ?k2) (part_leaves ?z 2 q2 ?k2)"
      by (rule grown_cong [OF s3(7)]) (use part_leaves_used k3(1) in auto)
    show ?thesis unfolding index_leaves_def row using l0 l1 l2 q1
      by (auto simp: d'_def intro!: list_all2_appendI)
  qed
  moreover have "index_tail ?z d' n" if "index_tail ?v d n"
    using that s1(3) dirs s2(9) s3(8) part_tail_cong [OF keep1] by (simp add: index_tail_def d'_def n_dir_def)
  ultimately have "index_done free sys st d n d' s3"
    using ph2(4,6) unfolding index_done_def used by (simp add: index_used_def)
  moreover have "length (dir_blocks d') = DIRECT" using s1(3) dirs by (simp add: d'_def n_dir_def)
  ultimately show ?thesis using call s3(2) by (intro exI [of _ d'] exI [of _ s3]) (simp add: d'_def)
qed

end

end
