(* ===== verification/IndexInvariant.thy ===== *)
theory IndexInvariant imports InodeIndex begin

section \<open>What an index depends on, and how it extends\<close>

text \<open>
  Data sectors may change without changing an index: it depends on its blocks of sector numbers only.
  A complete index with zeros behind it is the start of the index of a longer file.
\<close>

subsection \<open>The blocks of sector numbers\<close>

definition part_inner :: "(nat \<Rightarrow> byte list) \<Rightarrow> nat \<Rightarrow> nat \<Rightarrow> nat \<Rightarrow> nat set" where
  "part_inner v l p k = (if k = 0 then {} else inner v l (p, k))"

definition index_inner :: "(nat \<Rightarrow> byte list) \<Rightarrow> inode_disk \<Rightarrow> nat \<Rightarrow> nat set" where
  "index_inner v d n = part_inner v 1 (indir_block d) (n_ind n) \<union> part_inner v 2 (d_indir_block d) (n_dbl n)"

lemma part_inner_cong:
  "\<forall>a\<in>part_inner v l p k. w a = v a \<Longrightarrow> part_used w l p k = part_used v l p k \<and> part_ok w l p k = part_ok v l p k
     \<and> part_full w l p k = part_full v l p k \<and> part_leaves w l p k = part_leaves v l p k \<and> part_tail w l p k = part_tail v l p k"
  using tree_cong_inner [of v l "(p, k)" w]
  by (auto simp: part_used_def part_ok_def part_full_def part_leaves_def part_inner_def part_tail_def)

lemma index_inner_cong:
  assumes "\<forall>a\<in>index_inner v d n. w a = v a"
  shows "index_used w d n = index_used v d n" "index_ok w d n = index_ok v d n" "index_leaves w d n = index_leaves v d n"
    "index_full w d n = index_full v d n" "index_tail w d n = index_tail v d n"
proof -
  have p: "\<forall>a\<in>part_inner v 1 (indir_block d) (n_ind n). w a = v a" "\<forall>a\<in>part_inner v 2 (d_indir_block d) (n_dbl n). w a = v a"
    using assms by (auto simp: index_inner_def)
  note c = part_inner_cong [OF p(1)] part_inner_cong [OF p(2)]
  show "index_used w d n = index_used v d n" "index_leaves w d n = index_leaves v d n" "index_tail w d n = index_tail v d n"
    using c by (simp_all add: index_used_def useds_0 index_leaves_def index_tail_def)
  show "index_ok w d n = index_ok v d n"
    using c forest_cong [of "dir_row d n" "used w 0" "used v 0" "tree_ok w 0" "tree_ok v 0"]
    unfolding index_ok_def useds_0 by simp
  show "index_full w d n = index_full v d n" using c by (simp add: index_full_def dir_row_def)
qed

lemma part_inner_used: "part_inner v l p k \<subseteq> part_used v l p k"
  using inner_used [of v l "(p, k)"] by (auto simp: part_inner_def part_used_def)

lemma index_inner_used: "index_inner v d n \<subseteq> index_used v d n"
  unfolding index_inner_def index_used_def using part_inner_used by blast

text \<open>They are no data sectors.\<close>

lemma forest_pair:
  "forest U W xs \<Longrightarrow> x \<in> set xs \<Longrightarrow> y \<in> set xs \<Longrightarrow> x = y \<or> U x \<inter> U y = {}"
  by (induction xs) auto

lemma forest_in: "forest U W xs \<Longrightarrow> x \<in> set xs \<Longrightarrow> W x"
  by (induction xs) auto

lemma zero_not_inner: "0 \<notin> inner v l x"
  using zero_unused inner_used by blast

lemma inner_leaves:
  "tree_ok v l x \<Longrightarrow> inner v l x \<inter> set (leaves v l x) = {}"
proof (induction l arbitrary: x)
  case (Suc l)
  obtain p n where x: "x = (p, n)" by (cases x)
  have False if a: "a \<in> inner v (Suc l) x" "a \<in> set (leaves v (Suc l) x)" for a
  proof -
    have p: "p \<noteq> 0" using a(1) by (auto simp: x split: if_splits)
    obtain y where y: "y \<in> set (kids v l p n)" "a \<in> set (leaves v l y)" using a(2) p by (auto simp: x)
    have a0: "a \<noteq> 0" using a(1) zero_not_inner by metis
    then have au: "a \<in> used v l y" using leaves_used y(2) by blast
    have f: "forest (used v l) (tree_ok v l) (kids v l p n)" "p \<notin> useds v l (kids v l p n)"
      using Suc.prems p by (auto simp: x)
    consider "a = p" | z where "z \<in> set (kids v l p n)" "a \<in> inner v l z" using a(1) p by (auto simp: x)
    then show False
    proof cases
      case 1
      then show False using f(2) y(1) au by blast
    next
      case 2
      then have "z = y" using forest_pair [OF f(1) 2(1) y(1)] au inner_used by blast
      then show False using Suc.IH [OF forest_in [OF f(1) y(1)]] 2(2) y(2) by blast
    qed
  qed
  then show ?case by blast
qed simp

lemma index_inner_leaves:
  assumes "index_ok v d n"
  shows "index_inner v d n \<inter> set (index_leaves v d n) = {}"
proof -
  let ?D = "useds v 0 (dir_row d n)" and ?I = "part_used v 1 (indir_block d) (n_ind n)" and ?B = "part_used v 2 (d_indir_block d) (n_dbl n)"
  have dis: "?D \<inter> ?I = {}" "?D \<inter> ?B = {}" "?I \<inter> ?B = {}" using assms by (auto simp: index_ok_def)
  note in_u = part_inner_used [of v]
  have own: "part_inner v 1 (indir_block d) (n_ind n) \<inter> set (part_leaves v 1 (indir_block d) (n_ind n)) = {}"
    "part_inner v 2 (d_indir_block d) (n_dbl n) \<inter> set (part_leaves v 2 (d_indir_block d) (n_dbl n)) = {}"
    using assms inner_leaves unfolding index_ok_def part_ok_def part_inner_def part_leaves_def by auto
  have False if a: "a \<in> index_inner v d n" "a \<in> set (index_leaves v d n)" for a
  proof -
    have "0 \<notin> index_inner v d n" using zero_not_inner by (auto simp: index_inner_def part_inner_def)
    then have a0: "a \<noteq> 0" using a(1) by metis
    have "a \<in> ?D" if "a \<in> set (take (n_dir n) (dir_blocks d))" using that a0 unfolding useds_0 by simp
    moreover have "a \<in> ?I" if "a \<in> set (part_leaves v 1 (indir_block d) (n_ind n))" using that a0 part_leaves_used by blast
    moreover have "a \<in> ?B" if "a \<in> set (part_leaves v 2 (d_indir_block d) (n_dbl n))" using that a0 part_leaves_used by blast
    ultimately show False using a dis own in_u [of 1 "indir_block d" "n_ind n"] in_u [of 2 "d_indir_block d" "n_dbl n"]
      unfolding index_inner_def index_leaves_def by (auto simp del: One_nat_def)
  qed
  then show ?thesis by blast
qed

subsection \<open>A longer file\<close>

lemma part_extend:
  assumes "part_full v l p m" "part_tail v l p m" "m \<le> n" "n \<le> cap l" "\<forall>a\<in>part_used v l p m. length (words_of_bytes (v a)) = INDIRECT"
  shows "part_used v l p n = part_used v l p m \<and> part_ok v l p n = part_ok v l p m
    \<and> part_leaves v l p n = part_leaves v l p m @ replicate (n - m) 0 \<and> part_tail v l p n"
proof (cases "m = 0")
  case True
  then have "p = 0" using assms(2) by (simp add: part_tail_def)
  moreover have "leaves v l (0, n) = replicate n 0" if "n \<noteq> 0"
    using assms(4) that by (intro leaves_zero) (simp add: cap_def)
  moreover have "used v l (0, n) = {}" "tree_ok v l (0, n)" "tail0 v l (0, n)" by (cases l; simp)+
  ultimately show ?thesis using True by (simp add: part_used_def part_ok_def part_leaves_def part_tail_def)
next
  case False
  have "\<forall>a\<in>inner v l (p, m). length (words_of_bytes (v a)) = INDIRECT"
    using assms(5) inner_used [of v l "(p, m)"] False by (auto simp: part_used_def)
  with tree_extend [of v l p m n] assms(1-4) False show ?thesis
    by (simp add: part_used_def part_ok_def part_leaves_def part_tail_def part_full_def)
qed

lemma forest_zeros:
  "forest (used v 0) (tree_ok v 0) (map (\<lambda>p. (p, 1)) (xs @ replicate k 0)) = forest (used v 0) (tree_ok v 0) (map (\<lambda>p. (p, 1)) xs)"
proof (induction xs)
  case Nil
  show ?case by (induction k) auto
qed auto

lemma index_extend:
  notes One_nat_def [simp del]
  assumes "index_ok v d m" "index_full v d m" "index_tail v d m" "blocks_ok v d m" "m \<le> n" "n \<le> MAX_SECTORS" "length (dir_blocks d) = DIRECT"
  shows "index_ok v d n" "index_used v d n = index_used v d m"
    "index_leaves v d n = index_leaves v d m @ replicate (n - m) 0" "index_tail v d n"
proof -
  let ?D = "useds v 0 (dir_row d m)" and ?i = "indir_block d" and ?b = "d_indir_block d"
  have len: "length (words_of_bytes (v a)) = INDIRECT" if "a \<in> index_used v d m" for a
    using assms(4) that by (simp add: blocks_ok_def BLOCK_SECTOR_SIZE_def INDIRECT_def)
  have mx: "n_dbl n \<le> cap 2" "n_ind n \<le> cap 1" using sum_parts [OF assms(6)] by (auto simp: cap_def power2_eq_square)
  have le: "n_dir m \<le> n_dir n" "n_ind m \<le> n_ind n" "n_dbl m \<le> n_dbl n" using assms(5) by (auto simp: n_dir_def n_ind_def n_dbl_def)
  have I: "part_used v 1 ?i (n_ind n) = part_used v 1 ?i (n_ind m) \<and> part_ok v 1 ?i (n_ind n) = part_ok v 1 ?i (n_ind m)
      \<and> part_leaves v 1 ?i (n_ind n) = part_leaves v 1 ?i (n_ind m) @ replicate (n_ind n - n_ind m) 0 \<and> part_tail v 1 ?i (n_ind n)"
    using assms(2,3) len le(2) mx by (intro part_extend) (auto simp: index_full_def index_tail_def index_used_def)
  have B: "part_used v 2 ?b (n_dbl n) = part_used v 2 ?b (n_dbl m) \<and> part_ok v 2 ?b (n_dbl n) = part_ok v 2 ?b (n_dbl m)
      \<and> part_leaves v 2 ?b (n_dbl n) = part_leaves v 2 ?b (n_dbl m) @ replicate (n_dbl n - n_dbl m) 0 \<and> part_tail v 2 ?b (n_dbl n)"
    using assms(2,3) len le(3) mx by (intro part_extend) (auto simp: index_full_def index_tail_def index_used_def)
  have z: "\<forall>b\<in>set (drop (n_dir m) (dir_blocks d)). b = 0" using assms(3) by (simp add: index_tail_def)
  have D: "take (n_dir n) (dir_blocks d) = take (n_dir m) (dir_blocks d) @ replicate (n_dir n - n_dir m) 0"
  proof -
    have "take (n_dir n) (dir_blocks d) = take (n_dir m) (dir_blocks d) @ take (n_dir n - n_dir m) (drop (n_dir m) (dir_blocks d))"
      using take_add [of "n_dir m" "n_dir n - n_dir m" "dir_blocks d"] le(1) by simp
    also have "take (n_dir n - n_dir m) (drop (n_dir m) (dir_blocks d)) = replicate (n_dir n - n_dir m) 0"
      using z assms(7) by (intro replicate_eqI) (auto simp: n_dir_def dest: in_set_takeD)
    finally show ?thesis .
  qed
  have uD: "useds v 0 (dir_row d n) = ?D" unfolding useds_0 D by auto
  have fD: "forest (used v 0) (tree_ok v 0) (dir_row d n) = forest (used v 0) (tree_ok v 0) (dir_row d m)"
    unfolding dir_row_def D by (rule forest_zeros)
  show "index_used v d n = index_used v d m" unfolding index_used_def uD using I B by simp
  show "index_ok v d n" using assms(1) I B unfolding index_ok_def uD fD by simp
  have "set (drop (n_dir n) (dir_blocks d)) \<subseteq> set (drop (n_dir m) (dir_blocks d))" by (rule set_drop_subset_set_drop [OF le(1)])
  then show "index_tail v d n" using I B z by (auto simp: index_tail_def)
  have cat: "index_leaves v d n = (take (n_dir m) (dir_blocks d) @ replicate (n_dir n - n_dir m) 0)
      @ (part_leaves v 1 ?i (n_ind m) @ replicate (n_ind n - n_ind m) 0) @ (part_leaves v 2 ?b (n_dbl m) @ replicate (n_dbl n - n_dbl m) 0)"
    using I B by (simp add: index_leaves_def D)
  have part_0: "part_leaves v l p 0 = []" for l p by (simp add: part_leaves_def)
  consider "m \<le> DIRECT" | "DIRECT < m" "m \<le> DIRECT + INDIRECT" | "DIRECT + INDIRECT < m" by linarith
  then show "index_leaves v d n = index_leaves v d m @ replicate (n - m) 0"
  proof cases
    case 1
    then have e: "n_ind m = 0" "n_dbl m = 0" by (auto simp: n_ind_def n_dbl_def)
    moreover have "n - m = n_dir n - n_dir m + (n_ind n + n_dbl n)" using sum_parts [OF assms(6)] sum_parts [of m] assms(5,6) e le by linarith
    ultimately show ?thesis unfolding cat unfolding index_leaves_def by (simp add: part_0 replicate_add)
  next
    case 2
    then have e: "n_dbl m = 0" "n_dir n = n_dir m" using assms(5) by (auto simp: n_dir_def n_dbl_def)
    moreover have "n - m = n_ind n - n_ind m + n_dbl n" using sum_parts [OF assms(6)] sum_parts [of m] assms(5,6) e le by linarith
    ultimately show ?thesis unfolding cat unfolding index_leaves_def by (simp add: part_0 replicate_add)
  next
    case 3
    then have e: "n_ind n = n_ind m" "n_dir n = n_dir m" using assms(5) by (auto simp: n_dir_def n_ind_def)
    moreover have "n - m = n_dbl n - n_dbl m" using sum_parts [OF assms(6)] sum_parts [of m] assms(5,6) e le by linarith
    ultimately show ?thesis unfolding cat unfolding index_leaves_def by simp
  qed
qed

end
