(* ===== verification/FileGrowth.thy ===== *)
theory FileGrowth imports InodeGrowth IndexInvariant Inode begin

section \<open>Writing past the end of a file\<close>

text \<open>
  \<open>file_wf\<close> is the invariant of a file on the disk: its index is complete, without a sector twice, with
  nothing behind it, its sectors are allocated and none of them is the free map's, and its last sector is
  zero behind the end of the file.  Growing keeps it and appends zeros to the content.
\<close>

definition file_wf :: "fs \<Rightarrow> inode_disk \<Rightarrow> bool" where
  "file_wf st d = (0 \<le> ilen d \<and> sector_cnt d \<le> MAX_SECTORS \<and> length (dir_blocks d) = DIRECT \<and> inode_magic d < 2 ^ 32
     \<and> index_ok (disk st) d (sector_cnt d) \<and> index_full (disk st) d (sector_cnt d) \<and> index_tail (disk st) d (sector_cnt d)
     \<and> index_used (disk st) d (sector_cnt d) \<subseteq> alloced free_sectors fm_sectors st \<and> (\<forall>x\<in>set (slack (disk st) d). x = 0))"

lemma index_used_blocks:
  assumes "bc_ok (bc st)" "index_used (disk st) d n \<subseteq> alloced free sys st"
  shows "\<And>a. a \<in> index_used (disk st) d n \<Longrightarrow> a < sectors st \<and> length (disk st a) = BLOCK_SECTOR_SIZE" "blocks_ok (disk st) d n"
proof -
  show "a < sectors st \<and> length (disk st a) = BLOCK_SECTOR_SIZE" if "a \<in> index_used (disk st) d n" for a
    using assms that cache.view_length [OF assms(1), of a] by (auto simp: alloced_def)
  then show "blocks_ok (disk st) d n" by (simp add: blocks_ok_def)
qed

lemma file_wf_inode_ok:
  assumes "bc_ok (bc st)" "file_wf st d"
  shows "inode_ok (sectors st) (disk st) d"
    "set (index_sectors (disk st) d (sector_cnt d) @ data_sectors (disk st) d (sector_cnt d)) = index_used (disk st) d (sector_cnt d)"
    "index_leaves (disk st) d (sector_cnt d) = data_sectors (disk st) d (sector_cnt d)"
proof -
  have al: "index_used (disk st) d (sector_cnt d) \<subseteq> alloced free_sectors fm_sectors st" using assms(2) by (simp add: file_wf_def)
  note b = index_used_blocks [OF assms(1) al]
  show "inode_ok (sectors st) (disk st) d"
    "set (index_sectors (disk st) d (sector_cnt d) @ data_sectors (disk st) d (sector_cnt d)) = index_used (disk st) d (sector_cnt d)"
    using assms(2) b(1) by (intro index_inode_ok; auto simp: file_wf_def)+
  show "index_leaves (disk st) d (sector_cnt d) = data_sectors (disk st) d (sector_cnt d)"
    using assms(2) b(2) by (intro index_leaves_data) (auto simp: file_wf_def)
qed

lemma zero_not_alloced: "0 \<notin> alloced free sys st"
  by (simp add: alloced_def)

subsection \<open>The content of a grown file\<close>

lemma sector_of_ilen [simp]: "sector_of v (d\<lparr>ilen := l\<rparr>) = sector_of v d"
  by (simp add: sector_of_def fun_eq_iff)

lemma grown_byte:
  assumes g: "list_all2 (grown v w) (data_sectors v d m @ replicate (n - m) 0) (data_sectors w d' n)" "m = sector_cnt d" "m \<le> n"
    and z: "0 \<notin> set (data_sectors v d m)" "\<forall>x\<in>set (slack v d). x = 0" and i: "i < 512 * n"
  shows "w (sector_of w d' (i div 512)) ! (i mod 512) = (if i < nat (ilen d) then content v d ! i else 0)"
proof -
  let ?k = "i div 512"
  have k: "?k < n" using i by simp
  have nth: "grown v w ((data_sectors v d m @ replicate (n - m) 0) ! ?k) (sector_of w d' ?k)"
    using list_all2_nthD2 [OF g(1), of ?k] k by (simp add: data_sectors_def)
  show ?thesis
  proof (cases "?k < m")
    case True
    then have "(data_sectors v d m @ replicate (n - m) 0) ! ?k = sector_of v d ?k" by (simp add: data_sectors_def nth_append)
    moreover have "sector_of v d ?k \<noteq> 0"
    proof -
      have "sector_of v d ?k \<in> set (data_sectors v d m)" using True by (auto simp: data_sectors_def)
      then show ?thesis using z(1) by metis
    qed
    ultimately have w: "w (sector_of w d' ?k) = v (sector_of v d ?k)" using nth by (auto simp: grown_def)
    show ?thesis
    proof (cases "i < nat (ilen d)")
      case True
      then show ?thesis by (simp add: w content_nth)
    next
      case False
      then have "i \<in> set [nat (ilen d)..<512 * sector_cnt d]" using \<open>?k < m\<close> g(2) by auto
      then have "v (sector_of v d ?k) ! (i mod 512) \<in> set (slack v d)" unfolding slack_def set_map by (rule imageI)
      then show ?thesis using z(2) False w by simp
    qed
  next
    case False
    have "(data_sectors v d m @ replicate (n - m) 0) ! ?k = 0" using False k by (simp add: data_sectors_def nth_append)
    then have "w (sector_of w d' ?k) = zeros" using nth by (simp add: grown_def)
    moreover have "\<not> i < nat (ilen d)" using False byte_in_sector [of i d] g(2) by auto
    ultimately show ?thesis by (simp add: zeros_def BLOCK_SECTOR_SIZE_def)
  qed
qed

lemma grown_content:
  assumes "list_all2 (grown v w) (data_sectors v d m @ replicate (n - m) 0) (data_sectors w d' n)" "m = sector_cnt d" "m \<le> n"
    and "0 \<notin> set (data_sectors v d m)" "\<forall>x\<in>set (slack v d). x = 0"
    and l: "ilen d \<le> l" "sector_cnt (d'\<lparr>ilen := l\<rparr>) = n"
  shows "content w (d'\<lparr>ilen := l\<rparr>) = content v d @ replicate (nat l - nat (ilen d)) 0" "\<forall>x\<in>set (slack w (d'\<lparr>ilen := l\<rparr>)). x = 0"
proof -
  note byte = grown_byte [OF assms(1-5)]
  have le: "nat (ilen d) \<le> nat l" "nat l \<le> 512 * n" using l by (auto simp: sector_cnt_def)
  show "content w (d'\<lparr>ilen := l\<rparr>) = content v d @ replicate (nat l - nat (ilen d)) 0"
  proof (rule nth_equalityI)
    fix i assume "i < length (content w (d'\<lparr>ilen := l\<rparr>))"
    then have "i < nat l" "i < 512 * n" using le by auto
    then show "content w (d'\<lparr>ilen := l\<rparr>) ! i = (content v d @ replicate (nat l - nat (ilen d)) 0) ! i"
      using byte [of i] by (simp add: content_nth nth_append)
  qed (use le in simp)
  show "\<forall>x\<in>set (slack w (d'\<lparr>ilen := l\<rparr>)). x = 0"
  proof
    fix x assume "x \<in> set (slack w (d'\<lparr>ilen := l\<rparr>))"
    then obtain i where i: "nat l \<le> i" "i < 512 * n" "x = w (sector_of w d' (i div 512)) ! (i mod 512)"
      using l(2) by (auto simp: slack_def)
    then show "x = 0" using byte [OF i(2)] le by simp
  qed
qed

subsection \<open>The inode in memory\<close>

lemma file_wf_not_fm:
  assumes "fm_ok st" "inode_of st p = Some i" "file_wf st (idata i)"
  shows "fm_inode (st\<lparr>inode_of := (inode_of st)(p \<mapsto> j)\<rparr>) = fm_inode st"
proof (cases "free_map_file st")
  case None
  then show ?thesis by (simp add: fm_inode_def)
next
  case (Some f)
  have "file_inode x \<noteq> p" if x: "file_of st f = Some x" for x
  proof
    assume p: "file_inode x = p"
    then have fi: "fm_inode st = Some i" using Some x assms(2) by (simp add: fm_inode_def)
    then have fok: "fm_file_ok st i" and b: "0 < bit_cnt (free_map st)" "bit_cnt (free_map st) < 2 ^ 31" "bc_ok (bc st)"
      using assms(1) Some by (auto simp: fm_ok_def)
    have "fm_sectors st = index_used (disk st) (idata i) (sector_cnt (idata i))"
      using file_wf_inode_ok(2) [OF b(3) assms(3)] fi by (simp add: fm_sectors_def)
    then have "index_used (disk st) (idata i) (sector_cnt (idata i)) = {}"
      using assms(3) by (auto simp: file_wf_def alloced_def)
    then have "sector_cnt (idata i) = 0" using file_wf_inode_ok(2) [OF b(3) assms(3)] by (simp add: data_sectors_def)
    moreover have "0 < sector_cnt (idata i)"
      using fok b byte_cnt_small [OF b(2)] by (intro sector_cnt_pos) (simp add: fm_file_ok_def)
    ultimately show False by simp
  qed
  then show ?thesis using Some by (cases "file_of st f") (simp_all add: fm_inode_def)
qed

text \<open>A change of the inode in memory does not touch the free map.\<close>

lemma set_inode_ok:
  assumes "fm_ok st" "fm_inode (st\<lparr>inode_of := f\<rparr>) = fm_inode st"
  shows "fm_ok (st\<lparr>inode_of := f\<rparr>)" "free_sectors (st\<lparr>inode_of := f\<rparr>) = free_sectors st" "fm_sectors (st\<lparr>inode_of := f\<rparr>) = fm_sectors st"
proof -
  show s: "fm_sectors (st\<lparr>inode_of := f\<rparr>) = fm_sectors st" using assms(2) by (cases "fm_inode st") (simp_all add: fm_sectors_def)
  show "free_sectors (st\<lparr>inode_of := f\<rparr>) = free_sectors st" by (simp add: free_sectors_def)
  show "fm_ok (st\<lparr>inode_of := f\<rparr>)" using assms unfolding fm_ok_def s by (auto simp: fm_file_ok_def)
qed

lemma same_heap_opened:
  "same_heap st st' \<Longrightarrow> (\<forall>n. malloc_ok st n) \<Longrightarrow> inode_of st p = Some i \<Longrightarrow> (\<forall>n. malloc_ok st' n) \<and> inode_of st' p = Some i"
  using same_heapD [of st st'] by simp

lemma same_heap_fm_inode:
  "same_heap st st' \<Longrightarrow> fm_inode st' = fm_inode st"
  "same_heap st st' \<Longrightarrow> fm_inode (st'\<lparr>inode_of := f\<rparr>) = fm_inode (st\<lparr>inode_of := f\<rparr>)"
  using same_heapD [of st st'] by (simp_all add: fm_inode_def)

lemma index_ilen [simp]:
  "index_used v (d\<lparr>ilen := l\<rparr>) n = index_used v d n" "index_ok v (d\<lparr>ilen := l\<rparr>) n = index_ok v d n"
  "index_full v (d\<lparr>ilen := l\<rparr>) n = index_full v d n" "index_tail v (d\<lparr>ilen := l\<rparr>) n = index_tail v d n"
  by (simp_all add: index_used_def index_ok_def index_full_def index_tail_def dir_row_def)

lemma bytes_to_sectors_nat: "0 \<le> l \<Longrightarrow> l < 2 ^ 30 \<Longrightarrow> nat (bytes_to_sectors l) = (nat l + 511) div 512"
  by (simp add: bytes_to_sectors_def int32_id sdiv_smod_512 nat_div_distrib nat_add_distrib)

lemma index_used_leaf: "a \<in> set (index_leaves v d n) \<Longrightarrow> a \<noteq> 0 \<Longrightarrow> a \<in> index_used v d n"
  using part_leaves_used unfolding index_leaves_def index_used_def useds_0 by auto

subsection \<open>Writing elsewhere\<close>

lemma slack_cong:
  assumes "\<forall>a\<in>set (index_sectors v d (sector_cnt d) @ data_sectors v d (sector_cnt d)). w a = v a"
  shows "slack w d = slack v d"
  unfolding slack_def
proof (rule map_cong [OF refl])
  fix i assume "i \<in> set [nat (ilen d)..<512 * sector_cnt d]"
  then have i: "i div 512 < sector_cnt d" by auto
  then have "sector_of w d (i div 512) = sector_of v d (i div 512)"
    using assms by (intro sector_of_cong [of v d "sector_cnt d"]) auto
  moreover have "sector_of v d (i div 512) \<in> set (data_sectors v d (sector_cnt d))" using i by (auto simp: data_sectors_def)
  ultimately show "w (sector_of w d (i div 512)) ! (i mod 512) = v (sector_of v d (i div 512)) ! (i mod 512)" using assms by simp
qed

text \<open>A write that leaves the free map's and a file's sectors alone leaves the file alone.\<close>

lemma file_wf_frame:
  assumes "fm_ok st" "file_wf st d" "bc_ok (bc st')" "sectors st' = sectors st" "fm_sectors st' = fm_sectors st" "free_sectors st' \<subseteq> free_sectors st"
    and keep: "\<forall>a\<in>index_used (disk st) d (sector_cnt d). disk st' a = disk st a"
  shows "file_wf st' d" "content (disk st') d = content (disk st) d"
    "index_used (disk st') d (sector_cnt d) = index_used (disk st) d (sector_cnt d)"
proof -
  have bok: "bc_ok (bc st)" using assms(1) by (simp add: fm_ok_def)
  note wf = assms(2) [unfolded file_wf_def] and used = file_wf_inode_ok [OF bok assms(2)]
  note c = index_used_cong [OF keep]
  have "\<forall>a\<in>index_inner (disk st) d (sector_cnt d). disk st' a = disk st a" using keep index_inner_used by blast
  note t = index_inner_cong(5) [OF this]
  show "index_used (disk st') d (sector_cnt d) = index_used (disk st) d (sector_cnt d)" by (rule c(1))
  show "content (disk st') d = content (disk st) d" using keep unfolding used(2) [symmetric] by (rule content_cong)
  have "slack (disk st') d = slack (disk st) d" using keep unfolding used(2) [symmetric] by (rule slack_cong)
  then show "file_wf st' d" using wf c t assms(4-6) unfolding file_wf_def by (auto simp: alloced_def)
qed

subsection \<open>Allocating for a longer file\<close>

text \<open>The index of a file is completed for \<open>l\<close> bytes; its length in the structure plays no part.\<close>

lemma sector_of_with_ilen: "sector_cnt (d\<lparr>ilen := l\<rparr>) = (nat l + 511) div 512"
  by (simp add: sector_cnt_def)

lemma index_leaves_ilen [simp]: "index_leaves v (d\<lparr>ilen := l\<rparr>) n = index_leaves v d n"
  by (simp add: index_leaves_def)

lemma index_done_ilen [simp]: "index_done free sys st (d\<lparr>ilen := x\<rparr>) n d1 st1 = index_done free sys st d n d1 st1"
  by (simp add: index_done_def)

lemma reserve_file:
  assumes ok: "fm_ok st" and d: "file_wf st d"
    and l: "ilen d \<le> l" "l \<le> 512 * int MAX_SECTORS" and c: "index_cost ((nat l + 511) div 512) \<le> card (free_sectors st)"
  shows "\<exists>d1 st1. inode_reserve allocate_one (d\<lparr>ilen := x\<rparr>) l st = Some (True, d1, st1) \<and> fm_ok st1
    \<and> ilen d1 = x \<and> is_dir d1 = is_dir d \<and> length (dir_blocks d1) = DIRECT
    \<and> grows free_sectors fm_sectors (index_used (disk st) d (sector_cnt d)) st st1
    \<and> index_used (disk st1) d1 ((nat l + 511) div 512) \<subseteq> index_used (disk st) d (sector_cnt d) \<union> (free_sectors st - free_sectors st1)
    \<and> file_wf st1 (d1\<lparr>ilen := l\<rparr>)
    \<and> content (disk st1) (d1\<lparr>ilen := l\<rparr>) = content (disk st) d @ replicate (nat (l - ilen d)) 0"
proof -
  let ?v = "disk st"
  define m where "m = sector_cnt d"
  define n where "n = (nat l + 511) div 512"
  have bok: "bc_ok (bc st)" using ok by (simp add: fm_ok_def)
  note wf = d [unfolded file_wf_def, folded m_def]
  have l0: "0 \<le> l" "l < 2 ^ 30" using wf l by (auto simp: MAX_SECTORS_def DIRECT_def INDIRECT_def)
  have n: "n = nat (bytes_to_sectors l)" "n \<le> MAX_SECTORS" using bytes_to_sectors_nat [OF l0] l(2) by (auto simp: n_def)
  have mn: "m \<le> n" unfolding m_def n_def sector_cnt_def using l(1) by (intro div_le_mono) simp
  note used = file_wf_inode_ok [OF bok d, folded m_def]
  have blk: "blocks_ok ?v d m" using index_used_blocks(2) [OF bok] wf by blast
  have ext: "index_ok ?v d n" "index_used ?v d n = index_used ?v d m" "index_leaves ?v d n = data_sectors ?v d m @ replicate (n - m) 0"
    "index_tail ?v d n"
    using index_extend [of ?v d m n] wf blk mn n(2) used(3) by auto
  have al: "index_used ?v (d\<lparr>ilen := x\<rparr>) n \<subseteq> alloced free_sectors fm_sectors st" using ext(2) wf by simp
  have "index_ok ?v (d\<lparr>ilen := x\<rparr>) n" "length (dir_blocks (d\<lparr>ilen := x\<rparr>)) = DIRECT" using ext(1) wf by simp_all
  from free_map.inode_reserve_spec [OF ok l0(1) n this(2,1) al] c obtain d1 st1 where
    r: "inode_reserve allocate_one (d\<lparr>ilen := x\<rparr>) l st = Some (True, d1, st1)" "fm_ok st1" "index_done free_sectors fm_sectors st d n d1 st1"
      "length (dir_blocks d1) = DIRECT" "ilen d1 = x" "is_dir d1 = is_dir d" "inode_magic d1 = inode_magic d" by (auto simp: n_def)
  note dn = r(3) [unfolded index_done_def]
  have g: "grows free_sectors fm_sectors (index_used ?v d m) st st1" using dn by (simp add: ext(2))
  have h: "fm_sectors st1 = fm_sectors st" "sectors st1 = sectors st" "free_sectors st1 \<subseteq> free_sectors st"
    using g by (auto simp: grows_def)
  have u1: "index_used (disk st1) d1 n \<subseteq> index_used ?v d m \<union> (free_sectors st - free_sectors st1)" using dn by (simp add: ext(2))
  have al1: "index_used (disk st1) d1 n \<subseteq> alloced free_sectors fm_sectors st1"
  proof
    fix a assume "a \<in> index_used (disk st1) d1 n"
    with u1 consider "a \<in> index_used ?v d m" | "a \<in> free_sectors st" "a \<notin> free_sectors st1" by blast
    then show "a \<in> alloced free_sectors fm_sectors st1"
      using wf free_map.free_range [OF ok] h by cases (auto simp: alloced_def)
  qed
  note b1 = index_used_blocks(2) [OF _ al1]
  have cnt: "sector_cnt (d1\<lparr>ilen := l\<rparr>) = n" by (simp add: sector_of_with_ilen n_def)
  have data1: "index_leaves (disk st1) d1 n = data_sectors (disk st1) d1 n"
    using r(2) dn b1 n(2) r(4) by (intro index_leaves_data) (auto simp: fm_ok_def)
  have gr: "list_all2 (grown ?v (disk st1)) (data_sectors ?v d m @ replicate (n - m) 0) (data_sectors (disk st1) d1 n)"
    using dn by (simp add: ext(3) data1)
  have nz: "0 \<notin> set (data_sectors ?v d m)" using used(2) wf zero_not_alloced by auto
  note gc = grown_content [OF gr m_def mn nz, of l]
  have con: "content (disk st1) (d1\<lparr>ilen := l\<rparr>) = content ?v d @ replicate (nat l - nat (ilen d)) 0"
    "\<forall>x\<in>set (slack (disk st1) (d1\<lparr>ilen := l\<rparr>)). x = 0"
    using gc wf l(1) cnt by auto
  have "file_wf st1 (d1\<lparr>ilen := l\<rparr>)"
    using l0 n(2) r(4,7) wf dn ext(4) al1 con(2) unfolding file_wf_def cnt by simp
  then show ?thesis using r u1 g con(1) l0(1) l(1) wf
    by (intro exI [of _ d1] exI [of _ st1]) (auto simp: nat_diff_distrib m_def n_def)
qed

subsection \<open>Growing\<close>

text \<open>What may change when a file grows to \<open>l\<close> bytes: its inode's sector, its own sectors, the free map's
  and sectors that were free.\<close>

definition own_sectors :: "fs \<Rightarrow> inode \<Rightarrow> nat set" where
  "own_sectors st i = insert (isector i) (index_used (disk st) (idata i) (sector_cnt (idata i)))"

definition grown_file :: "fs \<Rightarrow> ptr \<Rightarrow> inode \<Rightarrow> int \<Rightarrow> fs \<Rightarrow> inode_disk \<Rightarrow> bool" where
  "grown_file st p i l st' d' = (fm_ok st' \<and> file_wf st' d' \<and> ilen d' = l \<and> is_dir d' = is_dir (idata i)
     \<and> same_heap (st\<lparr>inode_of := (inode_of st)(p \<mapsto> i\<lparr>idata := d'\<rparr>)\<rparr>) st'
     \<and> disk st' (isector i) = encode_inode d' \<and> sectors st' = sectors st \<and> fm_sectors st' = fm_sectors st
     \<and> isector i \<in> alloced free_sectors fm_sectors st'
     \<and> free_sectors st' \<subseteq> free_sectors st \<and> isector i \<notin> index_used (disk st') d' (sector_cnt d')
     \<and> index_used (disk st') d' (sector_cnt d') \<subseteq> own_sectors st i \<union> (free_sectors st - free_sectors st')
     \<and> (\<forall>a. a \<notin> fm_sectors st \<longrightarrow> a \<notin> own_sectors st i \<longrightarrow> a \<notin> free_sectors st - free_sectors st' \<longrightarrow> disk st' a = disk st a))"

lemma same_heap_set_inode: "same_heap st st' \<Longrightarrow> same_heap (st\<lparr>inode_of := f\<rparr>) (st'\<lparr>inode_of := f\<rparr>)"
  unfolding same_heap_def by (elim exE) (rule exI [of _ "bc st'"], rule exI [of _ "free_map st'"], rule exI [of _ "heap_next st'"], simp)

lemma inode_grow_spec:
  assumes ok: "fm_ok st" and i: "inode_of st p = Some i" "file_wf st (idata i)" "isector i \<in> alloced free_sectors fm_sectors st"
    "isector i \<notin> index_used (disk st) (idata i) (sector_cnt (idata i))"
    and l: "ilen (idata i) < l" "l \<le> 512 * int MAX_SECTORS" and c: "index_cost ((nat l + 511) div 512) \<le> card (free_sectors st)"
  shows "\<exists>st' d'. inode_grow allocate_one p l st = Some (True, st') \<and> grown_file st p i l st' d'
    \<and> content (disk st') d' = content (disk st) (idata i) @ replicate (nat (l - ilen (idata i))) 0"
proof -
  let ?d = "idata i" and ?v = "disk st" and ?s = "isector i"
  let ?u = "index_used ?v ?d (sector_cnt ?d)"
  have d: "?d\<lparr>ilen := ilen ?d\<rparr> = ?d" by simp
  from reserve_file [OF ok i(2) _ l(2) c, of "ilen ?d", unfolded d] l(1) obtain d1 st1 where
    r: "inode_reserve allocate_one ?d l st = Some (True, d1, st1)" "fm_ok st1" "is_dir d1 = is_dir ?d" "length (dir_blocks d1) = DIRECT"
      "grows free_sectors fm_sectors ?u st st1" "index_used (disk st1) d1 ((nat l + 511) div 512) \<subseteq> ?u \<union> (free_sectors st - free_sectors st1)"
      "file_wf st1 (d1\<lparr>ilen := l\<rparr>)" "content (disk st1) (d1\<lparr>ilen := l\<rparr>) = content ?v ?d @ replicate (nat (l - ilen ?d)) 0" by auto
  have h: "same_heap st st1" "fm_sectors st1 = fm_sectors st" "sectors st1 = sectors st" "free_sectors st1 \<subseteq> free_sectors st"
    using r(5) by (auto simp: grows_def)
  have "{?s} \<subseteq> alloced free_sectors fm_sectors st" "{?s} \<inter> ?u = {}" using i(3,4) by auto
  note keep = grows_keeps [OF r(5) this]
  have s: "?s < sectors st1" "?s \<notin> fm_sectors st1" "?s \<notin> free_sectors st1" using keep(2) by (auto simp: alloced_def)
  define d' where "d' = d1\<lparr>ilen := l\<rparr>"
  have cnt: "sector_cnt d' = (nat l + 511) div 512" by (simp add: d'_def sector_of_with_ilen)
  have u': "index_used (disk st1) d' (sector_cnt d') \<subseteq> ?u \<union> (free_sectors st - free_sectors st1)" using r(6) by (simp add: d'_def sector_of_with_ilen)
  then have ns: "?s \<notin> index_used (disk st1) d' (sector_cnt d')" using i(3,4) by (auto simp: alloced_def)
  define st3 where "st3 = st1\<lparr>inode_of := (inode_of st)(p \<mapsto> i\<lparr>idata := d'\<rparr>)\<rparr>"
  have fmi: "fm_inode st3 = fm_inode st1"
    using file_wf_not_fm [OF ok i(1,2)] same_heap_fm_inode [OF h(1)] by (simp add: st3_def)
  note st3 = set_inode_ok [OF r(2) fmi [unfolded st3_def], folded st3_def]
  have enc: "length (encode_inode d') = BLOCK_SECTOR_SIZE" using length_encode_inode r(4) by (simp add: d'_def)
  from bc_write_step [of st3 ?s "encode_inode d'"] st3(1) s(1) enc obtain st4 where
    w: "bc_write ?s (encode_inode d') st3 = Some st4" "disk_step st3 ((disk st1)(?s := encode_inode d')) st4"
    by (auto simp: fm_ok_def st3_def)
  have wok: "fm_ok st4" "free_sectors st4 = free_sectors st1" "fm_sectors st4 = fm_sectors st1"
    using fm_write_ok [OF st3(1) w(2)] s(2) st3(2,3) by (auto simp: st3_def)
  note f4 = disk_stepD [OF w(2)]
  have sec4: "sectors st4 = sectors st" using f4 h(3) by (simp add: st3_def)
  have wf4: "file_wf st4 d'" "content (disk st4) d' = content (disk st1) d'"
    "index_used (disk st4) d' (sector_cnt d') = index_used (disk st1) d' (sector_cnt d')"
    using file_wf_frame [OF r(2) r(7), folded d'_def, of st4] wok f4 ns h(3) by (auto simp: fm_ok_def st3_def)
  have call: "inode_grow allocate_one p l st = Some (True, st4)"
  proof -
    have "byte_to_sector p (l - 1) st = Some (NO_SECTOR, st)" using i(1) l(1) by (intro byte_to_sector_outside) auto
    moreover have "inode_of st1 = inode_of st" using h(1) same_heapD by simp
    ultimately show ?thesis using i(1) r(1) w(1) by (simp add: inode_grow_def set_inode_def st3_def d'_def)
  qed
  have heap: "same_heap (st\<lparr>inode_of := (inode_of st)(p \<mapsto> i\<lparr>idata := d'\<rparr>)\<rparr>) st4"
    using same_heap_trans [OF same_heap_set_inode [OF h(1)] disk_step_heap [OF w(2), unfolded st3_def]] .
  have frame: "disk st4 a = ?v a" if "a \<notin> fm_sectors st" "a \<notin> own_sectors st i" "a \<notin> free_sectors st - free_sectors st4" for a
  proof -
    have "a \<noteq> ?s" "a \<notin> ?u" using that(2) by (auto simp: own_sectors_def)
    then show ?thesis using that r(5) f4(2) wok(2) by (simp add: grows_def)
  qed
  have "grown_file st p i l st4 d'"
    unfolding grown_file_def
  proof (intro conjI)
    show "?s \<in> alloced free_sectors fm_sectors st4" using keep(2) wok(2,3) sec4 h(3) by (simp add: alloced_def)
    show "?s \<notin> index_used (disk st4) d' (sector_cnt d')" using ns wf4(3) by simp
    show "index_used (disk st4) d' (sector_cnt d') \<subseteq> own_sectors st i \<union> (free_sectors st - free_sectors st4)"
      using u' wf4(3) wok(2) by (auto simp: own_sectors_def)
  qed (use wok wf4 r(3) heap frame sec4 h f4(2) in \<open>auto simp: d'_def\<close>)
  then show ?thesis using call r(8) wf4(2) by (auto simp: d'_def)
qed

subsection \<open>Writing\<close>

text \<open>A write to the file's data sectors keeps the file and the free map in order.\<close>

lemma file_wf_data:
  assumes "fm_ok st" "file_wf st d" "disk_step st w st'" "data_only d (disk st) w" "slack w d = slack (disk st) d"
  shows "fm_ok st'" "free_sectors st' = free_sectors st" "fm_sectors st' = fm_sectors st" "file_wf st' d"
    "index_used (disk st') d (sector_cnt d) = index_used (disk st) d (sector_cnt d)"
    "\<forall>a. a \<notin> index_used (disk st) d (sector_cnt d) \<longrightarrow> w a = disk st a"
proof -
  let ?n = "sector_cnt d"
  have bok: "bc_ok (bc st)" using assms(1) by (simp add: fm_ok_def)
  note wf = assms(2) [unfolded file_wf_def] and used = file_wf_inode_ok [OF bok assms(2)] and f = disk_stepD [OF assms(3)]
  have ch: "w a = disk st a" if "a \<notin> index_used (disk st) d ?n" for a
    using that assms(4) used(2) by (auto simp: data_only_def)
  then show "\<forall>a. a \<notin> index_used (disk st) d ?n \<longrightarrow> w a = disk st a" by blast
  have "\<forall>a\<in>fm_sectors st. w a = disk st a" using ch wf by (auto simp: alloced_def)
  then show o: "fm_ok st'" "free_sectors st' = free_sectors st" "fm_sectors st' = fm_sectors st"
    using fm_write_ok [OF assms(1,3)] by auto
  have "w a = disk st a" if "a \<in> index_inner (disk st) d ?n" for a
    using that assms(4) index_inner_leaves [of "disk st" d ?n] wf unfolding data_only_def used(3) by auto
  then have "\<forall>a\<in>index_inner (disk st) d ?n. w a = disk st a" by blast
  note c = index_inner_cong [OF this]
  show "index_used (disk st') d ?n = index_used (disk st) d ?n" using c(1) f(2) by simp
  then show "file_wf st' d" using wf c f(2,3) o assms(5) unfolding file_wf_def by (simp add: alloced_def)
qed

lemma file_wf_opened:
  "fm_ok st \<Longrightarrow> inode_of st p = Some i \<Longrightarrow> file_wf st (idata i) \<Longrightarrow> opened st p i"
  using file_wf_inode_ok(1) [of st "idata i"] by (auto simp: opened_def fm_ok_def)

lemma file_wf_disk:
  assumes "fm_ok st" "file_wf st d"
  shows "inode_disk_wf d"
proof -
  let ?n = "sector_cnt d"
  note wf = assms(2) [unfolded file_wf_def]
  have lim: "a < 2 ^ 32" if "a \<in> index_used (disk st) d ?n" for a
    using that wf assms(1) by (force simp: alloced_def fm_ok_def)
  have part: "p < 2 ^ 32" if "part_full (disk st) l p k" "part_tail (disk st) l p k" "part_used (disk st) l p k \<subseteq> index_used (disk st) d ?n" for l p k
  proof (cases "k = 0")
    case False
    then have "p \<in> part_used (disk st) l p k" using that(1) full_root [of "disk st" l p k] by (simp add: part_full_def part_used_def)
    then show ?thesis using that(3) lim by blast
  qed (use that(2) in \<open>simp add: part_tail_def\<close>)
  have "b < 2 ^ 32" if "b \<in> set (dir_blocks d)" for b
  proof -
    have "b \<in> set (take (n_dir ?n) (dir_blocks d)) \<or> b \<in> set (drop (n_dir ?n) (dir_blocks d))"
      using that append_take_drop_id [of "n_dir ?n" "dir_blocks d"] by (metis Un_iff set_append)
    then show ?thesis
    proof
      assume "b \<in> set (take (n_dir ?n) (dir_blocks d))"
      then have "b = 0 \<or> b \<in> index_used (disk st) d ?n" unfolding index_used_def useds_0 by auto
      then show ?thesis using lim by auto
    qed (use wf in \<open>auto simp: index_tail_def\<close>)
  qed
  moreover have "indir_block d < 2 ^ 32" "d_indir_block d < 2 ^ 32"
    using wf part [of 1 "indir_block d" "n_ind ?n"] part [of 2 "d_indir_block d" "n_dbl ?n"]
    unfolding index_full_def index_tail_def index_used_def by blast+
  moreover have "ilen d < 2 ^ 31"
  proof -
    have "(nat (ilen d) + 511) div 512 \<le> 16635" using wf by (simp add: sector_cnt_def MAX_SECTORS_def DIRECT_def INDIRECT_def)
    then have "nat (ilen d) + 511 < 16636 * 512" by (simp add: div_less_iff_less_mult flip: less_Suc_eq_le)
    then show ?thesis by simp
  qed
  ultimately show ?thesis using wf by (simp add: inode_disk_wf_def)
qed

text \<open>Both cases: the write ends inside the file, or the file grows first.\<close>

definition new_content :: "nat \<Rightarrow> byte list \<Rightarrow> byte list \<Rightarrow> byte list" where
  "new_content o' buf c = patch o' buf (c @ replicate (o' + length buf - length c) 0)"

lemma inode_write_grown:
  assumes ok: "fm_ok st" and i: "inode_of st p = Some i" "file_wf st (idata i)" "isector i \<in> alloced free_sectors fm_sectors st"
    "isector i \<notin> index_used (disk st) (idata i) (sector_cnt (idata i))" "deny_write_cnt i = 0"
    and l: "ilen (idata i) < int (o' + length buf)" "o' + length buf \<le> 512 * MAX_SECTORS" "buf \<noteq> []"
    and c: "index_cost ((o' + length buf + 511) div 512) \<le> card (free_sectors st)"
  shows "\<exists>st' d'. inode_write_at allocate_one p buf (int o') st = Some (int (length buf), st')
    \<and> grown_file st p i (int (o' + length buf)) st' d' \<and> content (disk st') d' = new_content o' buf (content (disk st) (idata i))"
proof -
  let ?l = "int (o' + length buf)"
  have n: "nat ?l = o' + length buf" by simp
  have lm: "?l \<le> 512 * int MAX_SECTORS" using l(2) by linarith
  from inode_grow_spec [OF ok i(1-4) l(1) lm] c obtain st1 d where
    g: "inode_grow allocate_one p ?l st = Some (True, st1)" "grown_file st p i ?l st1 d"
      "content (disk st1) d = content (disk st) (idata i) @ replicate (nat (?l - ilen (idata i))) 0" unfolding n by blast
  note gf = g(2) [unfolded grown_file_def]
  let ?i = "i\<lparr>idata := d\<rparr>"
  have heap1: "same_heap (st\<lparr>inode_of := (inode_of st)(p \<mapsto> ?i)\<rparr>) st1" using gf by blast
  then have in1: "inode_of st1 p = Some ?i" using same_heapD(1) [OF heap1] by simp
  have op: "opened st1 p ?i" using gf in1 by (intro file_wf_opened) auto
  have "length buf = min (length buf) (nat (ilen (idata ?i)) - nat (int o'))" using gf by simp
  from write_loop_spec [OF op _ this, of False 0] obtain st2 w where
    w: "write_loop p buf (int o') False 0 st1 = Some (int (length buf), st2)" "disk_step st1 w st2" "data_only d (disk st1) w"
      "content w d = patch o' buf (content (disk st1) d)" "slack w d = slack (disk st1) d" by auto
  have wf1: "fm_ok st1" "file_wf st1 d" using gf by auto
  note kept = file_wf_data [OF wf1 w(2,3,5)] and f = disk_stepD [OF w(2)]
  have "int32 ?l = ?l" using l(2) by (intro int32_id) (auto simp: MAX_SECTORS_def DIRECT_def INDIRECT_def)
  then have call: "inode_write_at allocate_one p buf (int o') st = Some (int (length buf), st2)"
    using i(1,5) g(1) w(1) by (simp add: inode_write_at_def)
  have ld: "length (content (disk st) (idata i)) = nat (ilen (idata i))" by simp
  have "0 \<le> ilen (idata i)" using i(2) by (simp add: file_wf_def)
  then have "nat (?l - ilen (idata i)) = o' + length buf - length (content (disk st) (idata i))" unfolding ld by linarith
  then have con: "content (disk st2) d = new_content o' buf (content (disk st) (idata i))"
    using w(4) g(3) f(2) by (simp add: new_content_def)
  have heap: "same_heap (st\<lparr>inode_of := (inode_of st)(p \<mapsto> ?i)\<rparr>) st2"
    using same_heap_trans [OF heap1 disk_step_heap [OF w(2)]] .
  have "grown_file st p i ?l st2 d"
    unfolding grown_file_def
  proof (intro conjI)
    show "index_used (disk st2) d (sector_cnt d) \<subseteq> own_sectors st i \<union> (free_sectors st - free_sectors st2)"
      using kept(2,5) gf by simp
    show "\<forall>a. a \<notin> fm_sectors st \<longrightarrow> a \<notin> own_sectors st i \<longrightarrow> a \<notin> free_sectors st - free_sectors st2 \<longrightarrow> disk st2 a = disk st a"
      using gf kept(2,6) f(2) by auto
    show "isector i \<in> alloced free_sectors fm_sectors st2" using gf kept(2,3) f(3) by (auto simp: alloced_def)
    show "disk st2 (isector i) = encode_inode d" using kept(6) gf f(2) by simp
  qed (use gf kept heap f in auto)
  then show ?thesis using call con by blast
qed

text \<open>Both cases in one: what a write leaves.\<close>

definition written :: "fs \<Rightarrow> ptr \<Rightarrow> inode \<Rightarrow> nat \<Rightarrow> byte list \<Rightarrow> fs \<Rightarrow> inode_disk \<Rightarrow> bool" where
  "written st p i o' buf st' d' = (inode_of st' p = Some (i\<lparr>idata := d'\<rparr>)
     \<and> content (disk st') d' = new_content o' buf (content (disk st) (idata i))
     \<and> fm_ok st' \<and> file_wf st' d' \<and> (nat (ilen (idata i)) < o' + length buf \<longrightarrow> decode_inode (disk st' (isector i)) = d')
     \<and> is_dir d' = is_dir (idata i) \<and> same_heap (st\<lparr>inode_of := (inode_of st)(p \<mapsto> i\<lparr>idata := d'\<rparr>)\<rparr>) st'
     \<and> isector i \<in> alloced free_sectors fm_sectors st' \<and> isector i \<notin> index_used (disk st') d' (sector_cnt d')
     \<and> (\<forall>a. a \<notin> fm_sectors st \<longrightarrow> a \<notin> own_sectors st i \<longrightarrow> a \<notin> free_sectors st \<longrightarrow> disk st' a = disk st a))"

lemma inode_write_refines:
  assumes "fm_ok st" "inode_of st p = Some i" "file_wf st (idata i)" "deny_write_cnt i = 0"
    "isector i \<in> alloced free_sectors fm_sectors st" "isector i \<notin> index_used (disk st) (idata i) (sector_cnt (idata i))"
    "buf \<noteq> []" "o' + length buf \<le> 512 * MAX_SECTORS"
    "nat (ilen (idata i)) < o' + length buf \<longrightarrow> index_cost ((o' + length buf + 511) div 512) \<le> card (free_sectors st)"
  shows "\<exists>st' d'. inode_write_at allocate_one p buf (int o') st = Some (int (length buf), st') \<and> written st p i o' buf st' d'"
proof -
  have pos: "0 \<le> ilen (idata i)" using assms(3) by (simp add: file_wf_def)
  show ?thesis
  proof (cases "nat (ilen (idata i)) < o' + length buf")
    case True
    then have g: "ilen (idata i) < int (o' + length buf)" by linarith
    from inode_write_grown [OF assms(1-3,5,6,4) g assms(8,7)] assms(9) True obtain st' d' where
      w: "inode_write_at allocate_one p buf (int o') st = Some (int (length buf), st')"
        "grown_file st p i (int (o' + length buf)) st' d'" "content (disk st') d' = new_content o' buf (content (disk st) (idata i))"
      by blast
    note gf = w(2) [unfolded grown_file_def]
    have "inode_of st' = (inode_of st)(p \<mapsto> i\<lparr>idata := d'\<rparr>)"
      using same_heapD(1) [of "st\<lparr>inode_of := (inode_of st)(p \<mapsto> i\<lparr>idata := d'\<rparr>)\<rparr>" st'] gf by simp
    then have i': "inode_of st' p = Some (i\<lparr>idata := d'\<rparr>)" by simp
    have "inode_disk_wf d'" using file_wf_disk [of st' d'] gf by blast
    then have "decode_inode (disk st' (isector i)) = d'" using decode_encode_inode gf by simp
    then show ?thesis using w(1,3) i' gf unfolding written_def by blast
  next
    case False
    then have fit: "int o' + int (length buf) \<le> ilen (idata i)" using pos by linarith
    have lim: "ilen (idata i) < 2 ^ 31" using file_wf_disk [OF assms(1,3)] by (simp add: inode_disk_wf_def)
    have "sectors st \<le> NO_SECTOR" using assms(1) by (simp add: fm_ok_def NO_SECTOR_def)
    from inode_write_at_spec [OF file_wf_opened [OF assms(1-3)] assms(4) this assms(7) fit lim, of allocate_one] obtain st' w where
      w: "inode_write_at allocate_one p buf (int o') st = Some (int (length buf), st')" "disk_step st w st'"
        "data_only (idata i) (disk st) w" "content w (idata i) = patch o' buf (content (disk st) (idata i))"
        "slack w (idata i) = slack (disk st) (idata i)" by blast
    note k = file_wf_data [OF assms(1,3) w(2,3,5)] and f = disk_stepD [OF w(2)]
    have nc: "new_content o' buf (content (disk st) (idata i)) = patch o' buf (content (disk st) (idata i))"
      using False by (simp add: new_content_def)
    have i': "inode_of st' p = Some (i\<lparr>idata := idata i\<rparr>)" using f(4) assms(2) by simp
    have "disk st' a = disk st a" if "a \<notin> own_sectors st i" for a using that k(6) f(2) by (simp add: own_sectors_def)
    moreover have "st\<lparr>inode_of := (inode_of st)(p \<mapsto> i\<lparr>idata := idata i\<rparr>)\<rparr> = st" using assms(2) by (simp add: fun_upd_idem)
    moreover have "isector i \<in> alloced free_sectors fm_sectors st'" using assms(5) k(2,3) f(3) by (simp add: alloced_def)
    ultimately have "written st p i o' buf st' (idata i)"
      using i' k f(2) False assms(6) w(4) disk_step_heap [OF w(2)] unfolding written_def by (simp add: nc)
    then show ?thesis using w(1) by blast
  qed
qed

end
