(* ===== verification/FsTheorems.thy ===== *)
theory FsTheorems imports FileGrowth begin

section \<open>Theorems on inodes and the free map\<close>

text \<open>
  What the operations on inodes promise: files are byte sequences that grow by zeros, new files are full of
  zeros, allocation hands out free sectors and records them on the disk; and what happens when the disk is
  full.  The witnesses are a device of 16 sectors with the free map's file and an empty file.
\<close>

subsection \<open>Creating an inode\<close>

definition zero_inode :: "bool \<Rightarrow> inode_disk" where
  "zero_inode isdir = \<lparr>d_indir_block = 0, indir_block = 0, dir_blocks = replicate DIRECT 0, ilen = 0,
     inode_magic = INODE_MAGIC, is_dir = isdir\<rparr>"

lemma index_empty:
  assumes "length (dir_blocks d) = DIRECT" "\<forall>b\<in>set (dir_blocks d). b = 0" "indir_block d = 0" "d_indir_block d = 0"
  shows "index_used v d 0 = {}" "index_ok v d 0" "index_full v d 0" "index_tail v d 0"
  using assms by (simp_all add: index_used_def index_ok_def index_full_def index_tail_def dir_row_def n_dir_def n_ind_def n_dbl_def
      part_used_def part_ok_def part_full_def part_tail_def)

lemma file_wf_empty:
  assumes "length (dir_blocks d) = DIRECT" "\<forall>b\<in>set (dir_blocks d). b = 0" "indir_block d = 0" "d_indir_block d = 0"
    "ilen d = 0" "inode_magic d < 2 ^ 32"
  shows "file_wf st d" "index_used (disk st) d (sector_cnt d) = {}"
proof -
  have c: "sector_cnt d = 0" using assms(5) by (simp add: sector_cnt_def)
  show "index_used (disk st) d (sector_cnt d) = {}" unfolding c by (rule index_empty(1) [OF assms(1-4)])
  then show "file_wf st d" using assms index_empty [OF assms(1-4)] unfolding file_wf_def c by (simp add: slack_def c)
qed

lemma zero_inode_wf: "file_wf st (zero_inode isdir)" "index_used (disk st) (zero_inode isdir) (sector_cnt (zero_inode isdir)) = {}"
  by (rule file_wf_empty; simp add: zero_inode_def INODE_MAGIC_def)+

text \<open>The new file's inode, with fresh sectors full of zeros.\<close>

definition created :: "fs \<Rightarrow> nat \<Rightarrow> int \<Rightarrow> bool \<Rightarrow> fs \<Rightarrow> inode_disk \<Rightarrow> bool" where
  "created st sector l isdir st' d = (fm_ok st' \<and> file_wf st' d \<and> is_dir d = isdir \<and> decode_inode (disk st' sector) = d
     \<and> content (disk st') d = replicate (nat l) 0 \<and> same_heap st st' \<and> fm_sectors st' = fm_sectors st \<and> sectors st' = sectors st
     \<and> sector \<in> alloced free_sectors fm_sectors st' \<and> sector \<notin> index_used (disk st') d (sector_cnt d)
     \<and> index_used (disk st') d (sector_cnt d) \<subseteq> free_sectors st - free_sectors st' \<and> free_sectors st' \<subseteq> free_sectors st
     \<and> (\<forall>a. a \<notin> fm_sectors st \<longrightarrow> a \<noteq> sector \<longrightarrow> a \<notin> free_sectors st - free_sectors st' \<longrightarrow> disk st' a = disk st a))"

lemma inode_create_unfold:
  assumes "0 \<le> l" "malloc_ok st (heap_next st)"
  shows "inode_create sector l isdir st = do {
     (ok, d, st) \<leftarrow> inode_reserve allocate_one ((zero_inode isdir)\<lparr>ilen := l\<rparr>) l (st\<lparr>heap_next := heap_next st + 1\<rparr>);
     if ok then do { st \<leftarrow> bc_write sector (encode_inode d) st; Some (True, st) } else Some (False, st) }"
  using assms by (simp add: inode_create_def fs_malloc_def inode_new_def zero_inode_def)

lemma malloc_quiet:
  "fm_ok st \<Longrightarrow> fm_ok (st\<lparr>heap_next := n\<rparr>) \<and> free_sectors (st\<lparr>heap_next := n\<rparr>) = free_sectors st
     \<and> fm_sectors (st\<lparr>heap_next := n\<rparr>) = fm_sectors st"
  by (rule fm_write_ok [where w = "disk st"]) (auto simp: disk_step_def fm_ok_def intro!: exI [of _ "bc st"])

lemma inode_create_spec:
  assumes ok: "fm_ok st" and l: "0 \<le> l" "l \<le> 512 * int MAX_SECTORS" and s: "sector \<in> alloced free_sectors fm_sectors st"
    and c: "index_cost ((nat l + 511) div 512) \<le> card (free_sectors st)"
  shows "\<exists>st' d. inode_create sector l isdir st = Some (True, st') \<and> created st sector l isdir st' d"
proof -
  define s0 where "s0 = st\<lparr>heap_next := heap_next st + 1\<rparr>"
  have m: "malloc_ok st (heap_next st)" using ok by (simp add: fm_ok_def)
  have o0: "fm_ok s0" "free_sectors s0 = free_sectors st" "fm_sectors s0 = fm_sectors st" "disk s0 = disk st" "sectors s0 = sectors st"
    using malloc_quiet [OF ok] by (auto simp: s0_def)
  have h0: "same_heap st s0" by (auto simp: same_heap_def s0_def intro!: exI [of _ "bc st"] exI [of _ "free_map st"] exI [of _ "heap_next st + 1"])
  note z = zero_inode_wf [of s0 isdir]
  have z0: "ilen (zero_inode isdir) = 0" "is_dir (zero_inode isdir) = isdir" by (simp_all add: zero_inode_def)
  from reserve_file [OF o0(1) z(1), of l l] z z0 l c o0(2) obtain d st1 where
    r: "inode_reserve allocate_one ((zero_inode isdir)\<lparr>ilen := l\<rparr>) l s0 = Some (True, d, st1)" "fm_ok st1" "ilen d = l" "is_dir d = isdir"
      "length (dir_blocks d) = DIRECT" "grows free_sectors fm_sectors {} s0 st1"
      "index_used (disk st1) d ((nat l + 511) div 512) \<subseteq> free_sectors st - free_sectors st1"
      "file_wf st1 (d\<lparr>ilen := l\<rparr>)" "content (disk st1) (d\<lparr>ilen := l\<rparr>) = content (disk s0) (zero_inode isdir) @ replicate (nat l) 0" by auto
  have "d\<lparr>ilen := l\<rparr> = d" using r(3) by simp
  then have wf: "file_wf st1 d" and con: "content (disk st1) d = replicate (nat l) 0" using r(8,9) by (simp_all add: content_def z0)
  have cnt: "sector_cnt d = (nat l + 511) div 512" by (simp add: sector_cnt_def r(3))
  have h: "same_heap s0 st1" "fm_sectors st1 = fm_sectors st" "sectors st1 = sectors st" "free_sectors st1 \<subseteq> free_sectors st"
    using r(6) o0 by (auto simp: grows_def)
  have s1: "sector < sectors st1" "sector \<notin> fm_sectors st1" "sector \<in> alloced free_sectors fm_sectors st1"
    using s h by (auto simp: alloced_def)
  have enc: "length (encode_inode d) = BLOCK_SECTOR_SIZE" using length_encode_inode r(5) by simp
  from bc_write_step [of st1 sector "encode_inode d"] r(2) s1(1) enc obtain st2 where
    w: "bc_write sector (encode_inode d) st1 = Some st2" "disk_step st1 ((disk st1)(sector := encode_inode d)) st2"
    by (auto simp: fm_ok_def)
  have wok: "fm_ok st2" "free_sectors st2 = free_sectors st1" "fm_sectors st2 = fm_sectors st1"
    using fm_write_ok [OF r(2) w(2)] s1(2) by auto
  note f2 = disk_stepD [OF w(2)]
  have ns: "sector \<notin> index_used (disk st1) d (sector_cnt d)" using r(7) s unfolding cnt by (auto simp: alloced_def)
  have wf2: "file_wf st2 d" "content (disk st2) d = content (disk st1) d"
    "index_used (disk st2) d (sector_cnt d) = index_used (disk st1) d (sector_cnt d)"
    using file_wf_frame [OF r(2) wf, of st2] wok f2 ns by auto
  have "decode_inode (disk st2 sector) = d" using decode_encode_inode [OF file_wf_disk [OF wok(1) wf2(1)]] f2(2) by simp
  moreover have "disk st2 a = disk st a" if "a \<notin> fm_sectors st" "a \<noteq> sector" "a \<notin> free_sectors st - free_sectors st2" for a
    using that r(6) o0 f2(2) wok(2) by (simp add: grows_def)
  moreover have "same_heap st st2" using same_heap_trans [OF same_heap_trans [OF h0 h(1)] disk_step_heap [OF w(2)]] .
  ultimately have "created st sector l isdir st2 d"
    using wok wf2 con r(4,7) h f2(3) s1(3) ns unfolding created_def cnt by (auto simp: alloced_def)
  moreover have "inode_create sector l isdir st = Some (True, st2)"
    unfolding inode_create_unfold [where isdir = isdir, OF l(1) m] using r(1) w(1) by (simp add: s0_def)
  ultimately show ?thesis by blast
qed

subsection \<open>A disk of sixteen sectors\<close>

text \<open>Sector 0 holds the inode of the free map's file, whose one data sector is 2, and sector 3 the inode of
  an empty file.  \<open>k\<close> is the word of the free map.\<close>

definition ex_map_inode :: inode_disk where
  "ex_map_inode = (zero_inode False)\<lparr>dir_blocks := 2 # replicate 122 0, ilen := 4\<rparr>"

definition ex_fs :: "u32 \<Rightarrow> fs" where
  "ex_fs k = \<lparr>bc = buffer_cache_init \<lparr>bc_entries = replicate NUM_CACHE
       \<lparr>valid_bit = False, disk_sector = 0, buffer = [], dirty_bit = False, refer_bit = False\<rparr>, bc_held = False,
       fs_device = \<lparr>dev_name = ''hdb1'', dev_type = BLOCK_FILESYS, dev_size = 16,
         medium = encode_inode ex_map_inode # replicate 15 zeros, read_cnt = 0, write_cnt = 0\<rparr>\<rparr>,
     free_map = \<lparr>bit_cnt = 16, elems = [k]\<rparr>, free_map_file = Some 5, open_inodes = [7, 6],
     inode_of = [6 \<mapsto> \<lparr>isector = 0, open_cnt = 1, removed = False, deny_write_cnt = 0, idata = ex_map_inode\<rparr>,
                 7 \<mapsto> \<lparr>isector = 3, open_cnt = 1, removed = False, deny_write_cnt = 0, idata = zero_inode False\<rparr>],
     file_of = [5 \<mapsto> \<lparr>file_inode = 6, file_pos = 0, deny_write = False\<rparr>], dir_of = Map.empty,
     heap_next = 8, malloc_ok = (\<lambda>_. True), cwd = None\<rparr>"

lemma ex_bc: "bc_ok (bc (ex_fs k))" "disk (ex_fs k) = block_view (fs_device (bc (ex_fs k)))"
proof -
  let ?c = "\<lparr>bc_entries = replicate NUM_CACHE
       \<lparr>valid_bit = False, disk_sector = 0, buffer = [], dirty_bit = False, refer_bit = False\<rparr>, bc_held = False,
       fs_device = \<lparr>dev_name = ''hdb1'', dev_type = BLOCK_FILESYS, dev_size = 16,
         medium = encode_inode ex_map_inode # replicate 15 zeros, read_cnt = 0, write_cnt = 0\<rparr>\<rparr>"
  have "length (encode_inode ex_map_inode) = BLOCK_SECTOR_SIZE"
    by (rule length_encode_inode) (simp add: ex_map_inode_def DIRECT_def)
  then have "block_ok (fs_device ?c)" by (auto simp: block_ok_def)
  note i = bc_init_ok [OF this]
  show "bc_ok (bc (ex_fs k))" unfolding ex_fs_def fs.simps by (rule i [THEN conjunct1]) simp
  have "disk (ex_fs k) = block_view (fs_device ?c)" unfolding ex_fs_def fs.simps by (rule i [THEN conjunct2]) simp
  then show "disk (ex_fs k) = block_view (fs_device (bc (ex_fs k)))" by (simp add: ex_fs_def buffer_cache_init_def)
qed

lemma ex_sectors [simp]: "sectors (ex_fs k) = 16"
  by (simp add: ex_fs_def buffer_cache_init_def bc_limit_def)

lemma ex_fm_inode: "fm_inode (ex_fs k) = Some \<lparr>isector = 0, open_cnt = 1, removed = False, deny_write_cnt = 0, idata = ex_map_inode\<rparr>"
  by (simp add: fm_inode_def ex_fs_def)

lemma ex_map_cnt: "sector_cnt ex_map_inode = 1"
  by (simp add: sector_cnt_def ex_map_inode_def)

lemma ex_fm_sectors: "fm_sectors (ex_fs k) = {2}"
  by (simp add: fm_sectors_def ex_fm_inode ex_map_cnt index_sectors_def data_sectors_def sector_of_def DIRECT_def)
    (simp add: ex_map_inode_def)

lemma ex_fm_ok:
  assumes "bit k 0" "bit k 2"
  shows "fm_ok (ex_fs k)"
proof -
  have "fm_file_ok (ex_fs k) \<lparr>isector = 0, open_cnt = 1, removed = False, deny_write_cnt = 0, idata = ex_map_inode\<rparr>"
    unfolding fm_file_ok_def inode_ok_def ex_map_cnt
    by (simp add: ex_map_cnt index_sectors_def data_sectors_def sector_of_def DIRECT_def MAX_SECTORS_def byte_cnt_small)
      (simp add: ex_map_inode_def ex_fs_def byte_cnt_small)
  then show ?thesis using assms ex_bc(1) [of k] unfolding fm_ok_def ex_fm_sectors ex_fm_inode ex_sectors
    by (auto simp: ex_fs_def bm_wf_def bit_of_def)
qed

lemma ex_free: "free_sectors (ex_fs k) = {a. a < 16 \<and> \<not> bit k a}"
  by (auto simp: free_sectors_def ex_fs_def bit_of_def)

lemma ex_free_15: "free_sectors (ex_fs 15) = {4..<16}"
proof -
  have b: "bit (15 :: u32) a \<longleftrightarrow> a < 4" for a
  proof -
    have "(15 :: u32) = mask 4" by (simp add: mask_eq_exp_minus_1)
    then show ?thesis by (simp only: bit_mask_iff) (auto simp: possible_bit_word)
  qed
  show ?thesis unfolding ex_free b by auto
qed

lemma ex_15: "fm_ok (ex_fs 15)" "3 \<in> alloced free_sectors fm_sectors (ex_fs 15)"
  using ex_free_15 by (auto intro!: ex_fm_ok simp: alloced_def ex_fm_sectors)

lemma ex_file: "inode_of (ex_fs k) 7 = Some \<lparr>isector = 3, open_cnt = 1, removed = False, deny_write_cnt = 0, idata = zero_inode False\<rparr>"
  by (simp add: ex_fs_def)

lemma index_cost_small: "n \<le> DIRECT \<Longrightarrow> index_cost n = n"
  by (simp add: index_cost_def n_dir_def n_ind_def n_dbl_def part_cost_def)

subsection \<open>A file is a sequence of bytes\<close>

text \<open>C22: reading and writing refine operations on the list of a file's bytes.  \<open>inode_write_at\<close> replaces the
  bytes from the offset on, after the file has grown by zeros when the write ends past its end (its sectors,
  index blocks and the new inode are then on the disk); it writes all of the buffer, keeps the file and the free
  map in order and touches no other sector in use; \<open>inode_read_at\<close> then returns the bytes of the new content at
  every offset, as many as there are.  A file has at most 123 + 128 + 128 * 128 sectors, memory is there, and so
  are the free sectors the growth can take.\<close>

theorem file_write_then_read:
  assumes "fm_ok st" "inode_of st p = Some i" "file_wf st (idata i)" "deny_write_cnt i = 0"
    "isector i \<in> alloced free_sectors fm_sectors st" "isector i \<notin> index_used (disk st) (idata i) (sector_cnt (idata i))"
    "buf \<noteq> []" "o' + length buf \<le> 512 * MAX_SECTORS"
    "nat (ilen (idata i)) < o' + length buf \<longrightarrow> index_cost ((o' + length buf + 511) div 512) \<le> card (free_sectors st)"
  shows "\<exists>st' d'. inode_write_at allocate_one p buf (int o') st = Some (int (length buf), st')
    \<and> inode_of st' p = Some (i\<lparr>idata := d'\<rparr>) \<and> content (disk st') d' = new_content o' buf (content (disk st) (idata i))
    \<and> fm_ok st' \<and> file_wf st' d'
    \<and> (nat (ilen (idata i)) < o' + length buf \<longrightarrow> decode_inode (disk st' (isector i)) = d')
    \<and> (\<forall>a. a \<notin> fm_sectors st \<longrightarrow> a \<notin> own_sectors st i \<longrightarrow> a \<notin> free_sectors st \<longrightarrow> disk st' a = disk st a)
    \<and> (\<forall>sz ofs. \<exists>st''. inode_read_at p sz (int ofs) st'
         = Some (take (nat sz) (drop ofs (new_content o' buf (content (disk st) (idata i)))), st''))"
proof -
  from inode_write_refines [OF assms] obtain st' d' where
    w: "inode_write_at allocate_one p buf (int o') st = Some (int (length buf), st')" "written st p i o' buf st' d'" by blast
  note wr = w(2) [unfolded written_def]
  have op: "opened st' p (i\<lparr>idata := d'\<rparr>)" using wr by (intro file_wf_opened) simp_all
  have "\<exists>st''. inode_read_at p sz (int ofs) st'
      = Some (take (nat sz) (drop ofs (new_content o' buf (content (disk st) (idata i)))), st'')" for sz ofs
    using inode_read_at_spec [OF op, of "int ofs" sz] wr by auto
  then show ?thesis using w(1) wr by blast
qed

text \<open>Three bytes at offset 600 of an empty file: it has 603 bytes then, the first 600 are zero.\<close>

theorem file_write_then_read_witness:
  "\<exists>st' st''. inode_write_at allocate_one 7 [1, 2, 3] 600 (ex_fs 15) = Some (3, st')
     \<and> inode_read_at 7 10 598 st' = Some ([0, 0, 1, 2, 3], st'')"
proof -
  have c: "content v (zero_inode False) = []" for v by (simp add: content_def zero_inode_def)
  have "\<exists>st' d'. inode_write_at allocate_one 7 [1, 2, 3] (int 600) (ex_fs 15) = Some (int (length [1, 2, 3 :: byte]), st')
      \<and> inode_of st' 7 = Some (\<lparr>isector = 3, open_cnt = 1, removed = False, deny_write_cnt = 0, idata = zero_inode False\<rparr>\<lparr>idata := d'\<rparr>)
      \<and> content (disk st') d' = new_content 600 [1, 2, 3] (content (disk (ex_fs 15)) (zero_inode False)) \<and> fm_ok st' \<and> file_wf st' d'
      \<and> (nat (ilen (zero_inode False)) < 600 + length [1, 2, 3 :: byte] \<longrightarrow> decode_inode (disk st' 3) = d')
      \<and> (\<forall>a. a \<notin> fm_sectors (ex_fs 15) \<longrightarrow> a \<notin> own_sectors (ex_fs 15)
            \<lparr>isector = 3, open_cnt = 1, removed = False, deny_write_cnt = 0, idata = zero_inode False\<rparr>
          \<longrightarrow> a \<notin> free_sectors (ex_fs 15) \<longrightarrow> disk st' a = disk (ex_fs 15) a)
      \<and> (\<forall>sz ofs. \<exists>st''. inode_read_at 7 sz (int ofs) st'
           = Some (take (nat sz) (drop ofs (new_content 600 [1, 2, 3] (content (disk (ex_fs 15)) (zero_inode False)))), st''))"
    using file_write_then_read [OF ex_15(1) ex_file, of "[1, 2, 3]" 600] zero_inode_wf [of "ex_fs 15" False] ex_15(2)
    by (simp add: index_cost_small DIRECT_def ex_free_15 MAX_SECTORS_def)
  then obtain st' where w: "inode_write_at allocate_one 7 [1, 2, 3] (int 600) (ex_fs 15) = Some (int (length [1, 2, 3 :: byte]), st')"
    and r: "\<forall>sz ofs. \<exists>st''. inode_read_at 7 sz (int ofs) st' = Some (take (nat sz) (drop ofs (new_content 600 [1, 2, 3] [])), st'')"
    unfolding c by blast
  have "take (nat 10) (drop 598 (new_content 600 [1, 2, 3] [])) = [0, 0, 1, 2, 3 :: byte]"
    by (simp add: new_content_def patch_def eval_nat_numeral)
  moreover from r obtain st'' where "inode_read_at 7 10 (int 598) st' = Some (take (nat 10) (drop 598 (new_content 600 [1, 2, 3] [])), st'')" by blast
  ultimately show ?thesis using w by auto
qed

subsection \<open>New files\<close>

text \<open>C24: \<open>inode_create\<close> makes a file of the length asked for that is full of zeros.  Its inode can be read back
  from its sector, its other sectors were free and are its own, no sector in use by another file changes, and the
  free map stays in order.\<close>

theorem inode_create_zero_file:
  assumes "fm_ok st" "0 \<le> l" "l \<le> 512 * int MAX_SECTORS" "sector \<in> alloced free_sectors fm_sectors st"
    "index_cost ((nat l + 511) div 512) \<le> card (free_sectors st)"
  shows "\<exists>st' d. inode_create sector l isdir st = Some (True, st') \<and> decode_inode (disk st' sector) = d \<and> is_dir d = isdir
    \<and> content (disk st') d = replicate (nat l) 0 \<and> fm_ok st' \<and> file_wf st' d
    \<and> index_used (disk st') d (sector_cnt d) \<subseteq> free_sectors st - free_sectors st'
    \<and> (\<forall>a. a \<notin> fm_sectors st \<longrightarrow> a \<noteq> sector \<longrightarrow> a \<notin> free_sectors st - free_sectors st' \<longrightarrow> disk st' a = disk st a)"
  using inode_create_spec [OF assms, of isdir] unfolding created_def by blast

theorem inode_create_zero_file_witness:
  "\<exists>st' d. inode_create 3 1000 True (ex_fs 15) = Some (True, st') \<and> decode_inode (disk st' 3) = d
     \<and> content (disk st') d = replicate 1000 0"
  using inode_create_zero_file [OF ex_15(1) _ _ ex_15(2), of 1000 True]
  by (auto simp: index_cost_small DIRECT_def ex_free_15 MAX_SECTORS_def INDIRECT_def)

text \<open>C23: \<open>free_map_allocate\<close> hands out a sector that was free, takes exactly this one from the free sectors and
  writes the map to its file, so that the map read back from the disk after a restart is the one in memory; when no
  sector is free it fails and changes nothing.\<close>

theorem free_map_allocate_recorded:
  assumes "fm_ok st" "fm_inode st = Some i" "free_map_file st = Some f"
  shows "(free_sectors st \<noteq> {} \<longrightarrow> (\<exists>a st'. free_map_allocate 1 st = Some (Some a, st') \<and> a \<in> free_sectors st
      \<and> free_sectors st' = free_sectors st - {a} \<and> fm_ok st' \<and> content (disk st') (idata i) = bitmap_bytes (free_map st')
      \<and> (\<forall>b. b \<notin> fm_sectors st \<longrightarrow> disk st' b = disk st b)))
    \<and> (free_sectors st = {} \<longrightarrow> free_map_allocate 1 st = Some (None, st))"
proof -
  note spec = allocate_nested_spec [OF assms(1), of "bit_cnt (free_map st) + 1"]
  have one: "free_map_allocate 1 st = allocate_nested (Suc (bit_cnt (free_map st) + 1)) 1 st"
    by (simp only: free_map_allocate_def add_2_eq_Suc' add.right_neutral One_nat_def add_Suc_right)
  show ?thesis using spec assms(2,3) unfolding one by blast
qed

theorem free_map_allocate_recorded_witness:
  "\<exists>a st'. free_map_allocate 1 (ex_fs 15) = Some (Some a, st') \<and> 4 \<le> a \<and> a < 16"
  using free_map_allocate_recorded [OF ex_15(1) ex_fm_inode, of 5] ex_free_15 by (auto simp: ex_fs_def)

subsection \<open>The disk is full\<close>

lemma allocate_one_full:
  assumes "bm_wf (free_map st)" "free_sectors st = {}"
  shows "allocate_one st = Some (None, st)"
proof -
  have "\<not> (\<exists>k\<ge>0. group_at (bits_of (free_map st)) k 1 False)"
    using assms(2) by (auto simp: group_at_def free_sectors_def le_less_Suc_eq)
  from bitmap_scan_and_flip_none [OF assms(1) _ this] show ?thesis
    by (simp add: allocate_one_def free_map_allocate_def)
qed

text \<open>C25: when no sector is left for the indirect block of a file, \<open>reserve_indir\<close> does not look at the failure of
  \<open>free_map_allocate\<close>: it writes zeros to sector 0, where the inode of the free map's file lies, before it fails.\<close>

theorem full_disk_overwrites_sector_zero:
  assumes "fm_ok st" "free_sectors st = {}" "0 < m" "m \<le> INDIRECT"
  shows "\<exists>st'. reserve_indir allocate_one 1 0 m st = Some (False, 0, st') \<and> disk st' FREE_MAP_SECTOR = zeros
    \<and> ilen (decode_inode (disk st' FREE_MAP_SECTOR)) = 0"
proof -
  have b: "bc_ok (bc st)" "0 < sectors st" "bm_wf (free_map st)" using assms(1) by (auto simp: fm_ok_def)
  have full: "allocate_one st = Some (None, st)" by (rule allocate_one_full [OF b(3) assms(2)])
  from bc_write_step [OF b(1,2), of zeros] obtain s1 where
    s1: "bc_write 0 zeros st = Some s1" "disk_step st ((disk st)(0 := zeros)) s1" by auto
  note f1 = disk_stepD [OF s1(2)]
  from bc_read_step [OF f1(1), of 0] f1(2,3) b(2) obtain s2 where
    s2: "bc_read 0 s1 = Some (zeros, s2)" "quiet s1 s2" by auto
  note f2 = disk_stepD [OF s2(2)]
  have "allocate_one s2 = Some (None, s2)"
    using b(3) assms(2) f1(8) f2(8) by (intro allocate_one_full) (simp_all add: free_sectors_def)
  then have loop: "reserve_loop (reserve_indir allocate_one 0) 1 0 (Suc k) m (replicate INDIRECT 0) s2 = Some (False, m, replicate INDIRECT 0, s2)" for k
    using assms(3) list_update_id [of "replicate INDIRECT 0" 0] by (simp add: INDIRECT_def del: list_update_id)
  have "m < 2 ^ 32" using assms(4) by (simp add: INDIRECT_def)
  then have "DIV_ROUND_UP m 1 = Suc (m - 1)" using assms(3) by (simp add: DIV_ROUND_UP_def)
  moreover have "root_step allocate_one 0 st = Some (0, s1)" using full s1(1) by (simp add: root_step_def)
  moreover have "cap 0 = 1" by (simp add: cap_def)
  ultimately have "reserve_indir allocate_one (Suc 0) 0 m st = Some (False, 0, s2)"
    using s2(1) loop [of "m - 1"]
    by (subst reserve_indir_Suc) (simp_all add: words_of_zeros del: reserve_loop.simps reserve_indir.simps)
  then have "reserve_indir allocate_one 1 0 m st = Some (False, 0, s2)" by (simp only: One_nat_def)
  moreover have "disk s2 FREE_MAP_SECTOR = zeros" using f1(2) f2(2) by (simp add: FREE_MAP_SECTOR_def)
  moreover have "ilen (decode_inode zeros) = 0"
    by (simp add: decode_inode_def zeros_def BLOCK_SECTOR_SIZE_def) (simp add: u32_of_bytes_def eval_nat_numeral)
  ultimately show ?thesis by auto
qed

lemma ex_full: "free_sectors (ex_fs (-1)) = {}" "fm_ok (ex_fs (-1))"
  by (auto simp: ex_free intro!: ex_fm_ok)

theorem full_disk_overwrites_sector_zero_witness:
  "decode_inode (disk (ex_fs (-1)) FREE_MAP_SECTOR) = ex_map_inode
     \<and> (\<exists>st'. reserve_indir allocate_one 1 0 1 (ex_fs (-1)) = Some (False, 0, st') \<and> disk st' FREE_MAP_SECTOR = zeros)"
proof
  have "inode_disk_wf ex_map_inode" by (auto simp: inode_disk_wf_def ex_map_inode_def zero_inode_def DIRECT_def INODE_MAGIC_def)
  then show "decode_inode (disk (ex_fs (-1)) FREE_MAP_SECTOR) = ex_map_inode"
    using ex_bc(2) decode_encode_inode by (simp add: FREE_MAP_SECTOR_def block_view_def) (simp add: ex_fs_def buffer_cache_init_def)
  show "\<exists>st'. reserve_indir allocate_one 1 0 1 (ex_fs (-1)) = Some (False, 0, st') \<and> disk st' FREE_MAP_SECTOR = zeros"
    using full_disk_overwrites_sector_zero [OF ex_full(2,1), of 1] by (auto simp: INDIRECT_def)
qed

context sector_allocator
begin

text \<open>Filling a row of blocks that asks for more than there is takes all there is.\<close>

lemma reserve_direct_full:
  "ok st \<Longrightarrow> card (free st) < n \<Longrightarrow> i + n \<le> length blocks \<Longrightarrow> \<forall>j<n. blocks ! (i + j) = 0 \<Longrightarrow>
     \<exists>bs st'. reserve_direct alloc i n blocks st = Some (False, bs, st') \<and> ok st' \<and> free st' = {} \<and> sys st' = sys st"
proof (induction n arbitrary: i blocks st)
  case (Suc n)
  from Suc.prems(4) have z: "blocks ! i = 0" "\<forall>j<n. blocks ! (i + 1 + j) = 0" by (auto dest: spec [of _ "Suc _"] spec [of _ 0])
  show ?case
  proof (cases "free st = {}")
    case True
    from alloc_full [OF Suc.prems(1) this] z(1) show ?thesis by auto
  next
    case False
    from alloc_zeroed [OF Suc.prems(1) this] obtain a st1 st2 where
      a: "alloc st = Some (Some a, st1)" "bc_write a zeros st1 = Some st2" "ok st2" "grows free sys {} st st2"
        "card (free st) = card (free st2) + 1" by blast
    have "\<exists>bs st'. reserve_direct alloc (i + 1) n (blocks[i := a]) st2 = Some (False, bs, st') \<and> ok st' \<and> free st' = {} \<and> sys st' = sys st2"
      using Suc.prems(2,3) a(5) z(2) by (intro Suc.IH [OF a(3)]) auto
    then show ?thesis using a(1,2,4) z(1) by (auto simp: grows_def)
  qed
qed simp

end



end
