(* ===== verification/DirEntries.thy ===== *)
theory DirEntries imports FsTheorems Directory begin

section \<open>Directories as lists of entries\<close>

text \<open>
  The content of a directory's file is a list of entries of 20 bytes, the first the parent's.  Searching is
  refined to finding the first entry of a name behind the parent's, and adding to replacing a free entry or
  appending one.
\<close>

definition entries_of :: "byte list \<Rightarrow> dir_entry list" where
  "entries_of c = map (\<lambda>k. decode_entry (take 20 (drop (20 * k) c))) [0..<length c div 20]"

lemma length_entries_of [simp]: "length (entries_of c) = length c div 20"
  by (simp add: entries_of_def)

lemma entries_of_nth: "k < length c div 20 \<Longrightarrow> entries_of c ! k = decode_entry (take 20 (drop (20 * k) c))"
  by (simp add: entries_of_def)

definition entry_name :: "dir_entry \<Rightarrow> byte list" where
  "entry_name e = takeWhile (\<lambda>c. c \<noteq> 0) (ename e)"

definition matches :: "byte list \<Rightarrow> dir_entry \<Rightarrow> bool" where
  "matches name e = (in_use e \<noteq> 0 \<and> entry_name e = name)"

subsection \<open>The layout of an entry\<close>

lemma length_encode_entry: "length (ename e) = 15 \<Longrightarrow> length (encode_entry e) = 20"
  by (simp add: encode_entry_def)

lemma decode_encode_entry: "length (ename e) = 15 \<Longrightarrow> inode_sector e < 2 ^ 32 \<Longrightarrow> decode_entry (encode_entry e) = e"
  by (simp add: decode_entry_def encode_entry_def nth_append unsigned_of_nat take_bit_nat_eq_self)

lemma length_ename_decode: "19 \<le> length bs \<Longrightarrow> length (ename (decode_entry bs)) = 15"
  by (simp add: decode_entry_def)

lemma overlay_full: "length bs = 20 \<Longrightarrow> length (ename e) = 15 \<Longrightarrow> overlay bs e = decode_entry bs"
  by (simp add: overlay_def length_encode_entry)

lemma length_ename_overlay: "length (ename e) = 15 \<Longrightarrow> length bs \<le> 20 \<Longrightarrow> length (ename (overlay bs e)) = 15"
  by (simp add: overlay_def length_ename_decode length_encode_entry)

lemma length_ename_entries: "e \<in> set (entries_of c) \<Longrightarrow> length (ename e) = 15"
proof -
  assume "e \<in> set (entries_of c)"
  then obtain k where k: "k < length c div 20" "e = decode_entry (take 20 (drop (20 * k) c))" by (auto simp: entries_of_def)
  then have "20 * k + 20 \<le> length c" by linarith
  then show ?thesis unfolding k(2) by (intro length_ename_decode) simp
qed

lemma entries_of_write:
  assumes "length bs = 20" "j \<le> length c div 20"
  shows "entries_of (new_content (20 * j) bs c)
    = (if j < length c div 20 then (entries_of c)[j := decode_entry bs] else entries_of c @ [decode_entry bs])"
proof -
  define n where "n = length c div 20"
  define c' where "c' = c @ replicate (20 * j + 20 - length c) 0"
  have jl: "20 * j + 20 \<le> length c" if "j < n" using that unfolding n_def by linarith
  have lc: "length c' = max (length c) (20 * j + 20)" by (auto simp: c'_def)
  have l': "length (new_content (20 * j) bs c) = length c'" using assms(1) lc by (simp add: new_content_def c'_def)
  have n': "length c' div 20 = (if j < n then n else Suc n)"
  proof (cases "j < n")
    case True
    then show ?thesis using jl lc by (simp add: n_def max_def)
  next
    case False
    then have jn: "j = n" using assms(2) by (simp add: n_def)
    then have "length c < 20 * j + 20" unfolding n_def by linarith
    then show ?thesis using lc jn by (simp add: max_def)
  qed
  have chunk: "take 20 (drop (20 * k) (new_content (20 * j) bs c)) = (if k = j then bs else take 20 (drop (20 * k) c'))"
    if "k < length c' div 20" for k
  proof -
    have fit: "20 * k + 20 \<le> length c'" "20 * j + 20 \<le> length c'" using that lc by linarith+
    have nc: "new_content (20 * j) bs c = patch (20 * j) bs c'" using assms(1) by (simp add: new_content_def c'_def)
    consider "k = j" | "20 * k + 20 \<le> 20 * j" | "20 * j + 20 \<le> 20 * k" by linarith
    then show ?thesis
    proof cases
      case 1
      then show ?thesis using take_drop_patch [of "20 * j" bs c'] fit assms(1) by (simp add: nc)
    next
      case 2
      then have "k \<noteq> j" by simp
      have "take 20 (drop (20 * k) (patch (20 * j) bs c')) = take 20 (drop (20 * k) c')"
        using 2 fit by (intro nth_equalityI) (auto simp: patch_def nth_append)
      then show ?thesis using \<open>k \<noteq> j\<close> by (simp add: nc)
    next
      case 3
      then have "k \<noteq> j" by simp
      have "take 20 (drop (20 * k) (patch (20 * j) bs c')) = take 20 (drop (20 * k) c')"
        using 3 fit assms(1) by (intro nth_equalityI) (auto simp: patch_nth)
      then show ?thesis using \<open>k \<noteq> j\<close> by (simp add: nc)
    qed
  qed
  have old: "decode_entry (take 20 (drop (20 * k) c')) = entries_of c ! k" if "k < n" for k
  proof -
    have "20 * k + 20 \<le> length c" using that unfolding n_def by linarith
    then have "take 20 (drop (20 * k) c') = take 20 (drop (20 * k) c)" by (simp add: c'_def)
    then show ?thesis using that by (simp add: entries_of_nth n_def)
  qed
  have nth: "entries_of (new_content (20 * j) bs c) ! k = (if k = j then decode_entry bs else decode_entry (take 20 (drop (20 * k) c')))"
    if "k < length c' div 20" for k using that chunk [OF that] l' by (simp add: entries_of_nth)
  show ?thesis
  proof (rule nth_equalityI)
    show "length (entries_of (new_content (20 * j) bs c))
        = length (if j < length c div 20 then (entries_of c)[j := decode_entry bs] else entries_of c @ [decode_entry bs])"
      using n' l' by (simp add: n_def)
    fix k assume "k < length (entries_of (new_content (20 * j) bs c))"
    then have k: "k < length c' div 20" by (simp add: l')
    show "entries_of (new_content (20 * j) bs c) ! k
        = (if j < length c div 20 then (entries_of c)[j := decode_entry bs] else entries_of c @ [decode_entry bs]) ! k"
    proof (cases "j < n")
      case True
      then show ?thesis using k nth [OF k] old [of k] n' by (auto simp: n_def nth_list_update)
    next
      case False
      then have "j = n" using assms(2) by (simp add: n_def)
      then show ?thesis using k nth [OF k] old [of k] n' by (auto simp: n_def nth_append)
    qed
  qed
qed

subsection \<open>Reading entries\<close>

lemma read_entry_spec:
  assumes "opened st p i" "length (ename e) = 15"
  defines "es \<equiv> entries_of (content (disk st) (idata i))"
  shows "\<exists>e' st'. read_entry p (int (20 * k)) e st = Some (k < length es, e', st') \<and> quiet st st' \<and> length (ename e') = 15
    \<and> (k < length es \<longrightarrow> e' = es ! k)"
proof -
  let ?c = "content (disk st) (idata i)"
  let ?bs = "take 20 (drop (20 * k) ?c)"
  from inode_read_at_spec [OF assms(1), of "int (20 * k)" "int ENTRY_SIZE"] obtain st' where
    r: "inode_read_at p (int ENTRY_SIZE) (int (20 * k)) st = Some (?bs, st')" "quiet st st'" by (auto simp: ENTRY_SIZE_def nat_mult_distrib)
  have full: "length ?bs = ENTRY_SIZE \<longleftrightarrow> k < length es"
  proof
    assume "length ?bs = ENTRY_SIZE"
    then have "20 * k + 20 \<le> length ?c" by (simp add: ENTRY_SIZE_def)
    then show "k < length es" unfolding es_def length_entries_of by linarith
  next
    assume "k < length es"
    then have "20 * k + 20 \<le> length ?c" unfolding es_def length_entries_of by linarith
    then show "length ?bs = ENTRY_SIZE" by (simp add: ENTRY_SIZE_def)
  qed
  have "overlay ?bs e = es ! k" if "k < length es"
    using that full overlay_full [of ?bs e] assms(2) entries_of_nth [of k ?c] by (simp add: ENTRY_SIZE_def es_def)
  moreover have "length (ename (overlay ?bs e)) = 15" using assms(2) by (intro length_ename_overlay) auto
  ultimately show ?thesis using r full by (auto simp: read_entry_def)
qed

lemma takeWhile_str: "0 \<in> set xs \<Longrightarrow> \<exists>ys. xs = takeWhile (\<lambda>c. c \<noteq> 0) xs @ 0 # ys"
  by (induction xs) auto

lemma same_name_spec:
  assumes "0 \<notin> set name" "0 \<in> set (ename e)" "length (ename e) = 15"
  shows "same_name name e = Some (entry_name e = name)"
proof -
  let ?m = "put 65536 (name @ [0]) (put 4096 (ename e @ [in_use e]) (\<lambda>_. None))"
  have a: "str_at ?m 65536 name" using assms(1) bytes_at_put by (simp add: str_at_def)
  from takeWhile_str [OF assms(2)] obtain ys where ys: "ename e = entry_name e @ 0 # ys" unfolding entry_name_def by blast
  have "bytes_at ?m 4096 (ename e @ [in_use e])"
    using bytes_at_put_other [of 4096 "ename e @ [in_use e]" 65536 "name @ [0]" "put 4096 (ename e @ [in_use e]) (\<lambda>_. None)"]
      bytes_at_put assms(3) by (subst bytes_at_put_other) auto
  then have "bytes_at ?m 4096 ((entry_name e @ [0]) @ ys @ [in_use e])" using ys by (metis append.assoc append_Cons append_Nil)
  then have "str_at ?m 4096 (entry_name e)"
    unfolding bytes_at_append str_at_def entry_name_def by (auto dest: set_takeWhileD)
  from strcmp_loop_str [OF a this] have "strcmp 65536 4096 ?m
      = Some (if name = entry_name e then 0 else if (name, entry_name e) \<in> lexord {(x, y). x < y} then - 1 else 1)"
    by (simp add: strcmp_def NULL_def)
  then show ?thesis by (auto simp: same_name_def)
qed

subsection \<open>Searching\<close>

definition found :: "byte list \<Rightarrow> dir_entry list \<Rightarrow> nat \<Rightarrow> (dir_entry \<times> int) option" where
  "found name es k = map_option (\<lambda>j. (es ! j, int (20 * j))) (find (\<lambda>j. matches name (es ! j)) [k..<length es])"

text \<open>The names of entries in use are terminated.\<close>

definition named :: "dir_entry list \<Rightarrow> bool" where
  "named es = (\<forall>e\<in>set es. in_use e \<noteq> 0 \<longrightarrow> 0 \<in> set (ename e))"

lemma found_step: "k < length es \<Longrightarrow> found name es k = (if matches name (es ! k) then Some (es ! k, int (20 * k)) else found name es (Suc k))"
  by (simp add: found_def upt_rec)

lemma lookup_entries_spec:
  assumes "opened st p i" "es = entries_of (content (disk st) (idata i))" "0 \<notin> set name" "named (drop k es)" "length (ename e) = 15"
  shows "\<exists>st'. lookup_entries p name (int (20 * k)) e st = Some (found name es k, st') \<and> quiet st st'"
  using assms
proof (induction "length es - k" arbitrary: k e st)
  case 0
  from read_entry_spec [OF "0.prems"(1,5), of k] obtain e' st' where
    "read_entry p (int (20 * k)) e st = Some (False, e', st')" "quiet st st'" using 0 by auto
  moreover have "found name es k = None" using 0 by (simp add: found_def)
  ultimately show ?case by (subst lookup_entries.simps) simp
next
  case (Suc n)
  then have k: "k < length es" by simp
  from read_entry_spec [OF Suc.prems(1,5), of k] k Suc.prems(2) obtain st1 where
    r: "read_entry p (int (20 * k)) e st = Some (True, es ! k, st1)" "quiet st st1" and ln: "length (ename (es ! k)) = 15" by auto
  note f = disk_stepD [OF r(2)]
  have dr: "drop k es = es ! k # drop (Suc k) es" using k by (simp add: Cons_nth_drop_Suc)
  have same: "(if in_use (es ! k) \<noteq> 0 then same_name name (es ! k) else Some False) = Some (matches name (es ! k))"
    using Suc.prems(3,4) ln same_name_spec [of name "es ! k"] by (auto simp: matches_def named_def dr)
  have ofs: "int (20 * k) + int ENTRY_SIZE = int (20 * Suc k)" by (simp add: ENTRY_SIZE_def)
  have "named (drop (Suc k) es)" using Suc.prems(4) by (simp add: named_def dr)
  then have "\<exists>st'. lookup_entries p name (int (20 * Suc k)) (es ! k) st1 = Some (found name es (Suc k), st') \<and> quiet st1 st'"
    using Suc opened_quiet [OF Suc.prems(1) r(2)] f(2) ln by (intro Suc.hyps) auto
  then obtain st2 where s2: "lookup_entries p name (int (20 * Suc k)) (es ! k) st1 = Some (found name es (Suc k), st2)" "quiet st1 st2" by blast
  have "quiet st st2" using disk_step_trans [OF r(2) s2(2)] f(2) by simp
  moreover have "lookup_entries p name (int (20 * k)) e st = (if matches name (es ! k) then Some (Some (es ! k, int (20 * k)), st1)
      else lookup_entries p name (int (20 * k) + int ENTRY_SIZE) (es ! k) st1)"
    using r(1) by (subst lookup_entries.simps) (simp add: same)
  ultimately show ?case using s2(1) k r(2) unfolding ofs by (auto simp: found_step)
qed

lemma lookup_spec:
  assumes "opened st p i" "es = entries_of (content (disk st) (idata i))" "0 \<notin> set name" "named (tl es)" "length (ename (junk_entry fr)) = 15"
    "dir_of st d = Some x" "dir_inode x = p"
  shows "\<exists>st'. lookup (Some d) name fr st = Some (found name es 1, st') \<and> quiet st st'"
  using lookup_entries_spec [OF assms(1-3) _ assms(5), of 1] assms(4,6,7)
  by (simp add: lookup_def dir_get_inode_def ENTRY_SIZE_def drop_Suc)

text \<open>The slot for a new entry.\<close>

definition slot :: "dir_entry list \<Rightarrow> nat \<Rightarrow> nat" where
  "slot es k = (case find (\<lambda>j. in_use (es ! j) = 0) [k..<length es] of None \<Rightarrow> length es | Some j \<Rightarrow> j)"

lemma slot_loop_spec:
  assumes "opened st p i" "es = entries_of (content (disk st) (idata i))" "k \<le> length es" "length (ename e) = 15"
  shows "\<exists>e' st'. slot_loop p (int (20 * k)) e st = Some (int (20 * slot es k), e', st') \<and> quiet st st' \<and> length (ename e') = 15"
  using assms
proof (induction "length es - k" arbitrary: k e st)
  case 0
  from read_entry_spec [OF "0.prems"(1,4), of k] obtain e' st' where
    "read_entry p (int (20 * k)) e st = Some (False, e', st')" "quiet st st'" "length (ename e') = 15" using 0 by auto
  moreover have "slot es k = k" using 0 by (simp add: slot_def)
  ultimately show ?case by (subst slot_loop.simps) simp
next
  case (Suc n)
  then have k: "k < length es" by simp
  from read_entry_spec [OF Suc.prems(1,4), of k] k Suc.prems(2) obtain st1 where
    r: "read_entry p (int (20 * k)) e st = Some (True, es ! k, st1)" "quiet st st1" and ln: "length (ename (es ! k)) = 15" by auto
  note f = disk_stepD [OF r(2)]
  have step: "slot es k = (if in_use (es ! k) = 0 then k else slot es (Suc k))" using k by (simp add: slot_def upt_rec)
  show ?case
  proof (cases "in_use (es ! k) = 0")
    case True
    then show ?thesis using r ln by (subst slot_loop.simps) (simp add: step)
  next
    case False
    have ofs: "int (20 * k) + int ENTRY_SIZE = int (20 * Suc k)" by (simp add: ENTRY_SIZE_def)
    have "\<exists>e' st'. slot_loop p (int (20 * Suc k)) (es ! k) st1 = Some (int (20 * slot es (Suc k)), e', st') \<and> quiet st1 st' \<and> length (ename e') = 15"
      using Suc opened_quiet [OF Suc.prems(1) r(2)] f(2) ln k by (intro Suc.hyps) auto
    then obtain e' st2 where s2: "slot_loop p (int (20 * Suc k)) (es ! k) st1 = Some (int (20 * slot es (Suc k)), e', st2)" "quiet st1 st2"
      "length (ename e') = 15" by blast
    have "quiet st st2" using disk_step_trans [OF r(2) s2(2)] f(2) by simp
    moreover have "slot_loop p (int (20 * k)) e st = slot_loop p (int (20 * k) + int ENTRY_SIZE) (es ! k) st1"
      using r(1) False by (subst slot_loop.simps) simp
    ultimately show ?thesis using s2(1,3) False unfolding ofs by (auto simp: step)
  qed
qed

subsection \<open>Adding\<close>

lemma slot_facts:
  "slot es 0 \<le> length es" "slot es 0 < length es \<Longrightarrow> in_use (es ! slot es 0) = 0"
  "slot es 0 = 0 \<longleftrightarrow> es = [] \<or> in_use (hd es) = 0"
proof -
  have n: "(\<forall>k<length es. in_use (es ! k) \<noteq> 0) \<and> slot es 0 = length es \<or> (slot es 0 < length es \<and> in_use (es ! slot es 0) = 0
      \<and> (\<forall>k<(slot es 0). in_use (es ! k) \<noteq> 0))"
    by (auto simp: slot_def find_None_iff find_Some_iff split: option.splits)
  then show "slot es 0 \<le> length es" "slot es 0 < length es \<Longrightarrow> in_use (es ! slot es 0) = 0" by auto
  show "slot es 0 = 0 \<longleftrightarrow> es = [] \<or> in_use (hd es) = 0" using n by (cases es) (auto simp: hd_conv_nth)
qed

definition new_entry :: "byte list \<Rightarrow> nat \<Rightarrow> dir_entry \<Rightarrow> dir_entry" where
  "new_entry name sector e = (set_name name (e\<lparr>in_use := 1\<rparr>))\<lparr>inode_sector := sector\<rparr>"

lemma new_entry_facts:
  assumes "length name \<le> NAME_MAX" "0 \<notin> set name" "length (ename e) = 15"
  shows "length (ename (new_entry name sector e)) = 15" "inode_sector (new_entry name sector e) = sector"
    "0 \<in> set (ename (new_entry name sector e))" "matches name' (new_entry name sector e) \<longleftrightarrow> name' = name"
proof -
  have n: "ename (new_entry name sector e) = name @ 0 # drop (length name + 1) (ename e)"
    using assms(1) by (simp add: new_entry_def set_name_def min_def)
  then show "length (ename (new_entry name sector e)) = 15" "0 \<in> set (ename (new_entry name sector e))"
    using assms by (auto simp: NAME_MAX_def)
  show "inode_sector (new_entry name sector e) = sector" by (simp add: new_entry_def)
  have "\<forall>c\<in>set name. c \<noteq> 0" using assms(2) by metis
  then have "entry_name (new_entry name sector e) = name"
    by (simp add: entry_name_def n takeWhile_append2)
  moreover have "in_use (new_entry name sector e) = 1" by (simp add: new_entry_def set_name_def)
  ultimately show "matches name' (new_entry name sector e) \<longleftrightarrow> name' = name" by (auto simp: matches_def)
qed

definition add_entry :: "dir_entry \<Rightarrow> dir_entry list \<Rightarrow> dir_entry list" where
  "add_entry e es = (if slot es 0 < length es then es[slot es 0 := e] else es @ [e])"

lemma named_add: "named (tl es) \<Longrightarrow> 0 \<in> set (ename e) \<Longrightarrow> named (tl (add_entry e es))"
  by (cases es) (auto simp: named_def add_entry_def nat.splits split: nat.splits dest!: set_update_subset_insert [THEN subsetD])

lemma find_append: "find P (xs @ ys) = (case find P xs of None \<Rightarrow> find P ys | Some x \<Rightarrow> Some x)"
  by (induction xs) auto

lemma find_in_add:
  assumes "\<And>k. 1 \<le> k \<Longrightarrow> k < length es \<Longrightarrow> k \<noteq> slot es 0 \<Longrightarrow> P (es ! k) = Q (es ! k)"
  shows "find (\<lambda>k. P (add_entry e es ! k)) [1..<length (add_entry e es)]
    = find (\<lambda>k. if k = slot es 0 then P e else Q (es ! k)) [1..<length (add_entry e es)]"
proof (rule find_cong [OF refl])
  fix k assume "k \<in> set [1..<length (add_entry e es)]"
  then have k: "1 \<le> k" "k < length (add_entry e es)" by auto
  show "P (add_entry e es ! k) = (if k = slot es 0 then P e else Q (es ! k))"
  proof (cases "slot es 0 < length es")
    case True
    then show ?thesis using k assms [of k] by (simp add: add_entry_def nth_list_update)
  next
    case False
    then have "slot es 0 = length es" using slot_facts(1) [of es] by simp
    then show ?thesis using k assms [of k] by (auto simp: add_entry_def nth_append)
  qed
qed

lemma found_add:
  assumes e: "matches name e" "\<And>n. matches n e \<Longrightarrow> n = name" and new: "\<forall>f\<in>set (tl es). \<not> matches name f"
  shows "map_option (inode_sector \<circ> fst) (found n (add_entry e es) 1)
    = (if n \<noteq> name then map_option (inode_sector \<circ> fst) (found n es 1)
       else if es = [] \<or> in_use (hd es) = 0 then None else Some (inode_sector e))"
proof -
  let ?j = "slot es 0" and ?es = "add_entry e es"
  have old: "\<not> matches name (es ! k)" if "1 \<le> k" "k < length es" for k
    using new that nth_mem [of "k - 1" "tl es"] by (simp add: nth_tl)
  have len: "length ?es = max (length es) (?j + 1)" using slot_facts(1) [of es] by (auto simp: add_entry_def)
  have at: "?es ! ?j = e" using slot_facts(1) [of es] by (auto simp: add_entry_def nth_append)
  have other: "?es ! k = es ! k" if "k \<noteq> ?j" "k < length es" for k
    using that by (auto simp: add_entry_def nth_append)
  show ?thesis
  proof (cases "n = name")
    case True
    have f: "find (\<lambda>k. matches n (?es ! k)) [1..<length ?es] = find (\<lambda>k. if k = ?j then True else False) [1..<length ?es]"
      using find_in_add [of es "matches name" "\<lambda>_. False" e] old e(1) True by simp
    show ?thesis
    proof (cases "?j = 0")
      case True
      then have "find (\<lambda>k. if k = ?j then True else False) [1..<length ?es] = None" by (simp add: find_None_iff)
      then show ?thesis using True \<open>n = name\<close> slot_facts(3) [of es] f by (simp add: found_def)
    next
      case False
      have "find (\<lambda>k. k = ?j) [1..<length ?es] = Some ?j"
        using False len by (subst find_Some_iff) (auto intro!: exI [of _ "?j - 1"])
      then show ?thesis using False \<open>n = name\<close> slot_facts(3) [of es] f at by (simp add: found_def)
    qed
  next
    case False
    have no: "\<not> matches n e" using e(2) False by blast
    have nj: "\<not> matches n (es ! ?j)" if "?j < length es" using slot_facts(2) [OF that] by (simp add: matches_def)
    have "find (\<lambda>k. matches n (?es ! k)) [1..<length ?es] = find (\<lambda>k. if k = ?j then matches n e else matches n (es ! k)) [1..<length ?es]"
      by (rule find_in_add) simp
    also have "\<dots> = find (\<lambda>k. k < length es \<and> matches n (es ! k)) [1..<length ?es]"
      using no nj slot_facts(1) [of es] len by (intro find_cong) (auto simp: max_def split: if_splits)
    also have "\<dots> = find (\<lambda>k. matches n (es ! k)) [1..<length es]"
    proof (cases "length ?es = length es")
      case True
      then show ?thesis by (intro find_cong) auto
    next
      case F: False
      then have l: "length ?es = Suc (length es)" using len slot_facts(1) [of es] by (auto simp: max_def split: if_splits)
      show ?thesis
      proof (cases "es = []")
        case False
        then have "[1..<length ?es] = [1..<length es] @ [length es]" by (simp add: l Suc_le_eq)
        then have "find (\<lambda>k. k < length es \<and> matches n (es ! k)) [1..<length ?es] = find (\<lambda>k. k < length es \<and> matches n (es ! k)) [1..<length es]"
          by (simp add: find_append split: option.splits)
        also have "\<dots> = find (\<lambda>k. matches n (es ! k)) [1..<length es]" by (intro find_cong) auto
        finally show ?thesis .
      qed (simp add: find_None_iff)
    qed
    finally have f: "find (\<lambda>k. matches n (?es ! k)) [1..<length ?es] = find (\<lambda>k. matches n (es ! k)) [1..<length es]" .
    have same: "?es ! k = es ! k" if "find (\<lambda>k. matches n (es ! k)) [1..<length es] = Some k" for k
    proof -
      from that have k: "k < length es" "matches n (es ! k)" by (auto simp: find_Some_iff)
      then have "k \<noteq> ?j" using nj by auto
      then show ?thesis using other k by simp
    qed
    show ?thesis using False f same
      by (cases "find (\<lambda>k. matches n (es ! k)) [1..<length es]") (simp_all add: found_def)
  qed
qed

lemma quiet_file:
  assumes "fm_ok st" "quiet st st'"
  shows "fm_ok st'" "free_sectors st' = free_sectors st" "fm_sectors st' = fm_sectors st" "file_wf st' d = file_wf st d"
    "alloced free_sectors fm_sectors st' = alloced free_sectors fm_sectors st" "index_used (disk st') d n = index_used (disk st) d n"
proof -
  note f = disk_stepD [OF assms(2)]
  show o: "fm_ok st'" "free_sectors st' = free_sectors st" "fm_sectors st' = fm_sectors st"
    using fm_write_ok [OF assms] by auto
  show "alloced free_sectors fm_sectors st' = alloced free_sectors fm_sectors st" using o f(3) by (simp add: alloced_def)
  then show "file_wf st' d = file_wf st d" "index_used (disk st') d n = index_used (disk st) d n"
    using f(2) by (simp_all add: file_wf_def)
qed

lemma dir_add_spec:
  assumes ok: "fm_ok st" and d: "dir_of st d = Some x" "dir_inode x = p" "inode_of st p = Some i" "file_wf st (idata i)" "deny_write_cnt i = 0"
    "isector i \<in> alloced free_sectors fm_sectors st" "isector i \<notin> index_used (disk st) (idata i) (sector_cnt (idata i))"
    and es: "es = entries_of (content (disk st) (idata i))" "named (tl es)"
    and name: "name \<noteq> []" "length name \<le> NAME_MAX" "0 \<notin> set name" "\<forall>f\<in>set (tl es). \<not> matches name f"
    and fr: "length (ename (junk_entry fr)) = 15" and sector: "sector < 2 ^ 32"
    and room: "20 * (length es + 1) \<le> 512 * MAX_SECTORS" "index_cost ((20 * (length es + 1) + 511) div 512) \<le> card (free_sectors st)"
  shows "\<exists>st' d' e. dir_add (Some d) name sector False fr st = Some (True, st') \<and> fm_ok st' \<and> dir_of st' = dir_of st
    \<and> inode_of st' p = Some (i\<lparr>idata := d'\<rparr>) \<and> file_wf st' d' \<and> entries_of (content (disk st') d') = add_entry (new_entry name sector e) es
    \<and> length (ename e) = 15"
proof -
  have op: "opened st p i" by (rule file_wf_opened [OF ok d(3,4)])
  have none: "found name es 1 = None"
  proof -
    have "\<not> matches name (es ! k)" if "1 \<le> k" "k < length es" for k
      using name(4) that nth_mem [of "k - 1" "tl es"] by (simp add: nth_tl)
    then show ?thesis by (simp add: found_def find_None_iff)
  qed
  from lookup_spec [OF op es(1) name(3) es(2) fr d(1,2)] none obtain s1 where
    s1: "lookup (Some d) name fr st = Some (None, s1)" "quiet st s1" by auto
  note f1 = disk_stepD [OF s1(2)]
  have "es = entries_of (content (disk s1) (idata i))" using es(1) f1(2) by simp
  from slot_loop_spec [OF opened_quiet [OF op s1(2)] this _ fr, of 0] obtain e s2 where
    s2: "slot_loop p 0 (junk_entry fr) s1 = Some (int (20 * slot es 0), e, s2)" "quiet s1 s2" "length (ename e) = 15" by auto
  have q: "quiet st s2" using disk_step_trans [OF s1(2) s2(2)] f1(2) by simp
  note f2 = disk_stepD [OF q] and qf = quiet_file [OF ok q]
  let ?e = "new_entry name sector e" and ?c = "content (disk st) (idata i)" and ?o = "20 * slot es 0"
  note ne = new_entry_facts [where sector = sector, OF name(2,3) s2(3)]
  have le: "length (encode_entry ?e) = 20" by (rule length_encode_entry [OF ne(1)])
  have dec: "decode_entry (encode_entry ?e) = ?e" using ne(1,2) sector by (intro decode_encode_entry) simp_all
  have jl: "slot es 0 \<le> length es" by (rule slot_facts)
  have n: "length es = nat (ilen (idata i)) div 20" by (simp add: es(1))
  have grow: "slot es 0 = length es" if "nat (ilen (idata i)) < ?o + 20"
  proof (rule ccontr)
    assume "slot es 0 \<noteq> length es"
    then have "slot es 0 < nat (ilen (idata i)) div 20" using jl n by simp
    with that show False by linarith
  qed
  have "\<exists>st' d'. inode_write_at allocate_one p (encode_entry ?e) (int ?o) s2 = Some (int (length (encode_entry ?e)), st')
      \<and> written s2 p i ?o (encode_entry ?e) st' d'"
  proof (rule inode_write_refines)
    show "?o + length (encode_entry ?e) \<le> 512 * MAX_SECTORS" using room(1) jl by (simp add: le)
    show "nat (ilen (idata i)) < ?o + length (encode_entry ?e)
        \<longrightarrow> index_cost ((?o + length (encode_entry ?e) + 511) div 512) \<le> card (free_sectors s2)"
      using grow room(2) le qf(2) by (auto simp: add.commute algebra_simps)
    show "encode_entry ?e \<noteq> []" using le by (metis list.size(3) zero_neq_numeral)
  qed (use d f2 qf in auto)
  then obtain st' d' where w: "inode_write_at allocate_one p (encode_entry ?e) (int ?o) s2 = Some (20, st')"
    "written s2 p i ?o (encode_entry ?e) st' d'" by (auto simp: le)
  note wr = w(2) [unfolded written_def]
  have "dir_add (Some d) name sector False fr st = Some (True, st')"
    using name(1,2) s1(1) s2(1) w(1) d(1,2) es(1)
    by (simp add: dir_add_def dir_get_inode_def write_entry_def new_entry_def [symmetric] ENTRY_SIZE_def)
  moreover have "dir_of st' = dir_of st"
    using wr f2(6) same_heapD(3) [of "s2\<lparr>inode_of := (inode_of s2)(p \<mapsto> i\<lparr>idata := d'\<rparr>)\<rparr>" st'] by simp
  moreover have "entries_of (content (disk st') d') = add_entry ?e es"
  proof -
    have "entries_of (content (disk st') d') = entries_of (new_content ?o (encode_entry ?e) ?c)" using wr f2(2) by simp
    also have "\<dots> = add_entry ?e es"
      using jl n by (subst entries_of_write) (auto simp: le add_entry_def es(1) dec)
    finally show ?thesis .
  qed
  ultimately show ?thesis using wr s2(3) by blast
qed

text \<open>C27: \<open>dir_add\<close> makes exactly one name of a directory mean something else: afterwards \<open>lookup\<close> finds the new
  sector under the new name and under every other name what it found before, and the free map stays in order.  The
  exception is a directory whose first entry, the parent's, is missing or not in use: the new entry takes its place,
  where no search looks, and the name is not found although it was added.\<close>

theorem dir_add_then_lookup:
  assumes "fm_ok st" "dir_of st d = Some x" "dir_inode x = p" "inode_of st p = Some i" "file_wf st (idata i)" "deny_write_cnt i = 0"
    "isector i \<in> alloced free_sectors fm_sectors st" "isector i \<notin> index_used (disk st) (idata i) (sector_cnt (idata i))"
    and es: "es = entries_of (content (disk st) (idata i))" "named (tl es)"
    and name: "name \<noteq> []" "length name \<le> NAME_MAX" "0 \<notin> set name" "\<forall>f\<in>set (tl es). \<not> matches name f"
    and fr: "length (ename (junk_entry fr)) = 15" and sector: "sector < 2 ^ 32"
    and room: "20 * (length es + 1) \<le> 512 * MAX_SECTORS" "index_cost ((20 * (length es + 1) + 511) div 512) \<le> card (free_sectors st)"
  shows "\<exists>st'. dir_add (Some d) name sector False fr st = Some (True, st') \<and> fm_ok st'
    \<and> (\<forall>n. 0 \<notin> set n \<longrightarrow> (\<exists>r s r' s'. lookup (Some d) n fr st = Some (r, s) \<and> lookup (Some d) n fr st' = Some (r', s')
        \<and> map_option (inode_sector \<circ> fst) r' = (if n \<noteq> name then map_option (inode_sector \<circ> fst) r
            else if es = [] \<or> in_use (hd es) = 0 then None else Some sector)))"
proof -
  from dir_add_spec [OF assms] obtain st' d' e where
    a: "dir_add (Some d) name sector False fr st = Some (True, st')" "fm_ok st'" "dir_of st' = dir_of st"
      "inode_of st' p = Some (i\<lparr>idata := d'\<rparr>)" "file_wf st' d'"
      "entries_of (content (disk st') d') = add_entry (new_entry name sector e) es" "length (ename e) = 15" by blast
  let ?e = "new_entry name sector e"
  note ne = new_entry_facts [where sector = sector, OF name(2,3) a(7)]
  have op: "opened st p i" "opened st' p (i\<lparr>idata := d'\<rparr>)" using assms(1,4,5) a(2,4,5) by (auto intro!: file_wf_opened)
  have es': "add_entry ?e es = entries_of (content (disk st') (idata (i\<lparr>idata := d'\<rparr>)))" using a(6) by simp
  have "\<exists>r s r' s'. lookup (Some d) n fr st = Some (r, s) \<and> lookup (Some d) n fr st' = Some (r', s')
      \<and> map_option (inode_sector \<circ> fst) r' = (if n \<noteq> name then map_option (inode_sector \<circ> fst) r
          else if es = [] \<or> in_use (hd es) = 0 then None else Some sector)" if n: "0 \<notin> set n" for n
    using lookup_spec [OF op(1) es(1) n es(2) fr assms(2,3)]
      lookup_spec [OF op(2) es' n named_add [OF es(2) ne(3)] fr _ assms(3), of d] a(3) assms(2)
      found_add [of name ?e es n] ne(2,4) name(4) by fastforce
  then show ?thesis using a(1,2) by blast
qed

text \<open>A directory of one entry, the parent's, in sector 4 of the example's disk.\<close>

lemma file_wf_one:
  assumes "dir_blocks d = b # replicate 122 0" "indir_block d = 0" "d_indir_block d = 0" "0 < ilen d" "ilen d \<le> 512" "inode_magic d < 2 ^ 32"
    "b \<in> alloced free_sectors fm_sectors st" "\<forall>k. nat (ilen d) \<le> k \<longrightarrow> k < 512 \<longrightarrow> disk st b ! k = 0"
  shows "file_wf st d" "index_used (disk st) d (sector_cnt d) = {b}"
proof -
  have c: "sector_cnt d = 1" using assms(4,5) unfolding sector_cnt_def by linarith
  have r: "dir_row d 1 = [(b, 1)]" by (simp add: dir_row_def n_dir_def DIRECT_def assms(1))
  have b0: "b \<noteq> 0" using assms(7) by (auto simp: alloced_def)
  have u: "index_used v d 1 = {b}" for v
    using b0 unfolding index_used_def r by (simp add: part_used_def n_ind_def n_dbl_def DIRECT_def)
  then show "index_used (disk st) d (sector_cnt d) = {b}" by (simp add: c)
  have "index_ok v d 1" "index_full v d 1" "index_tail v d 1" for v
    using b0 assms(1-3) unfolding index_ok_def index_full_def index_tail_def r
    by (auto simp: part_used_def part_ok_def part_full_def part_tail_def n_ind_def n_dbl_def n_dir_def DIRECT_def)
  then show "file_wf st d"
    using assms u unfolding file_wf_def c by (auto simp: slack_def c sector_of_def DIRECT_def MAX_SECTORS_def)
qed

definition ex_parent :: dir_entry where
  "ex_parent = \<lparr>inode_sector = 1, ename = replicate 15 1, in_use = 1\<rparr>"

definition ex_dir_inode :: inode_disk where
  "ex_dir_inode = (zero_inode True)\<lparr>dir_blocks := 4 # replicate 122 0, ilen := 20\<rparr>"

definition ex_dir :: fs where
  "ex_dir = (ex_fs 31)\<lparr>dir_of := [9 \<mapsto> \<lparr>dir_inode = 7, dir_pos = 20\<rparr>],
     inode_of := (inode_of (ex_fs 31))(7 \<mapsto> \<lparr>isector = 3, open_cnt = 1, removed = False, deny_write_cnt = 0, idata = ex_dir_inode\<rparr>)\<rparr>"

definition ex_frame :: frame where
  "ex_frame = \<lparr>junk_entry = ex_parent, junk = (\<lambda>_. 0), room = id\<rparr>"

lemma ex_free_31: "free_sectors (ex_fs 31) = {5..<16}"
proof -
  have b: "bit (31 :: u32) a \<longleftrightarrow> a < 5" for a
  proof -
    have "(31 :: u32) = mask 5" by (simp add: mask_eq_exp_minus_1)
    then show ?thesis by (simp only: bit_mask_iff) (auto simp: possible_bit_word)
  qed
  show ?thesis unfolding ex_free b by auto
qed

lemma ex_dir: "fm_ok ex_dir" "free_sectors ex_dir = {5..<16}" "fm_sectors ex_dir = {2}" "sectors ex_dir = 16"
proof -
  have "fm_ok (ex_fs 31)" using ex_free_31 by (intro ex_fm_ok) (auto simp: ex_free set_eq_iff)
  moreover have i: "fm_inode ex_dir = fm_inode (ex_fs 31)" by (simp add: ex_dir_def fm_inode_def ex_fs_def)
  ultimately have "fm_ok ex_dir \<and> free_sectors ex_dir = free_sectors (ex_fs 31) \<and> fm_sectors ex_dir = fm_sectors (ex_fs 31)"
    unfolding fm_ok_def fm_file_ok_def free_sectors_def fm_sectors_def i by (auto simp: ex_dir_def split: option.splits)
  moreover show "sectors ex_dir = 16" by (simp add: ex_dir_def)
  ultimately show "fm_ok ex_dir" "free_sectors ex_dir = {5..<16}" "fm_sectors ex_dir = {2}"
    using ex_free_31 by (simp_all add: ex_fm_sectors)
qed

lemma length_ex_parent: "length (encode_entry ex_parent) = 20"
  by (rule length_encode_entry) (simp add: ex_parent_def)

lemma ex_dir_content:
  assumes "disk st 4 = encode_entry ex_parent @ replicate 492 0"
  shows "entries_of (content (disk st) ex_dir_inode) = [ex_parent]"
proof -
  have "content (disk st) ex_dir_inode = encode_entry ex_parent"
    by (rule nth_equalityI)
      (simp_all add: content_def ex_dir_inode_def zero_inode_def sector_of_def DIRECT_def assms nth_append length_ex_parent)
  moreover have "decode_entry (encode_entry ex_parent) = ex_parent" by (rule decode_encode_entry) (simp_all add: ex_parent_def)
  ultimately show ?thesis by (simp add: entries_of_def length_ex_parent)
qed

theorem dir_add_then_lookup_witness:
  "\<exists>s st'. bc_write 4 (encode_entry ex_parent @ replicate 492 0) ex_dir = Some s
     \<and> dir_add (Some 9) [97] 5 False ex_frame s = Some (True, st')
     \<and> (\<exists>e ofs s'. lookup (Some 9) [97] ex_frame st' = Some (Some (e, ofs), s') \<and> inode_sector e = 5)"
proof -
  let ?b = "encode_entry ex_parent @ replicate 492 0"
  from bc_write_step [of ex_dir 4 ?b] ex_dir(1,4) obtain s where
    s: "bc_write 4 ?b ex_dir = Some s" "disk_step ex_dir ((disk ex_dir)(4 := ?b)) s"
    by (auto simp: fm_ok_def length_ex_parent BLOCK_SECTOR_SIZE_def)
  note f = disk_stepD [OF s(2)]
  have ok: "fm_ok s" "free_sectors s = {5..<16}" "fm_sectors s = {2}" using fm_write_ok [OF ex_dir(1) s(2)] ex_dir by auto
  have al: "3 \<in> alloced free_sectors fm_sectors s" "4 \<in> alloced free_sectors fm_sectors s" using ok f(3) ex_dir(4) by (auto simp: alloced_def)
  have i: "inode_of s 7 = Some \<lparr>isector = 3, open_cnt = 1, removed = False, deny_write_cnt = 0, idata = ex_dir_inode\<rparr>"
    "dir_of s 9 = Some \<lparr>dir_inode = 7, dir_pos = 20\<rparr>" using f by (simp_all add: ex_dir_def)
  have d4: "disk s 4 = ?b" using f(2) by simp
  have wf: "file_wf s ex_dir_inode" "index_used (disk s) ex_dir_inode (sector_cnt ex_dir_inode) = {4}"
    using file_wf_one [of ex_dir_inode 4 s, OF _ _ _ _ _ _ al(2)]
    by (simp_all add: d4 ex_dir_inode_def zero_inode_def INODE_MAGIC_def nth_append length_ex_parent)
  have fr: "length (ename (junk_entry ex_frame)) = 15" by (simp add: ex_frame_def ex_parent_def)
  have "\<exists>st'. dir_add (Some 9) [97] 5 False ex_frame s = Some (True, st') \<and> fm_ok st'
      \<and> (\<forall>n. 0 \<notin> set n \<longrightarrow> (\<exists>r t r' s'. lookup (Some 9) n ex_frame s = Some (r, t) \<and> lookup (Some 9) n ex_frame st' = Some (r', s')
          \<and> map_option (inode_sector \<circ> fst) r' = (if n \<noteq> [97] then map_option (inode_sector \<circ> fst) r
              else if [ex_parent] = [] \<or> in_use (hd [ex_parent]) = 0 then None else Some 5)))"
    by (rule dir_add_then_lookup [OF ok(1) i(2) _ i(1)]; use wf al ok(2) ex_dir_content [OF d4] fr in
        \<open>simp add: named_def NAME_MAX_def MAX_SECTORS_def index_cost_small DIRECT_def\<close>)
  then obtain st' where a: "dir_add (Some 9) [97] 5 False ex_frame s = Some (True, st')"
    and l: "\<forall>n. 0 \<notin> set n \<longrightarrow> (\<exists>r t r' s'. lookup (Some 9) n ex_frame s = Some (r, t) \<and> lookup (Some 9) n ex_frame st' = Some (r', s')
          \<and> map_option (inode_sector \<circ> fst) r' = (if n \<noteq> [97] then map_option (inode_sector \<circ> fst) r
              else if [ex_parent] = [] \<or> in_use (hd [ex_parent]) = 0 then None else Some 5))" by blast
  from l [THEN spec [of _ "[97]"]] obtain r' s' where
    "lookup (Some 9) [97] ex_frame st' = Some (r', s')" "map_option (inode_sector \<circ> fst) r' = Some 5" by (auto simp: ex_parent_def)
  then show ?thesis using s(1) a by (cases r') auto
qed

end
