(* ===== verification/StdLib.thy ===== *)
theory StdLib imports CString "HOL-Library.Multiset" begin

section \<open>lib/stdlib.c and lib/ctype.h: numbers, sorting and searching\<close>

text \<open>
  \<open>qsort\<close> and \<open>bsearch\<close> work on an array of elements of \<open>size\<close> bytes each in memory, with a comparison that
  reads the two elements it is given.  A comparison takes the memory as well, and may fail.  Indices
  are computed modulo \<open>2 ^ 32\<close>, as \<open>size_t\<close> is.  \<open>qsort\<close> is a heap sort: it is refined to one on the list of
  the elements.
\<close>

subsection \<open>Characters\<close>

definition isdigit :: "int \<Rightarrow> bool" where
  "isdigit c = (c \<ge> 48 \<and> c \<le> 57)"

definition isspace :: "int \<Rightarrow> bool" where
  "isspace c = (c = 32 \<or> c = 12 \<or> c = 10 \<or> c = 13 \<or> c = 9 \<or> c = 11)"

definition islower :: "int \<Rightarrow> bool" where "islower c = (c \<ge> 97 \<and> c \<le> 122)"
definition isupper :: "int \<Rightarrow> bool" where "isupper c = (c \<ge> 65 \<and> c \<le> 90)"
definition isalpha :: "int \<Rightarrow> bool" where "isalpha c = (islower c \<or> isupper c)"
definition isalnum :: "int \<Rightarrow> bool" where "isalnum c = (isalpha c \<or> isdigit c)"

definition isxdigit :: "int \<Rightarrow> bool" where
  "isxdigit c = (isdigit c \<or> c \<ge> 97 \<and> c \<le> 102 \<or> c \<ge> 65 \<and> c \<le> 70)"

definition isblank :: "int \<Rightarrow> bool" where "isblank c = (c = 32 \<or> c = 9)"
definition isgraph :: "int \<Rightarrow> bool" where "isgraph c = (c > 32 \<and> c < 127)"
definition isprint :: "int \<Rightarrow> bool" where "isprint c = (c \<ge> 32 \<and> c < 127)"
definition iscntrl :: "int \<Rightarrow> bool" where "iscntrl c = (c \<ge> 0 \<and> c < 32 \<or> c = 127)"
definition isascii :: "int \<Rightarrow> bool" where "isascii c = (c \<ge> 0 \<and> c < 128)"
definition ispunct :: "int \<Rightarrow> bool" where "ispunct c = (isprint c \<and> \<not> isalnum c \<and> \<not> isspace c)"

definition tolower :: "int \<Rightarrow> int" where "tolower c = (if isupper c then c - 65 + 97 else c)"
definition toupper :: "int \<Rightarrow> int" where "toupper c = (if islower c then c - 97 + 65 else c)"

subsection \<open>Numbers\<close>

text \<open>The first loop reads the character as \<open>unsigned char\<close>, the second as the \<open>char\<close> it is.\<close>

partial_function (option) skip_spaces :: "mem \<Rightarrow> ptr \<Rightarrow> ptr option" where
  "skip_spaces m s = do {
     c \<leftarrow> load m s;
     if isspace (uint c) then skip_spaces m (s + 1) else Some s }"

partial_function (option) parse_digits :: "mem \<Rightarrow> int \<Rightarrow> ptr \<Rightarrow> int option" where
  "parse_digits m v s = do {
     c \<leftarrow> load m s;
     if isdigit (char_arg c) then parse_digits m (int32 (int32 (v * 10) - (char_arg c - 48))) (s + 1)
     else Some v }"

definition atoi :: "ptr \<Rightarrow> mem \<Rightarrow> int option" where
  "atoi s m = do {
     ASSERT (s \<noteq> NULL);
     s \<leftarrow> skip_spaces m s;
     c \<leftarrow> load m s;
     (let negative = (char_arg c = 45); s = (if char_arg c = 43 \<or> char_arg c = 45 then s + 1 else s) in do {
       v \<leftarrow> parse_digits m 0 s;
       Some (if negative then v else int32 (- v)) }) }"

subsection \<open>Sorting\<close>

type_synonym 'a comparison = "ptr \<Rightarrow> ptr \<Rightarrow> 'a \<Rightarrow> mem \<Rightarrow> int option"

definition compare_thunk :: "(ptr \<Rightarrow> ptr \<Rightarrow> mem \<Rightarrow> int option) comparison" where
  "compare_thunk a b aux m = aux a b m"

text \<open>The address of the element with the 1-based index \<open>idx\<close>.\<close>

definition elem_ptr :: "ptr \<Rightarrow> nat \<Rightarrow> nat \<Rightarrow> ptr" where
  "elem_ptr array idx sz = array + usz (usz (idx + (2 ^ 32 - 1)) * sz)"

fun do_swap_loop :: "nat \<Rightarrow> ptr \<Rightarrow> ptr \<Rightarrow> mem \<Rightarrow> mem option" where
  "do_swap_loop 0 a b m = Some m"
| "do_swap_loop (Suc n) a b m = do {
     t \<leftarrow> load m a;
     u \<leftarrow> load m b;
     m \<leftarrow> store a u m;
     m \<leftarrow> store b t m;
     do_swap_loop n (a + 1) (b + 1) m }"

definition do_swap :: "ptr \<Rightarrow> nat \<Rightarrow> nat \<Rightarrow> nat \<Rightarrow> mem \<Rightarrow> mem option" where
  "do_swap array a_idx b_idx sz m = do_swap_loop sz (elem_ptr array a_idx sz) (elem_ptr array b_idx sz) m"

definition do_compare :: "ptr \<Rightarrow> nat \<Rightarrow> nat \<Rightarrow> nat \<Rightarrow> 'a comparison \<Rightarrow> 'a \<Rightarrow> mem \<Rightarrow> int option" where
  "do_compare array a_idx b_idx sz compare aux m = compare (elem_ptr array a_idx sz) (elem_ptr array b_idx sz) aux m"

text \<open>The larger of the element \<open>mx\<close> and its candidate \<open>child\<close>, if there is one.\<close>

definition larger_child :: "ptr \<Rightarrow> nat \<Rightarrow> nat \<Rightarrow> nat \<Rightarrow> nat \<Rightarrow> 'a comparison \<Rightarrow> 'a \<Rightarrow> mem \<Rightarrow> nat option" where
  "larger_child array child mx cnt sz compare aux m =
     (if child \<le> cnt then do {
        c \<leftarrow> do_compare array child mx sz compare aux m;
        Some (if c > 0 then child else mx) }
      else Some mx)"

partial_function (option) heapify :: "ptr \<Rightarrow> nat \<Rightarrow> nat \<Rightarrow> nat \<Rightarrow> 'a comparison \<Rightarrow> 'a \<Rightarrow> mem \<Rightarrow> mem option" where
  "heapify array i cnt sz compare aux m = do {
     mx \<leftarrow> larger_child array (usz (2 * i)) i cnt sz compare aux m;
     mx \<leftarrow> larger_child array (usz (2 * i + 1)) mx cnt sz compare aux m;
     if mx = i then Some m
     else do {
       m \<leftarrow> do_swap array i mx sz m;
       heapify array mx cnt sz compare aux m } }"

fun build_heap :: "nat \<Rightarrow> ptr \<Rightarrow> nat \<Rightarrow> nat \<Rightarrow> 'a comparison \<Rightarrow> 'a \<Rightarrow> mem \<Rightarrow> mem option" where
  "build_heap 0 array cnt sz compare aux m = Some m"
| "build_heap (Suc i) array cnt sz compare aux m = do {
     m \<leftarrow> heapify array (Suc i) cnt sz compare aux m;
     build_heap i array cnt sz compare aux m }"

text \<open>The loop that takes the largest element off the heap, from \<open>i = n + 1\<close> downwards.\<close>

fun sort_heap :: "nat \<Rightarrow> ptr \<Rightarrow> nat \<Rightarrow> 'a comparison \<Rightarrow> 'a \<Rightarrow> mem \<Rightarrow> mem option" where
  "sort_heap 0 array sz compare aux m = Some m"
| "sort_heap (Suc n) array sz compare aux m = do {
     m \<leftarrow> do_swap array 1 (Suc n + 1) sz m;
     m \<leftarrow> heapify array 1 (Suc n) sz compare aux m;
     sort_heap n array sz compare aux m }"

definition sort_array :: "ptr \<Rightarrow> nat \<Rightarrow> nat \<Rightarrow> 'a comparison \<Rightarrow> 'a \<Rightarrow> mem \<Rightarrow> mem option" where
  "sort_array array cnt sz compare aux m = do {
     ASSERT (array \<noteq> NULL \<or> cnt = 0);
     ASSERT (sz > 0);
     m \<leftarrow> build_heap (cnt div 2) array cnt sz compare aux m;
     sort_heap (cnt - 1) array sz compare aux m }"

definition qsort :: "ptr \<Rightarrow> nat \<Rightarrow> nat \<Rightarrow> (ptr \<Rightarrow> ptr \<Rightarrow> mem \<Rightarrow> int option) \<Rightarrow> mem \<Rightarrow> mem option" where
  "qsort array cnt sz compare m = sort_array array cnt sz compare_thunk compare m"

subsection \<open>Searching\<close>

partial_function (option) search_loop :: "ptr \<Rightarrow> ptr \<Rightarrow> ptr \<Rightarrow> nat \<Rightarrow> 'a comparison \<Rightarrow> 'a \<Rightarrow> mem \<Rightarrow> ptr option" where
  "search_loop key first end sz compare aux m =
     (if first < end then
        (let range = (end - first) div sz; middle = first + (range div 2) * sz in do {
           cmp \<leftarrow> compare key middle aux m;
           if cmp < 0 then search_loop key first middle sz compare aux m
           else if cmp > 0 then search_loop key (middle + sz) end sz compare aux m
           else Some middle })
      else Some NULL)"

definition binary_search :: "ptr \<Rightarrow> ptr \<Rightarrow> nat \<Rightarrow> nat \<Rightarrow> 'a comparison \<Rightarrow> 'a \<Rightarrow> mem \<Rightarrow> ptr option" where
  "binary_search key array cnt sz compare aux m = search_loop key array (array + sz * cnt) sz compare aux m"

definition bsearch :: "ptr \<Rightarrow> ptr \<Rightarrow> nat \<Rightarrow> nat \<Rightarrow> (ptr \<Rightarrow> ptr \<Rightarrow> mem \<Rightarrow> int option) \<Rightarrow> mem \<Rightarrow> ptr option" where
  "bsearch key array cnt sz compare m = binary_search key array cnt sz compare_thunk compare m"

declare skip_spaces.simps [code] parse_digits.simps [code] heapify.simps [code] search_loop.simps [code]

end
