(* ===== verification/HeapSort.thy ===== *)
theory HeapSort imports StdLib begin

section \<open>Heap sort on lists\<close>

text \<open>
  The heap sort of \<open>lib/stdlib.c\<close> on the list of the elements, with indices that start at 1 as in the source.
\<close>

text \<open>A comparison with the result of \<open>strcmp\<close> that orders elements linearly up to equivalence.\<close>

locale comparison =
  fixes cmp :: "'a \<Rightarrow> 'a \<Rightarrow> int"
  assumes flip: "cmp b a > 0 \<longleftrightarrow> cmp a b < 0"
    and chain: "cmp a b \<le> 0 \<Longrightarrow> cmp b c \<le> 0 \<Longrightarrow> cmp a c \<le> 0"
begin

lemma total: "cmp a b \<le> 0 \<or> cmp b a \<le> 0"
  using flip [of a b] flip [of b a] by linarith

lemma same [simp]: "cmp a a \<le> 0"
  using total by blast

lemma greater: "\<not> cmp a b > 0 \<longleftrightarrow> cmp a b \<le> 0" "cmp a b > 0 \<Longrightarrow> cmp b a \<le> 0"
  using flip [of a b] by auto

end

definition el :: "'a list \<Rightarrow> nat \<Rightarrow> 'a" where
  "el xs i = xs ! (i - 1)"

definition swap :: "nat \<Rightarrow> nat \<Rightarrow> 'a list \<Rightarrow> 'a list" where
  "swap i j xs = xs[i - 1 := el xs j, j - 1 := el xs i]"

definition larger :: "('a \<Rightarrow> 'a \<Rightarrow> int) \<Rightarrow> 'a list \<Rightarrow> nat \<Rightarrow> nat \<Rightarrow> nat \<Rightarrow> nat" where
  "larger cmp xs child mx n = (if child \<le> n \<and> cmp (el xs child) (el xs mx) > 0 then child else mx)"

text \<open>The largest of an element and its children.\<close>

definition top_of :: "('a \<Rightarrow> 'a \<Rightarrow> int) \<Rightarrow> 'a list \<Rightarrow> nat \<Rightarrow> nat \<Rightarrow> nat" where
  "top_of cmp xs i n = larger cmp xs (2 * i + 1) (larger cmp xs (2 * i) i n) n"

lemma larger_cases: "larger cmp xs c m n = m \<or> larger cmp xs c m n = c \<and> c \<le> n"
  by (auto simp: larger_def)

lemma top_of_cases: "top_of cmp xs i n = i \<or> (top_of cmp xs i n = 2 * i \<or> top_of cmp xs i n = 2 * i + 1) \<and> top_of cmp xs i n \<le> n"
  using larger_cases [of cmp xs "2 * i + 1" _ n] larger_cases [of cmp xs "2 * i" i n] unfolding top_of_def by metis

function sift :: "('a \<Rightarrow> 'a \<Rightarrow> int) \<Rightarrow> nat \<Rightarrow> nat \<Rightarrow> 'a list \<Rightarrow> 'a list" where
  "sift cmp i n xs = (if top_of cmp xs i n = i \<or> i = 0 then xs else sift cmp (top_of cmp xs i n) n (swap i (top_of cmp xs i n) xs))"
  by pat_completeness auto
termination
proof (relation "measure (\<lambda>(cmp, i, n, xs). n - i)")
  fix cmp :: "'a \<Rightarrow> 'a \<Rightarrow> int" and i n xs
  assume "\<not> (top_of cmp xs i n = i \<or> i = 0)"
  then show "((cmp, top_of cmp xs i n, n, swap i (top_of cmp xs i n) xs), cmp, i, n, xs) \<in> measure (\<lambda>(cmp, i, n, xs). n - i)"
    using top_of_cases [of cmp xs i n] by auto
qed simp

declare sift.simps [simp del]

fun build :: "('a \<Rightarrow> 'a \<Rightarrow> int) \<Rightarrow> nat \<Rightarrow> nat \<Rightarrow> 'a list \<Rightarrow> 'a list" where
  "build cmp 0 n xs = xs"
| "build cmp (Suc i) n xs = build cmp i n (sift cmp (Suc i) n xs)"

fun unbuild :: "('a \<Rightarrow> 'a \<Rightarrow> int) \<Rightarrow> nat \<Rightarrow> 'a list \<Rightarrow> 'a list" where
  "unbuild cmp 0 xs = xs"
| "unbuild cmp (Suc n) xs = unbuild cmp n (sift cmp 1 (Suc n) (swap 1 (Suc n + 1) xs))"

definition heap_sort :: "('a \<Rightarrow> 'a \<Rightarrow> int) \<Rightarrow> 'a list \<Rightarrow> 'a list" where
  "heap_sort cmp xs = unbuild cmp (length xs - 1) (build cmp (length xs div 2) (length xs) xs)"

subsection \<open>Permutation\<close>

lemma length_swap [simp]: "length (swap i j xs) = length xs"
  by (simp add: swap_def)

lemma el_swap:
  "1 \<le> i \<Longrightarrow> i \<le> length xs \<Longrightarrow> 1 \<le> j \<Longrightarrow> j \<le> length xs \<Longrightarrow> 1 \<le> k \<Longrightarrow>
     el (swap i j xs) k = (if k = i then el xs j else if k = j then el xs i else el xs k)"
  by (auto simp: el_def swap_def nth_list_update)

lemma mset_swap_take:
  assumes "1 \<le> i" "i \<le> n" "1 \<le> j" "j \<le> n" "n \<le> length xs"
  shows "mset (take n (swap i j xs)) = mset (take n xs)"
proof -
  have t: "el xs k = take n xs ! (k - 1)" if "1 \<le> k" "k \<le> n" for k using that assms(5) by (simp add: el_def)
  have "take n (swap i j xs) = (take n xs)[i - 1 := take n xs ! (j - 1), j - 1 := take n xs ! (i - 1)]"
    using assms by (simp add: swap_def take_update_swap t [OF assms(1,2)] t [OF assms(3,4)])
  moreover have "mset ((take n xs)[i - 1 := take n xs ! (j - 1), j - 1 := take n xs ! (i - 1)]) = mset (take n xs)"
    using assms by (intro mset_swap) auto
  ultimately show ?thesis by simp
qed

lemma drop_swap: "i \<le> n \<Longrightarrow> j \<le> n \<Longrightarrow> 1 \<le> i \<Longrightarrow> 1 \<le> j \<Longrightarrow> drop n (swap i j xs) = drop n xs"
  by (simp add: swap_def)

lemma sift_perm:
  assumes "1 \<le> i" "i \<le> n" "n \<le> length xs"
  shows "mset (take n (sift cmp i n xs)) = mset (take n xs) \<and> drop n (sift cmp i n xs) = drop n xs \<and> length (sift cmp i n xs) = length xs"
  using assms
proof (induction cmp i n xs rule: sift.induct)
  case (1 cmp i n xs)
  let ?k = "top_of cmp xs i n"
  show ?case
  proof (cases "?k = i")
    case False
    then have k: "1 \<le> ?k" "?k \<le> n" using top_of_cases [of cmp xs i n] "1.prems" by auto
    have s: "sift cmp i n xs = sift cmp ?k n (swap i ?k xs)" using False "1.prems" by (simp add: sift.simps [of cmp i])
    have "mset (take n (sift cmp ?k n (swap i ?k xs))) = mset (take n (swap i ?k xs))
        \<and> drop n (sift cmp ?k n (swap i ?k xs)) = drop n (swap i ?k xs) \<and> length (sift cmp ?k n (swap i ?k xs)) = length (swap i ?k xs)"
      using "1.prems" k False by (intro "1.IH") auto
    then show ?thesis
      unfolding s using mset_swap_take [OF "1.prems"(1,2) k "1.prems"(3)] drop_swap [of i n ?k xs] "1.prems" k by simp
  qed (simp add: sift.simps)
qed

subsection \<open>Heaps\<close>

text \<open>From index \<open>k\<close> on no element is larger than its parent.\<close>

definition heap :: "('a \<Rightarrow> 'a \<Rightarrow> int) \<Rightarrow> 'a list \<Rightarrow> nat \<Rightarrow> nat \<Rightarrow> bool" where
  "heap cmp xs k n = (\<forall>j. 2 \<le> j \<and> j \<le> n \<and> k \<le> j div 2 \<longrightarrow> cmp (el xs j) (el xs (j div 2)) \<le> 0)"

text \<open>Element \<open>i\<close> may be too small, for its children but not for its parent's children.\<close>

definition near_heap :: "('a \<Rightarrow> 'a \<Rightarrow> int) \<Rightarrow> 'a list \<Rightarrow> nat \<Rightarrow> nat \<Rightarrow> nat \<Rightarrow> bool" where
  "near_heap cmp xs k i n = ((\<forall>j. 2 \<le> j \<and> j \<le> n \<and> k \<le> j div 2 \<and> j div 2 \<noteq> i \<longrightarrow> cmp (el xs j) (el xs (j div 2)) \<le> 0)
     \<and> (\<forall>j. 2 \<le> i \<and> j \<le> n \<and> j div 2 = i \<and> k \<le> i div 2 \<longrightarrow> cmp (el xs j) (el xs (i div 2)) \<le> 0))"

lemma near_heapD:
  assumes "near_heap cmp xs k i n"
  shows "\<And>j. 2 \<le> j \<Longrightarrow> j \<le> n \<Longrightarrow> k \<le> j div 2 \<Longrightarrow> j div 2 \<noteq> i \<Longrightarrow> cmp (el xs j) (el xs (j div 2)) \<le> 0"
    "\<And>j. 2 \<le> i \<Longrightarrow> j \<le> n \<Longrightarrow> j div 2 = i \<Longrightarrow> k \<le> i div 2 \<Longrightarrow> cmp (el xs j) (el xs (i div 2)) \<le> 0"
  using assms by (auto simp: near_heap_def)

lemma half: "(j :: nat) div 2 = i \<Longrightarrow> j = 2 * i \<or> j = 2 * i + 1"
  by auto

context comparison
begin

lemma larger_le: "cmp (el xs m) (el xs (larger cmp xs c m n)) \<le> 0" "c \<le> n \<Longrightarrow> cmp (el xs c) (el xs (larger cmp xs c m n)) \<le> 0"
  using greater by (auto simp: larger_def)

lemma top_of_le:
  "cmp (el xs i) (el xs (top_of cmp xs i n)) \<le> 0" "j \<le> n \<Longrightarrow> j div 2 = i \<Longrightarrow> cmp (el xs j) (el xs (top_of cmp xs i n)) \<le> 0"
proof -
  note l = larger_le(1) [of xs "larger cmp xs (2 * i) i n" "2 * i + 1" n, folded top_of_def]
  show "cmp (el xs i) (el xs (top_of cmp xs i n)) \<le> 0" using chain [OF larger_le(1) l] .
  assume "j \<le> n" "j div 2 = i"
  then show "cmp (el xs j) (el xs (top_of cmp xs i n)) \<le> 0"
    using half chain [OF larger_le(2) l] larger_le(2) [of "2 * i + 1" n xs "larger cmp xs (2 * i) i n", folded top_of_def] by metis
qed

lemma near_heap_swap:
  assumes h: "near_heap cmp xs k i n" and i: "1 \<le> k" "k \<le> i" "i \<le> n" "n \<le> length xs" and m: "m = top_of cmp xs i n" "m \<noteq> i"
  shows "near_heap cmp (swap i m xs) k m n"
proof -
  note near = near_heapD [OF h]
  have mi: "m \<le> n" "m div 2 = i" "1 \<le> m" using m top_of_cases [of cmp xs i n] i(1,2) by auto
  have el: "el (swap i m xs) j = (if j = i then el xs m else if j = m then el xs i else el xs j)" if "1 \<le> j" for j
    using i mi that by (intro el_swap) auto
  have "cmp (el (swap i m xs) j) (el (swap i m xs) (j div 2)) \<le> 0" if j: "2 \<le> j" "j \<le> n" "k \<le> j div 2" "j div 2 \<noteq> m" for j
  proof (cases "j div 2 = i")
    case True
    then have "cmp (el xs j) (el xs m) \<le> 0" "cmp (el xs i) (el xs m) \<le> 0" "j \<noteq> i"
      using top_of_le j m i by auto
    then show ?thesis using True el [of j] el [of i] i j by auto
  next
    case False
    have p: "el (swap i m xs) (j div 2) = el xs (j div 2)" using False j el [of "j div 2"] i by auto
    have "j \<noteq> m" using False mi by auto
    show ?thesis
    proof (cases "j = i")
      case True
      then show ?thesis using near(2) [of m] j mi el [of i] p by auto
    next
      case False
      then show ?thesis using near(1) [of j] \<open>j div 2 \<noteq> i\<close> \<open>j \<noteq> m\<close> j el [of j] p by auto
    qed
  qed
  moreover have "cmp (el (swap i m xs) j) (el (swap i m xs) (m div 2)) \<le> 0" if j: "2 \<le> m" "j \<le> n" "j div 2 = m" "k \<le> m div 2" for j
  proof -
    have "cmp (el xs j) (el xs m) \<le> 0" using near(1) [of j] j m i mi by auto
    moreover have "j \<noteq> i" "j \<noteq> m" "1 \<le> j" using j mi i by auto
    ultimately show ?thesis using el [of j] el [of i] mi i by auto
  qed
  ultimately show ?thesis by (simp add: near_heap_def)
qed

lemma sift_heap: "near_heap cmp xs k i n \<Longrightarrow> 1 \<le> k \<Longrightarrow> k \<le> i \<Longrightarrow> i \<le> n \<Longrightarrow> n \<le> length xs \<Longrightarrow> heap cmp (sift cmp i n xs) k n"
proof (induction "n - i" arbitrary: i xs rule: less_induct)
  case less
  let ?m = "top_of cmp xs i n"
  show ?case
  proof (cases "?m = i")
    case True
    have "cmp (el xs j) (el xs (j div 2)) \<le> 0" if "2 \<le> j" "j \<le> n" "k \<le> j div 2" for j
      using near_heapD(1) [OF less.prems(1) that] top_of_le(2) [of j n i xs] True that by auto
    then show ?thesis using True by (simp add: sift.simps heap_def)
  next
    case False
    then have m: "i < ?m" "?m \<le> n" using top_of_cases [of cmp xs i n] less.prems by auto
    have "heap cmp (sift cmp ?m n (swap i ?m xs)) k n"
      using less.prems m False near_heap_swap [OF less.prems(1-5) refl False] by (intro less.hyps) auto
    then show ?thesis using False less.prems by (simp add: sift.simps [of cmp i])
  qed
qed

end

subsection \<open>Sorting\<close>

lemma perm_trans: "mset (take n ys) = mset (take n xs) \<Longrightarrow> drop n ys = drop n xs \<Longrightarrow> mset ys = mset xs"
  by (metis append_take_drop_id mset_append)

lemma sift_mset: "1 \<le> i \<Longrightarrow> i \<le> n \<Longrightarrow> n \<le> length xs \<Longrightarrow> mset (sift cmp i n xs) = mset xs"
  using sift_perm [of i n xs cmp] perm_trans by metis

lemma swap_mset: "1 \<le> i \<Longrightarrow> i \<le> n \<Longrightarrow> 1 \<le> j \<Longrightarrow> j \<le> n \<Longrightarrow> n \<le> length xs \<Longrightarrow> mset (swap i j xs) = mset xs"
  using mset_swap_take [of i n j xs] drop_swap [of i n j xs] perm_trans by metis

lemma length_sift: "1 \<le> i \<Longrightarrow> i \<le> n \<Longrightarrow> n \<le> length xs \<Longrightarrow> length (sift cmp i n xs) = length xs"
  using sift_perm by metis

lemma build_perm: "i \<le> n \<Longrightarrow> n \<le> length xs \<Longrightarrow> mset (build cmp i n xs) = mset xs \<and> length (build cmp i n xs) = length xs"
  by (induction i arbitrary: xs) (simp_all add: sift_mset length_sift)

lemma unbuild_perm: "n < length xs \<Longrightarrow> mset (unbuild cmp n xs) = mset xs \<and> length (unbuild cmp n xs) = length xs"
proof (induction n arbitrary: xs)
  case (Suc n)
  then have "mset (swap 1 (Suc n + 1) xs) = mset xs" by (intro swap_mset [of _ "Suc (Suc n)"]) auto
  then show ?case using Suc by (simp add: sift_mset length_sift)
qed simp

lemma heap_sort_perm: "mset (heap_sort cmp xs) = mset xs" "length (heap_sort cmp xs) = length xs"
proof -
  have b: "mset (build cmp (length xs div 2) (length xs) xs) = mset xs \<and> length (build cmp (length xs div 2) (length xs) xs) = length xs"
    by (intro build_perm) auto
  show "mset (heap_sort cmp xs) = mset xs"
  proof (cases xs)
    case (Cons x ys)
    then show ?thesis using b unbuild_perm [of "length xs - 1" _ cmp] by (simp add: heap_sort_def)
  qed (simp add: heap_sort_def)
  then show "length (heap_sort cmp xs) = length xs" using mset_eq_length by blast
qed

context comparison
begin

lemma build_heap: "heap cmp xs (Suc i) n \<Longrightarrow> i \<le> n \<Longrightarrow> n \<le> length xs \<Longrightarrow> heap cmp (build cmp i n xs) 1 n"
proof (induction i arbitrary: xs)
  case (Suc i)
  have "near_heap cmp xs (Suc i) (Suc i) n" using Suc.prems(1) by (auto simp: near_heap_def heap_def)
  then have "heap cmp (sift cmp (Suc i) n xs) (Suc i) n" using Suc.prems by (intro sift_heap) auto
  then have "heap cmp (build cmp i n (sift cmp (Suc i) n xs)) 1 n" using Suc.prems by (intro Suc.IH) (simp_all add: length_sift)
  then show ?case by simp
qed simp

lemma root_max: "heap cmp xs 1 n \<Longrightarrow> 1 \<le> j \<Longrightarrow> j \<le> n \<Longrightarrow> cmp (el xs j) (el xs 1) \<le> 0"
proof (induction j rule: less_induct)
  case (less j)
  show ?case
  proof (cases "j = 1")
    case False
    then have h: "1 \<le> j div 2" "j div 2 < j" "j div 2 \<le> n" "2 \<le> j" using less.prems by auto
    then have "cmp (el xs j) (el xs (j div 2)) \<le> 0" using less.prems by (simp add: heap_def)
    then show ?thesis using chain less.IH [OF h(2) less.prems(1) h(1,3)] by blast
  qed simp
qed

lemma root_max_set: "heap cmp xs 1 n \<Longrightarrow> n \<le> length xs \<Longrightarrow> a \<in> set (take n xs) \<Longrightarrow> cmp a (el xs 1) \<le> 0"
  using root_max [of xs n "Suc _"] by (auto simp: in_set_conv_nth el_def)

lemma unbuild_sorted:
  assumes "heap cmp xs 1 (Suc n)" "n < length xs" "sorted_wrt (\<lambda>a b. cmp a b \<le> 0) (drop (Suc n) xs)"
    "\<forall>a\<in>set (take (Suc n) xs). \<forall>b\<in>set (drop (Suc n) xs). cmp a b \<le> 0"
  shows "sorted_wrt (\<lambda>a b. cmp a b \<le> 0) (unbuild cmp n xs)"
  using assms
proof (induction n arbitrary: xs)
  case 0
  then have "sorted_wrt (\<lambda>a b. cmp a b \<le> 0) (take 1 xs @ drop 1 xs)" by (simp add: sorted_wrt_append take_Suc split: list.split)
  then show ?case by (simp only: append_take_drop_id unbuild.simps)
next
  case (Suc n)
  define ys where "ys = swap 1 (Suc n + 1) xs"
  define zs where "zs = sift cmp 1 (Suc n) ys"
  have len: "length ys = length xs" by (simp add: ys_def)
  have el: "el ys j = (if j = 1 then el xs (Suc n + 1) else if j = Suc n + 1 then el xs 1 else el xs j)" if "1 \<le> j" for j
    unfolding ys_def using Suc.prems(2) that by (intro el_swap) auto
  have "near_heap cmp ys 1 1 (Suc n)"
    using Suc.prems(1) el by (auto simp: near_heap_def heap_def)
  then have h: "heap cmp zs 1 (Suc n)" unfolding zs_def using Suc.prems(2) len by (intro sift_heap) auto
  have p: "mset (take (Suc n) zs) = mset (take (Suc n) ys)" "drop (Suc n) zs = drop (Suc n) ys" "length zs = length ys"
    unfolding zs_def using sift_perm [of 1 "Suc n" ys cmp] Suc.prems(2) len by auto
  have "drop (Suc n) ys = el ys (Suc n + 1) # drop (Suc n + 1) ys"
    using Suc.prems(2) len by (simp add: el_def Cons_nth_drop_Suc)
  also have "drop (Suc n + 1) ys = drop (Suc n + 1) xs" unfolding ys_def by (intro drop_swap) auto
  finally have d: "drop (Suc n) zs = el xs 1 # drop (Suc (Suc n)) xs" using p(2) el [of "Suc n + 1"] by simp
  have "mset (take (Suc (Suc n)) ys) = mset (take (Suc (Suc n)) xs)"
    unfolding ys_def using Suc.prems(2) by (intro mset_swap_take) auto
  moreover have "set (take (Suc n) zs) = set (take (Suc n) ys)" using p(1) mset_eq_setD by blast
  ultimately have t: "set (take (Suc n) zs) \<subseteq> set (take (Suc (Suc n)) xs)"
    using set_take_subset_set_take [of "Suc n" "Suc (Suc n)" ys] by (metis le_SucI order_refl mset_eq_setD)
  have root: "el xs 1 \<in> set (take (Suc (Suc n)) xs)" using Suc.prems(2) by (cases xs) (auto simp: el_def)
  have "sorted_wrt (\<lambda>a b. cmp a b \<le> 0) (unbuild cmp n zs)"
    using Suc.prems t root root_max_set [OF Suc.prems(1)] p(3) len h by (intro Suc.IH) (auto simp: d)
  then show ?case by (simp add: zs_def ys_def)
qed

lemma heap_sort_sorted: "sorted_wrt (\<lambda>a b. cmp a b \<le> 0) (heap_sort cmp xs)"
proof (cases xs)
  case (Cons x xs')
  have "heap cmp xs (Suc (length xs div 2)) (length xs)" by (auto simp: heap_def dest: div_le_mono [where k = 2])
  then have h: "heap cmp (build cmp (length xs div 2) (length xs) xs) 1 (length xs)" by (intro build_heap) auto
  have l: "length (build cmp (length xs div 2) (length xs) xs) = length xs" using build_perm [of "length xs div 2" "length xs" xs cmp] by simp
  show ?thesis unfolding heap_sort_def using h l Cons by (intro unbuild_sorted) auto
qed (simp add: heap_sort_def)

end

end
