(* ===== verification/SortTheorems.thy ===== *)
theory SortTheorems imports HeapSort begin

section \<open>Sorting and searching arrays in memory\<close>

text \<open>
  The array's elements are a list of blocks of \<open>sz\<close> bytes in memory.  Each routine is shown to do to the memory
  what its counterpart of \<open>HeapSort\<close> does to the list.
\<close>

text \<open>\<open>compare\<close> compares the bytes of the elements at its arguments as \<open>cmp\<close>.\<close>

definition compares :: "'a comparison \<Rightarrow> 'a \<Rightarrow> nat \<Rightarrow> (byte list \<Rightarrow> byte list \<Rightarrow> int) \<Rightarrow> bool" where
  "compares compare aux sz cmp = (\<forall>p q u v m. bytes_at m p u \<longrightarrow> bytes_at m q v \<longrightarrow> length u = sz \<longrightarrow> length v = sz
     \<longrightarrow> compare p q aux m = Some (cmp u v))"

abbreviation uniform :: "nat \<Rightarrow> byte list list \<Rightarrow> bool" where
  "uniform sz xs \<equiv> \<forall>x\<in>set xs. length x = sz"

subsection \<open>Elements of an array\<close>

lemma length_concat_uniform: "uniform sz xs \<Longrightarrow> length (concat xs) = length xs * sz"
  by (induction xs) auto

lemma concat_at:
  "uniform sz xs \<Longrightarrow> k < length xs \<Longrightarrow>
     concat xs = concat (take k xs) @ xs ! k @ concat (drop (Suc k) xs) \<and> length (concat (take k xs)) = k * sz"
  using length_concat_uniform [of "take k xs" sz] set_take_subset [of k xs]
  by (subst (1) id_take_nth_drop [of k xs]) auto

lemma put_middle: "length u = length v \<Longrightarrow> put (a + length A) v (put a (A @ u @ B) m) = put a (A @ v @ B) m"
  by (auto simp: put_def fun_eq_iff nth_append)

lemma put_elem:
  assumes "uniform sz xs" "k < length xs" "length v = sz"
  shows "put (a + k * sz) v (put a (concat xs) m) = put a (concat (xs[k := v])) m"
proof -
  have "concat (xs[k := v]) = concat (take k xs) @ v @ concat (drop (Suc k) xs)" using assms(2) by (simp add: upd_conv_take_nth_drop)
  then show ?thesis
    using concat_at [OF assms(1,2)] put_middle [of "xs ! k" v a "concat (take k xs)" "concat (drop (Suc k) xs)" m] assms by simp
qed

lemma bytes_elem:
  assumes "uniform sz xs" "k < length xs" "bytes_at m a (concat xs)"
  shows "bytes_at m (a + k * sz) (xs ! k)"
  using assms concat_at [OF assms(1,2)] by (metis bytes_at_append)

lemma put_bytes: "bytes_at m a bs \<Longrightarrow> put a bs m = m"
proof
  fix x
  assume "bytes_at m a bs"
  then show "put a bs m x = m x" using bytes_at_iff [of m a bs] by (cases "a \<le> x \<and> x < a + length bs") (auto simp: put_def dest!: spec [of _ "x - a"])
qed

lemma elem_ptr_eq:
  assumes "1 \<le> i" "i \<le> n" "n * sz < 2 ^ 32" "0 < sz"
  shows "elem_ptr a i sz = a + (i - 1) * sz"
proof -
  have "n * 1 \<le> n * sz" using assms(4) by (intro mult_le_mono2) simp
  then have n: "n < 2 ^ 32" using assms(3) by linarith
  have "(i - 1 + 2 ^ 32) mod 2 ^ 32 = i - 1" unfolding mod_add_self2 using n assms(1,2) by simp
  moreover have "i + (2 ^ 32 - 1) = i - 1 + 2 ^ 32" using assms(1) by simp
  ultimately have u: "usz (i + (2 ^ 32 - 1)) = i - 1" unfolding usz_def by metis
  have "(i - 1) * sz \<le> n * sz" using assms(2) by (intro mult_le_mono1) simp
  then have "(i - 1) * sz < 2 ^ 32" using assms(3) by (rule le_less_trans)
  then show ?thesis unfolding elem_ptr_def u by (simp only: usz_id)
qed

subsection \<open>The routines on elements\<close>

lemma do_swap_loop_put:
  "bytes_at m p u \<Longrightarrow> bytes_at m q v \<Longrightarrow> length v = length u \<Longrightarrow> p + length u \<le> q \<or> q + length u \<le> p \<Longrightarrow>
     do_swap_loop (length u) p q m = Some (put p v (put q u m))"
proof (induction u v arbitrary: p q m rule: list_induct2')
  case (4 x u y v)
  let ?m = "m(p \<mapsto> y, q \<mapsto> x)"
  have pq: "p \<noteq> q" using "4.prems"(4) by auto
  have "do_swap_loop (length u) (p + 1) (q + 1) ?m = Some (put (p + 1) v (put (q + 1) u ?m))"
    using "4.prems" by (intro "4.IH") (auto simp: bytes_at_iff)
  moreover have "put (p + 1) v (put (q + 1) u ?m) = put p (y # v) (put q (x # u) m)"
  proof -
    have "put (q + 1) u ?m = (put (q + 1) u (m(q \<mapsto> x)))(p \<mapsto> y)"
      using "4.prems"(4) pq by (auto simp: put_def fun_eq_iff)
    then show ?thesis by (simp only: put_Cons)
  qed
  moreover have "load m p = Some x" "load m q = Some y" "store p y m = Some (m(p \<mapsto> y))" "store q x (m(p \<mapsto> y)) = Some ?m"
    using "4.prems" pq by (auto simp: load_def store_def)
  ultimately show ?case by simp
qed auto

text \<open>An array that lies in the address space, with indices that do not wrap.\<close>

definition fits :: "nat \<Rightarrow> nat \<Rightarrow> bool" where
  "fits n sz = (n * sz < 2 ^ 32 \<and> 0 < sz \<and> n < 2 ^ 31)"

lemma do_swap_array:
  assumes "uniform sz xs" "length xs = n" "1 \<le> i" "i < j" "j \<le> n" and f: "fits n sz"
  shows "do_swap a i j sz (put a (concat xs) m) = Some (put a (concat (swap i j xs)) m)"
proof -
  let ?m = "put a (concat xs) m"
  have k: "i - 1 < length xs" "j - 1 < length xs" using assms by auto
  have e: "length (el xs i) = sz" "length (el xs j) = sz" using assms(1) k by (auto simp: el_def)
  have "bytes_at ?m (a + (i - 1) * sz) (el xs i)" "bytes_at ?m (a + (j - 1) * sz) (el xs j)"
    unfolding el_def using k by (auto intro!: bytes_elem [OF assms(1)] bytes_at_put)
  moreover have "(i - 1) * sz + sz \<le> (j - 1) * sz"
  proof -
    have "Suc (i - 1) * sz \<le> (j - 1) * sz" using assms(3,4) by (intro mult_le_mono1) simp
    then show ?thesis by simp
  qed
  ultimately have "do_swap_loop (length (el xs i)) (a + (i - 1) * sz) (a + (j - 1) * sz) ?m
      = Some (put (a + (i - 1) * sz) (el xs j) (put (a + (j - 1) * sz) (el xs i) ?m))"
    using e by (intro do_swap_loop_put) auto
  moreover have "put (a + (i - 1) * sz) (el xs j) (put (a + (j - 1) * sz) (el xs i) ?m) = put a (concat (xs[j - 1 := el xs i, i - 1 := el xs j])) m"
    using put_elem [OF assms(1) k(2) e(1)] put_elem [of "xs[j - 1 := el xs i]" sz "i - 1" "el xs j" a m] k e assms(1)
    by (auto dest!: set_update_subset_insert [THEN subsetD])
  moreover have "xs[j - 1 := el xs i, i - 1 := el xs j] = swap i j xs"
    using assms(3,4) by (simp add: swap_def list_update_swap)
  ultimately show ?thesis
    using elem_ptr_eq [of i n sz a] elem_ptr_eq [of j n sz a] f e assms(3-5) by (simp add: do_swap_def fits_def)
qed

lemma larger_child_array:
  assumes "compares compare aux sz cmp" "uniform sz xs" "length xs = n" "1 \<le> c" "1 \<le> i" "i \<le> n" "k \<le> n" "fits n sz"
  shows "larger_child a c i k sz compare aux (put a (concat xs) m) = Some (larger cmp xs c i k)"
proof (cases "c \<le> k")
  case True
  then have l: "c - 1 < length xs" "i - 1 < length xs" using assms by auto
  have "bytes_at (put a (concat xs) m) (elem_ptr a c sz) (el xs c)" "bytes_at (put a (concat xs) m) (elem_ptr a i sz) (el xs i)"
    using bytes_elem [OF assms(2) l(1) bytes_at_put] bytes_elem [OF assms(2) l(2) bytes_at_put] assms(4-8) True
      elem_ptr_eq [of c n sz a] elem_ptr_eq [of i n sz a] by (simp_all add: el_def fits_def)
  moreover have "length (el xs c) = sz" "length (el xs i) = sz" using assms(2) l by (auto simp: el_def)
  ultimately have "compare (elem_ptr a c sz) (elem_ptr a i sz) aux (put a (concat xs) m) = Some (cmp (el xs c) (el xs i))"
    using assms(1) by (simp add: compares_def)
  then show ?thesis using True by (simp add: larger_child_def do_compare_def larger_def)
qed (simp add: larger_child_def larger_def)

lemma uniform_mset: "mset ys = mset xs \<Longrightarrow> uniform sz ys = uniform sz xs"
  using mset_eq_setD by blast

lemma heapify_array:
  assumes "compares compare aux sz cmp" "fits n sz" "uniform sz xs" "length xs = n" "1 \<le> i" "i \<le> k" "k \<le> n"
  shows "heapify a i k sz compare aux (put a (concat xs) m) = Some (put a (concat (sift cmp i k xs)) m)"
  using assms(3-7)
proof (induction "k - i" arbitrary: i xs rule: less_induct)
  case less
  note arr = assms(1) less.prems(1,2)
  define c where "c = larger cmp xs (2 * i) i k"
  have u: "usz (2 * i) = 2 * i" "usz (2 * i + 1) = 2 * i + 1" using less.prems assms(2) by (auto simp: fits_def)
  have c: "1 \<le> c" "c \<le> n" using larger_cases [of cmp xs "2 * i" i k] less.prems unfolding c_def by auto
  have "larger_child a (usz (2 * i)) i k sz compare aux (put a (concat xs) m) = Some c"
    unfolding u c_def using less.prems assms(2) by (intro larger_child_array [OF arr]) auto
  moreover have "larger_child a (usz (2 * i + 1)) c k sz compare aux (put a (concat xs) m) = Some (top_of cmp xs i k)"
    unfolding u top_of_def c_def [symmetric] using less.prems assms(2) c by (intro larger_child_array [OF arr]) auto
  ultimately have h: "heapify a i k sz compare aux (put a (concat xs) m) = (if top_of cmp xs i k = i then Some (put a (concat xs) m)
      else do { m \<leftarrow> do_swap a i (top_of cmp xs i k) sz (put a (concat xs) m); heapify a (top_of cmp xs i k) k sz compare aux m })"
    by (subst heapify.simps) simp
  show ?case
  proof (cases "top_of cmp xs i k = i")
    case True
    then show ?thesis unfolding h by (simp add: sift.simps)
  next
    case False
    then have t: "i < top_of cmp xs i k" "top_of cmp xs i k \<le> k" using top_of_cases [of cmp xs i k] less.prems by auto
    let ?ys = "swap i (top_of cmp xs i k) xs"
    have "mset ?ys = mset xs" using t less.prems by (intro swap_mset [of _ n]) auto
    then have "uniform sz ?ys" using less.prems(1) uniform_mset by blast
    then have "heapify a (top_of cmp xs i k) k sz compare aux (put a (concat ?ys) m) = Some (put a (concat (sift cmp (top_of cmp xs i k) k ?ys)) m)"
      using t less.prems by (intro less.hyps) auto
    moreover have "do_swap a i (top_of cmp xs i k) sz (put a (concat xs) m) = Some (put a (concat ?ys) m)"
      using t less.prems assms(2) by (intro do_swap_array) auto
    ultimately show ?thesis unfolding h using False less.prems by (simp add: sift.simps [of cmp i])
  qed
qed

lemma build_heap_array:
  assumes "compares compare aux sz cmp" "fits n sz"
  shows "uniform sz xs \<Longrightarrow> length xs = n \<Longrightarrow> i \<le> n \<Longrightarrow>
    build_heap i a n sz compare aux (put a (concat xs) m) = Some (put a (concat (build cmp i n xs)) m)"
proof (induction i arbitrary: xs)
  case (Suc i)
  have p: "mset (sift cmp (Suc i) n xs) = mset xs" using Suc.prems by (intro sift_mset) auto
  moreover have "heapify a (Suc i) n sz compare aux (put a (concat xs) m) = Some (put a (concat (sift cmp (Suc i) n xs)) m)"
    using Suc.prems by (intro heapify_array [OF assms]) auto
  ultimately show ?case using Suc uniform_mset [OF p] mset_eq_length [OF p] by simp
qed simp

lemma sort_heap_array:
  assumes "compares compare aux sz cmp" "fits n sz"
  shows "uniform sz xs \<Longrightarrow> length xs = n \<Longrightarrow> i < n \<or> n = 0 \<and> i = 0 \<Longrightarrow>
    sort_heap i a sz compare aux (put a (concat xs) m) = Some (put a (concat (unbuild cmp i xs)) m)"
proof (induction i arbitrary: xs)
  case (Suc i)
  let ?ys = "swap 1 (Suc i + 1) xs"
  have y: "mset ?ys = mset xs" using Suc.prems by (intro swap_mset [of _ n]) auto
  have z: "mset (sift cmp 1 (Suc i) ?ys) = mset ?ys" using Suc.prems by (intro sift_mset) auto
  have "do_swap a 1 (Suc i + 1) sz (put a (concat xs) m) = Some (put a (concat ?ys) m)"
    using Suc.prems assms(2) by (intro do_swap_array) auto
  moreover have "heapify a 1 (Suc i) sz compare aux (put a (concat ?ys) m) = Some (put a (concat (sift cmp 1 (Suc i) ?ys)) m)"
    using Suc.prems uniform_mset [OF y] by (intro heapify_array [OF assms]) auto
  ultimately show ?case
    using Suc uniform_mset [OF y] uniform_mset [OF z] mset_eq_length [OF y] mset_eq_length [OF z] by simp
qed simp

lemma sort_array_heap_sort:
  assumes "compares compare aux sz cmp" "fits (length xs) sz" "uniform sz xs" "bytes_at m a (concat xs)" "a \<noteq> NULL"
  shows "sort_array a (length xs) sz compare aux m = Some (put a (concat (heap_sort cmp xs)) m)"
proof -
  let ?b = "build cmp (length xs div 2) (length xs) xs"
  have b: "mset ?b = mset xs" "length ?b = length xs" using build_perm [of "length xs div 2" "length xs" xs cmp] by auto
  have "build_heap (length xs div 2) a (length xs) sz compare aux (put a (concat xs) m) = Some (put a (concat ?b) m)"
    using assms(3) by (intro build_heap_array [OF assms(1,2)]) auto
  moreover have "sort_heap (length xs - 1) a sz compare aux (put a (concat ?b) m) = Some (put a (concat (heap_sort cmp xs)) m)"
    unfolding heap_sort_def using uniform_mset [OF b(1)] assms(3) b(2)
    by (intro sort_heap_array [OF assms(1,2)]) (simp_all, cases xs, simp_all)
  ultimately show ?thesis using assms(2,5) put_bytes [OF assms(4)] by (simp add: sort_array_def fits_def)
qed

subsection \<open>Sorting\<close>

text \<open>The order of \<open>memcmp\<close> and \<open>strcmp\<close>.\<close>

definition byte_order :: "byte list \<Rightarrow> byte list \<Rightarrow> int" where
  "byte_order u v = (if u = v then 0 else if (u, v) \<in> lexord {(x, y). x < y} then - 1 else 1)"

lemma lexord_bytes:
  "trans (lexord {(x :: byte, y). x < y})" "(u, u) \<notin> lexord {(x :: byte, y). x < y}"
  "u \<noteq> v \<Longrightarrow> (u, v) \<notin> lexord {(x :: byte, y). x < y} \<Longrightarrow> (v, u) \<in> lexord {(x :: byte, y). x < y}"
proof -
  show "trans (lexord {(x :: byte, y). x < y})" by (rule lexord_transI) (auto simp: trans_def)
  show "(u, u) \<notin> lexord {(x :: byte, y). x < y}" by (rule lexord_irreflexive) auto
  show "u \<noteq> v \<Longrightarrow> (u, v) \<notin> lexord {(x :: byte, y). x < y} \<Longrightarrow> (v, u) \<in> lexord {(x :: byte, y). x < y}"
    using lexord_linear [of "{(x :: byte, y). x < y}" u v] less_linear by blast
qed

interpretation bytes: comparison byte_order
proof
  fix u v w :: "byte list"
  show "byte_order v u > 0 \<longleftrightarrow> byte_order u v < 0"
    using lexord_bytes(1) [THEN transD, of u v u] lexord_bytes(2,3) by (auto simp: byte_order_def split: if_splits)
  show "byte_order u v \<le> 0 \<Longrightarrow> byte_order v w \<le> 0 \<Longrightarrow> byte_order u w \<le> 0"
    using lexord_bytes(1) [THEN transD, of u v w] by (auto simp: byte_order_def split: if_splits)
qed

lemma memcmp_compares: "0 < sz \<Longrightarrow> compares (\<lambda>p q aux m. memcmp_loop sz p q m) aux sz byte_order"
  unfolding compares_def byte_order_def using memcmp_loop_bytes by metis

text \<open>C33: \<open>sort\<close> sorts an array in place: the memory afterwards is the one before with the array's elements
  replaced by a permutation of them that is sorted by \<open>compare\<close>, and it terminates.  The comparison is a total
  preorder on the bytes of elements, and the array lies in the address space with less than \<open>2 ^ 31\<close> elements.\<close>

theorem sort_sorts_array:
  assumes "comparison cmp" "compares compare aux sz cmp" "uniform sz xs" "bytes_at m a (concat xs)" "a \<noteq> NULL"
    "0 < sz" "length xs * sz < 2 ^ 32" "length xs < 2 ^ 31"
  shows "\<exists>ys. sort_array a (length xs) sz compare aux m = Some (put a (concat ys) m) \<and> mset ys = mset xs
     \<and> sorted_wrt (\<lambda>x y. cmp x y \<le> 0) ys"
proof -
  have "fits (length xs) sz" using assms(6-8) by (simp add: fits_def)
  from sort_array_heap_sort [OF assms(2) this assms(3-5)] show ?thesis
    using heap_sort_perm(1) comparison.heap_sort_sorted [OF assms(1)] by blast
qed

theorem sort_sorts_array_witness:
  "\<exists>ys. qsort 100 3 2 (\<lambda>p q m. memcmp_loop 2 p q m) (put 100 [9, 1, 3, 7, 3, 2] (\<lambda>_. None)) = Some (put 100 (concat ys) (put 100 [9, 1, 3, 7, 3, 2] (\<lambda>_. None)))
     \<and> mset ys = {#[9, 1], [3, 7], [3, 2]#} \<and> sorted_wrt (\<lambda>x y. byte_order x y \<le> 0) ys"
proof -
  let ?xs = "[[9, 1], [3, 7], [3, 2 :: byte]]"
  have c: "compares compare_thunk (\<lambda>p q m. memcmp_loop 2 p q m) 2 byte_order"
    using memcmp_compares [of 2] by (simp add: compares_def compare_thunk_def)
  have "bytes_at (put 100 [9, 1, 3, 7, 3, 2] (\<lambda>_. None)) 100 (concat ?xs)" using bytes_at_put [of 100 "[9, 1, 3, 7, 3, 2]"] by simp
  from sort_sorts_array [OF bytes.comparison_axioms c _ this] show ?thesis by (simp add: NULL_def qsort_def numeral_3_eq_3)
qed

subsection \<open>Searching\<close>

context comparison
begin

lemma sorted_nth: "sorted_wrt (\<lambda>x y. cmp x y \<le> 0) xs \<Longrightarrow> i \<le> j \<Longrightarrow> j < length xs \<Longrightarrow> cmp (xs ! i) (xs ! j) \<le> 0"
  by (cases "i = j") (auto simp: sorted_wrt_iff_nth_less)

text \<open>What is above or below an element of a sorted list is so for all behind or before it.\<close>

lemma sorted_above: "sorted_wrt (\<lambda>x y. cmp x y \<le> 0) xs \<Longrightarrow> i \<le> j \<Longrightarrow> j < length xs \<Longrightarrow> cmp k (xs ! j) > 0 \<Longrightarrow> cmp k (xs ! i) > 0"
  using sorted_nth [of xs i j] chain [of k "xs ! i" "xs ! j"] by force

lemma sorted_below: "sorted_wrt (\<lambda>x y. cmp x y \<le> 0) xs \<Longrightarrow> i \<le> j \<Longrightarrow> j < length xs \<Longrightarrow> cmp k (xs ! i) < 0 \<Longrightarrow> cmp k (xs ! j) < 0"
  using sorted_nth [of xs i j] chain [of "xs ! i" "xs ! j" k] flip by (metis not_less)

end

lemma search_loop_array:
  assumes o: "comparison cmp" "compares compare aux sz cmp" "uniform sz xs" "bytes_at m a (concat xs)" "bytes_at m key k" "length k = sz" "0 < sz"
    and s: "sorted_wrt (\<lambda>x y. cmp x y \<le> 0) xs"
    and l: "lo \<le> hi" "hi \<le> length xs" "\<forall>i<lo. cmp k (xs ! i) > 0" "\<forall>i<length xs. hi \<le> i \<longrightarrow> cmp k (xs ! i) < 0"
  shows "(\<exists>i<length xs. cmp k (xs ! i) = 0 \<and> search_loop key (a + lo * sz) (a + hi * sz) sz compare aux m = Some (a + i * sz))
    \<or> (\<forall>i<length xs. cmp k (xs ! i) \<noteq> 0) \<and> search_loop key (a + lo * sz) (a + hi * sz) sz compare aux m = Some NULL"
  using l
proof (induction "hi - lo" arbitrary: lo hi rule: less_induct)
  case less
  show ?case
  proof (cases "lo < hi")
    case False
    then have "cmp k (xs ! i) \<noteq> 0" if "i < length xs" for i using less.prems that by (cases "i < lo") force+
    then show ?thesis using False o(7) by (subst (2) search_loop.simps) auto
  next
    case True
    define mid where "mid = lo + (hi - lo) div 2"
    have mid: "lo \<le> mid" "mid < hi" "mid < length xs" using True less.prems(2) by (auto simp: mid_def)
    have c: "compare key (a + mid * sz) aux m = Some (cmp k (xs ! mid))"
      using o(2,3,5,6) bytes_elem [OF o(3) mid(3) o(4)] mid(3) by (auto simp: compares_def)
    have "(a + hi * sz - (a + lo * sz)) div sz = hi - lo" using o(7) True by (simp add: diff_mult_distrib [symmetric])
    then have step: "search_loop key (a + lo * sz) (a + hi * sz) sz compare aux m =
        (if cmp k (xs ! mid) < 0 then search_loop key (a + lo * sz) (a + mid * sz) sz compare aux m
         else if cmp k (xs ! mid) > 0 then search_loop key (a + Suc mid * sz) (a + hi * sz) sz compare aux m else Some (a + mid * sz))"
      using True o(7) c by (subst search_loop.simps) (simp add: mid_def algebra_simps Let_def)
    consider "cmp k (xs ! mid) < 0" | "cmp k (xs ! mid) > 0" | "cmp k (xs ! mid) = 0" by linarith
    then show ?thesis
    proof cases
      case 1
      then have "\<forall>i<length xs. mid \<le> i \<longrightarrow> cmp k (xs ! i) < 0" using comparison.sorted_below [OF o(1) s] by blast
      then show ?thesis using less.hyps [of mid lo] less.prems mid 1 step by simp
    next
      case 2
      then have "\<forall>i<Suc mid. cmp k (xs ! i) > 0" using comparison.sorted_above [OF o(1) s _ mid(3)] by (simp add: less_Suc_eq_le)
      moreover have "search_loop key (a + lo * sz) (a + hi * sz) sz compare aux m = search_loop key (a + Suc mid * sz) (a + hi * sz) sz compare aux m"
        using 2 step by simp
      ultimately show ?thesis using less.hyps [of hi "Suc mid"] less.prems mid by simp
    next
      case 3
      then show ?thesis using mid step by auto
    qed
  qed
qed

text \<open>C34: \<open>binary_search\<close> returns the address of an element of a sorted array that is equal to the key, and a null
  pointer exactly when there is none.\<close>

theorem binary_search_finds:
  assumes "comparison cmp" "compares compare aux sz cmp" "uniform sz xs" "bytes_at m a (concat xs)" "bytes_at m key k" "length k = sz" "0 < sz"
    "sorted_wrt (\<lambda>x y. cmp x y \<le> 0) xs"
  shows "(\<exists>i<length xs. cmp k (xs ! i) = 0 \<and> binary_search key a (length xs) sz compare aux m = Some (a + i * sz))
    \<or> (\<forall>i<length xs. cmp k (xs ! i) \<noteq> 0) \<and> binary_search key a (length xs) sz compare aux m = Some NULL"
  using search_loop_array [OF assms, of 0 "length xs"] by (simp add: binary_search_def mult.commute)

theorem binary_search_finds_witness:
  "bsearch 50 100 3 1 (\<lambda>p q m. memcmp_loop 1 p q m) (put 50 [7] (put 100 [3, 7, 9] (\<lambda>_. None))) = Some 101"
proof -
  let ?m = "put 50 [7] (put 100 [3, 7, 9] (\<lambda>_. None))"
  have c: "compares compare_thunk (\<lambda>p q m. memcmp_loop 1 p q m) 1 byte_order"
    using memcmp_compares [of 1] by (simp add: compares_def compare_thunk_def)
  have b: "bytes_at ?m 100 (concat [[3], [7], [9]])" "bytes_at ?m 50 [7]" by (simp_all add: put_def)
  have o: "byte_order [3] [7] = - 1" "byte_order [7] [9] = - 1" "byte_order [3] [9] = - 1" "byte_order [7] [3] = 1" by (simp_all add: byte_order_def)
  from binary_search_finds [OF bytes.comparison_axioms c _ b] o show ?thesis
    by (auto simp: bsearch_def numeral_3_eq_3 less_Suc_eq byte_order_def)
qed

end
