(* ===== verification/StdIO.thy ===== *)
theory StdIO imports StdLib begin

section \<open>lib/stdio.c: formatted output\<close>

text \<open>
  A format is the list of the characters from the current position on, the terminating null character
  included; reading behind it does not come back.  The arguments behind the format are the 32-bit words of
  the caller's stack; \<open>va_arg\<close> takes one, or two for a 64-bit type.  The function \<open>output\<close> that receives the
  characters, with its \<open>aux\<close>, is a sink: it changes the memory and its own state.
\<close>

type_synonym 'o sink = "byte \<Rightarrow> mem \<times> 'o \<Rightarrow> (mem \<times> 'o) option"

definition cstr :: "string \<Rightarrow> byte list" where
  "cstr s = map (\<lambda>c. word_of_nat (of_char c)) s @ [0]"

definition peek :: "byte list \<Rightarrow> byte option" where
  "peek f = (case f of [] \<Rightarrow> None | c # _ \<Rightarrow> Some c)"

fun va32 :: "u32 list \<Rightarrow> (u32 \<times> u32 list) option" where
  "va32 (w # ws) = Some (w, ws)"
| "va32 [] = None"

fun va64 :: "u32 list \<Rightarrow> (64 word \<times> u32 list) option" where
  "va64 (l # h # ws) = Some (push_bit 32 (ucast h) OR ucast l, ws)"
| "va64 _ = None"

subsection \<open>Conversions\<close>

definition MINUS :: u32 where "MINUS = 1"
definition PLUS :: u32 where "PLUS = 2"
definition SPACE :: u32 where "SPACE = 4"
definition POUND :: u32 where "POUND = 8"
definition ZERO :: u32 where "ZERO = 16"
definition GROUP :: u32 where "GROUP = 32"

datatype conv_type = CHAR_HH | SHORT | INT_DEFAULT | INTMAX | LONG | LONGLONG | PTRDIFFT | SIZET

record printf_conversion =
  cflags :: u32
  cwidth :: int
  cprecision :: int
  ctype :: conv_type

definition flag :: "printf_conversion \<Rightarrow> u32 \<Rightarrow> bool" where
  "flag c f = (cflags c AND f \<noteq> 0)"

record integer_base =
  base :: nat
  digits :: "byte list"
  xchar :: byte
  group :: nat

definition base_d :: integer_base where
  "base_d = \<lparr>base = 10, digits = cstr ''0123456789'', xchar = 0, group = 3\<rparr>"
definition base_o :: integer_base where
  "base_o = \<lparr>base = 8, digits = cstr ''01234567'', xchar = 0, group = 3\<rparr>"
definition base_x :: integer_base where
  "base_x = \<lparr>base = 16, digits = cstr ''0123456789abcdef'', xchar = 120, group = 4\<rparr>"
definition base_X :: integer_base where
  "base_X = \<lparr>base = 16, digits = cstr ''0123456789ABCDEF'', xchar = 88, group = 4\<rparr>"

fun parse_flags :: "u32 \<Rightarrow> byte list \<Rightarrow> (u32 \<times> byte list) option" where
  "parse_flags fl [] = None"
| "parse_flags fl (ch # f) =
     (if ch = 45 then parse_flags (fl OR MINUS) f
      else if ch = 43 then parse_flags (fl OR PLUS) f
      else if ch = 32 then parse_flags (fl OR SPACE) f
      else if ch = 35 then parse_flags (fl OR POUND) f
      else if ch = 48 then parse_flags (fl OR ZERO) f
      else if ch = 39 then parse_flags (fl OR GROUP) f
      else Some (fl, ch # f))"

fun parse_number :: "int \<Rightarrow> byte list \<Rightarrow> (int \<times> byte list) option" where
  "parse_number v [] = None"
| "parse_number v (ch # f) =
     (if isdigit (char_arg ch) then parse_number (int32 (int32 (int32 (v * 10) + char_arg ch) - 48)) f else Some (v, ch # f))"

text \<open>A width or precision: the next argument for \<open>*\<close>, or a number.\<close>

definition parse_amount :: "byte list \<Rightarrow> u32 list \<Rightarrow> (int \<times> byte list \<times> u32 list) option" where
  "parse_amount f args = do {
     ch \<leftarrow> peek f;
     if ch = 42 then do { (w, args) \<leftarrow> va32 args; Some (sint w, tl f, args) }
     else do { (v, f) \<leftarrow> parse_number 0 f; Some (v, f, args) } }"

definition parse_precision :: "byte list \<Rightarrow> u32 list \<Rightarrow> (int \<times> byte list \<times> u32 list) option" where
  "parse_precision f args = do {
     ch \<leftarrow> peek f;
     if ch = 46 then do {
       (v, f, args) \<leftarrow> parse_amount (tl f) args;
       Some (if v < 0 then - 1 else v, f, args) }
     else Some (- 1, f, args) }"

definition parse_type :: "byte list \<Rightarrow> (conv_type \<times> byte list) option" where
  "parse_type f = do {
     ch \<leftarrow> peek f;
     if ch = 104 then do { ch \<leftarrow> peek (tl f); Some (if ch = 104 then (CHAR_HH, tl (tl f)) else (SHORT, tl f)) }
     else if ch = 106 then Some (INTMAX, tl f)
     else if ch = 108 then do { ch \<leftarrow> peek (tl f); Some (if ch = 108 then (LONGLONG, tl (tl f)) else (LONG, tl f)) }
     else if ch = 116 then Some (PTRDIFFT, tl f)
     else if ch = 122 then Some (SIZET, tl f)
     else Some (INT_DEFAULT, f) }"

definition parse_conversion :: "byte list \<Rightarrow> u32 list \<Rightarrow> (byte list \<times> printf_conversion \<times> u32 list) option" where
  "parse_conversion f args = do {
     (fl, f) \<leftarrow> parse_flags 0 f;
     let fl = (if fl AND MINUS \<noteq> 0 then fl AND NOT ZERO else fl);
     let fl = (if fl AND PLUS \<noteq> 0 then fl AND NOT SPACE else fl);
     (width, f, args) \<leftarrow> parse_amount f args;
     let fl = (if width < 0 then fl OR MINUS else fl);
     let width = (if width < 0 then int32 (- width) else width);
     (precision, f, args) \<leftarrow> parse_precision f args;
     let fl = (if precision \<ge> 0 then fl AND NOT ZERO else fl);
     (type, f) \<leftarrow> parse_type f;
     Some (f, \<lparr>cflags = fl, cwidth = width, cprecision = precision, ctype = type\<rparr>, args) }"

subsection \<open>Output\<close>

fun output_dup :: "byte \<Rightarrow> nat \<Rightarrow> 'o sink \<Rightarrow> mem \<times> 'o \<Rightarrow> (mem \<times> 'o) option" where
  "output_dup ch 0 out st = Some st"
| "output_dup ch (Suc n) out st = do { st \<leftarrow> out ch st; output_dup ch n out st }"

fun output_list :: "byte list \<Rightarrow> 'o sink \<Rightarrow> mem \<times> 'o \<Rightarrow> (mem \<times> 'o) option" where
  "output_list [] out st = Some st"
| "output_list (ch # cs) out st = do { st \<leftarrow> out ch st; output_list cs out st }"

text \<open>The buffer of \<open>format_integer\<close> has 64 bytes.\<close>

definition push_digit :: "byte \<Rightarrow> byte list \<Rightarrow> byte list option" where
  "push_digit ch buf = (if length buf < 64 then Some (buf @ [ch]) else None)"

partial_function (option) digit_loop :: "integer_base \<Rightarrow> bool \<Rightarrow> nat \<Rightarrow> nat \<Rightarrow> byte list \<Rightarrow> byte list option" where
  "digit_loop b grouped v digit_cnt buf =
     (if v > 0 then do {
        buf \<leftarrow> (if grouped \<and> digit_cnt > 0 \<and> digit_cnt mod group b = 0 then push_digit 44 buf else Some buf);
        buf \<leftarrow> push_digit (digits b ! (v mod base b)) buf;
        digit_loop b grouped (v div base b) (digit_cnt + 1) buf }
      else Some buf)"

function pad_zeros :: "int \<Rightarrow> byte list \<Rightarrow> byte list" where
  "pad_zeros precision buf = (if int (length buf) < precision \<and> length buf < 63 then pad_zeros precision (buf @ [48]) else buf)"
  by pat_completeness auto
termination by (relation "measure (\<lambda>(p, buf). 63 - length buf)") auto

declare pad_zeros.simps [simp del]

definition sign_char :: "bool \<Rightarrow> bool \<Rightarrow> printf_conversion \<Rightarrow> byte" where
  "sign_char is_signed negative c =
     (if is_signed then
        if flag c PLUS then (if negative then 45 else 43)
        else if flag c SPACE then (if negative then 45 else 32)
        else if negative then 45 else 0
      else 0)"

definition format_integer ::
  "64 word \<Rightarrow> bool \<Rightarrow> bool \<Rightarrow> integer_base \<Rightarrow> printf_conversion \<Rightarrow> 'o sink \<Rightarrow> mem \<times> 'o \<Rightarrow> (mem \<times> 'o) option" where
  "format_integer v is_signed negative b c out st = do {
     let sign = sign_char is_signed negative c;
     let x = (if flag c POUND \<and> v \<noteq> 0 then xchar b else 0);
     buf \<leftarrow> digit_loop b (flag c GROUP) (unat v) 0 [];
     let buf = pad_zeros (if cprecision c < 0 then 1 else cprecision c) buf;
     buf \<leftarrow> (if flag c POUND \<and> base b = 8 \<and> (buf = [] \<or> last buf \<noteq> 48) then push_digit 48 buf else Some buf);
     let pad_cnt = int32 (int32 (int32 (cwidth c - int (length buf)) - (if x \<noteq> 0 then 2 else 0)) - (if sign \<noteq> 0 then 1 else 0));
     let pad = nat (if pad_cnt < 0 then 0 else pad_cnt);
     st \<leftarrow> (if cflags c AND (MINUS OR ZERO) = 0 then output_dup 32 pad out st else Some st);
     st \<leftarrow> (if sign \<noteq> 0 then out sign st else Some st);
     st \<leftarrow> (if x \<noteq> 0 then do { st \<leftarrow> out 48 st; out x st } else Some st);
     st \<leftarrow> (if flag c ZERO then output_dup 48 pad out st else Some st);
     st \<leftarrow> output_list (rev buf) out st;
     if flag c MINUS then output_dup 32 pad out st else Some st }"

text \<open>\<open>get i\<close> reads \<open>string[i]\<close>; \<open>n\<close> characters are left from position \<open>i\<close> on.\<close>

fun output_string :: "(nat \<Rightarrow> mem \<Rightarrow> byte option) \<Rightarrow> nat \<Rightarrow> nat \<Rightarrow> 'o sink \<Rightarrow> mem \<times> 'o \<Rightarrow> (mem \<times> 'o) option" where
  "output_string get i 0 out st = Some st"
| "output_string get i (Suc n) out st = do {
     ch \<leftarrow> get i (fst st);
     st \<leftarrow> out ch st;
     output_string get (i + 1) n out st }"

definition format_string :: "(nat \<Rightarrow> mem \<Rightarrow> byte option) \<Rightarrow> int \<Rightarrow> printf_conversion \<Rightarrow> 'o sink \<Rightarrow> mem \<times> 'o \<Rightarrow> (mem \<times> 'o) option" where
  "format_string get len c out st = do {
     st \<leftarrow> (if cwidth c > len \<and> \<not> flag c MINUS then output_dup 32 (nat (int32 (cwidth c - len) mod 2 ^ 32)) out st else Some st);
     st \<leftarrow> output_string get 0 (nat len) out st;
     if cwidth c > len \<and> flag c MINUS then output_dup 32 (nat (int32 (cwidth c - len) mod 2 ^ 32)) out st else Some st }"

subsection \<open>The loop over the format\<close>

definition signed_arg :: "conv_type \<Rightarrow> u32 list \<Rightarrow> (int \<times> u32 list) option" where
  "signed_arg t args = (case t of
     CHAR_HH \<Rightarrow> do { (w, args) \<leftarrow> va32 args; Some (signed_take_bit 7 (sint w), args) }
   | SHORT \<Rightarrow> do { (w, args) \<leftarrow> va32 args; Some (signed_take_bit 15 (sint w), args) }
   | INTMAX \<Rightarrow> do { (w, args) \<leftarrow> va64 args; Some (sint w, args) }
   | LONGLONG \<Rightarrow> do { (w, args) \<leftarrow> va64 args; Some (sint w, args) }
   | SIZET \<Rightarrow> do { (w, args) \<leftarrow> va32 args; Some (if uint w > (2 ^ 32 - 1) div 2 then uint w - (2 ^ 32 - 1) - 1 else uint w, args) }
   | _ \<Rightarrow> do { (w, args) \<leftarrow> va32 args; Some (sint w, args) })"

definition unsigned_arg :: "conv_type \<Rightarrow> u32 list \<Rightarrow> (64 word \<times> u32 list) option" where
  "unsigned_arg t args = (case t of
     CHAR_HH \<Rightarrow> do { (w, args) \<leftarrow> va32 args; Some (take_bit 8 (ucast w), args) }
   | SHORT \<Rightarrow> do { (w, args) \<leftarrow> va32 args; Some (take_bit 16 (ucast w), args) }
   | INTMAX \<Rightarrow> va64 args
   | LONGLONG \<Rightarrow> va64 args
   | PTRDIFFT \<Rightarrow> do { (w, args) \<leftarrow> va32 args; Some (scast w AND (push_bit 1 (2 ^ 31 - 1) OR 1), args) }
   | _ \<Rightarrow> do { (w, args) \<leftarrow> va32 args; Some (ucast w, args) })"

text \<open>The conversions that take an argument.\<close>

definition convert :: "byte \<Rightarrow> printf_conversion \<Rightarrow> u32 list \<Rightarrow> 'o sink \<Rightarrow> mem \<times> 'o \<Rightarrow> (u32 list \<times> mem \<times> 'o) option" where
  "convert ch c args out st =
     (if ch = 100 \<or> ch = 105 then do {
        (v, args) \<leftarrow> signed_arg (ctype c) args;
        st \<leftarrow> format_integer (word_of_int (if v < 0 then int64 (- v) else v)) True (v < 0) base_d c out st;
        Some (args, st) }
      else if ch = 111 \<or> ch = 117 \<or> ch = 120 \<or> ch = 88 then do {
        (v, args) \<leftarrow> unsigned_arg (ctype c) args;
        st \<leftarrow> format_integer v False False (if ch = 111 then base_o else if ch = 117 then base_d else if ch = 120 then base_x else base_X) c out st;
        Some (args, st) }
      else if ch = 99 then do {
        (w, args) \<leftarrow> va32 args;
        st \<leftarrow> format_string (\<lambda>i m. if i = 0 then Some (ucast w) else None) 1 c out st;
        Some (args, st) }
      else if ch = 115 then do {
        (w, args) \<leftarrow> va32 args;
        let maxlen = nat (cprecision c mod 2 ^ 32);
        st \<leftarrow> (if unat w = NULL then do {
             n \<leftarrow> strnlen 1 maxlen (put 1 (cstr ''(null)'') (\<lambda>_. None));
             format_string (\<lambda>i m. Some (cstr ''(null)'' ! i)) (int32 (int n)) c out st }
           else do {
             n \<leftarrow> strnlen (unat w) maxlen (fst st);
             format_string (\<lambda>i m. load m (unat w + i)) (int32 (int n)) c out st });
        Some (args, st) }
      else do {
        (w, args) \<leftarrow> va32 args;
        st \<leftarrow> format_integer (ucast w) False False base_x (c\<lparr>cflags := POUND\<rparr>) out st;
        Some (args, st) })"

definition known_conversion :: "byte \<Rightarrow> bool" where
  "known_conversion ch = (ch \<in> set [100, 105, 111, 117, 120, 88, 99, 115, 112])"

definition unsupported :: "byte \<Rightarrow> bool" where
  "unsupported ch = (ch \<in> set [102, 101, 69, 103, 71, 110])"

text \<open>\<open>__vprintf\<close>; \<open>__printf\<close> is a call of it with the arguments that follow.\<close>

partial_function (option) do_vprintf :: "byte list \<Rightarrow> u32 list \<Rightarrow> 'o sink \<Rightarrow> mem \<times> 'o \<Rightarrow> (mem \<times> 'o) option" where
  "do_vprintf f args out st = do {
     ch \<leftarrow> peek f;
     if ch = 0 then Some st
     else if ch \<noteq> 37 then do { st \<leftarrow> out ch st; do_vprintf (tl f) args out st }
     else do {
       ch \<leftarrow> peek (tl f);
       if ch = 37 then do { st \<leftarrow> out 37 st; do_vprintf (tl (tl f)) args out st }
       else do {
         (f, c, args) \<leftarrow> parse_conversion (tl f) args;
         ch \<leftarrow> peek f;
         (args, st) \<leftarrow>
           (if known_conversion ch then convert ch c args out st
            else do {
              st \<leftarrow> do_vprintf (cstr (if unsupported ch then ''<<no %%%c in kernel>>'' else ''<<no %%%c conversion>>'')) [scast ch] out st;
              Some (args, st) });
         do_vprintf (tl f) args out st } } }"

subsection \<open>Output to a buffer\<close>

record vsnprintf_aux =
  vp :: ptr
  vlength :: int
  max_length :: int

definition vsnprintf_helper :: "vsnprintf_aux sink" where
  "vsnprintf_helper ch = (\<lambda>(m, aux).
     let aux' = aux\<lparr>vlength := int32 (vlength aux + 1)\<rparr> in
     if vlength aux < max_length aux then do { m \<leftarrow> store (vp aux) ch m; Some (m, aux'\<lparr>vp := vp aux + 1\<rparr>) } else Some (m, aux'))"

definition vsnprintf :: "ptr \<Rightarrow> nat \<Rightarrow> byte list \<Rightarrow> u32 list \<Rightarrow> mem \<Rightarrow> (int \<times> mem) option" where
  "vsnprintf buffer buf_size f args m = do {
     (m, aux) \<leftarrow> do_vprintf f args vsnprintf_helper
       (m, \<lparr>vp = buffer, vlength = 0, max_length = (if buf_size > 0 then int32 (int (buf_size - 1)) else 0)\<rparr>);
     m \<leftarrow> (if buf_size > 0 then store (vp aux) 0 m else Some m);
     Some (vlength aux, m) }"

definition snprintf :: "ptr \<Rightarrow> nat \<Rightarrow> byte list \<Rightarrow> u32 list \<Rightarrow> mem \<Rightarrow> (int \<times> mem) option" where
  "snprintf buffer buf_size f args m = vsnprintf buffer buf_size f args m"

declare digit_loop.simps [code] do_vprintf.simps [code]

end
