(* ===== verification/StdIOTheorems.thy ===== *)
theory StdIOTheorems imports StdIO begin

section \<open>What formatted output writes\<close>

text \<open>
  A run with one sink is followed by a run with another one whenever the sinks agree step by step
  (\<open>simulates\<close>).  With a sink that also counts the characters this gives the bounds of \<open>vsnprintf\<close>.  On the
  text of a decimal conversion \<open>atoi\<close> is the inverse of \<open>snprintf\<close>.
\<close>

definition simulates :: "(mem \<times> 'o \<Rightarrow> mem \<times> 'p \<Rightarrow> bool) \<Rightarrow> 'o sink \<Rightarrow> 'p sink \<Rightarrow> bool" where
  "simulates R out out' = ((\<forall>s t. R s t \<longrightarrow> fst s = fst t)
     \<and> (\<forall>ch s t s'. R s t \<longrightarrow> out ch s = Some s' \<longrightarrow> (\<exists>t'. out' ch t = Some t' \<and> R s' t')))"

text \<open>A run \<open>F\<close> of a routine on one sink is followed by a run \<open>G\<close> on the other.\<close>

definition follows :: "(mem \<times> 'o \<Rightarrow> mem \<times> 'p \<Rightarrow> bool) \<Rightarrow> (mem \<times> 'o \<Rightarrow> (mem \<times> 'o) option) \<Rightarrow> (mem \<times> 'p \<Rightarrow> (mem \<times> 'p) option) \<Rightarrow> bool" where
  "follows R F G = (\<forall>s t s'. R s t \<longrightarrow> F s = Some s' \<longrightarrow> (\<exists>t'. G t = Some t' \<and> R s' t'))"

lemma followsI: "(\<And>s t s'. R s t \<Longrightarrow> F s = Some s' \<Longrightarrow> \<exists>t'. G t = Some t' \<and> R s' t') \<Longrightarrow> follows R F G"
  unfolding follows_def by blast

lemma followsD: "follows R F G \<Longrightarrow> R s t \<Longrightarrow> F s = Some s' \<Longrightarrow> \<exists>t'. G t = Some t' \<and> R s' t'"
  unfolding follows_def by blast

lemma follows_Some: "follows R Some Some"
  by (rule followsI) simp

lemma follows_bind:
  assumes "follows R F G" "follows R F' G'"
  shows "follows R (\<lambda>s. F s \<bind> F') (\<lambda>t. G t \<bind> G')"
proof (rule followsI)
  fix s t s'
  assume "R s t" "F s \<bind> F' = Some s'"
  then obtain s1 where "F s = Some s1" "F' s1 = Some s'" by (auto simp: bind_Some_iff)
  moreover from followsD [OF assms(1) \<open>R s t\<close> this(1)] obtain t1 where "G t = Some t1" "R s1 t1" by blast
  ultimately show "\<exists>t'. G t \<bind> G' = Some t' \<and> R s' t'" using followsD [OF assms(2)] by auto
qed

lemma follows_if: "(c \<Longrightarrow> follows R F G) \<Longrightarrow> (\<not> c \<Longrightarrow> follows R F' G') \<Longrightarrow> follows R (\<lambda>s. if c then F s else F' s) (\<lambda>t. if c then G t else G' t)"
  by (cases c) simp_all

lemma follows_pure: "(\<And>x. follows R (F x) (G x)) \<Longrightarrow> follows R (\<lambda>s. e \<bind> (\<lambda>x. F x s)) (\<lambda>t. e \<bind> (\<lambda>x. G x t))"
  by (cases e) (simp_all add: follows_def)

lemma simulates_mem: "simulates R out out' \<Longrightarrow> R s t \<Longrightarrow> fst s = fst t"
  unfolding simulates_def by blast

lemma follows_sink: "simulates R out out' \<Longrightarrow> follows R (out ch) (out' ch)"
  unfolding simulates_def follows_def by blast

lemma output_dup_follows: "simulates R out out' \<Longrightarrow> follows R (output_dup ch n out) (output_dup ch n out')"
proof (induction n)
  case (Suc n)
  then show ?case unfolding output_dup.simps using follows_bind [OF follows_sink] by blast
qed (simp add: follows_def)

lemma output_list_follows: "simulates R out out' \<Longrightarrow> follows R (output_list cs out) (output_list cs out')"
proof (induction cs)
  case (Cons c cs)
  then show ?case unfolding output_list.simps using follows_bind [OF follows_sink] by blast
qed (simp add: follows_def)

lemma output_string_follows: "simulates R out out' \<Longrightarrow> follows R (output_string get i n out) (output_string get i n out')"
proof (induction n arbitrary: i)
  case (Suc n)
  show ?case
  proof (rule followsI)
    fix s t s'
    assume r: "R s t" "output_string get i (Suc n) out s = Some s'"
    then have "fst s = fst t" using simulates_mem Suc.prems by blast
    moreover from r(2) obtain ch where c: "get i (fst s) = Some ch" "out ch s \<bind> output_string get (i + 1) n out = Some s'"
      by (auto simp: bind_Some_iff)
    moreover have "follows R (\<lambda>s. out ch s \<bind> output_string get (i + 1) n out) (\<lambda>t. out' ch t \<bind> output_string get (i + 1) n out')"
      using Suc follows_bind [OF follows_sink] by blast
    ultimately show "\<exists>t'. output_string get i (Suc n) out' t = Some t' \<and> R s' t'" using followsD r(1) by simp
  qed
qed (simp add: follows_def)

lemmas follows_rules = follows_if follows_bind follows_Some output_dup_follows output_list_follows output_string_follows follows_sink

lemma format_string_follows: "simulates R out out' \<Longrightarrow> follows R (format_string get len c out) (format_string get len c out')"
  unfolding format_string_def by (intro follows_rules; assumption)

lemma format_integer_follows: "simulates R out out' \<Longrightarrow> follows R (format_integer v sg neg b c out) (format_integer v sg neg b c out')"
  unfolding format_integer_def Let_def by (intro follows_pure follows_rules; assumption)

text \<open>The same for runs that return something besides.\<close>

definition follows2 ::
  "(mem \<times> 'o \<Rightarrow> mem \<times> 'p \<Rightarrow> bool) \<Rightarrow> (mem \<times> 'o \<Rightarrow> ('x \<times> mem \<times> 'o) option) \<Rightarrow> (mem \<times> 'p \<Rightarrow> ('x \<times> mem \<times> 'p) option) \<Rightarrow> bool" where
  "follows2 R F G = (\<forall>s t x s'. R s t \<longrightarrow> F s = Some (x, s') \<longrightarrow> (\<exists>t'. G t = Some (x, t') \<and> R s' t'))"

lemma follows2D: "follows2 R F G \<Longrightarrow> R s t \<Longrightarrow> F s = Some (x, s') \<Longrightarrow> \<exists>t'. G t = Some (x, t') \<and> R s' t'"
  unfolding follows2_def by blast

lemma follows2_return: "follows R F G \<Longrightarrow> follows2 R (\<lambda>s. F s \<bind> (\<lambda>s. Some (x, s))) (\<lambda>t. G t \<bind> (\<lambda>t. Some (x, t)))"
  unfolding follows_def follows2_def by (fastforce simp: bind_Some_iff)

lemma follows2_if:
  "(c \<Longrightarrow> follows2 R F G) \<Longrightarrow> (\<not> c \<Longrightarrow> follows2 R F' G') \<Longrightarrow> follows2 R (\<lambda>s. if c then F s else F' s) (\<lambda>t. if c then G t else G' t)"
  by (cases c) simp_all

lemma follows2_pair:
  "(\<And>x y. follows2 R (F x y) (G x y)) \<Longrightarrow> follows2 R (\<lambda>s. e \<bind> (\<lambda>(x, y). F x y s)) (\<lambda>t. e \<bind> (\<lambda>(x, y). G x y t))"
  by (cases e) (auto simp: follows2_def)

lemma follows_mem:
  "simulates R out out' \<Longrightarrow> (\<And>n. follows R (F n) (G n)) \<Longrightarrow> follows R (\<lambda>s. h (fst s) \<bind> (\<lambda>n. F n s)) (\<lambda>t. h (fst t) \<bind> (\<lambda>n. G n t))"
  by (rule followsI) (use simulates_mem followsD in \<open>fastforce simp: bind_Some_iff\<close>)

lemma convert_follows:
  assumes "simulates R out out'"
  shows "follows2 R (convert ch c args out) (convert ch c args out')"
  unfolding convert_def [abs_def] Let_def
  by (intro follows2_if follows2_pair follows2_return follows_if follows_pure follows_mem [OF assms]
      format_integer_follows format_string_follows assms)

lemma follows2_bind:
  assumes "follows2 R F G" "\<And>x. follows R (F' x) (G' x)"
  shows "follows R (\<lambda>s. F s \<bind> (\<lambda>(x, s). F' x s)) (\<lambda>t. G t \<bind> (\<lambda>(x, t). G' x t))"
proof (rule followsI)
  fix s t s'
  assume "R s t" "F s \<bind> (\<lambda>(x, s). F' x s) = Some s'"
  then obtain x s1 where "F s = Some (x, s1)" "F' x s1 = Some s'" by (auto simp: bind_Some_iff)
  moreover from follows2D [OF assms(1) \<open>R s t\<close> this(1)] obtain t1 where "G t = Some (x, t1)" "R s1 t1" by blast
  ultimately show "\<exists>t'. G t \<bind> (\<lambda>(x, t). G' x t) = Some t' \<and> R s' t'" using followsD [OF assms(2)] by auto
qed

lemma follows_triple:
  "(\<And>x y z. follows R (F x y z) (G x y z)) \<Longrightarrow> follows R (\<lambda>s. e \<bind> (\<lambda>(x, y, z). F x y z s)) (\<lambda>t. e \<bind> (\<lambda>(x, y, z). G x y z t))"
  by (cases e) (auto simp: follows_def)

text \<open>One turn of the loop over the format.\<close>

definition vprintf_turn :: "(byte list \<Rightarrow> u32 list \<Rightarrow> mem \<times> 'o \<Rightarrow> (mem \<times> 'o) option) \<Rightarrow> byte list \<Rightarrow> u32 list \<Rightarrow> 'o sink
    \<Rightarrow> mem \<times> 'o \<Rightarrow> (mem \<times> 'o) option" where
  "vprintf_turn rec f args out st = do {
     ch \<leftarrow> peek f;
     if ch = 0 then Some st
     else if ch \<noteq> 37 then do { st \<leftarrow> out ch st; rec (tl f) args st }
     else do {
       ch \<leftarrow> peek (tl f);
       if ch = 37 then do { st \<leftarrow> out 37 st; rec (tl (tl f)) args st }
       else do {
         (f, c, args) \<leftarrow> parse_conversion (tl f) args;
         ch \<leftarrow> peek f;
         (args, st) \<leftarrow>
           (if known_conversion ch then convert ch c args out st
            else do {
              st \<leftarrow> rec (cstr (if unsupported ch then ''<<no %%%c in kernel>>'' else ''<<no %%%c conversion>>'')) [scast ch] st;
              Some (args, st) });
         rec (tl f) args st } } }"

lemma do_vprintf_turn: "do_vprintf f args out st = vprintf_turn (\<lambda>f args. do_vprintf f args out) f args out st"
  unfolding vprintf_turn_def by (rule do_vprintf.simps)

lemma vprintf_turn_follows:
  assumes sim: "simulates R out out'" and rec: "\<And>f args. follows R (rec f args) (rec' f args)"
  shows "follows R (vprintf_turn rec f args out) (vprintf_turn rec' f args out')"
proof -
  note r = follows_pure follows_if follows_Some follows_bind [OF follows_sink [OF sim]] rec follows_triple
    follows2_bind follows2_if follows2_return convert_follows [OF sim]
  show ?thesis unfolding vprintf_turn_def [abs_def] by (intro r)
qed

lemma do_vprintf_follows:
  assumes "do_vprintf f args out s = Some s'" "simulates R out out'" "R s t"
  shows "\<exists>t'. do_vprintf f args out' t = Some t' \<and> R s' t'"
proof -
  let ?P = "\<lambda>f args out s s'. \<forall>t. simulates R out out' \<longrightarrow> R s t \<longrightarrow> (\<exists>t'. do_vprintf f args out' t = Some t' \<and> R s' t')"
  have "?P f args out s s'"
  proof (rule do_vprintf.raw_induct [where P = ?P, OF _ assms(1)], goal_cases)
    case (1 rec f args out s s')
    have turn: "vprintf_turn (\<lambda>f args. rec f args out) f args out s = Some s'" using 1(2) unfolding vprintf_turn_def .
    have "\<exists>t'. do_vprintf f args out' t = Some t' \<and> R s' t'" if sim: "simulates R out out'" and st: "R s t" for t
      by (subst do_vprintf_turn, rule followsD [OF vprintf_turn_follows [OF sim] st turn], rule followsI) (use 1(1) sim in blast)
    then show ?case by blast
  qed
  then show ?thesis using assms(2,3) by blast
qed

subsection \<open>Output to a buffer\<close>

text \<open>A sink that also keeps the characters.\<close>

definition logged :: "'o sink \<Rightarrow> ('o \<times> byte list) sink" where
  "logged out ch = (\<lambda>(m, a, cs). do { (m, a) \<leftarrow> out ch (m, a); Some (m, a, cs @ [ch]) })"

definition vsnprintf_start :: "ptr \<Rightarrow> nat \<Rightarrow> vsnprintf_aux" where
  "vsnprintf_start buffer n = \<lparr>vp = buffer, vlength = 0, max_length = (if n > 0 then int32 (int (n - 1)) else 0)\<rparr>"

text \<open>What has been written while the length has not overflowed.\<close>

definition in_buffer :: "ptr \<Rightarrow> nat \<Rightarrow> mem \<Rightarrow> mem \<times> vsnprintf_aux \<times> byte list \<Rightarrow> bool" where
  "in_buffer buffer n m0 = (\<lambda>(m, aux, cs). length cs < 2 ^ 31 \<longrightarrow>
     m = put buffer (take n cs) m0 \<and> aux = \<lparr>vp = buffer + min n (length cs), vlength = int (length cs), max_length = int n\<rparr>)"

lemma put_end: "(put p bs m)(p + length bs \<mapsto> b) = put p (bs @ [b]) m"
  by (auto simp: put_def fun_eq_iff nth_append)

lemma in_buffer_step:
  assumes "in_buffer buffer n m0 s" "logged vsnprintf_helper ch s = Some s'"
  shows "in_buffer buffer n m0 s'"
proof -
  obtain m aux cs where s: "s = (m, aux, cs)" by (cases s)
  show ?thesis
  proof (cases "length cs + 1 < 2 ^ 31")
    case True
    then have b: "m = put buffer (take n cs) m0" "aux = \<lparr>vp = buffer + min n (length cs), vlength = int (length cs), max_length = int n\<rparr>"
      using assms(1) by (simp_all add: s in_buffer_def)
    have i: "int32 (int (length cs) + 1) = int (length cs) + 1" using True by (intro int32_id) auto
    show ?thesis
    proof (cases "length cs < n")
      case True
      then show ?thesis
        using assms(2) put_end [of buffer cs m0 ch] i
        by (auto simp: s b logged_def vsnprintf_helper_def in_buffer_def bind_Some_iff store_def Let_def split: option.splits)
    next
      case False
      then show ?thesis
        using assms(2) i by (auto simp: s b logged_def vsnprintf_helper_def in_buffer_def Let_def)
    qed
  next
    case False
    then show ?thesis using assms(2) by (auto simp: s logged_def in_buffer_def bind_Some_iff)
  qed
qed

lemma logged_simulates:
  assumes "\<And>ch s s'. I s \<Longrightarrow> logged out ch s = Some s' \<Longrightarrow> I s'"
  shows "simulates (\<lambda>s t. fst s = fst t \<and> fst (snd s) = snd t \<and> I s) (logged out) out"
  unfolding simulates_def
proof (intro conjI allI impI)
  fix ch s t s'
  assume r: "fst s = fst t \<and> fst (snd s) = snd t \<and> I s" and l: "logged out ch s = Some s'"
  moreover from l have "\<exists>m a. out ch (fst s, fst (snd s)) = Some (m, a) \<and> s' = (m, a, snd (snd s) @ [ch])"
    by (auto simp: logged_def bind_Some_iff split: prod.splits)
  ultimately show "\<exists>t'. out ch t = Some t' \<and> fst s' = fst t' \<and> fst (snd s') = snd t' \<and> I s'" using assms by fastforce
qed simp

lemma vsnprintf_stores:
  assumes "do_vprintf f args (logged vsnprintf_helper) (m, vsnprintf_start buffer n, []) = Some (m1, aux, cs)"
    "0 < n" "n \<le> 2 ^ 31" "length cs < 2 ^ 31" "mapped m buffer n"
  shows "vsnprintf buffer n f args m = Some (int (length cs), put buffer (take (n - 1) cs @ [0]) m)"
proof -
  let ?I = "in_buffer buffer (n - 1) m"
  let ?R = "\<lambda>s t. fst s = fst t \<and> fst (snd s) = snd t \<and> ?I s"
  have i: "int32 (int (n - 1)) = int (n - 1)" using assms(2,3) by (intro int32_id) auto
  have "?I (m, vsnprintf_start buffer n, [])" using assms(2) i by (simp add: in_buffer_def vsnprintf_start_def)
  then have "?R (m, vsnprintf_start buffer n, []) (m, vsnprintf_start buffer n)" by simp
  moreover have "simulates ?R (logged vsnprintf_helper) vsnprintf_helper" by (rule logged_simulates) (rule in_buffer_step)
  ultimately obtain t where
    t: "do_vprintf f args vsnprintf_helper (m, vsnprintf_start buffer n) = Some t" "?R (m1, aux, cs) t"
    using do_vprintf_follows [OF assms(1)] by blast
  then have t': "t = (put buffer (take (n - 1) cs) m,
      \<lparr>vp = buffer + min (n - 1) (length cs), vlength = int (length cs), max_length = int (n - 1)\<rparr>)"
    using assms(4) by (cases t) (simp add: in_buffer_def)
  let ?p = "buffer + min (n - 1) (length cs)"
  have "store ?p 0 (put buffer (take (n - 1) cs) m) = Some ((put buffer (take (n - 1) cs) m)(?p \<mapsto> 0))"
    using mapped_store [OF mapped_put [OF assms(5)], of ?p] assms(2) by simp
  moreover have "(put buffer (take (n - 1) cs) m)(?p \<mapsto> 0) = put buffer (take (n - 1) cs @ [0]) m"
    using put_end [of buffer "take (n - 1) cs" m 0] by (simp add: min.commute)
  ultimately show ?thesis using t(1) assms(2) unfolding t' by (simp add: vsnprintf_def vsnprintf_start_def)
qed


subsection \<open>Decimal conversions\<close>

fun decimal :: "nat \<Rightarrow> byte list" where
  "decimal n = (if n < 10 then [48 + word_of_nat n] else decimal (n div 10) @ [48 + word_of_nat (n mod 10)])"

declare decimal.simps [simp del]

definition decimal_int :: "int \<Rightarrow> byte list" where
  "decimal_int z = (if z < 0 then [45] else []) @ decimal (nat \<bar>z\<bar>)"

lemma decimal_not_Nil [simp]: "decimal n \<noteq> []"
  by (subst decimal.simps) simp

lemma length_decimal: "n < 10 ^ k \<Longrightarrow> 0 < k \<Longrightarrow> length (decimal n) \<le> k"
proof (induction k arbitrary: n)
  case (Suc k)
  then show ?case
    by (cases "n < 10"; subst decimal.simps; cases k) (auto simp: less_mult_imp_div_less mult.commute)
qed simp

lemma digits_base_d: "k < 10 \<Longrightarrow> digits base_d ! k = 48 + word_of_nat k"
  by (simp add: base_d_def cstr_def less_Suc_eq numeral_eq_Suc) (auto simp: nth_Cons')

lemma digit_loop_decimal:
  "0 < v \<Longrightarrow> length buf + length (decimal v) \<le> 64 \<Longrightarrow> digit_loop base_d False v k buf = Some (buf @ rev (decimal v))"
proof (induction v arbitrary: k buf rule: decimal.induct)
  case (1 v)
  have b: "base base_d = 10" by (simp add: base_d_def)
  have d: "push_digit (digits base_d ! (v mod 10)) buf = Some (buf @ [48 + word_of_nat (v mod 10)])"
    using "1.prems" digits_base_d [of "v mod 10"] by (cases "decimal v") (auto simp: push_digit_def)
  show ?case
  proof (cases "v < 10")
    case True
    then have "digit_loop base_d False (v div 10) (k + 1) bf = Some bf" for bf by (subst digit_loop.simps) simp
    then show ?thesis using True "1.prems" d by (subst digit_loop.simps) (simp add: b decimal.simps [of v])
  next
    case False
    have "digit_loop base_d False (v div 10) (k + 1) (buf @ [48 + word_of_nat (v mod 10)])
        = Some ((buf @ [48 + word_of_nat (v mod 10)]) @ rev (decimal (v div 10)))"
      using False "1.prems" by (intro "1.IH") (auto simp: decimal.simps [of v])
    then show ?thesis using False "1.prems"(1) d by (subst digit_loop.simps) (simp add: b decimal.simps [of v])
  qed
qed

lemma pad_zeros_1: "pad_zeros 1 buf = (if buf = [] then [48] else buf)"
  by (subst pad_zeros.simps, subst pad_zeros.simps) auto

lemma format_integer_decimal:
  assumes "v < 2 ^ 63" "neg \<longrightarrow> 0 < v"
  shows "format_integer (word_of_nat v) True neg base_d \<lparr>cflags = 0, cwidth = 0, cprecision = - 1, ctype = t\<rparr> out st
    = output_list ((if neg then [45] else []) @ decimal v) out st"
proof -
  define buf where "buf = (if v = 0 then [] else rev (decimal v))"
  define B where "B = pad_zeros 1 buf"
  have u: "unat (word_of_nat v :: 64 word) = v" using assms(1) by (simp add: unsigned_of_nat take_bit_nat_eq_self)
  have l: "length (decimal v) \<le> 19" using assms(1) by (intro length_decimal) auto
  have d: "digit_loop base_d False v 0 [] = Some buf"
    using digit_loop_decimal [of v "[]" 0] l by (cases "v = 0") (simp_all add: digit_loop.simps buf_def)
  have B: "rev B = decimal v" "length B \<le> 19" using l by (simp_all add: B_def buf_def pad_zeros_1 decimal.simps)
  have pad: "nat (int32 (int32 (int32 (- int (length B)))) ) = 0" "nat (int32 (int32 (int32 (- int (length B))) - 1)) = 0"
    using B(2) int32_id [of "- int (length B)"] int32_id [of "- int (length B) - 1"] by auto
  have s: "sign_char True neg \<lparr>cflags = 0, cwidth = 0, cprecision = - 1, ctype = t\<rparr> = (if neg then 45 else 0)"
    by (simp add: sign_char_def flag_def)
  have f: "flag \<lparr>cflags = 0, cwidth = 0, cprecision = - 1, ctype = t\<rparr> x = False" for x by (simp add: flag_def)
  show ?thesis
    unfolding format_integer_def Let_def u f s by (cases neg) (simp_all add: d B_def [symmetric] B pad)
qed

lemma peek_Cons [simp]: "peek (c # f) = Some c"
  by (simp add: peek_def)

text \<open>The output of \<open>%d\<close>.\<close>

lemma do_vprintf_decimal:
  "do_vprintf (cstr ''%d'') (w # args) out st = output_list (decimal_int (sint w)) out st"
proof -
  have f: "cstr ''%d'' = [37, 100, 0]" by (simp add: cstr_def)
  have p: "parse_conversion [100, 0] (w # args) = Some ([100, 0], \<lparr>cflags = 0, cwidth = 0, cprecision = - 1, ctype = INT_DEFAULT\<rparr>, w # args)"
    by (simp add: parse_conversion_def parse_amount_def parse_precision_def parse_type_def isdigit_def char_arg_def)
  have b: "- (2 ^ 31) \<le> sint w" "sint w < 2 ^ 31" using sint_ge [of w] sint_less [of w] by simp_all
  have i: "int64 (- sint w) = - sint w" using b by (intro int64_id) auto
  have v: "(if sint w < 0 then int64 (- sint w) else sint w) = int (nat \<bar>sint w\<bar>)" unfolding i by auto
  have "format_integer (word_of_int (int (nat \<bar>sint w\<bar>))) True (sint w < 0) base_d \<lparr>cflags = 0, cwidth = 0, cprecision = - 1, ctype = INT_DEFAULT\<rparr> out st
      = output_list (decimal_int (sint w)) out st"
    unfolding decimal_int_def of_int_of_nat_eq using b by (intro format_integer_decimal) auto
  then have "convert 100 \<lparr>cflags = 0, cwidth = 0, cprecision = - 1, ctype = INT_DEFAULT\<rparr> (w # args) out st
      = output_list (decimal_int (sint w)) out st \<bind> (\<lambda>st. Some (args, st))"
    by (simp add: convert_def signed_arg_def v)
  moreover have "do_vprintf [0] a out = Some" for a by (rule ext) (simp add: do_vprintf.simps)
  ultimately show ?thesis unfolding f by (subst do_vprintf.simps) (simp add: p known_conversion_def)
qed

lemma output_list_logged:
  "in_buffer buffer n m0 (m, aux, log) \<Longrightarrow> mapped m0 buffer n \<Longrightarrow> length log + length cs < 2 ^ 31 \<Longrightarrow>
     \<exists>m' aux'. output_list cs (logged vsnprintf_helper) (m, aux, log) = Some (m', aux', log @ cs)"
proof (induction cs arbitrary: m aux log)
  case (Cons c cs)
  then have b: "m = put buffer (take n log) m0" "aux = \<lparr>vp = buffer + min n (length log), vlength = int (length log), max_length = int n\<rparr>"
    by (simp_all add: in_buffer_def)
  have "mapped m buffer n" unfolding b by (rule mapped_put [OF Cons.prems(2)])
  then have "length log < n \<longrightarrow> store (vp aux) c m = Some (m(vp aux \<mapsto> c))" by (auto simp: b(2) intro!: mapped_store)
  then obtain m1 aux1 where s: "logged vsnprintf_helper c (m, aux, log) = Some (m1, aux1, log @ [c])"
    by (cases "length log < n") (simp_all add: b(2) logged_def vsnprintf_helper_def Let_def)
  have "in_buffer buffer n m0 (m1, aux1, log @ [c])" by (rule in_buffer_step [OF Cons.prems(1) s])
  from Cons.IH [OF this Cons.prems(2)] Cons.prems(3) show ?case by (simp add: s)
qed simp

lemma length_decimal_int: "length (decimal_int (sint (w :: u32))) \<le> 11"
proof -
  have b: "- (2 ^ 31) \<le> sint w" "sint w < 2 ^ 31" using sint_ge [of w] sint_less [of w] by simp_all
  have "length (decimal (nat \<bar>sint w\<bar>)) \<le> 10" using b by (intro length_decimal) auto
  moreover have "length (decimal_int (sint w)) \<le> 1 + length (decimal (nat \<bar>sint w\<bar>))"
    unfolding decimal_int_def length_append by (intro add_right_mono) simp
  ultimately show ?thesis by linarith
qed

lemma print_decimal:
  assumes "0 < n" "n \<le> 2 ^ 31" "mapped m buffer n"
  shows "vsnprintf buffer n (cstr ''%d'') (w # args) m
    = Some (int (length (decimal_int (sint w))), put buffer (take (n - 1) (decimal_int (sint w)) @ [0]) m)"
proof -
  let ?cs = "decimal_int (sint w)"
  have i: "int32 (int (n - 1)) = int (n - 1)" using assms(1,2) by (intro int32_id) auto
  have b: "- (2 ^ 31) \<le> sint w" "sint w < 2 ^ 31" using sint_ge [of w] sint_less [of w] by simp_all
  have l: "length ?cs < 2 ^ 31" by (rule le_less_trans [OF length_decimal_int]) simp
  have "in_buffer buffer (n - 1) m (m, vsnprintf_start buffer n, [])" using assms(1) i by (simp add: in_buffer_def vsnprintf_start_def)
  from output_list_logged [OF this mapped_mono [OF assms(3)], of ?cs] l obtain m1 aux where
    "do_vprintf (cstr ''%d'') (w # args) (logged vsnprintf_helper) (m, vsnprintf_start buffer n, []) = Some (m1, aux, ?cs)"
    unfolding do_vprintf_decimal by auto
  from vsnprintf_stores [OF this assms(1,2) l assms(3)] show ?thesis .
qed

lemma output_Nil [simp]: "output_list [] out = Some"
  by (rule ext) simp

lemma mapped_example: "mapped (put p bs m) p (length bs)"
  by (simp add: mapped_def put_def)


subsection \<open>Reading a number back\<close>

lemma int32_mult: "int32 (int32 x * y) = int32 (x * y)"
proof -
  have "int32 (int32 x * y) = int32 (int32 (int32 x) * int32 y)" unfolding int32_def by (simp only: signed_take_bit_mult)
  also have "\<dots> = int32 (int32 x * int32 y)" by (simp add: int32_def)
  also have "\<dots> = int32 (x * y)" unfolding int32_def by (simp only: signed_take_bit_mult)
  finally show ?thesis .
qed

lemma int32_diff: "int32 (int32 x - y) = int32 (x - y)"
proof -
  have "int32 (int32 x - y) = int32 (int32 (int32 x) - int32 y)" unfolding int32_def by (simp only: signed_take_bit_diff)
  also have "\<dots> = int32 (int32 x - int32 y)" by (simp add: int32_def)
  also have "\<dots> = int32 (x - y)" unfolding int32_def by (simp only: signed_take_bit_diff)
  finally show ?thesis .
qed

lemma digit_char: "k < 10 \<Longrightarrow> char_arg (48 + word_of_nat k) = 48 + int k"
  by (auto simp: char_arg_def less_Suc_eq numeral_eq_Suc)

lemma parse_digits_decimal:
  "bytes_at m s (decimal n) \<Longrightarrow> parse_digits m v s = parse_digits m (int32 (v * 10 ^ length (decimal n) - int n)) (s + length (decimal n))"
proof (induction n arbitrary: v rule: decimal.induct)
  case (1 n)
  have one: "parse_digits m v s = parse_digits m (int32 (v * 10 - int k)) (s + 1)"
    if "m s = Some (48 + word_of_nat k)" "k < 10" for v s k
    using that int32_diff [of "v * 10" "int k"] by (subst parse_digits.simps) (simp add: load_def digit_char isdigit_def)
  show ?case
  proof (cases "n < 10")
    case True
    then show ?thesis using "1.prems" one [of s n] by (simp add: decimal.simps [of n])
  next
    case False
    define ds where "ds = decimal (n div 10)"
    have d: "decimal n = ds @ [48 + word_of_nat (n mod 10)]" using False by (simp add: decimal.simps [of n] ds_def)
    have b: "bytes_at m s ds" "m (s + length ds) = Some (48 + word_of_nat (n mod 10))" using "1.prems" by (simp_all add: d bytes_at_append)
    have "parse_digits m v s = parse_digits m (int32 (v * 10 ^ length ds - int (n div 10))) (s + length ds)"
      using "1.IH" [OF False] b(1) by (simp add: ds_def)
    also have "\<dots> = parse_digits m (int32 (int32 (v * 10 ^ length ds - int (n div 10)) * 10 - int (n mod 10))) (s + length ds + 1)"
      by (rule one [OF b(2)]) simp
    also have "int32 (int32 (v * 10 ^ length ds - int (n div 10)) * 10 - int (n mod 10)) = int32 (v * 10 ^ length (decimal n) - int n)"
    proof -
      have "n = n div 10 * 10 + n mod 10" by simp
      then have n: "int n = int (n div 10) * 10 + int (n mod 10)" by (metis of_nat_add of_nat_mult of_nat_numeral)
      have "int32 (int32 (v * 10 ^ length ds - int (n div 10)) * 10 - int (n mod 10))
          = int32 (int32 (int32 (v * 10 ^ length ds - int (n div 10)) * 10) - int (n mod 10))" by (simp add: int32_diff)
      also have "\<dots> = int32 ((v * 10 ^ length ds - int (n div 10)) * 10 - int (n mod 10))" by (simp only: int32_mult int32_diff)
      also have "(v * 10 ^ length ds - int (n div 10)) * 10 - int (n mod 10) = v * 10 ^ length (decimal n) - int n"
        unfolding d n by (simp add: algebra_simps)
      finally show ?thesis .
    qed
    finally show ?thesis by (simp add: d)
  qed
qed

lemma decimal_hd: "\<exists>k<10. hd (decimal n) = 48 + word_of_nat k"
proof (induction n rule: decimal.induct)
  case (1 n)
  then show ?case by (cases "n < 10") (auto simp: decimal.simps [of n])
qed

lemma not_space: "k < 10 \<Longrightarrow> \<not> isspace (uint (48 + word_of_nat k :: byte))"
proof -
  assume k: "k < 10"
  have "(48 + word_of_nat k :: byte) = word_of_nat (48 + k)" by simp
  moreover have "uint (word_of_nat (48 + k) :: byte) = int (48 + k)"
    using k by (simp only: unsigned_of_nat) (simp add: take_bit_nat_eq_self)
  ultimately show ?thesis by (simp add: isspace_def)
qed

lemma atoi_decimal:
  assumes "bytes_at m s (decimal_int z @ [0])" "s \<noteq> NULL" "- (2 ^ 31) \<le> z" "z < 2 ^ 31"
  shows "atoi s m = Some z"
proof -
  have stop: "parse_digits m v p = Some v" if "m p = Some 0" for v p
    using that by (subst parse_digits.simps) (simp add: load_def isdigit_def char_arg_def)
  let ?n = "nat \<bar>z\<bar>"
  obtain k ds where k: "decimal ?n = (48 + word_of_nat k) # ds" "k < 10" using decimal_hd [of ?n] by (cases "decimal ?n") auto
  show ?thesis
  proof (cases "z < 0")
    case True
    then have b: "m s = Some 45" "bytes_at m (s + 1) (decimal ?n)" "m (s + 1 + length (decimal ?n)) = Some 0"
      using assms(1) by (simp_all add: decimal_int_def bytes_at_append)
    have "int32 (0 * 10 ^ length (decimal ?n) - int ?n) = z" using True assms(3) by (simp add: int32_id)
    then have "parse_digits m 0 (s + 1) = Some z" using parse_digits_decimal [OF b(2), of 0] stop [OF b(3)] by simp
    moreover have "skip_spaces m s = Some s" by (subst skip_spaces.simps) (simp add: load_def b(1) isspace_def)
    ultimately show ?thesis using assms(2) b(1) by (simp add: atoi_def load_def char_arg_def)
  next
    case False
    then have b: "bytes_at m s (decimal ?n)" "m (s + length (decimal ?n)) = Some 0" "m s = Some (48 + word_of_nat k)"
      using assms(1) k by (simp_all add: decimal_int_def bytes_at_append)
    have "int32 (0 * 10 ^ length (decimal ?n) - int ?n) = - z" using False assms(4) by (simp add: int32_id)
    then have "parse_digits m 0 s = Some (- z)" using parse_digits_decimal [OF b(1), of 0] stop [OF b(2)] by simp
    moreover have "skip_spaces m s = Some s" using not_space [OF k(2)] by (subst skip_spaces.simps) (simp add: load_def b(3))
    ultimately show ?thesis using assms(2-4) b(3) digit_char [OF k(2)] k(2) by (simp add: atoi_def load_def int32_id)
  qed
qed

text \<open>C35: what \<open>snprintf\<close> prints with \<open>%d\<close> is the decimal numeral that \<open>atoi\<close> reads back: the number comes back unchanged
  for every \<open>int\<close>, the smallest one included.\<close>

theorem snprintf_atoi:
  assumes "buffer \<noteq> NULL" "12 \<le> n" "n \<le> 2 ^ 31" "mapped m buffer n"
  shows "\<exists>m'. snprintf buffer n (cstr ''%d'') [w] m = Some (int (length (decimal_int (sint w))), m') \<and> atoi buffer m' = Some (sint w)"
proof -
  let ?cs = "decimal_int (sint w)"
  have "take (n - 1) ?cs = ?cs" using length_decimal_int [of w] assms(2) by simp
  then have "snprintf buffer n (cstr ''%d'') [w] m = Some (int (length ?cs), put buffer (?cs @ [0]) m)"
    using print_decimal [OF _ assms(3,4), of w "[]"] assms(2) by (simp add: snprintf_def)
  moreover have "atoi buffer (put buffer (?cs @ [0]) m) = Some (sint w)"
    using sint_ge [of w] sint_less [of w] by (intro atoi_decimal [OF bytes_at_put assms(1)]) simp_all
  ultimately show ?thesis by blast
qed

theorem snprintf_atoi_witness:
  "\<exists>m'. snprintf 100 12 (cstr ''%d'') [- (2 ^ 31)] (put 100 (replicate 12 0) (\<lambda>_. None)) = Some (11, m') \<and> atoi 100 m' = Some (- (2 ^ 31))"
proof -
  have "mapped (put 100 (replicate 12 0) (\<lambda>_. None)) 100 12" using mapped_example [of 100 "replicate 12 0"] by simp
  from snprintf_atoi [OF _ _ _ this, of "- (2 ^ 31)"] show ?thesis
    by (simp add: NULL_def decimal_int_def decimal.simps)
qed

end
