(* ===== verification/PageAlloc.thy ===== *)
theory PageAlloc imports CString Bitmap SupPageTable begin

section \<open>threads/palloc.c: the page allocator\<close>

text \<open>
  Memory is handed out in pages from two pools, each with a bitmap of its pages.  \<open>machine\<close> is the state of
  memory: the bytes at the kernel's virtual addresses, the two pools, how much memory there is, the base
  page directory, the processor's page directory register, and the virtual pages whose entries the processor may
  have cached.  A pool's lock is held only between two
  statements that are one step here.  The bitmap of a pool is kept beside the memory it lies in.
\<close>

subsection \<open>32-bit words in memory\<close>

definition load32 :: "mem \<Rightarrow> nat \<Rightarrow> u32 option" where
  "load32 m p = do {
     a \<leftarrow> load m p; b \<leftarrow> load m (p + 1); c \<leftarrow> load m (p + 2); d \<leftarrow> load m (p + 3);
     Some (u32_of_bytes [a, b, c, d]) }"

definition store32 :: "nat \<Rightarrow> u32 \<Rightarrow> mem \<Rightarrow> mem option" where
  "store32 p w m = (case bytes_of_u32 w of
     [a, b, c, d] \<Rightarrow> do { m \<leftarrow> store p a m; m \<leftarrow> store (p + 1) b m; m \<leftarrow> store (p + 2) c m; store (p + 3) d m }
   | _ \<Rightarrow> None)"

fun store_bytes :: "ptr \<Rightarrow> byte list \<Rightarrow> mem \<Rightarrow> mem option" where
  "store_bytes p [] m = Some m"
| "store_bytes p (b # bs) m = do { m \<leftarrow> store p b m; store_bytes (p + 1) bs m }"

lemma store_bytes_put: "mapped m p (length bs) \<Longrightarrow> store_bytes p bs m = Some (put p bs m)"
proof (induction bs arbitrary: p m)
  case (Cons b bs)
  have "store p b m = Some (m(p \<mapsto> b))" using Cons.prems by (rule mapped_store) auto
  moreover have "mapped (m(p \<mapsto> b)) (p + 1) (length bs)"
    by (intro mapped_upd mapped_mono [OF Cons.prems]) auto
  ultimately show ?case using Cons.IH by (simp add: put_Cons)
qed simp

subsection \<open>The state\<close>

record pool =
  used_map :: bitmap
  pool_base :: u32

record machine =
  ram :: mem
  kernel_pool :: pool
  user_pool :: pool
  init_ram_pages :: u32
  init_page_dir :: u32
  cr3 :: u32
  tlb :: "u32 set"

definition PAL_ASSERT :: u32 where "PAL_ASSERT = 1"
definition PAL_ZERO :: u32 where "PAL_ZERO = 2"
definition PAL_USER :: u32 where "PAL_USER = 4"

definition pool_of :: "bool \<Rightarrow> machine \<Rightarrow> pool" where
  "pool_of user st = (if user then user_pool st else kernel_pool st)"

definition set_map :: "bool \<Rightarrow> bitmap \<Rightarrow> machine \<Rightarrow> machine" where
  "set_map user b st = (if user then st\<lparr>user_pool := (user_pool st)\<lparr>used_map := b\<rparr>\<rparr>
     else st\<lparr>kernel_pool := (kernel_pool st)\<lparr>used_map := b\<rparr>\<rparr>)"

subsection \<open>Operations\<close>

text \<open>The address of a pool's page.\<close>

definition page_addr :: "pool \<Rightarrow> nat \<Rightarrow> u32" where
  "page_addr p i = pool_base p + PGSIZE * word_of_nat i"

definition palloc_get_multiple :: "u32 \<Rightarrow> nat \<Rightarrow> machine \<Rightarrow> (u32 \<times> machine) option" where
  "palloc_get_multiple flags page_cnt st =
     (let user = (flags AND PAL_USER \<noteq> 0) in
      if page_cnt = 0 then Some (0, st)
      else do {
        (b, page_idx) \<leftarrow> bitmap_scan_and_flip (used_map (pool_of user st)) 0 page_cnt False;
        let st = set_map user b st;
        let pages = (if page_idx \<noteq> BITMAP_ERROR then page_addr (pool_of user st) page_idx else 0);
        if pages \<noteq> 0 then
          (if flags AND PAL_ZERO \<noteq> 0 then do {
             (_, m) \<leftarrow> memset (unat pages) 0 (unat (PGSIZE * word_of_nat page_cnt)) (ram st);
             Some (pages, st\<lparr>ram := m\<rparr>) }
           else Some (pages, st))
        else do { ASSERT (flags AND PAL_ASSERT = 0); Some (0, st) } })"

definition palloc_get_page :: "u32 \<Rightarrow> machine \<Rightarrow> (u32 \<times> machine) option" where
  "palloc_get_page flags st = palloc_get_multiple flags 1 st"

definition page_from_pool :: "pool \<Rightarrow> u32 \<Rightarrow> bool" where
  "page_from_pool p page =
     (let page_no = unat (pg_no page); start_page = unat (pg_no (pool_base p)); end_page = usz (start_page + bitmap_size (used_map p)) in
      page_no \<ge> start_page \<and> page_no < end_page)"

definition palloc_free_multiple :: "u32 \<Rightarrow> nat \<Rightarrow> machine \<Rightarrow> machine option" where
  "palloc_free_multiple pages page_cnt st = do {
     ASSERT (pg_ofs pages = 0);
     if pages = 0 \<or> page_cnt = 0 then Some st
     else do {
       user \<leftarrow> (if page_from_pool (kernel_pool st) pages then Some False
         else if page_from_pool (user_pool st) pages then Some True else None);
       let page_idx = unat (pg_no pages - pg_no (pool_base (pool_of user st)));
       (_, m) \<leftarrow> memset (unat pages) 204 (unat (PGSIZE * word_of_nat page_cnt)) (ram st);
       let b = used_map (pool_of user st);
       all_used \<leftarrow> bitmap_all b page_idx page_cnt;
       ASSERT all_used;
       b \<leftarrow> bitmap_set_multiple b page_idx page_cnt False;
       Some ((set_map user b st)\<lparr>ram := m\<rparr>) } }"

definition palloc_free_page :: "u32 \<Rightarrow> machine \<Rightarrow> machine option" where
  "palloc_free_page page st = palloc_free_multiple page 1 st"

text \<open>The bitmap is put at the base of the pool: \<open>words\<close> is what lies there.\<close>

fun load_words :: "mem \<Rightarrow> nat \<Rightarrow> nat \<Rightarrow> u32 list option" where
  "load_words m p 0 = Some []"
| "load_words m p (Suc n) = do { w \<leftarrow> load32 m p; ws \<leftarrow> load_words m (p + 4) n; Some (w # ws) }"

definition init_pool :: "u32 \<Rightarrow> nat \<Rightarrow> mem \<Rightarrow> pool option" where
  "init_pool start page_cnt m = do {
     let bm_pages = DIV_ROUND_UP (bitmap_buf_size page_cnt) (unat PGSIZE);
     ASSERT (\<not> bm_pages > page_cnt);
     let page_cnt = page_cnt - bm_pages;
     words \<leftarrow> load_words m (unat start) (bm_pages * unat PGSIZE div 4);
     b \<leftarrow> bitmap_create_in_buf page_cnt words (bm_pages * unat PGSIZE);
     Some \<lparr>used_map = b, pool_base = start + word_of_nat bm_pages * PGSIZE\<rparr> }"

definition palloc_init :: "nat \<Rightarrow> machine \<Rightarrow> machine option" where
  "palloc_init user_page_limit st = do {
     free_start \<leftarrow> ptov (1024 * 1024);
     free_end \<leftarrow> ptov (init_ram_pages st * PGSIZE);
     let free_pages = unat ((free_end - free_start) div PGSIZE);
     let user_pages = free_pages div 2;
     let user_pages = (if user_pages > user_page_limit then user_page_limit else user_pages);
     let kernel_pages = free_pages - user_pages;
     k \<leftarrow> init_pool free_start kernel_pages (ram st);
     u \<leftarrow> init_pool (free_start + word_of_nat kernel_pages * PGSIZE) user_pages (ram st);
     Some (st\<lparr>kernel_pool := k, user_pool := u\<rparr>) }"

end
