(* ===== verification/PageDir.thy ===== *)
theory PageDir imports PageAlloc begin

section \<open>userprog/pagedir.c and threads/pte.h: page tables\<close>

text \<open>
  A page directory is a page of 1024 words, each zero or the physical address and flags of a page table, a page
  of 1024 words that in turn have the physical addresses and flags of pages.  The operations below read and
  write these words in the memory of \<open>machine\<close> and take the pages for tables from the page allocator.  Writing
  the page directory register makes the processor forget the entries it has cached, the field \<open>tlb\<close>.
\<close>

subsection \<open>Entries\<close>

definition BITMASK :: "nat \<Rightarrow> nat \<Rightarrow> u32" where "BITMASK shift cnt = push_bit shift (push_bit cnt 1 - 1)"

definition PTSHIFT :: nat where "PTSHIFT = PGBITS"
definition PTBITS :: nat where "PTBITS = 10"
definition PTMASK :: u32 where "PTMASK = BITMASK PTSHIFT PTBITS"
definition PDSHIFT :: nat where "PDSHIFT = PTSHIFT + PTBITS"

definition pt_no :: "u32 \<Rightarrow> u32" where "pt_no va = drop_bit PTSHIFT (va AND PTMASK)"
definition pd_no :: "u32 \<Rightarrow> u32" where "pd_no va = drop_bit PDSHIFT va"

definition PTE_ADDR :: u32 where "PTE_ADDR = 0xfffff000"
definition PTE_P :: u32 where "PTE_P = 0x1"
definition PTE_W :: u32 where "PTE_W = 0x2"
definition PTE_U :: u32 where "PTE_U = 0x4"
definition PTE_A :: u32 where "PTE_A = 0x20"
definition PTE_D :: u32 where "PTE_D = 0x40"

definition pde_create :: "u32 \<Rightarrow> u32 option" where
  "pde_create pt = do {
     ASSERT (pg_ofs pt = 0);
     p \<leftarrow> vtop pt;
     Some (p OR PTE_U OR PTE_P OR PTE_W) }"

definition pde_get_pt :: "u32 \<Rightarrow> u32 option" where
  "pde_get_pt pde = do { ASSERT (pde AND PTE_P \<noteq> 0); ptov (pde AND PTE_ADDR) }"

definition pte_create_kernel :: "u32 \<Rightarrow> bool \<Rightarrow> u32 option" where
  "pte_create_kernel page writable = do {
     ASSERT (pg_ofs page = 0);
     p \<leftarrow> vtop page;
     Some (p OR PTE_P OR (if writable then PTE_W else 0)) }"

definition pte_create_user :: "u32 \<Rightarrow> bool \<Rightarrow> u32 option" where
  "pte_create_user page writable = do { e \<leftarrow> pte_create_kernel page writable; Some (e OR PTE_U) }"

definition pte_get_page :: "u32 \<Rightarrow> u32 option" where
  "pte_get_page pte = ptov (pte AND PTE_ADDR)"

subsection \<open>Words at virtual addresses of the kernel\<close>

definition get_word :: "machine \<Rightarrow> u32 \<Rightarrow> u32 option" where
  "get_word st p = load32 (ram st) (unat p)"

definition set_word :: "u32 \<Rightarrow> u32 \<Rightarrow> machine \<Rightarrow> machine option" where
  "set_word p w st = do { m \<leftarrow> store32 (unat p) w (ram st); Some (st\<lparr>ram := m\<rparr>) }"

subsection \<open>The active page directory\<close>

definition write_cr3 :: "u32 \<Rightarrow> machine \<Rightarrow> machine" where
  "write_cr3 p st = st\<lparr>cr3 := p, tlb := {}\<rparr>"

definition pagedir_activate :: "u32 \<Rightarrow> machine \<Rightarrow> machine option" where
  "pagedir_activate pd st = do {
     let pd = (if pd = 0 then init_page_dir st else pd);
     p \<leftarrow> vtop pd;
     Some (write_cr3 p st) }"

definition active_pd :: "machine \<Rightarrow> u32 option" where
  "active_pd st = ptov (cr3 st)"

definition invalidate_pagedir :: "u32 \<Rightarrow> machine \<Rightarrow> machine option" where
  "invalidate_pagedir pd st = do {
     a \<leftarrow> active_pd st;
     if a = pd then pagedir_activate pd st else Some st }"

subsection \<open>Operations\<close>

definition pagedir_create :: "machine \<Rightarrow> (u32 \<times> machine) option" where
  "pagedir_create st = do {
     (pd, st) \<leftarrow> palloc_get_page 0 st;
     if pd \<noteq> 0 then do {
       (_, m) \<leftarrow> memcpy (unat pd) (unat (init_page_dir st)) (unat PGSIZE) (ram st);
       Some (pd, st\<lparr>ram := m\<rparr>) }
     else Some (pd, st) }"

text \<open>The loop over the \<open>n\<close> entries from \<open>pte\<close> on, and over the \<open>n\<close> page tables from \<open>pde\<close> on.\<close>

fun destroy_ptes :: "nat \<Rightarrow> u32 \<Rightarrow> machine \<Rightarrow> machine option" where
  "destroy_ptes 0 pte st = Some st"
| "destroy_ptes (Suc n) pte st = do {
     e \<leftarrow> get_word st pte;
     st \<leftarrow> (if e AND PTE_P \<noteq> 0 then do { page \<leftarrow> pte_get_page e; palloc_free_page page st } else Some st);
     destroy_ptes n (pte + 4) st }"

fun destroy_pdes :: "nat \<Rightarrow> u32 \<Rightarrow> machine \<Rightarrow> machine option" where
  "destroy_pdes 0 pde st = Some st"
| "destroy_pdes (Suc n) pde st = do {
     e \<leftarrow> get_word st pde;
     st \<leftarrow> (if e AND PTE_P \<noteq> 0 then do {
               pt \<leftarrow> pde_get_pt e;
               st \<leftarrow> destroy_ptes (unat PGSIZE div 4) pt st;
               palloc_free_page pt st }
             else Some st);
     destroy_pdes n (pde + 4) st }"

definition pagedir_destroy :: "u32 \<Rightarrow> machine \<Rightarrow> machine option" where
  "pagedir_destroy pd st =
     (if pd = 0 then Some st
      else do {
        ASSERT (pd \<noteq> init_page_dir st);
        st \<leftarrow> destroy_pdes (unat (pd_no PHYS_BASE)) pd st;
        palloc_free_page pd st })"

text \<open>The address of the entry, 0 for a null pointer.\<close>

definition lookup_page :: "u32 \<Rightarrow> u32 \<Rightarrow> bool \<Rightarrow> machine \<Rightarrow> (u32 \<times> machine) option" where
  "lookup_page pd vaddr create st = do {
     ASSERT (pd \<noteq> 0);
     ASSERT (\<not> create \<or> is_user_vaddr vaddr);
     let pde = pd + 4 * pd_no vaddr;
     e \<leftarrow> get_word st pde;
     (found, st) \<leftarrow>
       (if e = 0 then
          (if create then do {
             (pt, st) \<leftarrow> palloc_get_page PAL_ZERO st;
             if pt = 0 then Some (False, st)
             else do { e \<leftarrow> pde_create pt; st \<leftarrow> set_word pde e st; Some (True, st) } }
           else Some (False, st))
        else Some (True, st));
     if \<not> found then Some (0, st)
     else do {
       e \<leftarrow> get_word st pde;
       pt \<leftarrow> pde_get_pt e;
       Some (pt + 4 * pt_no vaddr, st) } }"

definition pagedir_set_page :: "u32 \<Rightarrow> u32 \<Rightarrow> u32 \<Rightarrow> bool \<Rightarrow> machine \<Rightarrow> (bool \<times> machine) option" where
  "pagedir_set_page pd upage kpage writable st = do {
     ASSERT (pg_ofs upage = 0);
     ASSERT (pg_ofs kpage = 0);
     ASSERT (is_user_vaddr upage);
     p \<leftarrow> vtop kpage;
     ASSERT (drop_bit PTSHIFT p < init_ram_pages st);
     ASSERT (pd \<noteq> init_page_dir st);
     (pte, st) \<leftarrow> lookup_page pd upage True st;
     if pte \<noteq> 0 then do {
       e \<leftarrow> get_word st pte;
       ASSERT (e AND PTE_P = 0);
       e \<leftarrow> pte_create_user kpage writable;
       st \<leftarrow> set_word pte e st;
       Some (True, st) }
     else Some (False, st) }"

definition pagedir_get_page :: "u32 \<Rightarrow> u32 \<Rightarrow> machine \<Rightarrow> (u32 \<times> machine) option" where
  "pagedir_get_page pd uaddr st = do {
     ASSERT (is_user_vaddr uaddr);
     (pte, st) \<leftarrow> lookup_page pd uaddr False st;
     if pte = 0 then Some (0, st)
     else do {
       e \<leftarrow> get_word st pte;
       if e AND PTE_P \<noteq> 0 then do { p \<leftarrow> pte_get_page e; Some (p + pg_ofs uaddr, st) } else Some (0, st) } }"

definition pagedir_clear_page :: "u32 \<Rightarrow> u32 \<Rightarrow> machine \<Rightarrow> machine option" where
  "pagedir_clear_page pd upage st = do {
     ASSERT (pg_ofs upage = 0);
     ASSERT (is_user_vaddr upage);
     (pte, st) \<leftarrow> lookup_page pd upage False st;
     if pte = 0 then Some st
     else do {
       e \<leftarrow> get_word st pte;
       if e AND PTE_P \<noteq> 0 then do { st \<leftarrow> set_word pte (e AND NOT PTE_P) st; invalidate_pagedir pd st } else Some st } }"

text \<open>The routines on the dirty and on the accessed bit are the same but for the bit.\<close>

definition pte_bit :: "u32 \<Rightarrow> u32 \<Rightarrow> u32 \<Rightarrow> machine \<Rightarrow> (bool \<times> machine) option" where
  "pte_bit b pd vpage st = do {
     (pte, st) \<leftarrow> lookup_page pd vpage False st;
     if pte = 0 then Some (False, st) else do { e \<leftarrow> get_word st pte; Some (e AND b \<noteq> 0, st) } }"

definition set_pte_bit :: "u32 \<Rightarrow> u32 \<Rightarrow> u32 \<Rightarrow> bool \<Rightarrow> machine \<Rightarrow> machine option" where
  "set_pte_bit b pd vpage v st = do {
     (pte, st) \<leftarrow> lookup_page pd vpage False st;
     if pte = 0 then Some st
     else do {
       e \<leftarrow> get_word st pte;
       if v then set_word pte (e OR b) st
       else do { st \<leftarrow> set_word pte (e AND NOT b) st; invalidate_pagedir pd st } } }"

definition pagedir_is_dirty :: "u32 \<Rightarrow> u32 \<Rightarrow> machine \<Rightarrow> (bool \<times> machine) option" where
  "pagedir_is_dirty = pte_bit PTE_D"

definition pagedir_set_dirty :: "u32 \<Rightarrow> u32 \<Rightarrow> bool \<Rightarrow> machine \<Rightarrow> machine option" where
  "pagedir_set_dirty = set_pte_bit PTE_D"

definition pagedir_is_accessed :: "u32 \<Rightarrow> u32 \<Rightarrow> machine \<Rightarrow> (bool \<times> machine) option" where
  "pagedir_is_accessed = pte_bit PTE_A"

definition pagedir_set_accessed :: "u32 \<Rightarrow> u32 \<Rightarrow> bool \<Rightarrow> machine \<Rightarrow> machine option" where
  "pagedir_set_accessed = set_pte_bit PTE_A"

subsection \<open>threads/init.c: the kernel's own mapping\<close>

text \<open>\<open>text\<close> is the range of the kernel's code, from \<open>_start\<close> to \<open>_end_kernel_text\<close>.\<close>

fun paging_loop :: "u32 \<times> u32 \<Rightarrow> nat \<Rightarrow> u32 \<Rightarrow> u32 \<Rightarrow> u32 \<Rightarrow> machine \<Rightarrow> machine option" where
  "paging_loop text 0 page pd pt st = Some st"
| "paging_loop text (Suc n) page pd pt st = do {
     vaddr \<leftarrow> ptov (page * PGSIZE);
     let pde = pd + 4 * pd_no vaddr;
     let in_kernel_text = (fst text \<le> vaddr \<and> vaddr < snd text);
     e \<leftarrow> get_word st pde;
     (pt, st) \<leftarrow>
       (if e = 0 then do {
          (pt, st) \<leftarrow> palloc_get_page (PAL_ASSERT OR PAL_ZERO) st;
          e \<leftarrow> pde_create pt;
          st \<leftarrow> set_word pde e st;
          Some (pt, st) }
        else Some (pt, st));
     e \<leftarrow> pte_create_kernel vaddr (\<not> in_kernel_text);
     st \<leftarrow> set_word (pt + 4 * pt_no vaddr) e st;
     paging_loop text n (page + 1) pd pt st }"

definition paging_init :: "u32 \<times> u32 \<Rightarrow> machine \<Rightarrow> machine option" where
  "paging_init text st = do {
     (pd, st) \<leftarrow> palloc_get_page (PAL_ASSERT OR PAL_ZERO) st;
     let st = st\<lparr>init_page_dir := pd\<rparr>;
     st \<leftarrow> paging_loop text (unat (init_ram_pages st)) 0 pd 0 st;
     p \<leftarrow> vtop (init_page_dir st);
     Some (write_cr3 p st) }"

end
