(* ===== verification/PageAllocTheorems.thy ===== *)
theory PageAllocTheorems imports PageAlloc begin

section \<open>What the page allocator hands out\<close>

subsection \<open>Words in memory\<close>

definition word_at :: "mem \<Rightarrow> nat \<Rightarrow> u32" where
  "word_at m p = u32_of_bytes [the (m p), the (m (p + 1)), the (m (p + 2)), the (m (p + 3))]"

lemma load32_mapped: "mapped m p 4 \<Longrightarrow> load32 m p = Some (word_at m p)"
proof -
  assume m: "mapped m p 4"
  have "m (p + k) \<noteq> None" if "k < 4" for k using m that by (simp add: mapped_def)
  from this [of 0] this [of 1] this [of 2] this [of 3] show ?thesis by (auto simp: load32_def load_def word_at_def)
qed

lemma store32_mapped: "mapped m p 4 \<Longrightarrow> store32 p w m = Some (put p (bytes_of_u32 w) m)"
proof -
  assume m: "mapped m p 4"
  obtain a b c d where w: "bytes_of_u32 w = [a, b, c, d]" by (simp add: bytes_of_u32_def)
  have "put p [a, b, c, d] m = m(p \<mapsto> a, p + 1 \<mapsto> b, p + 2 \<mapsto> c, p + 3 \<mapsto> d)" by (simp add: put_Cons eval_nat_numeral)
  moreover have "store p a m = Some (m(p \<mapsto> a))" "store (p + 1) b (m(p \<mapsto> a)) = Some (m(p \<mapsto> a, p + 1 \<mapsto> b))"
    "store (p + 2) c (m(p \<mapsto> a, p + 1 \<mapsto> b)) = Some (m(p \<mapsto> a, p + 1 \<mapsto> b, p + 2 \<mapsto> c))"
    "store (p + 3) d (m(p \<mapsto> a, p + 1 \<mapsto> b, p + 2 \<mapsto> c)) = Some (m(p \<mapsto> a, p + 1 \<mapsto> b, p + 2 \<mapsto> c, p + 3 \<mapsto> d))"
    using m by (auto intro!: mapped_store mapped_upd)
  ultimately show ?thesis unfolding store32_def w by simp
qed

lemma word_at_put: "word_at (put p (bytes_of_u32 w) m) p = w"
proof -
  obtain a b c d where w: "bytes_of_u32 w = [a, b, c, d]" by (simp add: bytes_of_u32_def)
  then have "word_at (put p [a, b, c, d] m) p = u32_of_bytes [a, b, c, d]" by (simp add: word_at_def put_def)
  then show ?thesis using u32_of_bytes_of_u32 [of w] w by simp
qed

lemma word_at_put_other: "q + 4 \<le> p \<or> p + length bs \<le> q \<Longrightarrow> word_at (put p bs m) q = word_at m q"
  by (auto simp: word_at_def put_def)

lemma word_at_zeros: "p \<le> q \<Longrightarrow> q + 4 \<le> p + n \<Longrightarrow> word_at (put p (replicate n 0) m) q = 0"
  by (simp add: word_at_def put_def u32_of_bytes_def)

subsection \<open>Page addresses\<close>

lemma PGSIZE_4096: "PGSIZE = 4096"
  by (simp add: PGSIZE_def PGBITS_def push_bit_eq_mult)

lemma unat_pg_no: "unat (pg_no va) = unat va div 4096"
  by (simp add: pg_no_def PGBITS_def drop_bit_eq_div unat_div)

lemma unat_pg_ofs: "unat (pg_ofs va) = unat va mod 4096"
proof -
  have "pg_ofs va = take_bit 12 va" by (simp add: pg_ofs_def PGMASK_mask take_bit_eq_mask)
  then show ?thesis by (simp add: take_bit_eq_mod unat_mod)
qed

lemma aligned_unat: "pg_ofs va = 0 \<longleftrightarrow> unat va mod 4096 = 0"
  using unat_pg_ofs [of va] by (metis unsigned_0 unsigned_eq_0_iff)

text \<open>A pool in order: its base is a page of the kernel's memory, its pages are there.\<close>

definition pool_ok :: "mem \<Rightarrow> pool \<Rightarrow> bool" where
  "pool_ok m p = (bm_wf (used_map p) \<and> unat (pool_base p) mod 4096 = 0 \<and> unat PHYS_BASE \<le> unat (pool_base p)
     \<and> unat (pool_base p) + 4096 * bit_cnt (used_map p) < 2 ^ 32 \<and> mapped m (unat (pool_base p)) (4096 * bit_cnt (used_map p)))"

definition palloc_ok :: "machine \<Rightarrow> bool" where
  "palloc_ok st = (pool_ok (ram st) (kernel_pool st) \<and> pool_ok (ram st) (user_pool st)
     \<and> (unat (pool_base (kernel_pool st)) + 4096 * bit_cnt (used_map (kernel_pool st)) \<le> unat (pool_base (user_pool st))))"

lemma pool_okD: "palloc_ok st \<Longrightarrow> pool_ok (ram st) (pool_of user st)"
  by (simp add: palloc_ok_def pool_of_def)

lemma unat_page_addr:
  assumes "pool_ok m p" "i \<le> bit_cnt (used_map p)"
  shows "unat (page_addr p i) = unat (pool_base p) + 4096 * i"
proof -
  have b: "unat (pool_base p) + 4096 * i < 2 ^ 32" using assms by (simp add: pool_ok_def)
  then have "unat (word_of_nat i :: u32) = i" by (simp add: unsigned_of_nat take_bit_nat_eq_self)
  then have "unat (PGSIZE * word_of_nat i :: u32) = 4096 * i"
    using b by (simp add: PGSIZE_4096 unat_word_ariths)
  then show ?thesis using b by (simp add: page_addr_def unat_word_ariths)
qed

lemma page_addr_facts:
  assumes "pool_ok m p" "i < bit_cnt (used_map p)"
  shows "page_addr p i \<noteq> 0" "pg_ofs (page_addr p i) = 0" "unat (pg_no (page_addr p i)) = unat (pool_base p) div 4096 + i"
    "unat PHYS_BASE \<le> unat (page_addr p i)"
proof -
  have u: "unat (page_addr p i) = unat (pool_base p) + 4096 * i" using assms by (intro unat_page_addr) auto
  have b: "unat (pool_base p) mod 4096 = 0" "unat PHYS_BASE \<le> unat (pool_base p)" using assms by (simp_all add: pool_ok_def)
  show "unat PHYS_BASE \<le> unat (page_addr p i)" using u b by simp
  then show "page_addr p i \<noteq> 0" by (auto simp: PHYS_BASE_def)
  show "pg_ofs (page_addr p i) = 0" unfolding aligned_unat u using b by (simp add: mod_add_left_eq [symmetric])
  show "unat (pg_no (page_addr p i)) = unat (pool_base p) div 4096 + i" unfolding unat_pg_no u using b by simp
qed

lemma page_addr_inj: "pool_ok m p \<Longrightarrow> i < bit_cnt (used_map p) \<Longrightarrow> j < bit_cnt (used_map p) \<Longrightarrow> page_addr p i = page_addr p j \<longleftrightarrow> i = j"
  using page_addr_facts(3) by (metis add_left_cancel)

lemma pool_page_numbers:
  assumes "pool_ok m p"
  shows "unat (pool_base p) div 4096 + bit_cnt (used_map p) < 2 ^ 20"
proof -
  have "unat (pool_base p) + 4096 * bit_cnt (used_map p) < 2 ^ 20 * 4096" using assms by (simp add: pool_ok_def)
  then have "(unat (pool_base p) + 4096 * bit_cnt (used_map p)) div 4096 < 2 ^ 20" by (rule less_mult_imp_div_less)
  then show ?thesis by simp
qed

lemma page_from_own_pool:
  assumes "pool_ok m p" "i < bit_cnt (used_map p)"
  shows "page_from_pool p (page_addr p i)" "unat (pg_no (page_addr p i) - pg_no (pool_base p)) = i"
proof -
  have b: "unat (pool_base p) div 4096 + bit_cnt (used_map p) < 2 ^ 20" using assms(1) by (rule pool_page_numbers)
  then have "usz (unat (pg_no (pool_base p)) + bitmap_size (used_map p)) = unat (pool_base p) div 4096 + bit_cnt (used_map p)"
    by (simp add: unat_pg_no bitmap_size_def)
  then show "page_from_pool p (page_addr p i)"
    using page_addr_facts(3) [OF assms] assms(2) by (simp add: page_from_pool_def Let_def unat_pg_no [of "pool_base p"])
  have "pg_no (pool_base p) \<le> pg_no (page_addr p i)" using page_addr_facts(3) [OF assms] by (simp add: word_le_nat_alt unat_pg_no)
  then show "unat (pg_no (page_addr p i) - pg_no (pool_base p)) = i"
    using page_addr_facts(3) [OF assms] unat_pg_no [of "pool_base p"] by (simp add: unat_sub)
qed

lemma page_from_other_pool:
  assumes "palloc_ok st" "i < bit_cnt (used_map (user_pool st))"
  shows "\<not> page_from_pool (kernel_pool st) (page_addr (user_pool st) i)"
proof -
  let ?k = "kernel_pool st"
  have k: "unat (pool_base ?k) div 4096 + bit_cnt (used_map ?k) < 2 ^ 20" using assms(1) by (intro pool_page_numbers [of "ram st"]) (simp add: palloc_ok_def)
  then have e: "usz (unat (pg_no (pool_base ?k)) + bitmap_size (used_map ?k)) = unat (pool_base ?k) div 4096 + bit_cnt (used_map ?k)"
    by (simp add: unat_pg_no bitmap_size_def)
  have "unat (pool_base ?k) + 4096 * bit_cnt (used_map ?k) \<le> unat (pool_base (user_pool st))" "pool_ok (ram st) (user_pool st)"
    using assms(1) by (simp_all add: palloc_ok_def)
  then have "unat (pool_base ?k) div 4096 + bit_cnt (used_map ?k) \<le> unat (pg_no (page_addr (user_pool st) i))"
    using page_addr_facts(3) assms(2) div_le_mono [of "unat (pool_base ?k) + 4096 * bit_cnt (used_map ?k)" _ 4096] by fastforce
  then show ?thesis by (simp add: page_from_pool_def Let_def e)
qed

lemma set_map_fields [simp]:
  "pool_of user (set_map user b st) = (pool_of user st)\<lparr>used_map := b\<rparr>" "pool_of (\<not> user) (set_map user b st) = pool_of (\<not> user) st"
  "ram (set_map user b st) = ram st" "init_ram_pages (set_map user b st) = init_ram_pages st"
  "init_page_dir (set_map user b st) = init_page_dir st" "cr3 (set_map user b st) = cr3 st"
  by (simp_all add: pool_of_def set_map_def)

lemma page_addr_map [simp]: "page_addr (p\<lparr>used_map := b\<rparr>) i = page_addr p i"
  by (simp add: page_addr_def)

lemma palloc_ok_set_map:
  "palloc_ok st \<Longrightarrow> bm_wf b \<Longrightarrow> bit_cnt b = bit_cnt (used_map (pool_of user st)) \<Longrightarrow> palloc_ok (set_map user b st)"
  by (auto simp: palloc_ok_def pool_ok_def pool_of_def set_map_def split: if_splits)

lemma palloc_ok_ram: "palloc_ok st \<Longrightarrow> (\<And>p n. mapped (ram st) p n \<Longrightarrow> mapped m p n) \<Longrightarrow> palloc_ok (st\<lparr>ram := m\<rparr>)"
  by (simp add: palloc_ok_def pool_ok_def)

lemma pages_mapped:
  assumes "pool_ok m p" "i + n \<le> bit_cnt (used_map p)"
  shows "mapped m (unat (page_addr p i)) (4096 * n)"
proof -
  have "mapped m (unat (pool_base p)) (4096 * bit_cnt (used_map p))" using assms(1) by (simp add: pool_ok_def)
  then show ?thesis using assms(2) unat_page_addr [OF assms(1), of i] by (auto elim!: mapped_mono)
qed

lemma memset_pages:
  assumes "pool_ok m p" "i + n \<le> bit_cnt (used_map p)" "0 < n"
  shows "memset (unat (page_addr p i)) v (unat (PGSIZE * word_of_nat n :: u32)) m
    = Some (unat (page_addr p i), put (unat (page_addr p i)) (replicate (4096 * n) (word_of_int v)) m)"
proof -
  have b: "4096 * n < 2 ^ 32" using assms(1,2) by (simp add: pool_ok_def)
  then have "unat (word_of_nat n :: u32) = n" by (simp add: unsigned_of_nat take_bit_nat_eq_self)
  then have s: "unat (PGSIZE * word_of_nat n :: u32) = 4096 * n" using b by (simp add: PGSIZE_4096 unat_word_ariths)
  have "unat (page_addr p i) \<noteq> NULL" using page_addr_facts(1) [of m p i] assms by (simp add: NULL_def unsigned_eq_0_iff)
  then show ?thesis unfolding s memset_def using memset_loop_put [OF pages_mapped [OF assms(1,2)]] by simp
qed

subsection \<open>Getting and freeing pages\<close>

lemma set_map_id: "set_map user (used_map (pool_of user st)) st = st"
  by (simp add: set_map_def pool_of_def)

lemma set_map_ram: "(set_map user b st)\<lparr>ram := ram st\<rparr> = set_map user b st"
  by (simp add: set_map_def)

lemma fill_back: "group_at xs k n v \<Longrightarrow> fill k n v (fill k n w xs) = xs"
  by (rule nth_equalityI) (auto simp: group_at_def)

lemma group_fill: "k + n \<le> length xs \<Longrightarrow> group_at (fill k n v xs) k n v"
  by (simp add: group_at_def)

lemma palloc_pool_wf: "palloc_ok st \<Longrightarrow> bm_wf (used_map (pool_of user st))"
  using pool_okD [of st user] by (simp add: pool_ok_def)

lemma pool_page_not_error: "bm_wf b \<Longrightarrow> k < bit_cnt b \<Longrightarrow> k \<noteq> BITMAP_ERROR"
  by (simp add: bm_wf_def BITMAP_ERROR_def)

text \<open>A group of pages that is free is found, the first one, and zeroed when the caller asks for it.\<close>

definition pages_filled :: "bool \<Rightarrow> nat \<Rightarrow> nat \<Rightarrow> byte \<Rightarrow> machine \<Rightarrow> mem" where
  "pages_filled user k n v st = put (unat (page_addr (pool_of user st) k)) (replicate (4096 * n) v) (ram st)"

definition page_group_taken :: "u32 \<Rightarrow> nat \<Rightarrow> nat \<Rightarrow> machine \<Rightarrow> machine \<Rightarrow> bool" where
  "page_group_taken flags n k st st' =
     (let user = (flags AND PAL_USER \<noteq> 0); xs = bits_of (used_map (pool_of user st)) in
      group_at xs k n False \<and> (\<forall>j<k. \<not> group_at xs j n False) \<and> palloc_ok st' \<and>
      (\<exists>b. st' = (set_map user b st)\<lparr>ram := (if flags AND PAL_ZERO \<noteq> 0 then pages_filled user k n 0 st else ram st)\<rparr>
         \<and> bits_of b = fill k n True xs))"

lemma palloc_get_found:
  assumes ok: "palloc_ok st" and n: "0 < n" and user: "user = (flags AND PAL_USER \<noteq> 0)"
    and g: "\<exists>k. group_at (bits_of (used_map (pool_of user st))) k n False"
  shows "\<exists>k st'. palloc_get_multiple flags n st = Some (page_addr (pool_of user st) k, st') \<and> page_group_taken flags n k st st'"
proof -
  let ?p = "pool_of user st"
  obtain b k where b: "bitmap_scan_and_flip (used_map ?p) 0 n False = Some (b, k)" "bm_wf b" "bit_cnt b = bit_cnt (used_map ?p)"
    "group_at (bits_of (used_map ?p)) k n False" "\<forall>j \<in> {0..<k}. \<not> group_at (bits_of (used_map ?p)) j n False"
    "bits_of b = fill k n (\<not> False) (bits_of (used_map ?p))"
    using bitmap_scan_and_flip_found [OF palloc_pool_wf [OF ok, of user], of 0 n False] g by auto
  have k: "k + n \<le> bit_cnt (used_map ?p)" using b(4) by (simp add: group_at_def)
  then have "k < bit_cnt (used_map ?p)" using n by simp
  then have "k \<noteq> BITMAP_ERROR" "page_addr ?p k \<noteq> 0"
    using pool_page_not_error [OF palloc_pool_wf [OF ok]] page_addr_facts(1) [OF pool_okD [OF ok]] by blast+
  moreover have ok': "palloc_ok (set_map user b st)" using palloc_ok_set_map [OF ok b(2,3)] .
  moreover have "memset (unat (page_addr ?p k)) 0 (unat (PGSIZE * word_of_nat n :: u32)) (ram st)
      = Some (unat (page_addr ?p k), pages_filled user k n 0 st)"
    using memset_pages [OF pool_okD [OF ok] k n, of 0] by (simp add: pages_filled_def)
  ultimately have "palloc_get_multiple flags n st = Some (page_addr ?p k,
      (set_map user b st)\<lparr>ram := (if flags AND PAL_ZERO \<noteq> 0 then pages_filled user k n 0 st else ram st)\<rparr>)"
    using b(1) n by (simp add: palloc_get_multiple_def Let_def user [symmetric] set_map_ram)
  moreover have "palloc_ok ((set_map user b st)\<lparr>ram := (if flags AND PAL_ZERO \<noteq> 0 then pages_filled user k n 0 st else ram st)\<rparr>)"
    using ok' by (intro palloc_ok_ram) (auto simp: pages_filled_def mapped_put)
  ultimately show ?thesis using b(4-6) unfolding page_group_taken_def Let_def user [symmetric] by auto
qed

lemma palloc_get_none:
  assumes ok: "palloc_ok st" and n: "0 < n" and user: "user = (flags AND PAL_USER \<noteq> 0)"
    and g: "\<not> (\<exists>k. group_at (bits_of (used_map (pool_of user st))) k n False)"
  shows "palloc_get_multiple flags n st = (if flags AND PAL_ASSERT = 0 then Some (0, st) else None)"
  using bitmap_scan_and_flip_none [OF palloc_pool_wf [OF ok, of user], of 0 n False] g n
  by (simp add: palloc_get_multiple_def Let_def user [symmetric] set_map_id)

lemma palloc_free_group:
  assumes ok: "palloc_ok st" and n: "0 < n" and g: "group_at (bits_of (used_map (pool_of user st))) k n True"
  shows "\<exists>b. palloc_free_multiple (page_addr (pool_of user st) k) n st
      = Some ((set_map user b st)\<lparr>ram := pages_filled user k n 204 st\<rparr>)
    \<and> bm_wf b \<and> bit_cnt b = bit_cnt (used_map (pool_of user st))
    \<and> bits_of b = fill k n False (bits_of (used_map (pool_of user st)))"
proof -
  let ?p = "pool_of user st"
  have k: "k + n \<le> bit_cnt (used_map ?p)" "k < bit_cnt (used_map ?p)" using g n by (simp_all add: group_at_def)
  have pool: "pool_ok (ram st) ?p" using ok by (rule pool_okD)
  have wf: "bm_wf (used_map ?p)" using ok by (rule palloc_pool_wf)
  obtain b where b: "bitmap_set_multiple (used_map ?p) k n False = Some b" "bm_wf b" "bit_cnt b = bit_cnt (used_map ?p)"
    "bits_of b = fill k n False (bits_of (used_map ?p))"
    using bitmap_set_multiple_spec [OF wf k(1), of False] by blast
  have all: "bitmap_all (used_map ?p) k n = Some True" using bitmap_all_spec [OF wf k(1)] g by (auto simp: group_at_def simp del: bits_of_nth)
  have which: "(if page_from_pool (kernel_pool st) (page_addr ?p k) then Some False
      else if page_from_pool (user_pool st) (page_addr ?p k) then Some True else None) = Some user"
    using page_from_own_pool(1) [OF pool k(2)] page_from_other_pool [OF ok, of k] k(2) by (cases user) (auto simp: pool_of_def)
  have set: "memset (unat (page_addr ?p k)) 204 (unat (PGSIZE * word_of_nat n :: u32)) (ram st)
      = Some (unat (page_addr ?p k), pages_filled user k n 204 st)"
    using memset_pages [OF pool k(1) n, of 204] by (simp add: pages_filled_def)
  have "palloc_free_multiple (page_addr ?p k) n st = Some ((set_map user b st)\<lparr>ram := pages_filled user k n 204 st\<rparr>)"
    using page_addr_facts(1,2) [OF pool k(2)] n
    by (simp add: palloc_free_multiple_def which set page_from_own_pool(2) [OF pool k(2)] all b(1) Let_def)
  with b show ?thesis by blast
qed

lemma page_group_taken_back:
  assumes n: "0 < n" and user: "user = (flags AND PAL_USER \<noteq> 0)" and t: "page_group_taken flags n k st st'"
  shows "\<exists>st''. palloc_free_multiple (page_addr (pool_of user st) k) n st' = Some st'' \<and> palloc_ok st''
    \<and> bits_of (used_map (pool_of user st'')) = bits_of (used_map (pool_of user st)) \<and> pool_of (\<not> user) st'' = pool_of (\<not> user) st"
proof -
  let ?xs = "bits_of (used_map (pool_of user st))"
  from t obtain b m where st': "st' = (set_map user b st)\<lparr>ram := m\<rparr>" and b: "bits_of b = fill k n True ?xs"
    and ok: "palloc_ok st'" and g: "group_at ?xs k n False"
    by (auto simp: page_group_taken_def Let_def user [symmetric])
  have m: "pool_of user st' = (pool_of user st)\<lparr>used_map := b\<rparr>" "pool_of (\<not> user) st' = pool_of (\<not> user) st"
    using st' by (auto simp: pool_of_def set_map_def)
  have a: "page_addr (pool_of user st') k = page_addr (pool_of user st) k" by (simp add: m)
  have "group_at (bits_of (used_map (pool_of user st'))) k n True"
    using g by (simp add: m b group_at_def)
  from palloc_free_group [OF ok n this] obtain c where
    c: "palloc_free_multiple (page_addr (pool_of user st') k) n st' = Some ((set_map user c st')\<lparr>ram := pages_filled user k n 204 st'\<rparr>)"
    "bm_wf c" "bit_cnt c = bit_cnt (used_map (pool_of user st'))" "bits_of c = fill k n False (bits_of (used_map (pool_of user st')))"
    by blast
  have "palloc_ok ((set_map user c st')\<lparr>ram := pages_filled user k n 204 st'\<rparr>)"
    using palloc_ok_set_map [OF ok c(2,3)] by (rule palloc_ok_ram) (simp add: pages_filled_def mapped_put)
  moreover have "bits_of c = ?xs" using c(4) fill_back [OF g, of True] by (simp add: m b)
  moreover have "pool_of user ((set_map user c st')\<lparr>ram := r\<rparr>) = (pool_of user st')\<lparr>used_map := c\<rparr>"
    "pool_of (\<not> user) ((set_map user c st')\<lparr>ram := r\<rparr>) = pool_of (\<not> user) st'" for r
    by (auto simp: pool_of_def set_map_def)
  ultimately show ?thesis using c(1) unfolding a by (simp add: m(2))
qed

subsection \<open>The property\<close>

text \<open>C15: In a pool whose bitmap and pages are in order, palloc_get_multiple finds the first group of free
  pages that is long enough whenever there is one, returns the address of its first page, marks exactly these
  pages used, zeroes them when PAL_ZERO is given, and leaves the other pool, the rest of memory and the
  invariant as they were; palloc_free_multiple takes the group back, after which the same pages are free as
  before.  When no group is long enough, nothing changes and the result is a null pointer, or a panic under
  PAL_ASSERT.\<close>

theorem palloc_hands_out_free_pages:
  assumes "palloc_ok st" and "0 < n" and "user = (flags AND PAL_USER \<noteq> 0)"
  shows "if \<exists>k. group_at (bits_of (used_map (pool_of user st))) k n False
    then \<exists>k st'. palloc_get_multiple flags n st = Some (page_addr (pool_of user st) k, st') \<and> page_group_taken flags n k st st'
      \<and> (\<exists>st''. palloc_free_multiple (page_addr (pool_of user st) k) n st' = Some st'' \<and> palloc_ok st''
        \<and> bits_of (used_map (pool_of user st'')) = bits_of (used_map (pool_of user st))
        \<and> pool_of (\<not> user) st'' = pool_of (\<not> user) st)
    else palloc_get_multiple flags n st = (if flags AND PAL_ASSERT = 0 then Some (0, st) else None)"
proof (cases "\<exists>k. group_at (bits_of (used_map (pool_of user st))) k n False")
  case True
  from palloc_get_found [OF assms True] page_group_taken_back [OF assms(2,3)] show ?thesis unfolding if_P [OF True] by blast
next
  case False
  then show ?thesis unfolding if_not_P [OF False] by (rule palloc_get_none [OF assms])
qed

text \<open>A machine with two pools of three pages each, of which the first of the user pool is in use.\<close>

definition small_machine :: machine where
  "small_machine = \<lparr>ram = (\<lambda>_. Some 7),
     kernel_pool = \<lparr>used_map = \<lparr>bit_cnt = 3, elems = [0]\<rparr>, pool_base = 0xc0101000\<rparr>,
     user_pool = \<lparr>used_map = \<lparr>bit_cnt = 3, elems = [1]\<rparr>, pool_base = 0xc0105000\<rparr>,
     init_ram_pages = 1024, init_page_dir = 0, cr3 = 0, tlb = {}\<rparr>"

lemma small_machine_ok: "palloc_ok small_machine"
  by (simp add: palloc_ok_def pool_ok_def small_machine_def bm_wf_def mapped_def PHYS_BASE_def)

theorem palloc_hands_out_free_pages_witness:
  "(\<exists>k st'. palloc_get_multiple 6 2 small_machine = Some (page_addr (user_pool small_machine) k, st')
     \<and> page_group_taken 6 2 k small_machine st')
   \<and> palloc_get_multiple 6 3 small_machine = Some (0, small_machine)"
proof -
  have u: "True = ((6::u32) AND PAL_USER \<noteq> 0)" "(6::u32) AND PAL_ASSERT = 0" by (simp_all add: PAL_USER_def PAL_ASSERT_def)
  have bits: "bits_of (used_map (pool_of True small_machine)) = [True, False, False]"
    by (simp add: small_machine_def pool_of_def bits_of_def bit_of_def ELEM_BITS_def upt_rec)
  have g: "\<exists>k. group_at (bits_of (used_map (pool_of True small_machine))) k 2 False"
    unfolding bits by (intro exI [of _ 1]) (auto simp: group_at_def nth_Cons')
  have n: "\<not> (\<exists>k. group_at (bits_of (used_map (pool_of True small_machine))) k 3 False)"
    unfolding bits by (auto simp: group_at_def intro!: exI [of _ 0])
  show ?thesis
    using palloc_hands_out_free_pages [OF small_machine_ok _ u(1), of 2] palloc_hands_out_free_pages [OF small_machine_ok _ u(1), of 3]
    unfolding if_P [OF g] if_not_P [OF n] u(2) by (auto simp: pool_of_def)
qed

end
