(* ===== verification/PageDirTheorems.thy ===== *)
theory PageDirTheorems imports PageDir PageAllocTheorems begin

section \<open>Page directories as maps from pages to entries\<close>

text \<open>
  \<open>dirs_ok st D\<close> is the shape of the page directories in memory: \<open>D\<close> are the pages of the kernel pool that are
  directories; every user slot of one is zero or refers to a used page that is no directory, and no two slots
  of all the directories refer to the same page.  \<open>entry\<close> reads a directory as the map it stands for, and the
  operations are shown to change this map, and that of no other directory.
\<close>

subsection \<open>Numbers of entries\<close>

lemma unat_pd_no: "unat (pd_no va) = unat va div 2 ^ 22"
  by (simp add: pd_no_def PDSHIFT_def PTSHIFT_def PTBITS_def PGBITS_def drop_bit_eq_div unat_div)

lemma pt_no_take: "pt_no va = take_bit 10 (drop_bit 12 va)"
proof -
  have m: "PTMASK = push_bit 12 (mask 10)"
    by (simp add: PTMASK_def BITMASK_def PTSHIFT_def PTBITS_def PGBITS_def mask_eq_exp_minus_1)
  show ?thesis unfolding pt_no_def PTSHIFT_def PGBITS_def m
    by (rule bit_word_eqI) (auto simp: bit_simps dest: bit_imp_le_length)
qed

lemma unat_pt_no: "unat (pt_no va) = unat va div 4096 mod 1024"
  unfolding pt_no_take by (simp add: drop_bit_eq_div take_bit_eq_mod unat_div unat_mod)

lemma pt_no_less: "unat (pt_no va) < 1024"
  by (simp add: unat_pt_no)

lemma user_pd_no: "is_user_vaddr va \<Longrightarrow> unat (pd_no va) < 768"
  unfolding unat_pd_no by (rule less_mult_imp_div_less) (simp add: is_user_vaddr_def PHYS_BASE_def word_less_nat_alt)

lemma pg_no_split: "unat (pg_no va) = 1024 * unat (pd_no va) + unat (pt_no va)"
proof -
  have "unat va div 2 ^ 22 = unat va div 4096 div 1024" by (simp add: div_mult2_eq [symmetric])
  then show ?thesis by (simp add: unat_pg_no unat_pd_no unat_pt_no)
qed

lemma same_page: "pg_no va = pg_no va' \<longleftrightarrow> pd_no va = pd_no va' \<and> pt_no va = pt_no va'"
proof
  assume "pg_no va = pg_no va'"
  then have "1024 * unat (pd_no va) + unat (pt_no va) = 1024 * unat (pd_no va') + unat (pt_no va')" by (metis pg_no_split)
  moreover have "(1024 * a + b) div 1024 = a" if "b < 1024" for a b :: nat using that by simp
  ultimately have "unat (pd_no va) = unat (pd_no va')" "unat (pt_no va) = unat (pt_no va')"
    using pt_no_less by (metis, metis add_left_cancel pt_no_less)
  then show "pd_no va = pd_no va' \<and> pt_no va = pt_no va'" by (simp only: unsigned_word_eqI simp_thms)
next
  assume "pd_no va = pd_no va' \<and> pt_no va = pt_no va'"
  then have "unat (pg_no va) = unat (pg_no va')" by (simp add: pg_no_split)
  then show "pg_no va = pg_no va'" by (rule unsigned_word_eqI)
qed

lemma same_page_unat:
  "pg_no va = pg_no va' \<longleftrightarrow> unat (pd_no va) = unat (pd_no va') \<and> unat (pt_no va) = unat (pt_no va')"
  unfolding same_page by (auto intro: unsigned_word_eqI)

subsection \<open>Words of the kernel's pages\<close>

abbreviation kpage :: "machine \<Rightarrow> nat \<Rightarrow> u32" where
  "kpage st \<equiv> page_addr (kernel_pool st)"

definition kused :: "machine \<Rightarrow> nat \<Rightarrow> bool" where
  "kused st i = (i < bit_cnt (used_map (kernel_pool st)) \<and> bits_of (used_map (kernel_pool st)) ! i)"

definition slot :: "machine \<Rightarrow> nat \<Rightarrow> nat \<Rightarrow> u32" where
  "slot st i d = word_at (ram st) (unat (kpage st i) + 4 * d)"

lemma kernel_pool_ok: "palloc_ok st \<Longrightarrow> pool_ok (ram st) (kernel_pool st)"
  by (simp add: palloc_ok_def)

lemma kpage_word:
  assumes "palloc_ok st" "i < bit_cnt (used_map (kernel_pool st))" "w < 2 ^ 10"
  shows "unat (kpage st i + 4 * (word_of_nat w :: u32)) = unat (kpage st i) + 4 * w"
proof -
  have "unat (kpage st i) = unat (pool_base (kernel_pool st)) + 4096 * i"
    "unat (pool_base (kernel_pool st)) + 4096 * bit_cnt (used_map (kernel_pool st)) < 2 ^ 32"
    using assms unat_page_addr [OF kernel_pool_ok [OF assms(1)], of i] by (simp_all add: palloc_ok_def pool_ok_def)
  then have "unat (kpage st i) + 4 * w < 2 ^ 32" using assms(2,3) by simp
  moreover have "unat (word_of_nat w :: u32) = w" using assms(3) by (simp add: unsigned_of_nat take_bit_nat_eq_self)
  then have "unat (4 * word_of_nat w :: u32) = 4 * w" using assms(3) by (simp add: unat_word_ariths)
  ultimately show ?thesis by (simp add: unat_word_ariths)
qed

lemma kpage_word_mapped:
  assumes "palloc_ok st" "i < bit_cnt (used_map (kernel_pool st))" "w < 2 ^ 10"
  shows "mapped (ram st) (unat (kpage st i) + 4 * w) 4"
  using pages_mapped [OF kernel_pool_ok [OF assms(1)], of i 1] assms(2,3) by (auto elim!: mapped_mono)

lemma get_slot:
  assumes "palloc_ok st" "i < bit_cnt (used_map (kernel_pool st))" "w < 2 ^ 10"
  shows "get_word st (kpage st i + 4 * word_of_nat w) = Some (slot st i w)"
  using load32_mapped [OF kpage_word_mapped [OF assms]] by (simp add: get_word_def slot_def kpage_word [OF assms])

definition put_slot :: "nat \<Rightarrow> nat \<Rightarrow> u32 \<Rightarrow> machine \<Rightarrow> machine" where
  "put_slot i w e st = st\<lparr>ram := put (unat (kpage st i) + 4 * w) (bytes_of_u32 e) (ram st)\<rparr>"

lemma set_slot:
  assumes "palloc_ok st" "i < bit_cnt (used_map (kernel_pool st))" "w < 2 ^ 10"
  shows "set_word (kpage st i + 4 * word_of_nat w) e st = Some (put_slot i w e st)"
  using store32_mapped [OF kpage_word_mapped [OF assms]] by (simp add: set_word_def put_slot_def kpage_word [OF assms])

lemma put_slot_fields [simp]:
  "kernel_pool (put_slot i w e st) = kernel_pool st" "user_pool (put_slot i w e st) = user_pool st"
  "init_page_dir (put_slot i w e st) = init_page_dir st" "init_ram_pages (put_slot i w e st) = init_ram_pages st"
  "cr3 (put_slot i w e st) = cr3 st" "tlb (put_slot i w e st) = tlb st" "kused (put_slot i w e st) = kused st"
  by (simp_all add: put_slot_def kused_def [abs_def])

lemma palloc_ok_put_slot: "palloc_ok st \<Longrightarrow> palloc_ok (put_slot i w e st)"
  unfolding put_slot_def by (rule palloc_ok_ram) (auto simp: mapped_put)

lemma slot_put_slot:
  assumes "palloc_ok st" "i < bit_cnt (used_map (kernel_pool st))" "w < 2 ^ 10" "j < bit_cnt (used_map (kernel_pool st))" "v < 2 ^ 10"
  shows "slot (put_slot i w e st) j v = (if i = j \<and> w = v then e else slot st j v)"
proof (cases "i = j \<and> w = v")
  case True
  then show ?thesis by (simp add: slot_def put_slot_def word_at_put)
next
  case False
  have "unat (kpage st i) = unat (pool_base (kernel_pool st)) + 4096 * i" "unat (kpage st j) = unat (pool_base (kernel_pool st)) + 4096 * j"
    using assms(2,4) unat_page_addr [OF kernel_pool_ok [OF assms(1)]] by simp_all
  moreover have "4096 * j + 4 * v + 4 \<le> 4096 * i + 4 * w \<or> 4096 * i + 4 * w + 4 \<le> 4096 * j + 4 * v"
    using False assms(3,5) by (cases i j rule: linorder_cases) auto
  ultimately have "unat (kpage st j) + 4 * v + 4 \<le> unat (kpage st i) + 4 * w \<or> unat (kpage st i) + 4 * w + 4 \<le> unat (kpage st j) + 4 * v"
    by linarith
  then have "word_at (put (unat (kpage st i) + 4 * w) (bytes_of_u32 e) (ram st)) (unat (kpage st j) + 4 * v)
      = word_at (ram st) (unat (kpage st j) + 4 * v)" by (intro word_at_put_other) simp
  then show ?thesis unfolding if_not_P [OF False] by (simp add: slot_def put_slot_def)
qed

text \<open>The user pool lies behind the kernel pool: \<open>st'\<close> has the pools and the memory of the user pool of \<open>st\<close>.\<close>

definition same_user_mem :: "machine \<Rightarrow> machine \<Rightarrow> bool" where
  "same_user_mem st st' = (user_pool st' = user_pool st \<and> init_page_dir st' = init_page_dir st
     \<and> init_ram_pages st' = init_ram_pages st \<and> (\<forall>a \<ge> unat (pool_base (user_pool st)). ram st' a = ram st a))"

lemma same_user_mem_refl [simp]: "same_user_mem st st"
  by (simp add: same_user_mem_def)

lemma same_user_mem_trans: "same_user_mem st st' \<Longrightarrow> same_user_mem st' st'' \<Longrightarrow> same_user_mem st st''"
  by (simp add: same_user_mem_def)

lemma put_below_user:
  assumes "palloc_ok st" "j < bit_cnt (used_map (kernel_pool st))" "o' + length bs \<le> 4096" "unat (pool_base (user_pool st)) \<le> a"
  shows "put (unat (kpage st j) + o') bs m a = m a"
proof -
  have "unat (kpage st j) = unat (pool_base (kernel_pool st)) + 4096 * j"
    using assms(2) unat_page_addr [OF kernel_pool_ok [OF assms(1)]] by simp
  moreover have "unat (pool_base (kernel_pool st)) + 4096 * bit_cnt (used_map (kernel_pool st)) \<le> unat (pool_base (user_pool st))"
    using assms(1) by (simp add: palloc_ok_def)
  ultimately have "unat (kpage st j) + o' + length bs \<le> a" using assms(2-4) by linarith
  then show ?thesis by (simp add: put_def)
qed

lemma same_user_mem_put_slot:
  "palloc_ok st \<Longrightarrow> j < bit_cnt (used_map (kernel_pool st)) \<Longrightarrow> w < 2 ^ 10 \<Longrightarrow> same_user_mem st (put_slot j w e st)"
  using put_below_user [of st j "4 * w" "bytes_of_u32 e"] by (simp add: same_user_mem_def put_slot_def)

subsection \<open>Directories\<close>

text \<open>The entry \<open>e\<close> of a directory refers to the page \<open>j\<close> of the kernel pool.\<close>

definition table_is :: "machine \<Rightarrow> u32 \<Rightarrow> nat \<Rightarrow> bool" where
  "table_is st e j = (e AND PTE_P \<noteq> 0 \<and> kused st j \<and> e AND PTE_ADDR = kpage st j - PHYS_BASE)"

definition dirs_ok :: "machine \<Rightarrow> nat set \<Rightarrow> bool" where
  "dirs_ok st D = (palloc_ok st
     \<and> (\<forall>i \<in> D. kused st i \<and> (\<forall>d < 768. slot st i d = 0 \<or> (\<exists>j. j \<notin> D \<and> table_is st (slot st i d) j)))
     \<and> (\<forall>i \<in> D. \<forall>i' \<in> D. \<forall>d < 768. \<forall>d' < 768. \<forall>j. slot st i d \<noteq> 0 \<and> slot st i' d' \<noteq> 0
          \<and> table_is st (slot st i d) j \<and> table_is st (slot st i' d') j \<longrightarrow> i = i' \<and> d = d'))"

text \<open>The entry of a virtual address, 0 where the directory has no table.\<close>

definition entry :: "machine \<Rightarrow> nat \<Rightarrow> u32 \<Rightarrow> u32" where
  "entry st i va = (let e = slot st i (unat (pd_no va)) in
     if e = 0 then 0 else word_at (ram st) (unat ((e AND PTE_ADDR) + PHYS_BASE) + 4 * unat (pt_no va)))"

lemma dirs_okD:
  assumes "dirs_ok st D" "i \<in> D"
  shows "palloc_ok st" "kused st i" "i < bit_cnt (used_map (kernel_pool st))"
  using assms by (auto simp: dirs_ok_def kused_def)

lemma table_of_slot:
  assumes "dirs_ok st D" "i \<in> D" "d < 768" "slot st i d \<noteq> 0"
  obtains j where "j \<notin> D" "table_is st (slot st i d) j" "j < bit_cnt (used_map (kernel_pool st))"
proof -
  have "\<exists>j. j \<notin> D \<and> table_is st (slot st i d) j" using assms(1-4) unfolding dirs_ok_def by blast
  then show thesis using that by (auto simp: table_is_def kused_def)
qed

lemma table_shared:
  assumes "dirs_ok st D" "i \<in> D" "i' \<in> D" "d < 768" "d' < 768"
    and "slot st i d \<noteq> 0" "slot st i' d' \<noteq> 0" "table_is st (slot st i d) j" "table_is st (slot st i' d') j"
  shows "i = i' \<and> d = d'"
  using assms unfolding dirs_ok_def by blast

lemma table_address: "table_is st e j \<Longrightarrow> (e AND PTE_ADDR) + PHYS_BASE = kpage st j"
  by (simp add: table_is_def)

lemma kpage_kernel:
  assumes "palloc_ok st" "j < bit_cnt (used_map (kernel_pool st))"
  shows "PHYS_BASE \<le> kpage st j" "kpage st j - PHYS_BASE < PHYS_BASE" "kpage st j \<noteq> 0" "pg_ofs (kpage st j) = 0"
proof -
  note f = page_addr_facts [OF kernel_pool_ok [OF assms(1)] assms(2)]
  show a: "PHYS_BASE \<le> kpage st j" using f(4) by (simp add: word_le_nat_alt)
  show "kpage st j \<noteq> 0" "pg_ofs (kpage st j) = 0" by (rule f)+
  have "unat (kpage st j) < 2 ^ 32" using unsigned_less [of "kpage st j"] by simp
  then show "kpage st j - PHYS_BASE < PHYS_BASE"
    using a by (simp add: word_less_nat_alt unat_sub PHYS_BASE_def)
qed

lemma entry_slot:
  assumes "dirs_ok st D" "i \<in> D" "is_user_vaddr va" "table_is st (slot st i (unat (pd_no va))) j"
  shows "entry st i va = (if slot st i (unat (pd_no va)) = 0 then 0 else slot st j (unat (pt_no va)))"
  unfolding entry_def Let_def table_address [OF assms(4)] by (simp add: slot_def)

lemma entry_0: "slot st i (unat (pd_no va)) = 0 \<Longrightarrow> entry st i va = 0"
  by (simp add: entry_def)

lemma kpage_inj:
  "palloc_ok st \<Longrightarrow> i < bit_cnt (used_map (kernel_pool st)) \<Longrightarrow> j < bit_cnt (used_map (kernel_pool st)) \<Longrightarrow>
     kpage st i = kpage st j \<longleftrightarrow> i = j"
  using page_addr_inj [OF kernel_pool_ok] .

lemma table_is_inj: "palloc_ok st \<Longrightarrow> table_is st e j \<Longrightarrow> table_is st e j' \<Longrightarrow> j = j'"
  by (auto simp: table_is_def kused_def dest: kpage_inj [of st j j'])

subsection \<open>Changing an entry of a table\<close>

lemma table_is_put_slot [simp]: "table_is (put_slot i w v st) = table_is st"
  by (simp add: table_is_def [abs_def])

lemma change_entry:
  assumes ok: "dirs_ok st D" and i: "i \<in> D" and d: "d < 768" and n: "slot st i d \<noteq> 0"
    and t: "table_is st (slot st i d) j" "j \<notin> D" and w: "w < 2 ^ 10"
  shows "dirs_ok (put_slot j w v st) D"
    "i' \<in> D \<Longrightarrow> is_user_vaddr va \<Longrightarrow>
       entry (put_slot j w v st) i' va = (if i' = i \<and> unat (pd_no va) = d \<and> unat (pt_no va) = w then v else entry st i' va)"
proof -
  have p: "palloc_ok st" and j: "j < bit_cnt (used_map (kernel_pool st))"
    using ok t(1) by (auto simp: dirs_ok_def table_is_def kused_def)
  have same: "slot (put_slot j w v st) k c = slot st k c" if "k \<in> D" "c < 768" for k c
  proof -
    have "k \<noteq> j" "k < bit_cnt (used_map (kernel_pool st))" using that(1) t(2) dirs_okD(3) [OF ok] by auto
    then show ?thesis using slot_put_slot [OF p j w, of k c] that(2) by simp
  qed
  show "dirs_ok (put_slot j w v st) D"
    using ok unfolding dirs_ok_def by (simp add: same palloc_ok_put_slot)
  assume i': "i' \<in> D" and va: "is_user_vaddr va"
  have c: "unat (pd_no va) < 768" using va by (rule user_pd_no)
  show "entry (put_slot j w v st) i' va = (if i' = i \<and> unat (pd_no va) = d \<and> unat (pt_no va) = w then v else entry st i' va)"
  proof (cases "slot st i' (unat (pd_no va)) = 0")
    case True
    then have "\<not> (i' = i \<and> unat (pd_no va) = d)" using n by auto
    then show ?thesis using True same [OF i' c] by (auto simp: entry_0)
  next
    case False
    obtain k where k: "table_is st (slot st i' (unat (pd_no va))) k" "k < bit_cnt (used_map (kernel_pool st))"
      using table_of_slot [OF ok i' c False] by blast
    have e: "entry (put_slot j w v st) i' va = slot (put_slot j w v st) k (unat (pt_no va))"
      using False same [OF i' c] table_address [OF k(1)] by (simp add: entry_def Let_def slot_def)
    have "k = j \<longleftrightarrow> i' = i \<and> unat (pd_no va) = d"
      using table_shared [OF ok i i' d c n False t(1)] k(1) t(1) table_is_inj [OF p] by auto
    then show ?thesis
      using e slot_put_slot [OF p j w k(2), of "unat (pt_no va)" v] pt_no_less [of va] entry_slot [OF ok i' va k(1)] False by auto
  qed
qed

subsection \<open>Other changes of memory\<close>

text \<open>Memory has changed outside the used pages of the kernel pool, and more of these may be in use.\<close>

definition kernel_extends :: "machine \<Rightarrow> machine \<Rightarrow> bool" where
  "kernel_extends st st' = (palloc_ok st' \<and> pool_base (kernel_pool st') = pool_base (kernel_pool st)
     \<and> bit_cnt (used_map (kernel_pool st')) = bit_cnt (used_map (kernel_pool st))
     \<and> (\<forall>j. kused st j \<longrightarrow> kused st' j) \<and> (\<forall>j w. kused st j \<and> w < 2 ^ 10 \<longrightarrow> slot st' j w = slot st j w))"

lemma kpage_extends: "kernel_extends st st' \<Longrightarrow> kpage st' = kpage st"
  by (rule ext) (simp add: kernel_extends_def page_addr_def)

lemma table_is_extends: "kernel_extends st st' \<Longrightarrow> table_is st e j \<Longrightarrow> table_is st' e j"
  by (simp add: table_is_def kpage_extends) (simp add: kernel_extends_def)

lemma table_is_extends_back:
  "kernel_extends st st' \<Longrightarrow> table_is st' e j \<Longrightarrow> table_is st e j' \<Longrightarrow> j = j'"
  using table_is_inj [of st' e j j'] table_is_extends [of st st' e j'] by (simp add: kernel_extends_def)

lemma slot_extends: "kernel_extends st st' \<Longrightarrow> kused st j \<Longrightarrow> w < 2 ^ 10 \<Longrightarrow> slot st' j w = slot st j w"
  by (simp add: kernel_extends_def)

lemma dirs_extend:
  assumes ok: "dirs_ok st D" and ext: "kernel_extends st st'"
  shows "dirs_ok st' D" "i \<in> D \<Longrightarrow> is_user_vaddr va \<Longrightarrow> entry st' i va = entry st i va"
proof -
  have s: "slot st' i d = slot st i d" if "i \<in> D" "d < 768" for i d
    using slot_extends [OF ext dirs_okD(2) [OF ok that(1)]] that(2) by simp
  have one: "kused st' i \<and> (\<forall>d < 768. slot st' i d = 0 \<or> (\<exists>j. j \<notin> D \<and> table_is st' (slot st' i d) j))" if "i \<in> D" for i
  proof (intro conjI allI impI)
    show "kused st' i" using ext dirs_okD(2) [OF ok that] by (simp add: kernel_extends_def)
    fix d :: nat
    assume "d < 768"
    then show "slot st' i d = 0 \<or> (\<exists>j. j \<notin> D \<and> table_is st' (slot st' i d) j)"
      using table_of_slot [OF ok that, of d] table_is_extends [OF ext] s [OF that] by metis
  qed
  have two: "i = i' \<and> d = d'" if a: "i \<in> D" "i' \<in> D" "d < 768" "d' < 768" "slot st' i d \<noteq> 0" "slot st' i' d' \<noteq> 0"
    "table_is st' (slot st' i d) j" "table_is st' (slot st' i' d') j" for i i' d d' j
  proof -
    have e: "slot st i d = slot st' i d" "slot st i' d' = slot st' i' d'" using s a(1-4) by simp_all
    have n: "slot st i d \<noteq> 0" "slot st i' d' \<noteq> 0" unfolding e by (rule a)+
    obtain k where k: "table_is st (slot st i d) k" using table_of_slot [OF ok a(1,3) n(1)] by blast
    obtain k' where k': "table_is st (slot st i' d') k'" using table_of_slot [OF ok a(2,4) n(2)] by blast
    have "j = k" "j = k'"
      using table_is_extends_back [OF ext a(7)] table_is_extends_back [OF ext a(8)] k k' unfolding e by blast+
    then show ?thesis using table_shared [OF ok a(1-4) n] k k' by blast
  qed
  have "palloc_ok st'" using ext by (simp add: kernel_extends_def)
  then show "dirs_ok st' D" unfolding dirs_ok_def using one two by blast
  assume i: "i \<in> D" and va: "is_user_vaddr va"
  show "entry st' i va = entry st i va"
  proof (cases "slot st i (unat (pd_no va)) = 0")
    case False
    obtain j where j: "table_is st (slot st i (unat (pd_no va))) j"
      using table_of_slot [OF ok i user_pd_no [OF va] False] by blast
    then have "slot st' j (unat (pt_no va)) = slot st j (unat (pt_no va))"
      using slot_extends [OF ext] pt_no_less [of va] by (simp add: table_is_def)
    then show ?thesis using False s [OF i user_pd_no [OF va]] table_address [OF j] kpage_extends [OF ext]
      by (simp add: entry_def Let_def slot_def)
  qed (use s [OF i user_pd_no [OF va]] in \<open>simp add: entry_0\<close>)
qed

text \<open>A fresh page becomes a table of an empty slot.\<close>

lemma add_table:
  assumes ok: "dirs_ok st D" and i: "i \<in> D" and d: "d < 768" and empty: "slot st i d = 0"
    and k: "k \<notin> D" "table_is st e k" "e \<noteq> 0" and fresh: "\<And>i' d'. i' \<in> D \<Longrightarrow> d' < 768 \<Longrightarrow> \<not> table_is st (slot st i' d') k"
    and zero: "\<And>w. w < 2 ^ 10 \<Longrightarrow> slot st k w = 0"
  shows "dirs_ok (put_slot i d e st) D" "i' \<in> D \<Longrightarrow> is_user_vaddr va \<Longrightarrow> entry (put_slot i d e st) i' va = entry st i' va"
proof -
  have p: "palloc_ok st" "i < bit_cnt (used_map (kernel_pool st))" using dirs_okD [OF ok i] by auto
  have s: "slot (put_slot i d e st) j c = (if i = j \<and> d = c then e else slot st j c)" if "kused st j" "c < 2 ^ 10" for j c
    using slot_put_slot [OF p, of d j c] d that by (simp add: kused_def)
  have sD: "slot (put_slot i d e st) j c = (if i = j \<and> d = c then e else slot st j c)" if "j \<in> D" "c < 768" for j c
    using s [OF dirs_okD(2) [OF ok that(1)], of c] that(2) by simp
  show "dirs_ok (put_slot i d e st) D"
    unfolding dirs_ok_def
  proof (intro conjI ballI allI impI)
    show "palloc_ok (put_slot i d e st)" using p(1) by (rule palloc_ok_put_slot)
  next
    fix j
    assume j: "j \<in> D"
    then show "kused (put_slot i d e st) j" using dirs_okD(2) [OF ok] by simp
    fix c :: nat
    assume "c < 768"
    then show "slot (put_slot i d e st) j c = 0 \<or> (\<exists>l. l \<notin> D \<and> table_is (put_slot i d e st) (slot (put_slot i d e st) j c) l)"
      using table_of_slot [OF ok j \<open>c < 768\<close>] k(1,2) unfolding sD [OF j \<open>c < 768\<close>] table_is_put_slot
      by (cases "i = j \<and> d = c"; cases "slot st j c = 0") auto
  next
    fix j j' c c' l
    assume J: "j \<in> D" "j' \<in> D" "c < 768" "c' < 768"
      and n: "slot (put_slot i d e st) j c \<noteq> 0 \<and> slot (put_slot i d e st) j' c' \<noteq> 0
        \<and> table_is (put_slot i d e st) (slot (put_slot i d e st) j c) l \<and> table_is (put_slot i d e st) (slot (put_slot i d e st) j' c') l"
    have l: "l = k" if "table_is st e l" using table_is_inj [OF p(1) that k(2)] .
    have "j = j' \<and> c = c'"
    proof (cases "i = j \<and> d = c"; cases "i = j' \<and> d = c'")
      assume "i = j \<and> d = c" "\<not> (i = j' \<and> d = c')"
      then show ?thesis using n l fresh [OF J(2,4)] unfolding sD [OF J(1,3)] sD [OF J(2,4)] table_is_put_slot by (auto split: if_splits)
    next
      assume "\<not> (i = j \<and> d = c)" "i = j' \<and> d = c'"
      then show ?thesis using n l fresh [OF J(1,3)] unfolding sD [OF J(1,3)] sD [OF J(2,4)] table_is_put_slot by (auto split: if_splits)
    next
      assume "\<not> (i = j \<and> d = c)" "\<not> (i = j' \<and> d = c')"
      then show ?thesis using n table_shared [OF ok J] unfolding sD [OF J(1,3)] sD [OF J(2,4)] table_is_put_slot
        by (auto split: if_splits)
    qed simp
    then show "j = j'" "c = c'" by simp_all
  qed
  assume i': "i' \<in> D" and va: "is_user_vaddr va"
  let ?c = "unat (pd_no va)"
  show "entry (put_slot i d e st) i' va = entry st i' va"
  proof (cases "i' = i \<and> ?c = d")
    case True
    then have "entry (put_slot i d e st) i' va = slot (put_slot i d e st) k (unat (pt_no va))"
      using sD [OF i' user_pd_no [OF va]] k(3) table_address [OF k(2)] by (simp add: entry_def Let_def slot_def)
    also have "\<dots> = 0"
      using s [of k "unat (pt_no va)"] k(1,2) i zero pt_no_less [of va] by (auto simp: table_is_def)
    finally show ?thesis using True empty by (simp add: entry_0)
  next
    case False
    then have same: "slot (put_slot i d e st) i' ?c = slot st i' ?c" using sD [OF i' user_pd_no [OF va]] by auto
    show ?thesis
    proof (cases "slot st i' ?c = 0")
      case False
      obtain j where j: "j \<notin> D" "table_is st (slot st i' ?c) j" using table_of_slot [OF ok i' user_pd_no [OF va] False] by blast
      then have "slot (put_slot i d e st) j (unat (pt_no va)) = slot st j (unat (pt_no va))"
        using s [of j "unat (pt_no va)"] i pt_no_less [of va] by (auto simp: table_is_def)
      then show ?thesis using same False table_address [OF j(2)] by (simp add: entry_def Let_def slot_def)
    qed (use same in \<open>simp add: entry_0\<close>)
  qed
qed

subsection \<open>Looking up an entry\<close>

lemma get_dir_slot:
  assumes "dirs_ok st D" "i \<in> D" "is_user_vaddr va"
  shows "get_word st (kpage st i + 4 * pd_no va) = Some (slot st i (unat (pd_no va)))"
  using get_slot [OF dirs_okD(1,3) [OF assms(1,2)], of "unat (pd_no va)"] user_pd_no [OF assms(3)] by simp

lemma pde_get_pt_table:
  assumes "palloc_ok st" "table_is st e j"
  shows "pde_get_pt e = Some (kpage st j)"
proof -
  have j: "j < bit_cnt (used_map (kernel_pool st))" using assms(2) by (simp add: table_is_def kused_def)
  have e: "e AND PTE_ADDR = kpage st j - PHYS_BASE" "e AND PTE_P \<noteq> 0" using assms(2) by (simp_all add: table_is_def)
  show ?thesis unfolding pde_get_pt_def ptov_def e(1) using e(2) kpage_kernel(2) [OF assms(1) j] by simp
qed

lemma lookup_table:
  assumes ok: "dirs_ok st D" "i \<in> D" "is_user_vaddr va" and t: "slot st i (unat (pd_no va)) \<noteq> 0"
    "table_is st (slot st i (unat (pd_no va))) j"
  shows "lookup_page (kpage st i) va create st = Some (kpage st j + 4 * word_of_nat (unat (pt_no va)), st)"
  using get_dir_slot [OF ok] pde_get_pt_table [OF dirs_okD(1) [OF ok(1,2)] t(2)] t(1) ok(3) kpage_kernel(3) [OF dirs_okD(1,3) [OF ok(1,2)]]
  by (simp add: lookup_page_def Let_def)

lemma lookup_no_table:
  assumes ok: "dirs_ok st D" "i \<in> D" "is_user_vaddr va" and t: "slot st i (unat (pd_no va)) = 0"
  shows "lookup_page (kpage st i) va False st = Some (0, st)"
  using get_dir_slot [OF ok] t kpage_kernel(3) [OF dirs_okD(1,3) [OF ok(1,2)]] by (simp add: lookup_page_def Let_def)

lemma entry_address_nonzero:
  assumes "palloc_ok st" "j < bit_cnt (used_map (kernel_pool st))" "w < 2 ^ 10"
  shows "kpage st j + 4 * word_of_nat w \<noteq> 0"
proof -
  have "0 < unat (kpage st j)" using kpage_kernel(3) [OF assms(1,2)] by (simp add: unat_gt_0)
  then have "unat (kpage st j + 4 * (word_of_nat w :: u32)) \<noteq> 0" using kpage_word [OF assms] by simp
  then show ?thesis by auto
qed

text \<open>A lookup that does not create anything: the entry is read, in place, or there is none.\<close>

lemma lookup_read:
  assumes ok: "dirs_ok st D" "i \<in> D" "is_user_vaddr va"
  shows "(lookup_page (kpage st i) va False st = Some (0, st) \<and> entry st i va = 0 \<and> slot st i (unat (pd_no va)) = 0) \<or>
    (\<exists>j. lookup_page (kpage st i) va False st = Some (kpage st j + 4 * word_of_nat (unat (pt_no va)), st)
      \<and> kpage st j + 4 * word_of_nat (unat (pt_no va)) \<noteq> 0 \<and> j \<notin> D \<and> slot st i (unat (pd_no va)) \<noteq> 0
      \<and> table_is st (slot st i (unat (pd_no va))) j \<and> j < bit_cnt (used_map (kernel_pool st))
      \<and> get_word st (kpage st j + 4 * word_of_nat (unat (pt_no va))) = Some (entry st i va))"
proof (cases "slot st i (unat (pd_no va)) = 0")
  case True
  then show ?thesis using lookup_no_table [OF ok] by (simp add: entry_0)
next
  case False
  obtain j where j: "j \<notin> D" "table_is st (slot st i (unat (pd_no va))) j" "j < bit_cnt (used_map (kernel_pool st))"
    using table_of_slot [OF ok(1,2) user_pd_no [OF ok(3)] False] by blast
  have w: "unat (pt_no va) < 2 ^ 10" using pt_no_less [of va] by simp
  have "get_word st (kpage st j + 4 * word_of_nat (unat (pt_no va))) = Some (entry st i va)"
    using get_slot [OF dirs_okD(1) [OF ok(1,2)] j(3) w] entry_slot [OF ok j(2)] False by simp
  then show ?thesis
    using lookup_table [OF ok False j(2)] entry_address_nonzero [OF dirs_okD(1) [OF ok(1,2)] j(3) w] j False by blast
qed

subsection \<open>A page of the kernel pool\<close>

lemma slot_put_page:
  assumes p: "palloc_ok st" and j: "j < bit_cnt (used_map (kernel_pool st))" and k: "k < bit_cnt (used_map (kernel_pool st))"
    and ne: "j \<noteq> k" and v: "v < 2 ^ 10" and len: "length bs \<le> 4096"
  shows "word_at (put (unat (kpage st k)) bs m) (unat (kpage st j) + 4 * v) = word_at m (unat (kpage st j) + 4 * v)"
proof -
  have "unat (kpage st k) = unat (pool_base (kernel_pool st)) + 4096 * k" "unat (kpage st j) = unat (pool_base (kernel_pool st)) + 4096 * j"
    using j k unat_page_addr [OF kernel_pool_ok [OF p]] by simp_all
  moreover have "4096 * j + 4 * v + 4 \<le> 4096 * k \<or> 4096 * k + 4096 \<le> 4096 * j + 4 * v"
    using ne v by (cases j k rule: linorder_cases) auto
  ultimately show ?thesis using len by (intro word_at_put_other) linarith
qed

lemma kernel_page_taken:
  assumes ok: "dirs_ok st D" and t: "page_group_taken flags 1 k st st1" and user: "flags AND PAL_USER = 0"
  shows "kernel_extends st st1" "\<not> kused st k" "kused st1 k" "k < bit_cnt (used_map (kernel_pool st))"
    "flags AND PAL_ZERO \<noteq> 0 \<Longrightarrow> w < 2 ^ 10 \<Longrightarrow> slot st1 k w = 0"
    "init_page_dir st1 = init_page_dir st" "init_ram_pages st1 = init_ram_pages st" "user_pool st1 = user_pool st"
    "cr3 st1 = cr3 st" "tlb st1 = tlb st" "k \<notin> D"
    "i \<in> D \<Longrightarrow> d < 768 \<Longrightarrow> \<not> table_is st1 (slot st1 i d) k" "same_user_mem st st1"
proof -
  let ?n = "bit_cnt (used_map (kernel_pool st))"
  let ?m = "if flags AND PAL_ZERO \<noteq> 0 then pages_filled False k 1 0 st else ram st"
  have f: "(flags AND PAL_USER \<noteq> 0) = False" "pool_of False st = kernel_pool st" using user by (simp_all add: pool_of_def)
  from t [unfolded page_group_taken_def Let_def f] obtain b where
    b: "st1 = (set_map False b st)\<lparr>ram := ?m\<rparr>" "bits_of b = fill k 1 True (bits_of (used_map (kernel_pool st)))"
    and g: "group_at (bits_of (used_map (kernel_pool st))) k 1 False" and ok1: "palloc_ok st1"
    by blast
  have len: "bit_cnt b = ?n" using arg_cong [OF b(2), of length] by simp
  show k: "k < ?n" using g by (simp add: group_at_def)
  have kp: "kernel_pool st1 = (kernel_pool st)\<lparr>used_map := b\<rparr>" "ram st1 = ?m" using b(1) by (auto simp: set_map_def)
  show fresh: "\<not> kused st k" using g by (auto simp: kused_def group_at_def)
  show "kused st1 k" using k by (simp add: kused_def kp b(2) len)
  have p: "palloc_ok st" using ok by (simp add: dirs_ok_def)
  have keep: "slot st1 j v = slot st j v" if "kused st j" "v < 2 ^ 10" for j v
  proof -
    have j: "j < ?n" "j \<noteq> k" using that(1) fresh by (auto simp: kused_def)
    show ?thesis
      using slot_put_page [OF p j(1) k j(2) that(2)] by (simp add: slot_def kp pages_filled_def pool_of_def)
  qed
  have more: "kused st1 j" if "kused st j" for j using that by (auto simp: kused_def kp len b(2))
  show ext: "kernel_extends st st1"
    unfolding kernel_extends_def using ok1 keep more by (auto simp: kp len)
  show "flags AND PAL_ZERO \<noteq> 0 \<Longrightarrow> w < 2 ^ 10 \<Longrightarrow> slot st1 k w = 0"
    by (auto simp: slot_def kp pages_filled_def pool_of_def intro!: word_at_zeros)
  show "init_page_dir st1 = init_page_dir st" "init_ram_pages st1 = init_ram_pages st" "user_pool st1 = user_pool st"
    "cr3 st1 = cr3 st" "tlb st1 = tlb st" using b(1) by (simp_all add: set_map_def)
  have "put (unat (kpage st k)) (replicate 4096 0) (ram st) a = ram st a" if "unat (pool_base (user_pool st)) \<le> a" for a
    using put_below_user [OF p k _ that, of 0] by simp
  then show "same_user_mem st st1" using b(1) by (simp add: same_user_mem_def kp set_map_def pages_filled_def pool_of_def)
  show "k \<notin> D" using fresh dirs_okD(2) [OF ok] by blast
  assume i: "i \<in> D" and d: "d < 768"
  show "\<not> table_is st1 (slot st1 i d) k"
  proof
    assume a: "table_is st1 (slot st1 i d) k"
    have s: "slot st1 i d = slot st i d" using keep [OF dirs_okD(2) [OF ok i]] d by simp
    then have "slot st i d \<noteq> 0" using a by (auto simp: table_is_def)
    then obtain j where "table_is st (slot st i d) j" using table_of_slot [OF ok i d] by blast
    moreover from this have "k = j" using table_is_extends_back [OF ext a [unfolded s]] by simp
    ultimately show False using fresh by (simp add: table_is_def)
  qed
qed

lemma PTE_ADDR_mask: "PTE_ADDR = NOT (mask 12)"
  by (simp add: PTE_ADDR_def mask_eq_exp_minus_1)

lemma aligned_or_flags: "pg_ofs p = 0 \<Longrightarrow> f AND PTE_ADDR = 0 \<Longrightarrow> (p OR f) AND PTE_ADDR = p"
proof -
  assume "pg_ofs p = 0" "f AND PTE_ADDR = 0"
  moreover have "p = (p AND NOT (mask 12)) OR (p AND mask 12)" by (rule bit_word_eqI) (auto simp: bit_simps)
  ultimately show ?thesis by (simp add: pg_ofs_def PGMASK_mask PTE_ADDR_mask bit.conj_disj_distrib2)
qed

lemma aligned_vtop: "PHYS_BASE \<le> p \<Longrightarrow> pg_ofs p = 0 \<Longrightarrow> pg_ofs (p - PHYS_BASE) = 0"
proof -
  assume p: "PHYS_BASE \<le> p" "pg_ofs p = 0"
  have "unat PHYS_BASE = 786432 * 4096" by (simp add: PHYS_BASE_def)
  then show ?thesis using p unfolding aligned_unat by (simp add: unat_sub mod_eq_0_iff_dvd dvd_diff_nat)
qed

lemma table_entry:
  assumes "palloc_ok st" "kused st k"
  shows "\<exists>e. pde_create (kpage st k) = Some e \<and> e \<noteq> 0 \<and> table_is st e k"
proof -
  have k: "k < bit_cnt (used_map (kernel_pool st))" using assms(2) by (simp add: kused_def)
  note a = kpage_kernel [OF assms(1) k]
  let ?f = "PTE_U OR PTE_P OR PTE_W" and ?p = "kpage st k - PHYS_BASE"
  have f: "?f AND PTE_ADDR = 0" by (simp add: PTE_U_def PTE_P_def PTE_W_def PTE_ADDR_def)
  have "(?p OR PTE_U OR PTE_P OR PTE_W) AND PTE_P \<noteq> 0"
  proof
    assume "(?p OR PTE_U OR PTE_P OR PTE_W) AND PTE_P = 0"
    then have "\<not> bit ((?p OR PTE_U OR PTE_P OR PTE_W) AND PTE_P) 0" by simp
    then show False by (simp add: PTE_P_def bit_simps)
  qed
  moreover from this have "(?p OR PTE_U OR PTE_P OR PTE_W) \<noteq> 0" by auto
  moreover have "(?p OR PTE_U OR PTE_P OR PTE_W) AND PTE_ADDR = ?p"
    using aligned_or_flags [OF aligned_vtop [OF a(1,4)] f] by (simp add: or.assoc)
  ultimately show ?thesis using a assms(2) by (simp add: pde_create_def vtop_def is_kernel_vaddr_def table_is_def)
qed

text \<open>Nothing has changed that the directories mean.\<close>

definition same_dirs :: "machine \<Rightarrow> machine \<Rightarrow> nat set \<Rightarrow> bool" where
  "same_dirs st st' D = (dirs_ok st' D \<and> kpage st' = kpage st \<and> same_user_mem st st'
     \<and> bit_cnt (used_map (kernel_pool st')) = bit_cnt (used_map (kernel_pool st)) \<and> (\<forall>j. kused st j \<longrightarrow> kused st' j)
     \<and> cr3 st' = cr3 st \<and> tlb st' = tlb st
     \<and> (\<forall>i \<in> D. \<forall>va. is_user_vaddr va \<longrightarrow> entry st' i va = entry st i va))"

lemma lookup_create:
  assumes ok: "dirs_ok st D" "i \<in> D" "is_user_vaddr va"
  shows "(lookup_page (kpage st i) va True st = Some (0, st) \<and> entry st i va = 0 \<and> \<not> (\<exists>k. group_at (bits_of (used_map (kernel_pool st))) k 1 False)) \<or>
    (\<exists>j st1. lookup_page (kpage st i) va True st = Some (kpage st j + 4 * word_of_nat (unat (pt_no va)), st1)
      \<and> kpage st j + 4 * word_of_nat (unat (pt_no va)) \<noteq> 0 \<and> j \<notin> D \<and> slot st1 i (unat (pd_no va)) \<noteq> 0
      \<and> table_is st1 (slot st1 i (unat (pd_no va))) j \<and> j < bit_cnt (used_map (kernel_pool st))
      \<and> same_dirs st st1 D)"
proof (cases "slot st i (unat (pd_no va)) = 0")
  case False
  obtain j where j: "j \<notin> D" "table_is st (slot st i (unat (pd_no va))) j" "j < bit_cnt (used_map (kernel_pool st))"
    using table_of_slot [OF ok(1,2) user_pd_no [OF ok(3)] False] by blast
  have "same_dirs st st D" using ok(1) by (simp add: same_dirs_def)
  moreover have "unat (pt_no va) < 2 ^ 10" using pt_no_less [of va] by simp
  ultimately show ?thesis
    using lookup_table [OF ok False j(2)] entry_address_nonzero [OF dirs_okD(1) [OF ok(1,2)] j(3)] j False by blast
next
  case True
  let ?d = "unat (pd_no va)"
  note p = dirs_okD(1) [OF ok(1,2)]
  have z: "PAL_ZERO AND PAL_USER = 0" "False = (PAL_ZERO AND PAL_USER \<noteq> 0)" "PAL_ZERO AND PAL_ASSERT = 0" "PAL_ZERO AND PAL_ZERO \<noteq> 0"
    by (simp_all add: PAL_ZERO_def PAL_USER_def PAL_ASSERT_def)
  have start: "get_word st (kpage st i + 4 * pd_no va) = Some 0" "kpage st i \<noteq> 0"
    using get_dir_slot [OF ok] True kpage_kernel(3) [OF dirs_okD(1,3) [OF ok(1,2)]] by simp_all
  show ?thesis
  proof (cases "\<exists>k. group_at (bits_of (used_map (pool_of False st))) k 1 False")
    case False
    have "palloc_get_page PAL_ZERO st = Some (0, st)"
      using palloc_get_none [OF p _ z(2) False] z(3) by (simp add: palloc_get_page_def)
    then have "lookup_page (kpage st i) va True st = Some (0, st)"
      using start ok(3) by (simp add: lookup_page_def Let_def)
    then show ?thesis using True False by (simp add: entry_0 pool_of_def)
  next
    case g: True
    obtain k st1 where get: "palloc_get_page PAL_ZERO st = Some (kpage st k, st1)" and t: "page_group_taken PAL_ZERO 1 k st st1"
      using palloc_get_found [OF p _ z(2) g] by (auto simp: palloc_get_page_def pool_of_def)
    note n = kernel_page_taken [OF ok(1) t z(1)]
    note kp = kpage_extends [OF n(1)]
    have ok1: "dirs_ok st1 D" and e1: "\<And>i va. i \<in> D \<Longrightarrow> is_user_vaddr va \<Longrightarrow> entry st1 i va = entry st i va"
      using dirs_extend [OF ok(1) n(1)] by blast+
    obtain e where e: "pde_create (kpage st k) = Some e" "e \<noteq> 0" "table_is st1 e k"
      using table_entry [OF dirs_okD(1) [OF ok1 ok(2)] n(3)] unfolding kp by blast
    have d: "?d < 2 ^ 10" using user_pd_no [OF ok(3)] by simp
    have empty: "slot st1 i ?d = 0" using slot_extends [OF n(1) dirs_okD(2) [OF ok(1,2)] d] True by simp
    let ?st = "put_slot i ?d e st1"
    have ok2: "dirs_ok ?st D" and e2: "\<And>i' va'. i' \<in> D \<Longrightarrow> is_user_vaddr va' \<Longrightarrow> entry ?st i' va' = entry st1 i' va'"
      using add_table [OF ok1 ok(2) user_pd_no [OF ok(3)] empty n(11) e(3,2) n(12) n(5) [OF z(4)]] by blast+
    have set: "set_word (kpage st i + 4 * pd_no va) e st1 = Some ?st"
      using set_slot [OF dirs_okD(1,3) [OF ok1 ok(2)] d, of e] by (simp add: kp)
    have s: "slot ?st i ?d = e" using slot_put_slot [OF dirs_okD(1,3) [OF ok1 ok(2)] d dirs_okD(3) [OF ok1 ok(2)] d, of e] by simp
    have get2: "get_word ?st (kpage st i + 4 * pd_no va) = Some e"
      using get_dir_slot [OF ok2 ok(2,3)] s kp by simp
    have kn: "kpage st k \<noteq> 0" using kpage_kernel(3) [OF p n(4)] .
    have pt: "pde_get_pt e = Some (kpage st k)" using pde_get_pt_table [OF dirs_okD(1) [OF ok1 ok(2)] e(3)] by (simp add: kp)
    have lk: "lookup_page (kpage st i) va True st = Some (kpage st k + 4 * word_of_nat (unat (pt_no va)), ?st)"
      unfolding lookup_page_def Let_def using start ok(3) get kn e(1) set get2 pt by simp
    have p1: "palloc_ok st1" "k < bit_cnt (used_map (kernel_pool st1))" "i < bit_cnt (used_map (kernel_pool st1))"
      using n(1,4) dirs_okD(3) [OF ok1 ok(2)] by (simp_all add: kernel_extends_def)
    have "same_user_mem st ?st" using same_user_mem_trans [OF n(13) same_user_mem_put_slot [OF p1(1,3) d]] .
    then have "same_dirs st ?st D"
      using ok2 e1 e2 n(1,9,10) kp unfolding same_dirs_def by (simp add: kernel_extends_def)
    then show ?thesis
      using lk entry_address_nonzero [OF p n(4), of "unat (pt_no va)"] pt_no_less [of va] n(4,11) e(2,3) s by auto
  qed
qed

subsection \<open>Writing an entry\<close>

lemma set_entry:
  assumes ok: "dirs_ok st D" "i \<in> D" "is_user_vaddr va" and n: "slot st i (unat (pd_no va)) \<noteq> 0"
    and t: "table_is st (slot st i (unat (pd_no va))) j" "j \<notin> D"
  defines "pte \<equiv> kpage st j + 4 * word_of_nat (unat (pt_no va))"
  shows "get_word st pte = Some (entry st i va)"
    "\<exists>st1. set_word pte e st = Some st1 \<and> dirs_ok st1 D \<and> kpage st1 = kpage st \<and> cr3 st1 = cr3 st \<and> tlb st1 = tlb st
      \<and> same_user_mem st st1
      \<and> (\<forall>i' \<in> D. \<forall>va'. is_user_vaddr va' \<longrightarrow> entry st1 i' va' = (if i' = i \<and> pg_no va' = pg_no va then e else entry st i' va'))"
proof -
  have w: "unat (pt_no va) < 2 ^ 10" using pt_no_less [of va] by simp
  have p: "palloc_ok st" "j < bit_cnt (used_map (kernel_pool st))" using ok(1) t(1) by (auto simp: dirs_ok_def table_is_def kused_def)
  show "get_word st pte = Some (entry st i va)"
    using get_slot [OF p w] entry_slot [OF ok t(1)] n by (simp add: pte_def)
  note c = change_entry [OF ok(1,2) user_pd_no [OF ok(3)] n t w, where v = e]
  have "entry (put_slot j (unat (pt_no va)) e st) i' va' = (if i' = i \<and> pg_no va' = pg_no va then e else entry st i' va')"
    if "i' \<in> D" "is_user_vaddr va'" for i' va'
    unfolding same_page_unat by (rule c(2) [OF that])
  then show "\<exists>st1. set_word pte e st = Some st1 \<and> dirs_ok st1 D \<and> kpage st1 = kpage st \<and> cr3 st1 = cr3 st \<and> tlb st1 = tlb st
      \<and> same_user_mem st st1
      \<and> (\<forall>i' \<in> D. \<forall>va'. is_user_vaddr va' \<longrightarrow> entry st1 i' va' = (if i' = i \<and> pg_no va' = pg_no va then e else entry st i' va'))"
    using set_slot [OF p w, of e] c(1) same_user_mem_put_slot [OF p w, of e] by (intro exI [of _ "put_slot j (unat (pt_no va)) e st"]) (simp add: pte_def)
qed

text \<open>The entry that \<open>pte_create_user\<close> makes.\<close>

definition user_entry :: "u32 \<Rightarrow> bool \<Rightarrow> u32" where
  "user_entry kp writable = (kp - PHYS_BASE) OR (PTE_P OR (if writable then PTE_W else 0) OR PTE_U)"

lemma pte_create_user_entry:
  "pg_ofs kp = 0 \<Longrightarrow> PHYS_BASE \<le> kp \<Longrightarrow> pte_create_user kp writable = Some (user_entry kp writable)"
  by (simp add: pte_create_user_def pte_create_kernel_def vtop_def is_kernel_vaddr_def user_entry_def or.assoc)

lemma and_exp_bit: "(x AND 2 ^ n :: u32) = (if bit x n then 2 ^ n else 0)"
  by (rule bit_word_eqI) (auto simp: bit_simps bit_2_iff)

lemma user_entry_fields:
  assumes "pg_ofs kp = 0" "PHYS_BASE \<le> kp"
  shows "user_entry kp writable AND PTE_P \<noteq> 0" "user_entry kp writable AND PTE_ADDR = kp - PHYS_BASE"
    "user_entry kp writable AND PTE_W \<noteq> 0 \<longleftrightarrow> writable" "pte_get_page (user_entry kp writable) = Some kp"
proof -
  have b: "(x AND PTE_P \<noteq> 0) = bit x 0" "(x AND PTE_W \<noteq> 0) = bit x 1" for x :: u32
    using and_exp_bit [of x 0] and_exp_bit [of x 1] by (simp_all add: PTE_P_def PTE_W_def)
  have low: "\<not> bit (kp - PHYS_BASE) 1"
  proof
    assume "bit (kp - PHYS_BASE) 1"
    then have "bit (pg_ofs (kp - PHYS_BASE)) 1" by (simp add: pg_ofs_def PGMASK_mask bit_simps)
    then show False using aligned_vtop [OF assms(2,1)] by simp
  qed
  have bits: "bit PTE_P 0" "\<not> bit PTE_P 1" "bit PTE_W 1" "\<not> bit PTE_U 1" by (simp_all add: PTE_P_def PTE_W_def PTE_U_def)
  show "user_entry kp writable AND PTE_P \<noteq> 0" unfolding b by (simp only: user_entry_def bit_or_iff bits simp_thms)
  show "user_entry kp writable AND PTE_W \<noteq> 0 \<longleftrightarrow> writable"
    unfolding b by (cases writable) (simp_all only: user_entry_def bit_or_iff bits low if_True if_False bit_0_eq bot_apply simp_thms, simp)
  show a: "user_entry kp writable AND PTE_ADDR = kp - PHYS_BASE" unfolding user_entry_def
    using aligned_vtop [OF assms(2,1)] by (intro aligned_or_flags) (simp_all add: PTE_P_def PTE_W_def PTE_U_def PTE_ADDR_def)
  have "unat kp < 2 ^ 32" using unsigned_less [of kp] by simp
  then have "kp - PHYS_BASE < PHYS_BASE" using assms(2) by (simp add: word_less_nat_alt unat_sub PHYS_BASE_def)
  then show "pte_get_page (user_entry kp writable) = Some kp" by (simp add: pte_get_page_def a ptov_def)
qed

lemma get_page_entry:
  assumes ok: "dirs_ok st D" "i \<in> D" "is_user_vaddr va"
  shows "pagedir_get_page (kpage st i) va st
    = (if entry st i va AND PTE_P \<noteq> 0 then map_option (\<lambda>p. (p + pg_ofs va, st)) (pte_get_page (entry st i va)) else Some (0, st))"
  using lookup_read [OF ok] ok(3) by (auto simp: pagedir_get_page_def map_option_case split: option.split)

lemma set_page_cases:
  assumes ok: "dirs_ok st D" "i \<in> D" "is_user_vaddr up" and al: "pg_ofs up = 0" "pg_ofs kp = 0" "PHYS_BASE \<le> kp"
    and "drop_bit PTSHIFT (kp - PHYS_BASE) < init_ram_pages st" "kpage st i \<noteq> init_page_dir st" "entry st i up AND PTE_P = 0"
  shows "(pagedir_set_page (kpage st i) up kp writable st = Some (False, st)
      \<and> \<not> (\<exists>k. group_at (bits_of (used_map (kernel_pool st))) k 1 False)) \<or>
    (\<exists>st'. pagedir_set_page (kpage st i) up kp writable st = Some (True, st') \<and> dirs_ok st' D \<and> kpage st' = kpage st \<and> same_user_mem st st'
      \<and> (\<forall>i' \<in> D. \<forall>va. is_user_vaddr va \<longrightarrow>
           entry st' i' va = (if i' = i \<and> pg_no va = pg_no up then user_entry kp writable else entry st i' va)))"
  using lookup_create [OF ok]
proof (elim disjE exE conjE)
  assume "lookup_page (kpage st i) up True st = Some (0, st)" "\<not> (\<exists>k. group_at (bits_of (used_map (kernel_pool st))) k 1 False)"
  then show ?thesis using assms by (simp add: pagedir_set_page_def vtop_def is_kernel_vaddr_def)
next
  fix j st1
  assume l: "lookup_page (kpage st i) up True st = Some (kpage st j + 4 * word_of_nat (unat (pt_no up)), st1)"
    and n: "kpage st j + 4 * word_of_nat (unat (pt_no up)) \<noteq> 0" and j: "j \<notin> D" "slot st1 i (unat (pd_no up)) \<noteq> 0"
    "table_is st1 (slot st1 i (unat (pd_no up))) j" and same: "same_dirs st st1 D"
  have ok1: "dirs_ok st1 D" and kp: "kpage st1 = kpage st"
    and e: "\<And>i va. i \<in> D \<Longrightarrow> is_user_vaddr va \<Longrightarrow> entry st1 i va = entry st i va"
    using same by (simp_all add: same_dirs_def)
  note s = set_entry [OF ok1 ok(2,3) j(2,3,1)]
  obtain st2 where st2: "set_word (kpage st1 j + 4 * word_of_nat (unat (pt_no up))) (user_entry kp writable) st1 = Some st2"
    "dirs_ok st2 D" "kpage st2 = kpage st1" "same_user_mem st1 st2"
    "\<forall>i' \<in> D. \<forall>va. is_user_vaddr va \<longrightarrow> entry st2 i' va = (if i' = i \<and> pg_no va = pg_no up then user_entry kp writable else entry st1 i' va)"
    using s(2) [of "user_entry kp writable"] by blast
  have "pagedir_set_page (kpage st i) up kp writable st = Some (True, st2)"
    using l n s(1) st2(1) assms(3-9) pte_create_user_entry [OF al(2,3)] e [OF ok(2,3)] unfolding kp
    by (simp add: pagedir_set_page_def vtop_def is_kernel_vaddr_def)
  moreover have "same_user_mem st st2" using same_user_mem_trans [OF _ st2(4)] same by (simp add: same_dirs_def)
  ultimately show ?thesis using st2(2,3,5) e kp by auto
qed

subsection \<open>The processor's registers\<close>

lemma write_cr3_fields [simp]:
  "ram (write_cr3 p st) = ram st" "kernel_pool (write_cr3 p st) = kernel_pool st" "user_pool (write_cr3 p st) = user_pool st"
  "init_page_dir (write_cr3 p st) = init_page_dir st" "init_ram_pages (write_cr3 p st) = init_ram_pages st"
  "cr3 (write_cr3 p st) = p" "tlb (write_cr3 p st) = {}"
  by (simp_all add: write_cr3_def)

lemma write_cr3_dirs [simp]:
  "dirs_ok (write_cr3 p st) D = dirs_ok st D" "entry (write_cr3 p st) i va = entry st i va"
  by (simp_all add: dirs_ok_def palloc_ok_def kused_def slot_def table_is_def entry_def Let_def)

definition active :: "machine \<Rightarrow> u32 \<Rightarrow> bool" where
  "active st pd = (cr3 st + PHYS_BASE = pd)"

lemma invalidate_active:
  assumes "cr3 st < PHYS_BASE" "PHYS_BASE \<le> pd" "pd \<noteq> 0"
  shows "invalidate_pagedir pd st = Some (if active st pd then write_cr3 (cr3 st) st else st)"
proof -
  have "cr3 st = pd - PHYS_BASE" if "cr3 st + PHYS_BASE = pd" using that by auto
  then show ?thesis using assms
    by (auto simp: invalidate_pagedir_def active_pd_def ptov_def active_def pagedir_activate_def vtop_def is_kernel_vaddr_def Let_def)
qed

text \<open>The effect of a routine that changes the entry of \<open>va\<close> in directory \<open>i\<close> to \<open>e\<close> and forgets it when
  \<open>flush\<close> is set and the directory is active.\<close>

definition entry_changed :: "nat set \<Rightarrow> nat \<Rightarrow> u32 \<Rightarrow> u32 \<Rightarrow> bool \<Rightarrow> machine \<Rightarrow> machine \<Rightarrow> bool" where
  "entry_changed D i va e flush st st' = (dirs_ok st' D \<and> kpage st' = kpage st \<and> init_page_dir st' = init_page_dir st \<and> cr3 st' = cr3 st
     \<and> (\<forall>i' \<in> D. \<forall>va'. is_user_vaddr va' \<longrightarrow> entry st' i' va' = (if i' = i \<and> pg_no va' = pg_no va then e else entry st i' va'))
     \<and> tlb st' = (if flush \<and> active st (kpage st i) then {} else tlb st))"

lemma set_pte_bit_cases:
  assumes ok: "dirs_ok st D" "i \<in> D" "is_user_vaddr va" and cr: "cr3 st < PHYS_BASE"
  shows "(set_pte_bit b (kpage st i) va v st = Some st \<and> entry st i va = 0) \<or>
    (\<exists>st'. set_pte_bit b (kpage st i) va v st = Some st'
      \<and> entry_changed D i va (if v then entry st i va OR b else entry st i va AND NOT b) (\<not> v) st st')"
  using lookup_read [OF ok]
proof (elim disjE exE conjE)
  assume "lookup_page (kpage st i) va False st = Some (0, st)" "entry st i va = 0"
  then show ?thesis by (simp add: set_pte_bit_def)
next
  fix j
  assume l: "lookup_page (kpage st i) va False st = Some (kpage st j + 4 * word_of_nat (unat (pt_no va)), st)"
    "kpage st j + 4 * word_of_nat (unat (pt_no va)) \<noteq> 0"
    and j: "j \<notin> D" "slot st i (unat (pd_no va)) \<noteq> 0" "table_is st (slot st i (unat (pd_no va))) j"
  let ?e = "if v then entry st i va OR b else entry st i va AND NOT b"
  note s = set_entry [OF ok j(2,3,1)]
  obtain st1 where st1: "set_word (kpage st j + 4 * word_of_nat (unat (pt_no va))) ?e st = Some st1" "dirs_ok st1 D"
    "kpage st1 = kpage st" "cr3 st1 = cr3 st" "tlb st1 = tlb st" "same_user_mem st st1"
    "\<forall>i' \<in> D. \<forall>va'. is_user_vaddr va' \<longrightarrow> entry st1 i' va' = (if i' = i \<and> pg_no va' = pg_no va then ?e else entry st i' va')"
    using s(2) [of ?e] by blast
  have inv: "invalidate_pagedir (kpage st i) st1 = Some (if active st (kpage st i) then write_cr3 (cr3 st1) st1 else st1)"
    using invalidate_active [of st1 "kpage st i"] kpage_kernel(1,3) [OF dirs_okD(1,3) [OF ok(1,2)]] cr st1(4) by (simp add: active_def)
  let ?st = "if \<not> v \<and> active st (kpage st i) then write_cr3 (cr3 st1) st1 else st1"
  have "set_pte_bit b (kpage st i) va v st = Some ?st"
    using l s(1) st1(1) inv by (auto simp: set_pte_bit_def)
  moreover have "entry_changed D i va ?e (\<not> v) st ?st"
    using st1(2-7) unfolding entry_changed_def by (simp add: same_user_mem_def)
  ultimately show ?thesis by blast
qed

lemma clear_page_as_bit:
  assumes ok: "dirs_ok st D" "i \<in> D" "is_user_vaddr va" and al: "pg_ofs va = 0"
  shows "pagedir_clear_page (kpage st i) va st
    = (if entry st i va AND PTE_P \<noteq> 0 then set_pte_bit PTE_P (kpage st i) va False st else Some st)"
  using lookup_read [OF ok] ok(3) al by (auto simp: pagedir_clear_page_def set_pte_bit_def)

lemma pte_bit_entry:
  assumes ok: "dirs_ok st D" "i \<in> D" "is_user_vaddr va"
  shows "pte_bit b (kpage st i) va st = Some (entry st i va AND b \<noteq> 0, st)"
  using lookup_read [OF ok] by (auto simp: pte_bit_def)

subsection \<open>Creating a directory\<close>

lemma add_dir:
  assumes ok: "dirs_ok st D" and k: "kused st k" and empty: "\<And>d. d < 768 \<Longrightarrow> slot st k d = 0"
    and fresh: "\<And>i d. i \<in> D \<Longrightarrow> d < 768 \<Longrightarrow> \<not> table_is st (slot st i d) k"
  shows "dirs_ok st (insert k D)"
proof -
  have "\<exists>j. j \<notin> insert k D \<and> table_is st (slot st i d) j" if "i \<in> D" "d < 768" "slot st i d \<noteq> 0" for i d
    using table_of_slot [OF ok that] fresh [OF that(1,2)] by (metis insert_iff)
  then show ?thesis using ok k empty unfolding dirs_ok_def by (simp add: Ball_def) metis
qed

lemma word_at_copy:
  assumes "bytes_at m q bs" "4 * w + 4 \<le> length bs"
  shows "word_at (put p bs m) (p + 4 * w) = word_at m (q + 4 * w)"
proof -
  have "m (q + (4 * w + r)) = Some (bs ! (4 * w + r))" if "r < 4" for r
    using assms that unfolding bytes_at_iff by simp
  from this [of 0] this [of 1] this [of 2] this [of 3] show ?thesis
    using assms(2) by (simp add: word_at_def put_def add.assoc)
qed

lemma mapped_bytes: "mapped m p n \<Longrightarrow> bytes_at m p (map (\<lambda>i. the (m (p + i))) [0..<n])"
  by (auto simp: bytes_at_iff mapped_def)

lemma create_cases:
  assumes ok: "dirs_ok st D" and i0: "i0 \<in> D" "init_page_dir st = kpage st i0" "\<And>d. d < 768 \<Longrightarrow> slot st i0 d = 0"
  shows "(pagedir_create st = Some (0, st) \<and> \<not> (\<exists>k. group_at (bits_of (used_map (kernel_pool st))) k 1 False)) \<or>
    (\<exists>k st'. pagedir_create st = Some (kpage st k, st') \<and> k \<notin> D \<and> dirs_ok st' (insert k D) \<and> kpage st' = kpage st
      \<and> init_page_dir st' = init_page_dir st \<and> (\<forall>d < 1024. slot st' k d = slot st i0 d)
      \<and> (\<forall>i \<in> D. \<forall>va. is_user_vaddr va \<longrightarrow> entry st' i va = entry st i va))"
proof -
  have p: "palloc_ok st" and i0': "i0 < bit_cnt (used_map (kernel_pool st))" "kused st i0" using dirs_okD [OF ok i0(1)] by auto
  have z: "(0::u32) AND PAL_USER = 0" "False = ((0::u32) AND PAL_USER \<noteq> 0)" "(0::u32) AND PAL_ASSERT = 0" by simp_all
  show ?thesis
  proof (cases "\<exists>k. group_at (bits_of (used_map (pool_of False st))) k 1 False")
    case False
    then show ?thesis
      using palloc_get_none [OF p _ z(2) False] by (simp add: pagedir_create_def palloc_get_page_def pool_of_def)
  next
    case True
    obtain k st1 where get: "palloc_get_page 0 st = Some (kpage st k, st1)" and t: "page_group_taken 0 1 k st st1"
      using palloc_get_found [OF p _ z(2) True] by (auto simp: palloc_get_page_def pool_of_def)
    note n = kernel_page_taken [OF ok t z(1)]
    note kp = kpage_extends [OF n(1)]
    have p1: "palloc_ok st1" and cnt: "bit_cnt (used_map (kernel_pool st1)) = bit_cnt (used_map (kernel_pool st))"
      using n(1) by (simp_all add: kernel_extends_def)
    have ne: "i0 \<noteq> k" using n(11) i0(1) by auto
    have pages: "unat (kpage st j) = unat (pool_base (kernel_pool st)) + 4096 * j" if "j < bit_cnt (used_map (kernel_pool st))" for j
      using unat_page_addr [OF kernel_pool_ok [OF p]] that by simp
    have map: "mapped (ram st1) (unat (kpage st j)) 4096" if "j < bit_cnt (used_map (kernel_pool st))" for j
      using pages_mapped [OF kernel_pool_ok [OF p1], of j 1] that by (simp add: kp cnt)
    let ?bs = "map (\<lambda>i. the (ram st1 (unat (kpage st i0) + i))) [0..<4096]"
    have bs: "bytes_at (ram st1) (unat (kpage st i0)) ?bs" "length ?bs = 4096" using mapped_bytes [OF map [OF i0'(1)]] by simp_all
    let ?m = "put (unat (kpage st k)) ?bs (ram st1)" and ?st = "st1\<lparr>ram := put (unat (kpage st k)) ?bs (ram st1)\<rparr>"
    have "memcpy_loop (length ?bs) (unat (kpage st k)) (unat (kpage st i0)) (ram st1) = Some ?m"
      using bs map [OF n(4)] ne pages [OF i0'(1)] pages [OF n(4)] by (intro memcpy_loop_put) auto
    then have copy: "memcpy (unat (kpage st k)) (unat (kpage st i0)) 4096 (ram st1) = Some (unat (kpage st k), ?m)"
      using kpage_kernel(3) [OF p n(4)] kpage_kernel(3) [OF p i0'(1)] bs(2) by (simp add: memcpy_def NULL_def unsigned_eq_0_iff)
    have same: "slot ?st j w = slot st1 j w" if "j < bit_cnt (used_map (kernel_pool st))" "j \<noteq> k" "w < 2 ^ 10" for j w
      using slot_put_page [OF p that(1) n(4) that(2,3), of ?bs] by (simp add: slot_def kp)
    have dir: "slot ?st k w = slot st i0 w" if "w < 1024" for w
      using word_at_copy [OF bs(1), of w "unat (kpage st k)"] that slot_extends [OF n(1) i0'(2), of w]
      by (simp add: slot_def kp)
    have ext: "kernel_extends st ?st"
      unfolding kernel_extends_def
    proof (intro conjI allI impI)
      show "palloc_ok ?st" using p1 by (rule palloc_ok_ram) (simp add: mapped_put)
      fix j w :: nat
      assume j: "kused st j \<and> w < 2 ^ 10"
      then have "j \<noteq> k" "j < bit_cnt (used_map (kernel_pool st))" using n(2) by (auto simp: kused_def)
      then show "slot ?st j w = slot st j w" using same j slot_extends [OF n(1)] by simp
    qed (use n(1) in \<open>auto simp: kernel_extends_def kused_def\<close>)
    have fresh: "\<not> table_is ?st (slot ?st i d) k" if "i \<in> D" "d < 768" for i d
    proof -
      have "i \<noteq> k" "i < bit_cnt (used_map (kernel_pool st))" using that(1) n(11) dirs_okD(3) [OF ok that(1)] by auto
      then have "slot ?st i d = slot st1 i d" using same that(2) by simp
      then show ?thesis using n(12) [OF that] by (simp add: table_is_def kused_def)
    qed
    have "dirs_ok ?st (insert k D)"
      using dirs_extend(1) [OF ok ext] by (rule add_dir) (use n(3) dir i0(3) fresh in \<open>auto simp: kused_def\<close>)
    moreover have "pagedir_create st = Some (kpage st k, ?st)"
      using get copy kpage_kernel(3) [OF p n(4)] by (simp add: pagedir_create_def PGSIZE_4096 n(6) i0(2))
    ultimately show ?thesis using dir dirs_extend(2) [OF ok ext] n(6,11) kp by auto
  qed
qed

subsection \<open>The properties\<close>

text \<open>C19: pagedir_set_page maps one page.  For a directory of a well-formed family, an aligned user page that is not
  present and an aligned kernel page of physical memory, it either reports that the kernel pool has no page for a
  table and changes nothing, or returns true, after which the family is well-formed, the entry of this page in this
  directory has the address of the frame and the flags asked for, every other entry of this and of every other
  directory is what it was, and pagedir_get_page finds the frame, at the same offset, for every address of the page.\<close>

theorem pagedir_set_page_maps:
  assumes "dirs_ok st D" and "i \<in> D" and "is_user_vaddr up" and "pg_ofs up = 0" and "pg_ofs kp = 0" and "PHYS_BASE \<le> kp"
    and "drop_bit PTSHIFT (kp - PHYS_BASE) < init_ram_pages st" and "kpage st i \<noteq> init_page_dir st"
    and "entry st i up AND PTE_P = 0"
  shows "(pagedir_set_page (kpage st i) up kp writable st = Some (False, st)
      \<and> \<not> (\<exists>k. group_at (bits_of (used_map (kernel_pool st))) k 1 False)) \<or>
    (\<exists>st'. pagedir_set_page (kpage st i) up kp writable st = Some (True, st') \<and> dirs_ok st' D
      \<and> (\<forall>i' \<in> D. \<forall>va. is_user_vaddr va \<longrightarrow>
           entry st' i' va = (if i' = i \<and> pg_no va = pg_no up then user_entry kp writable else entry st i' va))
      \<and> (\<forall>va. is_user_vaddr va \<and> pg_no va = pg_no up \<longrightarrow>
           pagedir_get_page (kpage st i) va st' = Some (kp + pg_ofs va, st')))"
  using set_page_cases [OF assms, of writable]
proof (elim disjE exE conjE)
  fix st'
  assume set: "pagedir_set_page (kpage st i) up kp writable st = Some (True, st')" and ok: "dirs_ok st' D" and kps: "kpage st' = kpage st"
    and e: "\<forall>i' \<in> D. \<forall>va. is_user_vaddr va \<longrightarrow>
      entry st' i' va = (if i' = i \<and> pg_no va = pg_no up then user_entry kp writable else entry st i' va)"
  have "pagedir_get_page (kpage st i) va st' = Some (kp + pg_ofs va, st')" if "is_user_vaddr va \<and> pg_no va = pg_no up" for va
    using get_page_entry [OF ok assms(2), of va] that e assms(2) user_entry_fields [OF assms(5,6), of writable] by (simp add: kps)
  with set ok e show ?thesis by blast
qed blast

text \<open>A machine with the base directory, without user pages, and the directory of a process, the active one.\<close>

definition two_dirs :: machine where
  "two_dirs = \<lparr>ram = (\<lambda>_. Some 0),
     kernel_pool = \<lparr>used_map = \<lparr>bit_cnt = 4, elems = [3]\<rparr>, pool_base = 0xc0101000\<rparr>,
     user_pool = \<lparr>used_map = \<lparr>bit_cnt = 3, elems = [1]\<rparr>, pool_base = 0xc0106000\<rparr>,
     init_ram_pages = 1024, init_page_dir = 0xc0101000, cr3 = 0x102000, tlb = {0x8048}\<rparr>"

lemma two_dirs_zero: "slot two_dirs i d = 0" "entry two_dirs i va = 0"
  by (simp_all add: slot_def entry_def two_dirs_def word_at_def u32_of_bytes_def)

lemma two_dirs_ok: "dirs_ok two_dirs {0, 1}"
proof -
  have "palloc_ok two_dirs"
    by (simp add: palloc_ok_def pool_ok_def two_dirs_def bm_wf_def mapped_def PHYS_BASE_def)
  moreover have "kused two_dirs 0" "kused two_dirs 1"
    by (simp_all add: kused_def two_dirs_def bits_of_def bit_of_def ELEM_BITS_def upt_rec)
  ultimately show ?thesis by (simp add: dirs_ok_def two_dirs_zero)
qed

lemma two_dirs_pages: "kpage two_dirs 0 = 0xc0101000" "kpage two_dirs 1 = 0xc0102000" "kpage two_dirs 0 = init_page_dir two_dirs"
  by (simp_all add: two_dirs_def page_addr_def PGSIZE_4096)

lemma two_dirs_free: "\<exists>k. group_at (bits_of (used_map (kernel_pool two_dirs))) k 1 False"
  by (rule exI [of _ 2]) (simp add: group_at_def two_dirs_def bits_of_def bit_of_def ELEM_BITS_def upt_rec less_Suc_eq_le le_antisym)

theorem pagedir_set_page_maps_witness:
  "\<exists>st'. pagedir_set_page (kpage two_dirs 1) 0x8048000 0xc0107000 True two_dirs = Some (True, st')
     \<and> pagedir_get_page (kpage two_dirs 1) 0x8048123 st' = Some (0xc0107123, st') \<and> entry st' 0 0x8048000 = 0"
proof -
  have h: "is_user_vaddr 0x8048000" "pg_ofs 0x8048000 = 0" "pg_ofs 0xc0107000 = 0" "PHYS_BASE \<le> 0xc0107000"
    "drop_bit PTSHIFT (0xc0107000 - PHYS_BASE) < init_ram_pages two_dirs" "kpage two_dirs 1 \<noteq> init_page_dir two_dirs"
    "entry two_dirs 1 0x8048000 AND PTE_P = 0"
    by (simp_all add: is_user_vaddr_def pg_ofs_def PGMASK_def PHYS_BASE_def PTSHIFT_def PGBITS_def two_dirs_pages two_dirs_zero)
      (simp_all add: two_dirs_def page_addr_def PGSIZE_4096)
  have a: "is_user_vaddr 0x8048123" "pg_no 0x8048123 = pg_no 0x8048000" "0xc0107000 + pg_ofs 0x8048123 = 0xc0107123"
    by (simp_all add: is_user_vaddr_def PHYS_BASE_def pg_no_def PGBITS_def pg_ofs_def PGMASK_def)
  show ?thesis
    using pagedir_set_page_maps [OF two_dirs_ok _ h(1-7), of True] two_dirs_free a h(1) two_dirs_zero(2) by auto
qed



end
