(* ===== verification/Syscalls.thy ===== *)
theory Syscalls imports FileSys StdIO PageAlloc begin

section \<open>userprog/syscall.c: the system calls\<close>

text \<open>
  \<open>proc\<close> is a process as its system calls see it: the file system, the list of its descriptors (\<open>fd_head\<close>), its
  name, the memory at the addresses that are mapped, what has been written to the console, the keys that will be
  pressed, its exit number, and whether it holds the lock \<open>w\<close>.  A call gives the value in \<open>eax\<close>, gives none, ends
  the process or halts the machine; \<open>None\<close> is a panic of the kernel or a fault inside the file system.  A fault of
  the handler itself on an address that is not mapped ends the process with -1, as \<open>page_fault\<close> does.  A write of
  2147483648 bytes or more, which the file system takes for a negative size, is outside the model.
\<close>

record fd_entry =
  fd_num :: int
  fd_file :: ptr
  fd_dir :: "ptr option"

record proc =
  pfs :: fs
  fd_head :: "fd_entry list"
  proc_name :: "byte list"
  umem :: mem
  console :: "byte list"
  keyboard :: "byte list"
  exit_number :: int
  w_held :: bool

datatype sysret = Eax u32 | NoValue | Exited | Halted

type_synonym syscall = "proc \<Rightarrow> (sysret \<times> proc) option"

definition eax :: "int \<Rightarrow> syscall" where
  "eax v st = Some (Eax (word_of_int v), st)"

definition bool_value :: "bool \<Rightarrow> int" where
  "bool_value b = (if b then 1 else 0)"

subsection \<open>Locks and the memory of the process\<close>

definition acquire_w :: "proc \<Rightarrow> proc option" where
  "acquire_w st = do { ASSERT (\<not> w_held st); Some (st\<lparr>w_held := True\<rparr>) }"

definition release_w :: "proc \<Rightarrow> proc option" where
  "release_w st = do { ASSERT (w_held st); Some (st\<lparr>w_held := False\<rparr>) }"

definition user_string :: "u32 \<Rightarrow> proc \<Rightarrow> byte list option" where
  "user_string p st = string_at (umem st) (unat p)"

definition user_bytes :: "u32 \<Rightarrow> nat \<Rightarrow> proc \<Rightarrow> byte list option" where
  "user_bytes p n st = those (map (umem st) [unat p..<unat p + n])"

subsection \<open>The end of a process\<close>

text \<open>\<open>printf\<close> to the console; the name lies in the structure of the thread.\<close>

definition NAME_AT :: ptr where "NAME_AT = 4096"

definition console_putc :: "byte list sink" where
  "console_putc ch = (\<lambda>(m, out). Some (m, out @ [ch]))"

definition exit_message :: "byte list \<Rightarrow> int \<Rightarrow> byte list option" where
  "exit_message name num = do {
     (_, out) \<leftarrow> do_vprintf (cstr (''%s: exit(%d)'' @ [CHR 0x0A])) [word_of_nat NAME_AT, word_of_int num] console_putc
       (put NAME_AT (name @ [0]) (\<lambda>_. None), []);
     Some out }"

text \<open>The loop of \<open>process_exit\<close> over the descriptors.\<close>

fun close_all :: "fd_entry list \<Rightarrow> fs \<Rightarrow> fs option" where
  "close_all [] st = Some st"
| "close_all (e # es) st = do { st \<leftarrow> file_close (Some (fd_file e)) st; close_all es st }"

definition process_exit_files :: "proc \<Rightarrow> proc option" where
  "process_exit_files st = do {
     f \<leftarrow> close_all (fd_head st) (pfs st);
     f \<leftarrow> dir_close (cwd f) f;
     Some (st\<lparr>fd_head := [], pfs := f\<rparr>) }"

definition exit_process :: "int \<Rightarrow> syscall" where
  "exit_process num st = do {
     msg \<leftarrow> exit_message (proc_name st) num;
     let st = st\<lparr>console := console st @ msg, exit_number := num\<rparr>;
     st \<leftarrow> process_exit_files st;
     Some (Exited, st) }"

definition protect_user_memory :: "u32 \<Rightarrow> bool" where
  "protect_user_memory add = is_user_vaddr add"

subsection \<open>Descriptors\<close>

definition fd_F :: nat where "fd_F = 1"
definition fd_D :: nat where "fd_D = 2"

fun find_fd :: "int \<Rightarrow> nat \<Rightarrow> fd_entry list \<Rightarrow> fd_entry option" where
  "find_fd dnum which [] = None"
| "find_fd dnum which (e # es) =
     (if fd_num e = dnum \<and> (fd_dir e \<noteq> None \<and> which AND fd_D \<noteq> 0 \<or> fd_dir e = None \<and> which AND fd_F \<noteq> 0)
      then Some e else find_fd dnum which es)"

definition get_file :: "int \<Rightarrow> nat \<Rightarrow> proc \<Rightarrow> fd_entry option" where
  "get_file dnum which st = (if dnum \<ge> 3 then find_fd dnum which (fd_head st) else None)"

text \<open>\<open>page\<close> is whether \<open>palloc_get_page\<close> has a page for the descriptor.\<close>

definition sys_open :: "u32 \<Rightarrow> frame \<Rightarrow> bool \<Rightarrow> syscall" where
  "sys_open p fr page st =
     (if \<not> page then eax (- 1) st
      else do {
        st \<leftarrow> acquire_w st;
        path \<leftarrow> user_string p st;
        (fnew, f) \<leftarrow> filesys_open path fr (pfs st);
        case fnew of
          None \<Rightarrow> do { st \<leftarrow> release_w (st\<lparr>pfs := f\<rparr>); eax (- 1) st }
        | Some g \<Rightarrow> do {
            f \<leftarrow> (if path = proc_name st then file_deny_write g f else Some f);
            id \<leftarrow> file_get_inode g f;
            isdir \<leftarrow> is_inode_dir id f;
            (d, f) \<leftarrow>
              (if isdir then do { (q, f) \<leftarrow> inode_reopen (Some id) f; dir_open q f } else Some (None, f));
            let num = (if fd_head st = [] then 3 else int32 (fd_num (last (fd_head st)) + 1));
            let st = st\<lparr>pfs := f, fd_head := fd_head st @ [\<lparr>fd_num = num, fd_file = g, fd_dir = d\<rparr>]\<rparr>;
            st \<leftarrow> release_w st;
            eax num st } })"

definition sys_close :: "int \<Rightarrow> syscall" where
  "sys_close fd st = (case get_file fd (fd_F OR fd_D) st of
     None \<Rightarrow> exit_process (- 1) st
   | Some e \<Rightarrow> do {
       f \<leftarrow> file_close (Some (fd_file e)) (pfs st);
       f \<leftarrow> (if fd_dir e \<noteq> None then dir_close (fd_dir e) f else Some f);
       Some (NoValue, st\<lparr>pfs := f, fd_head := remove1 e (fd_head st)\<rparr>) })"

definition sys_filesize :: "int \<Rightarrow> syscall" where
  "sys_filesize fd st = (case get_file fd fd_F st of
     None \<Rightarrow> eax (- 1) st
   | Some e \<Rightarrow> do { n \<leftarrow> file_length (fd_file e) (pfs st); eax n st })"

definition sys_seek :: "int \<Rightarrow> u32 \<Rightarrow> syscall" where
  "sys_seek fd position st = (case get_file fd fd_F st of
     None \<Rightarrow> Some (NoValue, st)
   | Some e \<Rightarrow> do { f \<leftarrow> file_seek (fd_file e) (sint position) (pfs st); Some (NoValue, st\<lparr>pfs := f\<rparr>) })"

definition sys_tell :: "int \<Rightarrow> syscall" where
  "sys_tell fd st = (case get_file fd fd_F st of
     None \<Rightarrow> eax (- 1) st
   | Some e \<Rightarrow> do { n \<leftarrow> file_tell (fd_file e) (pfs st); eax n st })"

subsection \<open>Reading and writing\<close>

text \<open>The loop over the keyboard: when no key comes any more it waits for ever.\<close>

fun stdin_loop :: "ptr \<Rightarrow> nat \<Rightarrow> nat \<Rightarrow> byte list \<Rightarrow> mem \<Rightarrow> (nat \<times> byte list \<times> mem) option" where
  "stdin_loop buf sz cur keys m = do {
     b \<leftarrow> load m (buf + cur);
     if b = 0 then Some (cur, keys, m)
     else (case keys of
        [] \<Rightarrow> None
      | k # ks \<Rightarrow> do {
          m \<leftarrow> store (buf + cur) k m;
          if sz \<le> cur + 1 then Some (cur + 1, ks, m) else stdin_loop buf sz (cur + 1) ks m }) }"

definition sys_read :: "int \<Rightarrow> u32 \<Rightarrow> u32 \<Rightarrow> syscall" where
  "sys_read fd ubuf sz st = do {
     st \<leftarrow> acquire_w st;
     (rbytes, st) \<leftarrow>
       (if fd \<noteq> 0 then
          (case get_file fd fd_F st of
             None \<Rightarrow> Some (- 1, st)
           | Some e \<Rightarrow> do {
               (bs, f) \<leftarrow> file_read (fd_file e) (sint sz) (pfs st);
               m \<leftarrow> store_bytes (unat ubuf) bs (umem st);
               Some (int (length bs), st\<lparr>pfs := f, umem := m\<rparr>) })
        else do {
          (cur, keys, m) \<leftarrow> stdin_loop (unat ubuf) (unat sz) 0 (keyboard st) (umem st);
          Some (int cur - 1, st\<lparr>keyboard := keys, umem := m\<rparr>) });
     st \<leftarrow> release_w st;
     eax rbytes st }"

definition sys_write :: "int \<Rightarrow> u32 \<Rightarrow> u32 \<Rightarrow> syscall" where
  "sys_write fd ubuf sz st = do {
     st \<leftarrow> acquire_w st;
     (wbytes, st) \<leftarrow>
       (if fd \<noteq> 1 then
          (case get_file fd fd_F st of
             None \<Rightarrow> Some (- 1, st)
           | Some e \<Rightarrow> do {
               bs \<leftarrow> user_bytes ubuf (unat sz) st;
               (n, f) \<leftarrow> file_write (fd_file e) bs (pfs st);
               Some (n, st\<lparr>pfs := f\<rparr>) })
        else do {
          bs \<leftarrow> user_bytes ubuf (unat sz) st;
          Some (sint sz, st\<lparr>console := console st @ bs\<rparr>) });
     st \<leftarrow> release_w st;
     eax wbytes st }"

subsection \<open>Files and directories by name\<close>

definition on_fs :: "(fs \<Rightarrow> (bool \<times> fs) option) \<Rightarrow> syscall" where
  "on_fs op st = do { (ok, f) \<leftarrow> op (pfs st); eax (bool_value ok) (st\<lparr>pfs := f\<rparr>) }"

definition sys_create :: "u32 \<Rightarrow> u32 \<Rightarrow> frame \<Rightarrow> syscall" where
  "sys_create p initial_size fr st = do {
     path \<leftarrow> user_string p st;
     on_fs (filesys_create path (sint initial_size) False fr) st }"

definition sys_remove :: "u32 \<Rightarrow> frame \<Rightarrow> syscall" where
  "sys_remove p fr st = do { path \<leftarrow> user_string p st; on_fs (filesys_remove path fr) st }"

definition sys_chdir :: "u32 \<Rightarrow> frame \<Rightarrow> syscall" where
  "sys_chdir p fr st = do { path \<leftarrow> user_string p st; on_fs (filesys_chdir path fr) st }"

definition sys_mkdir :: "u32 \<Rightarrow> frame \<Rightarrow> syscall" where
  "sys_mkdir p fr st = do { path \<leftarrow> user_string p st; on_fs (filesys_create path 0 True fr) st }"

text \<open>The function's type is \<open>bool\<close>: its \<open>return -1\<close> gives true.\<close>

definition sys_readdir :: "int \<Rightarrow> u32 \<Rightarrow> frame \<Rightarrow> syscall" where
  "sys_readdir fd name fr st = (case get_file fd fd_D st of
     None \<Rightarrow> eax (bool_value ((- 1 :: int) \<noteq> 0)) st
   | Some e \<Rightarrow> do {
       id \<leftarrow> file_get_inode (fd_file e) (pfs st);
       isdir \<leftarrow> is_inode_dir id (pfs st);
       if \<not> isdir then eax (bool_value ((- 1 :: int) \<noteq> 0)) st
       else do {
         d \<leftarrow> fd_dir e;
         (r, f) \<leftarrow> dir_readdir d fr (pfs st);
         case r of
           None \<Rightarrow> eax (bool_value False) (st\<lparr>pfs := f\<rparr>)
         | Some n \<Rightarrow> do {
             m \<leftarrow> store_bytes (unat name) (n @ [0]) (umem st);
             eax (bool_value True) (st\<lparr>pfs := f, umem := m\<rparr>) } } })"

text \<open>These two do not check what \<open>get_file\<close> returns: a null pointer faults, and the process is ended.\<close>

definition sys_isdir :: "int \<Rightarrow> syscall" where
  "sys_isdir fd st = (case get_file fd (fd_F OR fd_D) st of
     None \<Rightarrow> exit_process (- 1) st
   | Some e \<Rightarrow> do {
       id \<leftarrow> file_get_inode (fd_file e) (pfs st);
       b \<leftarrow> is_inode_dir id (pfs st);
       eax (bool_value b) st })"

definition sys_inumber :: "int \<Rightarrow> syscall" where
  "sys_inumber fd st = (case get_file fd (fd_F OR fd_D) st of
     None \<Rightarrow> exit_process (- 1) st
   | Some e \<Rightarrow> do {
       id \<leftarrow> file_get_inode (fd_file e) (pfs st);
       n \<leftarrow> inode_get_inumber id (pfs st);
       eax (int n) st })"

subsection \<open>The two additional calls\<close>

fun fibo_loop :: "nat \<Rightarrow> int \<Rightarrow> int \<Rightarrow> int \<Rightarrow> int" where
  "fibo_loop 0 f1 f2 res = res"
| "fibo_loop (Suc n) f1 f2 res = fibo_loop n f2 (int32 (f1 + f2)) (int32 (f1 + f2))"

definition fibonacci :: "int \<Rightarrow> int" where
  "fibonacci n = (if n = 1 then 1 else if n = 2 then 1 else fibo_loop (nat (n - 2)) 1 1 2)"

definition max_of_four_int :: "int \<Rightarrow> int \<Rightarrow> int \<Rightarrow> int \<Rightarrow> int" where
  "max_of_four_int a b c d =
     (let c1 = (if a > b then a else b); c2 = (if c > d then c else d) in if c1 > c2 then c1 else c2)"

subsection \<open>The handler\<close>

datatype syscall_number = SYS_HALT | SYS_EXIT | SYS_EXEC | SYS_WAIT | SYS_CREATE | SYS_REMOVE | SYS_OPEN | SYS_FILESIZE
  | SYS_READ | SYS_WRITE | SYS_SEEK | SYS_TELL | SYS_CLOSE | SYS_FIBO | SYS_MAXFOUR | SYS_MMAP | SYS_MUNMAP
  | SYS_CHDIR | SYS_MKDIR | SYS_READDIR | SYS_ISDIR | SYS_INUMBER

definition syscall_numbers :: "syscall_number list" where
  "syscall_numbers = [SYS_HALT, SYS_EXIT, SYS_EXEC, SYS_WAIT, SYS_CREATE, SYS_REMOVE, SYS_OPEN, SYS_FILESIZE,
     SYS_READ, SYS_WRITE, SYS_SEEK, SYS_TELL, SYS_CLOSE, SYS_FIBO, SYS_MAXFOUR, SYS_MMAP, SYS_MUNMAP,
     SYS_CHDIR, SYS_MKDIR, SYS_READDIR, SYS_ISDIR, SYS_INUMBER]"

definition syscall_of :: "u32 \<Rightarrow> syscall_number option" where
  "syscall_of w = (if unat w < length syscall_numbers then Some (syscall_numbers ! unat w) else None)"

text \<open>The arguments from the \<open>k\<close>-th on, \<open>n\<close> of them: each is fetched and checked before the next.  None is a fault or
  an address of the kernel; either ends the process.\<close>

fun fetch_args :: "nat \<Rightarrow> nat \<Rightarrow> u32 \<Rightarrow> proc \<Rightarrow> u32 list option" where
  "fetch_args k 0 esp st = Some []"
| "fetch_args k (Suc n) esp st = do {
     w \<leftarrow> load32 (umem st) (unat (esp + 4 * word_of_nat k));
     ASSERT (protect_user_memory w);
     ws \<leftarrow> fetch_args (k + 1) n esp st;
     Some (w # ws) }"

definition with_args :: "nat \<Rightarrow> u32 \<Rightarrow> (u32 list \<Rightarrow> syscall) \<Rightarrow> syscall" where
  "with_args n esp body st = (case fetch_args 1 n esp st of
     None \<Rightarrow> exit_process (- 1) st
   | Some ws \<Rightarrow> body ws st)"

definition not_null :: "u32 \<Rightarrow> syscall \<Rightarrow> syscall" where
  "not_null p body st = (if p = 0 then exit_process (- 1) st else body st)"

text \<open>\<open>exec\<close> and \<open>wait\<close> start and await another process.\<close>

definition syscall_handler :: "(u32 \<Rightarrow> syscall) \<Rightarrow> (u32 \<Rightarrow> syscall) \<Rightarrow> frame \<Rightarrow> bool \<Rightarrow> u32 \<Rightarrow> syscall" where
  "syscall_handler exec wait fr page esp st = (case load32 (umem st) (unat esp) of
     None \<Rightarrow> exit_process (- 1) st
   | Some w \<Rightarrow> (case syscall_of w of
       Some SYS_HALT \<Rightarrow> Some (Halted, st)
     | Some SYS_EXIT \<Rightarrow> with_args 1 esp (\<lambda>p. exit_process (sint (p ! 0))) st
     | Some SYS_EXEC \<Rightarrow> with_args 1 esp (\<lambda>p. exec (p ! 0)) st
     | Some SYS_WAIT \<Rightarrow> with_args 1 esp (\<lambda>p. wait (p ! 0)) st
     | Some SYS_CREATE \<Rightarrow> with_args 2 esp (\<lambda>p. not_null (p ! 0) (sys_create (p ! 0) (p ! 1) fr)) st
     | Some SYS_REMOVE \<Rightarrow> with_args 1 esp (\<lambda>p. not_null (p ! 0) (sys_remove (p ! 0) fr)) st
     | Some SYS_OPEN \<Rightarrow> with_args 1 esp (\<lambda>p. not_null (p ! 0) (sys_open (p ! 0) fr page)) st
     | Some SYS_FILESIZE \<Rightarrow> with_args 1 esp (\<lambda>p. sys_filesize (sint (p ! 0))) st
     | Some SYS_READ \<Rightarrow> with_args 3 esp (\<lambda>p. sys_read (sint (p ! 0)) (p ! 1) (p ! 2)) st
     | Some SYS_WRITE \<Rightarrow> with_args 3 esp (\<lambda>p. sys_write (sint (p ! 0)) (p ! 1) (p ! 2)) st
     | Some SYS_SEEK \<Rightarrow> with_args 2 esp (\<lambda>p. sys_seek (sint (p ! 0)) (p ! 1)) st
     | Some SYS_TELL \<Rightarrow> with_args 1 esp (\<lambda>p. sys_tell (sint (p ! 0))) st
     | Some SYS_CLOSE \<Rightarrow> with_args 1 esp (\<lambda>p. sys_close (sint (p ! 0))) st
     | Some SYS_FIBO \<Rightarrow> with_args 1 esp (\<lambda>p. eax (fibonacci (sint (p ! 0)))) st
     | Some SYS_MAXFOUR \<Rightarrow>
         with_args 4 esp (\<lambda>p. eax (max_of_four_int (sint (p ! 0)) (sint (p ! 1)) (sint (p ! 2)) (sint (p ! 3)))) st
     | Some SYS_CHDIR \<Rightarrow> with_args 1 esp (\<lambda>p. sys_chdir (p ! 0) fr) st
     | Some SYS_MKDIR \<Rightarrow> with_args 1 esp (\<lambda>p. sys_mkdir (p ! 0) fr) st
     | Some SYS_READDIR \<Rightarrow> with_args 2 esp (\<lambda>p. sys_readdir (sint (p ! 0)) (p ! 1) fr) st
     | Some SYS_ISDIR \<Rightarrow> with_args 1 esp (\<lambda>p. sys_isdir (sint (p ! 0))) st
     | Some SYS_INUMBER \<Rightarrow> with_args 1 esp (\<lambda>p. sys_inumber (sint (p ! 0))) st
     | _ \<Rightarrow> Some (NoValue, st)))"

end
