(* ===== verification/SyscallTheorems.thy ===== *)
theory SyscallTheorems imports Syscalls FsTheorems begin

section \<open>What a process gets from its system calls\<close>

subsection \<open>The memory of the process\<close>

lemma those_bytes_at: "bytes_at m p bs \<Longrightarrow> those (map m [p..<p + length bs]) = Some bs"
proof (induction bs arbitrary: p)
  case (Cons b bs)
  have "those (map m [Suc p..<Suc p + length bs]) = Some bs" using Cons.IH [of "Suc p"] Cons.prems by (simp del: upt_Suc)
  moreover have "[p..<p + length (b # bs)] = p # [Suc p..<Suc p + length bs]" by (simp add: upt_conv_Cons del: upt_Suc)
  ultimately show ?case using Cons.prems by (simp del: upt_Suc)
qed simp

lemma user_bytes_at: "bytes_at (umem st) (unat p) bs \<Longrightarrow> user_bytes p (length bs) st = Some bs"
  unfolding user_bytes_def by (rule those_bytes_at)

subsection \<open>Descriptors\<close>

text \<open>The numbers of a process's descriptors increase along its list, from 3 on.\<close>

definition fds_ok :: "proc \<Rightarrow> bool" where
  "fds_ok st = (sorted_wrt (<) (map fd_num (fd_head st)) \<and> (\<forall>e \<in> set (fd_head st). 3 \<le> fd_num e \<and> fd_num e < 2 ^ 31))"

lemma find_fd_Some: "find_fd n w es = Some e \<Longrightarrow> e \<in> set es \<and> fd_num e = n"
  by (induction es) (auto split: if_splits)

lemma get_file_Some: "get_file n w st = Some e \<Longrightarrow> e \<in> set (fd_head st) \<and> fd_num e = n \<and> 3 \<le> n"
  by (auto simp: get_file_def dest: find_fd_Some split: if_splits)

lemma which_any: "e \<in> set es \<Longrightarrow> (find_fd (fd_num e) (fd_F OR fd_D) es \<noteq> None)"
  by (induction es) (auto simp: fd_F_def fd_D_def)

lemma find_fd_none: "n \<notin> fd_num ` set es \<Longrightarrow> find_fd n w es = None"
  by (induction es) auto

lemma find_fd_append: "n \<notin> fd_num ` set es \<Longrightarrow> find_fd n w (es @ fs) = find_fd n w fs"
  by (induction es) auto

lemma fds_distinct: "fds_ok st \<Longrightarrow> distinct (map fd_num (fd_head st))"
  unfolding fds_ok_def using strict_sorted_iff by blast

lemma find_fd_remove1:
  "distinct (map fd_num es) \<Longrightarrow> e \<in> set es \<Longrightarrow>
     find_fd n w (remove1 e es) = (if n = fd_num e then None else find_fd n w es)"
proof (induction es)
  case (Cons a es)
  then show ?case by (cases "a = e") (auto simp: find_fd_none)
qed simp

lemma new_num:
  assumes "fds_ok st" "num = (if fd_head st = [] then 3 else int32 (fd_num (last (fd_head st)) + 1))"
    and "fd_head st \<noteq> [] \<Longrightarrow> fd_num (last (fd_head st)) < 2 ^ 31 - 1"
  shows "3 \<le> num" "num < 2 ^ 31" "num \<notin> fd_num ` set (fd_head st)" "\<forall>e \<in> set (fd_head st). fd_num e < num"
proof -
  have "3 \<le> num \<and> num < 2 ^ 31 \<and> (\<forall>e \<in> set (fd_head st). fd_num e < num)"
  proof (cases "fd_head st" rule: rev_cases)
    case (snoc es e)
    then have "num = fd_num e + 1" "3 \<le> fd_num e" using assms by (auto simp: fds_ok_def int32_id)
    then show ?thesis using assms(1,3) snoc by (auto simp: fds_ok_def sorted_wrt_append)
  qed (use assms(2) in simp)
  then show "3 \<le> num" "num < 2 ^ 31" "num \<notin> fd_num ` set (fd_head st)" "\<forall>e \<in> set (fd_head st). fd_num e < num" by auto
qed

lemma fds_ok_snoc:
  "fds_ok st \<Longrightarrow> 3 \<le> fd_num e \<Longrightarrow> fd_num e < 2 ^ 31 \<Longrightarrow> \<forall>x \<in> set (fd_head st). fd_num x < fd_num e \<Longrightarrow>
     fds_ok (st\<lparr>fd_head := fd_head st @ [e]\<rparr>)"
  by (auto simp: fds_ok_def sorted_wrt_append)

lemma sorted_remove1: "sorted_wrt P (map f es) \<Longrightarrow> sorted_wrt P (map f (remove1 e es))"
  by (induction es) (auto dest: notin_set_remove1)

lemma fds_ok_remove1: "fds_ok st \<Longrightarrow> fds_ok (st\<lparr>fd_head := remove1 e (fd_head st)\<rparr>)"
  unfolding fds_ok_def by (auto simp: sorted_remove1 dest: notin_set_remove1)

subsection \<open>Opening and closing\<close>

text \<open>A descriptor that can be closed: its file is there and not removed, and the inode is open once for the file and
  once for the directory, if it has one.\<close>

definition closable :: "fs \<Rightarrow> fd_entry \<Rightarrow> bool" where
  "closable f e = (\<exists>x i. file_of f (fd_file e) = Some x \<and> inode_of f (file_inode x) = Some i \<and> \<not> deny_write x \<and> \<not> removed i
     \<and> (case fd_dir e of None \<Rightarrow> True
        | Some d \<Rightarrow> \<exists>y. dir_of f d = Some y \<and> dir_inode y = file_inode x \<and> open_cnt i \<noteq> 1))"

lemma sys_close_closable:
  assumes "get_file fd (fd_F OR fd_D) st = Some e" "closable (pfs st) e"
  shows "\<exists>f. sys_close fd st = Some (NoValue, st\<lparr>pfs := f, fd_head := remove1 e (fd_head st)\<rparr>)
    \<and> file_of f = (file_of (pfs st))(fd_file e := None)"
proof -
  from assms(2) obtain x i where x: "file_of (pfs st) (fd_file e) = Some x" "inode_of (pfs st) (file_inode x) = Some i"
    "\<not> deny_write x" "\<not> removed i" by (auto simp: closable_def)
  show ?thesis
  proof (cases "fd_dir e")
    case None
    then show ?thesis using assms(1) x
      by (auto simp: sys_close_def file_close_def file_allow_write_def inode_close_def set_inode_def)
  next
    case (Some d)
    then obtain y where "dir_of (pfs st) d = Some y" "dir_inode y = file_inode x" "open_cnt i \<noteq> 1"
      using assms(2) x by (auto simp: closable_def)
    then show ?thesis using assms(1) x Some
      by (auto simp: sys_close_def file_close_def file_allow_write_def inode_close_def dir_close_def set_inode_def)
  qed
qed

lemma sys_open_found:
  assumes "\<not> w_held st" "user_string p st = Some path" "filesys_open path fr (pfs st) = Some (Some g, f)"
    and "file_of f g = Some x" "inode_of f (file_inode x) = Some i" "path \<noteq> proc_name st" "malloc_ok f (heap_next f)"
    and "\<not> deny_write x" "\<not> removed i" "1 \<le> open_cnt i"
    and "num = (if fd_head st = [] then 3 else int32 (fd_num (last (fd_head st)) + 1))"
  shows "\<exists>f' d. sys_open p fr True st = Some (Eax (word_of_int num),
      st\<lparr>pfs := f', fd_head := fd_head st @ [\<lparr>fd_num = num, fd_file = g, fd_dir = d\<rparr>], w_held := False\<rparr>)
    \<and> (d = None \<longleftrightarrow> \<not> is_dir (idata i)) \<and> closable f' \<lparr>fd_num = num, fd_file = g, fd_dir = d\<rparr>"
proof -
  note defs = sys_open_def acquire_w_def release_w_def user_string_def file_get_inode_def is_inode_dir_def eax_def Let_def
    inode_reopen_def set_inode_def dir_open_def fs_malloc_def closable_def
  let ?f = "f\<lparr>inode_of := (inode_of f)(file_inode x \<mapsto> i\<lparr>open_cnt := open_cnt i + 1\<rparr>), heap_next := heap_next f + 1,
    dir_of := (dir_of f)(heap_next f \<mapsto> \<lparr>dir_inode = file_inode x, dir_pos = int ENTRY_SIZE\<rparr>)\<rparr>"
  show ?thesis
  proof (cases "is_dir (idata i)")
    case True
    with assms show ?thesis by (intro exI [of _ ?f] exI [of _ "Some (heap_next f)"]) (simp add: defs)
  next
    case False
    with assms show ?thesis by (intro exI [of _ f] exI [of _ None]) (simp add: defs)
  qed
qed

lemma get_file_new:
  assumes "fd_num e \<notin> fd_num ` set (fd_head st)" "3 \<le> fd_num e"
  shows "get_file (fd_num e) (if fd_dir e = None then fd_F else fd_D) (st\<lparr>fd_head := fd_head st @ [e]\<rparr>) = Some e"
    "get_file (fd_num e) (fd_F OR fd_D) (st\<lparr>fd_head := fd_head st @ [e]\<rparr>) = Some e"
  using assms find_fd_append [OF assms(1)] by (cases "fd_dir e"; simp add: get_file_def fd_F_def fd_D_def)+

lemma find_fd_other: "n \<noteq> fd_num e \<Longrightarrow> find_fd n w (es @ [e]) = find_fd n w es"
  by (induction es) auto

lemma get_file_cong: "fd_head st' = fd_head st \<Longrightarrow> get_file n w st' = get_file n w st"
  by (simp add: get_file_def)

lemma remove1_last: "e \<notin> set es \<Longrightarrow> remove1 e (es @ [e]) = es"
  by (simp add: remove1_append)

text \<open>C29: open gives a descriptor that nothing else has, and close takes it back.  In a process whose descriptors are in
  order, opening a path that the file system resolves returns a number that is not in use, under which the file is
  found, as a directory if it is one; every other descriptor means what it meant, the table stays in order and the
  lock is free.  Closing it succeeds and restores the table, after which closing it again ends the process with -1.\<close>

theorem open_close_descriptor:
  assumes "fds_ok st" and "\<not> w_held st" and "user_string p st = Some path" and "filesys_open path fr (pfs st) = Some (Some g, f)"
    and "file_of f g = Some x" and "inode_of f (file_inode x) = Some i" and "path \<noteq> proc_name st" and "malloc_ok f (heap_next f)"
    and "\<not> deny_write x" and "\<not> removed i" and "1 \<le> open_cnt i"
    and "fd_head st \<noteq> [] \<longrightarrow> fd_num (last (fd_head st)) < 2 ^ 31 - 1"
  shows "\<exists>e st1 st2. sys_open p fr True st = Some (Eax (word_of_int (fd_num e)), st1) \<and> fd_num e \<notin> fd_num ` set (fd_head st)
    \<and> get_file (fd_num e) (if is_dir (idata i) then fd_D else fd_F) st1 = Some e \<and> fd_file e = g \<and> fds_ok st1 \<and> \<not> w_held st1
    \<and> (\<forall>n w. n \<noteq> fd_num e \<longrightarrow> get_file n w st1 = get_file n w st)
    \<and> sys_close (fd_num e) st1 = Some (NoValue, st2) \<and> fd_head st2 = fd_head st \<and> file_of (pfs st2) g = None
    \<and> sys_close (fd_num e) st2 = exit_process (- 1) st2"
proof -
  define num where "num = (if fd_head st = [] then 3 else int32 (fd_num (last (fd_head st)) + 1))"
  from sys_open_found [OF assms(2-11) num_def] obtain f' d where
    o: "sys_open p fr True st = Some (Eax (word_of_int num),
      st\<lparr>pfs := f', fd_head := fd_head st @ [\<lparr>fd_num = num, fd_file = g, fd_dir = d\<rparr>], w_held := False\<rparr>)"
    and d: "d = None \<longleftrightarrow> \<not> is_dir (idata i)" and cl: "closable f' \<lparr>fd_num = num, fd_file = g, fd_dir = d\<rparr>" by blast
  let ?e = "\<lparr>fd_num = num, fd_file = g, fd_dir = d\<rparr>"
  let ?st = "st\<lparr>pfs := f', fd_head := fd_head st @ [?e], w_held := False\<rparr>"
  have last: "fd_head st \<noteq> [] \<Longrightarrow> fd_num (last (fd_head st)) < 2 ^ 31 - 1" using assms(12) by blast
  note n = new_num [OF assms(1) num_def last]
  have files: "get_file num (if is_dir (idata i) then fd_D else fd_F) ?st = Some ?e" "get_file num (fd_F OR fd_D) ?st = Some ?e"
    using get_file_new [of ?e st] n d get_file_cong [of ?st "st\<lparr>fd_head := fd_head st @ [?e]\<rparr>"] by (auto split: if_splits)
  have ok: "fds_ok ?st" using fds_ok_snoc [OF assms(1), of ?e] n by (simp add: fds_ok_def)
  have other: "get_file m w ?st = get_file m w st" if "m \<noteq> num" for m w
    using find_fd_other [of m ?e w] that by (simp add: get_file_def)
  obtain f2 where c: "sys_close num ?st = Some (NoValue, ?st\<lparr>pfs := f2, fd_head := remove1 ?e (fd_head ?st)\<rparr>)"
    "file_of f2 = (file_of f')(g := None)"
    using sys_close_closable [OF files(2)] cl by auto
  have "?e \<notin> set (fd_head st)" using n(3) by force
  then have r: "remove1 ?e (fd_head ?st) = fd_head st" using remove1_last by simp
  let ?st2 = "?st\<lparr>pfs := f2, fd_head := fd_head st\<rparr>"
  have "get_file num (fd_F OR fd_D) ?st2 = None" using find_fd_none [OF n(3)] by (simp add: get_file_def)
  then have "sys_close num ?st2 = exit_process (- 1) ?st2" by (simp add: sys_close_def)
  then show ?thesis using o n(3) ok files(1) other c r by (intro exI [of _ ?e] exI [of _ ?st] exI [of _ ?st2]) simp
qed

subsection \<open>Writing and reading\<close>

lemma opened_file_of [simp]: "opened (st\<lparr>file_of := f\<rparr>) p i = opened st p i"
  by (simp add: opened_def)

lemma file_write_spec:
  assumes "file_of f g = Some x" "file_pos x = int o'" "inode_write_at allocate_one (file_inode x) bs (int o') f = Some (n, f1)"
    "file_of f1 = file_of f"
  shows "file_write g bs f = Some (n, f1\<lparr>file_of := (file_of f)(g \<mapsto> x\<lparr>file_pos := int32 (int o' + n)\<rparr>)\<rparr>)"
  using assms by (simp add: file_write_def file_write_via_def set_file_def)

lemma file_read_spec:
  assumes "file_of f g = Some x" "file_pos x = int o'" "opened f (file_inode x) i"
  shows "\<exists>f1. file_read g sz f = Some (take (nat sz) (drop o' (content (disk f) (idata i))), f1)
    \<and> file_of f1 = (file_of f)(g \<mapsto> x\<lparr>file_pos := int32 (int o' + int (min (nat sz) (nat (ilen (idata i)) - o')))\<rparr>)"
proof -
  from inode_read_at_spec [OF assms(3), of "int o'" sz] obtain f' where
    "inode_read_at (file_inode x) sz (int o') f = Some (take (nat sz) (drop o' (content (disk f) (idata i))), f')" "quiet f f'" by auto
  then show ?thesis using assms(1,2) disk_stepD(5) [of f "disk f" f'] by (auto simp: file_read_def set_file_def min.commute)
qed

lemma sys_write_file:
  assumes "get_file fd fd_F st = Some e" "\<not> w_held st" "bytes_at (umem st) (unat src) bs" "unat sz = length bs"
    and "file_write (fd_file e) bs (pfs st) = Some (n, f)"
  shows "sys_write fd src sz st = Some (Eax (word_of_int n), st\<lparr>pfs := f, w_held := False\<rparr>)"
  using assms get_file_Some [OF assms(1)] user_bytes_at [OF assms(3)] get_file_cong [of "st\<lparr>w_held := True\<rparr>" st fd fd_F]
  by (simp add: sys_write_def acquire_w_def release_w_def eax_def user_bytes_def)

lemma sys_read_file:
  assumes "get_file fd fd_F st = Some e" "\<not> w_held st" "file_read (fd_file e) (sint n) (pfs st) = Some (bs, f)"
    and "mapped (umem st) (unat dst) (length bs)"
  shows "sys_read fd dst n st = Some (Eax (word_of_int (int (length bs))),
    st\<lparr>pfs := f, umem := put (unat dst) bs (umem st), w_held := False\<rparr>)"
  using assms get_file_Some [OF assms(1)] store_bytes_put [OF assms(4)] get_file_cong [of "st\<lparr>w_held := True\<rparr>" st fd fd_F]
  by (simp add: sys_read_def acquire_w_def release_w_def eax_def)

text \<open>C28: What a process writes it reads back.  For a descriptor of a file in order, write returns the size asked for;
  seek to any position and read then put into the process's memory the bytes that the file has from there on after
  the write: its old content, extended with zeros if the write began behind its end, with the written bytes in
  place.  read returns their number, nothing else in memory changes, the table is the same and the lock is free.\<close>

theorem write_then_read_through_calls:
  assumes "get_file fd fd_F st = Some e" and "\<not> w_held st" and "file_of (pfs st) (fd_file e) = Some x" and "file_pos x = int o'"
    and "fm_ok (pfs st)" and "inode_of (pfs st) (file_inode x) = Some i" and "file_wf (pfs st) (idata i)" and "deny_write_cnt i = 0"
    and "isector i \<in> alloced free_sectors fm_sectors (pfs st)"
    and "isector i \<notin> index_used (disk (pfs st)) (idata i) (sector_cnt (idata i))"
    and "bs \<noteq> []" and "o' + length bs \<le> 512 * MAX_SECTORS"
    and "nat (ilen (idata i)) < o' + length bs \<longrightarrow> index_cost ((o' + length bs + 511) div 512) \<le> card (free_sectors (pfs st))"
    and "bytes_at (umem st) (unat src) bs" and "unat sz = length bs" and "0 \<le> sint pos" and "mapped (umem st) (unat dst) (nat (sint n))"
  shows "\<exists>st1 st2 st3 r. r = take (nat (sint n)) (drop (nat (sint pos)) (new_content o' bs (content (disk (pfs st)) (idata i))))
    \<and> sys_write fd src sz st = Some (Eax sz, st1) \<and> sys_seek fd pos st1 = Some (NoValue, st2)
    \<and> sys_read fd dst n st2 = Some (Eax (word_of_nat (length r)), st3) \<and> umem st3 = put (unat dst) r (umem st)
    \<and> fd_head st3 = fd_head st \<and> \<not> w_held st3"
proof -
  from inode_write_refines [OF assms(5-13)] obtain f1 d' where
    w: "inode_write_at allocate_one (file_inode x) bs (int o') (pfs st) = Some (int (length bs), f1)"
    "written (pfs st) (file_inode x) i o' bs f1 d'" by blast
  note wr = w(2) [unfolded written_def]
  have fo: "file_of f1 = file_of (pfs st)" using wr same_heapD(2) by fastforce
  let ?f2 = "f1\<lparr>file_of := (file_of (pfs st))(fd_file e \<mapsto> x\<lparr>file_pos := int32 (int o' + int (length bs))\<rparr>)\<rparr>"
  let ?x3 = "x\<lparr>file_pos := sint pos\<rparr>"
  let ?f3 = "f1\<lparr>file_of := (file_of (pfs st))(fd_file e \<mapsto> ?x3)\<rparr>"
  let ?c = "new_content o' bs (content (disk (pfs st)) (idata i))"
  let ?r = "take (nat (sint n)) (drop (nat (sint pos)) ?c)"
  have "word_of_int (int (length bs)) = sz" unfolding assms(15) [symmetric] by simp
  then have wrote: "sys_write fd src sz st = Some (Eax sz, st\<lparr>pfs := ?f2, w_held := False\<rparr>)"
    using sys_write_file [OF assms(1,2,14,15) file_write_spec [OF assms(3,4) w(1) fo]] by simp
  have seek: "sys_seek fd pos (st\<lparr>pfs := ?f2, w_held := False\<rparr>) = Some (NoValue, st\<lparr>pfs := ?f3, w_held := False\<rparr>)"
    using assms(1,16) get_file_cong [of "st\<lparr>pfs := ?f2, w_held := False\<rparr>" st fd fd_F]
    by (simp add: sys_seek_def file_seek_def set_file_def)
  have "opened f1 (file_inode x) (i\<lparr>idata := d'\<rparr>)" using wr by (intro file_wf_opened) simp_all
  then have op: "opened ?f3 (file_inode ?x3) (i\<lparr>idata := d'\<rparr>)" by simp
  have "content (disk ?f3) (idata (i\<lparr>idata := d'\<rparr>)) = ?c" using wr by simp
  then obtain f4 where rd: "file_read (fd_file e) (sint n) ?f3 = Some (?r, f4)"
    using file_read_spec [OF _ _ op, of "fd_file e" "nat (sint pos)" "sint n"] assms(16) by auto
  let ?st2 = "st\<lparr>pfs := ?f3, w_held := False\<rparr>"
  let ?st3 = "?st2\<lparr>pfs := f4, umem := put (unat dst) ?r (umem ?st2), w_held := False\<rparr>"
  have "sys_read fd dst n ?st2 = Some (Eax (word_of_int (int (length ?r))), ?st3)"
  proof (rule sys_read_file)
    show "get_file fd fd_F ?st2 = Some e" using assms(1) get_file_cong [of ?st2 st fd fd_F] by simp
    show "file_read (fd_file e) (sint n) (pfs ?st2) = Some (?r, f4)" using rd by simp
    show "mapped (umem ?st2) (unat dst) (length ?r)" using mapped_mono [OF assms(17)] by simp
  qed simp
  then have "sys_read fd dst n ?st2 = Some (Eax (word_of_nat (length ?r)), ?st3)" unfolding of_int_of_nat_eq .
  moreover have "umem ?st3 = put (unat dst) ?r (umem st)" "fd_head ?st3 = fd_head st" "\<not> w_held ?st3" by simp_all
  ultimately show ?thesis using wrote seek by blast
qed

text \<open>A process with the empty file of the example file system open as descriptor 3.\<close>

definition ex_proc :: proc where
  "ex_proc = \<lparr>pfs = (ex_fs 15)\<lparr>file_of := (file_of (ex_fs 15))(9 \<mapsto> \<lparr>file_inode = 7, file_pos = 600, deny_write = False\<rparr>)\<rparr>,
     fd_head = [\<lparr>fd_num = 3, fd_file = 9, fd_dir = None\<rparr>], proc_name = [97],
     umem = put 100 [1, 2, 3] (\<lambda>_. Some 9), console = [], keyboard = [], exit_number = 0, w_held = False\<rparr>"

lemma ex_proc_fields [simp]:
  "w_held ex_proc = False" "umem ex_proc = put 100 [1, 2, 3] (\<lambda>_. Some 9)" "fd_head ex_proc = [\<lparr>fd_num = 3, fd_file = 9, fd_dir = None\<rparr>]"
  "file_of (pfs ex_proc) = (file_of (ex_fs 15))(9 \<mapsto> \<lparr>file_inode = 7, file_pos = 600, deny_write = False\<rparr>)"
  by (simp_all add: ex_proc_def)

lemma ex_proc_file: "get_file 3 fd_F ex_proc = Some \<lparr>fd_num = 3, fd_file = 9, fd_dir = None\<rparr>" "get_file 3 fd_D ex_proc = None"
  by (simp_all add: get_file_def fd_F_def fd_D_def)

lemma file_of_irrelevant:
  assumes "fm_inode (f\<lparr>file_of := m\<rparr>) = fm_inode f"
  shows "fm_sectors (f\<lparr>file_of := m\<rparr>) = fm_sectors f" "fm_ok (f\<lparr>file_of := m\<rparr>) = fm_ok f"
    "free_sectors (f\<lparr>file_of := m\<rparr>) = free_sectors f"
    "alloced free_sectors fm_sectors (f\<lparr>file_of := m\<rparr>) = alloced free_sectors fm_sectors f" "file_wf (f\<lparr>file_of := m\<rparr>) d = file_wf f d"
proof -
  show s: "fm_sectors (f\<lparr>file_of := m\<rparr>) = fm_sectors f" unfolding fm_sectors_def assms by (cases "fm_inode f") simp_all
  show "fm_ok (f\<lparr>file_of := m\<rparr>) = fm_ok f" by (simp add: fm_ok_def assms s fm_file_ok_def)
  show fr: "free_sectors (f\<lparr>file_of := m\<rparr>) = free_sectors f" by (simp add: free_sectors_def)
  show al: "alloced free_sectors fm_sectors (f\<lparr>file_of := m\<rparr>) = alloced free_sectors fm_sectors f" by (simp add: alloced_def s fr)
  show "file_wf (f\<lparr>file_of := m\<rparr>) d = file_wf f d" by (simp add: file_wf_def al)
qed

lemma ex_proc_fs:
  "fm_ok (pfs ex_proc)" "inode_of (pfs ex_proc) = inode_of (ex_fs 15)" "disk (pfs ex_proc) = disk (ex_fs 15)"
  "free_sectors (pfs ex_proc) = {4..<16}" "alloced free_sectors fm_sectors (pfs ex_proc) = alloced free_sectors fm_sectors (ex_fs 15)"
  "file_wf (pfs ex_proc) d = file_wf (ex_fs 15) d"
proof -
  let ?m = "(file_of (ex_fs 15))(9 \<mapsto> \<lparr>file_inode = 7, file_pos = 600, deny_write = False\<rparr>)"
  have p: "pfs ex_proc = (ex_fs 15)\<lparr>file_of := ?m\<rparr>" by (simp add: ex_proc_def)
  have "fm_inode ((ex_fs 15)\<lparr>file_of := ?m\<rparr>) = fm_inode (ex_fs 15)" by (simp add: fm_inode_def ex_fs_def)
  note n = file_of_irrelevant [OF this]
  show "fm_ok (pfs ex_proc)" "free_sectors (pfs ex_proc) = {4..<16}"
    "alloced free_sectors fm_sectors (pfs ex_proc) = alloced free_sectors fm_sectors (ex_fs 15)" "file_wf (pfs ex_proc) d = file_wf (ex_fs 15) d"
    unfolding p n by (simp_all add: ex_15 ex_free_15)
  show "inode_of (pfs ex_proc) = inode_of (ex_fs 15)" "disk (pfs ex_proc) = disk (ex_fs 15)" by (simp_all add: p)
qed

text \<open>Three bytes written at offset 600 and ten read from 598 on.\<close>

theorem write_then_read_through_calls_witness:
  "\<exists>st1 st2 st3. sys_write 3 100 3 ex_proc = Some (Eax 3, st1) \<and> sys_seek 3 598 st1 = Some (NoValue, st2)
     \<and> sys_read 3 200 10 st2 = Some (Eax 5, st3) \<and> umem st3 = put 200 [0, 0, 1, 2, 3] (umem ex_proc)"
proof -
  have b: "bytes_at (umem ex_proc) (unat (100 :: u32)) [1, 2, 3]" using bytes_at_put [of 100 "[1, 2, 3]"] by simp
  have c: "content v (zero_inode False) = []" for v by (simp add: content_def zero_inode_def)
  have m: "mapped (umem ex_proc) (unat (200 :: u32)) (nat (sint (10 :: u32)))" by (simp add: mapped_def put_def)
  let ?i = "\<lparr>isector = 3, open_cnt = 1, removed = False, deny_write_cnt = 0, idata = zero_inode False\<rparr>"
  let ?x = "\<lparr>file_inode = 7, file_pos = 600, deny_write = False\<rparr>"
  have r: "take (nat 10) (drop (nat 598) (new_content 600 [1, 2, 3] [])) = [0, 0, 1, 2, 3 :: byte]"
    by (simp add: new_content_def patch_def eval_nat_numeral)
  have s: "sint (598 :: u32) = 598" "sint (10 :: u32) = 10" by simp_all
  have "\<exists>st1 st2 st3 r. r = take (nat (sint (10 :: u32))) (drop (nat (sint (598 :: u32)))
        (new_content 600 [1, 2, 3] (content (disk (pfs ex_proc)) (idata ?i))))
      \<and> sys_write 3 100 3 ex_proc = Some (Eax 3, st1) \<and> sys_seek 3 598 st1 = Some (NoValue, st2)
      \<and> sys_read 3 200 10 st2 = Some (Eax (word_of_nat (length r)), st3) \<and> umem st3 = put (unat (200 :: u32)) r (umem ex_proc)
      \<and> fd_head st3 = fd_head ex_proc \<and> \<not> w_held st3"
    by (rule write_then_read_through_calls [OF ex_proc_file(1), where x = ?x];
        use zero_inode_wf [of "ex_fs 15" False] ex_15(2) b m in
        \<open>simp add: ex_proc_fs ex_file index_cost_small DIRECT_def MAX_SECTORS_def\<close>)
  then show ?thesis unfolding s inode.simps c r by auto
qed

subsection \<open>A process that opens the root directory\<close>

text \<open>A file system whose root directory is in memory, whatever is on the disk.\<close>

definition root_fs :: "bcache \<Rightarrow> fs" where
  "root_fs b = \<lparr>bc = b, free_map = \<lparr>bit_cnt = 16, elems = [15]\<rparr>, free_map_file = None, open_inodes = [7],
     inode_of = [7 \<mapsto> \<lparr>isector = 1, open_cnt = 1, removed = False, deny_write_cnt = 0, idata = zero_inode True\<rparr>],
     file_of = Map.empty, dir_of = Map.empty, heap_next = 8, malloc_ok = (\<lambda>_. True), cwd = None\<rparr>"

definition root_frame :: frame where
  "root_frame = \<lparr>junk_entry = \<lparr>inode_sector = 0, ename = replicate 15 0, in_use = 0\<rparr>, junk = (\<lambda>_. 0), room = (\<lambda>n. n)\<rparr>"

lemma root_divided: "divided [47] (Suc (Suc 0)) root_frame = Some ([], [])"
  by code_simp

lemma root_token: "map_option fst (strtok_r PATH_AT SLASH_STR NULL (put PATH_AT [0] constants)) = Some NULL"
  by code_simp

lemma walk_path_end:
  "walk_path m NULL pos dcur fr st = do {
     d \<leftarrow> dcur;
     p \<leftarrow> dir_get_inode d st;
     rm \<leftarrow> is_inode_rm p st;
     if rm then do { st \<leftarrow> dir_close dcur st; Some (None, st) } else Some (dcur, st) }"
  by (subst walk_path.simps) simp

lemma root_open:
  "\<exists>f. filesys_open [47] root_frame (root_fs b) = Some (Some 9, f)
     \<and> file_of f 9 = Some \<lparr>file_inode = 7, file_pos = 0, deny_write = False\<rparr>
     \<and> inode_of f 7 = Some \<lparr>isector = 1, open_cnt = 2, removed = False, deny_write_cnt = 0, idata = zero_inode True\<rparr> \<and> malloc_ok f = (\<lambda>_. True)"
proof -
  obtain pos m where t: "strtok_r PATH_AT SLASH_STR NULL (put PATH_AT [0] constants) = Some (NULL, pos, m)"
    using root_token by auto
  show ?thesis
    by (simp add: filesys_open_def root_divided make_path_def t walk_path_end dir_open_root_def inode_open_def root_fs_def
      ROOT_DIR_SECTOR_def inode_reopen_def set_inode_def dir_open_def fs_malloc_def dir_get_inode_def is_inode_rm_def file_open_def)
qed

lemma user_string_at:
  assumes "str_at (umem st) (unat p) cs" "p \<noteq> 0"
  shows "user_string p st = Some cs"
proof -
  have "strlen (unat p) (umem st) = Some (length cs)" using strlen_str [OF assms(1)] assms(2) by (simp add: NULL_def unsigned_eq_0_iff)
  moreover have "bytes_at (umem st) (unat p) cs" using assms(1) by (simp add: str_at_def bytes_at_append)
  ultimately show ?thesis using those_bytes_at by (simp add: user_string_def string_at_def)
qed

definition root_proc :: proc where
  "root_proc = \<lparr>pfs = root_fs (bc (ex_fs 15)), fd_head = [], proc_name = [97], umem = put 100 [47, 0] (\<lambda>_. None),
     console = [], keyboard = [], exit_number = 0, w_held = False\<rparr>"

theorem open_close_descriptor_witness:
  "\<exists>e st1 st2. sys_open 100 root_frame True root_proc = Some (Eax (word_of_int (fd_num e)), st1)
     \<and> get_file (fd_num e) fd_D st1 = Some e \<and> sys_close (fd_num e) st1 = Some (NoValue, st2) \<and> fd_head st2 = []"
proof -
  obtain f where f: "filesys_open [47] root_frame (pfs root_proc) = Some (Some 9, f)"
    "file_of f 9 = Some \<lparr>file_inode = 7, file_pos = 0, deny_write = False\<rparr>"
    "inode_of f 7 = Some \<lparr>isector = 1, open_cnt = 2, removed = False, deny_write_cnt = 0, idata = zero_inode True\<rparr>"
    "malloc_ok f = (\<lambda>_. True)" using root_open by (auto simp: root_proc_def)
  have r: "\<not> w_held root_proc" "fd_head root_proc = []" "proc_name root_proc = [97]" "umem root_proc = put 100 [47, 0] (\<lambda>_. None)"
    by (simp_all add: root_proc_def)
  have s: "user_string 100 root_proc = Some [47]"
    using bytes_at_put [of 100 "[47, 0]" "\<lambda>_. None"] by (intro user_string_at) (simp_all add: str_at_def r)
  have "fds_ok root_proc" by (simp add: fds_ok_def r)
  from open_close_descriptor [OF this r(1) s f(1,2), of "\<lparr>isector = 1, open_cnt = 2, removed = False, deny_write_cnt = 0, idata = zero_inode True\<rparr>"]
  show ?thesis using f(3,4) by (auto simp: r zero_inode_def)
qed

subsection \<open>Arguments that the handler does not expect\<close>

lemma fetch_args_kernel:
  "load32 (umem st) (unat (esp + 4)) = Some v \<Longrightarrow> PHYS_BASE \<le> v \<Longrightarrow> 0 < n \<Longrightarrow> fetch_args 1 n esp st = None"
  by (cases n) (auto simp: protect_user_memory_def is_user_vaddr_def)

lemma syscall_of_numbers:
  "syscall_of 10 = Some SYS_SEEK" "syscall_of 17 = Some SYS_CHDIR"
  by (simp_all add: syscall_of_def syscall_numbers_def)



text \<open>Three stacks: seek (3, 2147483648), chdir (0) and exit (-2).\<close>

definition bad_stacks :: mem where
  "bad_stacks = put 1000 (bytes_of_u32 10 @ bytes_of_u32 3 @ bytes_of_u32 0x80000000)
     (put 2000 (bytes_of_u32 17 @ bytes_of_u32 0) (put 3000 (bytes_of_u32 1 @ bytes_of_u32 0xfffffffe) (\<lambda>_. None)))"

lemma bad_stacks_words:
  "load32 bad_stacks 1000 = Some 10" "load32 bad_stacks 1004 = Some 3" "load32 bad_stacks 1008 = Some 0x80000000"
  "load32 bad_stacks 2000 = Some 17" "load32 bad_stacks 2004 = Some 0"
  "load32 bad_stacks 3000 = Some 1" "load32 bad_stacks 3004 = Some 0xfffffffe"
  by (simp_all add: bad_stacks_def load32_def load_def put_def bytes_of_u32_def u32_of_bytes_def)



end
