(* ===== verification/Loader.thy ===== *)
theory Loader imports FileSys PageDir begin

section \<open>userprog/process.c: loading a program\<close>

text \<open>
  \<open>loader\<close> is the process that loads its program: the file system, the machine with memory and page tables, and
  its page directory.  The headers of an ELF file are read from their bytes.  The arguments of the program are put on
  the stack by \<open>makeup_stack\<close>, which writes to the addresses of the process; in \<open>load_program\<close> it is an argument.  Messages to the console are left out.
\<close>

record loader =
  lfs :: fs
  lm :: machine
  lpd :: u32

subsection \<open>Headers\<close>

record elf_ehdr =
  e_ident :: "byte list"
  e_type :: nat
  e_machine :: nat
  e_version :: u32
  e_entry :: u32
  e_phoff :: u32
  e_phentsize :: nat
  e_phnum :: nat

record elf_phdr =
  p_type :: u32
  p_offset :: u32
  p_vaddr :: u32
  p_filesz :: u32
  p_memsz :: u32
  p_flags :: u32

definition half_at :: "byte list \<Rightarrow> nat \<Rightarrow> nat" where
  "half_at bs k = unat (bs ! k) + 256 * unat (bs ! (k + 1))"

definition word_in :: "byte list \<Rightarrow> nat \<Rightarrow> u32" where
  "word_in bs k = u32_of_bytes (take 4 (drop k bs))"

definition EHDR_SIZE :: nat where "EHDR_SIZE = 52"
definition PHDR_SIZE :: nat where "PHDR_SIZE = 32"

definition decode_ehdr :: "byte list \<Rightarrow> elf_ehdr" where
  "decode_ehdr bs = \<lparr>e_ident = take 16 bs, e_type = half_at bs 16, e_machine = half_at bs 18, e_version = word_in bs 20,
     e_entry = word_in bs 24, e_phoff = word_in bs 28, e_phentsize = half_at bs 42, e_phnum = half_at bs 44\<rparr>"

definition decode_phdr :: "byte list \<Rightarrow> elf_phdr" where
  "decode_phdr bs = \<lparr>p_type = word_in bs 0, p_offset = word_in bs 4, p_vaddr = word_in bs 8, p_filesz = word_in bs 16,
     p_memsz = word_in bs 20, p_flags = word_in bs 24\<rparr>"

definition PT_LOAD :: u32 where "PT_LOAD = 1"
definition PT_DYNAMIC :: u32 where "PT_DYNAMIC = 2"
definition PT_INTERP :: u32 where "PT_INTERP = 3"
definition PT_SHLIB :: u32 where "PT_SHLIB = 5"
definition PF_W :: u32 where "PF_W = 2"

definition elf_magic :: "byte list" where
  "elf_magic = [127, 69, 76, 70, 1, 1, 1]"

definition ehdr_valid :: "byte list \<Rightarrow> bool" where
  "ehdr_valid bs = (length bs = EHDR_SIZE \<and> (let h = decode_ehdr bs in
     take 7 (e_ident h) = elf_magic \<and> e_type h = 2 \<and> e_machine h = 3 \<and> e_version h = 1 \<and> e_phentsize h = PHDR_SIZE \<and> e_phnum h \<le> 1024))"

definition validate_segment :: "elf_phdr \<Rightarrow> ptr \<Rightarrow> fs \<Rightarrow> bool option" where
  "validate_segment ph file st =
     (if p_offset ph AND PGMASK \<noteq> p_vaddr ph AND PGMASK then Some False
      else do {
        n \<leftarrow> file_length file st;
        if p_offset ph > word_of_int n then Some False
        else if p_memsz ph < p_filesz ph then Some False
        else if p_memsz ph = 0 then Some False
        else if \<not> is_user_vaddr (p_vaddr ph) then Some False
        else if \<not> is_user_vaddr (p_vaddr ph + p_memsz ph) then Some False
        else if p_vaddr ph + p_memsz ph < p_vaddr ph then Some False
        else if p_vaddr ph < PGSIZE then Some False
        else Some True })"

text \<open>How many bytes of a segment come from the file and how many are zero.\<close>

definition ROUND_UP :: "u32 \<Rightarrow> u32 \<Rightarrow> u32" where
  "ROUND_UP x step = (x + step - 1) div step * step"

definition segment_bytes :: "elf_phdr \<Rightarrow> u32 \<times> u32" where
  "segment_bytes ph = (let page_offset = p_vaddr ph AND PGMASK in
     if p_filesz ph > 0
     then (page_offset + p_filesz ph, ROUND_UP (page_offset + p_memsz ph) PGSIZE - (page_offset + p_filesz ph))
     else (0, ROUND_UP (page_offset + p_memsz ph) PGSIZE))"

subsection \<open>Pages\<close>

definition install_page :: "u32 \<Rightarrow> u32 \<Rightarrow> bool \<Rightarrow> loader \<Rightarrow> (bool \<times> loader) option" where
  "install_page upage kpage writable st = do {
     (p, m) \<leftarrow> pagedir_get_page (lpd st) upage (lm st);
     if p \<noteq> 0 then Some (False, st\<lparr>lm := m\<rparr>)
     else do { (ok, m) \<leftarrow> pagedir_set_page (lpd st) upage kpage writable m; Some (ok, st\<lparr>lm := m\<rparr>) } }"

definition free_kpage :: "u32 \<Rightarrow> loader \<Rightarrow> (bool \<times> loader) option" where
  "free_kpage kpage st = do { m \<leftarrow> palloc_free_page kpage (lm st); Some (False, st\<lparr>lm := m\<rparr>) }"

partial_function (option) load_loop :: "ptr \<Rightarrow> u32 \<Rightarrow> u32 \<Rightarrow> u32 \<Rightarrow> bool \<Rightarrow> loader \<Rightarrow> (bool \<times> loader) option" where
  "load_loop file upage read_bytes zero_bytes writable st =
     (if \<not> (read_bytes > 0 \<or> zero_bytes > 0) then Some (True, st)
      else let page_read_bytes = (if read_bytes < PGSIZE then read_bytes else PGSIZE);
               page_zero_bytes = PGSIZE - page_read_bytes in do {
        (kpage, m) \<leftarrow> palloc_get_page PAL_USER (lm st);
        if kpage = 0 then Some (False, st\<lparr>lm := m\<rparr>)
        else do {
          (bs, f) \<leftarrow> file_read file (sint page_read_bytes) (lfs st);
          r \<leftarrow> store_bytes (unat kpage) bs (ram m);
          let st = st\<lparr>lfs := f, lm := m\<lparr>ram := r\<rparr>\<rparr>;
          if int (length bs) \<noteq> sint page_read_bytes then free_kpage kpage st
          else do {
            (_, r) \<leftarrow> memset (unat (kpage + page_read_bytes)) 0 (unat page_zero_bytes) r;
            let st = st\<lparr>lm := m\<lparr>ram := r\<rparr>\<rparr>;
            (ok, st) \<leftarrow> install_page upage kpage writable st;
            if \<not> ok then free_kpage kpage st
            else load_loop file (upage + PGSIZE) (read_bytes - page_read_bytes) (zero_bytes - page_zero_bytes) writable st } } })"

definition load_segment :: "ptr \<Rightarrow> u32 \<Rightarrow> u32 \<Rightarrow> u32 \<Rightarrow> u32 \<Rightarrow> bool \<Rightarrow> loader \<Rightarrow> (bool \<times> loader) option" where
  "load_segment file ofs upage read_bytes zero_bytes writable st = do {
     ASSERT ((read_bytes + zero_bytes) mod PGSIZE = 0);
     ASSERT (pg_ofs upage = 0);
     ASSERT (sint ofs smod int (unat PGSIZE) = 0);
     f \<leftarrow> file_seek file (sint ofs) (lfs st);
     load_loop file upage read_bytes zero_bytes writable (st\<lparr>lfs := f\<rparr>) }"

definition setup_stack :: "loader \<Rightarrow> (u32 option \<times> loader) option" where
  "setup_stack st = do {
     (kpage, m) \<leftarrow> palloc_get_page (PAL_USER OR PAL_ZERO) (lm st);
     let st = st\<lparr>lm := m\<rparr>;
     if kpage \<noteq> 0 then do {
       (ok, st) \<leftarrow> install_page (PHYS_BASE - PGSIZE) kpage True st;
       if ok then Some (Some PHYS_BASE, st)
       else do { (_, st) \<leftarrow> free_kpage kpage st; Some (None, st) } }
     else Some (None, st) }"

subsection \<open>The program\<close>

text \<open>The loop over the \<open>n\<close> program headers from \<open>file_ofs\<close> on.\<close>

fun load_headers :: "nat \<Rightarrow> ptr \<Rightarrow> int \<Rightarrow> loader \<Rightarrow> (bool \<times> loader) option" where
  "load_headers 0 file file_ofs st = Some (True, st)"
| "load_headers (Suc n) file file_ofs st = do {
     len \<leftarrow> file_length file (lfs st);
     if file_ofs < 0 \<or> file_ofs > len then Some (False, st)
     else do {
       f \<leftarrow> file_seek file file_ofs (lfs st);
       (bs, f) \<leftarrow> file_read file (int PHDR_SIZE) f;
       let st = st\<lparr>lfs := f\<rparr>;
       if length bs \<noteq> PHDR_SIZE then Some (False, st)
       else do {
         let file_ofs = int32 (file_ofs + int PHDR_SIZE);
         let ph = decode_phdr bs;
         if p_type ph = PT_DYNAMIC \<or> p_type ph = PT_INTERP \<or> p_type ph = PT_SHLIB then Some (False, st)
         else if p_type ph = PT_LOAD then do {
           ok \<leftarrow> validate_segment ph file (lfs st);
           if \<not> ok then Some (False, st)
           else do {
             let (read_bytes, zero_bytes) = segment_bytes ph;
             (ok, st) \<leftarrow> load_segment file (p_offset ph AND NOT PGMASK) (p_vaddr ph AND NOT PGMASK) read_bytes zero_bytes
               (p_flags ph AND PF_W \<noteq> 0) st;
             if \<not> ok then Some (False, st) else load_headers n file file_ofs st } }
         else load_headers n file file_ofs st } } }"

text \<open>The name of the program is the part of the command before the first space; it is taken in an array of 50
  characters, and a longer command is written past its end.\<close>

definition command_name :: "byte list \<Rightarrow> byte list option" where
  "command_name file_name = do { ASSERT (length file_name < 50); Some (takeWhile (\<lambda>c. c \<noteq> 32) file_name) }"

definition load_file :: "ptr \<Rightarrow> (u32 \<Rightarrow> loader \<Rightarrow> (u32 \<times> loader) option) \<Rightarrow> loader \<Rightarrow> ((u32 \<times> u32) option \<times> loader) option" where
  "load_file file makeup_stack st = do {
     (bs, f) \<leftarrow> file_read file (int EHDR_SIZE) (lfs st);
     let st = st\<lparr>lfs := f\<rparr>;
     if \<not> ehdr_valid bs then Some (None, st)
     else do {
       let h = decode_ehdr bs;
       (ok, st) \<leftarrow> load_headers (e_phnum h) file (sint (e_phoff h)) st;
       if \<not> ok then Some (None, st)
       else do {
         (sp, st) \<leftarrow> setup_stack st;
         case sp of
           None \<Rightarrow> Some (None, st)
         | Some esp \<Rightarrow> do { (esp, st) \<leftarrow> makeup_stack esp st; Some (Some (e_entry h, esp), st) } } } }"

text \<open>The result is the entry point and the stack pointer.\<close>

definition load_program :: "byte list \<Rightarrow> frame \<Rightarrow> (byte list \<Rightarrow> u32 \<Rightarrow> loader \<Rightarrow> (u32 \<times> loader) option) \<Rightarrow> loader
    \<Rightarrow> ((u32 \<times> u32) option \<times> loader) option" where
  "load_program file_name fr makeup_stack st = do {
     (pd, m) \<leftarrow> pagedir_create (lm st);
     let st = st\<lparr>lm := m, lpd := pd\<rparr>;
     if pd = 0 then Some (None, st)
     else do {
       m \<leftarrow> pagedir_activate pd (lm st);
       let st = st\<lparr>lm := m\<rparr>;
       command \<leftarrow> command_name file_name;
       (file, f) \<leftarrow> filesys_open command fr (lfs st);
       let st = st\<lparr>lfs := f\<rparr>;
       case file of
         None \<Rightarrow> Some (None, st)
       | Some g \<Rightarrow> do {
           (r, st) \<leftarrow> load_file g (makeup_stack file_name) st;
           f \<leftarrow> file_close file (lfs st);
           Some (r, st\<lparr>lfs := f\<rparr>) } } }"

declare load_loop.simps [code]

end
