(* ===== verification/LoaderTheorems.thy ===== *)
theory LoaderTheorems imports Loader PageDirTheorems InodeContent begin

section \<open>What loading a segment puts into the memory of a process\<close>

text \<open>
  \<open>load_step\<close> is one turn of the loop of load_segment: a page of the user pool is taken, filled from the file and mapped,
  or there was none.  \<open>load_loop_spec\<close> puts the turns together.  What has to stay as it was is said by \<open>frames_kept\<close>,
  the contents of the pages in use, and \<open>entries_kept\<close>, the entries of the page directories.
\<close>

subsection \<open>Pages of the user pool\<close>

abbreviation uaddr :: "machine \<Rightarrow> nat \<Rightarrow> u32" where
  "uaddr m \<equiv> page_addr (user_pool m)"

definition uused :: "machine \<Rightarrow> nat \<Rightarrow> bool" where
  "uused m j = (j < bit_cnt (used_map (user_pool m)) \<and> bits_of (used_map (user_pool m)) ! j)"

definition page_bytes :: "machine \<Rightarrow> nat \<Rightarrow> byte list" where
  "page_bytes m j = map (\<lambda>o'. the (ram m (unat (uaddr m j) + o'))) [0..<4096]"

text \<open>Pages in use stay in use and keep their contents.\<close>

definition frames_kept :: "machine \<Rightarrow> machine \<Rightarrow> bool" where
  "frames_kept m m' = (pool_base (user_pool m') = pool_base (user_pool m)
     \<and> bit_cnt (used_map (user_pool m')) = bit_cnt (used_map (user_pool m))
     \<and> kpage m' = kpage m \<and> init_page_dir m' = init_page_dir m \<and> init_ram_pages m' = init_ram_pages m
     \<and> (\<forall>j. uused m j \<longrightarrow> uused m' j \<and> page_bytes m' j = page_bytes m j))"

lemma frames_kept_refl [simp]: "frames_kept m m"
  by (simp add: frames_kept_def)

lemma frames_kept_trans: "frames_kept m m' \<Longrightarrow> frames_kept m' m'' \<Longrightarrow> frames_kept m m''"
  by (simp add: frames_kept_def)

lemma uaddr_kept: "frames_kept m m' \<Longrightarrow> uaddr m' = uaddr m"
  by (rule ext) (simp add: frames_kept_def page_addr_def)

lemma user_pool_ok: "palloc_ok m \<Longrightarrow> pool_ok (ram m) (user_pool m)"
  by (simp add: palloc_ok_def)

lemma unat_uaddr:
  "palloc_ok m \<Longrightarrow> j < bit_cnt (used_map (user_pool m)) \<Longrightarrow> unat (uaddr m j) = unat (pool_base (user_pool m)) + 4096 * j"
  using unat_page_addr [OF user_pool_ok, of m j] by simp

lemma same_user_frames: "same_user_mem m m' \<Longrightarrow> kpage m' = kpage m \<Longrightarrow> palloc_ok m \<Longrightarrow> frames_kept m m'"
proof -
  assume s: "same_user_mem m m'" "kpage m' = kpage m" and p: "palloc_ok m"
  have "page_bytes m' j = page_bytes m j" if "uused m j" for j
    using s(1) unat_uaddr [OF p, of j] that by (simp add: page_bytes_def same_user_mem_def uused_def)
  then show ?thesis using s by (simp add: frames_kept_def same_user_mem_def uused_def)
qed

text \<open>Writing in the pages of the user pool leaves the kernel's pages alone, and the other pages.\<close>

lemma kernel_word_user_put:
  assumes "palloc_ok m" "j < bit_cnt (used_map (kernel_pool m))" "w < 2 ^ 10" "k < bit_cnt (used_map (user_pool m))"
  shows "word_at (put (unat (uaddr m k)) bs r) (unat (kpage m j) + 4 * w) = word_at r (unat (kpage m j) + 4 * w)"
proof -
  have "unat (kpage m j) = unat (pool_base (kernel_pool m)) + 4096 * j"
    using assms(2) unat_page_addr [OF kernel_pool_ok [OF assms(1)]] by simp
  moreover have "unat (pool_base (kernel_pool m)) + 4096 * bit_cnt (used_map (kernel_pool m)) \<le> unat (pool_base (user_pool m))"
    using assms(1) by (simp add: palloc_ok_def)
  moreover have "4 * w + 4 \<le> 4096" using assms(3) by simp
  ultimately show ?thesis using assms(2) unat_uaddr [OF assms(1,4)] by (intro word_at_put_other) linarith
qed

lemma other_page_put:
  assumes "palloc_ok m" "j < bit_cnt (used_map (user_pool m))" "k < bit_cnt (used_map (user_pool m))" "j \<noteq> k" "length bs \<le> 4096" "o' < 4096"
  shows "put (unat (uaddr m k)) bs r (unat (uaddr m j) + o') = r (unat (uaddr m j) + o')"
proof -
  have "4096 * j + o' < 4096 * k \<or> 4096 * k + 4096 \<le> 4096 * j + o'" using assms(4,6) by (cases j k rule: linorder_cases) auto
  then show ?thesis using unat_uaddr [OF assms(1,2)] unat_uaddr [OF assms(1,3)] assms(5) by (auto simp: put_def)
qed

definition set_user :: "bitmap \<Rightarrow> nat \<Rightarrow> byte list \<Rightarrow> machine \<Rightarrow> machine" where
  "set_user b k bs m = (set_map True b m)\<lparr>ram := put (unat (uaddr m k)) bs (ram m)\<rparr>"

text \<open>A change of one unused user page and of its bit.\<close>

lemma set_user_facts:
  assumes ok: "dirs_ok m D" and k: "k < bit_cnt (used_map (user_pool m))" "length bs \<le> 4096"
    and b: "bm_wf b" "bit_cnt b = bit_cnt (used_map (user_pool m))"
    and keep: "\<And>j. uused m j \<Longrightarrow> j \<noteq> k \<and> bits_of b ! j"
  shows "dirs_ok (set_user b k bs m) D" "frames_kept m (set_user b k bs m)"
    "i \<in> D \<Longrightarrow> is_user_vaddr va \<Longrightarrow> entry (set_user b k bs m) i va = entry m i va"
proof -
  have p: "palloc_ok m" using ok by (simp add: dirs_ok_def)
  have f: "kernel_pool (set_user b k bs m) = kernel_pool m" "ram (set_user b k bs m) = put (unat (uaddr m k)) bs (ram m)"
    "user_pool (set_user b k bs m) = (user_pool m)\<lparr>used_map := b\<rparr>" "init_page_dir (set_user b k bs m) = init_page_dir m"
    "init_ram_pages (set_user b k bs m) = init_ram_pages m"
    by (simp_all add: set_user_def set_map_def)
  have "palloc_ok (set_map True b m)" using b by (intro palloc_ok_set_map [OF p]) (simp_all add: pool_of_def)
  then have p': "palloc_ok (set_user b k bs m)" unfolding set_user_def by (rule palloc_ok_ram) (simp add: mapped_put)
  have "kernel_extends m (set_user b k bs m)"
    unfolding kernel_extends_def using p' kernel_word_user_put [OF p _ _ k(1)] by (auto simp: f slot_def kused_def)
  note e = dirs_extend [OF ok this]
  show "dirs_ok (set_user b k bs m) D" by (rule e(1))
  show "i \<in> D \<Longrightarrow> is_user_vaddr va \<Longrightarrow> entry (set_user b k bs m) i va = entry m i va" by (rule e(2))
  have "page_bytes (set_user b k bs m) j = page_bytes m j" if "uused m j" for j
    using other_page_put [OF p _ k(1) _ k(2), of j] keep [OF that] that by (simp add: page_bytes_def f uused_def)
  then show "frames_kept m (set_user b k bs m)" using keep b(2) by (auto simp: frames_kept_def f uused_def)
qed

lemma set_user_bytes:
  assumes "length bs = 4096"
  shows "page_bytes (set_user b k bs m) k = bs"
  using assms by (intro nth_equalityI) (auto simp: page_bytes_def set_user_def set_map_def put_def)

subsection \<open>Getting, filling and giving back a page\<close>

lemma user_page_cases:
  assumes ok: "dirs_ok m D"
  shows "(palloc_get_page PAL_USER m = Some (0, m) \<and> \<not> (\<exists>k. group_at (bits_of (used_map (user_pool m))) k 1 False)) \<or>
    (\<exists>k b. palloc_get_page PAL_USER m = Some (uaddr m k, set_user b k [] m) \<and> k < bit_cnt (used_map (user_pool m)) \<and> \<not> uused m k
      \<and> bm_wf b \<and> bit_cnt b = bit_cnt (used_map (user_pool m)) \<and> bits_of b = (bits_of (used_map (user_pool m)))[k := True])"
proof -
  have p: "palloc_ok m" using ok by (simp add: dirs_ok_def)
  have z: "True = (PAL_USER AND PAL_USER \<noteq> 0)" "PAL_USER AND PAL_ASSERT = 0" "(PAL_USER AND PAL_ZERO \<noteq> 0) = False"
    by (simp_all add: PAL_USER_def PAL_ASSERT_def PAL_ZERO_def)
  have pu: "pool_of True m = user_pool m" by (simp add: pool_of_def)
  show ?thesis
  proof (cases "\<exists>k. group_at (bits_of (used_map (pool_of True m))) k 1 False")
    case False
    then show ?thesis using palloc_get_none [OF p _ z(1) False] z(2) by (simp add: palloc_get_page_def pu)
  next
    case True
    obtain k st1 where get: "palloc_get_page PAL_USER m = Some (uaddr m k, st1)" and t: "page_group_taken PAL_USER 1 k m st1"
      using palloc_get_found [OF p _ z(1) True] by (auto simp: palloc_get_page_def pu)
    from t [unfolded page_group_taken_def Let_def z(1) [symmetric] z(3) if_False pu] obtain b where
      b: "st1 = (set_map True b m)\<lparr>ram := ram m\<rparr>" "bits_of b = fill k 1 True (bits_of (used_map (user_pool m)))"
      and g: "group_at (bits_of (used_map (user_pool m))) k 1 False" and ok1: "palloc_ok st1" by blast
    have k: "k < bit_cnt (used_map (user_pool m))" "\<not> uused m k" using g by (auto simp: group_at_def uused_def)
    have "user_pool st1 = (user_pool m)\<lparr>used_map := b\<rparr>" using b(1) by (simp add: set_map_def)
    then have "bm_wf b" using ok1 by (simp add: palloc_ok_def pool_ok_def)
    moreover have "bit_cnt b = bit_cnt (used_map (user_pool m))" using arg_cong [OF b(2), of length] by simp
    moreover have "bits_of b = (bits_of (used_map (user_pool m)))[k := True]"
      unfolding b(2) using k(1) by (intro nth_equalityI) (auto simp: nth_list_update)
    moreover have "st1 = set_user b k [] m" using b(1) by (simp add: set_user_def)
    ultimately show ?thesis using get k by blast
  qed
qed

lemma set_user_again:
  "set_map True c ((set_user b k bs m)\<lparr>ram := r\<rparr>) = (set_map True c m)\<lparr>ram := r\<rparr>"
  by (simp add: set_user_def set_map_def)

text \<open>A page that was taken and filled is given back: its bit is cleared, its bytes are lost.\<close>

lemma free_user_page:
  assumes p: "palloc_ok m" and k: "uused m k"
  shows "\<exists>b. palloc_free_page (uaddr m k) m = Some (set_user b k (replicate 4096 204) m) \<and> bm_wf b
    \<and> bit_cnt b = bit_cnt (used_map (user_pool m)) \<and> bits_of b = (bits_of (used_map (user_pool m)))[k := False]"
proof -
  have pu: "pool_of True m = user_pool m" by (simp add: pool_of_def)
  have "group_at (bits_of (used_map (pool_of True m))) k 1 True" using k
    by (auto simp: group_at_def uused_def pu less_Suc_eq_le simp del: bits_of_nth dest!: le_antisym)
  from palloc_free_group [OF p _ this] obtain b where
    b: "palloc_free_multiple (uaddr m k) 1 m = Some ((set_map True b m)\<lparr>ram := pages_filled True k 1 204 m\<rparr>)" "bm_wf b"
    "bit_cnt b = bit_cnt (used_map (user_pool m))" "bits_of b = fill k 1 False (bits_of (used_map (user_pool m)))"
    unfolding pu by auto
  have "(set_map True b m)\<lparr>ram := pages_filled True k 1 204 m\<rparr> = set_user b k (replicate 4096 204) m"
    by (simp add: set_user_def pages_filled_def pu)
  moreover have "fill k 1 False (bits_of (used_map (user_pool m))) = (bits_of (used_map (user_pool m)))[k := False]"
    using k by (intro nth_equalityI) (auto simp: nth_list_update uused_def)
  ultimately show ?thesis using b by (auto simp: palloc_free_page_def)
qed

lemma uaddr_facts:
  assumes "palloc_ok m" "k < bit_cnt (used_map (user_pool m))"
  shows "uaddr m k \<noteq> 0" "pg_ofs (uaddr m k) = 0" "PHYS_BASE \<le> uaddr m k" "mapped (ram m) (unat (uaddr m k)) 4096"
  using page_addr_facts [OF user_pool_ok [OF assms(1)] assms(2)] pages_mapped [OF user_pool_ok [OF assms(1)], of k 1] assms(2)
  by (simp_all add: word_le_nat_alt)

text \<open>The memory of the machine that the user pool describes is there.\<close>

definition pool_in_ram :: "machine \<Rightarrow> bool" where
  "pool_in_ram m = (unat (pool_base (user_pool m)) + 4096 * bit_cnt (used_map (user_pool m)) \<le> unat PHYS_BASE + 4096 * unat (init_ram_pages m))"

lemma frame_in_ram:
  assumes "palloc_ok m" "pool_in_ram m" "k < bit_cnt (used_map (user_pool m))"
  shows "drop_bit PTSHIFT (uaddr m k - PHYS_BASE) < init_ram_pages m"
proof -
  have "unat (uaddr m k - PHYS_BASE) = unat (uaddr m k) - unat PHYS_BASE"
    using uaddr_facts(3) [OF assms(1,3)] by (simp add: unat_sub)
  then have "unat (uaddr m k - PHYS_BASE) < unat (init_ram_pages m) * 4096"
    using unat_uaddr [OF assms(1,3)] assms(2,3) uaddr_facts(3) [OF assms(1,3)] unfolding pool_in_ram_def word_le_nat_alt by linarith
  then have "unat (uaddr m k - PHYS_BASE) div 4096 < unat (init_ram_pages m)" by (rule less_mult_imp_div_less)
  then show ?thesis by (simp add: word_less_nat_alt PTSHIFT_def PGBITS_def drop_bit_eq_div unat_div)
qed

lemma pool_in_ram_kept: "frames_kept m m' \<Longrightarrow> pool_in_ram m' = pool_in_ram m"
  by (simp add: pool_in_ram_def frames_kept_def)

lemma set_user_set_user: "length bs \<le> length cs \<Longrightarrow> set_user b' k cs (set_user b k bs m) = set_user b' k cs m"
proof -
  assume "length bs \<le> length cs"
  then have "put p cs (put p bs r) = put p cs r" for p r by (auto simp: put_def fun_eq_iff)
  then show ?thesis by (simp add: set_user_def set_map_def page_addr_def)
qed

subsection \<open>Reading on in the file\<close>

definition reading :: "fs \<Rightarrow> ptr \<Rightarrow> byte list \<Rightarrow> nat \<Rightarrow> bool" where
  "reading f file c o' = (\<exists>x i. file_of f file = Some x \<and> file_pos x = int o' \<and> opened f (file_inode x) i
     \<and> content (disk f) (idata i) = c \<and> length c < 2 ^ 31)"

lemma reading_next:
  assumes "reading f file c o'" "o' + n \<le> length c"
  shows "\<exists>f'. file_read file (int n) f = Some (take n (drop o' c), f') \<and> reading f' file c (o' + n)"
proof -
  from assms(1) obtain x i where x: "file_of f file = Some x" "file_pos x = int o'" "opened f (file_inode x) i"
    "content (disk f) (idata i) = c" "length c < 2 ^ 31" by (auto simp: reading_def)
  from inode_read_at_spec [OF x(3), of "int o'" "int n"] obtain f1 where
    r: "inode_read_at (file_inode x) (int n) (int o') f = Some (take n (drop o' c), f1)" "quiet f f1" by (auto simp: x(4))
  let ?x = "x\<lparr>file_pos := int (o' + n)\<rparr>"
  let ?f = "f1\<lparr>file_of := (file_of f1)(file \<mapsto> ?x)\<rparr>"
  have "int32 (int o' + int n) = int (o' + n)" using assms(2) x(5) by (subst int32_id) auto
  then have "file_read file (int n) f = Some (take n (drop o' c), ?f)"
    using x(1,2) r disk_stepD(5) [OF r(2)] assms(2) by (simp add: file_read_def set_file_def)
  moreover have "opened ?f (file_inode ?x) i" using opened_quiet [OF x(3) r(2)] by (simp add: opened_def)
  moreover have "content (disk ?f) (idata i) = c" using x(4) disk_stepD(2) [OF r(2)] by simp
  ultimately show ?thesis using x(5) unfolding reading_def by (intro exI [of _ ?f] conjI exI [of _ ?x] exI [of _ i]) simp_all
qed

subsection \<open>One page of a segment\<close>

definition no_page_left :: "machine \<Rightarrow> bool" where
  "no_page_left m = (\<not> (\<exists>k. group_at (bits_of (used_map (user_pool m))) k 1 False)
     \<or> \<not> (\<exists>k. group_at (bits_of (used_map (kernel_pool m))) k 1 False))"

definition entries_kept :: "nat set \<Rightarrow> (nat \<Rightarrow> u32 \<Rightarrow> bool) \<Rightarrow> machine \<Rightarrow> machine \<Rightarrow> bool" where
  "entries_kept D P m m' = (\<forall>i \<in> D. \<forall>va. is_user_vaddr va \<longrightarrow> \<not> P i va \<longrightarrow> entry m' i va = entry m i va)"

text \<open>A page \<open>k\<close> of the user pool that was not in use has got the bytes \<open>bs\<close> and is mapped at \<open>va\<close>.\<close>

definition page_loaded :: "nat set \<Rightarrow> nat \<Rightarrow> u32 \<Rightarrow> bool \<Rightarrow> nat \<Rightarrow> byte list \<Rightarrow> machine \<Rightarrow> machine \<Rightarrow> bool" where
  "page_loaded D i va writable k bs m m' = (dirs_ok m' D \<and> frames_kept m m' \<and> \<not> uused m k \<and> uused m' k \<and> page_bytes m' k = bs
     \<and> entry m' i va = user_entry (uaddr m' k) writable
     \<and> entries_kept D (\<lambda>i' va'. i' = i \<and> pg_no va' = pg_no va) m m')"

lemma used_bit: "uused m j \<Longrightarrow> \<not> uused m k \<Longrightarrow> j \<noteq> k \<and> (bits_of (used_map (user_pool m)))[k := v] ! j"
  by (cases "j = k") (auto simp: uused_def simp del: bits_of_nth)

lemma install_cases:
  assumes ok: "dirs_ok m D" "i \<in> D" and va: "is_user_vaddr va" "pg_ofs va = 0" and pd: "kpage m i \<noteq> init_page_dir m"
    and ram: "pool_in_ram m" and e: "entry m i va AND PTE_P = 0" and k: "k < bit_cnt (used_map (user_pool m))" "\<not> uused m k"
    and b: "bm_wf b" "bit_cnt b = bit_cnt (used_map (user_pool m))" "bits_of b = (bits_of (used_map (user_pool m)))[k := True]"
    and bs: "length bs = 4096" and st: "lpd st = kpage m i" "lm st = set_user b k bs m"
  shows "(install_page va (uaddr m k) writable st = Some (False, st) \<and> \<not> (\<exists>j. group_at (bits_of (used_map (kernel_pool m))) j 1 False)) \<or>
    (\<exists>m'. install_page va (uaddr m k) writable st = Some (True, st\<lparr>lm := m'\<rparr>) \<and> page_loaded D i va writable k bs m m')"
proof -
  let ?m = "set_user b k bs m"
  have p: "palloc_ok m" using ok(1) by (simp add: dirs_ok_def)
  have keep: "j \<noteq> k \<and> bits_of b ! j" if "uused m j" for j using used_bit [OF that k(2)] by (simp add: b(3) del: bits_of_nth)
  note s = set_user_facts [OF ok(1) k(1) _ b(1,2) keep, of bs]
  have ok2: "dirs_ok ?m D" and fr: "frames_kept m ?m" and e2: "\<And>i va. i \<in> D \<Longrightarrow> is_user_vaddr va \<Longrightarrow> entry ?m i va = entry m i va"
    using s bs by simp_all
  have kp: "kpage ?m = kpage m" "init_page_dir ?m = init_page_dir m" "init_ram_pages ?m = init_ram_pages m" "uaddr ?m = uaddr m"
    using fr uaddr_kept [OF fr] by (simp_all add: frames_kept_def)
  have kern: "kernel_pool ?m = kernel_pool m" by (simp add: set_user_def set_map_def)
  have used: "uused ?m k" using k(1) b by (simp add: uused_def set_user_def set_map_def del: bits_of_nth)
  have get: "pagedir_get_page (kpage m i) va ?m = Some (0, ?m)"
    using get_page_entry [OF ok2 ok(2) va(1)] e2 [OF ok(2) va(1)] e by (simp add: kp)
  note u = uaddr_facts [OF p k(1)]
  have e0: "entry ?m i va AND PTE_P = 0" using e e2 [OF ok(2) va(1)] by simp
  from set_page_cases [OF ok2 ok(2) va u(2,3), unfolded kp, OF frame_in_ram [OF p ram k(1)] pd e0, of writable]
  show ?thesis
  proof (elim disjE exE conjE)
    assume "pagedir_set_page (kpage m i) va (uaddr m k) writable ?m = Some (False, ?m)"
      "\<not> (\<exists>j. group_at (bits_of (used_map (kernel_pool ?m))) j 1 False)"
    then show ?thesis using get st by (simp add: install_page_def kern)
  next
    fix m'
    assume set: "pagedir_set_page (kpage m i) va (uaddr m k) writable ?m = Some (True, m')" and ok3: "dirs_ok m' D" "kpage m' = kpage m"
      "same_user_mem ?m m'" and e3: "\<forall>i' \<in> D. \<forall>va'. is_user_vaddr va' \<longrightarrow>
        entry m' i' va' = (if i' = i \<and> pg_no va' = pg_no va then user_entry (uaddr m k) writable else entry ?m i' va')"
    have fr2: "frames_kept ?m m'" using same_user_frames [OF ok3(3)] ok3(2) kp(1) ok2 by (simp add: dirs_ok_def)
    have "page_loaded D i va writable k bs m m'"
      unfolding page_loaded_def entries_kept_def
      using ok3(1) frames_kept_trans [OF fr fr2] k(2) used fr2 set_user_bytes [OF bs, of b k m] e3 ok(2) va(1) e2 uaddr_kept [OF fr2] kp(4)
      by (auto simp: frames_kept_def)
    then show ?thesis using set get st by (auto simp: install_page_def)
  qed
qed

lemma entries_kept_step:
  "entries_kept D P m m' \<Longrightarrow> entries_kept D Q m' m'' \<Longrightarrow> entries_kept D (\<lambda>i va. P i va \<or> Q i va) m m''"
  by (simp add: entries_kept_def)

text \<open>No page was left: nothing is mapped, and the page that was taken is given back.\<close>

definition load_failed :: "nat set \<Rightarrow> machine \<Rightarrow> machine \<Rightarrow> bool" where
  "load_failed D m m' = (dirs_ok m' D \<and> frames_kept m m' \<and> entries_kept D (\<lambda>_ _. False) m m' \<and> no_page_left m')"

lemma give_back:
  assumes ok: "dirs_ok m D" and k: "k < bit_cnt (used_map (user_pool m))" "\<not> uused m k"
    and b: "bm_wf b" "bit_cnt b = bit_cnt (used_map (user_pool m))" "bits_of b = (bits_of (used_map (user_pool m)))[k := True]"
    and bs: "length bs = 4096" and st: "lm st = set_user b k bs m" and none: "\<not> (\<exists>j. group_at (bits_of (used_map (kernel_pool m))) j 1 False)"
  shows "\<exists>m'. free_kpage (uaddr m k) st = Some (False, st\<lparr>lm := m'\<rparr>) \<and> load_failed D m m'"
proof -
  let ?m = "set_user b k bs m"
  have u: "user_pool ?m = (user_pool m)\<lparr>used_map := b\<rparr>" by (simp add: set_user_def set_map_def)
  have keep: "j \<noteq> k \<and> bits_of b ! j" if "uused m j" for j using used_bit [OF that k(2)] by (simp add: b(3) del: bits_of_nth)
  have ok2: "dirs_ok ?m D" using set_user_facts(1) [OF ok k(1) _ b(1,2) keep, of bs] bs by simp
  have "uused ?m k" using k(1) b by (simp add: uused_def u del: bits_of_nth)
  moreover have "palloc_ok ?m" using ok2 by (simp add: dirs_ok_def)
  ultimately obtain c where c: "palloc_free_page (uaddr ?m k) ?m = Some (set_user c k (replicate 4096 204) ?m)" "bm_wf c"
    "bit_cnt c = bit_cnt b" "bits_of c = (bits_of b)[k := False]" using free_user_page [of ?m k] by (auto simp: u)
  let ?f = "set_user c k (replicate 4096 204) m"
  have f: "set_user c k (replicate 4096 204) ?m = ?f" using bs by (intro set_user_set_user) simp
  have bits: "bits_of c = (bits_of (used_map (user_pool m)))[k := False]" by (simp add: c(4) b(3))
  have keep2: "j \<noteq> k \<and> bits_of c ! j" if "uused m j" for j using used_bit [OF that k(2)] by (simp add: bits del: bits_of_nth)
  have "bit_cnt c = bit_cnt (used_map (user_pool m))" using c(3) b(2) by simp
  note s = set_user_facts [OF ok k(1) _ c(2) this keep2, of "replicate 4096 204"]
  have "kernel_pool ?f = kernel_pool m" by (simp add: set_user_def set_map_def)
  then have "load_failed D m ?f" using s none by (simp add: load_failed_def entries_kept_def no_page_left_def)
  moreover have "free_kpage (uaddr m k) st = Some (False, st\<lparr>lm := ?f\<rparr>)"
    using c(1) f by (simp add: free_kpage_def st u)
  ultimately show ?thesis by blast
qed

lemma load_step:
  fixes r z :: u32
  assumes ok: "dirs_ok (lm st) D" "i \<in> D" and va: "is_user_vaddr va" "pg_ofs va = 0" and pd: "kpage (lm st) i \<noteq> init_page_dir (lm st)"
    and ram: "pool_in_ram (lm st)" and e: "entry (lm st) i va AND PTE_P = 0" and lpd: "lpd st = kpage (lm st) i"
    and rd: "reading (lfs st) file c o'" and n: "n = min (unat r) 4096" "o' + n \<le> length c" and pos: "r > 0 \<or> z > 0"
  shows "(\<exists>m' f'. load_loop file va r z writable st = Some (False, st\<lparr>lfs := f', lm := m'\<rparr>) \<and> load_failed D (lm st) m') \<or>
    (\<exists>m' f' k. load_loop file va r z writable st
        = load_loop file (va + PGSIZE) (r - word_of_nat n) (z - (PGSIZE - word_of_nat n)) writable (st\<lparr>lfs := f', lm := m'\<rparr>)
      \<and> page_loaded D i va writable k (take n (drop o' c) @ replicate (4096 - n) 0) (lm st) m' \<and> reading f' file c (o' + n))"
  using user_page_cases [OF ok(1)]
proof (elim disjE exE conjE)
  assume "palloc_get_page PAL_USER (lm st) = Some (0, lm st)" and none: "\<not> (\<exists>k. group_at (bits_of (used_map (user_pool (lm st)))) k 1 False)"
  then have "load_loop file va r z writable st = Some (False, st\<lparr>lfs := lfs st, lm := lm st\<rparr>)"
    using pos by (subst load_loop.simps) (simp add: Let_def)
  moreover have "load_failed D (lm st) (lm st)" using ok(1) none by (simp add: load_failed_def entries_kept_def no_page_left_def)
  ultimately show ?thesis by blast
next
  fix k b
  let ?m = "lm st" and ?bs = "take n (drop o' c)"
  let ?d = "?bs @ replicate (4096 - n) 0"
  assume get: "palloc_get_page PAL_USER ?m = Some (uaddr ?m k, set_user b k [] ?m)" and k: "k < bit_cnt (used_map (user_pool ?m))" "\<not> uused ?m k"
    and b: "bm_wf b" "bit_cnt b = bit_cnt (used_map (user_pool ?m))" "bits_of b = (bits_of (used_map (user_pool ?m)))[k := True]"
  have p: "palloc_ok ?m" using ok(1) by (simp add: dirs_ok_def)
  note u = uaddr_facts [OF p k(1)]
  have n4: "n \<le> 4096" "length ?bs = n" using n by simp_all
  have prb: "(if r < PGSIZE then r else PGSIZE) = word_of_nat n" using n(1)
    by (auto simp: PGSIZE_4096 word_less_nat_alt min_def)
  have un: "unat (word_of_nat n :: u32) = n" "unat (PGSIZE - word_of_nat n :: u32) = 4096 - n"
    using n4(1) by (simp_all add: PGSIZE_4096 unsigned_of_nat take_bit_nat_eq_self unat_sub word_le_nat_alt)
  have sn: "sint (word_of_nat n :: u32) = int n" using n4(1) by (simp add: signed_of_nat signed_take_bit_int_eq_self)
  obtain f' where fr: "file_read file (int n) (lfs st) = Some (?bs, f')" "reading f' file c (o' + n)"
    using reading_next [OF rd n(2)] by blast
  have r0: "ram (set_user b k [] ?m) = ram ?m" by (simp add: set_user_def)
  have s1: "store_bytes (unat (uaddr ?m k)) ?bs (ram ?m) = Some (put (unat (uaddr ?m k)) ?bs (ram ?m))"
    using n4 mapped_mono [OF u(4)] by (intro store_bytes_put) simp
  have "unat (uaddr ?m k) + 4096 * 1 < 2 ^ 32" using unat_uaddr [OF p k(1)] k(1) user_pool_ok [OF p] by (auto simp: pool_ok_def)
  then have ua: "unat (uaddr ?m k + word_of_nat n) = unat (uaddr ?m k) + n" using n4(1) by (simp add: unat_word_ariths un)
  have nn: "unat (uaddr ?m k) + n \<noteq> NULL" using u(1) by (simp add: NULL_def unsigned_eq_0_iff)
  have s2: "memset (unat (uaddr ?m k + word_of_nat n)) 0 (unat (PGSIZE - word_of_nat n :: u32)) (put (unat (uaddr ?m k)) ?bs (ram ?m))
      = Some (unat (uaddr ?m k) + n, put (unat (uaddr ?m k)) ?d (ram ?m))"
    unfolding ua un memset_def using nn memset_loop_put [OF mapped_mono [OF mapped_put [OF u(4)]]] n4 put_put_next [of _ ?bs]
    by simp
  let ?st = "st\<lparr>lfs := f', lm := set_user b k ?d ?m\<rparr>"
  have body: "load_loop file va r z writable st = do {
      (okp, st) \<leftarrow> install_page va (uaddr ?m k) writable ?st;
      if \<not> okp then free_kpage (uaddr ?m k) st
      else load_loop file (va + PGSIZE) (r - word_of_nat n) (z - (PGSIZE - word_of_nat n)) writable st }"
    using pos get u(1) fr(1) s1 s2 n4(2) sn r0
    by (subst load_loop.simps) (simp add: Let_def prb set_user_def)
  have d: "length ?d = 4096" using n4 by simp
  from install_cases [OF ok va pd ram e k b d, of ?st writable] lpd
  have "(install_page va (uaddr ?m k) writable ?st = Some (False, ?st) \<and> \<not> (\<exists>j. group_at (bits_of (used_map (kernel_pool ?m))) j 1 False)) \<or>
    (\<exists>m'. install_page va (uaddr ?m k) writable ?st = Some (True, ?st\<lparr>lm := m'\<rparr>) \<and> page_loaded D i va writable k ?d ?m m')" by simp
  then show ?thesis
  proof (elim disjE exE conjE)
    assume i: "install_page va (uaddr ?m k) writable ?st = Some (False, ?st)" "\<not> (\<exists>j. group_at (bits_of (used_map (kernel_pool ?m))) j 1 False)"
    obtain m' where "free_kpage (uaddr ?m k) ?st = Some (False, ?st\<lparr>lm := m'\<rparr>)" "load_failed D ?m m'"
      using give_back [OF ok(1) k b d _ i(2), of ?st] by auto
    then show ?thesis using body i(1) by auto
  next
    fix m'
    assume i: "install_page va (uaddr ?m k) writable ?st = Some (True, ?st\<lparr>lm := m'\<rparr>)" "page_loaded D i va writable k ?d ?m m'"
    have "load_loop file va r z writable st
      = load_loop file (va + PGSIZE) (r - word_of_nat n) (z - (PGSIZE - word_of_nat n)) writable (st\<lparr>lfs := f', lm := m'\<rparr>)"
      using body i(1) by simp
    then show ?thesis using i(2) fr(2) by blast
  qed
qed

subsection \<open>All pages of a segment\<close>

definition in_segment :: "nat \<Rightarrow> u32 \<Rightarrow> nat \<Rightarrow> nat \<Rightarrow> u32 \<Rightarrow> bool" where
  "in_segment i up n i' va = (i' = i \<and> unat (pg_no up) \<le> unat (pg_no va) \<and> unat (pg_no va) < unat (pg_no up) + n)"

definition segment_loaded :: "nat set \<Rightarrow> nat \<Rightarrow> u32 \<Rightarrow> nat \<Rightarrow> bool \<Rightarrow> byte list \<Rightarrow> machine \<Rightarrow> machine \<Rightarrow> bool" where
  "segment_loaded D i up n writable data m m' = (\<exists>js. length js = n \<and> distinct js \<and> (\<forall>j \<in> set js. \<not> uused m j \<and> uused m' j)
     \<and> (\<forall>k < n. entry m' i (up + PGSIZE * word_of_nat k) = user_entry (uaddr m' (js ! k)) writable
          \<and> page_bytes m' (js ! k) = take 4096 (drop (4096 * k) data)))"

lemma page_data:
  fixes r z :: nat
  assumes "n = min r 4096" "4096 \<le> r + z"
  shows "take r (drop o' c) @ replicate z 0
    = (take n (drop o' c) @ replicate (4096 - n) 0) @ (take (r - n) (drop (o' + n) c) @ replicate (z - (4096 - n)) (0 :: byte))"
proof (cases "r < 4096")
  case True
  then have "n = r" "z = (4096 - n) + (z - (4096 - n))" using assms by auto
  then have "replicate z (0 :: byte) = replicate (4096 - n) 0 @ replicate (z - (4096 - n)) 0" by (metis replicate_add)
  then show ?thesis using \<open>n = r\<close> by simp
next
  case False
  then have n: "n = 4096" using assms(1) by simp
  have "take (4096 + (r - 4096)) (drop o' c) = take 4096 (drop o' c) @ take (r - 4096) (drop 4096 (drop o' c))" by (rule take_add)
  then show ?thesis using False by (simp add: n add.commute)
qed

lemma next_page:
  assumes "pg_ofs up = 0" "unat up + 4096 * Suc n \<le> unat PHYS_BASE"
  shows "unat (up + PGSIZE) = unat up + 4096" "pg_ofs (up + PGSIZE) = 0" "is_user_vaddr up"
    "k \<le> n \<Longrightarrow> unat (pg_no (up + PGSIZE * word_of_nat k)) = unat (pg_no up) + k" "k \<le> n \<Longrightarrow> is_user_vaddr (up + PGSIZE * word_of_nat k)"
proof -
  have b: "unat up + 4096 * Suc n < 2 ^ 32" using assms(2) unsigned_less [of PHYS_BASE] by (simp add: PHYS_BASE_def)
  then show u: "unat (up + PGSIZE) = unat up + 4096" by (simp add: unat_word_ariths PGSIZE_4096)
  show "pg_ofs (up + PGSIZE) = 0" using assms(1) unfolding aligned_unat u by simp
  show "is_user_vaddr up" using assms(2) by (simp add: is_user_vaddr_def word_less_nat_alt)
  assume k: "k \<le> n"
  then have "unat (word_of_nat k :: u32) = k" using b by (simp add: unsigned_of_nat take_bit_nat_eq_self)
  then have "unat (PGSIZE * word_of_nat k :: u32) = 4096 * k" using b k by (simp add: PGSIZE_4096 unat_word_ariths)
  then have a: "unat (up + PGSIZE * word_of_nat k) = unat up + 4096 * k" using b k by (simp add: unat_word_ariths)
  show "unat (pg_no (up + PGSIZE * word_of_nat k)) = unat (pg_no up) + k" unfolding unat_pg_no a by simp
  show "is_user_vaddr (up + PGSIZE * word_of_nat k)" using a k assms(2) by (simp add: is_user_vaddr_def word_less_nat_alt)
qed

lemma load_loop_spec:
  assumes "dirs_ok (lm st) D" "i \<in> D" "kpage (lm st) i \<noteq> init_page_dir (lm st)" "pool_in_ram (lm st)" "lpd st = kpage (lm st) i"
    and "pg_ofs up = 0" "unat up + 4096 * n \<le> unat PHYS_BASE" "unat r + unat z = 4096 * n"
    and "reading (lfs st) file c o'" "o' + unat r \<le> length c"
    and "\<forall>k < n. entry (lm st) i (up + PGSIZE * word_of_nat k) AND PTE_P = 0"
  shows "\<exists>ok m' f'. load_loop file up r z writable st = Some (ok, st\<lparr>lfs := f', lm := m'\<rparr>)
    \<and> dirs_ok m' D \<and> frames_kept (lm st) m' \<and> entries_kept D (in_segment i up n) (lm st) m'
    \<and> (if ok then segment_loaded D i up n writable (take (unat r) (drop o' c) @ replicate (unat z) 0) (lm st) m' else no_page_left m')"
  using assms
proof (induction n arbitrary: up r z st o')
  case 0
  then have "r = 0" "z = 0" by (auto simp: unsigned_eq_0_iff)
  then have "load_loop file up r z writable st = Some (True, st\<lparr>lfs := lfs st, lm := lm st\<rparr>)"
    by (subst load_loop.simps) simp
  moreover have "segment_loaded D i up 0 writable data (lm st) (lm st)" for data by (simp add: segment_loaded_def)
  ultimately show ?case using 0(1)
    by (intro exI [of _ True] exI [of _ "lm st"] exI [of _ "lfs st"]) (simp add: entries_kept_def)
next
  case (Suc n)
  let ?n = "min (unat r) 4096" and ?m = "lm st"
  let ?data = "take (unat r) (drop o' c) @ replicate (unat z) (0 :: byte)"
  let ?rest = "take (unat r - ?n) (drop (o' + ?n) c) @ replicate (unat z - (4096 - ?n)) (0 :: byte)"
  let ?page = "take ?n (drop o' c) @ replicate (4096 - ?n) 0"
  note np = next_page [OF Suc.prems(6,7)]
  have pos: "r > 0 \<or> z > 0" using Suc.prems(8) by (auto simp: word_gt_0 unsigned_eq_0_iff)
  have e0: "entry ?m i up AND PTE_P = 0" using Suc.prems(11) by force
  have on: "o' + ?n \<le> length c" using Suc.prems(10) by linarith
  have big: "4096 \<le> unat r + unat z" using Suc.prems(8) by simp
  have data: "?data = ?page @ ?rest" by (rule page_data [OF refl big])
  have len: "length ?page = 4096" using on by simp
  show ?case
    using load_step [OF Suc.prems(1,2) np(3) Suc.prems(6,3,4) e0 Suc.prems(5,9) refl on pos, of writable]
  proof (elim disjE exE conjE)
    fix m' f'
    assume l: "load_loop file up r z writable st = Some (False, st\<lparr>lfs := f', lm := m'\<rparr>)" "load_failed D ?m m'"
    then show ?thesis by (intro exI [of _ False] exI [of _ m'] exI [of _ f']) (auto simp: load_failed_def entries_kept_def)
  next
    fix m1 f1 k0
    assume l: "load_loop file up r z writable st
        = load_loop file (up + PGSIZE) (r - word_of_nat ?n) (z - (PGSIZE - word_of_nat ?n)) writable (st\<lparr>lfs := f1, lm := m1\<rparr>)"
      and pl: "page_loaded D i up writable k0 ?page ?m m1" and rd: "reading f1 file c (o' + ?n)"
    let ?r = "r - word_of_nat ?n" and ?z = "z - (PGSIZE - word_of_nat ?n)" and ?st = "st\<lparr>lfs := f1, lm := m1\<rparr>"
    note pl = pl [unfolded page_loaded_def]
    have un: "unat (word_of_nat ?n :: u32) = ?n" "unat (PGSIZE - word_of_nat ?n :: u32) = 4096 - ?n"
      by (simp_all add: PGSIZE_4096 unsigned_of_nat take_bit_nat_eq_self unat_sub word_le_nat_alt)
    have "word_of_nat ?n \<le> r" "PGSIZE - word_of_nat ?n \<le> z" using big un by (auto simp: word_le_nat_alt)
    then have ur: "unat ?r = unat r - ?n" "unat ?z = unat z - (4096 - ?n)" using un by (simp_all add: unat_sub)
    have kept: "frames_kept ?m m1" "kpage m1 = kpage ?m" "init_page_dir m1 = init_page_dir ?m" using pl by (auto simp: frames_kept_def)
    have addr: "up + PGSIZE + PGSIZE * word_of_nat k = up + PGSIZE * word_of_nat (Suc k)" for k by (simp add: algebra_simps)
    have ent: "entry m1 i (up + PGSIZE + PGSIZE * word_of_nat k) AND PTE_P = 0" if "k < n" for k
    proof -
      have "unat (pg_no (up + PGSIZE * word_of_nat (Suc k))) = unat (pg_no up) + Suc k" using np(4) [of "Suc k"] that by simp
      then have "pg_no (up + PGSIZE * word_of_nat (Suc k)) \<noteq> pg_no up" by auto
      then have "entry m1 i (up + PGSIZE * word_of_nat (Suc k)) = entry ?m i (up + PGSIZE * word_of_nat (Suc k))"
        using pl Suc.prems(2) np(5) [of "Suc k"] that by (simp add: entries_kept_def)
      moreover have "entry ?m i (up + PGSIZE * word_of_nat (Suc k)) AND PTE_P = 0" using Suc.prems(11) that by blast
      ultimately show ?thesis unfolding addr by metis
    qed
    have "\<exists>ok m' f'. load_loop file (up + PGSIZE) ?r ?z writable ?st = Some (ok, ?st\<lparr>lfs := f', lm := m'\<rparr>)
      \<and> dirs_ok m' D \<and> frames_kept (lm ?st) m' \<and> entries_kept D (in_segment i (up + PGSIZE) n) (lm ?st) m'
      \<and> (if ok then segment_loaded D i (up + PGSIZE) n writable (take (unat ?r) (drop (o' + ?n) c) @ replicate (unat ?z) 0) (lm ?st) m'
          else no_page_left m')"
    proof (rule Suc.IH)
      show "unat (up + PGSIZE) + 4096 * n \<le> unat PHYS_BASE" using Suc.prems(7) np(1) by simp
      show "unat ?r + unat ?z = 4096 * n" using Suc.prems(8) ur by simp
      show "o' + ?n + unat ?r \<le> length c" using Suc.prems(10) ur by simp
      show "pool_in_ram (lm ?st)" using Suc.prems(4) pool_in_ram_kept [OF kept(1)] by simp
    qed (use Suc.prems(2,3,5) np(2) rd pl kept ent in simp_all)
    moreover have sel: "lm ?st = m1" "\<And>f' m'. ?st\<lparr>lfs := f', lm := m'\<rparr> = st\<lparr>lfs := f', lm := m'\<rparr>" by simp_all
    ultimately obtain ok m' f' where ih: "load_loop file (up + PGSIZE) ?r ?z writable ?st = Some (ok, st\<lparr>lfs := f', lm := m'\<rparr>)"
      "dirs_ok m' D" "frames_kept m1 m'" "entries_kept D (in_segment i (up + PGSIZE) n) m1 m'"
      "if ok then segment_loaded D i (up + PGSIZE) n writable ?rest m1 m' else no_page_left m'" unfolding ur sel by blast
    have pn: "unat (pg_no (up + PGSIZE)) = Suc (unat (pg_no up))" using np(1) by (simp add: unat_pg_no)
    have "entries_kept D (in_segment i up (Suc n)) ?m m'"
      using pl ih(4) unfolding entries_kept_def in_segment_def pn by fastforce
    moreover have "segment_loaded D i up (Suc n) writable ?data ?m m'" if ok
    proof -
      from that ih(5) obtain js where js: "length js = n" "distinct js" "\<forall>j \<in> set js. \<not> uused m1 j \<and> uused m' j"
        "\<forall>k < n. entry m' i (up + PGSIZE + PGSIZE * word_of_nat k) = user_entry (uaddr m' (js ! k)) writable
          \<and> page_bytes m' (js ! k) = take 4096 (drop (4096 * k) ?rest)" by (auto simp: segment_loaded_def)
      have first: "entry m' i up = user_entry (uaddr m' k0) writable" "page_bytes m' k0 = ?page"
        using ih(4) Suc.prems(2) np(3) pn pl uaddr_kept [OF ih(3)] ih(3) by (simp_all add: entries_kept_def in_segment_def frames_kept_def)
      have "entry m' i (up + PGSIZE * word_of_nat k) = user_entry (uaddr m' ((k0 # js) ! k)) writable
          \<and> page_bytes m' ((k0 # js) ! k) = take 4096 (drop (4096 * k) ?data)" if "k < Suc n" for k
      proof (cases k)
        case 0
        then show ?thesis unfolding data using first len by simp
      next
        case (Suc l)
        have "drop (4096 * Suc l) ?data = drop (4096 * l) ?rest" unfolding data using len by (simp add: drop_append)
        then show ?thesis using js(4) Suc that unfolding Suc addr [symmetric] by simp
      qed
      moreover have "distinct (k0 # js)" "\<forall>j \<in> set (k0 # js). \<not> uused ?m j \<and> uused m' j"
        using js(2,3) pl ih(3) by (auto simp: frames_kept_def)
      ultimately show ?thesis using js(1) unfolding segment_loaded_def by (intro exI [of _ "k0 # js"]) simp
    qed
    ultimately show ?thesis
      using l ih(1,2,5) frames_kept_trans [OF kept(1) ih(3)] by (intro exI [of _ ok] exI [of _ m'] exI [of _ f']) simp
  qed
qed

end
