(* ===== verification/ProgramSegments.thy ===== *)
theory ProgramSegments imports LoaderTheorems FsTheorems begin

section \<open>The segments and the program in the memory of a process\<close>

text \<open>
  From what \<open>validate_segment\<close> has checked follow the sizes that load computes and the place of each byte of a segment
  in the pages that \<open>LoaderTheorems\<close> has loaded.
\<close>

subsection \<open>The segments of a program\<close>

lemma entry_same_page: "pg_no va = pg_no va' \<Longrightarrow> entry m i va = entry m i va'"
  using same_page [of va va'] by (simp add: entry_def Let_def)

lemma unat_pgmask: "unat (v AND PGMASK) = unat v mod 4096"
  using unat_pg_ofs [of v] by (simp add: pg_ofs_def)

lemma unat_not_pgmask: "unat (v AND NOT PGMASK) = 4096 * (unat v div 4096)"
proof -
  have "unat v div 4096 * 4096 < 2 ^ 32" using le_less_trans [OF div_times_less_eq_dividend [of "unat v" 4096]] unsigned_less [of v, where 'a = nat] by simp
  then have "unat (pg_round_down v) = 4096 * unat (pg_no v)"
    unfolding pg_round_down_no by (simp add: PGBITS_def push_bit_eq_mult unat_word_ariths unat_pg_no mult.commute)
  then show ?thesis by (simp add: pg_round_down_def unat_pg_no)
qed

text \<open>What \<open>validate_segment\<close> has checked.\<close>

lemma validated:
  assumes "validate_segment ph file f = Some True"
  shows "p_offset ph AND PGMASK = p_vaddr ph AND PGMASK" "unat (p_filesz ph) \<le> unat (p_memsz ph)" "0 < unat (p_memsz ph)"
    "unat (p_vaddr ph) + unat (p_memsz ph) < unat PHYS_BASE" "4096 \<le> unat (p_vaddr ph)"
proof -
  let ?v = "p_vaddr ph" and ?s = "p_memsz ph"
  have c: "p_offset ph AND PGMASK = ?v AND PGMASK" "\<not> ?s < p_filesz ph" "?s \<noteq> 0" "is_user_vaddr (?v + ?s)"
    "\<not> ?v + ?s < ?v" "\<not> ?v < PGSIZE"
    using assms by (auto simp: validate_segment_def bind_eq_Some_conv split: if_splits)
  show "p_offset ph AND PGMASK = ?v AND PGMASK" by (rule c(1))
  show "unat (p_filesz ph) \<le> unat ?s" using c(2) by (simp add: word_le_nat_alt not_less)
  show "0 < unat ?s" using c(3) by (metis gr0I unsigned_eq_0_iff)
  have "unat (?v + ?s) = unat ?v + unat ?s" using c(5) unsigned_less [of "p_vaddr ph", where 'a = nat] unsigned_less [of "p_memsz ph", where 'a = nat]
    by (simp add: not_less word_le_nat_alt unat_plus_if' split: if_splits)
  then show "unat ?v + unat ?s < unat PHYS_BASE" using c(4) by (simp add: is_user_vaddr_def word_less_nat_alt)
  show "4096 \<le> unat ?v" using c(6) by (simp add: word_less_nat_alt PGSIZE_4096)
qed

lemma pages_fit: "4096 * q + p = v \<Longrightarrow> 4096 * k \<le> p + s + 4095 \<Longrightarrow> v + s < 4096 * n \<Longrightarrow> 4096 * q + 4096 * k \<le> 4096 * (n :: nat)"
proof -
  assume "4096 * q + p = v" "4096 * k \<le> p + s + 4095" "v + s < 4096 * n"
  then have "4096 * (q + k) < 4096 * Suc n" by simp
  then have "q + k < Suc n" by (simp only: nat_mult_less_cancel1)
  then show "4096 * q + 4096 * k \<le> 4096 * n" by simp
qed

text \<open>How many pages the segment has.\<close>

definition segment_pages :: "elf_phdr \<Rightarrow> nat" where
  "segment_pages ph = (unat (p_vaddr ph) mod 4096 + unat (p_memsz ph) + 4095) div 4096"

lemma segment_sizes:
  assumes "validate_segment ph file f = Some True" "segment_bytes ph = (r, z)"
  shows "unat r = (if p_filesz ph > 0 then unat (p_vaddr ph) mod 4096 + unat (p_filesz ph) else 0)"
    "unat r + unat z = 4096 * segment_pages ph"
    "unat (p_vaddr ph AND NOT PGMASK) + 4096 * segment_pages ph \<le> unat PHYS_BASE"
proof -
  note v = validated [OF assms(1)]
  let ?o = "p_vaddr ph AND PGMASK"
  have pb: "unat PHYS_BASE = 4096 * 786432" by (simp add: PHYS_BASE_def)
  have o4: "unat ?o = unat (p_vaddr ph) mod 4096" "unat ?o < 4096" by (simp_all add: unat_pgmask)
  have om: "unat (?o + p_memsz ph) = unat ?o + unat (p_memsz ph)" and ofs: "unat (?o + p_filesz ph) = unat ?o + unat (p_filesz ph)"
    using o4(2) v(2,4) pb by (simp_all add: unat_word_ariths)
  have "unat (?o + p_memsz ph + PGSIZE - 1) = unat (?o + p_memsz ph) + 4095"
    using om o4(2) v(4) pb by (simp add: PGSIZE_4096 unat_word_ariths)
  then have d: "unat ((?o + p_memsz ph + PGSIZE - 1) div PGSIZE) = segment_pages ph"
    using om o4(1) by (simp add: unat_div PGSIZE_4096 segment_pages_def)
  have b: "4096 * segment_pages ph \<le> unat ?o + unat (p_memsz ph) + 4095" "unat ?o + unat (p_memsz ph) \<le> 4096 * segment_pages ph"
    unfolding segment_pages_def o4(1) by linarith+
  have up: "unat (ROUND_UP (?o + p_memsz ph) PGSIZE) = 4096 * segment_pages ph"
    unfolding ROUND_UP_def using d b(1) o4(2) v(4) pb by (simp add: unat_word_ariths PGSIZE_4096)
  have le: "?o + p_filesz ph \<le> ROUND_UP (?o + p_memsz ph) PGSIZE"
    unfolding word_le_nat_alt up ofs using b(2) v(2) by linarith
  show "unat r = (if p_filesz ph > 0 then unat (p_vaddr ph) mod 4096 + unat (p_filesz ph) else 0)"
    using assms(2) ofs o4(1) by (auto simp: segment_bytes_def Let_def split: if_splits)
  show "unat r + unat z = 4096 * segment_pages ph"
    using assms(2) le up by (auto simp: segment_bytes_def Let_def unat_sub word_le_nat_alt split: if_splits)
  have "4096 * (unat (p_vaddr ph) div 4096) + unat ?o = unat (p_vaddr ph)" using o4(1) by simp
  then show "unat (p_vaddr ph AND NOT PGMASK) + 4096 * segment_pages ph \<le> unat PHYS_BASE"
    unfolding unat_not_pgmask pb by (rule pages_fit) (use b(1) v(4) pb in simp_all)
qed

lemma seek_reading:
  assumes "reading f file c o'" "p \<le> length c"
  shows "\<exists>f'. file_seek file (int p) f = Some f' \<and> reading f' file c p"
proof -
  from assms(1) obtain x i where x: "file_of f file = Some x" "opened f (file_inode x) i"
    "content (disk f) (idata i) = c" "length c < 2 ^ 31" by (auto simp: reading_def)
  let ?x = "x\<lparr>file_pos := int p\<rparr>"
  let ?f = "f\<lparr>file_of := (file_of f)(file \<mapsto> ?x)\<rparr>"
  have "file_seek file (int p) f = Some ?f" using x(1) by (simp add: file_seek_def set_file_def)
  moreover have "reading ?f file c p"
    using x unfolding reading_def by (intro exI [of _ ?x] exI [of _ i]) (simp add: opened_def)
  ultimately show ?thesis by blast
qed

lemma sint_small: "unat w < 2 ^ 31 \<Longrightarrow> sint (w :: u32) = int (unat w)"
proof -
  assume "unat w < 2 ^ 31"
  then have "int (unat w) < int (2 ^ 31)" by (simp only: of_nat_less_iff)
  then have "uint w < 2 ^ 31" by simp
  then show ?thesis unfolding sint_uint uint_nat [symmetric] by (subst signed_take_bit_int_eq_self) (simp_all add: order_trans [OF _ uint_ge_0])
qed

lemma load_segment_spec:
  assumes mach: "dirs_ok (lm st) D" "i \<in> D" "kpage (lm st) i \<noteq> init_page_dir (lm st)" "pool_in_ram (lm st)" "lpd st = kpage (lm st) i"
    and seg: "pg_ofs up = 0" "unat up + 4096 * n \<le> unat PHYS_BASE" "unat r + unat z = 4096 * n"
    and content: "reading (lfs st) file c pos" "unat ofs mod 4096 = 0" "unat ofs + unat r \<le> length c"
    and new: "\<forall>k < n. entry (lm st) i (up + PGSIZE * word_of_nat k) AND PTE_P = 0"
  shows "\<exists>ok m' f'. load_segment file ofs up r z writable st = Some (ok, st\<lparr>lfs := f', lm := m'\<rparr>)
    \<and> dirs_ok m' D \<and> frames_kept (lm st) m' \<and> entries_kept D (in_segment i up n) (lm st) m'
    \<and> (if ok then segment_loaded D i up n writable (take (unat r) (drop (unat ofs) c) @ replicate (unat z) 0) (lm st) m' else no_page_left m')"
proof -
  have "length c < 2 ^ 31" using content(1) by (auto simp: reading_def)
  then have "unat ofs < 2 ^ 31" using content(3) by simp
  then have so: "sint ofs = int (unat ofs)" by (rule sint_small)
  have "unat (r + z) = 4096 * n" using seg(2,3) unsigned_less [of PHYS_BASE, where 'a = nat]
    by (simp add: unat_word_ariths PHYS_BASE_def)
  then have a1: "(r + z) mod PGSIZE = 0" by (simp add: word_arith_nat_mod PGSIZE_4096)
  have a3: "sint ofs smod int (unat PGSIZE) = 0" unfolding so
  proof -
    obtain q where "unat ofs = 4096 * q" using content(2) by (auto elim: dvdE [OF dvd_eq_mod_eq_0 [THEN iffD2]])
    then show "int (unat ofs) smod int (unat PGSIZE) = 0"
      by (simp add: signed_modulo_int_def signed_divide_int_def PGSIZE_4096 sgn_mult)
  qed
  from seek_reading [OF content(1), of "unat ofs"] content(3) obtain f0 where
    f0: "file_seek file (int (unat ofs)) (lfs st) = Some f0" "reading f0 file c (unat ofs)" by auto
  have l: "load_segment file ofs up r z writable st = load_loop file up r z writable (st\<lparr>lfs := f0\<rparr>)"
    using a1 a3 seg(1) f0(1) by (simp add: load_segment_def so)
  have sel: "lm (st\<lparr>lfs := f0\<rparr>) = lm st" "lfs (st\<lparr>lfs := f0\<rparr>) = f0" "lpd (st\<lparr>lfs := f0\<rparr>) = lpd st"
    "\<And>f' m'. st\<lparr>lfs := f0, lfs := f', lm := m'\<rparr> = st\<lparr>lfs := f', lm := m'\<rparr>" by simp_all
  show ?thesis unfolding l
    by (rule load_loop_spec [of "st\<lparr>lfs := f0\<rparr>", unfolded sel, OF mach seg f0(2) content(3) new])
qed

text \<open>A byte of the pages is a byte of the data.\<close>

lemma segment_byte:
  assumes l: "segment_loaded D i up n writable data m m'" and p: "palloc_ok m'" and q: "q < n" "t < 4096" "length data = 4096 * n"
    and va: "pg_no va = pg_no (up + PGSIZE * word_of_nat q)" "unat (pg_ofs va) = t"
  shows "\<exists>j. \<not> uused m j \<and> uused m' j \<and> entry m' i va = user_entry (uaddr m' j) writable
    \<and> ram m' (unat (uaddr m' j + pg_ofs va)) = Some (data ! (4096 * q + t))"
proof -
  from l obtain js where js: "length js = n" "\<forall>j \<in> set js. \<not> uused m j \<and> uused m' j"
    "entry m' i (up + PGSIZE * word_of_nat q) = user_entry (uaddr m' (js ! q)) writable"
    "page_bytes m' (js ! q) = take 4096 (drop (4096 * q) data)" using q(1) unfolding segment_loaded_def by blast
  let ?j = "js ! q"
  have u: "\<not> uused m ?j" "uused m' ?j" using js(1,2) q(1) by simp_all
  then have j: "?j < bit_cnt (used_map (user_pool m'))" by (simp add: uused_def)
  have "unat (uaddr m' ?j) + 4096 < 2 ^ 32" using unat_uaddr [OF p j] j user_pool_ok [OF p] by (auto simp: pool_ok_def)
  then have a: "unat (uaddr m' ?j + pg_ofs va) = unat (uaddr m' ?j) + t" using va(2) q(2) by (simp add: unat_word_ariths)
  have "page_bytes m' ?j ! t = the (ram m' (unat (uaddr m' ?j) + t))" using q(2) by (simp add: page_bytes_def)
  moreover have "page_bytes m' ?j ! t = data ! (4096 * q + t)" using js(4) q by simp
  moreover have "ram m' (unat (uaddr m' ?j) + t) \<noteq> None"
    using uaddr_facts(4) [OF p j] q(2) by (auto simp: mapped_def)
  ultimately show ?thesis using u js(3) entry_same_page [OF va(1)] a by (intro exI [of _ ?j]) auto
qed

lemma segment_data:
  assumes v: "validate_segment ph file f = Some True" "segment_bytes ph = (r, z)" and k: "k < unat (p_memsz ph)"
    and c: "unat (p_offset ph) + unat (p_filesz ph) \<le> length c"
  defines "data \<equiv> take (unat r) (drop (unat (p_offset ph AND NOT PGMASK)) c) @ replicate (unat z) 0"
  shows "data ! (unat (p_vaddr ph) mod 4096 + k) = (if k < unat (p_filesz ph) then c ! (unat (p_offset ph) + k) else 0)"
    "unat (p_offset ph AND NOT PGMASK) + unat r \<le> length c" "length data = 4096 * segment_pages ph"
proof -
  let ?o = "unat (p_vaddr ph) mod 4096"
  note s = segment_sizes [OF v]
  have o': "?o = unat (p_offset ph) mod 4096" using validated(1) [OF v(1)] unat_pgmask by metis
  have a: "unat (p_offset ph AND NOT PGMASK) + ?o = unat (p_offset ph)" unfolding o' unat_not_pgmask by simp
  show le: "unat (p_offset ph AND NOT PGMASK) + unat r \<le> length c" using c a unfolding s(1) by simp
  show "length data = 4096 * segment_pages ph" using le s(2) by (simp add: data_def)
  have kn: "?o + k < 4096 * segment_pages ph" using k unfolding segment_pages_def by linarith
  show "data ! (?o + k) = (if k < unat (p_filesz ph) then c ! (unat (p_offset ph) + k) else 0)"
  proof (cases "k < unat (p_filesz ph)")
    case True
    then have "p_filesz ph > 0" by (auto simp: word_gt_0)
    then have "?o + k < unat r" using True s(1) by simp
    moreover have "unat (p_offset ph AND NOT PGMASK) + (?o + k) = unat (p_offset ph) + k" using a by linarith
    then have "c ! (unat (p_offset ph AND NOT PGMASK) + (?o + k)) = c ! (unat (p_offset ph) + k)" by (rule arg_cong)
    ultimately show ?thesis using True le by (simp add: nth_append data_def)
  next
    case False
    then have "unat r \<le> ?o + k" unfolding s(1) by simp
    moreover have "?o + k - unat r < unat z" using kn s(2) calculation by linarith
    moreover have "min (length c - unat (p_offset ph AND NOT PGMASK)) (unat r) = unat r" using le by simp
    ultimately show ?thesis using False by (simp add: nth_append data_def)
  qed
qed

text \<open>The byte \<open>k\<close> of a segment is in the page \<open>?q\<close> of those that are loaded.\<close>

lemma segment_page:
  assumes v: "validate_segment ph file f = Some True" "segment_bytes ph = (r, z)" and k: "k < unat (p_memsz ph)"
  defines "q \<equiv> (unat (p_vaddr ph) mod 4096 + k) div 4096"
  shows "q < segment_pages ph" "unat (pg_ofs (p_vaddr ph + word_of_nat k)) = (unat (p_vaddr ph) mod 4096 + k) mod 4096"
    "pg_no (p_vaddr ph + word_of_nat k) = pg_no ((p_vaddr ph AND NOT PGMASK) + PGSIZE * word_of_nat q)"
proof -
  let ?v = "unat (p_vaddr ph)" and ?up = "p_vaddr ph AND NOT PGMASK"
  note vd = validated [OF v(1)]
  have "?v mod 4096 + k < 4096 * segment_pages ph" using k unfolding segment_pages_def by linarith
  then show q: "q < segment_pages ph" unfolding q_def by (rule less_mult_imp_div_less [OF _ , where i = 4096, simplified mult.commute] | simp add: less_mult_imp_div_less mult.commute)
  have b: "?v + k < 2 ^ 32" using vd(4) k by (simp add: PHYS_BASE_def)
  then have a: "unat (p_vaddr ph + word_of_nat k) = ?v + k" by (simp add: unat_word_ariths unsigned_of_nat take_bit_nat_eq_self)
  show "unat (pg_ofs (p_vaddr ph + word_of_nat k)) = (?v mod 4096 + k) mod 4096" unfolding unat_pg_ofs a by (simp add: mod_add_left_eq)
  have up: "unat ?up = 4096 * (?v div 4096)" by (rule unat_not_pgmask)
  have "pg_ofs ?up = 0" unfolding aligned_unat up by simp
  moreover have "unat ?up + 4096 * Suc (segment_pages ph - 1) \<le> unat PHYS_BASE" using segment_sizes(3) [OF v] q by simp
  ultimately have "unat (pg_no (?up + PGSIZE * word_of_nat q)) = unat (pg_no ?up) + q" using q by (intro next_page(4) [where n = "segment_pages ph - 1"]) simp_all
  also have "\<dots> = ?v div 4096 + q" unfolding unat_pg_no up by simp
  also have "\<dots> = (?v + k) div 4096" unfolding q_def
    by (subst div_mult_self4 [of 4096 "?v div 4096" "?v mod 4096 + k", symmetric]) (simp_all add: add.assoc [symmetric])
  also have "\<dots> = unat (pg_no (p_vaddr ph + word_of_nat k))" unfolding unat_pg_no a ..
  finally show "pg_no (p_vaddr ph + word_of_nat k) = pg_no (?up + PGSIZE * word_of_nat q)"
    by (rule unsigned_word_eqI [OF sym])
qed

text \<open>C21: A segment of an executable is loaded as its program header says.  For a header that validate_segment accepts and
  whose bytes are in the file, load_segment, called as load calls it, returns.  It keeps the page directories in
  order, keeps every page frame in use with its contents, and changes no entry of any directory outside the pages
  of the segment.  When it reports success, each of the p_memsz bytes from p_vaddr on is mapped, with the write
  permission asked for, to a frame that was free before and is in use now, and this frame holds the byte of the
  file at p_offset, or zero from p_filesz on; otherwise the user pool or the kernel pool has no page left.\<close>

theorem load_segment_maps_file:
  assumes mach: "dirs_ok (lm st) D" "i \<in> D" "kpage (lm st) i \<noteq> init_page_dir (lm st)" "pool_in_ram (lm st)" "lpd st = kpage (lm st) i"
    and seg: "validate_segment ph file (lfs st) = Some True" "segment_bytes ph = (r, z)"
    and content: "reading (lfs st) file c pos" "unat (p_offset ph) + unat (p_filesz ph) \<le> length c"
    and new: "\<forall>va. is_user_vaddr va \<longrightarrow> in_segment i (p_vaddr ph) (segment_pages ph) i va \<longrightarrow> entry (lm st) i va AND PTE_P = 0"
  shows "\<exists>ok m' f'. load_segment file (p_offset ph AND NOT PGMASK) (p_vaddr ph AND NOT PGMASK) r z w st
      = Some (ok, st\<lparr>lfs := f', lm := m'\<rparr>)
    \<and> dirs_ok m' D \<and> frames_kept (lm st) m' \<and> entries_kept D (in_segment i (p_vaddr ph) (segment_pages ph)) (lm st) m'
    \<and> (if ok then \<forall>k < unat (p_memsz ph). \<exists>j. \<not> uused (lm st) j \<and> uused m' j
          \<and> entry m' i (p_vaddr ph + word_of_nat k) = user_entry (uaddr m' j) w
          \<and> ram m' (unat (uaddr m' j + pg_ofs (p_vaddr ph + word_of_nat k)))
             = Some (if k < unat (p_filesz ph) then c ! (unat (p_offset ph) + k) else 0)
       else no_page_left m')"
proof -
  let ?up = "p_vaddr ph AND NOT PGMASK" and ?ofs = "p_offset ph AND NOT PGMASK" and ?n = "segment_pages ph"
  let ?data = "take (unat r) (drop (unat ?ofs) c) @ replicate (unat z) 0"
  note s = segment_sizes [OF seg] and m0 = validated(3) [OF seg(1)]
  have up: "pg_ofs ?up = 0" unfolding aligned_unat unat_not_pgmask by simp
  have n: "?n = Suc (?n - 1)" using segment_page(1) [OF seg m0] by simp
  have no: "pg_no ?up = pg_no (p_vaddr ph)" using pg_no_round_down by (simp add: pg_round_down_def)
  have pages: "in_segment i ?up n = in_segment i (p_vaddr ph) n" for n by (simp add: in_segment_def no fun_eq_iff)
  have "entry (lm st) i (?up + PGSIZE * word_of_nat k) AND PTE_P = 0" if "k < ?n" for k
    using new next_page(4,5) [OF up, of "?n - 1" k] s(3) that n unfolding in_segment_def no by simp
  then obtain ok m' f' where l: "load_segment file ?ofs ?up r z w st = Some (ok, st\<lparr>lfs := f', lm := m'\<rparr>)" "dirs_ok m' D"
    "frames_kept (lm st) m'" "entries_kept D (in_segment i ?up ?n) (lm st) m'"
    "if ok then segment_loaded D i ?up ?n w ?data (lm st) m' else no_page_left m'"
    using load_segment_spec [OF mach up s(3,2) content(1) _ segment_data(2) [OF seg m0 content(2)], of w] unat_not_pgmask by auto
  have p: "palloc_ok m'" using l(2) by (simp add: dirs_ok_def)
  have "\<exists>j. \<not> uused (lm st) j \<and> uused m' j \<and> entry m' i (p_vaddr ph + word_of_nat k) = user_entry (uaddr m' j) w
      \<and> ram m' (unat (uaddr m' j + pg_ofs (p_vaddr ph + word_of_nat k)))
        = Some (if k < unat (p_filesz ph) then c ! (unat (p_offset ph) + k) else 0)" if ok and k: "k < unat (p_memsz ph)" for k
    using segment_byte [OF _ p segment_page(1) [OF seg k] _ segment_data(3) [OF seg k content(2)] segment_page(3) [OF seg k] segment_page(2) [OF seg k]]
      l(5) \<open>ok\<close> by (simp add: segment_data(1) [OF seg k content(2)])
  then show ?thesis using l unfolding pages by (intro exI [of _ ok] exI [of _ m'] exI [of _ f']) auto
qed

text \<open>A segment of 100 bytes, the first four from the file of the example's file system, in the machine with two directories.\<close>

definition ex_phdr :: elf_phdr where
  "ex_phdr = \<lparr>p_type = PT_LOAD, p_offset = 0, p_vaddr = 0x8048000, p_filesz = 4, p_memsz = 100, p_flags = 6\<rparr>"

definition ex_loader :: loader where
  "ex_loader = \<lparr>lfs = ex_fs 15, lm = two_dirs, lpd = 0xc0102000\<rparr>"

lemma ex_reading: "reading (ex_fs 15) 5 (content (disk (ex_fs 15)) ex_map_inode) 0" "length (content (disk (ex_fs 15)) ex_map_inode) = 4"
proof -
  show l: "length (content (disk (ex_fs 15)) ex_map_inode) = 4" by (simp add: content_def ex_map_inode_def)
  have "opened (ex_fs 15) 6 \<lparr>isector = 0, open_cnt = 1, removed = False, deny_write_cnt = 0, idata = ex_map_inode\<rparr>"
    using ex_15(1) unfolding opened_def fm_ok_def fm_file_ok_def by (auto simp: ex_fm_inode) (simp_all add: ex_fs_def)
  then show "reading (ex_fs 15) 5 (content (disk (ex_fs 15)) ex_map_inode) 0"
    unfolding reading_def using l by (intro exI conjI) (auto simp: ex_fs_def)
qed

theorem load_segment_maps_file_witness:
  "\<exists>ok m' f'. load_segment 5 0 0x8048000 4 4092 True ex_loader = Some (ok, ex_loader\<lparr>lfs := f', lm := m'\<rparr>) \<and> dirs_ok m' {0, 1}
     \<and> (if ok then \<exists>j. \<not> uused two_dirs j \<and> uused m' j \<and> ram m' (unat (uaddr m' j + pg_ofs (0x8048000 + word_of_nat 50))) = Some 0
        else no_page_left m')"
proof -
  have h: "dirs_ok (lm ex_loader) {0, 1}" "(1::nat) \<in> {0, 1}" "kpage (lm ex_loader) 1 \<noteq> init_page_dir (lm ex_loader)"
    "pool_in_ram (lm ex_loader)" "lpd ex_loader = kpage (lm ex_loader) 1"
    using two_dirs_ok two_dirs_pages by (simp_all add: ex_loader_def pool_in_ram_def) (simp add: two_dirs_def PHYS_BASE_def)
  have "file_length 5 (ex_fs 15) = Some 4" by (simp add: file_length_def inode_length_def ex_fs_def ex_map_inode_def)
  then have v: "validate_segment ex_phdr 5 (lfs ex_loader) = Some True"
    by (simp add: validate_segment_def ex_phdr_def ex_loader_def PGMASK_def PGBITS_def PHYS_BASE_def is_user_vaddr_def PGSIZE_4096)
  have s: "segment_bytes ex_phdr = (4, 4092)"
    by (simp add: segment_bytes_def ex_phdr_def PGMASK_def PGBITS_def ROUND_UP_def PGSIZE_4096)
  have c: "reading (lfs ex_loader) 5 (content (disk (ex_fs 15)) ex_map_inode) 0"
    "unat (p_offset ex_phdr) + unat (p_filesz ex_phdr) \<le> length (content (disk (ex_fs 15)) ex_map_inode)"
    using ex_reading by (simp_all add: ex_loader_def ex_phdr_def)
  have n: "\<forall>va. is_user_vaddr va \<longrightarrow> in_segment 1 (p_vaddr ex_phdr) (segment_pages ex_phdr) 1 va \<longrightarrow> entry (lm ex_loader) 1 va AND PTE_P = 0"
    by (simp add: ex_loader_def two_dirs_zero)
  have p: "p_offset ex_phdr AND NOT PGMASK = 0" "p_vaddr ex_phdr AND NOT PGMASK = 0x8048000" "unat (p_memsz ex_phdr) = 100"
    "unat (p_filesz ex_phdr) = 4" "p_vaddr ex_phdr = 0x8048000"
    by (simp_all add: ex_phdr_def PGMASK_def PGBITS_def)
  have e: "lm ex_loader = two_dirs" by (simp add: ex_loader_def)
  from load_segment_maps_file [OF h v s c n, of True, unfolded p(1-4) e, unfolded p(5)] show ?thesis
  proof (elim exE conjE)
    fix ok m' f'
    assume l: "load_segment 5 0 0x8048000 4 4092 True ex_loader = Some (ok, ex_loader\<lparr>lfs := f', lm := m'\<rparr>)" "dirs_ok m' {0, 1}"
      and b: "if ok then \<forall>k < 100. \<exists>j. \<not> uused two_dirs j \<and> uused m' j
          \<and> entry m' 1 (0x8048000 + word_of_nat k) = user_entry (uaddr m' j) True
          \<and> ram m' (unat (uaddr m' j + pg_ofs (0x8048000 + word_of_nat k)))
            = Some (if k < 4 then content (disk (ex_fs 15)) ex_map_inode ! (unat (p_offset ex_phdr) + k) else 0)
        else no_page_left m'"
    have "\<exists>j. \<not> uused two_dirs j \<and> uused m' j \<and> ram m' (unat (uaddr m' j + pg_ofs (0x8048000 + word_of_nat 50))) = Some 0" if ok
      using b [unfolded if_P [OF that], rule_format, of 50] by auto
    then show ?thesis using l b by (intro exI [of _ ok] exI [of _ m'] exI [of _ f']) (simp split: if_splits)
  qed
qed

end
