(* ===== verification/Malloc.thy ===== *)
theory Malloc imports PageAlloc KernelListLinks begin

section \<open>threads/malloc.c: blocks of any size\<close>

text \<open>
  The allocator of blocks keeps pages of the page allocator as arenas, each divided into blocks of one size or, for a
  large request, one block of several pages.  A descriptor has the size of its blocks and the list of the free ones.
  \<open>block_heap\<close> is the state: the machine with the page allocator, the elements of kernel lists, the descriptors, and the
  headers of the arenas by their address.  The headers and the links of the free blocks, which lie in the pages
  themselves, are kept beside the bytes of the memory: an address has a header exactly when the magic number is there,
  and every address has the two fields of a list element.  The lock of a descriptor is a flag, as there is one thread.
\<close>

subsection \<open>The state\<close>

record desc =
  d_block_size :: nat
  blocks_per_arena :: nat
  free_list :: ptr
  d_held :: bool

record arena =
  a_desc :: "nat option"
  free_cnt :: nat

record block_heap =
  hm :: machine
  links :: store
  descs :: "desc list"
  arena_at :: "u32 \<Rightarrow> arena option"

definition ARENA_SIZE :: nat where "ARENA_SIZE = 12"
definition DESC_MAX :: nat where "DESC_MAX = 10"

definition put_arena :: "u32 \<Rightarrow> arena option \<Rightarrow> block_heap \<Rightarrow> block_heap" where
  "put_arena a A st = st\<lparr>arena_at := (arena_at st)(a := A)\<rparr>"

definition desc_lock :: "nat \<Rightarrow> block_heap \<Rightarrow> block_heap option" where
  "desc_lock i st = do {
     ASSERT (\<not> d_held (descs st ! i));
     Some (st\<lparr>descs := (descs st)[i := (descs st ! i)\<lparr>d_held := True\<rparr>]\<rparr>) }"

definition desc_unlock :: "nat \<Rightarrow> block_heap \<Rightarrow> block_heap option" where
  "desc_unlock i st = do {
     ASSERT (d_held (descs st ! i));
     Some (st\<lparr>descs := (descs st)[i := (descs st ! i)\<lparr>d_held := False\<rparr>]\<rparr>) }"

subsection \<open>Initialisation\<close>

text \<open>\<open>list_at i\<close> is the address of the list in the descriptor \<open>i\<close> of the array.\<close>

partial_function (option) malloc_init_loop :: "(nat \<Rightarrow> ptr) \<Rightarrow> nat \<Rightarrow> block_heap \<Rightarrow> block_heap option" where
  "malloc_init_loop list_at bsize st =
     (if bsize < unat PGSIZE div 2 then do {
        let i = length (descs st);
        ASSERT (Suc i \<le> DESC_MAX);
        h \<leftarrow> list_init (links st) (list_at i);
        malloc_init_loop list_at (bsize * 2) (st\<lparr>links := h, descs := descs st @
          [\<lparr>d_block_size = bsize, blocks_per_arena = (unat PGSIZE - ARENA_SIZE) div bsize, free_list = list_at i, d_held = False\<rparr>]\<rparr>) }
      else Some st)"

definition malloc_init :: "(nat \<Rightarrow> ptr) \<Rightarrow> block_heap \<Rightarrow> block_heap option" where
  "malloc_init list_at st = malloc_init_loop list_at 16 st"

subsection \<open>Blocks and arenas\<close>

definition block_to_arena :: "u32 \<Rightarrow> block_heap \<Rightarrow> u32 option" where
  "block_to_arena b st = do {
     let a = pg_round_down b;
     ASSERT (a \<noteq> 0);
     A \<leftarrow> arena_at st a;
     (case a_desc A of
        Some i \<Rightarrow> ASSERT (unat (pg_ofs b - word_of_nat ARENA_SIZE) mod d_block_size (descs st ! i) = 0)
      | None \<Rightarrow> ASSERT (pg_ofs b = word_of_nat ARENA_SIZE));
     Some a }"

definition arena_to_block :: "u32 \<Rightarrow> nat \<Rightarrow> block_heap \<Rightarrow> u32 option" where
  "arena_to_block a idx st = do {
     ASSERT (a \<noteq> 0);
     A \<leftarrow> arena_at st a;
     i \<leftarrow> a_desc A;
     ASSERT (idx < blocks_per_arena (descs st ! i));
     Some (a + word_of_nat ARENA_SIZE + word_of_nat idx * word_of_nat (d_block_size (descs st ! i))) }"

subsection \<open>malloc\<close>

fun find_desc :: "desc list \<Rightarrow> nat \<Rightarrow> nat" where
  "find_desc [] sz = 0"
| "find_desc (d # ds) sz = (if d_block_size d \<ge> sz then 0 else Suc (find_desc ds sz))"

text \<open>The \<open>n\<close> blocks of an arena from number \<open>i\<close> on are put on the list.\<close>

fun push_blocks :: "u32 \<Rightarrow> ptr \<Rightarrow> nat \<Rightarrow> nat \<Rightarrow> block_heap \<Rightarrow> block_heap option" where
  "push_blocks a l 0 i st = Some st"
| "push_blocks a l (Suc n) i st = do {
     b \<leftarrow> arena_to_block a i st;
     h \<leftarrow> list_push_back (links st) l (unat b);
     push_blocks a l n (Suc i) (st\<lparr>links := h\<rparr>) }"

definition new_arena :: "nat \<Rightarrow> block_heap \<Rightarrow> (bool \<times> block_heap) option" where
  "new_arena i st = do {
     (a, m) \<leftarrow> palloc_get_page 0 (hm st);
     let st = st\<lparr>hm := m\<rparr>;
     if a = 0 then Some (False, st)
     else do {
       let d = descs st ! i;
       let st = put_arena a (Some \<lparr>a_desc = Some i, free_cnt = blocks_per_arena d\<rparr>) st;
       st \<leftarrow> push_blocks a (free_list d) (blocks_per_arena d) 0 st;
       Some (True, st) } }"

definition malloc_big :: "u32 \<Rightarrow> block_heap \<Rightarrow> (u32 \<times> block_heap) option" where
  "malloc_big sz st = do {
     let page_cnt = unat ((sz + word_of_nat ARENA_SIZE + PGSIZE - 1) div PGSIZE);
     (a, m) \<leftarrow> palloc_get_multiple 0 page_cnt (hm st);
     let st = st\<lparr>hm := m\<rparr>;
     if a = 0 then Some (0, st)
     else Some (a + word_of_nat ARENA_SIZE, put_arena a (Some \<lparr>a_desc = None, free_cnt = page_cnt\<rparr>) st) }"

definition take_block :: "nat \<Rightarrow> block_heap \<Rightarrow> (u32 \<times> block_heap) option" where
  "take_block i st = do {
     (h, p) \<leftarrow> list_pop_front (links st) (free_list (descs st ! i));
     let st = st\<lparr>links := h\<rparr>;
     let b = word_of_nat p;
     a \<leftarrow> block_to_arena b st;
     A \<leftarrow> arena_at st a;
     Some (b, put_arena a (Some (A\<lparr>free_cnt := usz (free_cnt A + (2 ^ 32 - 1))\<rparr>)) st) }"

definition malloc :: "u32 \<Rightarrow> block_heap \<Rightarrow> (u32 \<times> block_heap) option" where
  "malloc sz st =
     (if sz = 0 then Some (0, st)
      else let i = find_desc (descs st) (unat sz) in
      if i = length (descs st) then malloc_big sz st
      else do {
        st \<leftarrow> desc_lock i st;
        em \<leftarrow> list_empty (links st) (free_list (descs st ! i));
        (ok, st) \<leftarrow> (if em then new_arena i st else Some (True, st));
        if \<not> ok then do { st \<leftarrow> desc_unlock i st; Some (0, st) }
        else do {
          (b, st) \<leftarrow> take_block i st;
          st \<leftarrow> desc_unlock i st;
          Some (b, st) } })"

definition fill_block :: "u32 \<Rightarrow> int \<Rightarrow> nat \<Rightarrow> block_heap \<Rightarrow> block_heap option" where
  "fill_block p v n st = do {
     (_, r) \<leftarrow> memset (unat p) v n (ram (hm st));
     Some (st\<lparr>hm := (hm st)\<lparr>ram := r\<rparr>\<rparr>) }"

definition calloc :: "u32 \<Rightarrow> u32 \<Rightarrow> block_heap \<Rightarrow> (u32 \<times> block_heap) option" where
  "calloc a b st =
     (let sz = a * b in
      if sz < a \<or> sz < b then Some (0, st)
      else do {
        (p, st) \<leftarrow> malloc sz st;
        st \<leftarrow> (if p \<noteq> 0 then fill_block p 0 (unat sz) st else Some st);
        Some (p, st) })"

subsection \<open>free and realloc\<close>

definition malloc_block_size :: "u32 \<Rightarrow> block_heap \<Rightarrow> nat option" where
  "malloc_block_size b st = do {
     a \<leftarrow> block_to_arena b st;
     A \<leftarrow> arena_at st a;
     Some (case a_desc A of
         Some i \<Rightarrow> d_block_size (descs st ! i)
       | None \<Rightarrow> unat (PGSIZE * word_of_nat (free_cnt A) - pg_ofs b)) }"

fun remove_blocks :: "u32 \<Rightarrow> nat \<Rightarrow> nat \<Rightarrow> block_heap \<Rightarrow> block_heap option" where
  "remove_blocks a 0 i st = Some st"
| "remove_blocks a (Suc n) i st = do {
     b \<leftarrow> arena_to_block a i st;
     (h, _) \<leftarrow> list_remove (links st) (unat b);
     remove_blocks a n (Suc i) (st\<lparr>links := h\<rparr>) }"

definition free_arena :: "u32 \<Rightarrow> nat \<Rightarrow> nat \<Rightarrow> block_heap \<Rightarrow> block_heap option" where
  "free_arena a cnt n st = do {
     ASSERT (cnt = n);
     st \<leftarrow> remove_blocks a n 0 st;
     m \<leftarrow> palloc_free_page a (hm st);
     Some (put_arena a None (st\<lparr>hm := m\<rparr>)) }"

definition free :: "u32 \<Rightarrow> block_heap \<Rightarrow> block_heap option" where
  "free p st =
     (if p = 0 then Some st
      else do {
        a \<leftarrow> block_to_arena p st;
        A \<leftarrow> arena_at st a;
        case a_desc A of
          Some i \<Rightarrow> do {
            let d = descs st ! i;
            st \<leftarrow> fill_block p 204 (d_block_size d) st;
            st \<leftarrow> desc_lock i st;
            h \<leftarrow> list_push_front (links st) (free_list d) (unat p);
            let st = st\<lparr>links := h\<rparr>;
            let cnt = usz (free_cnt A + 1);
            let st = put_arena a (Some (A\<lparr>free_cnt := cnt\<rparr>)) st;
            st \<leftarrow> (if cnt \<ge> blocks_per_arena d then free_arena a cnt (blocks_per_arena d) st else Some st);
            desc_unlock i st }
        | None \<Rightarrow> do {
            m \<leftarrow> palloc_free_multiple a (free_cnt A) (hm st);
            Some (put_arena a None (st\<lparr>hm := m\<rparr>)) } })"

definition realloc :: "u32 \<Rightarrow> u32 \<Rightarrow> block_heap \<Rightarrow> (u32 \<times> block_heap) option" where
  "realloc old_block new_size st =
     (if new_size = 0 then do { st \<leftarrow> free old_block st; Some (0, st) }
      else do {
        (new_block, st) \<leftarrow> malloc new_size st;
        st \<leftarrow> (if old_block \<noteq> 0 \<and> new_block \<noteq> 0 then do {
            old_size \<leftarrow> malloc_block_size old_block st;
            let min_size = (if unat new_size < old_size then unat new_size else old_size);
            (_, r) \<leftarrow> memcpy (unat new_block) (unat old_block) min_size (ram (hm st));
            free old_block (st\<lparr>hm := (hm st)\<lparr>ram := r\<rparr>\<rparr>) }
          else Some st);
        Some (new_block, st) })"

declare malloc_init_loop.simps [code]

end
