(* ===== verification/MallocTheorems.thy ===== *)
theory MallocTheorems imports Malloc PageAllocTheorems begin

section \<open>Blocks that are allocated do not overlap\<close>

text \<open>
  \<open>heap_ok st F\<close> is the shape of the heap: \<open>F i\<close> are the blocks on the free list of descriptor \<open>i\<close>, each a block of an
  arena of this descriptor; arenas are used pages of the kernel pool and do not overlap; and the count in the header of an arena
  is the number of its free blocks.  \<open>allocated st F b c\<close> then says which blocks a program has, by address and size, and
  malloc and free are shown to add and remove one block and to leave all others alone.
\<close>

subsection \<open>Several lists in one store\<close>

definition lists_ok :: "store \<Rightarrow> nat \<Rightarrow> (nat \<Rightarrow> ptr) \<Rightarrow> (nat \<Rightarrow> ptr list) \<Rightarrow> bool" where
  "lists_ok h n ls F = ((\<forall>p. h p \<noteq> None) \<and> (\<forall>i < n. dll h (ls i) (F i))
     \<and> (\<forall>i < n. \<forall>j < n. i \<noteq> j \<longrightarrow> set (cells (ls i) (F i)) \<inter> set (cells (ls j) (F j)) = {}))"

lemma lists_okD:
  assumes "lists_ok h n ls F" "i < n"
  shows "dll h (ls i) (F i)" "p \<in> dom h" "j < n \<Longrightarrow> i \<noteq> j \<Longrightarrow> set (cells (ls i) (F i)) \<inter> set (cells (ls j) (F j)) = {}"
  using assms by (auto simp: lists_ok_def)

lemma lists_change:
  assumes ok: "lists_ok h n ls F" "i < n" and d: "dll h' (ls i) xs" and s: "same_outside S h h'"
    and S: "\<forall>j < n. j \<noteq> i \<longrightarrow> S \<inter> set (cells (ls j) (F j)) = {}" and xs: "set (cells (ls i) xs) \<subseteq> S \<union> set (cells (ls i) (F i))"
  shows "lists_ok h' n ls (F(i := xs))"
proof -
  have dm: "h' p \<noteq> None" for p using s ok(1) unfolding same_outside_def lists_ok_def by blast
  have "dll h' (ls j) ((F(i := xs)) j)" if "j < n" for j
  proof (cases "j = i")
    case False
    then show ?thesis using dll_frame [OF lists_okD(1) [OF ok(1) that] s] S that by simp
  qed (simp add: d)
  moreover have "set (cells (ls j) ((F(i := xs)) j)) \<inter> set (cells (ls k) ((F(i := xs)) k)) = {}" if "j < n" "k < n" "j \<noteq> k" for j k
    using that xs S lists_okD(3) [OF ok(1), of j k] lists_okD(3) [OF ok, of k] lists_okD(3) [OF ok, of j] ok(2)
    by (cases "j = i"; cases "k = i") auto
  ultimately show ?thesis using dm by (simp add: lists_ok_def)
qed

definition outside_lists :: "nat \<Rightarrow> (nat \<Rightarrow> ptr) \<Rightarrow> (nat \<Rightarrow> ptr list) \<Rightarrow> ptr \<Rightarrow> bool" where
  "outside_lists n ls F e = (e \<noteq> 0 \<and> (\<forall>j < n. e \<notin> set (cells (ls j) (F j))))"

lemma lists_push:
  assumes ok: "lists_ok h n ls F" "i < n" and e: "outside_lists n ls F e"
  shows "\<exists>h'. list_push_back h (ls i) e = Some h' \<and> lists_ok h' n ls (F(i := F i @ [e]))"
    "\<exists>h'. list_push_front h (ls i) e = Some h' \<and> lists_ok h' n ls (F(i := e # F i))"
proof -
  note d = lists_okD(1) [OF ok]
  have n: "e \<notin> set (cells (ls i) (F i))" "e \<in> dom h" "e \<noteq> KernelList.NULL"
    using e ok lists_okD(2) [OF ok] by (auto simp: outside_lists_def KernelList.NULL_def)
  have S: "\<forall>j < n. j \<noteq> i \<longrightarrow> insert e (set (cells (ls i) (F i))) \<inter> set (cells (ls j) (F j)) = {}"
    using e lists_okD(3) [OF ok] by (auto simp: outside_lists_def)
  obtain h1 where h1: "list_push_back h (ls i) e = Some h1" "dll h1 (ls i) (F i @ [e])" "same_outside (insert e (set (cells (ls i) (F i)))) h h1"
    using list_push_back_dll [OF d n] by blast
  have "lists_ok h1 n ls (F(i := F i @ [e]))" by (rule lists_change [OF ok h1(2,3) S]) (auto simp: cells_def)
  then show "\<exists>h'. list_push_back h (ls i) e = Some h' \<and> lists_ok h' n ls (F(i := F i @ [e]))" using h1(1) by blast
  obtain h2 where h2: "list_push_front h (ls i) e = Some h2" "dll h2 (ls i) (e # F i)" "same_outside (insert e (set (cells (ls i) (F i)))) h h2"
    using list_push_front_dll [OF d n] by blast
  have "lists_ok h2 n ls (F(i := e # F i))" by (rule lists_change [OF ok h2(2,3) S]) (auto simp: cells_def)
  then show "\<exists>h'. list_push_front h (ls i) e = Some h' \<and> lists_ok h' n ls (F(i := e # F i))" using h2(1) by blast
qed

lemma lists_remove:
  assumes ok: "lists_ok h n ls F" "i < n" and f: "F i = as @ e # bs"
  shows "\<exists>h' x. list_remove h e = Some (h', x) \<and> lists_ok h' n ls (F(i := as @ bs))"
proof -
  obtain h' where h': "list_remove h e = Some (h', hd (bs @ [tail_of (ls i)]))" "dll h' (ls i) (as @ bs)"
    "same_outside (set (cells (ls i) (as @ bs))) h h'"
    using list_remove_dll [of h "ls i" as e bs] lists_okD(1) [OF ok] f by auto
  have "lists_ok h' n ls (F(i := as @ bs))"
    by (rule lists_change [OF ok h'(2,3)]) (use lists_okD(3) [OF ok] f in \<open>auto simp: cells_def\<close>)
  then show ?thesis using h'(1) by blast
qed

lemma lists_pop:
  assumes ok: "lists_ok h n ls F" "i < n" and f: "F i = e # bs"
  shows "\<exists>h'. list_pop_front h (ls i) = Some (h', e) \<and> lists_ok h' n ls (F(i := bs))"
proof -
  obtain h' where h': "list_pop_front h (ls i) = Some (h', e)" "dll h' (ls i) bs" "same_outside (set (cells (ls i) bs)) h h'"
    using list_pop_front_dll [of h "ls i" e bs] lists_okD(1) [OF ok] f by auto
  have "lists_ok h' n ls (F(i := bs))"
    by (rule lists_change [OF ok h'(2,3)]) (use lists_okD(3) [OF ok] f in \<open>auto simp: cells_def\<close>)
  then show ?thesis using h'(1) by blast
qed

lemma lists_empty: "lists_ok h n ls F \<Longrightarrow> i < n \<Longrightarrow> list_empty h (ls i) = Some (F i = [])"
  using list_empty_dll lists_okD(1) by blast

subsection \<open>Addresses of blocks\<close>

definition desc_ok :: "desc \<Rightarrow> bool" where
  "desc_ok d = (0 < d_block_size d \<and> 0 < blocks_per_arena d \<and> 12 + blocks_per_arena d * d_block_size d \<le> 4096)"

definition block_addr :: "desc \<Rightarrow> u32 \<Rightarrow> nat \<Rightarrow> nat" where
  "block_addr d a j = unat a + 12 + j * d_block_size d"

definition block_addrs :: "desc \<Rightarrow> u32 \<Rightarrow> nat list" where
  "block_addrs d a = map (block_addr d a) [0..<blocks_per_arena d]"

lemma block_fits: "desc_ok d \<Longrightarrow> j < blocks_per_arena d \<Longrightarrow> 12 + j * d_block_size d + d_block_size d \<le> 4096"
proof -
  assume d: "desc_ok d" and "j < blocks_per_arena d"
  then have "Suc j * d_block_size d \<le> blocks_per_arena d * d_block_size d" by (intro mult_le_mono1) simp
  then show ?thesis using d by (simp add: desc_ok_def)
qed

lemma few_blocks: "desc_ok d \<Longrightarrow> blocks_per_arena d \<le> 4084"
proof -
  assume d: "desc_ok d"
  then have "blocks_per_arena d * 1 \<le> blocks_per_arena d * d_block_size d" by (intro mult_le_mono2) (simp add: desc_ok_def)
  then show ?thesis using d unfolding desc_ok_def mult_1_right by linarith
qed

lemma block_addr_inj: "desc_ok d \<Longrightarrow> block_addr d a i = block_addr d a j \<longleftrightarrow> i = j"
  by (auto simp: block_addr_def desc_ok_def)

lemma distinct_blocks: "desc_ok d \<Longrightarrow> distinct (block_addrs d a)"
  by (auto simp: block_addrs_def distinct_map inj_on_def block_addr_inj)

lemma blocks_apart:
  assumes "desc_ok d" "b \<in> set (block_addrs d a)" "b' \<in> set (block_addrs d a)" "b \<noteq> b'"
  shows "b + d_block_size d \<le> b' \<or> b' + d_block_size d \<le> b"
proof -
  obtain i j where ij: "b = block_addr d a i" "b' = block_addr d a j" using assms(2,3) by (auto simp: block_addrs_def)
  then consider "Suc i \<le> j" | "Suc j \<le> i" using assms(4) by (metis not_less_eq_eq le_antisym Suc_leD)
  then show ?thesis
  proof cases
    case 1
    then have "Suc i * d_block_size d \<le> j * d_block_size d" by (rule mult_le_mono1)
    then show ?thesis by (simp add: ij block_addr_def)
  next
    case 2
    then have "Suc j * d_block_size d \<le> i * d_block_size d" by (rule mult_le_mono1)
    then show ?thesis by (simp add: ij block_addr_def)
  qed
qed

text \<open>An address in a page of which the base is \<open>a\<close>.\<close>

lemma in_page:
  assumes "pg_ofs a = 0" "unat b = unat a + t" "t < 4096"
  shows "pg_round_down b = a" "unat (pg_ofs b) = t"
proof -
  have m: "unat a mod 4096 = 0" using assms(1) aligned_unat by blast
  then show o': "unat (pg_ofs b) = t" unfolding unat_pg_ofs assms(2) using assms(3) by (simp add: mod_add_left_eq [symmetric])
  have "unat (pg_no b) = unat (pg_no a)" unfolding unat_pg_no assms(2) using m assms(3) by (auto simp: div_add1_eq)
  then have "pg_no b = pg_no a" by (rule unsigned_word_eqI)
  moreover have "pg_round_down a = a" using pg_round_down_ofs [of a] assms(1) by simp
  ultimately show "pg_round_down b = a" by (metis pg_round_down_no)
qed

lemma block_word:
  assumes "unat a + 4096 \<le> 2 ^ 32" "desc_ok d" "j < blocks_per_arena d"
  shows "unat (a + word_of_nat ARENA_SIZE + word_of_nat j * word_of_nat (d_block_size d)) = block_addr d a j"
proof -
  let ?s = "d_block_size d"
  have f: "12 + j * ?s + ?s \<le> 4096" using assms(2,3) by (rule block_fits)
  have j: "j < 4096" using few_blocks [OF assms(2)] assms(3) by simp
  have s: "?s < 2 ^ 32" "j * ?s < 2 ^ 32" using f by simp_all
  then have "unat (word_of_nat j * word_of_nat ?s :: u32) = j * ?s"
    using j by (simp add: unat_word_ariths unsigned_of_nat take_bit_nat_eq_self)
  then show ?thesis using f assms(1) assms(2) by (simp add: block_addr_def ARENA_SIZE_def unat_word_ariths desc_ok_def)
qed

subsection \<open>All blocks of an arena\<close>

lemma arena_to_block_addr:
  assumes "a \<noteq> 0" "unat a + 4096 \<le> 2 ^ 32" "arena_at st a = Some A" "a_desc A = Some i" "desc_ok (descs st ! i)" "j < blocks_per_arena (descs st ! i)"
  shows "\<exists>b. arena_to_block a j st = Some b \<and> unat b = block_addr (descs st ! i) a j"
  using assms block_word [OF assms(2,5,6)] by (simp add: arena_to_block_def)

lemma outside_lists_upd:
  assumes "outside_lists n ls F e" "set xs \<subseteq> insert e' (set (F i))" "e \<noteq> e'"
  shows "outside_lists n ls (F(i := xs)) e"
  using assms by (auto simp: outside_lists_def cells_def)

lemma push_blocks_spec:
  assumes "lists_ok (links st) n ls F" "k < n"
    and "a \<noteq> 0" "unat a + 4096 \<le> 2 ^ 32" "arena_at st a = Some A" "a_desc A = Some k" "desc_ok (descs st ! k)"
    and "i + c \<le> blocks_per_arena (descs st ! k)"
    and "\<forall>j \<in> {i..<i + c}. outside_lists n ls F (block_addr (descs st ! k) a j)"
  shows "\<exists>h'. push_blocks a (ls k) c i st = Some (st\<lparr>links := h'\<rparr>)
    \<and> lists_ok h' n ls (F(k := F k @ map (block_addr (descs st ! k) a) [i..<i + c]))"
  using assms
proof (induction c arbitrary: i st F)
  case 0
  then show ?case by (auto intro!: exI [of _ "links st"])
next
  case (Suc c)
  let ?d = "descs st ! k"
  let ?e = "block_addr ?d a i"
  define F' where "F' = F(k := F k @ [block_addr ?d a i])"
  obtain b where b: "arena_to_block a i st = Some b" "unat b = ?e"
    using arena_to_block_addr [OF Suc.prems(3,4,5,6,7), of i] Suc.prems(8) by auto
  have o': "outside_lists n ls F ?e" using Suc.prems(9) by simp
  obtain h' where h': "list_push_back (links st) (ls k) ?e = Some h'" "lists_ok h' n ls F'"
    using lists_push(1) [OF Suc.prems(1,2) o'] unfolding F'_def by blast
  let ?st = "st\<lparr>links := h'\<rparr>"
  have out: "\<forall>j \<in> {Suc i..<Suc i + c}. outside_lists n ls F' (block_addr ?d a j)"
    using Suc.prems(9) block_addr_inj [OF Suc.prems(7)] unfolding F'_def by (auto intro!: outside_lists_upd [where e' = ?e])
  have "\<exists>h''. push_blocks a (ls k) c (Suc i) ?st = Some (?st\<lparr>links := h''\<rparr>)
      \<and> lists_ok h'' n ls (F'(k := F' k @ map (block_addr (descs ?st ! k) a) [Suc i..<Suc i + c]))"
    by (rule Suc.IH [where F = F' and st = ?st and i = "Suc i"]) (use h'(2) Suc.prems(2-8) out in \<open>simp_all del: upt_Suc\<close>)
  then obtain h'' where r: "push_blocks a (ls k) c (Suc i) ?st = Some (st\<lparr>links := h''\<rparr>)"
    "lists_ok h'' n ls (F'(k := F' k @ map (block_addr ?d a) [Suc i..<Suc i + c]))" by (auto simp del: upt_Suc)
  have "[i..<i + Suc c] = i # [Suc i..<Suc i + c]" by (simp add: upt_conv_Cons)
  then have "F'(k := F' k @ map (block_addr ?d a) [Suc i..<Suc i + c]) = F(k := F k @ map (block_addr ?d a) [i..<i + Suc c])"
    unfolding F'_def by (simp only: fun_upd_upd fun_upd_same append_assoc list.map append_Cons append_Nil)
  moreover have "push_blocks a (ls k) (Suc c) i st = Some (st\<lparr>links := h''\<rparr>)" using b h'(1) r(1) by simp
  ultimately show ?case using r(2) by metis
qed

lemma remove_blocks_spec:
  assumes "lists_ok (links st) n ls F" "k < n"
    and "a \<noteq> 0" "unat a + 4096 \<le> 2 ^ 32" "arena_at st a = Some A" "a_desc A = Some k" "desc_ok (descs st ! k)"
    and "i + c \<le> blocks_per_arena (descs st ! k)"
    and "\<forall>j \<in> {i..<i + c}. block_addr (descs st ! k) a j \<in> set (F k)"
  shows "\<exists>h'. remove_blocks a c i st = Some (st\<lparr>links := h'\<rparr>)
    \<and> lists_ok h' n ls (F(k := filter (\<lambda>b. b \<notin> block_addr (descs st ! k) a ` {i..<i + c}) (F k)))"
  using assms
proof (induction c arbitrary: i st F)
  case 0
  then show ?case by (auto intro!: exI [of _ "links st"])
next
  case (Suc c)
  let ?d = "descs st ! k"
  let ?e = "block_addr ?d a i"
  obtain b where b: "arena_to_block a i st = Some b" "unat b = ?e"
    using arena_to_block_addr [OF Suc.prems(3,4,5,6,7), of i] Suc.prems(8) by auto
  have "?e \<in> set (F k)" using Suc.prems(9) by simp
  then obtain as bs where s: "F k = as @ ?e # bs" by (meson split_list)
  define F' where "F' = F(k := as @ bs)"
  obtain h' x where h': "list_remove (links st) ?e = Some (h', x)" "lists_ok h' n ls F'"
    using lists_remove [OF Suc.prems(1,2) s] unfolding F'_def by blast
  have dist: "distinct (F k)" using dll_distinct lists_okD(1) [OF Suc.prems(1,2)] by blast
  then have "filter (\<lambda>b. b \<noteq> ?e) as = as" "filter (\<lambda>b. b \<noteq> ?e) bs = bs" using s by (auto intro!: filter_True)
  then have fl: "as @ bs = filter (\<lambda>b. b \<noteq> ?e) (F k)" using s by simp
  let ?st = "st\<lparr>links := h'\<rparr>"
  have ins: "\<forall>j \<in> {Suc i..<Suc i + c}. block_addr ?d a j \<in> set (F' k)"
    using Suc.prems(9) block_addr_inj [OF Suc.prems(7)] by (auto simp: F'_def fl)
  have "\<exists>h''. remove_blocks a c (Suc i) ?st = Some (?st\<lparr>links := h''\<rparr>)
      \<and> lists_ok h'' n ls (F'(k := filter (\<lambda>b. b \<notin> block_addr (descs ?st ! k) a ` {Suc i..<Suc i + c}) (F' k)))"
    by (rule Suc.IH [where F = F' and st = ?st and i = "Suc i"]) (use h'(2) Suc.prems(2-8) ins in simp_all)
  then obtain h'' where r: "remove_blocks a c (Suc i) ?st = Some (st\<lparr>links := h''\<rparr>)"
    "lists_ok h'' n ls (F'(k := filter (\<lambda>b. b \<notin> block_addr ?d a ` {Suc i..<Suc i + c}) (F' k)))" by auto
  have "{i..<i + Suc c} = insert i {Suc i..<Suc i + c}" by auto
  then have "filter (\<lambda>b. b \<notin> block_addr ?d a ` {Suc i..<Suc i + c}) (as @ bs) = filter (\<lambda>b. b \<notin> block_addr ?d a ` {i..<i + Suc c}) (F k)"
    unfolding fl by (simp add: conj_commute)
  then have "F'(k := filter (\<lambda>b. b \<notin> block_addr ?d a ` {Suc i..<Suc i + c}) (F' k))
      = F(k := filter (\<lambda>b. b \<notin> block_addr ?d a ` {i..<i + Suc c}) (F k))"
    unfolding F'_def by (simp only: fun_upd_upd fun_upd_same)
  moreover have "remove_blocks a (Suc c) i st = Some (st\<lparr>links := h''\<rparr>)" using b h'(1) r(1) by simp
  ultimately show ?case using r(2) by metis
qed

subsection \<open>The shape of the heap\<close>

abbreviation kaddr :: "machine \<Rightarrow> nat \<Rightarrow> u32" where
  "kaddr m \<equiv> page_addr (kernel_pool m)"

abbreviation kbits :: "machine \<Rightarrow> bool list" where
  "kbits m \<equiv> bits_of (used_map (kernel_pool m))"

definition arena_len :: "arena \<Rightarrow> nat" where
  "arena_len A = (if a_desc A = None then free_cnt A else 1)"

definition span :: "u32 \<Rightarrow> arena \<Rightarrow> nat set" where
  "span a A = {unat a..<unat a + 4096 * arena_len A}"

definition arena_ok :: "block_heap \<Rightarrow> (nat \<Rightarrow> ptr list) \<Rightarrow> u32 \<Rightarrow> arena \<Rightarrow> bool" where
  "arena_ok st F a A = ((\<exists>k. a = kaddr (hm st) k \<and> 0 < arena_len A \<and> group_at (kbits (hm st)) k (arena_len A) True)
     \<and> (\<forall>i. a_desc A = Some i \<longrightarrow> i < length (descs st)
          \<and> free_cnt A = length (filter (\<lambda>b. b \<in> set (block_addrs (descs st ! i) a)) (F i))))"

definition arenas_ok :: "block_heap \<Rightarrow> (nat \<Rightarrow> ptr list) \<Rightarrow> bool" where
  "arenas_ok st F = (palloc_ok (hm st) \<and> (\<forall>i < length (descs st). desc_ok (descs st ! i))
     \<and> (\<forall>a A. arena_at st a = Some A \<longrightarrow> arena_ok st F a A)
     \<and> (\<forall>a A a' A'. arena_at st a = Some A \<and> arena_at st a' = Some A' \<and> a \<noteq> a' \<longrightarrow> span a A \<inter> span a' A' = {})
     \<and> (\<forall>i < length (descs st). \<forall>b \<in> set (F i). \<exists>a A. arena_at st a = Some A \<and> a_desc A = Some i \<and> b \<in> set (block_addrs (descs st ! i) a)))"

definition heap_core :: "block_heap \<Rightarrow> (nat \<Rightarrow> ptr list) \<Rightarrow> bool" where
  "heap_core st F = (arenas_ok st F \<and> lists_ok (links st) (length (descs st)) (\<lambda>i. free_list (descs st ! i)) F
     \<and> (\<forall>i < length (descs st). tail_of (free_list (descs st ! i)) < unat (pool_base (kernel_pool (hm st)))))"

text \<open>No lock is held outside the operations.\<close>

definition heap_ok :: "block_heap \<Rightarrow> (nat \<Rightarrow> ptr list) \<Rightarrow> bool" where
  "heap_ok st F = (heap_core st F \<and> (\<forall>i < length (descs st). \<not> d_held (descs st ! i)))"

definition allocated :: "block_heap \<Rightarrow> (nat \<Rightarrow> ptr list) \<Rightarrow> nat \<Rightarrow> nat \<Rightarrow> bool" where
  "allocated st F b c = (\<exists>a A. arena_at st a = Some A \<and> (case a_desc A of
       None \<Rightarrow> b = unat a + 12 \<and> c = 4096 * free_cnt A - 12
     | Some i \<Rightarrow> b \<in> set (block_addrs (descs st ! i) a) \<and> b \<notin> set (F i) \<and> c = d_block_size (descs st ! i)))"

lemma arenas_okD:
  assumes "arenas_ok st F"
  shows "palloc_ok (hm st)" "i < length (descs st) \<Longrightarrow> desc_ok (descs st ! i)" "arena_at st a = Some A \<Longrightarrow> arena_ok st F a A"
    "arena_at st a = Some A \<Longrightarrow> arena_at st a' = Some A' \<Longrightarrow> a \<noteq> a' \<Longrightarrow> span a A \<inter> span a' A' = {}"
    "i < length (descs st) \<Longrightarrow> b \<in> set (F i) \<Longrightarrow> \<exists>a A. arena_at st a = Some A \<and> a_desc A = Some i \<and> b \<in> set (block_addrs (descs st ! i) a)"
  using assms by (simp_all add: arenas_ok_def)

lemma arena_facts:
  assumes "palloc_ok (hm st)" "arena_ok st F a A"
  shows "a \<noteq> 0" "pg_ofs a = 0" "unat a + 4096 * arena_len A < 2 ^ 32" "mapped (ram (hm st)) (unat a) (4096 * arena_len A)"
    "unat (pool_base (kernel_pool (hm st))) \<le> unat a" "0 < arena_len A" "unat a + 4096 < 2 ^ 32"
proof -
  let ?p = "kernel_pool (hm st)"
  obtain k where k: "a = kaddr (hm st) k" "0 < arena_len A" "group_at (kbits (hm st)) k (arena_len A) True"
    using assms(2) by (auto simp: arena_ok_def)
  have p: "pool_ok (ram (hm st)) ?p" using assms(1) by (simp add: palloc_ok_def)
  have l: "k + arena_len A \<le> bit_cnt (used_map ?p)" using k(3) by (simp add: group_at_def)
  then have k': "k < bit_cnt (used_map ?p)" using k(2) by simp
  show "a \<noteq> 0" "pg_ofs a = 0" using page_addr_facts [OF p k'] k(1) by simp_all
  have u: "unat a = unat (pool_base ?p) + 4096 * k" using unat_page_addr [OF p, of k] k' k(1) by simp
  then show "unat (pool_base ?p) \<le> unat a" by simp
  show c: "unat a + 4096 * arena_len A < 2 ^ 32" using u l p by (simp add: pool_ok_def)
  show "0 < arena_len A" by (rule k(2))
  then show "unat a + 4096 < 2 ^ 32" using c by simp
  show "mapped (ram (hm st)) (unat a) (4096 * arena_len A)" using pages_mapped [OF p l] k(1) by simp
qed

subsection \<open>Blocks of an arena\<close>

lemma arena_block:
  assumes ok: "arenas_ok st F" and A: "arena_at st a = Some A" "a_desc A = Some i" and b: "b \<in> set (block_addrs (descs st ! i) a)"
  shows "desc_ok (descs st ! i)" "i < length (descs st)" "unat a + 12 \<le> b" "b + d_block_size (descs st ! i) \<le> unat a + 4096"
    "{b..<b + d_block_size (descs st ! i)} \<subseteq> span a A" "b \<in> span a A"
    "unat w = b \<Longrightarrow> block_to_arena w st = Some a"
proof -
  let ?d = "descs st ! i"
  show i: "i < length (descs st)" using arenas_okD(3) [OF ok A(1)] A(2) by (simp add: arena_ok_def)
  then show d: "desc_ok ?d" by (rule arenas_okD(2) [OF ok])
  obtain j where j: "b = block_addr ?d a j" "j < blocks_per_arena ?d" using b by (auto simp: block_addrs_def)
  note f = block_fits [OF d j(2)]
  show b1: "unat a + 12 \<le> b" "b + d_block_size ?d \<le> unat a + 4096" using f by (simp_all add: j(1) block_addr_def)
  then show s: "{b..<b + d_block_size ?d} \<subseteq> span a A" using A(2) by (auto simp: span_def arena_len_def)
  show "b \<in> span a A" using b1 d A(2) by (simp add: span_def arena_len_def desc_ok_def)
  assume w: "unat w = b"
  note af = arena_facts [OF arenas_okD(1) [OF ok] arenas_okD(3) [OF ok A(1)]]
  have "12 + j * d_block_size ?d < 4096" using f d by (simp add: desc_ok_def)
  then have p: "pg_round_down w = a" "unat (pg_ofs w) = 12 + j * d_block_size ?d"
    using in_page [OF af(2), of w "12 + j * d_block_size ?d"] w j(1) by (simp_all add: block_addr_def add.assoc)
  then have "unat (pg_ofs w - word_of_nat ARENA_SIZE) = j * d_block_size ?d"
    by (simp add: unat_sub ARENA_SIZE_def word_le_nat_alt)
  then show "block_to_arena w st = Some a" using af(1) A p(1) by (simp add: block_to_arena_def)
qed

lemma big_block:
  assumes ok: "arenas_ok st F" and A: "arena_at st a = Some A" "a_desc A = None"
  shows "{unat a + 12..<unat a + 12 + (4096 * free_cnt A - 12)} \<subseteq> span a A" "0 < free_cnt A" "unat (a + word_of_nat ARENA_SIZE) = unat a + 12"
    "unat w = unat a + 12 \<Longrightarrow> block_to_arena w st = Some a"
proof -
  note af = arena_facts [OF arenas_okD(1) [OF ok] arenas_okD(3) [OF ok A(1)]]
  show c: "0 < free_cnt A" using af(6) A(2) by (simp add: arena_len_def)
  then show "{unat a + 12..<unat a + 12 + (4096 * free_cnt A - 12)} \<subseteq> span a A" using A(2) by (auto simp: span_def arena_len_def)
  show "unat (a + word_of_nat ARENA_SIZE) = unat a + 12" using af(7) by (simp add: unat_word_ariths ARENA_SIZE_def)
  assume w: "unat w = unat a + 12"
  have p: "pg_round_down w = a" "unat (pg_ofs w) = 12" using in_page [OF af(2) w] by simp_all
  then have "pg_ofs w = word_of_nat ARENA_SIZE" by (intro unsigned_word_eqI) (simp add: ARENA_SIZE_def)
  then show "block_to_arena w st = Some a" using af(1) A p(1) by (simp add: block_to_arena_def)
qed

lemma one_arena:
  "arenas_ok st F \<Longrightarrow> arena_at st a = Some A \<Longrightarrow> arena_at st a' = Some A' \<Longrightarrow> x \<in> span a A \<Longrightarrow> x \<in> span a' A' \<Longrightarrow> a = a'"
  using arenas_okD(4) by blast

lemma allocated_span:
  assumes ok: "arenas_ok st F" and al: "allocated st F b c"
  shows "\<exists>a A. arena_at st a = Some A \<and> {b..<b + c} \<subseteq> span a A \<and> b \<in> span a A \<and> unat a + 12 \<le> b \<and> 0 < c
    \<and> (unat w = b \<longrightarrow> block_to_arena w st = Some a)"
proof -
  obtain a A where A: "arena_at st a = Some A" and d: "case a_desc A of None \<Rightarrow> b = unat a + 12 \<and> c = 4096 * free_cnt A - 12
     | Some i \<Rightarrow> b \<in> set (block_addrs (descs st ! i) a) \<and> b \<notin> set (F i) \<and> c = d_block_size (descs st ! i)"
    using al by (auto simp: allocated_def)
  show ?thesis
  proof (cases "a_desc A")
    case None
    then show ?thesis using A d big_block(1,2) [OF ok A None] big_block(4) [OF ok A None, of w] by (intro exI [of _ a] exI [of _ A]) (auto simp: span_def arena_len_def)
  next
    case (Some i)
    then have b: "b \<in> set (block_addrs (descs st ! i) a)" using d by simp
    show ?thesis using A d Some arena_block(1-6) [OF ok A Some b] arena_block(7) [OF ok A Some b, of w] by (intro exI [of _ a] exI [of _ A]) (simp add: desc_ok_def)
  qed
qed

text \<open>Allocated blocks do not overlap.\<close>

lemma allocated_apart:
  assumes ok: "arenas_ok st F" and b: "allocated st F b c" "allocated st F b' c'" and ne: "b \<noteq> b'"
  shows "{b..<b + c} \<inter> {b'..<b' + c'} = {}"
proof -
  obtain a A where A: "arena_at st a = Some A" "{b..<b + c} \<subseteq> span a A" and d: "case a_desc A of None \<Rightarrow> b = unat a + 12 \<and> c = 4096 * free_cnt A - 12
     | Some i \<Rightarrow> b \<in> set (block_addrs (descs st ! i) a) \<and> b \<notin> set (F i) \<and> c = d_block_size (descs st ! i)"
    using b(1) big_block(1) [OF ok] arena_block(5) [OF ok] unfolding allocated_def by (force split: option.splits)
  obtain a' A' where A': "arena_at st a' = Some A'" "{b'..<b' + c'} \<subseteq> span a' A'" and d': "case a_desc A' of None \<Rightarrow> b' = unat a' + 12 \<and> c' = 4096 * free_cnt A' - 12
     | Some i \<Rightarrow> b' \<in> set (block_addrs (descs st ! i) a') \<and> b' \<notin> set (F i) \<and> c' = d_block_size (descs st ! i)"
    using b(2) big_block(1) [OF ok] arena_block(5) [OF ok] unfolding allocated_def by (force split: option.splits)
  show ?thesis
  proof (cases "a = a'")
    case False
    then show ?thesis using arenas_okD(4) [OF ok A(1) A'(1)] A(2) A'(2) by blast
  next
    case True
    then obtain i where i: "a_desc A = Some i" using A(1) A'(1) d d' ne by (cases "a_desc A") auto
    then have bs: "b \<in> set (block_addrs (descs st ! i) a)" "b' \<in> set (block_addrs (descs st ! i) a)" "c = d_block_size (descs st ! i)" "c' = c"
      using True A(1) A'(1) d d' by auto
    show ?thesis using blocks_apart [OF arena_block(1) [OF ok A(1) i bs(1)] bs(1,2) ne] bs(3,4) by auto
  qed
qed

subsection \<open>A new arena\<close>

lemma kernel_group:
  assumes "palloc_ok m" "0 < n"
  shows "(palloc_get_multiple 0 n m = Some (0, m) \<and> \<not> (\<exists>k. group_at (kbits m) k n False)) \<or>
    (\<exists>k b. palloc_get_multiple 0 n m = Some (kaddr m k, set_map False b m) \<and> group_at (kbits m) k n False
      \<and> palloc_ok (set_map False b m) \<and> bits_of b = fill k n True (kbits m))"
proof -
  have z: "False = (0 AND PAL_USER \<noteq> 0)" "0 AND PAL_ASSERT = 0" "(0 AND PAL_ZERO \<noteq> 0) = False" by simp_all
  have pk: "pool_of False m = kernel_pool m" by (simp add: pool_of_def)
  show ?thesis
  proof (cases "\<exists>k. group_at (kbits m) k n False")
    case False
    then show ?thesis using palloc_get_none [OF assms z(1)] z(2) by (simp add: pk)
  next
    case True
    then obtain k st1 where get: "palloc_get_multiple 0 n m = Some (kaddr m k, st1)" and t: "page_group_taken 0 n k m st1"
      using palloc_get_found [OF assms z(1)] unfolding pk by blast
    from t [unfolded page_group_taken_def Let_def z(1) [symmetric] z(3) if_False pk] obtain b where
      "st1 = (set_map False b m)\<lparr>ram := ram m\<rparr>" "bits_of b = fill k n True (kbits m)" "group_at (kbits m) k n False" "palloc_ok st1" by blast
    then show ?thesis using get by (auto simp: set_map_ram)
  qed
qed

lemma kernel_pool_set_map: "kernel_pool (set_map False b m) = (kernel_pool m)\<lparr>used_map := b\<rparr>"
  by (simp add: set_map_def)

lemma put_arena_fields [simp]:
  "hm (put_arena a A st) = hm st" "links (put_arena a A st) = links st" "descs (put_arena a A st) = descs st"
  "arena_at (put_arena a A st) = (arena_at st)(a := A)"
  by (simp_all add: put_arena_def)

lemma group_taken_mono: "group_at xs k' n' True \<Longrightarrow> group_at (fill k n True xs) k' n' True"
  by (auto simp: group_at_def)

lemma free_group_apart:
  assumes "group_at xs k n False" "group_at xs k' n' True" "0 < n" "0 < n'"
  shows "k' + n' \<le> k \<or> k + n \<le> k'"
proof (rule ccontr)
  assume "\<not> ?thesis"
  then have "k \<le> max k k'" "max k k' < k + n" "k' \<le> max k k'" "max k k' < k' + n'" using assms(3,4) by auto
  then show False using assms(1,2) unfolding group_at_def by blast
qed

lemma new_span:
  assumes ok: "arenas_ok st F" and g: "group_at (kbits (hm st)) k (arena_len A) False" "0 < arena_len A"
    and a': "arena_at st a' = Some A'"
  shows "span a' A' \<inter> span (kaddr (hm st) k) A = {}" "a' \<noteq> kaddr (hm st) k"
proof -
  let ?p = "kernel_pool (hm st)"
  obtain k' where k': "a' = kaddr (hm st) k'" "0 < arena_len A'" "group_at (kbits (hm st)) k' (arena_len A') True"
    using arenas_okD(3) [OF ok a'] by (auto simp: arena_ok_def)
  have p: "pool_ok (ram (hm st)) ?p" using arenas_okD(1) [OF ok] by (simp add: palloc_ok_def)
  have u: "unat (kaddr (hm st) k) = unat (pool_base ?p) + 4096 * k" "unat a' = unat (pool_base ?p) + 4096 * k'"
    using g(1) k'(3) unfolding k'(1) by (auto simp: group_at_def intro!: unat_page_addr [OF p])
  have "k' + arena_len A' \<le> k \<or> k + arena_len A \<le> k'" using free_group_apart [OF g(1) k'(3) g(2) k'(2)] .
  then have "unat a' + 4096 * arena_len A' \<le> unat (kaddr (hm st) k) \<or> unat (kaddr (hm st) k) + 4096 * arena_len A \<le> unat a'"
    unfolding u by auto
  then show "span a' A' \<inter> span (kaddr (hm st) k) A = {}" by (auto simp: span_def)
  then show "a' \<noteq> kaddr (hm st) k" using g(2) k'(2) by (auto simp: span_def)
qed

lemma block_in_span:
  "desc_ok (descs st ! i) \<Longrightarrow> a_desc A = Some i \<Longrightarrow> b \<in> set (block_addrs (descs st ! i) a) \<Longrightarrow> b \<in> span a A"
  using block_fits [of "descs st ! i"] by (fastforce simp: block_addrs_def block_addr_def span_def arena_len_def desc_ok_def)

lemma add_arena:
  assumes ok: "arenas_ok st F" and g: "group_at (kbits (hm st)) k (arena_len A) False" "0 < arena_len A"
    and b: "palloc_ok (set_map False b (hm st))" "bits_of b = fill k (arena_len A) True (kbits (hm st))"
    and A: "\<forall>i. a_desc A = Some i \<longrightarrow> i < length (descs st) \<and> free_cnt A = blocks_per_arena (descs st ! i)"
    and a: "a = kaddr (hm st) k" and st1: "st1 = put_arena a (Some A) (st\<lparr>hm := set_map False b (hm st)\<rparr>)"
    and F1: "F1 = (case a_desc A of None \<Rightarrow> F | Some i \<Rightarrow> F(i := F i @ block_addrs (descs st ! i) a))"
  shows "arenas_ok st1 F1"
proof -
  have f: "hm st1 = set_map False b (hm st)" "descs st1 = descs st" "arena_at st1 = (arena_at st)(a := Some A)" "kaddr (hm st1) = kaddr (hm st)"
    "kbits (hm st1) = fill k (arena_len A) True (kbits (hm st))" by (auto simp: st1 kernel_pool_set_map b(2) page_addr_def)
  note ns = new_span [OF ok g]
  have none: "arena_at st a = None" using ns(2) a by (cases "arena_at st a") auto
  have F1i: "set (F1 i) \<subseteq> set (F i) \<union> {x. a_desc A = Some i \<and> x \<in> set (block_addrs (descs st ! i) a)}" for i
    by (auto simp: F1 split: option.splits if_splits)
  have own: "x \<in> span a A" if "a_desc A = Some i" "x \<in> set (block_addrs (descs st ! i) a)" for i x
    using block_in_span [OF arenas_okD(2) [OF ok]] A that by blast
  have old: "arena_ok st1 F1 a' A'" if a': "arena_at st a' = Some A'" for a' A'
  proof -
    note o' = arenas_okD(3) [OF ok a', unfolded arena_ok_def]
    have "filter (\<lambda>x. x \<in> set (block_addrs (descs st ! i) a')) (F1 i) = filter (\<lambda>x. x \<in> set (block_addrs (descs st ! i) a')) (F i)"
      if i: "a_desc A' = Some i" for i
    proof (cases "a_desc A = Some i")
      case True
      have "x \<notin> set (block_addrs (descs st ! i) a')" if "x \<in> set (block_addrs (descs st ! i) a)" for x
        using own [OF True that] arena_block(6) [OF ok a' i] ns(1) [OF a'] unfolding a by blast
      then show ?thesis using True by (simp add: F1)
    next
      case False
      then show ?thesis by (auto simp: F1 split: option.splits)
    qed
    moreover obtain k' where "a' = kaddr (hm st) k'" "0 < arena_len A'" "group_at (kbits (hm st)) k' (arena_len A') True" using o' by blast
    ultimately show ?thesis using o' group_taken_mono [of "kbits (hm st)" k' "arena_len A'"] unfolding arena_ok_def f(2-5)
      by (intro conjI exI [of _ k']) simp_all
  qed
  have new: "arena_ok st1 F1 a A"
  proof -
    have "group_at (fill k (arena_len A) True (kbits (hm st))) k (arena_len A) True"
      using g(1) by (intro group_fill) (simp add: group_at_def)
    moreover have "length (filter (\<lambda>x. x \<in> set (block_addrs (descs st ! i) a)) (F1 i)) = free_cnt A" if i: "a_desc A = Some i" for i
    proof -
      have "x \<notin> set (block_addrs (descs st ! i) a)" if fx: "x \<in> set (F i)" for x
      proof
        assume "x \<in> set (block_addrs (descs st ! i) a)"
        then have "x \<in> span a A" by (rule own [OF i])
        moreover obtain a' A' where "arena_at st a' = Some A'" "a_desc A' = Some i" "x \<in> set (block_addrs (descs st ! i) a')"
          using arenas_okD(5) [OF ok _ fx] A i by blast
        ultimately show False using arena_block(6) [OF ok] ns(1) unfolding a by blast
      qed
      then show ?thesis using A i by (simp add: F1 block_addrs_def filter_empty_conv)
    qed
    ultimately show ?thesis using g(2) A a unfolding arena_ok_def f(2-5) by auto
  qed
  have free: "\<exists>a' A'. arena_at st1 a' = Some A' \<and> a_desc A' = Some i \<and> x \<in> set (block_addrs (descs st1 ! i) a')"
    if "i < length (descs st)" "x \<in> set (F1 i)" for i x
  proof (cases "x \<in> set (F i)")
    case True
    then show ?thesis using arenas_okD(5) [OF ok that(1)] none unfolding f by (metis fun_upd_other option.distinct(1))
  next
    case False
    then show ?thesis using that(2) F1i [of i] unfolding f by (intro exI [of _ a] exI [of _ A]) auto
  qed
  show ?thesis unfolding arenas_ok_def
  proof (intro conjI allI impI ballI)
    show "palloc_ok (hm st1)" using b(1) f(1) by simp
    show "desc_ok (descs st1 ! i)" if "i < length (descs st1)" for i using ok that f(2) by (simp add: arenas_ok_def)
    show "arena_ok st1 F1 a' A'" if "arena_at st1 a' = Some A'" for a' A'
      using that old new unfolding f(3) by (auto split: if_splits)
    show "span a1 A1 \<inter> span a2 A2 = {}" if "arena_at st1 a1 = Some A1 \<and> arena_at st1 a2 = Some A2 \<and> a1 \<noteq> a2" for a1 A1 a2 A2
      using that arenas_okD(4) [OF ok, of a1 A1 a2 A2] ns(1) [of a1 A1] ns(1) [of a2 A2] unfolding f(3) a by (auto split: if_splits)
  qed (use free f(2) in auto)
qed

lemma ex_upd_new: "m a = None \<Longrightarrow> (\<exists>a' A'. (m(a := Some A)) a' = Some A' \<and> P a' A') \<longleftrightarrow> P a A \<or> (\<exists>a' A'. m a' = Some A' \<and> P a' A')"
  by (auto split: if_splits) (metis option.distinct(1))

lemma add_arena_allocated:
  assumes ok: "arenas_ok st F" and g: "group_at (kbits (hm st)) k (arena_len A) False" "0 < arena_len A"
    and A: "\<forall>i. a_desc A = Some i \<longrightarrow> i < length (descs st)"
    and a: "a = kaddr (hm st) k" and st1: "st1 = put_arena a (Some A) (st\<lparr>hm := m\<rparr>)"
    and F1: "F1 = (case a_desc A of None \<Rightarrow> F | Some i \<Rightarrow> F(i := F i @ block_addrs (descs st ! i) a))"
  shows "allocated st1 F1 b c \<longleftrightarrow> allocated st F b c \<or> a_desc A = None \<and> b = unat a + 12 \<and> c = 4096 * free_cnt A - 12"
proof -
  note ns = new_span [OF ok g]
  have none: "arena_at st a = None" using ns(2) a by (cases "arena_at st a") auto
  have keep: "x \<in> set (F1 i) \<longleftrightarrow> x \<in> set (F i)"
    if "arena_at st a' = Some A'" "a_desc A' = Some i" "x \<in> set (block_addrs (descs st ! i) a')" for a' A' i x
  proof -
    have "x \<notin> span a A" using arena_block(6) [OF ok that] ns(1) [OF that(1)] unfolding a by blast
    then have "\<not> (a_desc A = Some i \<and> x \<in> set (block_addrs (descs st ! i) a))"
      using block_in_span [OF arenas_okD(2) [OF ok]] A by blast
    then show ?thesis by (auto simp: F1 split: option.splits)
  qed
  let ?P = "\<lambda>F a A. case a_desc A of None \<Rightarrow> b = unat a + 12 \<and> c = 4096 * free_cnt A - 12
     | Some i \<Rightarrow> b \<in> set (block_addrs (descs st ! i) a) \<and> b \<notin> set (F i) \<and> c = d_block_size (descs st ! i)"
  have "?P F1 a' A' = ?P F a' A'" if "arena_at st a' = Some A'" for a' A'
    using keep [OF that] by (auto split: option.splits)
  then have "(\<exists>a' A'. arena_at st a' = Some A' \<and> ?P F1 a' A') = (\<exists>a' A'. arena_at st a' = Some A' \<and> ?P F a' A')" by blast
  moreover have "?P F1 a A \<longleftrightarrow> a_desc A = None \<and> b = unat a + 12 \<and> c = 4096 * free_cnt A - 12"
    by (auto simp: F1 split: option.splits)
  moreover have "(\<exists>a' A'. ((arena_at st)(a := Some A)) a' = Some A' \<and> ?P F1 a' A') \<longleftrightarrow> ?P F1 a A \<or> (\<exists>a' A'. arena_at st a' = Some A' \<and> ?P F1 a' A')"
    by (rule ex_upd_new) (rule none)
  moreover have "arena_at (st\<lparr>hm := m\<rparr>) = arena_at st" "descs (st\<lparr>hm := m\<rparr>) = descs st" by simp_all
  ultimately show ?thesis unfolding allocated_def st1 put_arena_fields by (simp only: disj_commute)
qed

subsection \<open>Taking and giving back a block of an arena\<close>

lemma change_free_list:
  assumes ok: "arenas_ok st F" and A: "arena_at st a = Some A" "a_desc A = Some i"
    and xs: "filter (\<lambda>b. b \<notin> set (block_addrs (descs st ! i) a)) xs = filter (\<lambda>b. b \<notin> set (block_addrs (descs st ! i) a)) (F i)"
    and cnt: "cnt = length (filter (\<lambda>b. b \<in> set (block_addrs (descs st ! i) a)) xs)"
  shows "arenas_ok (put_arena a (Some (A\<lparr>free_cnt := cnt\<rparr>)) (st\<lparr>links := h\<rparr>)) (F(i := xs))" (is "arenas_ok ?st ?F")
proof -
  let ?A = "A\<lparr>free_cnt := cnt\<rparr>" and ?B = "set (block_addrs (descs st ! i) a)"
  have f: "hm ?st = hm st" "descs ?st = descs st" "arena_at ?st = (arena_at st)(a := Some ?A)" by simp_all
  have i: "i < length (descs st)" using arenas_okD(3) [OF ok A(1)] A(2) by (simp add: arena_ok_def)
  have sp: "span a ?A = span a A" "arena_len ?A = arena_len A" using A(2) by (simp_all add: span_def arena_len_def)
  have same: "filter (\<lambda>b. b \<in> set (block_addrs (descs st ! i) a')) xs = filter (\<lambda>b. b \<in> set (block_addrs (descs st ! i) a')) (F i)"
    if a': "arena_at st a' = Some A'" "a_desc A' = Some i" "a' \<noteq> a" for a' A'
  proof -
    have "b \<notin> ?B" if "b \<in> set (block_addrs (descs st ! i) a')" for b
      using arena_block(6) [OF ok a'(1,2) that] arena_block(6) [OF ok A] arenas_okD(4) [OF ok a'(1) A(1) a'(3)] by blast
    then have "filter (\<lambda>b. b \<in> set (block_addrs (descs st ! i) a')) ys
        = filter (\<lambda>b. b \<in> set (block_addrs (descs st ! i) a')) (filter (\<lambda>b. b \<notin> ?B) ys)" for ys
      by (auto intro: filter_cong)
    then show ?thesis using xs by metis
  qed
  have arenas: "arena_ok ?st ?F a' A'" if "arena_at ?st a' = Some A'" for a' A'
  proof (cases "a' = a")
    case True
    then have "A' = ?A" using that by (simp add: f)
    then show ?thesis using arenas_okD(3) [OF ok A(1)] A(2) i cnt sp True unfolding arena_ok_def f by simp
  next
    case False
    then have a': "arena_at st a' = Some A'" using that by (simp add: f)
    have "filter (\<lambda>b. b \<in> set (block_addrs (descs st ! j) a')) (?F j) = filter (\<lambda>b. b \<in> set (block_addrs (descs st ! j) a')) (F j)"
      if "a_desc A' = Some j" for j using same [OF a' _ False] that by (cases "j = i") auto
    then show ?thesis using arenas_okD(3) [OF ok a'] unfolding arena_ok_def f by simp
  qed
  have free: "\<exists>a' A'. arena_at ?st a' = Some A' \<and> a_desc A' = Some j \<and> b \<in> set (block_addrs (descs st ! j) a')"
    if j: "j < length (descs st)" "b \<in> set (?F j)" for j b
  proof (cases "j = i \<and> b \<in> ?B")
    case True
    then show ?thesis using A(2) unfolding f by (intro exI [of _ a] exI [of _ ?A]) simp
  next
    case False
    have "b \<in> set (F j)"
    proof (cases "j = i")
      case True
      then have "b \<in> set (filter (\<lambda>b. b \<notin> ?B) xs)" using False j(2) by simp
      then show ?thesis unfolding xs using True by simp
    qed (use j(2) in simp)
    then obtain a' A' where a': "arena_at st a' = Some A'" "a_desc A' = Some j" "b \<in> set (block_addrs (descs st ! j) a')"
      using arenas_okD(5) [OF ok j(1)] by blast
    moreover have "a' \<noteq> a" using False a' A by auto
    ultimately show ?thesis unfolding f by (intro exI [of _ a'] exI [of _ A']) simp
  qed
  show ?thesis unfolding arenas_ok_def
  proof (intro conjI allI impI ballI)
    show "span a1 A1 \<inter> span a2 A2 = {}" if "arena_at ?st a1 = Some A1 \<and> arena_at ?st a2 = Some A2 \<and> a1 \<noteq> a2" for a1 A1 a2 A2
      using that arenas_okD(4) [OF ok, of a1 _ a2] A(1) sp(1) unfolding f by (auto split: if_splits)
  qed (use arenas free arenas_okD(1,2) [OF ok] f in auto)
qed

lemma ex_upd_same:
  "m a = Some A \<Longrightarrow> P a A = P a A2 \<Longrightarrow> (\<exists>a' A'. (m(a := Some A2)) a' = Some A' \<and> P a' A') \<longleftrightarrow> (\<exists>a' A'. m a' = Some A' \<and> P a' A')"
  by (metis fun_upd_other fun_upd_same option.inject)

lemma free_blocks_bound:
  assumes "desc_ok d" "distinct xs"
  shows "length (filter (\<lambda>b. b \<in> set (block_addrs d a)) xs) \<le> blocks_per_arena d"
proof -
  have "length (filter (\<lambda>b. b \<in> set (block_addrs d a)) xs) = card (set (filter (\<lambda>b. b \<in> set (block_addrs d a)) xs))"
    by (rule distinct_card [OF distinct_filter [OF assms(2)], symmetric])
  also have "\<dots> \<le> card (set (block_addrs d a))" by (intro card_mono) auto
  also have "\<dots> = blocks_per_arena d" using distinct_card [OF distinct_blocks [OF assms(1)]] by (simp add: block_addrs_def)
  finally show ?thesis .
qed

lemma heap_links_fields: "arena_at (st\<lparr>links := h\<rparr>) = arena_at st" "descs (st\<lparr>links := h\<rparr>) = descs st"
  by simp_all

definition with_count :: "u32 \<Rightarrow> arena \<Rightarrow> nat \<Rightarrow> store \<Rightarrow> block_heap \<Rightarrow> block_heap" where
  "with_count a A cnt h st = put_arena a (Some (A\<lparr>free_cnt := cnt\<rparr>)) (st\<lparr>links := h\<rparr>)"

lemma change_allocated:
  assumes ok: "arenas_ok st F" and A: "arena_at st a = Some A" "a_desc A = Some i" and p: "p \<in> set (block_addrs (descs st ! i) a)"
  shows "set xs = set (F i) - {p} \<Longrightarrow> allocated (with_count a A cnt h st) (F(i := xs)) b c
      \<longleftrightarrow> allocated st F b c \<or> b = p \<and> c = d_block_size (descs st ! i)"
    and "set xs = insert p (set (F i)) \<Longrightarrow> allocated (with_count a A cnt h st) (F(i := xs)) b c \<longleftrightarrow> allocated st F b c \<and> b \<noteq> p"
proof -
  let ?P = "\<lambda>F a A. case a_desc A of None \<Rightarrow> b = unat a + 12 \<and> c = 4096 * free_cnt A - 12
     | Some i \<Rightarrow> b \<in> set (block_addrs (descs st ! i) a) \<and> b \<notin> set (F i) \<and> c = d_block_size (descs st ! i)"
  have al: "allocated (with_count a A cnt h st) F' b c \<longleftrightarrow> (\<exists>a' A'. arena_at st a' = Some A' \<and> ?P F' a' A')" for F'
  proof -
    have "?P F' a A = ?P F' a (A\<lparr>free_cnt := cnt\<rparr>)" using A(2) by simp
    from ex_upd_same [of "arena_at st" a A "?P F'" "A\<lparr>free_cnt := cnt\<rparr>", OF A(1) this] show ?thesis
      unfolding allocated_def with_count_def put_arena_fields heap_links_fields .
  qed
  have alF: "allocated st F b c \<longleftrightarrow> (\<exists>a' A'. arena_at st a' = Some A' \<and> ?P F a' A')" by (simp add: allocated_def)
  show "allocated (with_count a A cnt h st) (F(i := xs)) b c \<longleftrightarrow> allocated st F b c \<or> b = p \<and> c = d_block_size (descs st ! i)"
    if xs: "set xs = set (F i) - {p}"
  proof -
    have "?P (F(i := xs)) a' A' \<longleftrightarrow> ?P F a' A' \<or> a_desc A' = Some i \<and> p \<in> set (block_addrs (descs st ! i) a') \<and> b = p \<and> c = d_block_size (descs st ! i)" for a' A'
      using xs by (auto split: option.splits)
    then show ?thesis unfolding al alF using A p by blast
  qed
  show "allocated (with_count a A cnt h st) (F(i := xs)) b c \<longleftrightarrow> allocated st F b c \<and> b \<noteq> p" if xs: "set xs = insert p (set (F i))"
  proof -
    have "?P (F(i := xs)) a' A' \<longleftrightarrow> ?P F a' A' \<and> b \<noteq> p" if a': "arena_at st a' = Some A'" for a' A'
    proof (cases "a_desc A' = Some i")
      case True
      then show ?thesis using xs by auto
    next
      case False
      then have "a' \<noteq> a" using A a' by auto
      have "b \<noteq> p" if P: "?P F a' A'"
      proof -
        have "b \<in> span a' A'"
          using P big_block(2) [OF ok a'] arena_block(6) [OF ok a'] by (auto simp: span_def arena_len_def split: option.splits)
        then show ?thesis using arena_block(6) [OF ok A p] arenas_okD(4) [OF ok a' A(1) \<open>a' \<noteq> a\<close>] by blast
      qed
      moreover have "?P (F(i := xs)) a' A' = ?P F a' A'" using False by (auto split: option.splits)
      ultimately show ?thesis by blast
    qed
    then show ?thesis unfolding al alF by blast
  qed
qed

lemma heap_coreD:
  assumes "heap_core st F"
  shows "arenas_ok st F" "lists_ok (links st) (length (descs st)) (\<lambda>i. free_list (descs st ! i)) F"
    "i < length (descs st) \<Longrightarrow> distinct (F i)" "i < length (descs st) \<Longrightarrow> tail_of (free_list (descs st ! i)) < unat (pool_base (kernel_pool (hm st)))"
proof -
  have l: "lists_ok (links st) (length (descs st)) (\<lambda>i. free_list (descs st ! i)) F" using assms by (simp add: heap_core_def)
  show "i < length (descs st) \<Longrightarrow> distinct (F i)" using dll_distinct [OF lists_okD(1) [OF l]] .
qed (use assms in \<open>simp_all add: heap_core_def\<close>)

lemma take_block_spec:
  assumes ok: "heap_core st F" and i: "i < length (descs st)" and F: "F i = p # bs"
  shows "\<exists>st'. take_block i st = Some (word_of_nat p, st') \<and> unat (word_of_nat p :: u32) = p \<and> heap_core st' (F(i := bs))
    \<and> hm st' = hm st \<and> descs st' = descs st
    \<and> (\<forall>b c. allocated st' (F(i := bs)) b c \<longleftrightarrow> allocated st F b c \<or> b = p \<and> c = d_block_size (descs st ! i))"
proof -
  note o' = heap_coreD(1,2) [OF ok] and d = arenas_okD(2) [OF heap_coreD(1) [OF ok] i]
  obtain h where h: "list_pop_front (links st) (free_list (descs st ! i)) = Some (h, p)"
    "lists_ok h (length (descs st)) (\<lambda>i. free_list (descs st ! i)) (F(i := bs))" using lists_pop [OF o'(2) i F] by auto
  obtain a A where A: "arena_at st a = Some A" "a_desc A = Some i" and p: "p \<in> set (block_addrs (descs st ! i) a)"
    using arenas_okD(5) [OF o'(1) i, of p] F by auto
  note ab = arena_block(1-6) [OF o'(1) A p]
  have "unat a + 4096 < 2 ^ 32" using arena_facts(7) [OF arenas_okD(1) [OF o'(1)] arenas_okD(3) [OF o'(1) A(1)]] .
  then have p32: "p < 2 ^ 32" using ab(4) by simp
  then have w: "unat (word_of_nat p :: u32) = p" by (simp add: unsigned_of_nat take_bit_nat_eq_self)
  let ?B = "\<lambda>b. b \<in> set (block_addrs (descs st ! i) a)"
  have pd: "p \<notin> set bs" "distinct bs" using heap_coreD(3) [OF ok i] F by auto
  have cnt: "free_cnt A = Suc (length (filter ?B bs))" using arenas_okD(3) [OF o'(1) A(1)] A(2) p F by (simp add: arena_ok_def)
  have "length (filter ?B bs) < 2 ^ 32" using free_blocks_bound [OF d pd(2), of a] few_blocks [OF d] by simp
  then have dec: "usz (free_cnt A + (2 ^ 32 - 1)) = length (filter ?B bs)" unfolding cnt usz_def by simp
  let ?st = "with_count a A (length (filter ?B bs)) h st"
  have b2a: "block_to_arena (word_of_nat p) (st\<lparr>links := h\<rparr>) = Some a"
    using arena_block(7) [OF o'(1) A p w] unfolding block_to_arena_def heap_links_fields .
  have t: "take_block i st = Some (word_of_nat p, ?st)"
    using h(1) b2a A(1) dec by (simp add: take_block_def with_count_def Let_def)
  have "arenas_ok ?st (F(i := bs))" unfolding with_count_def
    by (rule change_free_list [OF o'(1) A]) (use p F in simp_all)
  then have "heap_core ?st (F(i := bs))" using h(2) ok by (simp add: heap_core_def with_count_def)
  moreover have "allocated ?st (F(i := bs)) b c \<longleftrightarrow> allocated st F b c \<or> b = p \<and> c = d_block_size (descs st ! i)" for b c
    by (rule change_allocated(1) [OF o'(1) A p]) (use F pd(1) in auto)
  moreover have "hm ?st = hm st" "descs ?st = descs st" by (simp_all add: with_count_def)
  ultimately show ?thesis using t w by blast
qed

lemma free_not_allocated:
  assumes ok: "arenas_ok st F" and p: "i < length (descs st)" "p \<in> set (F i)"
  shows "\<not> allocated st F p c"
proof
  assume "allocated st F p c"
  then obtain a' A' where a': "arena_at st a' = Some A'" and P: "case a_desc A' of None \<Rightarrow> p = unat a' + 12 \<and> c = 4096 * free_cnt A' - 12
     | Some i \<Rightarrow> p \<in> set (block_addrs (descs st ! i) a') \<and> p \<notin> set (F i) \<and> c = d_block_size (descs st ! i)"
    by (auto simp: allocated_def)
  obtain a A where A: "arena_at st a = Some A" "a_desc A = Some i" "p \<in> set (block_addrs (descs st ! i) a)"
    using arenas_okD(5) [OF ok p] by blast
  have "p \<in> span a' A'"
    using P big_block(2) [OF ok a'] arena_block(6) [OF ok a'] by (auto simp: span_def arena_len_def split: option.splits)
  then have "a' = a" using one_arena [OF ok a' A(1)] arena_block(6) [OF ok A] by blast
  then show False using A a' P p(2) by simp
qed

lemma new_arena_spec:
  assumes ok: "heap_core st F" and i: "i < length (descs st)" and F: "F i = []"
  shows "(new_arena i st = Some (False, st) \<and> \<not> (\<exists>k. group_at (kbits (hm st)) k 1 False)) \<or>
    (\<exists>st' F'. new_arena i st = Some (True, st') \<and> heap_core st' F' \<and> F' i \<noteq> [] \<and> descs st' = descs st
      \<and> ram (hm st') = ram (hm st) \<and> (\<forall>b c. allocated st' F' b c \<longleftrightarrow> allocated st F b c))"
proof -
  note o' = heap_coreD(1,2) [OF ok] and d = arenas_okD(2) [OF heap_coreD(1) [OF ok] i]
  let ?d = "descs st ! i"
  show ?thesis using kernel_group [OF arenas_okD(1) [OF o'(1)] zero_less_one]
  proof (elim disjE exE conjE)
    assume "palloc_get_multiple 0 1 (hm st) = Some (0, hm st)" "\<not> (\<exists>k. group_at (kbits (hm st)) k 1 False)"
    then show ?thesis by (simp add: new_arena_def palloc_get_page_def)
  next
    fix k b
    let ?a = "kaddr (hm st) k" and ?A = "\<lparr>a_desc = Some i, free_cnt = blocks_per_arena ?d\<rparr>"
    assume get: "palloc_get_multiple 0 1 (hm st) = Some (?a, set_map False b (hm st))" and g: "group_at (kbits (hm st)) k 1 False"
      and b: "palloc_ok (set_map False b (hm st))" "bits_of b = fill k 1 True (kbits (hm st))"
    have l: "arena_len ?A = 1" by (simp add: arena_len_def)
    note g' = g [folded l]
    let ?st = "put_arena ?a (Some ?A) (st\<lparr>hm := set_map False b (hm st)\<rparr>)" and ?F = "F(i := F i @ block_addrs ?d ?a)"
    have A: "\<forall>j. a_desc ?A = Some j \<longrightarrow> j < length (descs st) \<and> free_cnt ?A = blocks_per_arena (descs st ! j)" using i by simp
    have F1: "?F = (case a_desc ?A of None \<Rightarrow> F | Some i \<Rightarrow> F(i := F i @ block_addrs (descs st ! i) ?a))" by simp
    have ar: "arenas_ok ?st ?F"
      using add_arena [OF o'(1) g' _ b(1) b(2) [folded l] A refl refl F1] l by simp
    have al: "allocated ?st ?F x c \<longleftrightarrow> allocated st F x c" for x c
      using add_arena_allocated [OF o'(1) g' _ _ refl refl F1] l i by simp
    have aok: "arena_ok ?st ?F ?a ?A" by (rule arenas_okD(3) [OF ar]) simp
    note af = arena_facts [OF arenas_okD(1) [OF ar] aok]
    have pb: "pool_base (kernel_pool (hm ?st)) = pool_base (kernel_pool (hm st))" by (simp add: kernel_pool_set_map)
    have out: "outside_lists (length (descs st)) (\<lambda>i. free_list (descs st ! i)) F (block_addr ?d ?a j)" if j: "j < blocks_per_arena ?d" for j
    proof -
      have m: "block_addr ?d ?a j \<in> set (block_addrs ?d ?a)" using j by (simp add: block_addrs_def)
      have "block_addr ?d ?a j \<notin> set (F j')" if j': "j' < length (descs st)" for j'
      proof
        assume x: "block_addr ?d ?a j \<in> set (F j')"
        obtain a' A' where a': "arena_at st a' = Some A'" "a_desc A' = Some j'" "block_addr ?d ?a j \<in> set (block_addrs (descs st ! j') a')"
          using arenas_okD(5) [OF o'(1) j' x] by blast
        have "block_addr ?d ?a j \<in> span ?a ?A" by (rule block_in_span [OF d _ m]) simp
        then show False using arena_block(6) [OF o'(1) a'] new_span(1) [OF o'(1) g' _ a'(1)] l by auto
      qed
      moreover have "block_addr ?d ?a j \<noteq> head_of (free_list (descs st ! j'))" "block_addr ?d ?a j \<noteq> tail_of (free_list (descs st ! j'))"
        if j': "j' < length (descs st)" for j'
        using heap_coreD(4) [OF ok j'] af(5) unfolding pb by (auto simp: block_addr_def head_of_def tail_of_def)
      ultimately show ?thesis by (auto simp: outside_lists_def cells_def block_addr_def)
    qed
    have sel: "links ?st = links st" "descs ?st = descs st" by simp_all
    have "\<exists>h'. push_blocks ?a (free_list ?d) (blocks_per_arena ?d) 0 ?st = Some (?st\<lparr>links := h'\<rparr>)
      \<and> lists_ok h' (length (descs st)) (\<lambda>i. free_list (descs st ! i)) (F(i := F i @ map (block_addr (descs ?st ! i) ?a) [0..<0 + blocks_per_arena ?d]))"
      by (rule push_blocks_spec [where A = ?A and ls = "\<lambda>i. free_list (descs st ! i)" and n = "length (descs st)"])
        (use o'(2) i af(1,7) d out in auto)
    then obtain h' where h': "push_blocks ?a (free_list ?d) (blocks_per_arena ?d) 0 ?st = Some (?st\<lparr>links := h'\<rparr>)"
      "lists_ok h' (length (descs st)) (\<lambda>i. free_list (descs st ! i)) ?F" by (auto simp: block_addrs_def)
    let ?st' = "?st\<lparr>links := h'\<rparr>"
    have "arenas_ok ?st' ?F" using ar by (simp add: arenas_ok_def arena_ok_def)
    then have "heap_core ?st' ?F" using h'(2) ok pb by (simp add: heap_core_def)
    moreover have "allocated ?st' ?F x c = allocated ?st ?F x c" for x c unfolding allocated_def heap_links_fields ..
    moreover have "new_arena i st = Some (True, ?st')"
      using get af(1) h'(1) by (simp add: new_arena_def palloc_get_page_def Let_def)
    moreover have "?F i \<noteq> []" using d by (simp add: block_addrs_def desc_ok_def)
    ultimately show ?thesis using al by (intro disjI2 exI [of _ ?st'] exI [of _ ?F]) simp
  qed
qed

subsection \<open>Locks\<close>

definition set_held :: "nat \<Rightarrow> bool \<Rightarrow> block_heap \<Rightarrow> block_heap" where
  "set_held i v st = st\<lparr>descs := (descs st)[i := (descs st ! i)\<lparr>d_held := v\<rparr>]\<rparr>"

lemma set_held_fields [simp]:
  "hm (set_held i v st) = hm st" "links (set_held i v st) = links st" "arena_at (set_held i v st) = arena_at st"
  "length (descs (set_held i v st)) = length (descs st)"
  by (simp_all add: set_held_def)

lemma set_held_desc [simp]:
  "d_block_size (descs (set_held i v st) ! j) = d_block_size (descs st ! j)"
  "blocks_per_arena (descs (set_held i v st) ! j) = blocks_per_arena (descs st ! j)"
  "free_list (descs (set_held i v st) ! j) = free_list (descs st ! j)"
proof -
  have "descs (set_held i v st) ! j = descs st ! j \<or> j = i \<and> descs (set_held i v st) ! j = (descs st ! i)\<lparr>d_held := v\<rparr>"
    by (cases "i < length (descs st)") (auto simp: set_held_def nth_list_update list_update_beyond)
  then show "d_block_size (descs (set_held i v st) ! j) = d_block_size (descs st ! j)"
    "blocks_per_arena (descs (set_held i v st) ! j) = blocks_per_arena (descs st ! j)"
    "free_list (descs (set_held i v st) ! j) = free_list (descs st ! j)" by auto
qed

lemma set_held_blocks [simp]:
  "block_addrs (descs (set_held i v st) ! j) a = block_addrs (descs st ! j) a" "desc_ok (descs (set_held i v st) ! j) = desc_ok (descs st ! j)"
  unfolding block_addrs_def block_addr_def [abs_def] desc_ok_def set_held_desc by (rule refl)+

lemma set_held_core: "heap_core (set_held i v st) F = heap_core st F"
  by (simp add: heap_core_def arenas_ok_def arena_ok_def)

lemma set_held_allocated: "allocated (set_held i v st) F b c = allocated st F b c"
  unfolding allocated_def set_held_fields set_held_blocks set_held_desc ..

lemma lock_unlock:
  assumes "i < length (descs st)" "\<not> d_held (descs st ! i)"
  shows "desc_lock i st = Some (set_held i True st)"
    "descs st' = descs (set_held i True st) \<Longrightarrow> desc_unlock i st' = Some (set_held i False st') \<and> descs (set_held i False st') = descs st"
proof -
  show "desc_lock i st = Some (set_held i True st)" using assms by (simp add: desc_lock_def set_held_def)
  assume d: "descs st' = descs (set_held i True st)"
  have "d_held (descs st' ! i)" using assms(1) d by (simp add: set_held_def)
  moreover have "(descs st ! i)\<lparr>d_held := False\<rparr> = descs st ! i" using assms(2) by (cases "descs st ! i") simp
  then have "descs (set_held i False st') = descs st" using assms(1) d by (simp add: set_held_def)
  ultimately show "desc_unlock i st' = Some (set_held i False st') \<and> descs (set_held i False st') = descs st"
    by (simp add: desc_unlock_def set_held_def)
qed

subsection \<open>malloc\<close>

lemma find_desc_spec:
  "find_desc ds n = length ds \<and> (\<forall>d \<in> set ds. d_block_size d < n) \<or>
   find_desc ds n < length ds \<and> n \<le> d_block_size (ds ! find_desc ds n)"
  by (induction ds) auto

text \<open>\<open>block_added\<close>: the block at \<open>p\<close> is new, has room for \<open>n\<close> bytes and overlaps no other.\<close>

definition block_added :: "block_heap \<Rightarrow> (nat \<Rightarrow> ptr list) \<Rightarrow> nat \<Rightarrow> nat \<Rightarrow> block_heap \<Rightarrow> (nat \<Rightarrow> ptr list) \<Rightarrow> bool" where
  "block_added st F p n st' F' = (\<exists>c. n \<le> c \<and> (\<forall>b c'. allocated st' F' b c' \<longleftrightarrow> allocated st F b c' \<or> b = p \<and> c' = c)
     \<and> (\<forall>b c'. allocated st F b c' \<longrightarrow> {b..<b + c'} \<inter> {p..<p + c} = {}))"

lemma new_block_apart:
  assumes "arenas_ok st' F'" "\<forall>b c'. allocated st' F' b c' \<longleftrightarrow> allocated st F b c' \<or> b = p \<and> c' = c" "\<forall>c. \<not> allocated st F p c" "n \<le> c"
  shows "block_added st F p n st' F'"
proof -
  have "{b..<b + c'} \<inter> {p..<p + c} = {}" if "allocated st F b c'" for b c'
    using allocated_apart [OF assms(1), of b c' p c] assms(2,3) that by metis
  then show ?thesis using assms(2,4) unfolding block_added_def by blast
qed

definition pages_needed :: "block_heap \<Rightarrow> nat \<Rightarrow> nat" where
  "pages_needed st n = (if \<exists>d \<in> set (descs st). n \<le> d_block_size d then 1 else (n + 12 + 4095) div 4096)"

lemma malloc_big_pages:
  assumes ok: "heap_core st F" and pc: "unat ((sz + word_of_nat ARENA_SIZE + PGSIZE - 1) div PGSIZE) = n" and n0: "0 < n"
  shows "(malloc_big sz st = Some (0, st) \<and> \<not> (\<exists>k. group_at (kbits (hm st)) k n False)) \<or>
    (\<exists>p st'. malloc_big sz st = Some (p, st') \<and> p \<noteq> 0 \<and> heap_core st' F \<and> descs st' = descs st \<and> ram (hm st') = ram (hm st)
      \<and> (\<forall>c. \<not> allocated st F (unat p) c)
      \<and> (\<forall>b c. allocated st' F b c \<longleftrightarrow> allocated st F b c \<or> b = unat p \<and> c = 4096 * n - 12))"
proof -
  note o' = heap_coreD(1,2) [OF ok]
  show ?thesis using kernel_group [OF arenas_okD(1) [OF o'(1)] n0]
  proof (elim disjE exE conjE)
    assume "palloc_get_multiple 0 n (hm st) = Some (0, hm st)" "\<not> (\<exists>k. group_at (kbits (hm st)) k n False)"
    then show ?thesis by (simp add: malloc_big_def pc)
  next
    fix k b
    let ?a = "kaddr (hm st) k"
    define A where "A = \<lparr>a_desc = None, free_cnt = n\<rparr>"
    assume get: "palloc_get_multiple 0 n (hm st) = Some (?a, set_map False b (hm st))" and g: "group_at (kbits (hm st)) k n False"
      and b: "palloc_ok (set_map False b (hm st))" "bits_of b = fill k n True (kbits (hm st))"
    have l: "arena_len A = n" "a_desc A = None" "free_cnt A = n" by (simp_all add: A_def arena_len_def)
    let ?st = "put_arena ?a (Some A) (st\<lparr>hm := set_map False b (hm st)\<rparr>)"
    have ar: "arenas_ok ?st F"
      using add_arena [OF o'(1) g [folded l(1)] _ b(1) b(2) [folded l(1)] _ refl refl refl] l n0 by simp
    have al: "allocated ?st F x c \<longleftrightarrow> allocated st F x c \<or> x = unat ?a + 12 \<and> c = 4096 * n - 12" for x c
      using add_arena_allocated [OF o'(1) g [folded l(1)] _ _ refl refl refl] l n0 by simp
    have at: "arena_at ?st ?a = Some A" by simp
    note af = arena_facts [OF arenas_okD(1) [OF ar] arenas_okD(3) [OF ar at]]
    have p: "unat (?a + word_of_nat ARENA_SIZE) = unat ?a + 12" using big_block(3) [OF ar at l(2)] .
    have "\<not> allocated st F (unat ?a + 12) c" for c
    proof
      assume "allocated st F (unat ?a + 12) c"
      then obtain a' A' where a': "arena_at st a' = Some A'" "unat ?a + 12 \<in> span a' A'" using allocated_span [OF o'(1)] by blast
      moreover have "unat ?a + 12 \<in> span ?a A" using n0 by (simp add: span_def l)
      ultimately show False using new_span(1) [OF o'(1) g [folded l(1)] _ a'(1)] l n0 by auto
    qed
    moreover have "?a + word_of_nat ARENA_SIZE \<noteq> 0" using p by auto
    moreover have "heap_core ?st F" using ok ar by (simp add: heap_core_def kernel_pool_set_map)
    moreover have "malloc_big sz st = Some (?a + word_of_nat ARENA_SIZE, ?st)" using get af(1) by (simp add: malloc_big_def pc A_def)
    ultimately show ?thesis using al unfolding p [symmetric]
      by (intro disjI2 exI [of _ "?a + word_of_nat ARENA_SIZE"] exI [of _ ?st]) simp
  qed
qed

lemma malloc_big_spec:
  assumes ok: "heap_core st F" and big: "unat sz + 4107 < 2 ^ 32"
  defines "n \<equiv> (unat sz + 12 + 4095) div 4096"
  shows "(malloc_big sz st = Some (0, st) \<and> \<not> (\<exists>k. group_at (kbits (hm st)) k n False)) \<or>
    (\<exists>p st'. malloc_big sz st = Some (p, st') \<and> p \<noteq> 0 \<and> heap_core st' F \<and> descs st' = descs st
      \<and> ram (hm st') = ram (hm st) \<and> block_added st F (unat p) (unat sz) st' F)"
proof -
  have "unat (sz + word_of_nat ARENA_SIZE + PGSIZE - 1) = unat sz + 4107"
    using big by (simp add: ARENA_SIZE_def PGSIZE_4096 unat_word_ariths)
  then have pc: "unat ((sz + word_of_nat ARENA_SIZE + PGSIZE - 1) div PGSIZE) = n" by (simp add: unat_div PGSIZE_4096 n_def)
  have n0: "0 < n" "unat sz \<le> 4096 * n - 12" unfolding n_def by linarith+
  show ?thesis using malloc_big_pages [OF ok pc n0(1)]
  proof (elim disjE exE conjE)
    fix p st'
    assume r: "malloc_big sz st = Some (p, st')" "p \<noteq> 0" "heap_core st' F" "descs st' = descs st" "ram (hm st') = ram (hm st)"
      "\<forall>c. \<not> allocated st F (unat p) c"
      "\<forall>b c. allocated st' F b c \<longleftrightarrow> allocated st F b c \<or> b = unat p \<and> c = 4096 * n - 12"
    have "block_added st F (unat p) (unat sz) st' F" by (rule new_block_apart [OF heap_coreD(1) [OF r(3)] r(7,6) n0(2)])
    then show ?thesis using r by blast
  qed simp
qed

lemma finish_malloc:
  assumes ok: "heap_ok st F" and i: "i < length (descs st)" "n \<le> d_block_size (descs st ! i)"
    and st2: "heap_core st2 F2" "descs st2 = descs (set_held i True st)" "F2 i \<noteq> []"
    and same: "\<forall>b c. allocated st2 F2 b c \<longleftrightarrow> allocated st F b c"
  shows "\<exists>p st' F'. (take_block i st2 \<bind> (\<lambda>(b, st). desc_unlock i st \<bind> (\<lambda>st. Some (b, st)))) = Some (p, st') \<and> p \<noteq> 0
    \<and> heap_ok st' F' \<and> descs st' = descs st \<and> hm st' = hm st2 \<and> block_added st F (unat p) n st' F'"
proof -
  have i2: "i < length (descs st2)" and ds: "d_block_size (descs st2 ! i) = d_block_size (descs st ! i)" using i(1) st2(2) by simp_all
  have nh: "\<not> d_held (descs st ! i)" using ok i(1) by (simp add: heap_ok_def)
  obtain p bs where F2: "F2 i = p # bs" using st2(3) by (cases "F2 i") auto
  obtain st3 where t: "take_block i st2 = Some (word_of_nat p, st3)" "unat (word_of_nat p :: u32) = p" "heap_core st3 (F2(i := bs))"
    "hm st3 = hm st2" "descs st3 = descs st2"
    "\<forall>b c. allocated st3 (F2(i := bs)) b c \<longleftrightarrow> allocated st2 F2 b c \<or> b = p \<and> c = d_block_size (descs st2 ! i)"
    using take_block_spec [OF st2(1) i2 F2] by blast
  let ?st = "set_held i False st3"
  have u: "desc_unlock i st3 = Some ?st" "descs ?st = descs st" using lock_unlock(2) [OF i(1) nh, of st3] t(5) st2(2) by simp_all
  have core: "heap_core ?st (F2(i := bs))" using t(3) by (simp only: set_held_core)
  have na: "\<not> allocated st2 F2 p c" for c by (rule free_not_allocated [OF heap_coreD(1) [OF st2(1)] i2]) (simp add: F2)
  have "block_added st F p n ?st (F2(i := bs))"
    by (rule new_block_apart [OF heap_coreD(1) [OF core], where c = "d_block_size (descs st ! i)"])
      (use t(6) same na i(2) ds in \<open>simp_all add: set_held_allocated\<close>)
  moreover have "heap_ok ?st (F2(i := bs))" using core ok u(2) by (simp add: heap_ok_def)
  moreover have "p \<noteq> 0"
  proof -
    obtain a A where a: "arena_at st2 a = Some A" "a_desc A = Some i" "p \<in> set (block_addrs (descs st2 ! i) a)"
      using arenas_okD(5) [OF heap_coreD(1) [OF st2(1)] i2, of p] F2 by auto
    show ?thesis using arena_block(3) [OF heap_coreD(1) [OF st2(1)] a] by simp
  qed
  then have "(word_of_nat p :: u32) \<noteq> 0" using t(2) by (metis unsigned_0)
  ultimately show ?thesis using t(1,2,4) u
    by (intro exI [of _ "word_of_nat p"] exI [of _ ?st] exI [of _ "F2(i := bs)"]) simp
qed

lemma malloc_spec:
  assumes ok: "heap_ok st F" and sz: "sz \<noteq> 0" "unat sz + 4107 < 2 ^ 32"
  shows "\<exists>p st' F'. malloc sz st = Some (p, st') \<and> heap_ok st' F' \<and> descs st' = descs st \<and> ram (hm st') = ram (hm st)
    \<and> (if p = 0 then st' = st \<and> F' = F \<and> \<not> (\<exists>k. group_at (kbits (hm st)) k (pages_needed st (unat sz)) False)
       else block_added st F (unat p) (unat sz) st' F')"
proof -
  let ?i = "find_desc (descs st) (unat sz)"
  have core: "heap_core st F" using ok by (simp add: heap_ok_def)
  from find_desc_spec [of "descs st" "unat sz"] show ?thesis
  proof (elim disjE conjE)
    assume i: "?i = length (descs st)" "\<forall>d \<in> set (descs st). d_block_size d < unat sz"
    then have pn: "pages_needed st (unat sz) = (unat sz + 12 + 4095) div 4096" by (auto simp: pages_needed_def)
    have m: "malloc sz st = malloc_big sz st" using sz(1) i(1) by (simp add: malloc_def)
    from malloc_big_spec [OF core sz(2)] show ?thesis unfolding m
    proof (elim disjE exE conjE)
      assume "malloc_big sz st = Some (0, st)" "\<not> (\<exists>k. group_at (kbits (hm st)) k ((unat sz + 12 + 4095) div 4096) False)"
      then show "\<exists>p st' F'. malloc_big sz st = Some (p, st') \<and> heap_ok st' F' \<and> descs st' = descs st \<and> ram (hm st') = ram (hm st)
        \<and> (if p = 0 then st' = st \<and> F' = F \<and> \<not> (\<exists>k. group_at (kbits (hm st)) k (pages_needed st (unat sz)) False)
           else block_added st F (unat p) (unat sz) st' F')"
        using ok unfolding pn by (intro exI [of _ 0] exI [of _ st] exI [of _ F]) simp
    next
      fix p st'
      assume b: "malloc_big sz st = Some (p, st')" "p \<noteq> 0" "heap_core st' F" "descs st' = descs st" "ram (hm st') = ram (hm st)"
        "block_added st F (unat p) (unat sz) st' F"
      then have "heap_ok st' F" using ok by (simp add: heap_ok_def)
      then show "\<exists>p st' F'. malloc_big sz st = Some (p, st') \<and> heap_ok st' F' \<and> descs st' = descs st \<and> ram (hm st') = ram (hm st)
        \<and> (if p = 0 then st' = st \<and> F' = F \<and> \<not> (\<exists>k. group_at (kbits (hm st)) k (pages_needed st (unat sz)) False)
           else block_added st F (unat p) (unat sz) st' F')"
        using b by (intro exI [of _ p] exI [of _ st'] exI [of _ F]) simp
    qed
  next
    assume i: "?i < length (descs st)" "unat sz \<le> d_block_size (descs st ! ?i)"
    then have pn: "pages_needed st (unat sz) = 1" using nth_mem [OF i(1)] by (auto simp: pages_needed_def)
    have nh: "\<not> d_held (descs st ! ?i)" using ok i(1) by (simp add: heap_ok_def)
    let ?st1 = "set_held ?i True st"
    note lk = lock_unlock(1) [OF i(1) nh]
    have core1: "heap_core ?st1 F" and i1: "?i < length (descs ?st1)" using core i(1) by (simp_all add: set_held_core)
    have em: "list_empty (links ?st1) (free_list (descs ?st1 ! ?i)) = Some (F ?i = [])"
      using lists_empty [OF heap_coreD(2) [OF core1] i1] .
    have m: "malloc sz st = do {
        (ok, st) \<leftarrow> (if F ?i = [] then new_arena ?i ?st1 else Some (True, ?st1));
        if \<not> ok then do { st \<leftarrow> desc_unlock ?i st; Some (0, st) }
        else do { (b, st) \<leftarrow> take_block ?i st; st \<leftarrow> desc_unlock ?i st; Some (b, st) } }"
      using sz(1) i(1) lk em by (simp add: malloc_def Let_def)
    have same: "\<forall>b c. allocated ?st1 F b c \<longleftrightarrow> allocated st F b c" by (simp add: set_held_allocated)
    have fin: ?thesis
      if n: "(if F ?i = [] then new_arena ?i ?st1 else Some (True, ?st1)) = Some (True, st2)" and st2: "heap_core st2 F2" "descs st2 = descs ?st1"
        "F2 ?i \<noteq> []" "\<forall>b c. allocated st2 F2 b c \<longleftrightarrow> allocated st F b c" "ram (hm st2) = ram (hm st)" for st2 F2
    proof -
      from finish_malloc [OF ok i st2(1-4)] obtain p st' F' where
        r: "(take_block ?i st2 \<bind> (\<lambda>(b, st). desc_unlock ?i st \<bind> (\<lambda>st. Some (b, st)))) = Some (p, st')" "p \<noteq> 0"
        "heap_ok st' F'" "descs st' = descs st" "hm st' = hm st2" "block_added st F (unat p) (unat sz) st' F'" by blast
      have "malloc sz st = Some (p, st')" unfolding m n using r(1) by simp
      then show ?thesis using r st2(5) by (intro exI [of _ p] exI [of _ st'] exI [of _ F']) simp
    qed
    show ?thesis
    proof (cases "F ?i = []")
      case False
      then show ?thesis by (intro fin [OF _ core1 _ _ same]) simp_all
    next
      case True
      from new_arena_spec [OF core1 i1 True] show ?thesis
      proof (elim disjE exE conjE)
        assume n: "new_arena ?i ?st1 = Some (False, ?st1)" "\<not> (\<exists>k. group_at (kbits (hm ?st1)) k 1 False)"
        have u: "desc_unlock ?i ?st1 = Some (set_held ?i False ?st1)" "descs (set_held ?i False ?st1) = descs st"
          using lock_unlock(2) [OF i(1) nh refl] by simp_all
        have e: "set_held ?i False ?st1 = st" using u(2) by (intro block_heap.equality) simp_all
        have "malloc sz st = Some (0, st)" unfolding m using n(1) u(1) True by (simp add: e)
        then show ?thesis using ok n(2) unfolding pn by (intro exI [of _ 0] exI [of _ st] exI [of _ F]) simp
      next
        fix st2 F2
        assume "new_arena ?i ?st1 = Some (True, st2)" "heap_core st2 F2" "F2 ?i \<noteq> []" "descs st2 = descs ?st1"
          "ram (hm st2) = ram (hm ?st1)" "\<forall>b c. allocated st2 F2 b c \<longleftrightarrow> allocated ?st1 F b c"
        then show ?thesis using True by (intro fin [of st2 F2]) (simp_all add: set_held_allocated)
      qed
    qed
  qed
qed

subsection \<open>An arena is given back\<close>

lemma free_pages:
  assumes "palloc_ok m" "0 < n" "group_at (kbits m) k n True"
  shows "\<exists>m'. palloc_free_multiple (kaddr m k) n m = Some m' \<and> palloc_ok m' \<and> kaddr m' = kaddr m
    \<and> pool_base (kernel_pool m') = pool_base (kernel_pool m) \<and> kbits m' = fill k n False (kbits m)
    \<and> (\<forall>x. x \<notin> {unat (kaddr m k)..<unat (kaddr m k) + 4096 * n} \<longrightarrow> ram m' x = ram m x)"
proof -
  have pk: "pool_of False m = kernel_pool m" by (simp add: pool_of_def)
  obtain b where b: "palloc_free_multiple (kaddr m k) n m = Some ((set_map False b m)\<lparr>ram := pages_filled False k n 204 m\<rparr>)"
    "bm_wf b" "bit_cnt b = bit_cnt (used_map (kernel_pool m))" "bits_of b = fill k n False (kbits m)"
    using palloc_free_group [OF assms(1,2), of False k] assms(3) unfolding pk by blast
  let ?m = "(set_map False b m)\<lparr>ram := pages_filled False k n 204 m\<rparr>"
  have "palloc_ok (set_map False b m)" by (rule palloc_ok_set_map [OF assms(1) b(2)]) (simp add: b(3) pk)
  then have "palloc_ok ?m" by (rule palloc_ok_ram) (simp add: pages_filled_def mapped_put)
  moreover have "kaddr ?m = kaddr m" by (rule ext) (simp add: kernel_pool_set_map)
  moreover have "ram ?m x = ram m x" if "x \<notin> {unat (kaddr m k)..<unat (kaddr m k) + 4096 * n}" for x
    using that by (auto simp: pages_filled_def pk put_def)
  ultimately show ?thesis using b(1,4) by (intro exI [of _ ?m]) (simp add: kernel_pool_set_map)
qed

lemma remove_arena:
  assumes ok: "arenas_ok st F" and A: "arena_at st a = Some A" and k: "a = kaddr (hm st) k" "group_at (kbits (hm st)) k (arena_len A) True"
    and m: "palloc_ok m" "kaddr m = kaddr (hm st)" "kbits m = fill k (arena_len A) False (kbits (hm st))"
    and F1: "\<forall>j < length (descs st). F1 j = filter (\<lambda>x. x \<notin> span a A) (F j)"
    and st1: "st1 = put_arena a None (st\<lparr>links := h, hm := m\<rparr>)"
  shows "arenas_ok st1 F1" "allocated st1 F1 b c \<longleftrightarrow> allocated st F b c \<and> b \<notin> span a A"
proof -
  have f: "hm st1 = m" "descs st1 = descs st" "arena_at st1 = (arena_at st)(a := None)" by (simp_all add: st1)
  have kb: "kaddr (hm st1) = kaddr (hm st)" "kbits (hm st1) = fill k (arena_len A) False (kbits (hm st))" using m by (simp_all add: f)
  have apart: "x \<notin> span a A" if a': "arena_at st a' = Some A'" "a' \<noteq> a" "x \<in> span a' A'" for a' A' x
    using arenas_okD(4) [OF ok a'(1) A a'(2)] a'(3) by blast
  have old: "arena_ok st1 F1 a' A'" if a': "arena_at st a' = Some A'" "a' \<noteq> a" for a' A'
  proof -
    obtain k' where k': "a' = kaddr (hm st) k'" "0 < arena_len A'" "group_at (kbits (hm st)) k' (arena_len A') True"
      and c: "\<forall>i. a_desc A' = Some i \<longrightarrow> i < length (descs st) \<and> free_cnt A' = length (filter (\<lambda>b. b \<in> set (block_addrs (descs st ! i) a')) (F i))"
      using arenas_okD(3) [OF ok a'(1)] by (auto simp: arena_ok_def)
    let ?p = "kernel_pool (hm st)"
    have p: "pool_ok (ram (hm st)) ?p" using arenas_okD(1) [OF ok] by (simp add: palloc_ok_def)
    have u: "unat a = unat (pool_base ?p) + 4096 * k" "unat a' = unat (pool_base ?p) + 4096 * k'"
      using k k' by (auto simp: group_at_def intro!: unat_page_addr [OF p])
    have "group_at (fill k (arena_len A) False (kbits (hm st))) k' (arena_len A') True"
    proof -
      have "\<not> (k \<le> j \<and> j < k + arena_len A)" if "k' \<le> j" "j < k' + arena_len A'" for j
      proof
        assume "k \<le> j \<and> j < k + arena_len A"
        then have "unat (pool_base ?p) + 4096 * j \<in> span a A" unfolding span_def u by auto
        moreover have "unat (pool_base ?p) + 4096 * j \<in> span a' A'" using that unfolding span_def u by auto
        ultimately show False using apart [OF a'] by blast
      qed
      then show ?thesis using k'(3) unfolding group_at_def by auto
    qed
    moreover have "filter (\<lambda>b. b \<in> set (block_addrs (descs st ! i) a')) (F1 i) = filter (\<lambda>b. b \<in> set (block_addrs (descs st ! i) a')) (F i)"
      if i: "a_desc A' = Some i" for i
    proof -
      have "x \<notin> span a A" if "x \<in> set (block_addrs (descs st ! i) a')" for x
        using apart [OF a' arena_block(6) [OF ok a'(1) i that]] .
      then show ?thesis using F1 c i by (auto intro: filter_cong)
    qed
    ultimately show ?thesis using k' c unfolding arena_ok_def f(2) kb by (intro conjI exI [of _ k']) simp_all
  qed
  have free: "\<exists>a' A'. arena_at st1 a' = Some A' \<and> a_desc A' = Some i \<and> x \<in> set (block_addrs (descs st ! i) a')"
    if i: "i < length (descs st)" "x \<in> set (F1 i)" for i x
  proof -
    have x: "x \<in> set (F i)" "x \<notin> span a A" using i F1 by auto
    obtain a' A' where a': "arena_at st a' = Some A'" "a_desc A' = Some i" "x \<in> set (block_addrs (descs st ! i) a')"
      using arenas_okD(5) [OF ok i(1) x(1)] by blast
    then have "a' \<noteq> a" using arena_block(6) [OF ok a'] x(2) A by auto
    then show ?thesis using a' unfolding f by (intro exI [of _ a'] exI [of _ A']) simp
  qed
  show "arenas_ok st1 F1" unfolding arenas_ok_def
  proof (intro conjI allI impI ballI)
    show "palloc_ok (hm st1)" using m(1) f(1) by simp
    show "arena_ok st1 F1 a' A'" if "arena_at st1 a' = Some A'" for a' A' using that old unfolding f by (auto split: if_splits)
    show "span a1 A1 \<inter> span a2 A2 = {}" if "arena_at st1 a1 = Some A1 \<and> arena_at st1 a2 = Some A2 \<and> a1 \<noteq> a2" for a1 A1 a2 A2
      using that arenas_okD(4) [OF ok, of a1 A1 a2 A2] unfolding f by (auto split: if_splits)
  qed (use free arenas_okD(2) [OF ok] f(2) in auto)
  let ?P = "\<lambda>F a A. case a_desc A of None \<Rightarrow> b = unat a + 12 \<and> c = 4096 * free_cnt A - 12
     | Some i \<Rightarrow> b \<in> set (block_addrs (descs st ! i) a) \<and> b \<notin> set (F i) \<and> c = d_block_size (descs st ! i)"
  have sp: "b \<in> span a' A'" if "arena_at st a' = Some A'" "?P F a' A'" for a' A' F
    using that(2) big_block(2) [OF ok that(1)] arena_block(6) [OF ok that(1)] by (auto simp: span_def arena_len_def split: option.splits)
  have eq: "?P F1 a' A' = ?P F a' A'" if a': "arena_at st a' = Some A'" "a' \<noteq> a" for a' A'
  proof (cases "a_desc A'")
    case (Some i)
    have "i < length (descs st)" using arenas_okD(3) [OF ok a'(1)] Some by (simp add: arena_ok_def)
    moreover have "b \<notin> span a A" if "b \<in> set (block_addrs (descs st ! i) a')" using apart [OF a' arena_block(6) [OF ok a'(1) Some that]] .
    ultimately show ?thesis using Some F1 by auto
  qed simp
  have "allocated st1 F1 b c \<longleftrightarrow> (\<exists>a' A'. arena_at st a' = Some A' \<and> a' \<noteq> a \<and> ?P F1 a' A')"
    unfolding allocated_def f by (auto split: if_splits)
  also have "\<dots> \<longleftrightarrow> (\<exists>a' A'. arena_at st a' = Some A' \<and> a' \<noteq> a \<and> ?P F a' A')" using eq by blast
  also have "\<dots> \<longleftrightarrow> allocated st F b c \<and> b \<notin> span a A"
  proof
    assume "\<exists>a' A'. arena_at st a' = Some A' \<and> a' \<noteq> a \<and> ?P F a' A'"
    then obtain a' A' where a': "arena_at st a' = Some A'" "a' \<noteq> a" "?P F a' A'" by blast
    then have "allocated st F b c" by (auto simp: allocated_def)
    then show "allocated st F b c \<and> b \<notin> span a A" using apart [OF a'(1,2) sp [OF a'(1,3)]] by simp
  next
    assume al: "allocated st F b c \<and> b \<notin> span a A"
    then obtain a' A' where a': "arena_at st a' = Some A'" "?P F a' A'" by (auto simp: allocated_def)
    moreover have "a' \<noteq> a" using sp [OF a'] a'(1) A al by auto
    ultimately show "\<exists>a' A'. arena_at st a' = Some A' \<and> a' \<noteq> a \<and> ?P F a' A'" by blast
  qed
  finally show "allocated st1 F1 b c \<longleftrightarrow> allocated st F b c \<and> b \<notin> span a A" .
qed

subsection \<open>free\<close>

definition block_removed :: "block_heap \<Rightarrow> (nat \<Rightarrow> ptr list) \<Rightarrow> nat \<Rightarrow> block_heap \<Rightarrow> (nat \<Rightarrow> ptr list) \<Rightarrow> bool" where
  "block_removed st F p st' F' = ((\<forall>b c. allocated st' F' b c \<longleftrightarrow> allocated st F b c \<and> b \<noteq> p)
     \<and> (\<forall>b c x. allocated st' F' b c \<longrightarrow> x \<in> {b..<b + c} \<longrightarrow> ram (hm st') x = ram (hm st) x))"

definition filled :: "u32 \<Rightarrow> byte \<Rightarrow> nat \<Rightarrow> block_heap \<Rightarrow> block_heap" where
  "filled p v n st = st\<lparr>hm := (hm st)\<lparr>ram := put (unat p) (replicate n v) (ram (hm st))\<rparr>\<rparr>"

lemma filled_fields [simp]:
  "links (filled p v n st) = links st" "descs (filled p v n st) = descs st" "arena_at (filled p v n st) = arena_at st"
  "kernel_pool (hm (filled p v n st)) = kernel_pool (hm st)"
  by (simp_all add: filled_def)

lemma filled_core: "heap_core st F \<Longrightarrow> heap_core (filled p v n st) F"
proof -
  assume ok: "heap_core st F"
  then have "palloc_ok (hm st)" by (simp add: heap_core_def arenas_ok_def)
  then have "palloc_ok (hm (filled p v n st))" unfolding filled_def by (simp add: palloc_ok_ram mapped_put)
  then show ?thesis using ok unfolding heap_core_def arenas_ok_def arena_ok_def by simp
qed

lemma filled_allocated: "allocated (filled p v n st) F b c = allocated st F b c"
  unfolding allocated_def filled_fields ..

lemma fill_block_filled:
  assumes "p \<noteq> 0" "mapped (ram (hm st)) (unat p) n"
  shows "fill_block p v n st = Some (filled p (word_of_int v) n st)"
proof -
  have "unat p \<noteq> 0" using assms(1) by (simp add: unsigned_eq_0_iff)
  then show ?thesis using memset_loop_put [OF assms(2)]
    by (simp add: fill_block_def filled_def memset_def CString.NULL_def)
qed

lemma free_in_span:
  assumes ok: "arenas_ok st F" and A: "arena_at st a = Some A" and x: "j < length (descs st)" "x \<in> set (F j)" "x \<in> span a A"
  shows "a_desc A = Some j" "x \<in> set (block_addrs (descs st ! j) a)"
proof -
  obtain a' A' where a': "arena_at st a' = Some A'" "a_desc A' = Some j" "x \<in> set (block_addrs (descs st ! j) a')"
    using arenas_okD(5) [OF ok x(1,2)] by blast
  then have "a' = a" using one_arena [OF ok a'(1) A arena_block(6) [OF ok a'] x(3)] by simp
  then show "a_desc A = Some j" "x \<in> set (block_addrs (descs st ! j) a)" using a' A by simp_all
qed

lemma allocated_outside:
  assumes "arenas_ok st F" "arena_at st a = Some A" "allocated st F b c" "b \<notin> span a A" "x \<in> {b..<b + c}"
  shows "x \<notin> span a A"
proof -
  obtain a' A' where a': "arena_at st a' = Some A'" "{b..<b + c} \<subseteq> span a' A'" "b \<in> span a' A'" using allocated_span [OF assms(1,3)] by blast
  then have "a' \<noteq> a" using assms(2,4) by auto
  then show ?thesis using arenas_okD(4) [OF assms(1) a'(1) assms(2)] a'(2) assms(5) by blast
qed

text \<open>A block that was the last one in use of its arena: the arena goes back to the page allocator.\<close>

lemma free_arena_spec:
  assumes ok: "heap_core st F" and A: "arena_at st a = Some A" "a_desc A = Some i"
    and all: "set (block_addrs (descs st ! i) a) \<subseteq> set (F i)"
  defines "n \<equiv> blocks_per_arena (descs st ! i)"
  shows "\<exists>st' F'. free_arena a n n st = Some st' \<and> heap_core st' F' \<and> descs st' = descs st
    \<and> (\<forall>b c. allocated st' F' b c \<longleftrightarrow> allocated st F b c)
    \<and> (\<forall>x. x \<notin> span a A \<longrightarrow> ram (hm st') x = ram (hm st) x) \<and> (\<forall>b c. allocated st F b c \<longrightarrow> b \<notin> span a A)"
proof -
  note o' = heap_coreD(1,2) [OF ok] and aok = arenas_okD(3) [OF heap_coreD(1) [OF ok] A(1)]
  have i: "i < length (descs st)" using aok A(2) by (simp add: arena_ok_def)
  note d = arenas_okD(2) [OF o'(1) i] and af = arena_facts [OF arenas_okD(1) [OF o'(1)] aok]
  have l: "arena_len A = 1" using A(2) by (simp add: arena_len_def)
  obtain k where k: "a = kaddr (hm st) k" "group_at (kbits (hm st)) k 1 True" using aok l by (auto simp: arena_ok_def)
  obtain m where m: "palloc_free_multiple a 1 (hm st) = Some m" "palloc_ok m" "kaddr m = kaddr (hm st)"
    "pool_base (kernel_pool m) = pool_base (kernel_pool (hm st))" "kbits m = fill k 1 False (kbits (hm st))"
    "\<forall>x. x \<notin> {unat a..<unat a + 4096 * 1} \<longrightarrow> ram m x = ram (hm st) x"
    using free_pages [OF arenas_okD(1) [OF o'(1)] zero_less_one k(2)] unfolding k(1) by blast
  have blocks: "block_addr (descs st ! i) a ` {0..<0 + n} = set (block_addrs (descs st ! i) a)" by (simp add: block_addrs_def n_def)
  let ?F = "F(i := filter (\<lambda>b. b \<notin> set (block_addrs (descs st ! i) a)) (F i))"
  have "\<exists>h'. remove_blocks a n 0 st = Some (st\<lparr>links := h'\<rparr>) \<and> lists_ok h' (length (descs st)) (\<lambda>i. free_list (descs st ! i))
      (F(i := filter (\<lambda>b. b \<notin> block_addr (descs st ! i) a ` {0..<0 + n}) (F i)))"
    by (rule remove_blocks_spec [where A = A, OF o'(2) i]) (use af(1,7) A d all in \<open>auto simp: n_def block_addrs_def\<close>)
  then obtain h where h: "remove_blocks a n 0 st = Some (st\<lparr>links := h\<rparr>)" "lists_ok h (length (descs st)) (\<lambda>i. free_list (descs st ! i)) ?F"
    unfolding blocks by blast
  have F1: "\<forall>j < length (descs st). ?F j = filter (\<lambda>x. x \<notin> span a A) (F j)"
  proof (intro allI impI)
    fix j assume j: "j < length (descs st)"
    show "?F j = filter (\<lambda>x. x \<notin> span a A) (F j)"
    proof (cases "j = i")
      case True
      have "x \<in> set (block_addrs (descs st ! i) a) \<longleftrightarrow> x \<in> span a A" if "x \<in> set (F i)" for x
        using free_in_span(2) [OF o'(1) A(1) i that] arena_block(6) [OF o'(1) A] by blast
      then show ?thesis using True by (auto intro: filter_cong)
    next
      case False
      then have "x \<notin> span a A" if "x \<in> set (F j)" for x using free_in_span(1) [OF o'(1) A(1) j that] A(2) by auto
      then show ?thesis using False by (simp add: filter_id_conv [THEN iffD2])
    qed
  qed
  let ?st = "put_arena a None (st\<lparr>links := h, hm := m\<rparr>)"
  have r: "arenas_ok ?st ?F" "allocated ?st ?F b c \<longleftrightarrow> allocated st F b c \<and> b \<notin> span a A" for b c
    by (rule remove_arena [OF o'(1) A(1) k(1) _ m(2,3) _ F1 refl]; use k(2) m(5) l in simp)+
  have na: "b \<notin> span a A" if al: "allocated st F b c" for b c
  proof
    assume b: "b \<in> span a A"
    obtain a' A' where a': "arena_at st a' = Some A'" and P: "case a_desc A' of None \<Rightarrow> b = unat a' + 12 \<and> c = 4096 * free_cnt A' - 12
       | Some i \<Rightarrow> b \<in> set (block_addrs (descs st ! i) a') \<and> b \<notin> set (F i) \<and> c = d_block_size (descs st ! i)"
      using al by (auto simp: allocated_def)
    have "b \<in> span a' A'"
      using P big_block(2) [OF o'(1) a'] arena_block(6) [OF o'(1) a'] by (auto simp: span_def arena_len_def split: option.splits)
    then have "a' = a" using one_arena [OF o'(1) a' A(1) _ b] by blast
    then show False using P A a' all by auto
  qed
  have "heap_core ?st ?F" using r(1) h(2) ok m(4) by (simp add: heap_core_def)
  moreover have "free_arena a n n st = Some ?st" using h(1) m(1) by (simp add: free_arena_def palloc_free_page_def)
  moreover have "ram (hm ?st) x = ram (hm st) x" if "x \<notin> span a A" for x using m(6) that by (simp add: span_def l)
  ultimately show ?thesis using r(2) na by (intro exI [of _ ?st] exI [of _ ?F]) auto
qed

lemma free_big_spec:
  assumes ok: "heap_ok st F" and A: "arena_at st a = Some A" "a_desc A = None" and p: "unat p = unat a + 12"
  shows "\<exists>st' F'. free p st = Some st' \<and> heap_ok st' F' \<and> descs st' = descs st \<and> block_removed st F (unat p) st' F'"
proof -
  have core: "heap_core st F" using ok by (simp add: heap_ok_def)
  note o' = heap_coreD(1,2) [OF core]
  note aok = arenas_okD(3) [OF o'(1) A(1)]
  have l: "arena_len A = free_cnt A" using A(2) by (simp add: arena_len_def)
  obtain k where k: "a = kaddr (hm st) k" "0 < free_cnt A" "group_at (kbits (hm st)) k (free_cnt A) True" using aok l by (auto simp: arena_ok_def)
  obtain m where m: "palloc_free_multiple a (free_cnt A) (hm st) = Some m" "palloc_ok m" "kaddr m = kaddr (hm st)"
    "pool_base (kernel_pool m) = pool_base (kernel_pool (hm st))" "kbits m = fill k (free_cnt A) False (kbits (hm st))"
    "\<forall>x. x \<notin> {unat a..<unat a + 4096 * free_cnt A} \<longrightarrow> ram m x = ram (hm st) x"
    using free_pages [OF arenas_okD(1) [OF o'(1)] k(2,3)] unfolding k(1) by blast
  have F1: "\<forall>j < length (descs st). F j = filter (\<lambda>x. x \<notin> span a A) (F j)"
  proof (intro allI impI)
    fix j assume j: "j < length (descs st)"
    have "x \<notin> span a A" if "x \<in> set (F j)" for x using free_in_span(1) [OF o'(1) A(1) j that] A(2) by auto
    then show "F j = filter (\<lambda>x. x \<notin> span a A) (F j)" by (simp add: filter_id_conv [THEN iffD2])
  qed
  let ?st = "put_arena a None (st\<lparr>links := links st, hm := m\<rparr>)"
  have r: "arenas_ok ?st F" "allocated ?st F b c \<longleftrightarrow> allocated st F b c \<and> b \<notin> span a A" for b c
    by (rule remove_arena [OF o'(1) A(1) k(1) _ m(2,3) _ F1 refl]; use k(3) m(5) l in simp)+
  have only: "b \<notin> span a A \<longleftrightarrow> b \<noteq> unat p" if al: "allocated st F b c" for b c
  proof
    assume "b \<notin> span a A"
    then show "b \<noteq> unat p" using p k(2) by (auto simp: span_def l)
  next
    assume ne: "b \<noteq> unat p"
    obtain a' A' where a': "arena_at st a' = Some A'" and P: "case a_desc A' of None \<Rightarrow> b = unat a' + 12 \<and> c = 4096 * free_cnt A' - 12
       | Some i \<Rightarrow> b \<in> set (block_addrs (descs st ! i) a') \<and> b \<notin> set (F i) \<and> c = d_block_size (descs st ! i)"
      using al by (auto simp: allocated_def)
    have "b \<in> span a' A'"
      using P big_block(2) [OF o'(1) a'] arena_block(6) [OF o'(1) a'] by (auto simp: span_def arena_len_def split: option.splits)
    moreover have "a' \<noteq> a" using P A a' ne p by auto
    ultimately show "b \<notin> span a A" using arenas_okD(4) [OF o'(1) a' A(1)] by blast
  qed
  have "ram (hm ?st) x = ram (hm st) x" if "allocated ?st F b c" "x \<in> {b..<b + c}" for b c x
    using allocated_outside [OF o'(1) A(1) _ _ that(2)] that(1) m(6) unfolding r(2) by (simp add: span_def l)
  then have "block_removed st F (unat p) ?st F" unfolding block_removed_def using r(2) only by blast
  moreover have "heap_ok ?st F" using r(1) ok m(4) by (simp add: heap_ok_def heap_core_def)
  moreover have "p \<noteq> 0" using p by auto
  then have "free p st = Some ?st" using big_block(4) [OF o'(1) A p] A m(1) by (simp add: free_def)
  ultimately show ?thesis by (intro exI [of _ ?st] exI [of _ F]) simp
qed

lemma outside_allocated:
  assumes ok: "heap_core st F" and al: "allocated st F p c"
  shows "outside_lists (length (descs st)) (\<lambda>i. free_list (descs st ! i)) F p"
proof -
  obtain a A where a: "arena_at st a = Some A" "unat a + 12 \<le> p" using allocated_span [OF heap_coreD(1) [OF ok] al] by blast
  have pb: "unat (pool_base (kernel_pool (hm st))) \<le> unat a"
    using arena_facts(5) [OF arenas_okD(1) [OF heap_coreD(1) [OF ok]] arenas_okD(3) [OF heap_coreD(1) [OF ok] a(1)]] .
  have "p \<notin> set (F j)" if "j < length (descs st)" for j using free_not_allocated [OF heap_coreD(1) [OF ok] that] al by blast
  moreover have "p \<noteq> head_of (free_list (descs st ! j))" "p \<noteq> tail_of (free_list (descs st ! j))" if "j < length (descs st)" for j
    using heap_coreD(4) [OF ok that] pb a(2) by (auto simp: head_of_def tail_of_def)
  ultimately show ?thesis using a(2) by (auto simp: outside_lists_def cells_def)
qed

text \<open>The block goes on the free list and is counted.\<close>

lemma put_back:
  assumes ok: "heap_core st F" and A: "arena_at st a = Some A" "a_desc A = Some i" and p: "p \<in> set (block_addrs (descs st ! i) a)" "p \<notin> set (F i)"
  shows "\<exists>h. list_push_front (links st) (free_list (descs st ! i)) p = Some h \<and> usz (free_cnt A + 1) = Suc (free_cnt A)
    \<and> heap_core (with_count a A (Suc (free_cnt A)) h st) (F(i := p # F i)) \<and> Suc (free_cnt A) \<le> blocks_per_arena (descs st ! i)
    \<and> (Suc (free_cnt A) = blocks_per_arena (descs st ! i) \<longrightarrow> set (block_addrs (descs st ! i) a) \<subseteq> insert p (set (F i)))
    \<and> (\<forall>b c. allocated (with_count a A (Suc (free_cnt A)) h st) (F(i := p # F i)) b c \<longleftrightarrow> allocated st F b c \<and> b \<noteq> p)"
proof -
  note o' = heap_coreD(1,2) [OF ok] and aok = arenas_okD(3) [OF heap_coreD(1) [OF ok] A(1)]
  have i: "i < length (descs st)" using aok A(2) by (simp add: arena_ok_def)
  note d = arenas_okD(2) [OF o'(1) i]
  let ?B = "\<lambda>b. b \<in> set (block_addrs (descs st ! i) a)"
  have al: "allocated st F p (d_block_size (descs st ! i))" unfolding allocated_def using A p by (intro exI [of _ a] exI [of _ A]) simp
  obtain h where h: "list_push_front (links st) (free_list (descs st ! i)) p = Some h"
    "lists_ok h (length (descs st)) (\<lambda>i. free_list (descs st ! i)) (F(i := p # F i))"
    using lists_push(2) [OF o'(2) i outside_allocated [OF ok al]] by blast
  have dist: "distinct (p # F i)" using heap_coreD(3) [OF ok i] p(2) by simp
  have cnt: "Suc (free_cnt A) = length (filter ?B (p # F i))" using aok A(2) p(1) by (simp add: arena_ok_def)
  note le = free_blocks_bound [OF d dist, of a, folded cnt]
  have all: "set (block_addrs (descs st ! i) a) \<subseteq> insert p (set (F i))" if e: "Suc (free_cnt A) = blocks_per_arena (descs st ! i)"
  proof -
    have "card (set (filter ?B (p # F i))) = card (set (block_addrs (descs st ! i) a))"
      unfolding distinct_card [OF distinct_filter [OF dist]] distinct_card [OF distinct_blocks [OF d]] cnt [symmetric] e
      by (simp add: block_addrs_def)
    then have "set (filter ?B (p # F i)) = set (block_addrs (descs st ! i) a)" by (intro card_subset_eq) auto
    moreover have "set (filter ?B (p # F i)) \<subseteq> insert p (set (F i))" unfolding set_filter by auto
    ultimately show ?thesis by simp
  qed
  have "arenas_ok (with_count a A (Suc (free_cnt A)) h st) (F(i := p # F i))" unfolding with_count_def
    by (rule change_free_list [OF o'(1) A _ cnt]) (use p(1) in simp)
  then have core: "heap_core (with_count a A (Suc (free_cnt A)) h st) (F(i := p # F i))"
    using h(2) ok by (simp add: heap_core_def with_count_def)
  have "allocated (with_count a A (Suc (free_cnt A)) h st) (F(i := p # F i)) b c \<longleftrightarrow> allocated st F b c \<and> b \<noteq> p" for b c
    by (rule change_allocated(2) [OF o'(1) A p(1)]) simp
  moreover have "usz (free_cnt A + 1) = Suc (free_cnt A)" using le few_blocks [OF d] by (simp add: usz_def)
  ultimately show ?thesis using h(1) core le all by blast
qed

lemma free_small_spec:
  assumes ok: "heap_ok st F" and A: "arena_at st a = Some A" "a_desc A = Some i"
    and p: "unat p \<in> set (block_addrs (descs st ! i) a)" "unat p \<notin> set (F i)"
  shows "\<exists>st' F'. free p st = Some st' \<and> heap_ok st' F' \<and> descs st' = descs st \<and> block_removed st F (unat p) st' F'"
proof -
  have core: "heap_core st F" using ok by (simp add: heap_ok_def)
  note o' = heap_coreD(1,2) [OF core] and aok = arenas_okD(3) [OF heap_coreD(1) [OF core] A(1)]
  note ab = arena_block(1-6) [OF o'(1) A p(1)] and b2a = arena_block(7) [OF o'(1) A p(1) refl]
  let ?d = "descs st ! i"
  have nh: "\<not> d_held ?d" using ok ab(2) by (simp add: heap_ok_def)
  have p0: "p \<noteq> 0" using ab(3) by auto
  have "mapped (ram (hm st)) (unat p) (d_block_size ?d)"
    using arena_facts(4) [OF arenas_okD(1) [OF o'(1)] aok] ab(3,4) A(2) by (auto elim!: mapped_mono simp: arena_len_def)
  note fb = fill_block_filled [OF p0 this, of 204]
  let ?st0 = "filled p (word_of_int 204) (d_block_size ?d) st"
  let ?st1 = "set_held i True ?st0"
  have i0: "i < length (descs ?st0)" "\<not> d_held (descs ?st0 ! i)" using ab(2) nh by simp_all
  note lk = lock_unlock(1) [OF i0]
  have core1: "heap_core ?st1 F" using filled_core [OF core] by (simp only: set_held_core)
  have al1: "allocated ?st1 F b c = allocated st F b c" for b c by (simp add: set_held_allocated filled_allocated)
  have A1: "arena_at ?st1 a = Some A" and p1: "unat p \<in> set (block_addrs (descs ?st1 ! i) a)" using A(1) p(1) by simp_all
  obtain h where h: "list_push_front (links st) (free_list ?d) (unat p) = Some h" "usz (free_cnt A + 1) = Suc (free_cnt A)"
    "heap_core (with_count a A (Suc (free_cnt A)) h ?st1) (F(i := unat p # F i))" "Suc (free_cnt A) \<le> blocks_per_arena ?d"
    "Suc (free_cnt A) = blocks_per_arena ?d \<Longrightarrow> set (block_addrs ?d a) \<subseteq> insert (unat p) (set (F i))"
    "\<And>b c. allocated (with_count a A (Suc (free_cnt A)) h ?st1) (F(i := unat p # F i)) b c \<longleftrightarrow> allocated st F b c \<and> b \<noteq> unat p"
    using put_back [OF core1 A1 A(2) p1 p(2)] unfolding al1 by auto
  let ?st2 = "with_count a A (Suc (free_cnt A)) h ?st1" and ?F2 = "F(i := unat p # F i)"
  have d2: "descs ?st2 = descs (set_held i True st)" by (simp add: with_count_def set_held_def)
  have fr: "free p st = (if Suc (free_cnt A) \<ge> blocks_per_arena ?d then free_arena a (Suc (free_cnt A)) (blocks_per_arena ?d) ?st2 else Some ?st2)
      \<bind> desc_unlock i"
    using p0 b2a A fb lk h(1,2) by (simp add: free_def with_count_def Let_def)
  have al: "allocated st F (unat p) (d_block_size ?d)" unfolding allocated_def using A p by (intro exI [of _ a] exI [of _ A]) simp
  have ram2: "ram (hm ?st2) x = ram (hm st) x" if "allocated st F b c" "b \<noteq> unat p" "x \<in> {b..<b + c}" for b c x
  proof -
    have "x \<notin> {unat p..<unat p + d_block_size ?d}" using allocated_apart [OF o'(1) that(1) al that(2)] that(3) by blast
    then show ?thesis by (auto simp: with_count_def filled_def put_def)
  qed
  have fin: ?thesis
    if st3: "(if Suc (free_cnt A) \<ge> blocks_per_arena ?d then free_arena a (Suc (free_cnt A)) (blocks_per_arena ?d) ?st2 else Some ?st2) = Some st3"
      "heap_core st3 F3" "descs st3 = descs ?st2" "\<forall>b c. allocated st3 F3 b c \<longleftrightarrow> allocated st F b c \<and> b \<noteq> unat p"
      "\<forall>b c x. allocated st F b c \<longrightarrow> b \<noteq> unat p \<longrightarrow> x \<in> {b..<b + c} \<longrightarrow> ram (hm st3) x = ram (hm st) x" for st3 F3
  proof -
    let ?st = "set_held i False st3"
    have u: "desc_unlock i st3 = Some ?st" "descs ?st = descs st" using lock_unlock(2) [OF ab(2) nh, of st3] st3(3) d2 by simp_all
    have "heap_ok ?st F3" using st3(2) ok u(2) by (simp add: heap_ok_def set_held_core)
    moreover have "block_removed st F (unat p) ?st F3"
      using st3(4,5) unfolding block_removed_def set_held_allocated set_held_fields by blast
    moreover have "free p st = Some ?st" unfolding fr st3(1) using u(1) by simp
    ultimately show ?thesis using u(2) by blast
  qed
  show ?thesis
  proof (cases "Suc (free_cnt A) = blocks_per_arena ?d")
    case False
    then show ?thesis using h(3,4,6) ram2 by (intro fin [of ?st2 ?F2]) simp_all
  next
    case True
    let ?A = "A\<lparr>free_cnt := Suc (free_cnt A)\<rparr>"
    have A2: "arena_at ?st2 a = Some ?A" "a_desc ?A = Some i" using A(2) by (simp_all add: with_count_def)
    have f2: "block_addrs (descs ?st2 ! i) a = block_addrs ?d a" "blocks_per_arena (descs ?st2 ! i) = blocks_per_arena ?d"
      unfolding d2 by simp_all
    have "set (block_addrs (descs ?st2 ! i) a) \<subseteq> set (?F2 i)" using h(5) [OF True] unfolding f2 by simp
    from free_arena_spec [OF h(3) A2 this, unfolded f2 h(6)] obtain st3 F3 where
      st3: "free_arena a (blocks_per_arena ?d) (blocks_per_arena ?d) ?st2 = Some st3" "heap_core st3 F3" "descs st3 = descs ?st2"
      "\<forall>b c. allocated st3 F3 b c \<longleftrightarrow> allocated st F b c \<and> b \<noteq> unat p"
      "\<forall>x. x \<notin> span a ?A \<longrightarrow> ram (hm st3) x = ram (hm ?st2) x" "\<forall>b c. allocated st F b c \<and> b \<noteq> unat p \<longrightarrow> b \<notin> span a ?A" by blast
    have "ram (hm st3) x = ram (hm st) x" if x: "allocated st F b c" "b \<noteq> unat p" "x \<in> {b..<b + c}" for b c x
    proof -
      have "allocated ?st2 ?F2 b c" using x(1,2) h(6) by blast
      moreover have "b \<notin> span a ?A" using st3(6) x(1,2) by blast
      ultimately have "x \<notin> span a ?A" using allocated_outside [OF heap_coreD(1) [OF h(3)] A2(1) _ _ x(3)] by blast
      then show ?thesis using st3(5) ram2 [OF x] by simp
    qed
    then show ?thesis using st3 True by (intro fin [of st3 F3]) simp_all
  qed
qed

lemma free_spec:
  assumes "heap_ok st F" and "allocated st F (unat p) c"
  shows "\<exists>st' F'. free p st = Some st' \<and> heap_ok st' F' \<and> descs st' = descs st \<and> block_removed st F (unat p) st' F'"
proof -
  obtain a A where A: "arena_at st a = Some A" and P: "case a_desc A of None \<Rightarrow> unat p = unat a + 12 \<and> c = 4096 * free_cnt A - 12
     | Some i \<Rightarrow> unat p \<in> set (block_addrs (descs st ! i) a) \<and> unat p \<notin> set (F i) \<and> c = d_block_size (descs st ! i)"
    using assms(2) by (auto simp: allocated_def)
  show ?thesis
  proof (cases "a_desc A")
    case None
    then show ?thesis using free_big_spec [OF assms(1) A None] P by simp
  next
    case (Some i)
    then show ?thesis using free_small_spec [OF assms(1) A Some] P by simp
  qed
qed

subsection \<open>The heap after malloc_init\<close>

definition init_desc :: "(nat \<Rightarrow> ptr) \<Rightarrow> nat \<Rightarrow> desc" where
  "init_desc list_at i = \<lparr>d_block_size = 16 * 2 ^ i, blocks_per_arena = 4084 div (16 * 2 ^ i), free_list = list_at i, d_held = False\<rparr>"

definition list_places :: "(nat \<Rightarrow> ptr) \<Rightarrow> bool" where
  "list_places list_at = (\<forall>i < 7. list_at i \<noteq> 0 \<and> (\<forall>j < 7. i \<noteq> j \<longrightarrow> {list_at i, list_at i + 8} \<inter> {list_at j, list_at j + 8} = {}))"

lemma lists_init:
  assumes ok: "lists_ok h n ls (\<lambda>_. [])" and tot: "\<forall>p. h p \<noteq> None" and l: "ls n \<noteq> 0"
    and ap: "\<forall>j < n. {ls n, ls n + 8} \<inter> {ls j, ls j + 8} = {}"
  shows "\<exists>h'. list_init h (ls n) = Some h' \<and> lists_ok h' (Suc n) ls (\<lambda>_. [])"
proof -
  obtain h' where h': "list_init h (ls n) = Some h'" "dll h' (ls n) []" "same_outside {head_of (ls n), tail_of (ls n)} h h'"
    using list_init_dll [of "ls n" h] l tot by (auto simp: KernelList.NULL_def)
  have c: "set (cells (ls j) []) = {ls j, ls j + 8}" for j by (auto simp: cells_def head_of_def tail_of_def)
  have "h' p \<noteq> None" for p using h'(3) tot unfolding same_outside_def by blast
  moreover have "dll h' (ls j) []" if "j < Suc n" for j
  proof (cases "j = n")
    case False
    then have "{head_of (ls n), tail_of (ls n)} \<inter> set (cells (ls j) []) = {}" using that ap unfolding c by (simp add: head_of_def tail_of_def)
    then show ?thesis using dll_frame [OF lists_okD(1) [OF ok] h'(3)] that False by simp
  qed (simp add: h'(2))
  moreover have "set (cells (ls i) []) \<inter> set (cells (ls j) []) = {}" if "i < Suc n" "j < Suc n" "i \<noteq> j" for i j
    using that ap lists_okD(3) [OF ok, of i j] unfolding c by (cases "i = n"; cases "j = n") auto
  ultimately have "lists_ok h' (Suc n) ls (\<lambda>_. [])" by (simp add: lists_ok_def)
  then show ?thesis using h'(1) by blast
qed

lemma init_loop:
  assumes "k \<le> 7" "list_places list_at" "descs st = map (init_desc list_at) [0..<k]" "lists_ok (links st) k list_at (\<lambda>_. [])"
    and "\<forall>p. links st p \<noteq> None"
  shows "\<exists>h. malloc_init_loop list_at (16 * 2 ^ k) st = Some (st\<lparr>links := h, descs := map (init_desc list_at) [0..<7]\<rparr>)
    \<and> lists_ok h 7 list_at (\<lambda>_. [])"
  using assms
proof (induction "7 - k" arbitrary: k st)
  case 0
  then have k: "k = 7" by simp
  have "malloc_init_loop list_at (16 * 2 ^ k) st = Some st" unfolding k by (subst malloc_init_loop.simps) (simp add: PGSIZE_4096)
  then show ?case using 0(4,5) k by (intro exI [of _ "links st"]) simp
next
  case (Suc n)
  have k: "k < 7" using Suc.hyps(2) by simp
  have "(2::nat) ^ k \<le> 2 ^ 6" using k by (intro power_increasing) simp_all
  then have lt: "16 * 2 ^ k < unat PGSIZE div 2" by (simp add: PGSIZE_4096)
  have ap: "\<forall>j < k. {list_at k, list_at k + 8} \<inter> {list_at j, list_at j + 8} = {}" "list_at k \<noteq> 0"
    using Suc.prems(2) k unfolding list_places_def by auto
  obtain h where h: "list_init (links st) (list_at k) = Some h" "lists_ok h (Suc k) list_at (\<lambda>_. [])"
    using lists_init [OF Suc.prems(4,5) ap(2,1)] by blast
  let ?st = "st\<lparr>links := h, descs := descs st @ [init_desc list_at k]\<rparr>"
  have step: "malloc_init_loop list_at (16 * 2 ^ k) st = malloc_init_loop list_at (16 * 2 ^ Suc k) ?st"
    using lt k h(1) Suc.prems(3)
    by (subst malloc_init_loop.simps) (simp add: DESC_MAX_def ARENA_SIZE_def PGSIZE_4096 init_desc_def Let_def mult.commute)
  have tot: "\<forall>p. h p \<noteq> None" using h(2) by (simp add: lists_ok_def)
  have "\<exists>h'. malloc_init_loop list_at (16 * 2 ^ Suc k) ?st = Some (?st\<lparr>links := h', descs := map (init_desc list_at) [0..<7]\<rparr>)
    \<and> lists_ok h' 7 list_at (\<lambda>_. [])"
    by (rule Suc.hyps(1)) (use Suc.hyps(2) Suc.prems(2,3) k h(2) tot in simp_all)
  then show ?case unfolding step by simp
qed

lemma init_heap:
  assumes st: "palloc_ok (hm st)" "descs st = []" "\<forall>p. links st p \<noteq> None" "\<forall>a. arena_at st a = None"
    and l: "list_places list_at" "\<forall>i < 7. list_at i + 8 < unat (pool_base (kernel_pool (hm st)))"
  shows "\<exists>st'. malloc_init list_at st = Some st' \<and> heap_ok st' (\<lambda>_. []) \<and> hm st' = hm st \<and> descs st' = map (init_desc list_at) [0..<7]"
proof -
  have "lists_ok (links st) 0 list_at (\<lambda>_. [])" using st(3) by (simp add: lists_ok_def)
  then obtain h where h: "malloc_init_loop list_at (16 * 2 ^ 0) st = Some (st\<lparr>links := h, descs := map (init_desc list_at) [0..<7]\<rparr>)"
    "lists_ok h 7 list_at (\<lambda>_. [])"
    using init_loop [of 0 list_at st] l(1) st(2,3) by auto
  let ?st = "st\<lparr>links := h, descs := map (init_desc list_at) [0..<7]\<rparr>"
  have d: "descs ?st ! i = init_desc list_at i" if "i < 7" for i
    unfolding block_heap.simps using that by (simp del: upt_rec_numeral)
  have len: "length (descs ?st) = 7" by (simp del: upt_rec_numeral)
  have dok: "desc_ok (init_desc list_at i)" if i: "i < 7" for i
  proof -
    have "(2::nat) ^ i \<le> 2 ^ 6" using i by (intro power_increasing) simp_all
    then have "16 * 2 ^ i \<le> (4084::nat)" by simp
    then have "0 < 4084 div (16 * 2 ^ i :: nat)" by (simp add: div_greater_zero_iff)
    moreover have "4084 div (16 * 2 ^ i) * (16 * 2 ^ i) \<le> (4084::nat)" by (rule div_times_less_eq_dividend)
    ultimately show ?thesis by (simp add: desc_ok_def init_desc_def)
  qed
  have "arenas_ok ?st (\<lambda>_. [])" unfolding arenas_ok_def len using st(1,4) dok d by simp
  moreover have "lists_ok h 7 (\<lambda>i. free_list (descs ?st ! i)) (\<lambda>_. [])"
    using h(2) d unfolding lists_ok_def by (simp add: init_desc_def)
  moreover have "tail_of (free_list (descs ?st ! i)) < unat (pool_base (kernel_pool (hm ?st)))" "\<not> d_held (descs ?st ! i)" if "i < 7" for i
    using that l(2) d [OF that] by (simp_all add: init_desc_def tail_of_def)
  ultimately have "heap_ok ?st (\<lambda>_. [])" unfolding heap_ok_def heap_core_def len by simp
  then show ?thesis using h(1) by (intro exI [of _ ?st]) (simp add: malloc_init_def)
qed

subsection \<open>Properties\<close>

text \<open>A heap that malloc_init has made, with three free pages.\<close>

definition ex_heap :: block_heap where
  "ex_heap = \<lparr>hm = small_machine, links = (\<lambda>_. Some \<lparr>le_prev = 0, le_next = 0\<rparr>), descs = [], arena_at = (\<lambda>_. None)\<rparr>"

definition ex_lists :: "nat \<Rightarrow> ptr" where
  "ex_lists i = 0xc0000000 + 48 * i"

lemma ex_heap_init: "\<exists>st. malloc_init ex_lists ex_heap = Some st \<and> heap_ok st (\<lambda>_. []) \<and> hm st = small_machine \<and> descs st = map (init_desc ex_lists) [0..<7]"
proof -
  have "list_places ex_lists" unfolding list_places_def ex_lists_def by auto
  then show ?thesis
    using init_heap [of ex_heap ex_lists] small_machine_ok by (simp add: ex_heap_def ex_lists_def del: upt_rec_numeral) (simp add: small_machine_def)
qed

lemma ex_heap_free: "group_at (kbits small_machine) 0 1 False"
  by (simp add: group_at_def small_machine_def bits_of_def bit_of_def ELEM_BITS_def upt_rec)

text \<open>C16: malloc hands out memory nobody has.  On a well-formed heap, for a request of at least one byte that is not within
  4106 of 2 to the 32, it returns, leaves the heap well-formed and the bytes of memory as they are.  Either it returns
  a block that has room for the request and overlaps no allocated block, and the allocated blocks are then the old ones and
  this one; or it returns a null pointer, the heap is as before, and there is no group of as many free pages as are needed.\<close>

theorem malloc_gives_new_block:
  assumes "heap_ok st F" and "sz \<noteq> 0" "unat sz + 4107 < 2 ^ 32"
  shows "\<exists>p st' F'. malloc sz st = Some (p, st') \<and> heap_ok st' F' \<and> descs st' = descs st \<and> ram (hm st') = ram (hm st)
    \<and> (if p = 0 then st' = st \<and> F' = F \<and> \<not> (\<exists>k. group_at (kbits (hm st)) k (pages_needed st (unat sz)) False)
       else block_added st F (unat p) (unat sz) st' F')"
  using assms by (rule malloc_spec)

theorem malloc_gives_new_block_witness:
  "\<exists>st p st' F'. malloc_init ex_lists ex_heap = Some st \<and> malloc 100 st = Some (p, st') \<and> p \<noteq> 0 \<and> heap_ok st' F'
     \<and> block_added st (\<lambda>_. []) (unat p) 100 st' F'"
proof -
  obtain st where st: "malloc_init ex_lists ex_heap = Some st" "heap_ok st (\<lambda>_. [])" "hm st = small_machine"
    "descs st = map (init_desc ex_lists) [0..<7]" using ex_heap_init by blast
  have "init_desc ex_lists 6 \<in> set (descs st)" unfolding st(4) by (simp del: upt_rec_numeral)
  then have "pages_needed st (unat (100 :: u32)) = 1" unfolding pages_needed_def by (auto simp: init_desc_def)
  then show ?thesis
    using malloc_gives_new_block [OF st(2), of 100] ex_heap_free st(1,3) by (auto split: if_splits)
qed

text \<open>C17: free gives exactly one block back.  On a well-formed heap, for the address of a block that malloc has handed out and
  that was not freed since, free returns and leaves the heap well-formed; the allocated blocks are the old ones without
  this one, and their bytes are what they were, although the freed block and a page that is given back are overwritten.\<close>

theorem free_returns_block:
  assumes "heap_ok st F" and "allocated st F (unat p) c"
  shows "\<exists>st' F'. free p st = Some st' \<and> heap_ok st' F' \<and> descs st' = descs st \<and> block_removed st F (unat p) st' F'"
  using assms by (rule free_spec)

theorem free_returns_block_witness:
  "\<exists>st p st' st'' F''. malloc_init ex_lists ex_heap = Some st \<and> malloc 100 st = Some (p, st') \<and> free p st' = Some st'' \<and> heap_ok st'' F''
     \<and> (\<forall>b c. allocated st'' F'' b c \<longleftrightarrow> allocated st (\<lambda>_. []) b c)"
proof -
  obtain st where st: "malloc_init ex_lists ex_heap = Some st" "heap_ok st (\<lambda>_. [])" "hm st = small_machine"
    "descs st = map (init_desc ex_lists) [0..<7]" using ex_heap_init by blast
  have "init_desc ex_lists 6 \<in> set (descs st)" unfolding st(4) by (simp del: upt_rec_numeral)
  then have "pages_needed st (unat (100 :: u32)) = 1" unfolding pages_needed_def by (auto simp: init_desc_def)
  then obtain p st' F' where m: "malloc 100 st = Some (p, st')" "heap_ok st' F'" "block_added st (\<lambda>_. []) (unat p) 100 st' F'"
    using malloc_spec [OF st(2), of 100] ex_heap_free st(3) by (auto split: if_splits)
  obtain c where c: "\<forall>b c'. allocated st' F' b c' \<longleftrightarrow> allocated st (\<lambda>_. []) b c' \<or> b = unat p \<and> c' = c" "100 \<le> c"
    "\<forall>b c'. allocated st (\<lambda>_. []) b c' \<longrightarrow> {b..<b + c'} \<inter> {unat p..<unat p + c} = {}"
    using m(3) unfolding block_added_def by blast
  obtain st'' F'' where f: "free p st' = Some st''" "heap_ok st'' F''" "block_removed st' F' (unat p) st'' F''"
    using free_returns_block [OF m(2), of p c] c(1) by auto
  have "\<not> allocated st (\<lambda>_. []) (unat p) c'" for c'
  proof
    assume al: "allocated st (\<lambda>_. []) (unat p) c'"
    have "0 < c'" using allocated_span [OF heap_coreD(1) al] st(2) by (auto simp: heap_ok_def)
    then show False using c(2,3) al by fastforce
  qed
  then have "\<forall>b c. allocated st'' F'' b c \<longleftrightarrow> allocated st (\<lambda>_. []) b c" using f(3) c(1) unfolding block_removed_def by metis
  then show ?thesis using st(1) m(1) f(1,2) by (intro exI [of _ st] exI [of _ p] exI [of _ st'] exI [of _ st''] exI [of _ F'']) simp
qed

text \<open>C18: Requests close to 4 GB are not refused.  For a size of 4294967285 or more the sum that malloc divides by the size of a
  page wraps around, and it returns a block of 4084 bytes when one page is free; and calloc does not notice every product that wraps:
  65537 elements of 65537 bytes get the 131073 bytes that are left of the product.\<close>

theorem huge_request_gets_one_page:
  assumes "heap_ok st F" and "4294967285 \<le> unat sz" and "group_at (kbits (hm st)) k 1 False"
  shows "(\<exists>p st'. malloc sz st = Some (p, st') \<and> p \<noteq> 0 \<and> heap_ok st' F \<and> allocated st' F (unat p) 4084)
    \<and> calloc 65537 65537 st = do {
        (p, st) \<leftarrow> malloc 131073 st;
        st \<leftarrow> (if p \<noteq> 0 then fill_block p 0 131073 st else Some st);
        Some (p, st) }"
proof
  have core: "heap_core st F" using assms(1) by (simp add: heap_ok_def)
  have small: "d_block_size d < unat sz" if "d \<in> set (descs st)" for d
  proof -
    obtain i where i: "i < length (descs st)" "d = descs st ! i" using \<open>d \<in> set (descs st)\<close> by (metis in_set_conv_nth)
    have "desc_ok d" using arenas_okD(2) [OF heap_coreD(1) [OF core] i(1)] i(2) by simp
    then show ?thesis using block_fits [of d 0] assms(2) by (simp add: desc_ok_def)
  qed
  then have "find_desc (descs st) (unat sz) = length (descs st)"
    using find_desc_spec [of "descs st" "unat sz"] by (metis leD nth_mem)
  then have m: "malloc sz st = malloc_big sz st" using assms(2) by (auto simp: malloc_def)
  have e: "sz + word_of_nat ARENA_SIZE + PGSIZE - 1 = sz + 4107" by (simp add: ARENA_SIZE_def PGSIZE_4096)
  have "unat (sz + word_of_nat ARENA_SIZE + PGSIZE - 1) = (unat sz + 4107) mod 2 ^ 32"
    unfolding e by (simp add: unat_word_ariths)
  also have "\<dots> = unat sz + 4107 - 2 ^ 32" using assms(2) unsigned_less [of sz, where 'a = nat] by (simp add: mod_if)
  finally have "unat ((sz + word_of_nat ARENA_SIZE + PGSIZE - 1) div PGSIZE) = (unat sz + 4107 - 2 ^ 32) div 4096"
    by (simp add: unat_div PGSIZE_4096)
  also have "\<dots> = 1" using assms(2) unsigned_less [of sz, where 'a = nat] by simp
  finally have "unat ((sz + word_of_nat ARENA_SIZE + PGSIZE - 1) div PGSIZE) = 1" .
  from malloc_big_pages [OF core this] assms(3) obtain p st' where
    "malloc_big sz st = Some (p, st')" "p \<noteq> 0" "heap_core st' F" "descs st' = descs st" "allocated st' F (unat p) 4084" by auto
  then show "\<exists>p st'. malloc sz st = Some (p, st') \<and> p \<noteq> 0 \<and> heap_ok st' F \<and> allocated st' F (unat p) 4084"
    using assms(1) unfolding m by (auto simp: heap_ok_def)
  show "calloc 65537 65537 st = do {
        (p, st) \<leftarrow> malloc 131073 st;
        st \<leftarrow> (if p \<noteq> 0 then fill_block p 0 131073 st else Some st);
        Some (p, st) }"
  proof -
    have prod: "65537 * 65537 = (131073 :: u32)" by (rule word_uint_eqI) simp
    have ge: "\<not> (131073 < (65537 :: u32) \<or> 131073 < (65537 :: u32))" and n: "unat (131073 :: u32) = 131073" by simp_all
    show ?thesis unfolding calloc_def Let_def prod if_not_P [OF ge] n ..
  qed
qed

theorem huge_request_gets_one_page_witness:
  "\<exists>st p st'. malloc_init ex_lists ex_heap = Some st \<and> malloc 4294967295 st = Some (p, st') \<and> allocated st' (\<lambda>_. []) (unat p) 4084"
proof -
  obtain st where st: "malloc_init ex_lists ex_heap = Some st" "heap_ok st (\<lambda>_. [])" "hm st = small_machine" using ex_heap_init by blast
  have "4294967285 \<le> unat (4294967295 :: u32)" by simp
  then show ?thesis using huge_request_gets_one_page [OF st(2), of 4294967295 0] ex_heap_free st(1,3) by auto
qed

end
