(* ===== verification/Spec2Isabelle.thy ===== *)
theory Spec2Isabelle imports KernelListSort KernelListLoops Bitmap SupPageTable KernelOrder CString Arith64 PseudoRandom FileSys DirEntries SortTheorems StdIOTheorems PageDirTheorems SyscallTheorems ProgramSegments MallocTheorems begin

text \<open>
  A verification development for the Pintos teaching operating system, in the version of its last
  project, \<^verbatim>\<open>src/project5/src\<close> (the directories \<^verbatim>\<open>project1\<close> to \<^verbatim>\<open>project4\<close> are earlier versions of the same
  files).  Paths below are relative to it.

  The program.  The kernel runs threads on one processor: \<^verbatim>\<open>threads/thread.c\<close> keeps the lists of ready and of
  sleeping threads and switches between them, by priority or with a feedback queue whose formulas are in
  \<^verbatim>\<open>threads/fixed-point.h\<close>; \<^verbatim>\<open>threads/synch.c\<close> builds semaphores, locks and condition variables on blocking and
  unblocking; \<^verbatim>\<open>devices/timer.c\<close> preempts and wakes sleepers.  The file system keeps files as trees of sectors
  (\<^verbatim>\<open>filesys/inode.c\<close>) on a block device behind a cache (\<^verbatim>\<open>filesys/cache.c\<close>), with a bitmap of free sectors that is
  itself a file (\<^verbatim>\<open>filesys/free-map.c\<close>), and directories that are files of entries (\<^verbatim>\<open>filesys/directory.c\<close>).  Memory
  is handed out in pages (\<^verbatim>\<open>threads/palloc.c\<close>) and mapped by page tables (\<^verbatim>\<open>userprog/pagedir.c\<close>).  All use the
  kernel's library: doubly linked lists, hash tables, bitmaps, strings, sorting, formatted output, 64-bit arithmetic.

  The theories.
    \<^item> \<open>Prelude\<close>: the failure monad (a panic, a failed assertion or a fault is \<open>None\<close>), machine integers, the
      generic lemmas.
    \<^item> \<open>KernelList\<close>, \<open>KernelListLinks\<close>, \<open>OrderedLists\<close>, \<open>KernelListLoops\<close>, \<open>KernelListSort\<close>: \<^verbatim>\<open>lib/kernel/list.c\<close> at the level of its
      pointers, over a store of list elements.  The invariant says that the pointers link a sequence; every
      operation is shown to act on the sequence, and sorting to be stable and to terminate.
    \<^item> \<open>HashTable\<close>, \<open>SupPageTable\<close>: \<^verbatim>\<open>lib/kernel/hash.c\<close> over a locale with the contract of its callbacks, and the
      supplemental page table (\<^verbatim>\<open>vm/page.c\<close>) as a client, which fulfils the contract for aligned addresses only.
    \<^item> \<open>Bitmap\<close>: \<^verbatim>\<open>lib/kernel/bitmap.c\<close> on 32-bit words, refined to lists of bits.
    \<^item> \<open>FixedPoint\<close>, \<open>Scheduler\<close>, \<open>Synch\<close>, \<open>Timer\<close>, \<open>Kernel\<close>: the threads.  The state \<open>kernel\<close> holds the lists, the
      threads by address, the semaphores and, for each thread, its continuation: what it will do when it is
      switched to again.  A context switch therefore is a change of the running thread and the pop of a
      continuation, and \<open>Kernel\<close> has the step relation of all kernel calls, returns and timer interrupts.
    \<^item> \<open>ThreadLists\<close>, \<open>KernelSteps\<close>, \<open>KernelLocks\<close>, \<open>KernelTheorems\<close>, \<open>KernelOrder\<close>: invariants over the reachable states
      of that relation (lists and states of threads agree, locks exclude and are not lost) and what the
      scheduling order is.
    \<^item> \<open>CString\<close>, \<open>Arith64\<close>, \<open>PseudoRandom\<close>: \<^verbatim>\<open>lib/string.c\<close> over a partial memory of bytes, \<^verbatim>\<open>lib/arithmetic.c\<close>,
      \<^verbatim>\<open>lib/random.c\<close>.
    \<^item> \<open>StdLib\<close>, \<open>HeapSort\<close>, \<open>SortTheorems\<close>: \<^verbatim>\<open>lib/ctype.h\<close> and \<^verbatim>\<open>lib/stdlib.c\<close> over the same memory.  \<open>HeapSort\<close> is the heap sort
      on lists over a locale with the laws of a comparison; \<open>SortTheorems\<close> shows that the code, which swaps bytes in
      memory, refines it.
    \<^item> \<open>StdIO\<close>, \<open>StdIOTheorems\<close>: \<^verbatim>\<open>lib/stdio.c\<close>, with the format as a list of characters, the arguments as 32-bit words
      and the place of the output as a function on a state.
    \<^item> \<open>BlockDevice\<close>, \<open>BufferCache\<close>: \<^verbatim>\<open>devices/block.c\<close> and \<^verbatim>\<open>filesys/cache.c\<close>.  The locale \<open>sector_store\<close> is the contract of
      a store of sectors, and both are shown to fulfil it, the cache for the disk as its callers see it.
    \<^item> \<open>FsState\<close>, \<open>InodeIO\<close>, \<open>FreeMap\<close>, \<open>Inode\<close>, \<open>Directory\<close>, \<open>FileSys\<close>: the operations of the file system, with inodes,
      open files and directories in a heap and their layout on the disk.
    \<^item> \<open>InodeContent\<close>: an inode as the list of its bytes; reading and writing inside a file.
    \<^item> \<open>SectorAllocator\<close>: the contract of the allocation of sectors as a locale, and the free map as its provider.
    \<^item> \<open>IndexTree\<close>, \<open>InodeIndex\<close>, \<open>InodeGrowth\<close>, \<open>IndexInvariant\<close>, \<open>FileGrowth\<close>, \<open>FsTheorems\<close>: the index of a file as trees,
      their growth against that contract, and the theorems on files.
    \<^item> \<open>DirEntries\<close>: a directory as the list of the entries in its file, and what adding and looking up do to it.
    \<^item> \<open>PageAlloc\<close>, \<open>PageAllocTheorems\<close>: \<^verbatim>\<open>threads/palloc.c\<close> on a state \<open>machine\<close> of memory, pools and registers, over the
      bytes of \<open>CString\<close> and the bitmaps of \<open>Bitmap\<close>.
    \<^item> \<open>Malloc\<close>, \<open>MallocTheorems\<close>: \<^verbatim>\<open>threads/malloc.c\<close> over the page allocator and the lists of \<open>KernelList\<close>.  The invariant
      \<open>heap_ok\<close> relates arenas, used pages and free lists; malloc and free are shown to add and remove one block of the
      relation \<open>allocated\<close>, whose blocks do not overlap.
    \<^item> \<open>PageDir\<close>, \<open>PageDirTheorems\<close>: \<^verbatim>\<open>userprog/pagedir.c\<close>, \<^verbatim>\<open>threads/pte.h\<close> and the kernel's mapping of \<^verbatim>\<open>threads/init.c\<close>.
      Page directories are words in that memory; the invariant \<open>dirs_ok\<close> says which pages are directories and
      tables, and \<open>entry\<close> reads a directory as the map from pages to entries that the operations change.
    \<^item> \<open>Syscalls\<close>, \<open>SyscallTheorems\<close>: \<^verbatim>\<open>userprog/syscall.c\<close> on a state \<open>proc\<close> of one process: its descriptors, its memory, the
      file system below it, the console and the keyboard.  A call gives a value, ends the process or halts; \<open>None\<close>
      is a panic of the kernel.  The theorems compose them with those on files.

    \<^item> \<open>Loader\<close>, \<open>LoaderTheorems\<close>, \<open>ProgramSegments\<close>: the loading of a program in \<^verbatim>\<open>userprog/process.c\<close> on the file system and
      the machine together.  \<open>LoaderTheorems\<close> follows one page of the user pool through getting, filling and mapping it
      and then the loop over the pages; \<open>ProgramSegments\<close> states the result for the bytes of a segment.

  Conventions.  A function of the source that cannot fail is a function; one that may panic, fault or not return
  gives an option.  Loops are structural where the source counts, and \<open>partial_function (option)\<close> where it
  follows pointers; that they return is proved.  Where the source calls itself through other files,
  \<open>free_map_allocate\<close> through the write of its file, the model takes the depth of the calls as a fuel of the
  number of bits and two, and since the free map's file never grows the depth is one.  The boot of the kernel
  in \<open>KernelTheorems\<close> runs with a fuel of 40 turns of the step function, more than it uses.  Integers have the
  width of the source where that matters: priorities and offsets are wrapped with \<open>int32\<close> and \<open>int64\<close>, bitmaps
  and file layouts are words.

  What is assumed.  Where other parts call \<open>malloc\<close> it gives a fresh address or fails, as an argument decides; theorems on files assume that
  it does not fail.  Uninitialised stack memory that the code reads is an argument as well (\<open>frame\<close>).  The driver
  below a block device returns what was written.  Sorting assumes that the comparison is a total preorder.  The threads are those of the build without \<^verbatim>\<open>USERPROG\<close>; the file
  system is used by one thread at a time, the cache's lock is a flag.

  Not modelled: code that programs hardware (drivers, descriptor tables, the context switch in assembly), code that
  prints to the console (with \<^verbatim>\<open>hex_dump\<close> and \<^verbatim>\<open>print_human_readable_size\<close>), the frame table and the swap
  table in \<^verbatim>\<open>vm\<close>, which no other file calls, the start of processes and the waiting for them, the page fault
  handler, the user library and programs, and the host tools; the manifest lists them by file.
\<close>

end
